(* ===== verification/Prelude.thy ===== *)
theory Prelude
  imports Main "HOL-Library.Word" "HOL-Library.Monad_Syntax"
begin

text \<open>
  Shared vocabulary of the development: the machine types of the Rust sources, the result
  types their operations return, the parts of the Rust standard library the components call
  (slices, decimal and hexadecimal numbers, UTF-8), and the list and option lemmas that the
  component proofs rest on.

  Conventions.
  \<^item> A panic (a failed \<open>assert!\<close>, an index out of range, an \<open>unwrap\<close> of nothing) is \<open>None\<close> of
    the type \<open>'a run\<close>; \<open>Some x\<close> is a normal return of \<open>x\<close>. Both build profiles of the
    repository set \<open>panic = "abort"\<close>, so nothing runs after a panic.
  \<^item> A Rust \<open>Result<T, E>\<close> is the sum \<open>'e + 't\<close>, with \<open>Inl\<close> the error.
  \<^item> Lengths and positions of allocations that exist are \<open>nat\<close>: Rust bounds an allocation by
    \<open>isize::MAX\<close>, so sums of two of them fit a 64-bit \<open>usize\<close>. Numbers that come from the
    outside (a size field of a packet) are kept at their width.
\<close>

section \<open>Machine types and results\<close>

type_synonym u8 = "8 word"
type_synonym u16 = "16 word"
type_synonym u64 = "64 word"
type_synonym bytes = "u8 list"

type_synonym 'a run = "'a option"

abbreviation (input) panic :: "'a run" where
  "panic \<equiv> None"

definition assert_that :: "bool \<Rightarrow> unit run" where
  "assert_that b = (if b then Some () else panic)"

lemma assert_that_simps [simp]:
  "assert_that True = Some ()"
  "assert_that False = panic"
  by (simp_all add: assert_that_def)

lemma assert_that_eq_Some [simp]: "assert_that b = Some u \<longleftrightarrow> b"
  by (simp add: assert_that_def)

lemma assert_that_bind:
  "(assert_that b \<bind> (\<lambda>u. f u)) = (if b then f () else None)"
  by (simp add: assert_that_def)

text \<open>The kinds of \<open>std::io::Error\<close> that the sources construct or test.\<close>

datatype io_error =
    WriteZero
  | UnexpectedEof
  | InvalidInput
  | InvalidData
  | Interrupted
  | WouldBlock
  | BrokenPipe
  | ConnectionRefused
  | TimedOut
  | OtherError

named_theorems run_simps \<open>unfolding of the run monad and of the slice primitives\<close>

lemmas [run_simps] = assert_that_bind Let_def

section \<open>64-bit usize arithmetic\<close>

text \<open>
  \<open>usize\<close> is 64 bits wide on the platforms the project builds for. Addition panics on
  overflow when overflow checks are on (the \<open>dev\<close> profile) and wraps when they are off (the
  \<open>release\<close> profile, which does not set \<open>overflow-checks\<close>); the flag \<open>oc\<close> is that setting.
\<close>

definition usize_max :: nat where
  "usize_max = 2 ^ 64 - 1"

definition isize_max :: int where
  "isize_max = 2 ^ 63 - 1"

definition isize_min :: int where
  "isize_min = - (2 ^ 63)"

definition usize_add :: "bool \<Rightarrow> nat \<Rightarrow> nat \<Rightarrow> nat run" where
  "usize_add oc a b =
     (if a + b \<le> usize_max then Some (a + b)
      else if oc then panic else Some ((a + b) mod 2 ^ 64))"

lemma usize_add_in_range [simp]: "a + b \<le> usize_max \<Longrightarrow> usize_add oc a b = Some (a + b)"
  by (simp add: usize_add_def)

text \<open>
  A subtraction whose result would be negative. It is a panic with overflow checks; where the
  models use it, the proofs show that it does not happen, so that both profiles agree.
\<close>

definition usize_sub :: "nat \<Rightarrow> nat \<Rightarrow> nat run" where
  "usize_sub a b = (if b \<le> a then Some (a - b) else panic)"

lemma usize_sub_in_range [simp]: "b \<le> a \<Longrightarrow> usize_sub a b = Some (a - b)"
  by (simp add: usize_sub_def)

section \<open>Slices\<close>

text \<open>\<open>&xs[s..e]\<close>, \<open>dest[d..d+n].copy_from_slice(src)\<close> and \<open>copy_within\<close> with their panics.\<close>

definition subslice :: "'a list \<Rightarrow> nat \<Rightarrow> nat \<Rightarrow> 'a list run" where
  "subslice xs s e = (if s \<le> e \<and> e \<le> length xs then Some (take (e - s) (drop s xs)) else panic)"

definition index_at :: "'a list \<Rightarrow> nat \<Rightarrow> 'a run" where
  "index_at xs i = (if i < length xs then Some (xs ! i) else panic)"

definition overwrite :: "'a list \<Rightarrow> nat \<Rightarrow> 'a list \<Rightarrow> 'a list" where
  "overwrite xs d ys = take d xs @ ys @ drop (d + length ys) xs"

definition copy_from_slice :: "'a list \<Rightarrow> nat \<Rightarrow> nat \<Rightarrow> 'a list \<Rightarrow> 'a list run" where
  "copy_from_slice dest s e src =
     (if s \<le> e \<and> e \<le> length dest \<and> length src = e - s then Some (overwrite dest s src) else panic)"

definition copy_within :: "'a list \<Rightarrow> nat \<Rightarrow> nat \<Rightarrow> nat \<Rightarrow> 'a list run" where
  "copy_within xs s e d =
     (if s \<le> e \<and> e \<le> length xs \<and> d + (e - s) \<le> length xs
      then Some (overwrite xs d (take (e - s) (drop s xs))) else panic)"

lemma subslice_eq [simp]: "s \<le> e \<Longrightarrow> e \<le> length xs \<Longrightarrow> subslice xs s e = Some (take (e - s) (drop s xs))"
  by (simp add: subslice_def)

lemma subslice_Some_iff: "subslice xs s e = Some ys \<longleftrightarrow> s \<le> e \<and> e \<le> length xs \<and> ys = take (e - s) (drop s xs)"
  by (auto simp: subslice_def)

lemma index_at_eq [simp]: "i < length xs \<Longrightarrow> index_at xs i = Some (xs ! i)"
  by (simp add: index_at_def)

lemma length_overwrite [simp]: "d + length ys \<le> length xs \<Longrightarrow> length (overwrite xs d ys) = length xs"
  by (simp add: overwrite_def)

lemma overwrite_Nil [simp]: "overwrite xs d [] = xs"
  by (simp add: overwrite_def)

lemma nth_overwrite:
  assumes "d + length ys \<le> length xs" and "i < length xs"
  shows "overwrite xs d ys ! i =
    (if d \<le> i \<and> i < d + length ys then ys ! (i - d) else xs ! i)"
  using assms by (auto simp: overwrite_def nth_append)

lemma take_overwrite_ge:
  assumes "n \<le> d" "d \<le> length xs"
  shows "take n (overwrite xs d ys) = take n xs"
  using assms by (simp add: overwrite_def min_def)

lemma drop_overwrite_ge:
  assumes "d + length ys \<le> n" "d + length ys \<le> length xs"
  shows "drop n (overwrite xs d ys) = drop n xs"
  using assms by (simp add: overwrite_def)

section \<open>List lemmas\<close>

lemma take_drop_append_cover:
  assumes "n \<le> length xs"
  shows "take n xs @ take m (drop n xs) = take (n + m) xs"
  using assms by (simp add: take_add)

lemma sum_list_length_concat: "length (concat xss) = sum_list (map length xss)"
  by (simp add: length_concat)

fun option_hd :: "'a list \<Rightarrow> 'a option" where
  "option_hd [] = None"
| "option_hd (x # xs) = Some x"

definition option_last :: "'a list \<Rightarrow> 'a option" where
  "option_last xs = (if xs = [] then None else Some (last xs))"

lemma option_last_simps [simp]:
  "option_last [] = None"
  "option_last (xs @ [x]) = Some x"
  by (simp_all add: option_last_def)

lemma option_hd_eq_None [simp]: "option_hd xs = None \<longleftrightarrow> xs = []"
  by (cases xs) auto

lemma option_last_eq_None [simp]: "option_last xs = None \<longleftrightarrow> xs = []"
  by (simp add: option_last_def)

section \<open>ASCII bytes\<close>

text \<open>Byte literals \<open>b'x'\<close> and \<open>b"..."\<close> of the sources.\<close>

definition chr :: "char \<Rightarrow> u8" where
  "chr c = of_char c"

definition str :: "string \<Rightarrow> bytes" where
  "str s = map chr s"

lemma str_simps [simp]:
  "str [] = []"
  "str (c # cs) = chr c # str cs"
  by (simp_all add: str_def)

lemma length_str [simp]: "length (str s) = length s"
  by (simp add: str_def)

end
