(* ===== verification/Counter.thy ===== *)
theory Counter
  imports Prelude
begin

text \<open>
  The shared counter of \<open>src/core/counter.rs\<close>: an atomic \<open>usize\<close> with checked increments and
  decrements. \<open>counter_inc\<close> and \<open>counter_dec\<close> are what one call computes when nothing else
  touches the counter. \<open>cstep\<close> is the compare-and-swap loop itself, interleaved over any number
  of threads: a load, then an exchange that succeeds only if the value is still the loaded one.
  The lemmas show that the interleaved loops behave as the sequential operations do
  (linearizability at the exchange, or at the load for a refused call).
\<close>

section \<open>Sequential operations\<close>

datatype counter_error = CounterError

definition counter_new :: "nat \<Rightarrow> nat" where
  "counter_new value = value"

definition counter_inc :: "nat \<Rightarrow> nat \<Rightarrow> (counter_error + unit) \<times> nat" where
  "counter_inc value amount =
     (if amount = 0 then (Inr (), value)
      else if amount > usize_max - value then (Inl CounterError, value)
      else (Inr (), value + amount))"

definition counter_dec :: "nat \<Rightarrow> nat \<Rightarrow> (counter_error + unit) \<times> nat" where
  "counter_dec value amount =
     (if amount = 0 then (Inr (), value)
      else if amount > value then (Inl CounterError, value)
      else (Inr (), value - amount))"

lemma counter_inc_ok_iff: "v \<le> usize_max \<Longrightarrow> fst (counter_inc v n) = Inr () \<longleftrightarrow> v + n \<le> usize_max"
  by (auto simp: counter_inc_def)

lemma counter_inc_bound: "v \<le> usize_max \<Longrightarrow> snd (counter_inc v n) \<le> usize_max"
  by (auto simp: counter_inc_def)

lemma counter_dec_bound: "v \<le> usize_max \<Longrightarrow> snd (counter_dec v n) \<le> usize_max"
  by (auto simp: counter_dec_def)

lemma counter_dec_Inr_iff: "fst (counter_dec v n) = Inr () \<longleftrightarrow> n \<le> v"
  by (auto simp: counter_dec_def)

lemma counter_dec_snd: "n \<le> v \<Longrightarrow> snd (counter_dec v n) = v - n"
  by (auto simp: counter_dec_def)

lemma counter_inc_dec:
  assumes "fst (counter_dec v n) = Inr ()" and "v \<le> usize_max"
  shows "counter_inc (snd (counter_dec v n)) n = (Inr (), v)"
  using assms by (auto simp: counter_inc_def counter_dec_def split: if_splits)

section \<open>The compare-and-swap loops\<close>

datatype counter_call = Inc nat | Dec nat

fun call_amount :: "counter_call \<Rightarrow> nat" where
  "call_amount (Inc n) = n"
| "call_amount (Dec n) = n"

fun call_result :: "counter_call \<Rightarrow> nat \<Rightarrow> (counter_error + unit) \<times> nat" where
  "call_result (Inc n) v = counter_inc v n"
| "call_result (Dec n) v = counter_dec v n"

text \<open>The range check of a call against the value it has loaded, and the value it would store.\<close>

fun call_refused :: "counter_call \<Rightarrow> nat \<Rightarrow> bool" where
  "call_refused (Inc n) v \<longleftrightarrow> n > usize_max - v"
| "call_refused (Dec n) v \<longleftrightarrow> n > v"

fun call_new_value :: "counter_call \<Rightarrow> nat \<Rightarrow> nat" where
  "call_new_value (Inc n) v = v + n"
| "call_new_value (Dec n) v = v - n"

text \<open>
  Where a thread is inside its call: at the head of the loop, holding a loaded value that
  passed the check, or returned.
\<close>

datatype call_pc =
    Idle
  | LoopHead counter_call
  | Loaded counter_call nat
  | Returned counter_call "counter_error + unit"

record counter_sys =
  cvalue :: nat
  threads :: "nat \<Rightarrow> call_pc"

text \<open>
  A step of the system. The list in the middle is what the step completes: a call together with
  the result it returns, or nothing.
\<close>

inductive cstep :: "counter_sys \<Rightarrow> (counter_call \<times> (counter_error + unit)) list \<Rightarrow> counter_sys \<Rightarrow> bool" where
  invoke: "threads s t \<in> {Idle, Returned c' r} \<Longrightarrow>
     cstep s [] (s\<lparr>threads := (threads s)(t := LoopHead c)\<rparr>)"
| zero_amount: "threads s t = LoopHead c \<Longrightarrow> call_amount c = 0 \<Longrightarrow>
     cstep s [(c, Inr ())] (s\<lparr>threads := (threads s)(t := Returned c (Inr ()))\<rparr>)"
| load_refused: "threads s t = LoopHead c \<Longrightarrow> call_amount c \<noteq> 0 \<Longrightarrow> call_refused c (cvalue s) \<Longrightarrow>
     cstep s [(c, Inl CounterError)]
       (s\<lparr>threads := (threads s)(t := Returned c (Inl CounterError))\<rparr>)"
| load: "threads s t = LoopHead c \<Longrightarrow> call_amount c \<noteq> 0 \<Longrightarrow> \<not> call_refused c (cvalue s) \<Longrightarrow>
     cstep s [] (s\<lparr>threads := (threads s)(t := Loaded c (cvalue s))\<rparr>)"
| exchange: "threads s t = Loaded c v \<Longrightarrow> cvalue s = v \<Longrightarrow>
     cstep s [(c, Inr ())]
       (s\<lparr>cvalue := call_new_value c v, threads := (threads s)(t := Returned c (Inr ()))\<rparr>)"
| exchange_failed: "threads s t = Loaded c v \<Longrightarrow> cvalue s \<noteq> v \<Longrightarrow>
     cstep s [] (s\<lparr>threads := (threads s)(t := LoopHead c)\<rparr>)"

inductive csteps :: "counter_sys \<Rightarrow> (counter_call \<times> (counter_error + unit)) list \<Rightarrow> counter_sys \<Rightarrow> bool" where
  start: "csteps s [] s"
| snoc: "csteps s h s' \<Longrightarrow> cstep s' h' s'' \<Longrightarrow> csteps s (h @ h') s''"

definition counter_init :: "nat \<Rightarrow> counter_sys" where
  "counter_init v = \<lparr>cvalue = v, threads = (\<lambda>_. Idle)\<rparr>"

text \<open>The sequential history: each call run alone, in order, with the result it must give.\<close>

fun replay :: "nat \<Rightarrow> (counter_call \<times> (counter_error + unit)) list \<Rightarrow> nat option" where
  "replay v [] = Some v"
| "replay v ((c, r) # h) = (if fst (call_result c v) = r then replay (snd (call_result c v)) h else None)"

lemma replay_append: "replay v (h @ h') = Option.bind (replay v h) (\<lambda>v'. replay v' h')"
  by (induction v h rule: replay.induct) auto

text \<open>What every reachable state satisfies: a held value passed its check, and its amount is not 0.\<close>

definition loaded_ok :: "counter_sys \<Rightarrow> bool" where
  "loaded_ok s \<longleftrightarrow> (\<forall>t c v. threads s t = Loaded c v \<longrightarrow> call_amount c \<noteq> 0 \<and> \<not> call_refused c v)"

lemma call_result_ok:
  "call_amount c \<noteq> 0 \<Longrightarrow> \<not> call_refused c v \<Longrightarrow> call_result c v = (Inr (), call_new_value c v)"
  by (cases c) (auto simp: counter_inc_def counter_dec_def)

lemma call_result_refused:
  "call_amount c \<noteq> 0 \<Longrightarrow> call_refused c v \<Longrightarrow> call_result c v = (Inl CounterError, v)"
  by (cases c) (auto simp: counter_inc_def counter_dec_def)

lemma call_result_zero: "call_amount c = 0 \<Longrightarrow> call_result c v = (Inr (), v)"
  by (cases c) (auto simp: counter_inc_def counter_dec_def)

lemma loaded_ok_init: "loaded_ok (counter_init v)"
  by (simp add: loaded_ok_def counter_init_def)

lemma cstep_loaded_ok: "cstep s h s' \<Longrightarrow> loaded_ok s \<Longrightarrow> loaded_ok s'"
  by (induction rule: cstep.induct) (auto simp: loaded_ok_def)

lemma cstep_replay: "cstep s h s' \<Longrightarrow> loaded_ok s \<Longrightarrow> replay (cvalue s) h = Some (cvalue s')"
  by (induction rule: cstep.induct)
     (auto simp: loaded_ok_def call_result_ok call_result_refused call_result_zero)

lemma csteps_replay:
  "csteps s h s' \<Longrightarrow> loaded_ok s \<Longrightarrow> loaded_ok s' \<and> replay (cvalue s) h = Some (cvalue s')"
proof (induction rule: csteps.induct)
  case (start s)
  then show ?case by simp
next
  case (snoc s h s' h' s'')
  then show ?case
    by (auto simp: replay_append cstep_replay dest: cstep_loaded_ok)
qed

lemma call_result_bound: "v \<le> usize_max \<Longrightarrow> snd (call_result c v) \<le> usize_max"
  by (cases c) (auto simp: counter_inc_bound counter_dec_bound)

lemma replay_bound: "replay v h = Some v' \<Longrightarrow> v \<le> usize_max \<Longrightarrow> v' \<le> usize_max"
  by (induction v h rule: replay.induct) (auto simp: call_result_bound split: if_splits)

text \<open>
  Property C31. The counter is linearizable: whatever the interleaving of any number of concurrent
  \<open>inc\<close> and \<open>dec\<close> calls, replaying the completed calls one after the other, each run alone, gives
  every call the result it returned and ends with the counter's value, which never leaves the
  range of \<open>usize\<close>.
\<close>

theorem counter_linearizable:
  assumes "csteps (counter_init v) h s'" and "v \<le> usize_max"
  shows "replay v h = Some (cvalue s') \<and> cvalue s' \<le> usize_max"
proof -
  have "replay v h = Some (cvalue s')"
    using csteps_replay [OF assms(1) loaded_ok_init] by (simp add: counter_init_def)
  with replay_bound [OF this assms(2)] show ?thesis by simp
qed

text \<open>Two increments race: the second exchange is made with a stale value, fails and is retried.\<close>

lemma race_steps:
  "csteps (counter_init 0) [(Inc 2, Inr ())]
     \<lparr>cvalue = 2, threads = ((\<lambda>_. Idle)(1 := LoopHead (Inc 3), 0 := Returned (Inc 2) (Inr ())))\<rparr>"
proof -
  have "csteps (counter_init 0) [] (counter_init 0)" by (rule csteps.start)
  from csteps.snoc [OF this cstep.invoke [of _ 0 "Inc 2" "Inr ()" "Inc 2"]]
  have "csteps (counter_init 0) [] \<lparr>cvalue = 0, threads = (\<lambda>_. Idle)(0 := LoopHead (Inc 2))\<rparr>"
    by (simp add: counter_init_def)
  from csteps.snoc [OF this cstep.invoke [of _ 1 "Inc 2" "Inr ()" "Inc 3"]]
  have "csteps (counter_init 0) [] \<lparr>cvalue = 0, threads = (\<lambda>_. Idle)(0 := LoopHead (Inc 2), 1 := LoopHead (Inc 3))\<rparr>"
    by simp
  from csteps.snoc [OF this cstep.load [of _ 0 "Inc 2"]]
  have "csteps (counter_init 0) [] \<lparr>cvalue = 0, threads = (\<lambda>_. Idle)(1 := LoopHead (Inc 3), 0 := Loaded (Inc 2) 0)\<rparr>"
    by (simp add: usize_max_def fun_upd_twist)
  from csteps.snoc [OF this cstep.load [of _ 1 "Inc 3"]]
  have "csteps (counter_init 0) [] \<lparr>cvalue = 0, threads = (\<lambda>_. Idle)(0 := Loaded (Inc 2) 0, 1 := Loaded (Inc 3) 0)\<rparr>"
    by (simp add: usize_max_def fun_upd_twist)
  from csteps.snoc [OF this cstep.exchange [of _ 0 "Inc 2" 0]]
  have "csteps (counter_init 0) [(Inc 2, Inr ())]
     \<lparr>cvalue = 2, threads = (\<lambda>_. Idle)(1 := Loaded (Inc 3) 0, 0 := Returned (Inc 2) (Inr ()))\<rparr>"
    by (simp add: fun_upd_twist numeral_2_eq_2)
  from csteps.snoc [OF this cstep.exchange_failed [of _ 1 "Inc 3" 0]]
  show ?thesis by (simp add: fun_upd_twist)
qed

theorem counter_linearizable_witness:
  "replay 0 [(Inc 2, Inr ())] = Some 2 \<and> (2::nat) \<le> usize_max"
  using counter_linearizable [OF race_steps] by simp

end
