(* ===== verification/Buffer.thy ===== *)
theory Buffer
  imports Counter
begin

text \<open>
  The byte buffers of \<open>src/core/buffer.rs\<close>.

  \<^item> \<open>ring_buffer\<close> is \<open>RingBuffer\<close> (\<open>VecRingBuffer\<close>/\<open>SliceRingBuffer\<close>): a fixed array with two
    positions, \<open>start < capacity\<close> and \<open>start \<le> end \<le> start + capacity\<close>; an \<open>end\<close> past the
    capacity means that the readable bytes wrap. The scratch vector (\<open>TmpBuffer\<close>) is shared by
    the buffers of a thread; \<open>align\<close> writes the part it uses before it reads it, so only its
    length, which never changes, is part of the state.
  \<^item> \<open>contiguous_buffer\<close> and \<open>filled_buf\<close> are \<open>ContiguousBuffer\<close> and \<open>FilledBuf\<close>.
  \<^item> \<open>buffer_budget\<close> is \<open>BufferBudget\<close>, with the shared counter it draws from passed along.
  \<^item> A mutable slice into a buffer (\<open>write_buf\<close>) is the range it covers; filling it is a
    separate operation on that range.

  The interface locale \<open>byte_queue\<close> states what the trait \<open>Buffer\<close> promises: a queue of bytes
  that is read from the front and written at the back. Both buffers are interpreted in it.
\<close>

section \<open>RingBuffer\<close>

record ring_buffer =
  rb_buf :: bytes
  rb_start :: nat
  rb_end :: nat
  rb_tmp_len :: nat

definition rb_capacity :: "ring_buffer \<Rightarrow> nat" where
  "rb_capacity rb = length (rb_buf rb)"

definition rb_clear :: "ring_buffer \<Rightarrow> ring_buffer" where
  "rb_clear rb = rb\<lparr>rb_start := 0, rb_end := 0\<rparr>"

definition is_readable_contiguous :: "ring_buffer \<Rightarrow> bool" where
  "is_readable_contiguous rb \<longleftrightarrow> rb_end rb \<le> length (rb_buf rb)"

text \<open>The branch of \<open>align\<close> that needs the scratch vector, on the inner array.\<close>

definition align_with_tmp :: "ring_buffer \<Rightarrow> bytes run" where
  "align_with_tmp rb =
     (let buf = rb_buf rb;
          left_size = rb_end rb - length buf;
          right_size = length buf - rb_start rb;
          (lsize, lsrc, ldest, hsize, hsrc, hdest) =
            (if left_size < right_size
             then (left_size, 0, right_size, right_size, rb_start rb, 0)
             else (right_size, rb_start rb, 0, left_size, 0, right_size))
      in do {
        assert_that (lsize \<le> rb_tmp_len rb);
        tmp \<leftarrow> subslice buf lsrc (lsrc + lsize);
        buf \<leftarrow> copy_within buf hsrc (hsrc + hsize) hdest;
        copy_from_slice buf ldest (ldest + lsize) tmp
      })"

definition align :: "ring_buffer \<Rightarrow> (nat \<times> ring_buffer) run" where
  "align rb = do {
     assert_that (length (rb_buf rb) \<le> rb_tmp_len rb);
     if rb_start rb = 0 then Some (0, rb)
     else
       let buf = rb_buf rb; size = rb_end rb - rb_start rb in
       do {
         buf' \<leftarrow>
           (if rb_end rb \<le> length buf then copy_within buf (rb_start rb) (length buf) 0
            else if size \<le> rb_start rb then
              let left_size = rb_end rb - length buf;
                  right_size = length buf - rb_start rb
              in do {
                buf \<leftarrow> copy_within buf 0 left_size right_size;
                copy_within buf (rb_start rb) (rb_start rb + right_size) 0
              }
            else align_with_tmp rb);
         Some (size, rb\<lparr>rb_buf := buf', rb_start := 0, rb_end := size\<rparr>)
       }
   }"

definition rb_len :: "ring_buffer \<Rightarrow> nat" where
  "rb_len rb = rb_end rb - rb_start rb"

definition rb_remaining_capacity :: "ring_buffer \<Rightarrow> nat" where
  "rb_remaining_capacity rb = length (rb_buf rb) - (rb_end rb - rb_start rb)"

definition rb_read_buf :: "ring_buffer \<Rightarrow> bytes run" where
  "rb_read_buf rb = subslice (rb_buf rb) (rb_start rb) (min (rb_end rb) (length (rb_buf rb)))"

definition rb_read_commit :: "ring_buffer \<Rightarrow> nat \<Rightarrow> ring_buffer run" where
  "rb_read_commit rb amount = do {
     assert_that (rb_start rb + amount \<le> rb_end rb);
     let start = rb_start rb + amount in
     if start = rb_end rb then Some (rb\<lparr>rb_start := 0, rb_end := 0\<rparr>)
     else if start \<ge> length (rb_buf rb)
       then Some (rb\<lparr>rb_start := start - length (rb_buf rb),
                     rb_end := rb_end rb - length (rb_buf rb)\<rparr>)
     else Some (rb\<lparr>rb_start := start\<rparr>)
   }"

text \<open>The range of the inner array that \<open>write_buf\<close> hands out.\<close>

definition rb_write_range :: "ring_buffer \<Rightarrow> (nat \<times> nat) run" where
  "rb_write_range rb =
     (let (s, e) =
        (if rb_end rb < length (rb_buf rb) then (rb_end rb, length (rb_buf rb))
         else (rb_end rb - length (rb_buf rb), rb_start rb))
      in do { assert_that (s \<le> e \<and> e \<le> length (rb_buf rb)); Some (s, e) })"

definition rb_write_commit :: "ring_buffer \<Rightarrow> nat \<Rightarrow> ring_buffer run" where
  "rb_write_commit rb amount = do {
     assert_that ((rb_end rb - rb_start rb) + amount \<le> length (rb_buf rb));
     Some (rb\<lparr>rb_end := rb_end rb + amount\<rparr>)
   }"

text \<open>\<open>dest[..size].copy_from_slice(data)\<close> with \<open>dest\<close> the slice of \<open>write_buf\<close>.\<close>

definition rb_fill :: "ring_buffer \<Rightarrow> bytes \<Rightarrow> ring_buffer run" where
  "rb_fill rb data = do {
     (s, e) \<leftarrow> rb_write_range rb;
     assert_that (s + length data \<le> e);
     buf \<leftarrow> copy_from_slice (rb_buf rb) s (s + length data) data;
     Some (rb\<lparr>rb_buf := buf\<rparr>)
   }"

text \<open>The loop of \<open>Write::write\<close> on the bytes still to be written, with the count so far.\<close>

partial_function (option) rb_write_loop :: "ring_buffer \<Rightarrow> bytes \<Rightarrow> nat \<Rightarrow> (nat \<times> ring_buffer) option" where
  "rb_write_loop rb data pos =
     (if pos < length data \<and> rb_remaining_capacity rb > 0 then
        do {
          (s, e) \<leftarrow> rb_write_range rb;
          let size = min (e - s) (length data - pos);
          rb \<leftarrow> rb_fill rb (take size (drop pos data));
          rb \<leftarrow> rb_write_commit rb size;
          rb_write_loop rb data (pos + size)
        }
      else Some (pos, rb))"

definition rb_write :: "ring_buffer \<Rightarrow> bytes \<Rightarrow> ((io_error + nat) \<times> ring_buffer) run" where
  "rb_write rb data =
     (if data \<noteq> [] \<and> rb_remaining_capacity rb = 0 then Some (Inl WriteZero, rb)
      else do { (pos, rb) \<leftarrow> rb_write_loop rb data 0; Some (Inr pos, rb) })"

text \<open>The \<open>Read\<close> loop, on the number of bytes still wanted and the bytes read so far.\<close>

partial_function (option) rb_read_loop :: "ring_buffer \<Rightarrow> nat \<Rightarrow> bytes \<Rightarrow> (bytes \<times> ring_buffer) option" where
  "rb_read_loop rb want out =
     (if length out < want \<and> rb_len rb > 0 then
        do {
          src \<leftarrow> rb_read_buf rb;
          let size = min (length src) (want - length out);
          rb \<leftarrow> rb_read_commit rb size;
          rb_read_loop rb want (out @ take size src)
        }
      else Some (out, rb))"

declare rb_write_loop.simps [code] rb_read_loop.simps [code]

text \<open>
  \<open>read_bufs\<close> with room for \<open>n\<close> slices. With one slot and wrapped contents the code slices past
  the end of the array, which panics.
\<close>

definition rb_read_bufs :: "ring_buffer \<Rightarrow> nat \<Rightarrow> bytes list run" where
  "rb_read_bufs rb n = do {
     assert_that (n \<noteq> 0);
     let buf_len = length (rb_buf rb) in
     if rb_end rb > buf_len \<and> n \<ge> 2 then do {
       part2 \<leftarrow> subslice (rb_buf rb) (rb_start rb) buf_len;
       wrapped \<leftarrow> subslice (take (rb_start rb) (rb_buf rb)) 0 (rb_end rb - buf_len);
       Some [part2, wrapped]
     }
     else do { part \<leftarrow> subslice (rb_buf rb) (rb_start rb) (rb_end rb); Some [part] }
   }"

text \<open>\<open>init_array\<close> keeps as many of the slices as the caller's array has room for.\<close>

definition rb_read_bufs_mut :: "ring_buffer \<Rightarrow> nat \<Rightarrow> bytes list run" where
  "rb_read_bufs_mut rb n =
     (let buf_len = length (rb_buf rb) in
      if rb_end rb > buf_len then do {
        part2 \<leftarrow> subslice (rb_buf rb) (rb_start rb) buf_len;
        wrapped \<leftarrow> subslice (take (rb_start rb) (rb_buf rb)) 0 (rb_end rb - buf_len);
        Some (take n [part2, wrapped])
      }
      else do { part \<leftarrow> subslice (rb_buf rb) (rb_start rb) (rb_end rb); Some (take n [part]) })"

section \<open>FilledBuf and the owning operations of VecRingBuffer\<close>

record filled_buf =
  fb_data :: bytes
  fb_filled :: nat

definition filled_buf_new :: "bytes \<Rightarrow> nat \<Rightarrow> filled_buf run" where
  "filled_buf_new data filled = do {
     assert_that (filled \<le> length data);
     Some \<lparr>fb_data = data, fb_filled = filled\<rparr>
   }"

definition fb_filled_bytes :: "filled_buf \<Rightarrow> bytes run" where
  "fb_filled_bytes fb = subslice (fb_data fb) 0 (fb_filled fb)"

definition rb_new :: "nat \<Rightarrow> nat \<Rightarrow> ring_buffer run" where
  "rb_new sz tmp_len = do {
     assert_that (sz \<le> tmp_len);
     Some \<lparr>rb_buf = replicate sz 0, rb_start = 0, rb_end = 0, rb_tmp_len = tmp_len\<rparr>
   }"

definition rb_new_slice :: "bytes \<Rightarrow> nat \<Rightarrow> ring_buffer run" where
  "rb_new_slice buf tmp_len = do {
     assert_that (length buf \<le> tmp_len);
     Some \<lparr>rb_buf = buf, rb_start = 0, rb_end = 0, rb_tmp_len = tmp_len\<rparr>
   }"

definition take_inner :: "ring_buffer \<Rightarrow> (filled_buf \<times> ring_buffer) run" where
  "take_inner rb = do {
     (_, rb) \<leftarrow> align rb;
     let data = rb_buf rb;
     let filled = rb_end rb;
     let rb = rb\<lparr>rb_buf := [], rb_end := 0\<rparr>;
     fb \<leftarrow> filled_buf_new data filled;
     Some (fb, rb)
   }"

definition set_inner :: "ring_buffer \<Rightarrow> filled_buf \<Rightarrow> ring_buffer run" where
  "set_inner rb fb = do {
     assert_that (length (fb_data fb) \<le> rb_tmp_len rb);
     Some (rb\<lparr>rb_buf := fb_data fb, rb_start := 0, rb_end := fb_filled fb\<rparr>)
   }"

definition swap_inner :: "ring_buffer \<Rightarrow> ring_buffer \<Rightarrow> (ring_buffer \<times> ring_buffer) run" where
  "swap_inner rb other = do {
     (buf, rb) \<leftarrow> take_inner rb;
     (buf', other) \<leftarrow> take_inner other;
     rb \<leftarrow> set_inner rb buf';
     other \<leftarrow> set_inner other buf;
     Some (rb, other)
   }"

definition rb_resize :: "ring_buffer \<Rightarrow> nat \<Rightarrow> ring_buffer run" where
  "rb_resize rb sz =
     (if sz = length (rb_buf rb) then Some rb
      else do {
        (_, rb) \<leftarrow> align rb;
        let buf = take sz (rb_buf rb) @ replicate (sz - length (rb_buf rb)) 0;
        Some (rb\<lparr>rb_buf := buf, rb_end := min (rb_end rb) sz\<rparr>)
      })"

section \<open>ContiguousBuffer\<close>

record contiguous_buffer =
  cb_buf :: bytes
  cb_start :: nat
  cb_end :: nat

definition cb_new :: "nat \<Rightarrow> contiguous_buffer" where
  "cb_new sz = \<lparr>cb_buf = replicate sz 0, cb_start = 0, cb_end = 0\<rparr>"

definition cb_clear :: "contiguous_buffer \<Rightarrow> contiguous_buffer" where
  "cb_clear cb = cb\<lparr>cb_start := 0, cb_end := 0\<rparr>"

definition cb_into_inner :: "contiguous_buffer \<Rightarrow> bytes run" where
  "cb_into_inner cb = do {
     assert_that (cb_start cb \<le> length (cb_buf cb));
     Some (take (cb_end cb - cb_start cb) (drop (cb_start cb) (cb_buf cb)))
   }"

definition cb_from_vec :: "bytes \<Rightarrow> contiguous_buffer" where
  "cb_from_vec v = \<lparr>cb_buf = v, cb_start = 0, cb_end = length v\<rparr>"

definition cb_len :: "contiguous_buffer \<Rightarrow> nat" where
  "cb_len cb = cb_end cb - cb_start cb"

definition cb_remaining_capacity :: "contiguous_buffer \<Rightarrow> nat" where
  "cb_remaining_capacity cb = length (cb_buf cb) - cb_end cb"

definition cb_read_buf :: "contiguous_buffer \<Rightarrow> bytes run" where
  "cb_read_buf cb = subslice (cb_buf cb) (cb_start cb) (cb_end cb)"

definition cb_read_commit :: "contiguous_buffer \<Rightarrow> nat \<Rightarrow> contiguous_buffer run" where
  "cb_read_commit cb amount = do {
     assert_that (cb_start cb + amount \<le> cb_end cb);
     Some (cb\<lparr>cb_start := cb_start cb + amount\<rparr>)
   }"

definition cb_write_range :: "contiguous_buffer \<Rightarrow> (nat \<times> nat) run" where
  "cb_write_range cb = do {
     assert_that (cb_end cb \<le> length (cb_buf cb));
     Some (cb_end cb, length (cb_buf cb))
   }"

definition cb_write_commit :: "contiguous_buffer \<Rightarrow> nat \<Rightarrow> contiguous_buffer run" where
  "cb_write_commit cb amount = do {
     assert_that (cb_end cb + amount \<le> length (cb_buf cb));
     Some (cb\<lparr>cb_end := cb_end cb + amount\<rparr>)
   }"

definition cb_fill :: "contiguous_buffer \<Rightarrow> bytes \<Rightarrow> contiguous_buffer run" where
  "cb_fill cb data = do {
     (s, e) \<leftarrow> cb_write_range cb;
     assert_that (s + length data \<le> e);
     buf \<leftarrow> copy_from_slice (cb_buf cb) s (s + length data) data;
     Some (cb\<lparr>cb_buf := buf\<rparr>)
   }"

definition cb_write :: "contiguous_buffer \<Rightarrow> bytes \<Rightarrow> ((io_error + nat) \<times> contiguous_buffer) run" where
  "cb_write cb data =
     (if data \<noteq> [] \<and> cb_remaining_capacity cb = 0 then Some (Inl WriteZero, cb)
      else do {
        (s, e) \<leftarrow> cb_write_range cb;
        let size = min (e - s) (length data);
        cb \<leftarrow> cb_fill cb (take size data);
        cb \<leftarrow> cb_write_commit cb size;
        Some (Inr size, cb)
      })"

section \<open>Invariant and contents\<close>

named_theorems buffer_defs \<open>definitions of the buffer operations, for unfolding\<close>

lemmas [buffer_defs] = rb_capacity_def rb_len_def rb_remaining_capacity_def rb_read_buf_def
  rb_read_commit_def rb_write_range_def rb_write_commit_def rb_fill_def cb_len_def
  cb_remaining_capacity_def cb_read_buf_def cb_read_commit_def cb_write_range_def
  cb_write_commit_def cb_fill_def copy_from_slice_def assert_that_bind Let_def

definition rb_inv :: "ring_buffer \<Rightarrow> bool" where
  "rb_inv rb \<longleftrightarrow> rb_start rb \<le> rb_end rb \<and> rb_end rb - rb_start rb \<le> length (rb_buf rb)
     \<and> (rb_start rb < length (rb_buf rb) \<or> rb_start rb = 0)"

text \<open>The scratch vector is large enough for \<open>align\<close>.\<close>

definition rb_tmp_ok :: "ring_buffer \<Rightarrow> bool" where
  "rb_tmp_ok rb \<longleftrightarrow> length (rb_buf rb) \<le> rb_tmp_len rb"

definition rb_contents :: "ring_buffer \<Rightarrow> bytes" where
  "rb_contents rb = take (rb_end rb - rb_start rb) (drop (rb_start rb) (rb_buf rb @ rb_buf rb))"

lemma length_rb_contents [simp]: "rb_inv rb \<Longrightarrow> length (rb_contents rb) = rb_end rb - rb_start rb"
  by (auto simp: rb_contents_def rb_inv_def)

lemma nth_rb_contents:
  assumes "rb_inv rb" and "i < rb_end rb - rb_start rb"
  shows "rb_contents rb ! i =
    rb_buf rb ! (if rb_start rb + i < length (rb_buf rb) then rb_start rb + i
                 else rb_start rb + i - length (rb_buf rb))"
  using assms by (auto simp: rb_contents_def rb_inv_def nth_append add.commute)

lemma rb_contents_unwrapped:
  "rb_end rb \<le> length (rb_buf rb) \<Longrightarrow>
   rb_contents rb = take (rb_end rb - rb_start rb) (drop (rb_start rb) (rb_buf rb))"
  by (simp add: rb_contents_def)

lemma rb_contents_wrapped:
  assumes "rb_inv rb" "rb_end rb > length (rb_buf rb)"
  shows "rb_contents rb = drop (rb_start rb) (rb_buf rb) @ take (rb_end rb - length (rb_buf rb)) (rb_buf rb)"
  using assms by (auto simp: rb_contents_def rb_inv_def)

subsection \<open>Reading\<close>

lemma rb_read_buf_contents:
  assumes "rb_inv rb"
  shows "rb_read_buf rb = Some (take (length (rb_buf rb) - rb_start rb) (rb_contents rb))"
proof (cases "rb_end rb \<le> length (rb_buf rb)")
  case True
  with assms show ?thesis
    by (auto simp: rb_read_buf_def rb_contents_unwrapped rb_inv_def min_def)
next
  case False
  with assms show ?thesis
    by (auto simp: rb_read_buf_def rb_contents_wrapped rb_inv_def min_def)
qed

lemma rb_read_commit_contents:
  assumes inv: "rb_inv rb" and n: "n \<le> length (rb_contents rb)"
  shows "\<exists>rb'. rb_read_commit rb n = Some rb' \<and> rb_inv rb' \<and> rb_contents rb' = drop n (rb_contents rb)
    \<and> rb_buf rb' = rb_buf rb \<and> rb_tmp_len rb' = rb_tmp_len rb"
proof -
  let ?c = "length (rb_buf rb)" and ?s = "rb_start rb + n"
  have le: "?s \<le> rb_end rb" using inv n by (auto simp: rb_inv_def)
  consider (all) "?s = rb_end rb" | (wrap) "?s \<noteq> rb_end rb" "?c \<le> ?s" | (plain) "?s \<noteq> rb_end rb" "?s < ?c"
    by linarith
  then show ?thesis
  proof cases
    case all
    with inv show ?thesis
      by (auto simp: rb_read_commit_def assert_that_bind rb_inv_def rb_contents_def)
  next
    case wrap
    let ?rb' = "rb\<lparr>rb_start := ?s - ?c, rb_end := rb_end rb - ?c\<rparr>"
    have inv': "rb_inv ?rb'" using inv le wrap by (auto simp: rb_inv_def)
    have "rb_contents ?rb' = drop n (rb_contents rb)"
      using inv inv' le wrap
      by (intro nth_equalityI)
         (auto simp: nth_rb_contents rb_inv_def intro!: arg_cong [where f = "nth (rb_buf rb)"])
    then show ?thesis
      using inv inv' le wrap by (auto simp: rb_read_commit_def assert_that_bind)
  next
    case plain
    let ?rb' = "rb\<lparr>rb_start := ?s\<rparr>"
    have inv': "rb_inv ?rb'" using inv le plain by (auto simp: rb_inv_def)
    have "rb_contents ?rb' = drop n (rb_contents rb)"
      using inv inv' le plain
      by (intro nth_equalityI) (auto simp: nth_rb_contents rb_inv_def add.assoc)
    then show ?thesis
      using inv inv' le plain by (auto simp: rb_read_commit_def assert_that_bind)
  qed
qed

subsection \<open>Writing\<close>

lemma rb_write_range_bounds:
  assumes "rb_inv rb"
  shows "\<exists>s e. rb_write_range rb = Some (s, e) \<and> s \<le> e \<and> e \<le> length (rb_buf rb)
    \<and> e - s \<le> rb_remaining_capacity rb \<and> (0 < rb_remaining_capacity rb \<longrightarrow> s < e)"
  using assms by (auto simp: rb_write_range_def rb_inv_def rb_remaining_capacity_def assert_that_bind)

lemma rb_fill_commit_contents:
  assumes inv: "rb_inv rb" and range: "rb_write_range rb = Some (s, e)" and n: "length data \<le> e - s"
  shows "\<exists>rb' rb''. rb_fill rb data = Some rb' \<and> rb_write_commit rb' (length data) = Some rb''
    \<and> rb_inv rb'' \<and> rb_contents rb'' = rb_contents rb @ data
    \<and> length (rb_buf rb'') = length (rb_buf rb) \<and> rb_tmp_len rb'' = rb_tmp_len rb"
proof -
  let ?c = "length (rb_buf rb)"
  have se: "s = (if rb_end rb < ?c then rb_end rb else rb_end rb - ?c)"
    "e = (if rb_end rb < ?c then ?c else rb_start rb)" "s \<le> e" "e \<le> ?c"
    using range by (auto simp: rb_write_range_def assert_that_bind split: if_splits)
  let ?rb' = "rb\<lparr>rb_buf := overwrite (rb_buf rb) s data\<rparr>"
  let ?rb'' = "?rb'\<lparr>rb_end := rb_end rb + length data\<rparr>"
  have fill: "rb_fill rb data = Some ?rb'"
    using range n se by (simp add: rb_fill_def assert_that_bind copy_from_slice_def)
  have fits: "(rb_end rb - rb_start rb) + length data \<le> ?c"
    using inv n se by (auto simp: rb_inv_def split: if_splits)
  have len: "length (overwrite (rb_buf rb) s data) = ?c"
    using n se by auto
  have commit: "rb_write_commit ?rb' (length data) = Some ?rb''"
    using fits len by (simp add: rb_write_commit_def assert_that_bind)
  have inv'': "rb_inv ?rb''"
    using inv fits len by (auto simp: rb_inv_def)
  have "rb_contents ?rb'' = rb_contents rb @ data"
  proof (rule nth_equalityI)
    show "length (rb_contents ?rb'') = length (rb_contents rb @ data)"
      using inv inv'' by (auto simp: rb_inv_def)
    fix i assume "i < length (rb_contents ?rb'')"
    then have i: "i < rb_end rb + length data - rb_start rb" using inv'' by simp
    let ?p = "if rb_start rb + i < ?c then rb_start rb + i else rb_start rb + i - ?c"
    have p: "?p < ?c" using inv i fits by (auto simp: rb_inv_def)
    have lhs: "rb_contents ?rb'' ! i = overwrite (rb_buf rb) s data ! ?p"
      using nth_rb_contents [OF inv'', of i] i len by simp
    have bnd: "s + length data \<le> ?c" using n se by linarith
    show "rb_contents ?rb'' ! i = (rb_contents rb @ data) ! i"
    proof (cases "i < rb_end rb - rb_start rb")
      case True
      then have "\<not> (s \<le> ?p \<and> ?p < s + length data)"
        using inv fits n se(1,2) by (auto simp: rb_inv_def split: if_splits)
      then have "rb_contents ?rb'' ! i = rb_buf rb ! ?p"
        using lhs p bnd by (simp only: nth_overwrite if_False)
      with True inv show ?thesis by (simp add: nth_append nth_rb_contents)
    next
      case False
      have "?p = s + (i - (rb_end rb - rb_start rb))"
        using False inv i fits n se(1,2) by (auto simp: rb_inv_def split: if_splits)
      moreover have "i - (rb_end rb - rb_start rb) < length data" using False i inv by (auto simp: rb_inv_def)
      ultimately have "rb_contents ?rb'' ! i = data ! (i - (rb_end rb - rb_start rb))"
        using lhs p bnd by (simp add: nth_overwrite)
      with False inv show ?thesis by (simp add: nth_append)
    qed
  qed
  with fill commit inv'' len show ?thesis by auto
qed

section \<open>The Buffer interface\<close>

text \<open>
  What the users of a \<open>Buffer\<close> rely on: \<open>read_buf\<close> shows a prefix of the contents, not empty
  unless the contents are; \<open>read_commit\<close> removes from the front; filling a prefix of the
  \<open>write_buf\<close> slice and committing it appends; the slice is not empty while capacity remains.
\<close>

locale byte_queue =
  fixes len :: "'b \<Rightarrow> nat"
    and remaining_capacity :: "'b \<Rightarrow> nat"
    and read_buf :: "'b \<Rightarrow> bytes run"
    and read_commit :: "'b \<Rightarrow> nat \<Rightarrow> 'b run"
    and write_range :: "'b \<Rightarrow> (nat \<times> nat) run"
    and fill :: "'b \<Rightarrow> bytes \<Rightarrow> 'b run"
    and write_commit :: "'b \<Rightarrow> nat \<Rightarrow> 'b run"
    and contents :: "'b \<Rightarrow> bytes"
    and invar :: "'b \<Rightarrow> bool"
  assumes len_contents: "invar b \<Longrightarrow> len b = length (contents b)"
    and read_buf_prefix: "invar b \<Longrightarrow>
      \<exists>n. read_buf b = Some (take n (contents b)) \<and> (contents b \<noteq> [] \<longrightarrow> 0 < n)"
    and read_commit_drop: "invar b \<Longrightarrow> n \<le> length (contents b) \<Longrightarrow>
      \<exists>b'. read_commit b n = Some b' \<and> invar b' \<and> contents b' = drop n (contents b)"
    and write_range_room: "invar b \<Longrightarrow>
      \<exists>s e. write_range b = Some (s, e) \<and> s \<le> e \<and> e - s \<le> remaining_capacity b
        \<and> (0 < remaining_capacity b \<longrightarrow> s < e)"
    and fill_commit_append: "invar b \<Longrightarrow> write_range b = Some (s, e) \<Longrightarrow> length data \<le> e - s \<Longrightarrow>
      \<exists>b' b''. fill b data = Some b' \<and> write_commit b' (length data) = Some b'' \<and> invar b''
        \<and> contents b'' = contents b @ data
        \<and> remaining_capacity b'' = remaining_capacity b - length data"
begin

text \<open>One turn of a read loop moves a non-empty part of the contents out.\<close>

lemma read_turn:
  assumes "invar b" "contents b \<noteq> []" "0 < want"
  shows "\<exists>src b'. read_buf b = Some src \<and> 0 < min (length src) want
    \<and> min (length src) want \<le> length (contents b)
    \<and> take (min (length src) want) src = take (min (length src) want) (contents b)
    \<and> read_commit b (min (length src) want) = Some b' \<and> invar b'
    \<and> contents b' = drop (min (length src) want) (contents b)"
proof -
  from read_buf_prefix [OF assms(1)] assms(2) obtain n where
    n: "read_buf b = Some (take n (contents b))" "0 < n" by auto
  let ?k = "min (length (take n (contents b))) want"
  have k: "?k \<le> length (contents b)" "?k \<le> n" by auto
  from read_commit_drop [OF assms(1) k(1)] obtain b' where
    "read_commit b ?k = Some b'" "invar b'" "contents b' = drop ?k (contents b)" by auto
  moreover have "0 < ?k" using n assms by simp
  moreover have "take ?k (take n (contents b)) = take ?k (contents b)"
    using k(2) by (simp add: min_def)
  ultimately show ?thesis using n(1) k(1) by auto
qed

text \<open>One turn of a write loop appends a non-empty part of the data.\<close>

lemma write_turn:
  assumes "invar b" "data \<noteq> []" "0 < remaining_capacity b"
  shows "\<exists>s e b' b''. write_range b = Some (s, e) \<and> 0 < min (e - s) (length data)
    \<and> min (e - s) (length data) \<le> remaining_capacity b
    \<and> fill b (take (min (e - s) (length data)) data) = Some b'
    \<and> write_commit b' (min (e - s) (length data)) = Some b'' \<and> invar b''
    \<and> contents b'' = contents b @ take (min (e - s) (length data)) data
    \<and> remaining_capacity b'' = remaining_capacity b - min (e - s) (length data)"
proof -
  from write_range_room [OF assms(1)] assms(3) obtain s e where
    se: "write_range b = Some (s, e)" "s < e" "e - s \<le> remaining_capacity b" by auto
  let ?d = "take (min (e - s) (length data)) data"
  have "length ?d \<le> e - s" by simp
  from fill_commit_append [OF assms(1) se(1) this] obtain b' b'' where
    "fill b ?d = Some b'" "write_commit b' (length ?d) = Some b''" "invar b''"
    "contents b'' = contents b @ ?d"
    "remaining_capacity b'' = remaining_capacity b - length ?d" by blast
  moreover have "length ?d = min (e - s) (length data)" by simp
  moreover have "0 < min (e - s) (length data)" using se assms(2) by simp
  ultimately show ?thesis using se by (auto simp: min_def)
qed

end

interpretation ring: byte_queue rb_len rb_remaining_capacity rb_read_buf rb_read_commit
  rb_write_range rb_fill rb_write_commit rb_contents rb_inv
proof (unfold_locales, goal_cases)
  case (1 b)
  then show ?case by (simp add: rb_len_def)
next
  case (2 b)
  then have "rb_contents b \<noteq> [] \<Longrightarrow> 0 < length (rb_buf b) - rb_start b"
    by (auto simp: rb_contents_def rb_inv_def)
  with rb_read_buf_contents [OF 2] show ?case by blast
next
  case (3 b n)
  then show ?case using rb_read_commit_contents [of b n] by blast
next
  case (4 b)
  then show ?case using rb_write_range_bounds by blast
next
  case (5 b s e data)
  then obtain rb' rb'' where *: "rb_fill b data = Some rb'" "rb_write_commit rb' (length data) = Some rb''"
    "rb_inv rb''" "rb_contents rb'' = rb_contents b @ data" "length (rb_buf rb'') = length (rb_buf b)"
    using rb_fill_commit_contents by blast
  moreover have "rb_remaining_capacity rb'' = rb_remaining_capacity b - length data"
    using * 5(1) length_rb_contents [of b] length_rb_contents [of rb'']
    by (simp add: rb_remaining_capacity_def)
  ultimately show ?case by blast
qed

definition cb_inv :: "contiguous_buffer \<Rightarrow> bool" where
  "cb_inv cb \<longleftrightarrow> cb_start cb \<le> cb_end cb \<and> cb_end cb \<le> length (cb_buf cb)"

definition cb_contents :: "contiguous_buffer \<Rightarrow> bytes" where
  "cb_contents cb = take (cb_end cb - cb_start cb) (drop (cb_start cb) (cb_buf cb))"

interpretation contiguous: byte_queue cb_len cb_remaining_capacity cb_read_buf cb_read_commit
  cb_write_range cb_fill cb_write_commit cb_contents cb_inv
proof (unfold_locales, goal_cases)
  case (1 b)
  then show ?case by (auto simp: cb_len_def cb_contents_def cb_inv_def)
next
  case (2 b)
  then show ?case
    by (intro exI [of _ "cb_end b - cb_start b"])
       (auto simp: cb_read_buf_def cb_contents_def cb_inv_def)
next
  case (3 b n)
  then show ?case
    by (auto simp: cb_read_commit_def cb_contents_def cb_inv_def assert_that_bind
        drop_take add.commute)
next
  case (4 b)
  then show ?case
    by (auto simp: cb_write_range_def cb_remaining_capacity_def cb_inv_def assert_that_bind)
next
  case (5 b s e data)
  then show ?case
    by (auto simp: cb_write_range_def cb_fill_def cb_write_commit_def cb_remaining_capacity_def
        cb_inv_def cb_contents_def assert_that_bind copy_from_slice_def overwrite_def Let_def
        drop_take split: if_splits)
qed

subsection \<open>The Read and Write loops\<close>

lemma rb_write_loop_turn:
  assumes "pos < length data" and "0 < rb_remaining_capacity rb"
    and "rb_write_range rb = Some (s, e)"
    and "rb_fill rb (take (min (e - s) (length data - pos)) (drop pos data)) = Some rb'"
    and "rb_write_commit rb' (min (e - s) (length data - pos)) = Some rb''"
  shows "rb_write_loop rb data pos = rb_write_loop rb'' data (pos + min (e - s) (length data - pos))"
  using assms by (subst rb_write_loop.simps) (simp add: Let_def)

lemma rb_write_loop_contents:
  assumes "rb_inv rb" and "pos \<le> length data"
  shows "\<exists>rb'. rb_write_loop rb data pos
        = Some (pos + min (length data - pos) (rb_remaining_capacity rb), rb') \<and> rb_inv rb'
    \<and> rb_contents rb' = rb_contents rb @ take (rb_remaining_capacity rb) (drop pos data)"
  using assms
proof (induction "length data - pos" arbitrary: rb pos rule: less_induct)
  case less
  show ?case
  proof (cases "pos < length data \<and> 0 < rb_remaining_capacity rb")
    case False
    with less.prems show ?thesis
      by (subst rb_write_loop.simps) auto
  next
    case True
    let ?r = "rb_remaining_capacity rb"
    have "drop pos data \<noteq> []" using True by simp
    from ring.write_turn [OF less.prems(1) this] True obtain s e rb1 rb2 where
      r: "rb_write_range rb = Some (s, e)" and
      k0: "0 < min (e - s) (length data - pos)" "min (e - s) (length data - pos) \<le> ?r" and
      f: "rb_fill rb (take (min (e - s) (length data - pos)) (drop pos data)) = Some rb1" and
      c: "rb_write_commit rb1 (min (e - s) (length data - pos)) = Some rb2" and
      i2: "rb_inv rb2" and
      c2: "rb_contents rb2 = rb_contents rb @ take (min (e - s) (length data - pos)) (drop pos data)" and
      r2: "rb_remaining_capacity rb2 = ?r - min (e - s) (length data - pos)"
      by (auto simp del: min_less_iff_conj)
    define k where "k = min (e - s) (length data - pos)"
    note * = k0 [folded k_def] c2 [folded k_def] r2 [folded k_def]
    have le: "pos + k \<le> length data" "length data - (pos + k) < length data - pos"
      using True *(1) by (auto simp: k_def)
    have loop: "rb_write_loop rb data pos = rb_write_loop rb2 data (pos + k)"
      unfolding k_def using True r f c by (intro rb_write_loop_turn) auto
    from less.hyps [OF le(2) i2 le(1)] obtain rb' where
      l: "rb_write_loop rb2 data (pos + k) =
            Some (pos + k + min (length data - (pos + k)) (?r - k), rb')" "rb_inv rb'"
         "rb_contents rb' = rb_contents rb2 @ take (?r - k) (drop (pos + k) data)"
      unfolding *(4) by blast
    have "pos + k + min (length data - (pos + k)) (?r - k) = pos + min (length data - pos) ?r"
      using le(1) *(2) by linarith
    moreover have "take k (drop pos data) @ take (?r - k) (drop (pos + k) data) = take ?r (drop pos data)"
      using take_add [of k "?r - k" "drop pos data"] *(2) by (simp add: add.commute)
    ultimately show ?thesis using l loop *(3) by simp
  qed
qed

lemma rb_read_loop_turn:
  assumes "length out < want" and "0 < rb_len rb" and "rb_read_buf rb = Some src"
    and "rb_read_commit rb (min (length src) (want - length out)) = Some rb'"
  shows "rb_read_loop rb want out = rb_read_loop rb' want (out @ take (min (length src) (want - length out)) src)"
  using assms by (subst rb_read_loop.simps) (simp add: Let_def)

lemma rb_read_loop_contents:
  assumes "rb_inv rb" and "length out \<le> want"
  shows "\<exists>rb'. rb_read_loop rb want out = Some (out @ take (want - length out) (rb_contents rb), rb')
    \<and> rb_inv rb' \<and> rb_contents rb' = drop (want - length out) (rb_contents rb)"
  using assms
proof (induction "length (rb_contents rb)" arbitrary: rb out rule: less_induct)
  case less
  show ?case
  proof (cases "length out < want \<and> 0 < rb_len rb")
    case False
    then have "want = length out \<or> rb_contents rb = []"
      using less.prems ring.len_contents [OF less.prems(1)] by (auto simp del: length_rb_contents)
    with False less.prems show ?thesis by (subst rb_read_loop.simps) auto
  next
    case len_pos: True
    then have True: "length out < want \<and> rb_contents rb \<noteq> []"
      using ring.len_contents [OF less.prems(1)] by (auto simp del: length_rb_contents)
    then have "0 < want - length out" by simp
    from ring.read_turn [OF less.prems(1) _ this] True obtain src rb1 where
      r: "rb_read_buf rb = Some src" and
      k0: "0 < min (length src) (want - length out)"
        "min (length src) (want - length out) \<le> length (rb_contents rb)" and
      t: "take (min (length src) (want - length out)) src
        = take (min (length src) (want - length out)) (rb_contents rb)" and
      c: "rb_read_commit rb (min (length src) (want - length out)) = Some rb1" and
      i1: "rb_inv rb1" and
      c1: "rb_contents rb1 = drop (min (length src) (want - length out)) (rb_contents rb)"
      by (auto simp del: min_less_iff_conj)
    define k where "k = min (length src) (want - length out)"
    note * = k0 [folded k_def] t [folded k_def] c1 [folded k_def]
    have len: "length (out @ take k (rb_contents rb)) = length out + k" using *(2) by simp
    have le: "length out + k \<le> want" using True by (auto simp: k_def)
    have loop: "rb_read_loop rb want out = rb_read_loop rb1 want (out @ take k (rb_contents rb))"
      using rb_read_loop_turn [OF _ _ r c] True ring.len_contents [OF less.prems(1)] t
      by (simp add: k_def)
    have "length (rb_contents rb1) < length (rb_contents rb)" using *(1,2,4) by simp
    from less.hyps [OF this i1, of "out @ take k (rb_contents rb)"] len le *(4) obtain rb' where
      l: "rb_read_loop rb1 want (out @ take k (rb_contents rb)) =
            Some ((out @ take k (rb_contents rb)) @ take (want - (length out + k)) (drop k (rb_contents rb)), rb')"
         "rb_inv rb'" "rb_contents rb' = drop (want - (length out + k)) (drop k (rb_contents rb))"
      by auto
    have "take k (rb_contents rb) @ take (want - (length out + k)) (drop k (rb_contents rb))
        = take (want - length out) (rb_contents rb)"
      using take_add [of k "want - (length out + k)" "rb_contents rb"] le by simp
    then show ?thesis using l loop le by (simp add: add.commute)
  qed
qed

lemma rb_write_result:
  assumes "rb_inv rb"
  shows "\<exists>rb'. rb_write rb data = Some
      (if data \<noteq> [] \<and> rb_remaining_capacity rb = 0 then Inl WriteZero
       else Inr (min (length data) (rb_remaining_capacity rb)), rb')
    \<and> rb_inv rb' \<and> rb_contents rb' = rb_contents rb @ take (rb_remaining_capacity rb) data"
proof (cases "data \<noteq> [] \<and> rb_remaining_capacity rb = 0")
  case True
  with assms show ?thesis by (auto simp: rb_write_def)
next
  case False
  from rb_write_loop_contents [OF assms, of 0 data] obtain rb' where
    "rb_write_loop rb data 0 = Some (min (length data) (rb_remaining_capacity rb), rb')" "rb_inv rb'"
    "rb_contents rb' = rb_contents rb @ take (rb_remaining_capacity rb) data" by auto
  with False show ?thesis by (auto simp: rb_write_def)
qed

section \<open>Alignment and ownership\<close>

lemma rb_contents_aligned: "rb_start rb = 0 \<Longrightarrow> rb_end rb \<le> length (rb_buf rb) \<Longrightarrow> rb_contents rb = take (rb_end rb) (rb_buf rb)"
  by (simp add: rb_contents_def)

text \<open>An inner array that holds the contents at its front is an aligned buffer.\<close>

lemma aligned_contents:
  assumes inv: "rb_inv rb" and len: "length buf' = length (rb_buf rb)"
    and nth: "\<And>i. i < rb_end rb - rb_start rb \<Longrightarrow> buf' ! i = rb_contents rb ! i"
  shows "rb_inv (rb\<lparr>rb_buf := buf', rb_start := 0, rb_end := rb_end rb - rb_start rb\<rparr>) \<and>
    rb_contents (rb\<lparr>rb_buf := buf', rb_start := 0, rb_end := rb_end rb - rb_start rb\<rparr>) = rb_contents rb"
proof
  show "rb_inv (rb\<lparr>rb_buf := buf', rb_start := 0, rb_end := rb_end rb - rb_start rb\<rparr>)"
    using inv len by (auto simp: rb_inv_def)
  have "rb_end rb - rb_start rb \<le> length buf'" using inv len by (simp add: rb_inv_def)
  then show "rb_contents (rb\<lparr>rb_buf := buf', rb_start := 0, rb_end := rb_end rb - rb_start rb\<rparr>) = rb_contents rb"
    using inv nth by (intro nth_equalityI) (auto simp: rb_contents_aligned)
qed

lemma align_copy_down:
  assumes "rb_inv rb" "rb_end rb \<le> length (rb_buf rb)"
  shows "\<exists>buf'. copy_within (rb_buf rb) (rb_start rb) (length (rb_buf rb)) 0 = Some buf'
    \<and> length buf' = length (rb_buf rb)
    \<and> (\<forall>i < rb_end rb - rb_start rb. buf' ! i = rb_contents rb ! i)"
  using assms by (auto simp: copy_within_def nth_overwrite nth_rb_contents rb_inv_def)

lemma align_no_overlap:
  assumes inv: "rb_inv rb" and wrapped: "length (rb_buf rb) < rb_end rb"
    and room: "rb_end rb - rb_start rb \<le> rb_start rb"
  shows "\<exists>b1 b2. copy_within (rb_buf rb) 0 (rb_end rb - length (rb_buf rb)) (length (rb_buf rb) - rb_start rb) = Some b1
    \<and> copy_within b1 (rb_start rb) (rb_start rb + (length (rb_buf rb) - rb_start rb)) 0 = Some b2
    \<and> length b2 = length (rb_buf rb)
    \<and> (\<forall>i < rb_end rb - rb_start rb. b2 ! i = rb_contents rb ! i)"
proof -
  let ?c = "length (rb_buf rb)" and ?s = "rb_start rb"
  define l where "l = rb_end rb - ?c"
  define r where "r = ?c - ?s"
  have a: "?s < ?c" "l + r \<le> ?s" "rb_end rb - ?s = l + r" "?s + r = ?c" "l + r \<le> ?c"
    using inv wrapped room by (auto simp: rb_inv_def l_def r_def)
  define b1 where "b1 = overwrite (rb_buf rb) r (take l (rb_buf rb))"
  define b2 where "b2 = overwrite b1 0 (take r (drop ?s b1))"
  have l1: "length b1 = ?c" using a by (simp add: b1_def)
  have l2: "length b2 = ?c" using a l1 by (simp add: b2_def)
  have c1: "copy_within (rb_buf rb) 0 l r = Some b1"
    using a by (simp add: copy_within_def b1_def)
  have c2: "copy_within b1 ?s (?s + r) 0 = Some b2"
    using a l1 by (simp add: copy_within_def b2_def)
  have "b2 ! i = rb_contents rb ! i" if i: "i < l + r" for i
  proof (cases "i < r")
    case True
    then have "b2 ! i = b1 ! (?s + i)" using a l1 by (auto simp: b2_def nth_overwrite)
    also have "\<dots> = rb_buf rb ! (?s + i)" using True a by (simp add: b1_def nth_overwrite)
    finally show ?thesis using True i a inv by (simp add: nth_rb_contents)
  next
    case False
    then have "b2 ! i = b1 ! i" using i a l1 by (auto simp: b2_def nth_overwrite)
    also have "\<dots> = rb_buf rb ! (i - r)" using False i a by (simp add: b1_def nth_overwrite)
    also have "i - r = ?s + i - ?c" using a False by linarith
    finally show ?thesis using False i a inv by (simp add: nth_rb_contents)
  qed
  then have "\<forall>i < rb_end rb - ?s. b2 ! i = rb_contents rb ! i" using a(3) by simp
  then show ?thesis using c1 [unfolded l_def r_def] c2 [unfolded r_def] l2 by blast
qed

lemma align_with_tmp_nth:
  assumes inv: "rb_inv rb" and wrapped: "length (rb_buf rb) < rb_end rb" and tmp: "rb_tmp_ok rb"
  shows "\<exists>buf'. align_with_tmp rb = Some buf' \<and> length buf' = length (rb_buf rb)
    \<and> (\<forall>i < rb_end rb - rb_start rb. buf' ! i = rb_contents rb ! i)"
proof -
  let ?c = "length (rb_buf rb)" and ?s = "rb_start rb"
  define l where "l = rb_end rb - ?c"
  define r where "r = ?c - ?s"
  have a: "?s < ?c" "rb_end rb - ?s = l + r" "?s + r = ?c" "l + r \<le> ?c" "l \<le> ?s" "r \<le> ?c"
    using inv wrapped by (auto simp: rb_inv_def l_def r_def)
  have t: "l \<le> rb_tmp_len rb" "r \<le> rb_tmp_len rb" using a tmp by (auto simp: rb_tmp_ok_def)
  have cont: "rb_contents rb ! i = rb_buf rb ! (if i < r then ?s + i else i - r)" if "i < l + r" for i
    using nth_rb_contents [OF inv, of i] that a by (auto intro: arg_cong [where f = "nth (rb_buf rb)"])
  show ?thesis
  proof (cases "l < r")
    case True
    let ?b = "overwrite (rb_buf rb) 0 (take r (drop ?s (rb_buf rb)))"
    have "align_with_tmp rb = Some (overwrite ?b r (take l (rb_buf rb)))"
      using True a t by (simp add: align_with_tmp_def Let_def copy_within_def copy_from_slice_def
          flip: l_def r_def)
    then show ?thesis using a cont by (auto simp: nth_overwrite)
  next
    case False
    let ?b = "overwrite (rb_buf rb) r (take l (rb_buf rb))"
    have "align_with_tmp rb = Some (overwrite ?b 0 (take r (drop ?s (rb_buf rb))))"
      using False a t by (simp add: align_with_tmp_def Let_def copy_within_def copy_from_slice_def
          flip: l_def r_def)
    then show ?thesis using a cont by (auto simp: nth_overwrite)
  qed
qed

lemma align_result:
  assumes inv: "rb_inv rb" and tmp: "rb_tmp_ok rb"
  shows "\<exists>n rb'. align rb = Some (n, rb') \<and> rb_inv rb' \<and> rb_contents rb' = rb_contents rb
    \<and> rb_start rb' = 0 \<and> rb_end rb' = length (rb_contents rb)
    \<and> length (rb_buf rb') = length (rb_buf rb) \<and> rb_tmp_len rb' = rb_tmp_len rb"
proof (cases "rb_start rb = 0")
  case True
  then show ?thesis
    using inv tmp by (auto simp: align_def assert_that_bind rb_tmp_ok_def)
next
  case False
  have tmp': "length (rb_buf rb) \<le> rb_tmp_len rb" using tmp by (simp add: rb_tmp_ok_def)
  consider (down) "rb_end rb \<le> length (rb_buf rb)"
    | (disjoint) "length (rb_buf rb) < rb_end rb" "rb_end rb - rb_start rb \<le> rb_start rb"
    | (overlap) "length (rb_buf rb) < rb_end rb" "rb_start rb < rb_end rb - rb_start rb"
    by linarith
  then obtain buf' where "align rb = Some (rb_end rb - rb_start rb,
        rb\<lparr>rb_buf := buf', rb_start := 0, rb_end := rb_end rb - rb_start rb\<rparr>)"
    and "length buf' = length (rb_buf rb)"
    and "\<forall>i < rb_end rb - rb_start rb. buf' ! i = rb_contents rb ! i"
  proof cases
    case down
    with align_copy_down [OF inv] False tmp' that show ?thesis
      by (auto simp: align_def assert_that_bind Let_def)
  next
    case disjoint
    with align_no_overlap [OF inv disjoint] False tmp' that show ?thesis
      by (auto simp: align_def assert_that_bind Let_def)
  next
    case overlap
    with align_with_tmp_nth [OF inv _ tmp] False tmp' that show ?thesis
      by (auto simp: align_def assert_that_bind Let_def)
  qed
  then show ?thesis using aligned_contents [OF inv] inv by (auto simp: rb_inv_def)
qed

lemma take_inner_result:
  assumes "rb_inv rb" and "rb_tmp_ok rb"
  shows "\<exists>fb rb'. take_inner rb = Some (fb, rb') \<and> length (fb_data fb) = rb_capacity rb
    \<and> fb_filled fb \<le> length (fb_data fb)
    \<and> fb_filled_bytes fb = Some (rb_contents rb) \<and> rb' = rb\<lparr>rb_buf := [], rb_start := 0, rb_end := 0\<rparr>"
proof -
  from align_result [OF assms] obtain n rb1 where
    a: "align rb = Some (n, rb1)" "rb_inv rb1" "rb_contents rb1 = rb_contents rb" "rb_start rb1 = 0"
       "rb_end rb1 = length (rb_contents rb)" "length (rb_buf rb1) = length (rb_buf rb)"
       "rb_tmp_len rb1 = rb_tmp_len rb" by blast
  have le: "rb_end rb1 \<le> length (rb_buf rb1)" using a(2,4) by (simp add: rb_inv_def)
  have "rb_contents rb = take (rb_end rb1) (rb_buf rb1)"
    using a(3,4) le rb_contents_aligned by metis
  then show ?thesis
    using a le by (simp add: take_inner_def filled_buf_new_def assert_that_bind fb_filled_bytes_def
        rb_capacity_def)
qed

lemma set_inner_result:
  assumes "fb_filled fb \<le> length (fb_data fb)" and "length (fb_data fb) \<le> rb_tmp_len rb"
    and "fb_filled_bytes fb = Some xs"
  shows "\<exists>rb'. set_inner rb fb = Some rb' \<and> rb_inv rb' \<and> rb_tmp_ok rb' \<and> rb_contents rb' = xs
    \<and> rb_capacity rb' = length (fb_data fb)"
  using assms
  by (auto simp: set_inner_def assert_that_bind rb_inv_def rb_tmp_ok_def rb_contents_def
      fb_filled_bytes_def rb_capacity_def)

lemma rb_resize_result:
  assumes "rb_inv rb" and "rb_tmp_ok rb"
  shows "\<exists>rb'. rb_resize rb n = Some rb' \<and> rb_inv rb' \<and> rb_capacity rb' = n
    \<and> rb_contents rb' = take n (rb_contents rb) \<and> rb_tmp_len rb' = rb_tmp_len rb"
proof (cases "n = length (rb_buf rb)")
  case True
  with assms show ?thesis
    by (auto simp: rb_resize_def rb_capacity_def rb_inv_def intro!: take_all [symmetric])
next
  case False
  from align_result [OF assms] obtain k rb1 where
    a: "align rb = Some (k, rb1)" "rb_inv rb1" "rb_contents rb1 = rb_contents rb" "rb_start rb1 = 0"
       "rb_tmp_len rb1 = rb_tmp_len rb" by blast
  let ?rb' = "rb1\<lparr>rb_buf := take n (rb_buf rb1) @ replicate (n - length (rb_buf rb1)) 0,
      rb_end := min (rb_end rb1) n\<rparr>"
  have le: "rb_end rb1 \<le> length (rb_buf rb1)" using a(2,4) by (simp add: rb_inv_def)
  have "rb_contents ?rb' = take (min (rb_end rb1) n) (rb_buf rb1)"
    using a(4) le by (simp add: rb_contents_def min_def)
  also have "\<dots> = take n (rb_contents rb)"
    using a(3,4) le by (simp add: rb_contents_aligned min.commute flip: a(3))
  finally have "rb_contents ?rb' = take n (rb_contents rb)" .
  moreover have "rb_inv ?rb'" using a(4) le by (auto simp: rb_inv_def)
  ultimately show ?thesis
    using a False by (auto simp: rb_resize_def rb_capacity_def)
qed

lemma swap_inner_result:
  assumes "rb_inv a" "rb_tmp_ok a" "rb_inv b" "rb_tmp_ok b"
    and "rb_capacity b \<le> rb_tmp_len a" "rb_capacity a \<le> rb_tmp_len b"
  shows "\<exists>a' b'. swap_inner a b = Some (a', b') \<and> rb_inv a' \<and> rb_inv b' \<and> rb_tmp_ok a' \<and> rb_tmp_ok b'
    \<and> rb_contents a' = rb_contents b \<and> rb_contents b' = rb_contents a
    \<and> rb_capacity a' = rb_capacity b \<and> rb_capacity b' = rb_capacity a"
proof -
  from take_inner_result [OF assms(1,2)] obtain fa a1 where
    a: "take_inner a = Some (fa, a1)" "length (fb_data fa) = rb_capacity a"
       "fb_filled fa \<le> length (fb_data fa)" "fb_filled_bytes fa = Some (rb_contents a)"
       "rb_tmp_len a1 = rb_tmp_len a" by auto
  from take_inner_result [OF assms(3,4)] obtain fb b1 where
    b: "take_inner b = Some (fb, b1)" "length (fb_data fb) = rb_capacity b"
       "fb_filled fb \<le> length (fb_data fb)" "fb_filled_bytes fb = Some (rb_contents b)"
       "rb_tmp_len b1 = rb_tmp_len b" by auto
  obtain a' where a': "set_inner a1 fb = Some a'" "rb_inv a'" "rb_tmp_ok a'"
      "rb_contents a' = rb_contents b" "rb_capacity a' = rb_capacity b"
    using set_inner_result [OF b(3) _ b(4), of a1] a(5) b(2) assms(5) by auto
  obtain b' where b': "set_inner b1 fa = Some b'" "rb_inv b'" "rb_tmp_ok b'"
      "rb_contents b' = rb_contents a" "rb_capacity b' = rb_capacity a"
    using set_inner_result [OF a(3) _ a(4), of b1] b(5) a(2) assms(6) by auto
  show ?thesis using a(1) b(1) a' b' by (simp add: swap_inner_def)
qed

section \<open>Properties\<close>

text \<open>A write to a ring buffer appends the longest prefix of the data that fits to the
  readable bytes, reports its length, and refuses with \<open>WriteZero\<close> exactly when there is data and no
  room; the loop in \<open>write\<close> returns, and no slice operation in it panics.\<close>

lemma ring_write_appends:
  assumes "rb_inv rb"
  shows "\<exists>rb'. rb_write rb data = Some
      (if data \<noteq> [] \<and> rb_remaining_capacity rb = 0 then Inl WriteZero
       else Inr (min (length data) (rb_remaining_capacity rb)), rb')
    \<and> rb_inv rb' \<and> rb_contents rb' = rb_contents rb @ take (rb_remaining_capacity rb) data"
  by (rule rb_write_result [OF assms])

definition wrapped_example :: ring_buffer where
  "wrapped_example = \<lparr>rb_buf = [1, 2, 3, 4], rb_start = 3, rb_end = 6, rb_tmp_len = 4\<rparr>"

lemma wrapped_example_ok:
  "rb_inv wrapped_example" "rb_tmp_ok wrapped_example" "rb_remaining_capacity wrapped_example = 1"
  "rb_contents wrapped_example = [4, 1, 2]"
  by (simp_all add: wrapped_example_def rb_inv_def rb_tmp_ok_def rb_remaining_capacity_def rb_contents_def)

text \<open>Property C29. Bytes leave a ring buffer in the order in which they entered it: after a successful
  write, reading \<open>k\<close> bytes returns the first \<open>k\<close> of the old contents followed by the written bytes, and
  leaves the rest; the read loop returns and does not panic, however the contents wrap.\<close>

theorem ring_buffer_fifo:
  assumes "rb_inv rb" and "rb_write rb data = Some (Inr n, rb1)"
  shows "n \<le> length data \<and> (\<exists>rb2. rb_read_loop rb1 k [] = Some (take k (rb_contents rb @ take n data), rb2)
    \<and> rb_inv rb2 \<and> rb_contents rb2 = drop k (rb_contents rb @ take n data))"
proof -
  from rb_write_result [OF assms(1), of data] assms(2) have *: "rb_inv rb1" "n = min (length data) (rb_remaining_capacity rb)"
    "rb_contents rb1 = rb_contents rb @ take n data"
    by (auto simp: min_def split: if_splits)
  with rb_read_loop_contents [OF *(1), of "[]" k] show ?thesis by auto
qed

theorem ring_buffer_fifo_witness:
  "\<exists>rb1 rb2. rb_write wrapped_example [8, 9] = Some (Inr 1, rb1)
     \<and> rb_read_loop rb1 2 [] = Some ([4, 1], rb2) \<and> rb_contents rb2 = [2, 8]"
proof -
  obtain rb1 where w: "rb_write wrapped_example [8, 9] = Some (Inr 1, rb1)"
    using rb_write_loop_contents [OF wrapped_example_ok(1), of 0 "[8, 9]"]
    by (auto simp: rb_write_def wrapped_example_ok)
  from ring_buffer_fifo [OF wrapped_example_ok(1) w, of 2] w show ?thesis
    by (auto simp: wrapped_example_ok)
qed

text \<open>\<open>align\<close> never panics when the scratch vector is as long as the buffer, keeps the
  readable bytes in order on each of its four branches (already aligned, copy down, two disjoint
  copies, through the scratch vector) and leaves them contiguous at position 0.\<close>

lemma align_preserves_contents:
  assumes "rb_inv rb" and "rb_tmp_ok rb"
  shows "\<exists>n rb'. align rb = Some (n, rb') \<and> rb_inv rb' \<and> rb_contents rb' = rb_contents rb
    \<and> rb_start rb' = 0 \<and> is_readable_contiguous rb' \<and> rb_read_buf rb' = Some (rb_contents rb)"
proof -
  from align_result [OF assms] obtain n rb' where
    a: "align rb = Some (n, rb')" "rb_inv rb'" "rb_contents rb' = rb_contents rb" "rb_start rb' = 0"
    by blast
  then have "rb_end rb' \<le> length (rb_buf rb')" by (simp add: rb_inv_def)
  with a show ?thesis
    by (auto simp: is_readable_contiguous_def rb_read_buf_def rb_contents_aligned min_def)
qed

text \<open>\<open>swap_inner\<close> exchanges the contents and the capacities of two ring buffers and
  does not panic, provided each scratch vector is as long as the other buffer's array.\<close>

lemma swap_inner_exchanges:
  assumes "rb_inv a" "rb_tmp_ok a" "rb_inv b" "rb_tmp_ok b"
    and "rb_capacity b \<le> rb_tmp_len a" "rb_capacity a \<le> rb_tmp_len b"
  shows "\<exists>a' b'. swap_inner a b = Some (a', b') \<and> rb_inv a' \<and> rb_inv b'
    \<and> rb_contents a' = rb_contents b \<and> rb_contents b' = rb_contents a
    \<and> rb_capacity a' = rb_capacity b \<and> rb_capacity b' = rb_capacity a"
  using swap_inner_result [OF assms] by blast

end
