(* ===== verification/Vectored.thy ===== *)
theory Vectored
  imports Buffer
begin

text \<open>
  The vectored-output helpers of \<open>src/core/buffer.rs\<close>: writing a list of slices from an offset
  (\<open>write_vectored_offset\<close>), the emulation of a vectored write by single writes
  (\<open>write_trait_vectored_helper\<close>), the views that limit or skip bytes of a list of slices
  (\<open>LimitBufs\<close>, \<open>LimitBufsMut\<close>) and the log helper \<open>trim_for_display\<close>.

  The writers are generic in the source (\<open>W: Write\<close>) and are arguments here: a record of the two
  operations the helpers call. The locales \<open>byte_sink\<close> and \<open>vectored_sink\<close> state what \<open>Write\<close>
  documents: a write that reports \<open>n\<close> bytes has taken the first \<open>n\<close> bytes, a failed one has taken
  none. Ring and contiguous buffers are interpreted as byte sinks.
\<close>

section \<open>Writers\<close>

type_synonym 'w write_result = "((io_error + nat) \<times> 'w) run"

record 'w writer =
  w_write :: "'w \<Rightarrow> bytes \<Rightarrow> 'w write_result"
  w_write_vectored :: "'w \<Rightarrow> bytes list \<Rightarrow> 'w write_result"

section \<open>write\_trait\_vectored\_helper\<close>

text \<open>The inner \<open>loop\<close>: a write that is retried while it is interrupted.\<close>

partial_function (option) write_retry ::
  "('w \<Rightarrow> bytes \<Rightarrow> 'w write_result) \<Rightarrow> 'w \<Rightarrow> bytes \<Rightarrow> ((io_error + nat) \<times> 'w) option" where
  "write_retry wr w data = do {
     (r, w) \<leftarrow> wr w data;
     if r = Inl Interrupted then write_retry wr w data else Some (r, w)
   }"

declare write_retry.simps [code]

text \<open>The \<open>for\<close> loop over the slices, with the running total.\<close>

fun write_bufs :: "('w \<Rightarrow> bytes \<Rightarrow> 'w write_result) \<Rightarrow> 'w \<Rightarrow> nat \<Rightarrow> bytes list \<Rightarrow> 'w write_result" where
  "write_bufs wr w tot [] = Some (Inr tot, w)"
| "write_bufs wr w tot (buf # bufs) =
     (if buf = [] then write_bufs wr w tot bufs
      else do {
        (r, w) \<leftarrow> write_retry wr w buf;
        (case r of
           Inl e \<Rightarrow> Some (if tot > 0 then Inr tot else Inl e, w)
         | Inr n \<Rightarrow>
             if n < length buf then Some (Inr (tot + n), w)
             else write_bufs wr w (tot + n) bufs)
      })"

definition write_trait_vectored_helper ::
  "('w \<Rightarrow> bytes \<Rightarrow> 'w write_result) \<Rightarrow> 'w \<Rightarrow> bytes list \<Rightarrow> 'w write_result" where
  "write_trait_vectored_helper wr w bufs =
     (if bufs = [] then wr w [] else write_bufs wr w 0 bufs)"

definition rb_writer :: "ring_buffer writer" where
  "rb_writer = \<lparr>w_write = rb_write, w_write_vectored = write_trait_vectored_helper rb_write\<rparr>"

definition cb_writer :: "contiguous_buffer writer" where
  "cb_writer = \<lparr>w_write = cb_write, w_write_vectored = write_trait_vectored_helper cb_write\<rparr>"

section \<open>write\_vectored\_offset\<close>

text \<open>The \<open>while\<close> loop that finds the slice the offset falls into: either the final result or the
  remaining offset and slices. The list is not empty when the loop is entered.\<close>

fun offset_start :: "nat \<Rightarrow> bytes list \<Rightarrow> (io_error + nat) + (nat \<times> bytes list)" where
  "offset_start offset [] = Inl (Inr 0)"
| "offset_start offset (buf # bufs) =
     (if offset \<ge> length buf then
        (if bufs = [] then
           (if offset > length buf then Inl (Inl InvalidInput) else Inl (Inr 0))
         else offset_start (offset - length buf) bufs)
      else Inr (offset, buf # bufs))"

text \<open>The number of \<open>IoSlice\<close> slots the dispatch on the number of slices allocates.\<close>

definition scratch_slots :: "nat \<Rightarrow> nat" where
  "scratch_slots n =
     (if n \<le> 8 then 8 else if n \<le> 16 then 16 else if n \<le> 32 then 32 else if n \<le> 64 then 64
      else if n \<le> 128 then 128 else if n \<le> 256 then 256 else if n \<le> 512 then 512
      else if n \<le> 1024 then 1024 else n)"

definition write_vectored_offset_inner ::
  "'w writer \<Rightarrow> 'w \<Rightarrow> bytes list \<Rightarrow> nat \<Rightarrow> nat \<Rightarrow> 'w write_result" where
  "write_vectored_offset_inner W w bufs first_buf_offset slots =
     (case take slots bufs of
        [] \<Rightarrow> w_write_vectored W w []
      | buf # rest \<Rightarrow> do {
          first \<leftarrow> subslice buf first_buf_offset (length buf);
          w_write_vectored W w (first # rest)
        })"

definition write_vectored_offset :: "'w writer \<Rightarrow> 'w \<Rightarrow> bytes list \<Rightarrow> nat \<Rightarrow> 'w write_result" where
  "write_vectored_offset W w bufs offset =
     (if bufs = [] then Some (Inr 0, w)
      else
        (case offset_start offset bufs of
           Inl r \<Rightarrow> Some (r, w)
         | Inr (offset, bufs) \<Rightarrow>
             write_vectored_offset_inner W w bufs offset (scratch_slots (length bufs))))"

section \<open>Limiting and skipping\<close>

definition cap_bufs :: "bytes list \<Rightarrow> nat \<Rightarrow> bytes list \<times> bool" where
  "cap_bufs bufs max_bufs = (if length bufs > max_bufs then (take max_bufs bufs, True) else (bufs, False))"

text \<open>
  A guard holds the slices with one of them narrowed, the range of visible slices, and what it
  must put back when dropped: the index of the narrowed slice and the bytes hidden before and
  after it. (The code keeps the original pointer and length; the visible bytes between may have
  been changed in place through the guard, the hidden ones may not.)
\<close>

record limit_guard =
  lg_bufs :: "bytes list"
  lg_start :: nat
  lg_end :: nat
  lg_restore :: "(nat \<times> bytes \<times> bytes) option"

text \<open>The loop of \<open>limit\<close>/\<open>skip\<close>: the first slice with at least the wanted number of bytes.\<close>

fun find_split :: "nat \<Rightarrow> nat \<Rightarrow> bytes list \<Rightarrow> (nat \<times> nat) option" where
  "find_split i want [] = None"
| "find_split i want (buf # bufs) =
     (if length buf \<ge> want then Some (i, want) else find_split (Suc i) (want - length buf) bufs)"

definition limit :: "bytes list \<Rightarrow> nat \<Rightarrow> limit_guard" where
  "limit bufs n =
     (case find_split 0 n bufs of
        None \<Rightarrow> \<lparr>lg_bufs = bufs, lg_start = 0, lg_end = length bufs, lg_restore = None\<rparr>
      | Some (i, want) \<Rightarrow>
          \<lparr>lg_bufs = bufs[i := take want (bufs ! i)], lg_start = 0, lg_end = i + 1,
           lg_restore = Some (i, [], drop want (bufs ! i))\<rparr>)"

definition skip :: "bytes list \<Rightarrow> nat \<Rightarrow> limit_guard" where
  "skip bufs n =
     (case find_split 0 n bufs of
        None \<Rightarrow> \<lparr>lg_bufs = bufs, lg_start = 0, lg_end = length bufs, lg_restore = None\<rparr>
      | Some (i, k) \<Rightarrow>
          \<lparr>lg_bufs = bufs[i := drop k (bufs ! i)], lg_start = i, lg_end = length bufs,
           lg_restore = Some (i, take k (bufs ! i), [])\<rparr>)"

definition lg_as_slice :: "limit_guard \<Rightarrow> bytes list run" where
  "lg_as_slice g = subslice (lg_bufs g) (lg_start g) (lg_end g)"

definition lg_drop :: "limit_guard \<Rightarrow> bytes list" where
  "lg_drop g =
     (case lg_restore g of
        None \<Rightarrow> lg_bufs g
      | Some (i, before, after) \<Rightarrow> (lg_bufs g)[i := before @ (lg_bufs g ! i) @ after])"

text \<open>In-place change of the bytes of the visible slices (their number and lengths are fixed).\<close>

definition lg_update :: "limit_guard \<Rightarrow> bytes list \<Rightarrow> limit_guard" where
  "lg_update g vis = g\<lparr>lg_bufs := take (lg_start g) (lg_bufs g) @ vis @ drop (lg_end g) (lg_bufs g)\<rparr>"

section \<open>trim\_for\_display\<close>

text \<open>On the characters of the string. The scan assigns \<open>left_end\<close> and \<open>right_start\<close> only at
  indices that occur; a position that never occurs leaves the initial 0.\<close>

definition trim_for_display :: "nat list \<Rightarrow> nat \<Rightarrow> nat list" where
  "trim_for_display s max_len =
     (let char_len = length s in
      if char_len > max_len \<and> max_len \<ge> 7 then
        let dist = max_len div 2;
            left_end = (if dist < char_len then dist else 0);
            right_start = (if char_len - dist + 3 < char_len then char_len - dist + 3 else 0)
        in take left_end s @ [46, 46, 46] @ drop right_start s
      else s)"

section \<open>Sinks\<close>

text \<open>What a reported result says about the bytes a sink has taken.\<close>

definition took :: "bytes \<Rightarrow> bytes \<Rightarrow> bytes \<Rightarrow> io_error + nat \<Rightarrow> bool" where
  "took before data now r \<longleftrightarrow>
     (case r of Inl e \<Rightarrow> now = before | Inr n \<Rightarrow> n \<le> length data \<and> now = before @ take n data)"

lemma took_simps [simp]:
  "took b d a (Inl e) \<longleftrightarrow> a = b"
  "took b d a (Inr n) \<longleftrightarrow> n \<le> length d \<and> a = b @ take n d"
  by (simp_all add: took_def)

locale vectored_sink =
  fixes write_vectored :: "'w \<Rightarrow> bytes list \<Rightarrow> 'w write_result"
    and out :: "'w \<Rightarrow> bytes"
    and invar :: "'w \<Rightarrow> bool"
  assumes write_vectored_took: "invar w \<Longrightarrow>
    \<exists>r w'. write_vectored w bufs = Some (r, w') \<and> invar w' \<and> took (out w) (concat bufs) (out w') r"

locale byte_sink =
  fixes wr :: "'w \<Rightarrow> bytes \<Rightarrow> 'w write_result"
    and out :: "'w \<Rightarrow> bytes"
    and invar :: "'w \<Rightarrow> bool"
  assumes write_took: "invar w \<Longrightarrow>
    \<exists>r w'. wr w data = Some (r, w') \<and> invar w' \<and> took (out w) data (out w') r \<and> r \<noteq> Inl Interrupted"
begin

lemma write_retry_took:
  assumes "invar w"
  shows "\<exists>r w'. write_retry wr w data = Some (r, w') \<and> invar w' \<and> took (out w) data (out w') r"
  using write_took [OF assms, of data] by (subst write_retry.simps) auto

lemma write_bufs_took:
  assumes "invar w" and "out w = base @ sofar" and "length sofar = tot"
  shows "\<exists>r w'. write_bufs wr w tot bufs = Some (r, w') \<and> invar w'
    \<and> took base (sofar @ concat bufs) (out w') r"
  using assms
proof (induction bufs arbitrary: w tot sofar)
  case Nil
  then show ?case by auto
next
  case (Cons buf bufs)
  show ?case
  proof (cases "buf = []")
    case True
    with Cons.IH [OF Cons.prems] show ?thesis by simp
  next
    case False
    from write_retry_took [OF Cons.prems(1), of buf] obtain r w1 where
      w1: "write_retry wr w buf = Some (r, w1)" "invar w1" "took (out w) buf (out w1) r" by blast
    show ?thesis
    proof (cases r)
      case (Inl e)
      with w1 False Cons.prems show ?thesis by (cases "tot > 0") auto
    next
      case (Inr n)
      with w1(3) have n: "n \<le> length buf" "out w1 = out w @ take n buf" by auto
      show ?thesis
      proof (cases "n < length buf")
        case True
        with w1 Inr n False Cons.prems show ?thesis by simp
      next
        case full: False
        with n have "n = length buf" "out w1 = base @ (sofar @ buf)" using Cons.prems(2) by auto
        with Cons.IH [OF w1(2), of "sofar @ buf" "tot + n"] w1(1) Inr full False Cons.prems(3)
        show ?thesis by simp
      qed
    qed
  qed
qed

end

text \<open>A vectored write emulated over a byte sink is a vectored write.\<close>

sublocale byte_sink \<subseteq> vectored_sink "write_trait_vectored_helper wr" out invar
proof (unfold_locales, goal_cases)
  case (1 w bufs)
  show ?case
  proof (cases "bufs = []")
    case True
    with write_took [OF 1, of "[]"] show ?thesis by (auto simp: write_trait_vectored_helper_def)
  next
    case False
    with write_bufs_took [OF 1, of "out w" "[]" 0 bufs] show ?thesis
      by (auto simp: write_trait_vectored_helper_def)
  qed
qed

interpretation ring_sink: byte_sink rb_write rb_contents rb_inv
proof (unfold_locales, goal_cases)
  case (1 w data)
  from rb_write_result [OF this, of data] show ?case by (auto simp: min_def)
qed

interpretation contiguous_sink: byte_sink cb_write cb_contents cb_inv
proof (unfold_locales, goal_cases)
  case (1 w data)
  show ?case
  proof (cases "data \<noteq> [] \<and> cb_remaining_capacity w = 0")
    case True
    with 1 show ?thesis by (auto simp: cb_write_def)
  next
    case False
    show ?thesis
    proof (cases "data = []")
      case True
      with 1 show ?thesis
        by (auto simp: cb_write_def cb_write_range_def cb_fill_def cb_write_commit_def
            assert_that_bind copy_from_slice_def cb_inv_def cb_contents_def)
    next
      case nonempty: False
      with False have "0 < cb_remaining_capacity w" by simp
      from contiguous.write_turn [OF 1 nonempty this] False nonempty show ?thesis
        by (auto simp: cb_write_def Let_def simp del: min_less_iff_conj)
    qed
  qed
qed

lemma offset_start_spec:
  assumes "bufs \<noteq> []"
  shows "case offset_start offset bufs of
      Inl r \<Rightarrow> (length (concat bufs) < offset \<and> r = Inl InvalidInput) \<or> (length (concat bufs) = offset \<and> r = Inr 0)
    | Inr (k, bs) \<Rightarrow> offset < length (concat bufs) \<and> bs \<noteq> [] \<and> k < length (hd bs)
        \<and> drop k (concat bs) = drop offset (concat bufs)"
  using assms
proof (induction offset bufs rule: offset_start.induct)
  case (2 offset buf bufs)
  show ?case
  proof (cases "offset \<ge> length buf \<and> bufs \<noteq> []")
    case True
    with 2 show ?thesis by (auto split: sum.splits)
  next
    case False
    with 2 show ?thesis by (auto split: sum.splits)
  qed
qed simp

lemma scratch_slots_ge: "n \<le> scratch_slots n"
  by (simp add: scratch_slots_def)

context vectored_sink
begin

lemma write_vectored_offset_took:
  assumes "invar w" and W: "w_write_vectored W = write_vectored" and "bufs \<noteq> []"
  shows "\<exists>r w'. write_vectored_offset W w bufs offset = Some (r, w') \<and> invar w'
    \<and> (if length (concat bufs) < offset then r = Inl InvalidInput \<and> w' = w
       else took (out w) (drop offset (concat bufs)) (out w') r)"
proof (cases "offset_start offset bufs")
  case (Inl r)
  with offset_start_spec [OF assms(3), of offset] assms show ?thesis
    by (auto simp: write_vectored_offset_def)
next
  case (Inr p)
  obtain k bs where p: "p = (k, bs)" by (cases p)
  with Inr offset_start_spec [OF assms(3), of offset] have
    *: "offset < length (concat bufs)" "bs \<noteq> []" "k < length (hd bs)"
       "drop k (concat bs) = drop offset (concat bufs)" by auto
  then obtain b rest where b: "bs = b # rest" "k < length b" by (cases bs) auto
  have "take (scratch_slots (length bs)) bs = b # rest"
    using b scratch_slots_ge [of "length bs"] by simp
  then have "write_vectored_offset W w bufs offset = write_vectored w (drop k b # rest)"
    using b assms(2,3) Inr p by (simp add: write_vectored_offset_def write_vectored_offset_inner_def)
  moreover have "concat (drop k b # rest) = drop offset (concat bufs)"
    using b * by simp
  ultimately show ?thesis
    using write_vectored_took [OF assms(1), of "drop k b # rest"] *(1) by auto
qed

end

section \<open>Views\<close>

lemma find_split_spec:
  "case find_split i want bufs of
     None \<Rightarrow> length (concat bufs) < want \<or> (bufs = [] \<and> want = 0)
   | Some (j, k) \<Rightarrow> i \<le> j \<and> j < i + length bufs \<and> k \<le> length (bufs ! (j - i))
       \<and> want = length (concat (take (j - i) bufs)) + k"
proof (induction i want bufs rule: find_split.induct)
  case (2 i want buf bufs)
  show ?case
  proof (cases "length buf \<ge> want")
    case True
    then show ?thesis by simp
  next
    case False
    show ?thesis
    proof (cases "find_split (Suc i) (want - length buf) bufs")
      case None
      with 2 [OF False] False show ?thesis by auto
    next
      case (Some p)
      with 2 [OF False] False show ?thesis
        by (cases p) (auto simp: Suc_diff_le take_Cons' nth_Cons' not_le)
    qed
  qed
qed auto

lemma concat_split_at:
  assumes "j < length bufs"
  shows "concat bufs = concat (take j bufs) @ bufs ! j @ concat (drop (Suc j) bufs)"
proof -
  have "bufs = take j bufs @ bufs ! j # drop (Suc j) bufs" by (rule id_take_nth_drop [OF assms])
  then show ?thesis by (metis concat.simps(2) concat_append)
qed

lemma limit_visible:
  "\<exists>vis. lg_as_slice (limit bufs n) = Some vis \<and> concat vis = take n (concat bufs)"
proof (cases "find_split 0 n bufs")
  case None
  with find_split_spec [where i = 0 and want = n and bufs = bufs] show ?thesis
    by (auto simp: limit_def lg_as_slice_def)
next
  case (Some p)
  obtain j k where p: "p = (j, k)" by (cases p)
  with Some find_split_spec [where i = 0 and want = n and bufs = bufs] have
    *: "j < length bufs" "k \<le> length (bufs ! j)" "n = length (concat (take j bufs)) + k" by auto
  have "lg_as_slice (limit bufs n) = Some (take (Suc j) (bufs[j := take k (bufs ! j)]))"
    using Some p * by (simp add: limit_def lg_as_slice_def)
  moreover have "take (Suc j) (bufs[j := take k (bufs ! j)]) = take j bufs @ [take k (bufs ! j)]"
    using * by (simp add: take_Suc_conv_app_nth)
  ultimately show ?thesis using * concat_split_at [OF *(1)] by (auto simp: length_concat)
qed

lemma skip_visible:
  assumes "n \<le> length (concat bufs)" and "bufs \<noteq> []"
  shows "\<exists>vis. lg_as_slice (skip bufs n) = Some vis \<and> concat vis = drop n (concat bufs)"
proof (cases "find_split 0 n bufs")
  case None
  with find_split_spec [where i = 0 and want = n and bufs = bufs] assms show ?thesis by auto
next
  case (Some p)
  obtain j k where p: "p = (j, k)" by (cases p)
  with Some find_split_spec [where i = 0 and want = n and bufs = bufs] have
    *: "j < length bufs" "k \<le> length (bufs ! j)" "n = length (concat (take j bufs)) + k" by auto
  have "lg_as_slice (skip bufs n) = Some (drop j (bufs[j := drop k (bufs ! j)]))"
    using Some p * by (simp add: skip_def lg_as_slice_def)
  moreover have "drop j (bufs[j := drop k (bufs ! j)]) = drop k (bufs ! j) # drop (Suc j) bufs"
    using * by (simp add: Cons_nth_drop_Suc [symmetric])
  ultimately show ?thesis using * concat_split_at [OF *(1)] by (auto simp: length_concat)
qed

lemma limit_drop: "lg_drop (limit bufs n) = bufs"
  using find_split_spec [where i = 0 and want = n and bufs = bufs]
  by (auto simp: limit_def lg_drop_def split: option.splits prod.splits)

lemma skip_drop: "lg_drop (skip bufs n) = bufs"
  using find_split_spec [where i = 0 and want = n and bufs = bufs]
  by (auto simp: skip_def lg_drop_def split: option.splits prod.splits)

section \<open>Properties\<close>

text \<open>Whatever writer it is given, provided the writer takes the prefix it reports,
  \<open>write_vectored_offset\<close> hands it exactly the bytes of the slices from the offset on: a result of
  \<open>n\<close> bytes means that the next \<open>n\<close> bytes after the offset have been taken; an offset past the end
  is refused with \<open>InvalidInput\<close> and writes nothing. Neither the search for the first slice nor the
  dispatch on the number of slices panics or loses a slice.\<close>

lemma write_vectored_offset_resumes:
  assumes "vectored_sink (w_write_vectored W) out invar" and "invar w" and "bufs \<noteq> []"
  shows "\<exists>r w'. write_vectored_offset W w bufs offset = Some (r, w') \<and> invar w'
    \<and> (if length (concat bufs) < offset then r = Inl InvalidInput \<and> w' = w
       else took (out w) (drop offset (concat bufs)) (out w') r)"
  by (rule vectored_sink.write_vectored_offset_took [OF assms(1,2) _ assms(3)]) simp

definition empty_ring :: "nat \<Rightarrow> ring_buffer" where
  "empty_ring n = \<lparr>rb_buf = replicate n 0, rb_start = 0, rb_end = 0, rb_tmp_len = n\<rparr>"

lemma empty_ring_ok: "rb_inv (empty_ring n)" "rb_contents (empty_ring n) = []"
  by (simp_all add: empty_ring_def rb_inv_def rb_contents_def)

text \<open>A vectored write emulated by single writes on a ring buffer has the effect of one
  write of the joined slices up to the reported count: the bytes are taken in order, an error after
  progress is reported as that progress, and an error without progress leaves the buffer as it was.\<close>

lemma vectored_helper_ring:
  assumes "rb_inv rb"
  shows "\<exists>r rb'. write_trait_vectored_helper rb_write rb bufs = Some (r, rb') \<and> rb_inv rb'
    \<and> (case r of
         Inl e \<Rightarrow> rb_contents rb' = rb_contents rb
       | Inr n \<Rightarrow> n \<le> length (concat bufs) \<and> rb_contents rb' = rb_contents rb @ take n (concat bufs))"
  using ring_sink.write_vectored_took [OF assms, of bufs] by (simp add: took_def)

text \<open>The limited view of a list of slices shows exactly the first \<open>n\<close> bytes, the skipping
  view exactly the bytes after the first \<open>n\<close> (for \<open>n\<close> within the slices), and dropping either guard puts
  the original slices back.\<close>

lemma limit_and_skip_views:
  assumes "k \<le> length (concat bufs)" and "bufs \<noteq> []"
  shows "(\<exists>vis. lg_as_slice (limit bufs n) = Some vis \<and> concat vis = take n (concat bufs))
    \<and> (\<exists>vis. lg_as_slice (skip bufs k) = Some vis \<and> concat vis = drop k (concat bufs))
    \<and> lg_drop (limit bufs n) = bufs \<and> lg_drop (skip bufs k) = bufs"
  using limit_visible skip_visible [OF assms] limit_drop skip_drop by simp

text \<open>A string cut for the log keeps its ends around three dots and never exceeds the
  limit, for limits of 8 and more; shorter strings and smaller limits than 7 leave it unchanged.\<close>

lemma trim_for_display_bound:
  assumes "8 \<le> n"
  shows "length (trim_for_display s n) \<le> max n (length s)
    \<and> (n < length s \<longrightarrow> length (trim_for_display s n) \<le> n
        \<and> trim_for_display s n = take (n div 2) s @ [46, 46, 46] @ drop (length s - (n div 2 - 3)) s)
    \<and> (length s \<le> n \<longrightarrow> trim_for_display s n = s)"
proof -
  have "length s - n div 2 + 3 = length s - (n div 2 - 3)" if "n < length s" using assms that by linarith
  then show ?thesis using assms by (auto simp: trim_for_display_def Let_def)
qed

text \<open>At the limit 7, which the guard \<open>max >= 7\<close> lets in, the position of the right part is
  never reached by the scan and stays 0: the result is the first three characters, the dots and the
  whole string, six characters longer than the input.\<close>

lemma trim_for_display_seven:
  assumes "7 < length s"
  shows "trim_for_display s 7 = take 3 s @ [46, 46, 46] @ s
    \<and> length (trim_for_display s 7) = length s + 6"
  using assms by (simp add: trim_for_display_def Let_def)

end
