(* ===== verification/BufferBudget.thy ===== *)
theory BufferBudget
  imports Buffer
begin

text \<open>
  \<open>BufferBudget\<close> of \<open>src/core/buffer.rs\<close>: connections expand their buffers by blocks drawn from a
  shared \<open>Counter\<close> and give the blocks back when they shrink a buffer, release blocks or are
  dropped. The shared counter is passed along; \<open>budget_step\<close> runs one operation of one of any
  number of connections that share it. The lemmas show that blocks are neither lost nor made.
\<close>

record buffer_budget =
  bb_blocks_max :: "nat option"
  bb_block_size :: nat
  bb_blocks_used :: nat

definition budget_new :: buffer_budget where
  "budget_new = \<lparr>bb_blocks_max = None, bb_block_size = 1, bb_blocks_used = 0\<rparr>"

definition with_blocks_max :: "buffer_budget \<Rightarrow> nat \<Rightarrow> buffer_budget" where
  "with_blocks_max b n = b\<lparr>bb_blocks_max := Some n\<rparr>"

definition with_block_size :: "buffer_budget \<Rightarrow> nat \<Rightarrow> buffer_budget" where
  "with_block_size b n = b\<lparr>bb_block_size := n\<rparr>"

definition local_limit_ok :: "buffer_budget \<Rightarrow> bool" where
  "local_limit_ok b = (case bb_blocks_max b of None \<Rightarrow> True | Some m \<Rightarrow> bb_blocks_used b < m)"

text \<open>Each operation takes the budget, the value of the shared counter and the buffer.\<close>

definition expand_buffer_if_needed ::
  "buffer_budget \<Rightarrow> nat \<Rightarrow> ring_buffer \<Rightarrow> (nat \<times> buffer_budget \<times> nat \<times> ring_buffer) run" where
  "expand_buffer_if_needed b avail rb =
     (if rb_remaining_capacity rb = 0 \<and> local_limit_ok b then
        (case counter_dec avail 1 of
           (Inr _, avail) \<Rightarrow> do {
             let b = b\<lparr>bb_blocks_used := bb_blocks_used b + 1\<rparr>;
             rb \<leftarrow> rb_resize rb (rb_capacity rb + bb_block_size b);
             Some (bb_block_size b, b, avail, rb)
           }
         | (Inl _, avail) \<Rightarrow> Some (0, b, avail, rb))
      else Some (0, b, avail, rb))"

definition release_blocks :: "buffer_budget \<Rightarrow> nat \<Rightarrow> nat \<Rightarrow> (nat \<times> buffer_budget \<times> nat) run" where
  "release_blocks b avail count =
     (let count = min count (bb_blocks_used b);
          b = b\<lparr>bb_blocks_used := bb_blocks_used b - count\<rparr>
      in case counter_inc avail count of
           (Inr _, avail) \<Rightarrow> Some (count, b, avail)
         | (Inl _, _) \<Rightarrow> panic)"

definition shrink_buffer ::
  "buffer_budget \<Rightarrow> nat \<Rightarrow> ring_buffer \<Rightarrow> nat \<Rightarrow> (buffer_budget \<times> nat \<times> ring_buffer) run" where
  "shrink_buffer b avail rb target_capacity =
     (let capacity = rb_capacity rb in
      if capacity > target_capacity then do {
        assert_that (bb_block_size b \<noteq> 0);
        assert_that ((capacity - target_capacity) mod bb_block_size b = 0);
        rb \<leftarrow> rb_resize rb target_capacity;
        let blocks_freed = (capacity - target_capacity) div bb_block_size b;
        (_, b, avail) \<leftarrow> release_blocks b avail blocks_freed;
        Some (b, avail, rb)
      }
      else Some (b, avail, rb))"

definition budget_drop :: "buffer_budget \<Rightarrow> nat \<Rightarrow> nat run" where
  "budget_drop b avail =
     (case counter_inc avail (bb_blocks_used b) of (Inr _, avail) \<Rightarrow> Some avail | (Inl _, _) \<Rightarrow> panic)"

section \<open>Connections sharing a counter\<close>

datatype budget_op = Expand | Release nat | Shrink nat

record budget_sys =
  bs_avail :: nat
  bs_conns :: "(buffer_budget \<times> ring_buffer) list"

fun budget_step :: "budget_sys \<Rightarrow> nat \<times> budget_op \<Rightarrow> budget_sys run" where
  "budget_step s (i, oper) = do {
     (b, rb) \<leftarrow> index_at (bs_conns s) i;
     (b, avail, rb) \<leftarrow>
       (case oper of
          Expand \<Rightarrow> do {
            (_, b, avail, rb) \<leftarrow> expand_buffer_if_needed b (bs_avail s) rb;
            Some (b, avail, rb)
          }
        | Release n \<Rightarrow> do {
            (_, b, avail) \<leftarrow> release_blocks b (bs_avail s) n;
            Some (b, avail, rb)
          }
        | Shrink n \<Rightarrow> shrink_buffer b (bs_avail s) rb n);
     Some \<lparr>bs_avail = avail, bs_conns = (bs_conns s)[i := (b, rb)]\<rparr>
   }"

fun budget_run :: "budget_sys \<Rightarrow> (nat \<times> budget_op) list \<Rightarrow> budget_sys run" where
  "budget_run s [] = Some s"
| "budget_run s (x # xs) = do { s \<leftarrow> budget_step s x; budget_run s xs }"

fun drop_all :: "nat \<Rightarrow> (buffer_budget \<times> ring_buffer) list \<Rightarrow> nat run" where
  "drop_all avail [] = Some avail"
| "drop_all avail ((b, rb) # cs) = do { avail \<leftarrow> budget_drop b avail; drop_all avail cs }"

definition blocks_total :: "budget_sys \<Rightarrow> nat" where
  "blocks_total s = bs_avail s + sum_list (map (\<lambda>(b, rb). bb_blocks_used b) (bs_conns s))"

definition budget_within :: "buffer_budget \<Rightarrow> bool" where
  "budget_within b \<longleftrightarrow> (case bb_blocks_max b of None \<Rightarrow> True | Some m \<Rightarrow> bb_blocks_used b \<le> m)"

definition limit_kept :: "budget_sys \<Rightarrow> bool" where
  "limit_kept s \<longleftrightarrow> list_all (\<lambda>(b, rb). budget_within b) (bs_conns s)"

section \<open>Conservation of blocks\<close>

text \<open>One operation on one connection keeps the sum of the counter and of the connection's blocks,
  and the local limit.\<close>

lemma expand_conserves:
  assumes "expand_buffer_if_needed b avail rb = Some (n, b', avail', rb')"
  shows "avail' + bb_blocks_used b' = avail + bb_blocks_used b \<and> (budget_within b \<longrightarrow> budget_within b')"
  using assms
  by (auto simp: expand_buffer_if_needed_def local_limit_ok_def budget_within_def counter_dec_def
      split: if_splits option.splits bind_splits)

lemma release_conserves:
  assumes "release_blocks b avail n = Some (k, b', avail')"
  shows "avail' + bb_blocks_used b' = avail + bb_blocks_used b \<and> (budget_within b \<longrightarrow> budget_within b')"
  using assms
  by (auto simp: release_blocks_def budget_within_def counter_inc_def Let_def
      split: if_splits option.splits)

lemma shrink_conserves:
  assumes "shrink_buffer b avail rb n = Some (b', avail', rb')"
  shows "avail' + bb_blocks_used b' = avail + bb_blocks_used b \<and> (budget_within b \<longrightarrow> budget_within b')"
  using assms
  by (auto simp: shrink_buffer_def Let_def assert_that_bind dest: release_conserves
      split: if_splits bind_splits)

lemma budget_step_conserves:
  assumes "budget_step s (i, oper) = Some s'"
  shows "blocks_total s' = blocks_total s \<and> (limit_kept s \<longrightarrow> limit_kept s')"
proof -
  from assms obtain b rb b' avail' rb' where
    i: "i < length (bs_conns s)" "bs_conns s ! i = (b, rb)" and
    s': "s' = \<lparr>bs_avail = avail', bs_conns = (bs_conns s)[i := (b', rb')]\<rparr>" and
    eq: "avail' + bb_blocks_used b' = bs_avail s + bb_blocks_used b" and
    lim: "budget_within b \<longrightarrow> budget_within b'"
    by (cases oper)
       (fastforce simp: index_at_def bind_eq_Some_conv split: if_splits
          dest: expand_conserves release_conserves shrink_conserves)+
  let ?f = "\<lambda>(b :: buffer_budget, rb :: ring_buffer). bb_blocks_used b"
  have "sum_list (map ?f ((bs_conns s)[i := (b', rb')])) + bb_blocks_used b
      = sum_list (map ?f (bs_conns s)) + bb_blocks_used b'"
    using i sum_list_update [of i "map ?f (bs_conns s)" "bb_blocks_used b'"]
      elem_le_sum_list [of i "map ?f (bs_conns s)"] by (simp add: map_update)
  then have "blocks_total s' = blocks_total s"
    using eq by (simp add: blocks_total_def s')
  moreover have "limit_kept s \<longrightarrow> limit_kept s'"
    using lim i by (auto simp: s' limit_kept_def list_all_length nth_list_update)
  ultimately show ?thesis by simp
qed

lemma budget_run_conserves:
  "budget_run s ops = Some s' \<Longrightarrow> blocks_total s' = blocks_total s \<and> (limit_kept s \<longrightarrow> limit_kept s')"
proof (induction ops arbitrary: s)
  case (Cons x xs)
  then obtain s1 where "budget_step s x = Some s1" "budget_run s1 xs = Some s'"
    by (auto simp: bind_eq_Some_conv)
  with Cons.IH [of s1] budget_step_conserves [of s "fst x" "snd x" s1] show ?case by auto
qed simp

lemma budget_drop_returns:
  assumes "avail + bb_blocks_used b \<le> usize_max"
  shows "budget_drop b avail = Some (avail + bb_blocks_used b)"
  using assms by (auto simp: budget_drop_def counter_inc_def)

lemma drop_all_returns:
  assumes "avail + sum_list (map (\<lambda>(b, rb). bb_blocks_used b) cs) \<le> usize_max"
  shows "drop_all avail cs = Some (avail + sum_list (map (\<lambda>(b, rb). bb_blocks_used b) cs))"
  using assms by (induction avail cs rule: drop_all.induct) (auto simp: budget_drop_returns add.assoc)

lemma release_never_panics:
  assumes "avail + bb_blocks_used b \<le> usize_max"
  shows "release_blocks b avail n \<noteq> panic"
  using assms by (auto simp: release_blocks_def counter_inc_def Let_def)

section \<open>Properties\<close>

text \<open>Property C32. However connections that share a counter expand, shrink and release, the blocks in
  the counter and the blocks held by the connections add up to what they were, and no connection
  exceeds its local limit; when all of them are dropped, no \<open>expect\<close> fails and the counter holds every
  block again.\<close>

theorem budget_blocks_conserved:
  assumes "budget_run s ops = Some s'" and "blocks_total s \<le> usize_max" and "limit_kept s"
  shows "blocks_total s' = blocks_total s \<and> limit_kept s'
    \<and> drop_all (bs_avail s') (bs_conns s') = Some (blocks_total s)"
proof -
  have "blocks_total s' = blocks_total s \<and> limit_kept s'"
    using budget_run_conserves [OF assms(1)] assms(3) by simp
  then show ?thesis
    using drop_all_returns [of "bs_avail s'" "bs_conns s'"] assms(2) by (simp add: blocks_total_def)
qed

definition budget_example :: budget_sys where
  "budget_example = \<lparr>bs_avail = 1, bs_conns =
     [(with_block_size (with_blocks_max budget_new 1) 2,
       \<lparr>rb_buf = [5], rb_start = 0, rb_end = 1, rb_tmp_len = 4\<rparr>)]\<rparr>"

theorem budget_blocks_conserved_witness:
  "\<exists>s'. budget_run budget_example [(0, Expand), (0, Expand)] = Some s'
     \<and> blocks_total s' = 1 \<and> drop_all (bs_avail s') (bs_conns s') = Some 1"
proof -
  obtain s' where r: "budget_run budget_example [(0, Expand), (0, Expand)] = Some s'"
    by (simp add: budget_example_def with_block_size_def with_blocks_max_def budget_new_def
        expand_buffer_if_needed_def local_limit_ok_def rb_remaining_capacity_def counter_dec_def
        rb_resize_def align_def rb_capacity_def)
  have t: "blocks_total budget_example = 1" and "limit_kept budget_example"
    by (simp_all add: budget_example_def blocks_total_def limit_kept_def budget_within_def
        with_block_size_def with_blocks_max_def budget_new_def)
  then have "blocks_total budget_example \<le> usize_max" "limit_kept budget_example"
    by (simp_all add: usize_max_def)
  from budget_blocks_conserved [OF r this] r t show ?thesis by auto
qed

text \<open>Expanding happens exactly when the buffer is full, the local limit allows it and the
  shared counter has a block; it then adds one block of room, takes one block, keeps the contents and
  does not panic. Otherwise nothing changes.\<close>

lemma expand_buffer_effect:
  assumes "rb_inv rb" and "rb_tmp_ok rb"
  shows "if rb_remaining_capacity rb = 0 \<and> local_limit_ok b \<and> 0 < avail
    then \<exists>rb'. expand_buffer_if_needed b avail rb =
        Some (bb_block_size b, b\<lparr>bb_blocks_used := bb_blocks_used b + 1\<rparr>, avail - 1, rb')
      \<and> rb_inv rb' \<and> rb_contents rb' = rb_contents rb \<and> rb_capacity rb' = rb_capacity rb + bb_block_size b
    else expand_buffer_if_needed b avail rb = Some (0, b, avail, rb)"
proof -
  from rb_resize_result [OF assms, of "rb_capacity rb + bb_block_size b"] obtain rb' where
    r: "rb_resize rb (rb_capacity rb + bb_block_size b) = Some rb'" "rb_inv rb'"
      "rb_capacity rb' = rb_capacity rb + bb_block_size b"
      "rb_contents rb' = take (rb_capacity rb + bb_block_size b) (rb_contents rb)" by blast
  have "length (rb_contents rb) \<le> rb_capacity rb"
    using assms(1) by (simp add: rb_capacity_def rb_inv_def)
  with r have "rb_contents rb' = rb_contents rb" by simp
  with r show ?thesis by (auto simp: expand_buffer_if_needed_def counter_dec_def)
qed

end
