(* ===== verification/LinkedList.thy ===== *)
theory LinkedList
  imports Prelude
begin

text \<open>
  The doubly linked list of \<open>src/core/list.rs\<close>. \<open>List<B>\<close> is generic over a \<open>Backend\<close> that stores
  the nodes; here the backend is a record of the trait's operations, an argument of every list
  operation as it is a parameter of the Rust code. The locale \<open>list_backend\<close> states the laws of a
  backend (links are cells that keep what was stored) and proves, once for all backends, that
  every operation acts on the represented sequence of nodes as its name says and leaves the nodes
  of other lists alone. The backend over individually allocated nodes (\<open>RcBackend\<close>) is modelled on
  an explicit store and interpreted here; the backend over a \<open>Slab\<close> is in \<open>SlabList\<close>.
\<close>

section \<open>Backends\<close>

datatype relation = Prev | Next

record ('b, 'i) backend =
  be_index_eq :: "'i \<Rightarrow> 'i \<Rightarrow> bool"
  be_clone_link :: "'b \<Rightarrow> 'i \<Rightarrow> relation \<Rightarrow> 'i option run"
  be_set_link :: "'b \<Rightarrow> 'i \<Rightarrow> relation \<Rightarrow> 'i option \<Rightarrow> 'b run"
  be_take_link :: "'b \<Rightarrow> 'i \<Rightarrow> relation \<Rightarrow> ('i option \<times> 'b) run"

section \<open>List operations\<close>

record 'i llist =
  ll_head :: "'i option"
  ll_tail :: "'i option"

definition ll_empty :: "'i llist" where
  "ll_empty = \<lparr>ll_head = None, ll_tail = None\<rparr>"

definition ll_is_empty :: "'i llist \<Rightarrow> bool" where
  "ll_is_empty l \<longleftrightarrow> ll_head l = None"

definition ll_insert_after ::
  "('b, 'i) backend \<Rightarrow> 'i llist \<Rightarrow> 'b \<Rightarrow> 'i \<Rightarrow> 'i \<Rightarrow> ('i llist \<times> 'b) run" where
  "ll_insert_after B l b idx after = do {
     (nxt, b) \<leftarrow> be_take_link B b after Next;
     b \<leftarrow> be_set_link B b idx Next nxt;
     b \<leftarrow> be_set_link B b after Next (Some idx);
     (case nxt of
        Some nx \<Rightarrow> do {
          (prv, b) \<leftarrow> be_take_link B b nx Prev;
          b \<leftarrow> be_set_link B b idx Prev prv;
          b \<leftarrow> be_set_link B b nx Prev (Some idx);
          Some (l, b)
        }
      | None \<Rightarrow> do {
          b \<leftarrow> be_set_link B b idx Prev (Some after);
          Some (l\<lparr>ll_tail := Some idx\<rparr>, b)
        })
   }"

definition ll_insert_front ::
  "('b, 'i) backend \<Rightarrow> 'i llist \<Rightarrow> 'b \<Rightarrow> 'i \<Rightarrow> ('i llist \<times> 'b) run" where
  "ll_insert_front B l b idx =
     (case ll_head l of
        Some nx \<Rightarrow> do {
          b \<leftarrow> be_set_link B b nx Prev (Some idx);
          b \<leftarrow> be_set_link B b idx Next (Some nx);
          Some (l\<lparr>ll_head := Some idx\<rparr>, b)
        }
      | None \<Rightarrow> do {
          b \<leftarrow> be_set_link B b idx Next None;
          Some (l\<lparr>ll_tail := Some idx, ll_head := Some idx\<rparr>, b)
        })"

definition ll_insert ::
  "('b, 'i) backend \<Rightarrow> 'i llist \<Rightarrow> 'b \<Rightarrow> 'i \<Rightarrow> 'i option \<Rightarrow> ('i llist \<times> 'b) run" where
  "ll_insert B l b idx after =
     (case after of Some after \<Rightarrow> ll_insert_after B l b idx after | None \<Rightarrow> ll_insert_front B l b idx)"

definition ll_remove :: "('b, 'i) backend \<Rightarrow> 'i llist \<Rightarrow> 'b \<Rightarrow> 'i \<Rightarrow> ('i llist \<times> 'b) run" where
  "ll_remove B l b idx = do {
     (prv, b) \<leftarrow> be_take_link B b idx Prev;
     (nxt, b) \<leftarrow> be_take_link B b idx Next;
     b \<leftarrow> (case prv of Some p \<Rightarrow> be_set_link B b p Next nxt | None \<Rightarrow> Some b);
     b \<leftarrow> (case nxt of Some n \<Rightarrow> be_set_link B b n Prev prv | None \<Rightarrow> Some b);
     let l = (case ll_head l of
                Some h \<Rightarrow> if be_index_eq B h idx then l\<lparr>ll_head := nxt\<rparr> else l
              | None \<Rightarrow> l);
     let l = (case ll_tail l of
                Some t \<Rightarrow> if be_index_eq B t idx then l\<lparr>ll_tail := prv\<rparr> else l
              | None \<Rightarrow> l);
     Some (l, b)
   }"

definition ll_pop_front :: "('b, 'i) backend \<Rightarrow> 'i llist \<Rightarrow> 'b \<Rightarrow> ('i option \<times> 'i llist \<times> 'b) run" where
  "ll_pop_front B l b =
     (case ll_head l of
        None \<Rightarrow> Some (None, l, b)
      | Some idx \<Rightarrow> do {
          (nxt, b) \<leftarrow> be_take_link B b idx Next;
          (l, b) \<leftarrow>
            (case nxt of
               Some n \<Rightarrow> do { b \<leftarrow> be_set_link B b n Prev None; Some (l, b) }
             | None \<Rightarrow> Some (l\<lparr>ll_tail := None\<rparr>, b));
          b \<leftarrow> be_set_link B b idx Prev None;
          Some (Some idx, l\<lparr>ll_head := nxt\<rparr>, b)
        })"

definition ll_push_back :: "('b, 'i) backend \<Rightarrow> 'i llist \<Rightarrow> 'b \<Rightarrow> 'i \<Rightarrow> ('i llist \<times> 'b) run" where
  "ll_push_back B l b idx =
     (case ll_tail l of
        Some after \<Rightarrow> do {
          b \<leftarrow> be_set_link B b after Next (Some idx);
          b \<leftarrow> be_set_link B b idx Prev (Some after);
          b \<leftarrow> be_set_link B b idx Next None;
          Some (l\<lparr>ll_tail := Some idx\<rparr>, b)
        }
      | None \<Rightarrow> ll_insert B l b idx None)"

definition ll_concat ::
  "('b, 'i) backend \<Rightarrow> 'i llist \<Rightarrow> 'b \<Rightarrow> 'i llist \<Rightarrow> ('i llist \<times> 'b \<times> 'i llist) run" where
  "ll_concat B l b other =
     (case ll_head other of
        None \<Rightarrow> Some (l, b, other)
      | Some h \<Rightarrow> do {
          let other = other\<lparr>ll_head := None\<rparr>;
          (nxt, b) \<leftarrow> be_take_link B b h Next;
          (l, b) \<leftarrow> ll_push_back B l b h;
          b \<leftarrow> be_set_link B b h Next nxt;
          Some (l\<lparr>ll_tail := ll_tail other\<rparr>, b, other\<lparr>ll_tail := None\<rparr>)
        })"

text \<open>The iterator: one call of \<open>next\<close>, and the whole iteration.\<close>

definition ll_iter_next :: "('b, 'i) backend \<Rightarrow> 'b \<Rightarrow> 'i option \<Rightarrow> ('i option \<times> 'i option) run" where
  "ll_iter_next B b nxt =
     (case nxt of
        None \<Rightarrow> Some (None, None)
      | Some i \<Rightarrow> do { nxt \<leftarrow> be_clone_link B b i Next; Some (Some i, nxt) })"

partial_function (option) ll_iter_from :: "('b, 'i) backend \<Rightarrow> 'b \<Rightarrow> 'i option \<Rightarrow> 'i list option" where
  "ll_iter_from B b nxt = do {
     (item, nxt) \<leftarrow> ll_iter_next B b nxt;
     (case item of
        None \<Rightarrow> Some []
      | Some i \<Rightarrow> do { rest \<leftarrow> ll_iter_from B b nxt; Some (i # rest) })
   }"

definition ll_iter :: "('b, 'i) backend \<Rightarrow> 'i llist \<Rightarrow> 'b \<Rightarrow> 'i list run" where
  "ll_iter B l b = ll_iter_from B b (ll_head l)"

section \<open>The backend of individually allocated nodes\<close>

text \<open>The store gives every allocated node its data; a handle (\<open>RcNode\<close>) keeps its node alive.\<close>

record 'v node_data =
  nd_prev :: "nat option"
  nd_next :: "nat option"
  nd_value :: 'v

type_synonym 'v rc_store = "nat \<Rightarrow> 'v node_data"

fun rc_link :: "relation \<Rightarrow> 'v node_data \<Rightarrow> nat option" where
  "rc_link Prev n = nd_prev n"
| "rc_link Next n = nd_next n"

fun rc_put :: "relation \<Rightarrow> nat option \<Rightarrow> 'v node_data \<Rightarrow> 'v node_data" where
  "rc_put Prev v n = n\<lparr>nd_prev := v\<rparr>"
| "rc_put Next v n = n\<lparr>nd_next := v\<rparr>"

text \<open>\<open>Cell::take\<close> and \<open>Cell::set\<close> of a link; \<open>cell_get_cloned\<close> takes, clones and stores back.\<close>

definition rc_set_link :: "'v rc_store \<Rightarrow> nat \<Rightarrow> relation \<Rightarrow> nat option \<Rightarrow> 'v rc_store run" where
  "rc_set_link st i r v = Some (st(i := rc_put r v (st i)))"

definition rc_take_link :: "'v rc_store \<Rightarrow> nat \<Rightarrow> relation \<Rightarrow> (nat option \<times> 'v rc_store) run" where
  "rc_take_link st i r = Some (rc_link r (st i), st(i := rc_put r None (st i)))"

definition cell_get_cloned :: "'v rc_store \<Rightarrow> nat \<Rightarrow> relation \<Rightarrow> (nat option \<times> 'v rc_store) run" where
  "cell_get_cloned st i r = do {
     (cur, st) \<leftarrow> rc_take_link st i r;
     st \<leftarrow> rc_set_link st i r cur;
     Some (cur, st)
   }"

definition rc_backend :: "('v rc_store, nat) backend" where
  "rc_backend = \<lparr>be_index_eq = (\<lambda>i j. i = j),
     be_clone_link = (\<lambda>st i r. do { (cur, _) \<leftarrow> cell_get_cloned st i r; Some cur }),
     be_set_link = rc_set_link, be_take_link = rc_take_link\<rparr>"

section \<open>Sequences of linked nodes\<close>

text \<open>\<open>chain lk p xs q\<close>: the nodes \<open>xs\<close> are linked in order both ways, after \<open>p\<close> and before \<open>q\<close>.\<close>

definition first_or :: "'i list \<Rightarrow> 'i option \<Rightarrow> 'i option" where
  "first_or xs q = (case xs of [] \<Rightarrow> q | x # _ \<Rightarrow> Some x)"

definition last_or :: "'i option \<Rightarrow> 'i list \<Rightarrow> 'i option" where
  "last_or p xs = (if xs = [] then p else Some (last xs))"

fun chain :: "(relation \<Rightarrow> 'i \<Rightarrow> 'i option) \<Rightarrow> 'i option \<Rightarrow> 'i list \<Rightarrow> 'i option \<Rightarrow> bool" where
  "chain lk p [] q \<longleftrightarrow> True"
| "chain lk p (x # xs) q \<longleftrightarrow> lk Prev x = p \<and> lk Next x = first_or xs q \<and> chain lk (Some x) xs q"

definition represents :: "(relation \<Rightarrow> 'i \<Rightarrow> 'i option) \<Rightarrow> 'i llist \<Rightarrow> 'i list \<Rightarrow> bool" where
  "represents lk l xs \<longleftrightarrow> ll_head l = first_or xs None \<and> ll_tail l = last_or None xs
     \<and> chain lk None xs None \<and> distinct xs"

lemma first_or_simps [simp]:
  "first_or [] q = q" "first_or (x # xs) q = Some x" "first_or (xs @ ys) q = first_or xs (first_or ys q)"
  by (simp_all add: first_or_def split: list.splits)

lemma last_or_simps [simp]:
  "last_or p [] = p" "last_or p (x # xs) = last_or (Some x) xs" "last_or p (xs @ ys) = last_or (last_or p xs) ys"
  by (auto simp: last_or_def)

lemma first_or_None_iff [simp]: "first_or xs None = None \<longleftrightarrow> xs = []"
  by (cases xs) auto

lemma last_or_None_iff [simp]: "last_or None xs = None \<longleftrightarrow> xs = []"
  by (auto simp: last_or_def)

lemma last_or_Some_snoc: "last_or None xs = Some t \<Longrightarrow> \<exists>ys. xs = ys @ [t]"
  by (metis append_butlast_last_id last_or_def option.distinct(1) option.inject)

lemma list_ends_cases:
  obtains (Nil) "xs = []" | (single) x where "xs = [x]" | (both) x ys z where "xs = x # ys @ [z]"
  by (cases xs; cases "tl xs" rule: rev_cases) auto

lemma chain_append [simp]: "chain lk p (xs @ ys) q \<longleftrightarrow> chain lk p xs (first_or ys q) \<and> chain lk (last_or p xs) ys q"
  by (induction xs arbitrary: p) auto

lemma chain_cong:
  assumes "\<And>r i. i \<in> set xs \<Longrightarrow> lk' r i = lk r i"
  shows "chain lk' p xs q \<longleftrightarrow> chain lk p xs q"
  using assms by (induction xs arbitrary: p) auto

lemma represents_cong:
  assumes "\<And>r i. i \<in> set xs \<Longrightarrow> lk' r i = lk r i"
  shows "represents lk' l xs \<longleftrightarrow> represents lk l xs"
  using chain_cong [of xs lk' lk None None] assms by (simp add: represents_def)

section \<open>Backend laws and list correctness\<close>

locale list_backend =
  fixes B :: "('b, 'i) backend"
    and link :: "'b \<Rightarrow> relation \<Rightarrow> 'i \<Rightarrow> 'i option"
    and upd :: "'b \<Rightarrow> 'i \<Rightarrow> relation \<Rightarrow> 'i option \<Rightarrow> 'b"
    and node :: "'b \<Rightarrow> 'i \<Rightarrow> bool"
    and val :: "'b \<Rightarrow> 'i \<Rightarrow> 'v"
  assumes index_eq [simp]: "be_index_eq B i j \<longleftrightarrow> i = j"
    and clone_link [simp]: "node b i \<Longrightarrow> be_clone_link B b i r = Some (link b r i)"
    and set_link [simp]: "node b i \<Longrightarrow> be_set_link B b i r v = Some (upd b i r v)"
    and take_link [simp]: "node b i \<Longrightarrow> be_take_link B b i r = Some (link b r i, upd b i r None)"
    and link_upd [simp]: "node b i \<Longrightarrow> link (upd b i r v) r' j = (if r' = r \<and> j = i then v else link b r' j)"
    and node_upd [simp]: "node b i \<Longrightarrow> node (upd b i r v) = node b"
    and val_upd [simp]: "node b i \<Longrightarrow> val (upd b i r v) = val b"
begin

text \<open>What an operation that may touch the nodes of \<open>S\<close> leaves alone.\<close>

definition frame :: "'i set \<Rightarrow> 'b \<Rightarrow> 'b \<Rightarrow> bool" where
  "frame S b b' \<longleftrightarrow> node b' = node b \<and> val b' = val b \<and> (\<forall>r i. i \<notin> S \<longrightarrow> link b' r i = link b r i)"

lemma chain_upd [simp]: "node b i \<Longrightarrow> i \<notin> set xs \<Longrightarrow> chain (link (upd b i r v)) p xs q = chain (link b) p xs q"
  by (rule chain_cong) auto

lemma represents_frame:
  "frame S b b' \<Longrightarrow> set xs \<inter> S = {} \<Longrightarrow> represents (link b') l xs \<longleftrightarrow> represents (link b) l xs"
  by (rule represents_cong) (auto simp: frame_def)

lemma insert_front_ok:
  assumes "represents (link b) l xs" and "\<forall>i \<in> set xs. node b i" and "node b idx" and "idx \<notin> set xs"
    and "link b Prev idx = None"
  shows "\<exists>l' b'. ll_insert_front B l b idx = Some (l', b') \<and> represents (link b') l' (idx # xs)
    \<and> frame (insert idx (set xs)) b b'"
  using assms by (cases xs) (auto simp: ll_insert_front_def represents_def frame_def)

lemma insert_after_ok:
  assumes "represents (link b) l (us @ a # vs)" and "\<forall>i \<in> set (us @ a # vs). node b i"
    and "node b idx" and "idx \<notin> set (us @ a # vs)"
  shows "\<exists>l' b'. ll_insert_after B l b idx a = Some (l', b') \<and> represents (link b') l' (us @ a # idx # vs)
    \<and> frame (insert idx (set (us @ a # vs))) b b'"
  using assms by (cases vs) (auto simp: ll_insert_after_def represents_def frame_def)

lemma remove_ok:
  assumes "represents (link b) l (us @ idx # vs)" and "\<forall>i \<in> set (us @ idx # vs). node b i"
  shows "\<exists>l' b'. ll_remove B l b idx = Some (l', b') \<and> represents (link b') l' (us @ vs)
    \<and> link b' Prev idx = None \<and> link b' Next idx = None \<and> frame (set (us @ idx # vs)) b b'"
  using assms
  by (cases us rule: list_ends_cases; cases vs rule: list_ends_cases)
     (auto simp: ll_remove_def represents_def frame_def)

lemma pop_front_empty:
  assumes "represents (link b) l []"
  shows "ll_pop_front B l b = Some (None, l, b)"
  using assms by (simp add: ll_pop_front_def represents_def)

lemma pop_front_ok:
  assumes "represents (link b) l (x # xs)" and "\<forall>i \<in> set (x # xs). node b i"
  shows "\<exists>l' b'. ll_pop_front B l b = Some (Some x, l', b') \<and> represents (link b') l' xs
    \<and> link b' Prev x = None \<and> link b' Next x = None \<and> frame (set (x # xs)) b b'"
  using assms by (cases xs) (auto simp: ll_pop_front_def represents_def frame_def)

lemma push_back_ok:
  assumes "represents (link b) l xs" and "\<forall>i \<in> set xs. node b i" and "node b idx" and "idx \<notin> set xs"
    and "link b Prev idx = None \<or> xs \<noteq> []"
  shows "\<exists>l' b'. ll_push_back B l b idx = Some (l', b') \<and> represents (link b') l' (xs @ [idx])
    \<and> frame (insert idx (set xs)) b b'"
  using assms
  by (cases xs rule: rev_cases)
     (auto simp: ll_push_back_def ll_insert_def ll_insert_front_def represents_def frame_def)

lemma concat_ok:
  assumes "represents (link b) l xs" and "\<forall>i \<in> set xs. node b i"
    and "represents (link b) l2 ys" and "\<forall>i \<in> set ys. node b i" and "set xs \<inter> set ys = {}"
  shows "\<exists>l' b'. ll_concat B l b l2 = Some (l', b', ll_empty) \<and> represents (link b') l' (xs @ ys)
    \<and> frame (set xs \<union> set ys) b b'"
proof (cases ys)
  case Nil
  with assms show ?thesis by (auto simp: ll_concat_def represents_def frame_def ll_empty_def)
next
  case (Cons y zs)
  show ?thesis
  proof (cases xs rule: rev_cases)
    case Nil
    with Cons assms show ?thesis
      by (auto simp: ll_concat_def ll_push_back_def ll_insert_def ll_insert_front_def represents_def
          frame_def ll_empty_def)
  next
    case (snoc ws t)
    with Cons assms show ?thesis
      by (cases zs) (auto simp: ll_concat_def ll_push_back_def represents_def frame_def ll_empty_def)
  qed
qed

lemma iter_from_ok:
  assumes "chain (link b) p xs None" and "\<forall>i \<in> set xs. node b i"
  shows "ll_iter_from B b (first_or xs None) = Some xs"
  using assms
proof (induction xs arbitrary: p)
  case Nil
  then show ?case by (subst ll_iter_from.simps) (simp add: ll_iter_next_def)
next
  case (Cons x xs)
  have "ll_iter_from B b (first_or xs None) = Some xs"
    by (rule Cons.IH [of "Some x"]) (use Cons.prems in auto)
  with Cons.prems show ?case by (subst ll_iter_from.simps) (simp add: ll_iter_next_def)
qed

lemma iter_ok:
  assumes "represents (link b) l xs" and "\<forall>i \<in> set xs. node b i"
  shows "ll_iter B l b = Some xs"
  using iter_from_ok [of b None xs] assms by (simp add: ll_iter_def represents_def)

lemma is_empty_ok: "represents (link b) l xs \<Longrightarrow> ll_is_empty l \<longleftrightarrow> xs = []"
  by (simp add: ll_is_empty_def represents_def)

end

section \<open>Sequences of operations\<close>

text \<open>
  The operations a client may call on one list, on the sequence of its nodes: the abstract
  contract. An operation is legal when it names a node of the list to remove or to insert after,
  and a node of the pool \<open>U\<close> outside the list to insert.
\<close>

datatype 'i list_op = InsertOp 'i "'i option" | RemoveOp 'i | PopFrontOp | PushBackOp 'i

definition insert_after_seq :: "'i \<Rightarrow> 'i \<Rightarrow> 'i list \<Rightarrow> 'i list" where
  "insert_after_seq i a xs = takeWhile (\<lambda>x. x \<noteq> a) xs @ a # i # tl (dropWhile (\<lambda>x. x \<noteq> a) xs)"

fun seq_step :: "'i set \<Rightarrow> 'i list_op \<Rightarrow> 'i list \<Rightarrow> ('i option \<times> 'i list) option" where
  "seq_step U (InsertOp i None) xs = (if i \<in> U \<and> i \<notin> set xs then Some (None, i # xs) else None)"
| "seq_step U (InsertOp i (Some a)) xs =
     (if i \<in> U \<and> i \<notin> set xs \<and> a \<in> set xs then Some (None, insert_after_seq i a xs) else None)"
| "seq_step U (RemoveOp i) xs = (if i \<in> set xs then Some (None, remove1 i xs) else None)"
| "seq_step U PopFrontOp xs = Some (option_hd xs, tl xs)"
| "seq_step U (PushBackOp i) xs = (if i \<in> U \<and> i \<notin> set xs then Some (None, xs @ [i]) else None)"

fun ll_step :: "('b, 'i) backend \<Rightarrow> 'i list_op \<Rightarrow> 'i llist \<Rightarrow> 'b \<Rightarrow> ('i option \<times> 'i llist \<times> 'b) run" where
  "ll_step B (InsertOp i a) l b = do { (l, b) \<leftarrow> ll_insert B l b i a; Some (None, l, b) }"
| "ll_step B (RemoveOp i) l b = do { (l, b) \<leftarrow> ll_remove B l b i; Some (None, l, b) }"
| "ll_step B PopFrontOp l b = ll_pop_front B l b"
| "ll_step B (PushBackOp i) l b = do { (l, b) \<leftarrow> ll_push_back B l b i; Some (None, l, b) }"

fun seq_run :: "'i set \<Rightarrow> 'i list_op list \<Rightarrow> 'i list \<Rightarrow> ('i option list \<times> 'i list) option" where
  "seq_run U [] xs = Some ([], xs)"
| "seq_run U (p # ps) xs = do {
     (r, xs) \<leftarrow> seq_step U p xs;
     (rs, xs) \<leftarrow> seq_run U ps xs;
     Some (r # rs, xs)
   }"

fun ll_run :: "('b, 'i) backend \<Rightarrow> 'i list_op list \<Rightarrow> 'i llist \<Rightarrow> 'b \<Rightarrow> ('i option list \<times> 'i llist \<times> 'b) run" where
  "ll_run B [] l b = Some ([], l, b)"
| "ll_run B (p # ps) l b = do {
     (r, l, b) \<leftarrow> ll_step B p l b;
     (rs, l, b) \<leftarrow> ll_run B ps l b;
     Some (r # rs, l, b)
   }"

lemma takeWhile_dropWhile_at:
  "a \<in> set xs \<Longrightarrow> xs = takeWhile (\<lambda>x. x \<noteq> a) xs @ a # tl (dropWhile (\<lambda>x. x \<noteq> a) xs)"
  by (induction xs) auto

lemma set_insert_after_seq: "a \<in> set xs \<Longrightarrow> set (insert_after_seq i a xs) = insert i (set xs)"
proof -
  assume "a \<in> set xs"
  from takeWhile_dropWhile_at [OF this]
  have "set xs = set (takeWhile (\<lambda>x. x \<noteq> a) xs @ a # tl (dropWhile (\<lambda>x. x \<noteq> a) xs))" by simp
  then show ?thesis by (simp add: insert_after_seq_def insert_commute)
qed

context list_backend
begin

text \<open>The simulation relation: \<open>l\<close> holds the nodes \<open>xs\<close> and the other nodes of the pool are detached.\<close>

definition linked :: "'i set \<Rightarrow> 'b \<Rightarrow> 'i llist \<Rightarrow> 'i list \<Rightarrow> bool" where
  "linked U b l xs \<longleftrightarrow> represents (link b) l xs \<and> set xs \<subseteq> U \<and> (\<forall>i \<in> U. node b i)
     \<and> (\<forall>i \<in> U - set xs. link b Prev i = None)"

lemma linkedI:
  assumes "linked U b l xs" and "frame (insert i (set xs)) b b'" and "i \<in> U"
    and "represents (link b') l' ys" and "set ys = insert i (set xs)"
  shows "linked U b' l' ys"
  using assms by (auto simp: linked_def frame_def)

lemma linked_removedI:
  assumes "linked U b l xs" and "frame (set xs) b b'" and "link b' Prev i = None"
    and "represents (link b') l' ys" and "set xs = insert i (set ys)"
  shows "linked U b' l' ys"
proof -
  have "link b' Prev j = None" if "j \<in> U - set ys" for j
    using assms that by (cases "j = i") (auto simp: linked_def frame_def)
  then show ?thesis using assms by (auto simp: linked_def frame_def)
qed

lemma step_refines:
  assumes "linked U b l xs" and "seq_step U p xs = Some (r, ys)"
  shows "\<exists>l' b'. ll_step B p l b = Some (r, l', b') \<and> linked U b' l' ys \<and> frame U b b'"
proof -
  from assms(1) have rep: "represents (link b) l xs" and sub: "set xs \<subseteq> U"
    and nodes: "\<forall>i \<in> U. node b i" and det: "\<And>i. i \<in> U \<Longrightarrow> i \<notin> set xs \<Longrightarrow> link b Prev i = None"
    by (auto simp: linked_def)
  have frame_mono: "frame S b b' \<Longrightarrow> S \<subseteq> U \<Longrightarrow> frame U b b'" for S b'
    by (auto simp: frame_def)
  show ?thesis
  proof (cases p)
    case (InsertOp i a)
    show ?thesis
    proof (cases a)
      case None
      with InsertOp assms(2) have i: "i \<in> U" "i \<notin> set xs" "ys = i # xs" "r = None"
        by (auto split: if_splits)
      obtain l' b' where "ll_insert_front B l b i = Some (l', b')" "represents (link b') l' (i # xs)"
          "frame (insert i (set xs)) b b'"
        using insert_front_ok [OF rep, of i] sub nodes i det [OF i(1,2)] by (auto simp: subset_iff)
      with None InsertOp i sub show ?thesis
        by (auto simp: ll_insert_def intro!: linkedI [OF assms(1)] frame_mono)
    next
      case (Some c)
      with InsertOp assms(2) have i: "i \<in> U" "i \<notin> set xs" "c \<in> set xs" "ys = insert_after_seq i c xs" "r = None"
        by (auto split: if_splits)
      obtain us vs where xs: "xs = us @ c # vs" and ys: "ys = us @ c # i # vs"
        using takeWhile_dropWhile_at [OF i(3)] i(4) by (auto simp: insert_after_seq_def)
      obtain l' b' where "ll_insert_after B l b i c = Some (l', b')" "represents (link b') l' ys"
          "frame (insert i (set xs)) b b'"
        using insert_after_ok [of b l us c vs i] rep sub nodes i(1,2) unfolding xs ys
        by (auto simp: subset_iff)
      with Some InsertOp i sub show ?thesis
        by (auto simp: ll_insert_def set_insert_after_seq intro!: linkedI [OF assms(1)] frame_mono)
    qed
  next
    case (RemoveOp i)
    with assms(2) have i: "i \<in> set xs" "ys = remove1 i xs" "r = None" by (auto split: if_splits)
    obtain us vs where xs: "xs = us @ i # vs" and ys: "ys = us @ vs"
      using i by (metis remove1_split)
    obtain l' b' where "ll_remove B l b i = Some (l', b')" "represents (link b') l' ys"
        "frame (set xs) b b'" "link b' Prev i = None"
      using remove_ok [of b l us i vs] rep sub nodes unfolding xs ys by (auto simp: subset_iff)
    with RemoveOp i(3) sub xs ys show ?thesis
      by (auto intro!: linked_removedI [OF assms(1)] frame_mono [of "set xs"])
  next
    case PopFrontOp
    show ?thesis
    proof (cases xs)
      case Nil
      with PopFrontOp assms show ?thesis
        using rep pop_front_empty [of b l] by (auto simp: frame_def)
    next
      case (Cons x zs)
      obtain l' b' where "ll_pop_front B l b = Some (Some x, l', b')" "represents (link b') l' zs"
          "frame (set xs) b b'" "link b' Prev x = None"
        using pop_front_ok [of b l x zs] rep sub nodes unfolding Cons by (auto simp: subset_iff)
      with PopFrontOp assms(2) sub Cons show ?thesis
        by (auto intro!: linked_removedI [OF assms(1)] frame_mono [of "set xs"])
    qed
  next
    case (PushBackOp i)
    with assms(2) have i: "i \<in> U" "i \<notin> set xs" "ys = xs @ [i]" "r = None" by (auto split: if_splits)
    obtain l' b' where "ll_push_back B l b i = Some (l', b')" "represents (link b') l' (xs @ [i])"
        "frame (insert i (set xs)) b b'"
      using push_back_ok [OF rep, of i] sub nodes i det [OF i(1,2)] by (auto simp: subset_iff)
    with PushBackOp i sub show ?thesis
      by (auto intro!: linkedI [OF assms(1)] frame_mono)
  qed
qed

lemma run_refines:
  assumes "linked U b l xs" and "seq_run U ps xs = Some (rs, ys)"
  shows "\<exists>l' b'. ll_run B ps l b = Some (rs, l', b') \<and> linked U b' l' ys \<and> frame U b b'"
  using assms
proof (induction ps arbitrary: b l xs rs)
  case Nil
  then show ?case by (auto simp: frame_def)
next
  case (Cons p ps)
  then obtain r zs rs' where step: "seq_step U p xs = Some (r, zs)" and rest: "seq_run U ps zs = Some (rs', ys)"
    and rs: "rs = r # rs'"
    by (auto simp: bind_eq_Some_conv split: prod.splits)
  obtain l1 b1 where "ll_step B p l b = Some (r, l1, b1)" "linked U b1 l1 zs" "frame U b b1"
    using step_refines [OF Cons.prems(1) step] by blast
  with Cons.IH [OF _ rest, of b1 l1] rs show ?case by (fastforce simp: frame_def)
qed

lemma run_from_empty:
  assumes "\<forall>i \<in> U. node b i \<and> link b Prev i = None" and "seq_run U ps [] = Some (rs, ys)"
  shows "\<exists>l' b'. ll_run B ps ll_empty b = Some (rs, l', b') \<and> ll_iter B l' b' = Some ys
    \<and> represents (link b') l' ys \<and> frame U b b'"
proof -
  have "linked U b ll_empty []"
    using assms(1) by (simp add: linked_def represents_def ll_empty_def)
  from run_refines [OF this assms(2)] show ?thesis
    using iter_ok by (auto simp: linked_def subset_iff)
qed

end

lemma represents_empty [simp]: "represents lk ll_empty xs \<longleftrightarrow> xs = []"
  by (auto simp: represents_def ll_empty_def first_or_def last_or_def split: list.splits)

subsection \<open>The node backend satisfies the laws\<close>

text \<open>Every handle refers to a live node.\<close>

definition rc_node :: "'v rc_store \<Rightarrow> nat \<Rightarrow> bool" where
  "rc_node st i \<longleftrightarrow> True"

interpretation rc: list_backend rc_backend "\<lambda>st r i. rc_link r (st i)"
  "\<lambda>st i r v. st(i := rc_put r v (st i))" rc_node "\<lambda>st i. nd_value (st i)"
proof (unfold_locales, goal_cases)
  case (2 b i r)
  then show ?case by (simp add: rc_backend_def cell_get_cloned_def rc_take_link_def rc_set_link_def)
next
  case (5 b i r v r' j)
  then show ?case by (cases r; cases r') auto
next
  case (7 b i r v)
  then show ?case by (cases r) auto
qed (simp_all add: rc_backend_def rc_set_link_def rc_take_link_def rc_node_def fun_eq_iff)

text \<open>\<open>cell_get_cloned\<close> leaves the cell as it found it.\<close>

lemma cell_get_cloned_pure: "cell_get_cloned st i r = Some (rc_link r (st i), st)"
  by (cases r) (auto simp: cell_get_cloned_def rc_take_link_def rc_set_link_def)

text \<open>
  Property C30. Any legal sequence of insertions (at the front, after a node, at the back), removals
  and pops, on an initially empty list of individually allocated nodes whose nodes are detached,
  runs without a panic, returns what the same operations on a plain sequence return, and leaves a
  list whose iteration gives exactly that sequence. Nodes outside the pool keep their links and
  no node's value changes.
\<close>

theorem rc_list_refines_sequence:
  assumes "\<forall>i \<in> U. nd_prev (st i) = None"
    and "seq_run U ps [] = Some (rs, ys)"
  shows "\<exists>l' st'. ll_run rc_backend ps ll_empty st = Some (rs, l', st') \<and> ll_iter rc_backend l' st' = Some ys
    \<and> (\<forall>i. nd_value (st' i) = nd_value (st i)) \<and> (\<forall>i. i \<notin> U \<longrightarrow> nd_prev (st' i) = nd_prev (st i) \<and> nd_next (st' i) = nd_next (st i))"
proof -
  have pool: "\<forall>i \<in> U. rc_node st i \<and> rc_link Prev (st i) = None" using assms(1) by (simp add: rc_node_def)
  obtain l' st' where r: "ll_run rc_backend ps ll_empty st = Some (rs, l', st')"
      "ll_iter rc_backend l' st' = Some ys" "rc.frame U st st'"
    using rc.run_from_empty [OF pool assms(2)] by blast
  from r(3) have "\<forall>r i. i \<notin> U \<longrightarrow> rc_link r (st' i) = rc_link r (st i)" "\<forall>i. nd_value (st' i) = nd_value (st i)"
    unfolding rc.frame_def by (blast, metis)
  then have "\<forall>i. i \<notin> U \<longrightarrow> nd_prev (st' i) = nd_prev (st i) \<and> nd_next (st' i) = nd_next (st i)"
    by (metis rc_link.simps)
  with r \<open>\<forall>i. nd_value (st' i) = nd_value (st i)\<close> show ?thesis by blast
qed

theorem rc_list_refines_sequence_witness:
  "\<exists>l' st'. ll_run rc_backend [PushBackOp 1, InsertOp 2 None, InsertOp 3 (Some 2), RemoveOp 2, PopFrontOp] ll_empty
      (\<lambda>i. \<lparr>nd_prev = None, nd_next = None, nd_value = i\<rparr>) = Some ([None, None, None, None, Some 3], l', st')
    \<and> ll_iter rc_backend l' st' = Some [1]"
  using rc_list_refines_sequence [of "{1, 2, 3}" "\<lambda>i. \<lparr>nd_prev = None, nd_next = None, nd_value = i\<rparr>"
      "[PushBackOp 1, InsertOp 2 None, InsertOp 3 (Some 2), RemoveOp 2, PopFrontOp]" "[None, None, None, None, Some 3]" "[1]"]
  by (auto simp: insert_after_seq_def)

text \<open>
  \<open>concat\<close> moves all nodes of the second list, in order, behind those of the first and
  empties the second list; it never panics.
\<close>

lemma rc_list_concat:
  assumes "represents (\<lambda>r i. rc_link r (st i)) l xs" and "represents (\<lambda>r i. rc_link r (st i)) l2 ys"
    and "set xs \<inter> set ys = {}"
  shows "\<exists>l' st'. ll_concat rc_backend l st l2 = Some (l', st', ll_empty) \<and> ll_iter rc_backend l' st' = Some (xs @ ys)"
proof -
  obtain l' st' where "ll_concat rc_backend l st l2 = Some (l', st', ll_empty)"
      "represents (\<lambda>r i. rc_link r (st' i)) l' (xs @ ys)"
    using rc.concat_ok [of st l xs l2 ys] assms by (auto simp: rc_node_def)
  with rc.iter_ok [of st' l' "xs @ ys"] show ?thesis by (simp add: rc_node_def)
qed

end
