(* ===== verification/SlabList.thy ===== *)
theory SlabList
  imports LinkedList
begin

text \<open>
  The list backend over a \<open>Slab\<close> (the \<open>slab\<close> crate), \<open>impl Backend for Slab<SlabNode<T>>\<close> of
  \<open>src/core/list.rs\<close>. The crate is not part of the repository: a slab is a parameter, the record
  \<open>slab_ops\<close> of the operations the sources call, and the locale \<open>slab_spec\<close> lists what its
  documentation promises (an entry keeps its value until it is removed, \<open>insert\<close> chooses a vacant
  key, \<open>len\<close> counts the entries, the capacity does not change while entries fit). \<open>vec_slab\<close> is a
  slab that satisfies the laws, used where a concrete one is needed.
\<close>

section \<open>Slabs\<close>

record ('s, 'v) slab_ops =
  sl_with_capacity :: "nat \<Rightarrow> 's"
  sl_get :: "'s \<Rightarrow> nat \<Rightarrow> 'v option"
  sl_put :: "'s \<Rightarrow> nat \<Rightarrow> 'v \<Rightarrow> 's"
  sl_insert :: "'s \<Rightarrow> 'v \<Rightarrow> nat \<times> 's"
  sl_remove :: "'s \<Rightarrow> nat \<Rightarrow> 's"
  sl_clear :: "'s \<Rightarrow> 's"
  sl_len :: "'s \<Rightarrow> nat"
  sl_capacity :: "'s \<Rightarrow> nat"

text \<open>\<open>slab[key]\<close>, \<open>slab[key] = v\<close> and \<open>slab.remove(key)\<close> panic on a vacant key.\<close>

definition slab_index :: "('s, 'v) slab_ops \<Rightarrow> 's \<Rightarrow> nat \<Rightarrow> 'v run" where
  "slab_index S s k = sl_get S s k"

definition slab_assign :: "('s, 'v) slab_ops \<Rightarrow> 's \<Rightarrow> nat \<Rightarrow> 'v \<Rightarrow> 's run" where
  "slab_assign S s k v = (case sl_get S s k of None \<Rightarrow> panic | Some _ \<Rightarrow> Some (sl_put S s k v))"

definition slab_take :: "('s, 'v) slab_ops \<Rightarrow> 's \<Rightarrow> nat \<Rightarrow> ('v \<times> 's) run" where
  "slab_take S s k = (case sl_get S s k of None \<Rightarrow> panic | Some v \<Rightarrow> Some (v, sl_remove S s k))"

locale slab_spec =
  fixes S :: "('s, 'v) slab_ops"
  assumes get_with_capacity [simp]: "sl_get S (sl_with_capacity S n) k = None"
    and capacity_with_capacity: "n \<le> sl_capacity S (sl_with_capacity S n)"
    and get_put [simp]: "sl_get S s k = Some v0 \<Longrightarrow> sl_get S (sl_put S s k v) = (sl_get S s)(k \<mapsto> v)"
    and capacity_put [simp]: "sl_get S s k = Some v0 \<Longrightarrow> sl_capacity S (sl_put S s k v) = sl_capacity S s"
    and insert_vacant: "sl_insert S s v = (k, s') \<Longrightarrow> sl_get S s k = None"
    and get_insert: "sl_insert S s v = (k, s') \<Longrightarrow> sl_get S s' = (sl_get S s)(k \<mapsto> v)"
    and capacity_insert: "sl_insert S s v = (k, s') \<Longrightarrow> sl_len S s < sl_capacity S s \<Longrightarrow>
          sl_capacity S s' = sl_capacity S s"
    and get_remove [simp]: "sl_get S s k = Some v0 \<Longrightarrow> sl_get S (sl_remove S s k) = (sl_get S s)(k := None)"
    and capacity_remove [simp]: "sl_get S s k = Some v0 \<Longrightarrow> sl_capacity S (sl_remove S s k) = sl_capacity S s"
    and get_clear [simp]: "sl_get S (sl_clear S s) k = None"
    and capacity_clear [simp]: "sl_capacity S (sl_clear S s) = sl_capacity S s"
    and finite_entries: "finite (dom (sl_get S s))"
    and len_card: "sl_len S s = card (dom (sl_get S s))"
begin

lemma len_zero_iff: "sl_len S s = 0 \<longleftrightarrow> (\<forall>k. sl_get S s k = None)"
  using finite_entries [of s] by (auto simp: len_card)

end

section \<open>The slab backend\<close>

record 'v slab_node =
  sn_prev :: "nat option"
  sn_next :: "nat option"
  sn_value :: 'v

definition slab_node_new :: "'v \<Rightarrow> 'v slab_node" where
  "slab_node_new v = \<lparr>sn_prev = None, sn_next = None, sn_value = v\<rparr>"

fun sn_link :: "relation \<Rightarrow> 'v slab_node \<Rightarrow> nat option" where
  "sn_link Prev n = sn_prev n"
| "sn_link Next n = sn_next n"

fun sn_set :: "relation \<Rightarrow> nat option \<Rightarrow> 'v slab_node \<Rightarrow> 'v slab_node" where
  "sn_set Prev v n = n\<lparr>sn_prev := v\<rparr>"
| "sn_set Next v n = n\<lparr>sn_next := v\<rparr>"

definition slab_clone_link :: "('s, 'v slab_node) slab_ops \<Rightarrow> 's \<Rightarrow> nat \<Rightarrow> relation \<Rightarrow> nat option run" where
  "slab_clone_link S s i r = do { n \<leftarrow> slab_index S s i; Some (sn_link r n) }"

definition slab_set_link :: "('s, 'v slab_node) slab_ops \<Rightarrow> 's \<Rightarrow> nat \<Rightarrow> relation \<Rightarrow> nat option \<Rightarrow> 's run" where
  "slab_set_link S s i r v = do { n \<leftarrow> slab_index S s i; slab_assign S s i (sn_set r v n) }"

definition slab_take_link :: "('s, 'v slab_node) slab_ops \<Rightarrow> 's \<Rightarrow> nat \<Rightarrow> relation \<Rightarrow> (nat option \<times> 's) run" where
  "slab_take_link S s i r = do {
     n \<leftarrow> slab_index S s i;
     s \<leftarrow> slab_assign S s i (sn_set r None n);
     Some (sn_link r n, s)
   }"

definition slab_backend :: "('s, 'v slab_node) slab_ops \<Rightarrow> ('s, nat) backend" where
  "slab_backend S = \<lparr>be_index_eq = (\<lambda>i j. i = j), be_clone_link = slab_clone_link S,
     be_set_link = slab_set_link S, be_take_link = slab_take_link S\<rparr>"

text \<open>How the laws read a slab of nodes.\<close>

definition slab_link :: "('s, 'v slab_node) slab_ops \<Rightarrow> 's \<Rightarrow> relation \<Rightarrow> nat \<Rightarrow> nat option" where
  "slab_link S s r i = (case sl_get S s i of None \<Rightarrow> None | Some n \<Rightarrow> sn_link r n)"

definition slab_upd :: "('s, 'v slab_node) slab_ops \<Rightarrow> 's \<Rightarrow> nat \<Rightarrow> relation \<Rightarrow> nat option \<Rightarrow> 's" where
  "slab_upd S s i r v = (case sl_get S s i of None \<Rightarrow> s | Some n \<Rightarrow> sl_put S s i (sn_set r v n))"

definition slab_has :: "('s, 'v) slab_ops \<Rightarrow> 's \<Rightarrow> nat \<Rightarrow> bool" where
  "slab_has S s i \<longleftrightarrow> sl_get S s i \<noteq> None"

text \<open>Everything about a slab of nodes that list operations do not touch: its values and capacity.\<close>

definition slab_value :: "('s, 'v slab_node) slab_ops \<Rightarrow> 's \<Rightarrow> nat \<Rightarrow> 'v option \<times> nat" where
  "slab_value S s i = (map_option sn_value (sl_get S s i), sl_capacity S s)"

locale slab_nodes = slab_spec S for S :: "('s, 'v slab_node) slab_ops"

sublocale slab_nodes \<subseteq> nodes: list_backend "slab_backend S" "slab_link S" "slab_upd S" "slab_has S" "slab_value S"
proof (unfold_locales, goal_cases)
  case (5 b i r v r' j)
  then show ?case
    by (cases r; cases r') (auto simp: slab_link_def slab_upd_def slab_has_def)
next
  case (6 b i r v)
  then show ?case by (auto simp: slab_upd_def slab_has_def fun_eq_iff split: if_splits)
next
  case (7 b i r v)
  then show ?case
    by (cases r) (auto simp: slab_upd_def slab_has_def slab_value_def fun_eq_iff)
qed (auto simp: slab_backend_def slab_clone_link_def slab_set_link_def slab_take_link_def slab_index_def
      slab_assign_def slab_link_def slab_upd_def slab_has_def)

context slab_nodes
begin

lemma run_from_empty_values:
  assumes "\<forall>i \<in> U. \<exists>n. sl_get S s i = Some n \<and> sn_prev n = None" and "seq_run U ps [] = Some (rs, ys)"
  shows "\<exists>l' s'. ll_run (slab_backend S) ps ll_empty s = Some (rs, l', s') \<and> ll_iter (slab_backend S) l' s' = Some ys
    \<and> (\<forall>i. map_option sn_value (sl_get S s' i) = map_option sn_value (sl_get S s i))
    \<and> sl_capacity S s' = sl_capacity S s"
proof -
  have "\<forall>i \<in> U. slab_has S s i \<and> slab_link S s Prev i = None"
    using assms(1) by (auto simp: slab_has_def slab_link_def)
  from nodes.run_from_empty [OF this assms(2)] show ?thesis
    by (auto simp: nodes.frame_def slab_value_def fun_eq_iff)
qed

end

section \<open>A concrete slab\<close>

text \<open>A vector of optional entries; a value goes into the first vacant entry.\<close>

record 'v vec_slab =
  vs_entries :: "'v option list"
  vs_capacity :: nat

fun first_vacant :: "'v option list \<Rightarrow> nat" where
  "first_vacant [] = 0"
| "first_vacant (None # es) = 0"
| "first_vacant (Some v # es) = Suc (first_vacant es)"

definition vec_get :: "'v vec_slab \<Rightarrow> nat \<Rightarrow> 'v option" where
  "vec_get s k = (if k < length (vs_entries s) then vs_entries s ! k else None)"

definition vec_insert :: "'v vec_slab \<Rightarrow> 'v \<Rightarrow> nat \<times> 'v vec_slab" where
  "vec_insert s v =
     (let k = first_vacant (vs_entries s);
          es = (if k < length (vs_entries s) then (vs_entries s)[k := Some v] else vs_entries s @ [Some v])
      in (k, s\<lparr>vs_entries := es\<rparr>))"

definition vec_slab_ops :: "('v vec_slab, 'v) slab_ops" where
  "vec_slab_ops = \<lparr>
     sl_with_capacity = (\<lambda>n. \<lparr>vs_entries = [], vs_capacity = n\<rparr>),
     sl_get = vec_get,
     sl_put = (\<lambda>s k v. s\<lparr>vs_entries := (vs_entries s)[k := Some v]\<rparr>),
     sl_insert = vec_insert,
     sl_remove = (\<lambda>s k. s\<lparr>vs_entries := (vs_entries s)[k := None]\<rparr>),
     sl_clear = (\<lambda>s. \<lparr>vs_entries = [], vs_capacity = max (vs_capacity s) (length (vs_entries s))\<rparr>),
     sl_len = (\<lambda>s. length (filter (\<lambda>e. e \<noteq> None) (vs_entries s))),
     sl_capacity = (\<lambda>s. max (vs_capacity s) (length (vs_entries s)))\<rparr>"

lemma first_vacant_le: "first_vacant es \<le> length es"
  by (induction es rule: first_vacant.induct) auto

lemma first_vacant_vacant: "first_vacant es < length es \<Longrightarrow> es ! first_vacant es = None"
  by (induction es rule: first_vacant.induct) auto

lemma first_vacant_full: "first_vacant es = length es \<Longrightarrow> filter (\<lambda>e. e \<noteq> None) es = es"
  by (induction es rule: first_vacant.induct) auto

lemma dom_vec_get: "dom (vec_get s) = {k. k < length (vs_entries s) \<and> vs_entries s ! k \<noteq> None}"
  by (auto simp: vec_get_def dom_def split: if_splits)

interpretation vec: slab_spec vec_slab_ops
proof (unfold_locales, goal_cases)
  case (5 s v k s')
  then show ?case
    using first_vacant_vacant by (auto simp: vec_slab_ops_def vec_insert_def vec_get_def Let_def)
next
  case (6 s v k s')
  then show ?case
    using first_vacant_le [of "vs_entries s"]
    by (auto simp: vec_slab_ops_def vec_insert_def vec_get_def Let_def fun_eq_iff nth_append nth_list_update
        split: if_splits)
next
  case (7 s v k s')
  show ?case
  proof (cases "first_vacant (vs_entries s) < length (vs_entries s)")
    case True
    with 7 show ?thesis
      using length_filter_le [of "\<lambda>e. e \<noteq> None" "vs_entries s"]
      by (auto simp: vec_slab_ops_def vec_insert_def Let_def max_def)
  next
    case False
    then have "first_vacant (vs_entries s) = length (vs_entries s)"
      using first_vacant_le [of "vs_entries s"] by simp
    with 7 first_vacant_full [OF this] show ?thesis
      by (auto simp: vec_slab_ops_def vec_insert_def Let_def)
  qed
next
  case (12 s)
  show ?case by (simp add: vec_slab_ops_def dom_vec_get)
next
  case (13 s)
  show ?case by (simp add: vec_slab_ops_def dom_vec_get length_filter_conv_card)
next
  case (3 s k v0 v)
  then show ?case
    by (auto simp: vec_slab_ops_def vec_get_def nth_list_update fun_eq_iff)
next
  case (8 s k v0)
  show ?case by (rule ext) (simp add: vec_slab_ops_def vec_get_def nth_list_update)
qed (simp_all add: vec_slab_ops_def vec_get_def)

interpretation vec_nodes: slab_nodes vec_slab_ops
  by unfold_locales

lemma slab_nodesI: "slab_spec S \<Longrightarrow> slab_nodes S"
  by (simp add: slab_nodes_def)

text \<open>
  The same refinement for the backend over a slab: with every node of the pool an
  entry of the slab, any legal sequence of list operations runs without a panic on a vacant key,
  behaves as on a plain sequence, and changes no stored value and not the capacity.
\<close>

lemma slab_list_refines_sequence:
  assumes "slab_spec S" and "\<forall>i \<in> U. \<exists>n. sl_get S s i = Some n \<and> sn_prev n = None"
    and "seq_run U ps [] = Some (rs, ys)"
  shows "\<exists>l' s'. ll_run (slab_backend S) ps ll_empty s = Some (rs, l', s') \<and> ll_iter (slab_backend S) l' s' = Some ys
    \<and> (\<forall>i. map_option sn_value (sl_get S s' i) = map_option sn_value (sl_get S s i))
    \<and> sl_capacity S s' = sl_capacity S s"
  using slab_nodes.run_from_empty_values [OF slab_nodesI [OF assms(1)] assms(2) assms(3)] .

end
