(* ===== verification/LocalChannel.thy ===== *)
theory LocalChannel
  imports SlabList
begin

text \<open>
  The bounded channel between tasks of one thread, \<open>LocalChannel\<close>, \<open>LocalSender\<close> and \<open>LocalReceiver\<close> of
  \<open>src/core/channel.rs\<close>: a queue, a slab with one node per sender, and the list of the senders that wait
  for room, linked through the nodes of the slab. The readiness events that wake a task follow the flags
  modelled here (a notified sender, a new item); the poller that delivers them is not part of the model.
\<close>

section \<open>The channel\<close>

record sender_data =
  sd_notified :: bool

record ('s, 'a) local_channel =
  lc_queue :: "'a list"
  lc_cap :: nat
  lc_nodes :: 's
  lc_waiting :: "nat llist"
  lc_receiver :: bool

type_synonym 's sender_slab = "('s, sender_data slab_node) slab_ops"

definition add_sender :: "'s sender_slab \<Rightarrow> ('s, 'a) local_channel \<Rightarrow> (unit + nat) \<times> ('s, 'a) local_channel" where
  "add_sender S c =
     (if sl_len S (lc_nodes c) = sl_capacity S (lc_nodes c) then (Inl (), c)
      else let (key, nodes) = sl_insert S (lc_nodes c) (slab_node_new \<lparr>sd_notified = False\<rparr>)
           in (Inr key, c\<lparr>lc_nodes := nodes\<rparr>))"

definition remove_sender :: "'s sender_slab \<Rightarrow> ('s, 'a) local_channel \<Rightarrow> nat \<Rightarrow> ('s, 'a) local_channel run" where
  "remove_sender S c key = do {
     (waiting, nodes) \<leftarrow> ll_remove (slab_backend S) (lc_waiting c) (lc_nodes c) key;
     (_, nodes) \<leftarrow> slab_take S nodes key;
     Some (c\<lparr>lc_waiting := waiting, lc_nodes := nodes\<rparr>)
   }"

definition set_sender_waiting :: "'s sender_slab \<Rightarrow> ('s, 'a) local_channel \<Rightarrow> nat \<Rightarrow> ('s, 'a) local_channel run" where
  "set_sender_waiting S c key = do {
     n \<leftarrow> slab_index S (lc_nodes c) key;
     if sn_prev n = None \<and> ll_head (lc_waiting c) \<noteq> Some key then do {
       (waiting, nodes) \<leftarrow> ll_push_back (slab_backend S) (lc_waiting c) (lc_nodes c) key;
       Some (c\<lparr>lc_waiting := waiting, lc_nodes := nodes\<rparr>)
     } else Some c
   }"

definition notify_one_sender :: "'s sender_slab \<Rightarrow> ('s, 'a) local_channel \<Rightarrow> ('s, 'a) local_channel run" where
  "notify_one_sender S c = do {
     (k, waiting, nodes) \<leftarrow> ll_pop_front (slab_backend S) (lc_waiting c) (lc_nodes c);
     let c = c\<lparr>lc_waiting := waiting, lc_nodes := nodes\<rparr>;
     case k of
       None \<Rightarrow> Some c
     | Some key \<Rightarrow> do {
         n \<leftarrow> slab_index S nodes key;
         nodes \<leftarrow> slab_assign S nodes key (n\<lparr>sn_value := \<lparr>sd_notified = True\<rparr>\<rparr>);
         Some (c\<lparr>lc_nodes := nodes\<rparr>)
       }
   }"

definition sender_is_notified :: "'s sender_slab \<Rightarrow> ('s, 'a) local_channel \<Rightarrow> nat \<Rightarrow> bool run" where
  "sender_is_notified S c key = do { n \<leftarrow> slab_index S (lc_nodes c) key; Some (sd_notified (sn_value n)) }"

definition clear_sender_notified :: "'s sender_slab \<Rightarrow> ('s, 'a) local_channel \<Rightarrow> nat \<Rightarrow> ('s, 'a) local_channel run" where
  "clear_sender_notified S c key = do {
     n \<leftarrow> slab_index S (lc_nodes c) key;
     nodes \<leftarrow> slab_assign S (lc_nodes c) key (n\<lparr>sn_value := \<lparr>sd_notified = False\<rparr>\<rparr>);
     Some (c\<lparr>lc_nodes := nodes\<rparr>)
   }"

section \<open>Senders\<close>

datatype send_error = SendFull | SendDisconnected

definition check_send :: "'s sender_slab \<Rightarrow> ('s, 'a) local_channel \<Rightarrow> nat \<Rightarrow> (bool \<times> ('s, 'a) local_channel) run" where
  "check_send S c key =
     (let can_send = length (lc_queue c) < lc_cap c in
      if can_send then Some (True, c) else do { c \<leftarrow> set_sender_waiting S c key; Some (False, c) })"

definition try_send :: "'s sender_slab \<Rightarrow> ('s, 'a) local_channel \<Rightarrow> nat \<Rightarrow> 'a \<Rightarrow> ((send_error + unit) \<times> ('s, 'a) local_channel) run" where
  "try_send S c key t = do {
     c \<leftarrow> clear_sender_notified S c key;
     if \<not> lc_receiver c then Some (Inl SendDisconnected, c)
     else if length (lc_queue c) < lc_cap c then Some (Inr (), c\<lparr>lc_queue := lc_queue c @ [t]\<rparr>)
     else do { c \<leftarrow> set_sender_waiting S c key; Some (Inl SendFull, c) }
   }"

definition cancel :: "'s sender_slab \<Rightarrow> ('s, 'a) local_channel \<Rightarrow> nat \<Rightarrow> ('s, 'a) local_channel run" where
  "cancel S c key = do {
     notified \<leftarrow> sender_is_notified S c key;
     if notified then do { c \<leftarrow> clear_sender_notified S c key; notify_one_sender S c } else Some c
   }"

definition try_clone :: "'s sender_slab \<Rightarrow> ('s, 'a) local_channel \<Rightarrow> (unit + nat) \<times> ('s, 'a) local_channel" where
  "try_clone S c = add_sender S c"

definition make_receiver :: "('s, 'a) local_channel \<Rightarrow> (unit + unit) \<times> ('s, 'a) local_channel" where
  "make_receiver c = (if lc_receiver c then (Inl (), c) else (Inr (), c\<lparr>lc_receiver := True\<rparr>))"

definition drop_sender :: "'s sender_slab \<Rightarrow> ('s, 'a) local_channel \<Rightarrow> nat \<Rightarrow> ('s, 'a) local_channel run" where
  "drop_sender S c key = do { c \<leftarrow> cancel S c key; remove_sender S c key }"

section \<open>The receiver\<close>

datatype recv_error = RecvEmpty | RecvDisconnected

definition try_recv :: "'s sender_slab \<Rightarrow> ('s, 'a) local_channel \<Rightarrow> ((recv_error + 'a) \<times> ('s, 'a) local_channel) run" where
  "try_recv S c =
     (case lc_queue c of
        [] \<Rightarrow> Some (Inl (if sl_len S (lc_nodes c) = 0 then RecvDisconnected else RecvEmpty), c)
      | v # rest \<Rightarrow> do { c \<leftarrow> notify_one_sender S (c\<lparr>lc_queue := rest\<rparr>); Some (Inr v, c) })"

partial_function (option) clear_channel :: "'s sender_slab \<Rightarrow> ('s, 'a) local_channel \<Rightarrow> ('s, 'a) local_channel option" where
  "clear_channel S c = do {
     (r, c) \<leftarrow> try_recv S c;
     case r of Inl _ \<Rightarrow> Some c | Inr _ \<Rightarrow> clear_channel S c
   }"

definition drop_receiver :: "'s sender_slab \<Rightarrow> ('s, 'a) local_channel \<Rightarrow> ('s, 'a) local_channel run" where
  "drop_receiver S c = notify_one_sender S (c\<lparr>lc_receiver := False\<rparr>)"

text \<open>\<open>VecDeque::with_capacity(bound)\<close> is taken to have the capacity it is asked for.\<close>

definition local_channel_new :: "'s sender_slab \<Rightarrow> nat \<Rightarrow> nat \<Rightarrow> (nat \<times> ('s, 'a) local_channel) run" where
  "local_channel_new S bound max_senders = do {
     _ \<leftarrow> assert_that (bound > 0);
     _ \<leftarrow> assert_that (max_senders > 0);
     case add_sender S \<lparr>lc_queue = [], lc_cap = bound, lc_nodes = sl_with_capacity S max_senders,
         lc_waiting = ll_empty, lc_receiver = True\<rparr> of
       (Inl _, _) \<Rightarrow> panic
     | (Inr key, c) \<Rightarrow> Some (key, c)
   }"

section \<open>A specification over sequences and sets\<close>

record 'a chan_spec =
  sp_queue :: "'a list"
  sp_cap :: nat
  sp_waiting :: "nat list"
  sp_notified :: "nat set"
  sp_senders :: "nat set"
  sp_receiver :: bool
  sp_fair :: bool

text \<open>\<open>sp_fair\<close> records that no notification has been spent on a send to a receiver that is gone while others waited.\<close>

definition sp_wait :: "nat \<Rightarrow> 'a chan_spec \<Rightarrow> 'a chan_spec" where
  "sp_wait k a = (if k \<in> set (sp_waiting a) then a else a\<lparr>sp_waiting := sp_waiting a @ [k]\<rparr>)"

definition sp_notify :: "'a chan_spec \<Rightarrow> 'a chan_spec" where
  "sp_notify a = (case sp_waiting a of [] \<Rightarrow> a | k # ks \<Rightarrow> a\<lparr>sp_waiting := ks, sp_notified := insert k (sp_notified a)\<rparr>)"

definition sp_clear :: "nat \<Rightarrow> 'a chan_spec \<Rightarrow> 'a chan_spec" where
  "sp_clear k a = a\<lparr>sp_notified := sp_notified a - {k}\<rparr>"

definition sp_cancel :: "nat \<Rightarrow> 'a chan_spec \<Rightarrow> 'a chan_spec" where
  "sp_cancel k a = (if k \<in> sp_notified a then sp_notify (sp_clear k a) else a)"

definition sp_remove :: "nat \<Rightarrow> 'a chan_spec \<Rightarrow> 'a chan_spec" where
  "sp_remove k a = a\<lparr>sp_waiting := filter (\<lambda>i. i \<noteq> k) (sp_waiting a), sp_notified := sp_notified a - {k}, sp_senders := sp_senders a - {k}\<rparr>"

lemma sp_fair_simps [simp]:
  "sp_fair (sp_wait k a) = sp_fair a" "sp_fair (sp_notify a) = sp_fair a" "sp_fair (sp_clear k a) = sp_fair a"
  "sp_fair (sp_cancel k a) = sp_fair a" "sp_fair (sp_remove k a) = sp_fair a"
  by (simp_all add: sp_wait_def sp_notify_def sp_clear_def sp_cancel_def sp_remove_def split: list.split)

text \<open>How a channel represents the state of the specification.\<close>

definition notified_of :: "'s sender_slab \<Rightarrow> 's \<Rightarrow> nat set" where
  "notified_of S s = {k. \<exists>n. sl_get S s k = Some n \<and> sd_notified (sn_value n)}"

definition chan_rel :: "'s sender_slab \<Rightarrow> ('s, 'a) local_channel \<Rightarrow> 'a chan_spec \<Rightarrow> bool" where
  "chan_rel S c a \<longleftrightarrow> lc_queue c = sp_queue a \<and> lc_cap c = sp_cap a \<and> lc_receiver c = sp_receiver a
     \<and> represents (slab_link S (lc_nodes c)) (lc_waiting c) (sp_waiting a)
     \<and> notified_of S (lc_nodes c) = sp_notified a \<and> dom (sl_get S (lc_nodes c)) = sp_senders a
     \<and> set (sp_waiting a) \<subseteq> sp_senders a
     \<and> (\<forall>i. i \<notin> set (sp_waiting a) \<longrightarrow> slab_link S (lc_nodes c) Prev i = None \<and> slab_link S (lc_nodes c) Next i = None)"

context list_backend
begin

lemma remove_absent:
  assumes "represents (link b) l xs" and "i \<notin> set xs" and "node b i" and "link b Prev i = None" and "link b Next i = None"
  shows "\<exists>l' b'. ll_remove B l b i = Some (l', b') \<and> represents (link b') l' xs
    \<and> link b' Prev i = None \<and> link b' Next i = None \<and> frame (insert i (set xs)) b b'"
proof -
  have "ll_head l \<noteq> Some i" using assms(1,2) by (cases xs) (auto simp: represents_def)
  moreover have "ll_tail l \<noteq> Some i" using assms(1,2) by (auto simp: represents_def last_or_def)
  ultimately show ?thesis using assms by (auto simp: ll_remove_def represents_def frame_def split: option.split)
qed

end

text \<open>The slab of a channel, through the laws of the slab and of the list backend over it.\<close>

locale sender_nodes = slab_nodes S for S :: "('s, sender_data slab_node) slab_ops"
begin

lemma frame_dom: "nodes.frame U s s' \<Longrightarrow> dom (sl_get S s') = dom (sl_get S s)"
  by (auto simp: nodes.frame_def slab_has_def fun_eq_iff)

lemma frame_notified:
  assumes "nodes.frame U s s'"
  shows "notified_of S s' = notified_of S s"
proof -
  have "map_option sn_value (sl_get S s' k) = map_option sn_value (sl_get S s k)" for k
    using assms by (auto simp: nodes.frame_def slab_value_def fun_eq_iff)
  then have "(\<exists>n. sl_get S s' k = Some n \<and> sd_notified (sn_value n)) \<longleftrightarrow> (\<exists>n. sl_get S s k = Some n \<and> sd_notified (sn_value n))" for k
    by (cases "sl_get S s' k"; cases "sl_get S s k") (metis map_option_is_None option.distinct(1), (metis option.inject option.map(2) option.map_disc_iff option.distinct(1))+)
  then show ?thesis by (simp add: notified_of_def)
qed

lemma has_waiting: "chan_rel S c a \<Longrightarrow> i \<in> set (sp_waiting a) \<Longrightarrow> slab_has S (lc_nodes c) i"
  by (auto simp: chan_rel_def slab_has_def)

lemma sender_get: "chan_rel S c a \<Longrightarrow> k \<in> sp_senders a \<Longrightarrow> \<exists>n. sl_get S (lc_nodes c) k = Some n"
  unfolding chan_rel_def by blast

lemma set_value:
  assumes "chan_rel S c a" and "k \<in> sp_senders a"
  obtains n nodes where "sl_get S (lc_nodes c) k = Some n"
    and "slab_assign S (lc_nodes c) k (n\<lparr>sn_value := \<lparr>sd_notified = b\<rparr>\<rparr>) = Some nodes"
    and "chan_rel S (c\<lparr>lc_nodes := nodes\<rparr>) (a\<lparr>sp_notified := if b then insert k (sp_notified a) else sp_notified a - {k}\<rparr>)"
proof -
  obtain n where n: "sl_get S (lc_nodes c) k = Some n" using sender_get [OF assms] by blast
  let ?nodes = "sl_put S (lc_nodes c) k (n\<lparr>sn_value := \<lparr>sd_notified = b\<rparr>\<rparr>)"
  have get: "sl_get S ?nodes = (sl_get S (lc_nodes c))(k \<mapsto> n\<lparr>sn_value := \<lparr>sd_notified = b\<rparr>\<rparr>)" using n by simp
  have "slab_link S ?nodes r i = slab_link S (lc_nodes c) r i" for r i
    using n by (cases r) (auto simp: slab_link_def get)
  then have "slab_link S ?nodes = slab_link S (lc_nodes c)" by (intro ext)
  moreover have "notified_of S ?nodes = (if b then insert k (notified_of S (lc_nodes c)) else notified_of S (lc_nodes c) - {k})"
    unfolding notified_of_def get by auto
  moreover have "dom (sl_get S ?nodes) = dom (sl_get S (lc_nodes c))" using n unfolding get by auto
  ultimately have "chan_rel S (c\<lparr>lc_nodes := ?nodes\<rparr>) (a\<lparr>sp_notified := if b then insert k (sp_notified a) else sp_notified a - {k}\<rparr>)"
    using assms(1) by (simp add: chan_rel_def)
  then show ?thesis using that [OF n, of ?nodes] n by (simp add: slab_assign_def)
qed

lemma clear_refines:
  assumes "chan_rel S c a" and "k \<in> sp_senders a"
  shows "\<exists>c'. clear_sender_notified S c k = Some c' \<and> chan_rel S c' (sp_clear k a)"
  by (rule set_value [OF assms, of False]) (simp add: clear_sender_notified_def sp_clear_def slab_index_def)

lemma notified_refines:
  assumes "chan_rel S c a" and "k \<in> sp_senders a"
  shows "sender_is_notified S c k = Some (k \<in> sp_notified a)"
proof -
  obtain n where "sl_get S (lc_nodes c) k = Some n" using sender_get [OF assms] by blast
  moreover have "sp_notified a = notified_of S (lc_nodes c)" using assms(1) by (simp add: chan_rel_def)
  ultimately show ?thesis by (simp add: notified_of_def sender_is_notified_def slab_index_def)
qed

lemma wait_refines:
  assumes rel: "chan_rel S c a" and k: "k \<in> sp_senders a"
  shows "\<exists>c'. set_sender_waiting S c k = Some c' \<and> chan_rel S c' (sp_wait k a)"
proof -
  obtain n where n: "sl_get S (lc_nodes c) k = Some n" using sender_get [OF assms] by blast
  have rep: "represents (slab_link S (lc_nodes c)) (lc_waiting c) (sp_waiting a)" using rel by (simp add: chan_rel_def)
  have prev: "sn_prev n = slab_link S (lc_nodes c) Prev k" using n by (simp add: slab_link_def)
  show ?thesis
  proof (cases "k \<in> set (sp_waiting a)")
    case True
    then obtain us vs where w: "sp_waiting a = us @ k # vs" by (meson split_list)
    have "sn_prev n \<noteq> None \<or> ll_head (lc_waiting c) = Some k"
      using rep w prev by (cases us rule: rev_cases) (auto simp: represents_def)
    then have "set_sender_waiting S c k = Some c" using n by (auto simp: set_sender_waiting_def slab_index_def)
    then show ?thesis using rel True by (simp add: sp_wait_def)
  next
    case False
    have link: "slab_link S (lc_nodes c) Prev k = None" using rel False by (simp add: chan_rel_def)
    have head: "ll_head (lc_waiting c) \<noteq> Some k" using rep False by (cases "sp_waiting a") (auto simp: represents_def)
    obtain l' s' where p: "ll_push_back (slab_backend S) (lc_waiting c) (lc_nodes c) k = Some (l', s')"
        "represents (slab_link S s') l' (sp_waiting a @ [k])" "nodes.frame (insert k (set (sp_waiting a))) (lc_nodes c) s'"
      using nodes.push_back_ok [OF rep _ _ False] has_waiting [OF rel] n link by (auto simp: slab_has_def)
    have "set_sender_waiting S c k = Some (c\<lparr>lc_waiting := l', lc_nodes := s'\<rparr>)"
      using n p(1) link prev head by (simp add: set_sender_waiting_def slab_index_def)
    moreover have "chan_rel S (c\<lparr>lc_waiting := l', lc_nodes := s'\<rparr>) (sp_wait k a)"
      using rel p(2,3) frame_dom [OF p(3)] frame_notified [OF p(3)] False k
      by (auto simp: chan_rel_def sp_wait_def nodes.frame_def)
    ultimately show ?thesis by blast
  qed
qed

lemma notify_refines:
  assumes rel: "chan_rel S c a"
  shows "\<exists>c'. notify_one_sender S c = Some c' \<and> chan_rel S c' (sp_notify a)"
proof (cases "sp_waiting a")
  case Nil
  then have "represents (slab_link S (lc_nodes c)) (lc_waiting c) []" using rel by (simp add: chan_rel_def)
  from nodes.pop_front_empty [OF this] show ?thesis using rel Nil by (simp add: notify_one_sender_def sp_notify_def)
next
  case (Cons k ks)
  have rep: "represents (slab_link S (lc_nodes c)) (lc_waiting c) (k # ks)" using rel Cons by (simp add: chan_rel_def)
  obtain l' s' where p: "ll_pop_front (slab_backend S) (lc_waiting c) (lc_nodes c) = Some (Some k, l', s')"
      "represents (slab_link S s') l' ks" "slab_link S s' Prev k = None" "slab_link S s' Next k = None"
      "nodes.frame (set (k # ks)) (lc_nodes c) s'"
    using nodes.pop_front_ok [OF rep] has_waiting [OF rel] Cons by auto
  let ?c = "c\<lparr>lc_waiting := l', lc_nodes := s'\<rparr>"
  have links: "slab_link S s' r i = None" if "i \<notin> set ks" for r i
    using that rel Cons p(3,4,5) by (cases "i = k"; cases r) (simp_all add: chan_rel_def nodes.frame_def)
  have mid: "chan_rel S ?c (a\<lparr>sp_waiting := ks\<rparr>)"
    using rel Cons p(2) frame_dom [OF p(5)] frame_notified [OF p(5)] links by (simp add: chan_rel_def)
  have "k \<in> sp_senders (a\<lparr>sp_waiting := ks\<rparr>)" using rel Cons by (simp add: chan_rel_def)
  from set_value [OF mid this, of True]
  obtain n nodes where n: "sl_get S s' k = Some n" "slab_assign S s' k (n\<lparr>sn_value := \<lparr>sd_notified = True\<rparr>\<rparr>) = Some nodes"
      "chan_rel S (?c\<lparr>lc_nodes := nodes\<rparr>) (a\<lparr>sp_waiting := ks, sp_notified := insert k (sp_notified a)\<rparr>)"
    by auto
  then show ?thesis using p(1) Cons by (simp add: notify_one_sender_def sp_notify_def slab_index_def)
qed

lemma cancel_refines:
  assumes "chan_rel S c a" and "k \<in> sp_senders a"
  shows "\<exists>c'. cancel S c k = Some c' \<and> chan_rel S c' (sp_cancel k a)"
proof -
  obtain c1 where "clear_sender_notified S c k = Some c1" "chan_rel S c1 (sp_clear k a)" using clear_refines [OF assms] by blast
  then show ?thesis using notify_refines [of c1 "sp_clear k a"] assms(1) notified_refines [OF assms]
    by (auto simp: cancel_def sp_cancel_def)
qed

lemma remove_refines:
  assumes rel: "chan_rel S c a" and k: "k \<in> sp_senders a"
  shows "\<exists>c'. remove_sender S c k = Some c' \<and> chan_rel S c' (sp_remove k a)"
proof -
  let ?ws = "filter (\<lambda>i. i \<noteq> k) (sp_waiting a)"
  have rep: "represents (slab_link S (lc_nodes c)) (lc_waiting c) (sp_waiting a)" using rel by (simp add: chan_rel_def)
  have node: "slab_has S (lc_nodes c) k" using sender_get [OF rel k] by (auto simp: slab_has_def)
  have "\<exists>l s. ll_remove (slab_backend S) (lc_waiting c) (lc_nodes c) k = Some (l, s) \<and> represents (slab_link S s) l ?ws
      \<and> slab_link S s Prev k = None \<and> slab_link S s Next k = None \<and> nodes.frame (insert k (set (sp_waiting a))) (lc_nodes c) s"
  proof (cases "k \<in> set (sp_waiting a)")
    case True
    then obtain us vs where w: "sp_waiting a = us @ k # vs" by (meson split_list)
    have "distinct (us @ k # vs)" using rep w by (simp add: represents_def)
    then have "filter (\<lambda>i. i \<noteq> k) us = us" "filter (\<lambda>i. i \<noteq> k) vs = vs" by (auto simp: filter_id_conv)
    then have "?ws = us @ vs" by (simp add: w)
    then show ?thesis using nodes.remove_ok [of "lc_nodes c" "lc_waiting c" us k vs] rep w has_waiting [OF rel] by (simp add: insert_absorb)
  next
    case False
    then have "?ws = sp_waiting a" by (auto simp: filter_id_conv)
    then show ?thesis using nodes.remove_absent [OF rep _ node] False rel by (simp add: chan_rel_def)
  qed
  then obtain l s where r: "ll_remove (slab_backend S) (lc_waiting c) (lc_nodes c) k = Some (l, s)" "represents (slab_link S s) l ?ws"
      "slab_link S s Prev k = None" "slab_link S s Next k = None" "nodes.frame (insert k (set (sp_waiting a))) (lc_nodes c) s" by blast
  obtain n where n: "sl_get S s k = Some n" using frame_dom [OF r(5)] node by (auto simp: slab_has_def)
  let ?s = "sl_remove S s k"
  have get: "sl_get S ?s = (sl_get S s)(k := None)" using n by simp
  have link: "slab_link S ?s q i = slab_link S s q i" for q i
    using r(3,4) n by (cases q) (auto simp: slab_link_def get)
  have others: "slab_link S s q i = None" if "i \<notin> set ?ws" for q i
    using that r(3,4,5) rel by (cases "i = k"; cases q) (auto simp: chan_rel_def nodes.frame_def)
  have "notified_of S ?s = sp_notified a - {k}"
    using frame_notified [OF r(5)] rel unfolding chan_rel_def notified_of_def get by auto
  moreover have "dom (sl_get S ?s) = sp_senders a - {k}" using frame_dom [OF r(5)] rel by (simp add: get chan_rel_def)
  moreover have "slab_link S ?s = slab_link S s" using link by (intro ext)
  ultimately have "chan_rel S (c\<lparr>lc_waiting := l, lc_nodes := ?s\<rparr>) (sp_remove k a)"
    using r(2) rel others by (auto simp: chan_rel_def sp_remove_def)
  moreover have "remove_sender S c k = Some (c\<lparr>lc_waiting := l, lc_nodes := ?s\<rparr>)"
    using r(1) n by (simp add: remove_sender_def slab_take_def)
  ultimately show ?thesis by blast
qed

end

interpretation vec_senders: sender_nodes vec_slab_ops
  by unfold_locales

section \<open>Calls\<close>

datatype 'a chan_op =
    CheckSendOp nat
  | TrySendOp nat 'a
  | CancelOp nat
  | CloneOp
  | DropSenderOp nat
  | MakeReceiverOp nat
  | TryRecvOp
  | ClearOp
  | DropReceiverOp

datatype 'a chan_result = ResUnit | ResReady bool | ResSend "send_error + unit" | ResRecv "recv_error + 'a" | ResKey "unit + nat"
  | ResMade "unit + unit" | ResCleared "'a list"

fun chan_step :: "'s sender_slab \<Rightarrow> 'a chan_op \<Rightarrow> ('s, 'a) local_channel \<Rightarrow> ('a chan_result \<times> ('s, 'a) local_channel) run" where
  "chan_step S (CheckSendOp k) c = do { (b, c) \<leftarrow> check_send S c k; Some (ResReady b, c) }"
| "chan_step S (TrySendOp k t) c = do { (r, c) \<leftarrow> try_send S c k t; Some (ResSend r, c) }"
| "chan_step S (CancelOp k) c = do { c \<leftarrow> cancel S c k; Some (ResUnit, c) }"
| "chan_step S CloneOp c = (let (r, c) = try_clone S c in Some (ResKey r, c))"
| "chan_step S (DropSenderOp k) c = do { c \<leftarrow> drop_sender S c k; Some (ResUnit, c) }"
| "chan_step S (MakeReceiverOp k) c = (let (r, c) = make_receiver c in Some (ResMade r, c))"
| "chan_step S ClearOp c = do { c' \<leftarrow> clear_channel S c; Some (ResCleared (lc_queue c), c') }"
| "chan_step S TryRecvOp c = do { (r, c) \<leftarrow> try_recv S c; Some (ResRecv r, c) }"
| "chan_step S DropReceiverOp c = do { c \<leftarrow> drop_receiver S c; Some (ResUnit, c) }"

text \<open>A call belongs to an existing sender, or to the receiver while it exists.\<close>

fun chan_legal :: "'s sender_slab \<Rightarrow> 'a chan_op \<Rightarrow> ('s, 'a) local_channel \<Rightarrow> bool" where
  "chan_legal S (CheckSendOp k) c \<longleftrightarrow> sl_get S (lc_nodes c) k \<noteq> None"
| "chan_legal S (TrySendOp k t) c \<longleftrightarrow> sl_get S (lc_nodes c) k \<noteq> None"
| "chan_legal S (CancelOp k) c \<longleftrightarrow> sl_get S (lc_nodes c) k \<noteq> None"
| "chan_legal S CloneOp c \<longleftrightarrow> True"
| "chan_legal S (DropSenderOp k) c \<longleftrightarrow> sl_get S (lc_nodes c) k \<noteq> None"
| "chan_legal S (MakeReceiverOp k) c \<longleftrightarrow> sl_get S (lc_nodes c) k \<noteq> None"
| "chan_legal S TryRecvOp c \<longleftrightarrow> lc_receiver c"
| "chan_legal S ClearOp c \<longleftrightarrow> lc_receiver c"
| "chan_legal S DropReceiverOp c \<longleftrightarrow> lc_receiver c"

fun accepted :: "'a chan_op \<Rightarrow> 'a chan_result \<Rightarrow> 'a list" where
  "accepted (TrySendOp k t) (ResSend (Inr _)) = [t]"
| "accepted _ _ = []"

fun delivered :: "'a chan_result \<Rightarrow> 'a list" where
  "delivered (ResRecv (Inr v)) = [v]"
| "delivered (ResCleared vs) = vs"
| "delivered _ = []"

text \<open>
  Reachable channels with the values accepted from the senders and taken out by the receiver so far; \<open>clear\<close> takes out all and
  drops them.
\<close>

inductive chan_reach :: "'s sender_slab \<Rightarrow> ('s, 'a) local_channel \<Rightarrow> 'a list \<Rightarrow> 'a list \<Rightarrow> bool" for S where
  init: "local_channel_new S bound senders = Some (key, c) \<Longrightarrow> chan_reach S c [] []"
| step: "chan_reach S c sent got \<Longrightarrow> chan_legal S op c \<Longrightarrow> chan_step S op c = Some (r, c')
    \<Longrightarrow> chan_reach S c' (sent @ accepted op r) (got @ delivered r)"

text \<open>
  Calls that waste no turn: a sender is not refused for want of a receiver while another one waits. With a single sender every call is one.
\<close>

fun chan_served :: "'s sender_slab \<Rightarrow> 'a chan_op \<Rightarrow> ('s, 'a) local_channel \<Rightarrow> bool" where
  "chan_served S (TrySendOp k t) c \<longleftrightarrow> lc_receiver c
     \<or> (case ll_iter (slab_backend S) (lc_waiting c) (lc_nodes c) of Some ws \<Rightarrow> set ws \<subseteq> {k} | None \<Rightarrow> True)"
| "chan_served S _ c \<longleftrightarrow> True"

inductive chan_fair :: "'s sender_slab \<Rightarrow> ('s, 'a) local_channel \<Rightarrow> bool" for S where
  init: "local_channel_new S bound senders = Some (key, c) \<Longrightarrow> chan_fair S c"
| step: "chan_fair S c \<Longrightarrow> chan_legal S op c \<Longrightarrow> chan_served S op c \<Longrightarrow> chan_step S op c = Some (r, c') \<Longrightarrow> chan_fair S c'"

section \<open>Correctness\<close>

text \<open>
  No lost wake-up: while no turn has been wasted and a sender waits, at least as many senders have been
  notified, and have not gone back to waiting, as there are free places in the queue.
\<close>

definition sp_inv :: "'a chan_spec \<Rightarrow> bool" where
  "sp_inv a \<longleftrightarrow> length (sp_queue a) \<le> sp_cap a \<and> finite (sp_senders a) \<and> sp_notified a \<subseteq> sp_senders a \<and> distinct (sp_waiting a)
     \<and> (sp_fair a \<and> sp_waiting a \<noteq> [] \<longrightarrow> sp_cap a - length (sp_queue a) \<le> card (sp_notified a - set (sp_waiting a)))"

definition sp_pop :: "'a chan_spec \<Rightarrow> 'a chan_spec" where
  "sp_pop a = sp_notify (a\<lparr>sp_queue := tl (sp_queue a)\<rparr>)"

lemma sp_fair_pop [simp]: "sp_fair (sp_pop a) = sp_fair a"
  by (simp add: sp_pop_def)

lemma finite_notified: "sp_inv a \<Longrightarrow> finite (sp_notified a)"
  using finite_subset by (auto simp: sp_inv_def)

lemma sp_wait_inv: "sp_inv a \<Longrightarrow> length (sp_queue a) = sp_cap a \<Longrightarrow> sp_inv (sp_wait k a)"
  by (simp add: sp_inv_def sp_wait_def)

lemma sp_clear_inv_full: "sp_inv a \<Longrightarrow> length (sp_queue a) = sp_cap a \<Longrightarrow> sp_inv (sp_clear k a)"
  by (auto simp: sp_inv_def sp_clear_def)

lemma sp_send_inv:
  assumes inv: "sp_inv a" and room: "length (sp_queue a) < sp_cap a"
  shows "sp_inv ((sp_clear k a)\<lparr>sp_queue := sp_queue a @ [t]\<rparr>)"
proof -
  let ?N = "sp_notified a - set (sp_waiting a)" and ?M = "sp_notified a - {k} - set (sp_waiting a)"
  have "?N \<subseteq> insert k ?M" by auto
  then have "card ?N \<le> card (insert k ?M)" using finite_notified [OF inv] by (intro card_mono) auto
  also have "\<dots> \<le> Suc (card ?M)" by (rule card_insert_le_m1) auto
  finally show ?thesis using assms by (auto simp: sp_inv_def sp_clear_def)
qed

lemma sp_notify_inv:
  assumes basic: "length (sp_queue a) \<le> sp_cap a" "finite (sp_senders a)" "sp_notified a \<subseteq> sp_senders a" "set (sp_waiting a) \<subseteq> sp_senders a"
      "distinct (sp_waiting a)"
    and slack: "sp_fair a \<Longrightarrow> sp_waiting a \<noteq> [] \<Longrightarrow> sp_cap a - length (sp_queue a) \<le> Suc (card (sp_notified a - set (sp_waiting a)))"
  shows "sp_inv (sp_notify a)"
proof (cases "sp_waiting a")
  case Nil
  then show ?thesis using basic by (simp add: sp_inv_def sp_notify_def)
next
  case (Cons k ks)
  have fin: "finite (sp_notified a)" using basic finite_subset by blast
  have "insert k (sp_notified a) - set ks = insert k (sp_notified a - set (sp_waiting a))" using basic(5) Cons by auto
  then have "card (insert k (sp_notified a) - set ks) = Suc (card (sp_notified a - set (sp_waiting a)))"
    using fin Cons by simp
  then show ?thesis using basic slack Cons by (auto simp: sp_inv_def sp_notify_def)
qed

definition sp_ok :: "'a chan_spec \<Rightarrow> bool" where
  "sp_ok a \<longleftrightarrow> sp_inv a \<and> set (sp_waiting a) \<subseteq> sp_senders a"

lemma sp_notify_waiting: "set (sp_waiting a) \<subseteq> sp_senders a \<Longrightarrow> set (sp_waiting (sp_notify a)) \<subseteq> sp_senders (sp_notify a)"
  by (auto simp: sp_notify_def split: list.split)

lemma sp_pop_ok:
  assumes "sp_ok a" and "sp_queue a \<noteq> []"
  shows "sp_ok (sp_pop a)"
proof -
  have "sp_inv (sp_pop a)" unfolding sp_pop_def
    by (rule sp_notify_inv) (use assms in \<open>auto simp: sp_ok_def sp_inv_def\<close>)
  moreover have "set (sp_waiting (sp_pop a)) \<subseteq> sp_senders (sp_pop a)"
    unfolding sp_pop_def by (rule sp_notify_waiting) (use assms in \<open>simp add: sp_ok_def\<close>)
  ultimately show ?thesis by (simp add: sp_ok_def)
qed

lemma card_clear: "finite N \<Longrightarrow> card (N - W) \<le> Suc (card (N - {k} - W))"
proof -
  assume "finite N"
  then have "card (N - W) \<le> card (insert k (N - {k} - W))" by (intro card_mono) auto
  also have "\<dots> \<le> Suc (card (N - {k} - W))" by (rule card_insert_le_m1) auto
  finally show ?thesis .
qed

lemma sp_cancel_ok:
  assumes "sp_ok a"
  shows "sp_ok (sp_cancel k a)"
proof (cases "k \<in> sp_notified a")
  case True
  have fin: "finite (sp_notified a)" using assms finite_notified by (auto simp: sp_ok_def)
  have "sp_inv (sp_notify (sp_clear k a))"
    by (rule sp_notify_inv)
      (use assms card_clear [OF fin, of "set (sp_waiting a)" k] in \<open>auto simp: sp_ok_def sp_inv_def sp_clear_def\<close>)
  moreover have "set (sp_waiting (sp_notify (sp_clear k a))) \<subseteq> sp_senders (sp_notify (sp_clear k a))"
    by (rule sp_notify_waiting) (use assms in \<open>simp add: sp_ok_def sp_clear_def\<close>)
  ultimately show ?thesis using True by (simp add: sp_ok_def sp_cancel_def)
qed (use assms in \<open>simp add: sp_cancel_def\<close>)

text \<open>
  Dropping a sender: its notification goes to the next one. When it is itself first in the list it is
  notified again and then removed, which is harmless since it was not counted while it waited.
\<close>

lemma sp_drop_ok:
  assumes ok: "sp_ok a"
  shows "sp_ok (sp_remove k (sp_cancel k a))"
proof -
  let ?b = "sp_remove k (sp_cancel k a)"
  have fin: "finite (sp_notified a)" using ok finite_notified by (auto simp: sp_ok_def)
  have same: "sp_queue ?b = sp_queue a" "sp_cap ?b = sp_cap a" "sp_fair ?b = sp_fair a" "sp_senders ?b = sp_senders a - {k}"
    by (simp_all add: sp_remove_def sp_cancel_def sp_notify_def sp_clear_def split: list.split)
  have sub: "set (sp_waiting ?b) \<subseteq> set (sp_waiting a)" "sp_notified ?b \<subseteq> sp_notified a \<union> set (sp_waiting a)" "k \<notin> set (sp_waiting ?b)" "k \<notin> sp_notified ?b"
    and dist: "distinct (sp_waiting ?b)"
    using ok by (auto simp: sp_ok_def sp_inv_def sp_remove_def sp_cancel_def sp_notify_def sp_clear_def split: list.splits if_splits)
  have card: "card (sp_notified a - set (sp_waiting a)) \<le> card (sp_notified ?b - set (sp_waiting ?b))" if "sp_waiting ?b \<noteq> []"
  proof (cases "k \<in> sp_notified a")
    case False
    then have "sp_notified ?b - set (sp_waiting ?b) = sp_notified a - set (sp_waiting a)"
      by (auto simp: sp_remove_def sp_cancel_def)
    then show ?thesis by simp
  next
    case True
    with that obtain j ws where w: "sp_waiting a = j # ws" by (cases "sp_waiting a") (auto simp: sp_remove_def sp_cancel_def sp_notify_def sp_clear_def)
    have jn: "j \<notin> set ws" using ok w by (auto simp: sp_ok_def sp_inv_def)
    have b: "sp_notified ?b - set (sp_waiting ?b) = insert j (sp_notified a - {k}) - {k} - set ws"
      using True w by (auto simp: sp_remove_def sp_cancel_def sp_notify_def sp_clear_def)
    show ?thesis
    proof (cases "j = k")
      case True
      then have "sp_notified ?b - set (sp_waiting ?b) = sp_notified a - set (sp_waiting a)" unfolding b w by auto
      then show ?thesis by simp
    next
      case False
      have "sp_notified ?b - set (sp_waiting ?b) = insert j (sp_notified a - {k} - set (sp_waiting a))" unfolding b w using False jn by auto
      then have "card (sp_notified ?b - set (sp_waiting ?b)) = Suc (card (sp_notified a - {k} - set (sp_waiting a)))"
        using fin w by simp
      then show ?thesis using card_clear [OF fin, of "set (sp_waiting a)" k] by simp
    qed
  qed
  have basic: "length (sp_queue a) \<le> sp_cap a" "finite (sp_senders a)" "sp_notified a \<subseteq> sp_senders a" "set (sp_waiting a) \<subseteq> sp_senders a"
    and low: "sp_fair a \<Longrightarrow> sp_waiting a \<noteq> [] \<Longrightarrow> sp_cap a - length (sp_queue a) \<le> card (sp_notified a - set (sp_waiting a))"
    using ok by (simp_all add: sp_ok_def sp_inv_def)
  have "sp_cap a - length (sp_queue a) \<le> card (sp_notified ?b - set (sp_waiting ?b))" if "sp_fair a" "sp_waiting ?b \<noteq> []"
    using low card sub(1) that by (cases "sp_waiting a") (auto intro: order_trans)
  moreover have "sp_notified ?b \<subseteq> sp_senders a - {k}" "set (sp_waiting ?b) \<subseteq> sp_senders a - {k}" using sub basic by blast+
  ultimately show ?thesis using basic dist unfolding sp_ok_def sp_inv_def same by simp
qed

context sender_nodes
begin

lemma rel_queue: "chan_rel S c a \<Longrightarrow> lc_queue c = sp_queue a \<and> lc_cap c = sp_cap a \<and> lc_receiver c = sp_receiver a"
  by (simp add: chan_rel_def)

lemma rel_sender: "chan_rel S c a \<Longrightarrow> sl_get S (lc_nodes c) k \<noteq> None \<longleftrightarrow> k \<in> sp_senders a"
  unfolding chan_rel_def by blast

lemma rel_set_queue: "chan_rel S c a \<Longrightarrow> chan_rel S (c\<lparr>lc_queue := q\<rparr>) (a\<lparr>sp_queue := q\<rparr>)"
  by (simp add: chan_rel_def)

lemma rel_fair: "chan_rel S c a \<Longrightarrow> chan_rel S c (a\<lparr>sp_fair := b\<rparr>)"
  by (simp add: chan_rel_def)

lemma add_refines:
  assumes rel: "chan_rel S c a" and ins: "sl_insert S (lc_nodes c) (slab_node_new \<lparr>sd_notified = False\<rparr>) = (k, s)"
  shows "chan_rel S (c\<lparr>lc_nodes := s\<rparr>) (a\<lparr>sp_senders := insert k (sp_senders a)\<rparr>)"
proof -
  have vac: "sl_get S (lc_nodes c) k = None" by (rule insert_vacant [OF ins])
  have get: "sl_get S s = (sl_get S (lc_nodes c))(k \<mapsto> slab_node_new \<lparr>sd_notified = False\<rparr>)" by (rule get_insert [OF ins])
  have "slab_link S s r i = slab_link S (lc_nodes c) r i" for r i
    using vac by (cases r) (auto simp: slab_link_def get slab_node_new_def)
  then have link: "slab_link S s = slab_link S (lc_nodes c)" by (intro ext)
  have "notified_of S s = notified_of S (lc_nodes c)" using vac unfolding notified_of_def get by (auto simp: slab_node_new_def)
  moreover have "dom (sl_get S s) = insert k (dom (sl_get S (lc_nodes c)))" by (simp add: get)
  ultimately show ?thesis using rel by (simp add: chan_rel_def link subset_insertI2)
qed

lemma iter_waiting: "chan_rel S c a \<Longrightarrow> ll_iter (slab_backend S) (lc_waiting c) (lc_nodes c) = Some (sp_waiting a)"
  using nodes.iter_ok [of "lc_nodes c" "lc_waiting c" "sp_waiting a"] has_waiting by (auto simp: chan_rel_def)

text \<open>The loop of \<open>clear\<close> ends and leaves an empty queue.\<close>

lemma clear_returns:
  assumes "chan_rel S c a" and "sp_ok a"
  shows "\<exists>c' a'. clear_channel S c = Some c' \<and> chan_rel S c' a' \<and> sp_ok a' \<and> sp_fair a' = sp_fair a \<and> lc_queue c' = []"
  using assms
proof (induction "length (lc_queue c)" arbitrary: c a rule: less_induct)
  case less
  show ?case
  proof (cases "lc_queue c")
    case Nil
    then show ?thesis using less.prems by (subst clear_channel.simps) (auto simp: try_recv_def)
  next
    case (Cons v rest)
    have q: "sp_queue a = v # rest" using rel_queue [OF less.prems(1)] Cons by simp
    obtain c1 where c1: "notify_one_sender S (c\<lparr>lc_queue := rest\<rparr>) = Some c1" "chan_rel S c1 (sp_pop a)"
      using notify_refines [OF rel_set_queue [OF less.prems(1), of rest]] q by (auto simp: sp_pop_def)
    have q1: "lc_queue c1 = rest" "sp_fair (sp_pop a) = sp_fair a"
      using rel_queue [OF c1(2)] q by (simp_all add: sp_pop_def sp_notify_def split: list.splits)
    then obtain c' a' where "clear_channel S c1 = Some c'" "chan_rel S c' a'" "sp_ok a'" "sp_fair a' = sp_fair a" "lc_queue c' = []"
      using less.hyps [OF _ c1(2) sp_pop_ok [OF less.prems(2)]] Cons q by auto
    then show ?thesis using Cons c1(1) by (subst clear_channel.simps) (auto simp: try_recv_def)
  qed
qed

lemma step_refines_spec:
  assumes rel: "chan_rel S c a" and ok: "sp_ok a" and legal: "chan_legal S p c"
  shows "\<exists>r c' a'. chan_step S p c = Some (r, c') \<and> chan_rel S c' a' \<and> sp_ok a' \<and> lc_queue c @ accepted p r = delivered r @ lc_queue c'
    \<and> (sp_fair a \<and> chan_served S p c \<longrightarrow> sp_fair a')"
proof (cases p)
  case (CheckSendOp k)
  show ?thesis
  proof (cases "length (lc_queue c) < lc_cap c")
    case True
    then show ?thesis using CheckSendOp rel ok by (auto simp: check_send_def)
  next
    case False
    then have full: "length (sp_queue a) = sp_cap a" using rel_queue [OF rel] ok by (auto simp: sp_ok_def sp_inv_def)
    have k: "k \<in> sp_senders a" using legal CheckSendOp rel_sender [OF rel] by simp
    obtain c' where c': "set_sender_waiting S c k = Some c'" "chan_rel S c' (sp_wait k a)" using wait_refines [OF rel k] by blast
    have "sp_ok (sp_wait k a)" using ok sp_wait_inv [OF _ full, of k] k by (auto simp: sp_ok_def sp_wait_def)
    then show ?thesis using CheckSendOp False c' rel_queue [OF rel] rel_queue [OF c'(2)] by (auto simp: check_send_def sp_wait_def)
  qed
next
  case (TrySendOp k t)
  have k: "k \<in> sp_senders a" using legal TrySendOp rel_sender [OF rel] by simp
  obtain c1 where c1: "clear_sender_notified S c k = Some c1" "chan_rel S c1 (sp_clear k a)" using clear_refines [OF rel k] by blast
  have q: "lc_queue c1 = lc_queue c" "lc_cap c1 = sp_cap a" "lc_queue c = sp_queue a" "lc_receiver c1 = sp_receiver a"
    using rel_queue [OF c1(2)] rel_queue [OF rel] by (simp_all add: sp_clear_def)
  consider (gone) "\<not> sp_receiver a" | (room) "sp_receiver a" "length (sp_queue a) < sp_cap a" | (full) "sp_receiver a" "length (sp_queue a) = sp_cap a"
    using ok by (force simp: sp_ok_def sp_inv_def)
  then show ?thesis
  proof cases
    case gone
    let ?fair = "sp_fair a \<and> set (sp_waiting a) \<subseteq> {k}"
    have "sp_ok ((sp_clear k a)\<lparr>sp_fair := ?fair\<rparr>)"
    proof -
      have "sp_notified a - {k} - set (sp_waiting a) = sp_notified a - set (sp_waiting a)" if "set (sp_waiting a) \<subseteq> {k}" "sp_waiting a \<noteq> []"
        using that by (cases "sp_waiting a") auto
      then show ?thesis using ok by (auto simp: sp_ok_def sp_inv_def sp_clear_def)
    qed
    moreover have "chan_served S p c \<longleftrightarrow> set (sp_waiting a) \<subseteq> {k}" using gone TrySendOp iter_waiting [OF rel] rel_queue [OF rel] by simp
    ultimately show ?thesis using gone TrySendOp c1(1) q rel_fair [OF c1(2), of ?fair]
      by (intro exI [of _ "ResSend (Inl SendDisconnected)"] exI [of _ c1] exI [of _ "(sp_clear k a)\<lparr>sp_fair := ?fair\<rparr>"]) (simp add: try_send_def)
  next
    case room
    have "sp_ok ((sp_clear k a)\<lparr>sp_queue := sp_queue a @ [t]\<rparr>)"
      using ok sp_send_inv [OF _ room(2), where k = k and t = t] by (simp add: sp_ok_def sp_clear_def)
    then show ?thesis using room TrySendOp c1 q rel_set_queue [OF c1(2), of "sp_queue a @ [t]"] by (auto simp: try_send_def)
  next
    case full
    obtain c2 where c2: "set_sender_waiting S c1 k = Some c2" "chan_rel S c2 (sp_wait k (sp_clear k a))"
      using wait_refines [OF c1(2)] k by (auto simp: sp_clear_def)
    have "sp_ok (sp_clear k a)" using ok sp_clear_inv_full [OF _ full(2), of k] by (simp add: sp_ok_def sp_clear_def)
    then have "sp_ok (sp_wait k (sp_clear k a))"
      using sp_wait_inv [of "sp_clear k a" k] full k by (auto simp: sp_ok_def sp_wait_def sp_clear_def)
    then show ?thesis using full TrySendOp c1 c2 q rel_queue [OF c2(2)] by (auto simp: try_send_def sp_wait_def sp_clear_def)
  qed
next
  case (CancelOp k)
  have k: "k \<in> sp_senders a" using legal CancelOp rel_sender [OF rel] by simp
  obtain c' where c': "cancel S c k = Some c'" "chan_rel S c' (sp_cancel k a)" using cancel_refines [OF rel k] by blast
  have "sp_queue (sp_cancel k a) = sp_queue a" by (simp add: sp_cancel_def sp_notify_def sp_clear_def split: list.split)
  then show ?thesis using CancelOp c' sp_cancel_ok [OF ok, of k] rel_queue [OF rel] rel_queue [OF c'(2)] by auto
next
  case CloneOp
  show ?thesis
  proof (cases "sl_len S (lc_nodes c) = sl_capacity S (lc_nodes c)")
    case True
    then show ?thesis using CloneOp rel ok by (auto simp: try_clone_def add_sender_def)
  next
    case False
    obtain k s where ins: "sl_insert S (lc_nodes c) (slab_node_new \<lparr>sd_notified = False\<rparr>) = (k, s)" by force
    have "sp_ok (a\<lparr>sp_senders := insert k (sp_senders a)\<rparr>)" using ok by (auto simp: sp_ok_def sp_inv_def)
    then show ?thesis using CloneOp False ins add_refines [OF rel ins] by (auto simp: try_clone_def add_sender_def)
  qed
next
  case (DropSenderOp k)
  have k: "k \<in> sp_senders a" using legal DropSenderOp rel_sender [OF rel] by simp
  obtain c1 where c1: "cancel S c k = Some c1" "chan_rel S c1 (sp_cancel k a)" using cancel_refines [OF rel k] by blast
  have s: "sp_queue (sp_remove k (sp_cancel k a)) = sp_queue a" "k \<in> sp_senders (sp_cancel k a)"
    using k by (simp_all add: sp_remove_def sp_cancel_def sp_notify_def sp_clear_def split: list.split)
  obtain c2 where c2: "remove_sender S c1 k = Some c2" "chan_rel S c2 (sp_remove k (sp_cancel k a))"
    using remove_refines [OF c1(2) s(2)] by blast
  show ?thesis using DropSenderOp c1 c2 sp_drop_ok [OF ok, of k] rel_queue [OF rel] rel_queue [OF c2(2)] s(1) by (auto simp: drop_sender_def)
next
  case (MakeReceiverOp k)
  have "chan_rel S (c\<lparr>lc_receiver := True\<rparr>) (a\<lparr>sp_receiver := True\<rparr>)" "sp_ok (a\<lparr>sp_receiver := True\<rparr>)"
    using rel ok by (simp_all add: chan_rel_def sp_ok_def sp_inv_def)
  then show ?thesis using MakeReceiverOp rel ok by (cases "lc_receiver c") (auto simp: make_receiver_def intro: exI [of _ a])
next
  case ClearOp
  then show ?thesis using clear_returns [OF rel ok] by auto
next
  case TryRecvOp
  show ?thesis
  proof (cases "lc_queue c")
    case Nil
    then show ?thesis using TryRecvOp rel ok by (auto simp: try_recv_def)
  next
    case (Cons v rest)
    have q: "sp_queue a = v # rest" using rel_queue [OF rel] Cons by simp
    obtain c' where c': "notify_one_sender S (c\<lparr>lc_queue := rest\<rparr>) = Some c'" "chan_rel S c' (sp_pop a)"
      using notify_refines [OF rel_set_queue [OF rel, of rest]] q by (auto simp: sp_pop_def)
    have "sp_queue (sp_pop a) = rest" using q by (simp add: sp_pop_def sp_notify_def split: list.split)
    then show ?thesis using TryRecvOp Cons c' sp_pop_ok [OF ok] q rel_queue [OF c'(2)] by (auto simp: try_recv_def)
  qed
next
  case DropReceiverOp
  have "chan_rel S (c\<lparr>lc_receiver := False\<rparr>) (a\<lparr>sp_receiver := False\<rparr>)" using rel by (simp add: chan_rel_def)
  then obtain c' where c': "drop_receiver S c = Some c'" "chan_rel S c' (sp_notify (a\<lparr>sp_receiver := False\<rparr>))"
    using notify_refines unfolding drop_receiver_def by blast
  have "sp_inv (sp_notify (a\<lparr>sp_receiver := False\<rparr>))" by (rule sp_notify_inv) (use ok in \<open>auto simp: sp_ok_def sp_inv_def\<close>)
  then have "sp_ok (sp_notify (a\<lparr>sp_receiver := False\<rparr>))"
    using ok sp_notify_waiting [of "a\<lparr>sp_receiver := False\<rparr>"] by (simp add: sp_ok_def)
  moreover have "sp_queue (sp_notify (a\<lparr>sp_receiver := False\<rparr>)) = sp_queue a" by (simp add: sp_notify_def split: list.split)
  ultimately show ?thesis using DropReceiverOp c' rel_queue [OF rel] rel_queue [OF c'(2)] by auto
qed

lemma new_refines:
  fixes c :: "('s, 'a) local_channel"
  assumes "local_channel_new S bound senders = Some (key, c)"
  shows "\<exists>a. chan_rel S c a \<and> sp_ok a \<and> sp_fair a \<and> lc_queue c = [] \<and> key \<in> sp_senders a"
proof -
  let ?c = "\<lparr>lc_queue = [], lc_cap = bound, lc_nodes = sl_with_capacity S senders, lc_waiting = ll_empty, lc_receiver = True\<rparr> :: ('s, 'a) local_channel"
  let ?a = "\<lparr>sp_queue = [], sp_cap = bound, sp_waiting = [], sp_notified = {}, sp_senders = {}, sp_receiver = True, sp_fair = True\<rparr> :: 'a chan_spec"
  have rel: "chan_rel S ?c ?a" by (auto simp: chan_rel_def notified_of_def slab_link_def)
  obtain k s where ins: "sl_insert S (lc_nodes ?c) (slab_node_new \<lparr>sd_notified = False\<rparr>) = (k, s)" by force
  have "c = ?c\<lparr>lc_nodes := s\<rparr>" "key = k"
    using assms ins by (auto simp: local_channel_new_def add_sender_def assert_that_def Let_def split: if_splits prod.splits)
  moreover have "sp_ok (?a\<lparr>sp_senders := {k}\<rparr>)" by (simp add: sp_ok_def sp_inv_def)
  ultimately show ?thesis using add_refines [OF rel ins] by (intro exI [of _ "?a\<lparr>sp_senders := {k}\<rparr>"]) simp
qed

lemma reach_refines:
  assumes "chan_reach S c sent got"
  shows "\<exists>a. chan_rel S c a \<and> sp_ok a \<and> sent = got @ lc_queue c"
  using assms
proof (induction rule: chan_reach.induct)
  case (init bound senders key c)
  then show ?case using new_refines [OF init] by auto
next
  case (step c sent got p r c')
  then obtain a where a: "chan_rel S c a" "sp_ok a" "sent = got @ lc_queue c" by blast
  show ?case using step_refines_spec [OF a(1,2) step.hyps(2)] step.hyps(3) a(3) by auto
qed

lemma reach_fifo:
  assumes "chan_reach S c sent got"
  shows "sent = got @ lc_queue c \<and> length (lc_queue c) \<le> lc_cap c
    \<and> (\<forall>p. chan_legal S p c \<longrightarrow> chan_step S p c \<noteq> None)
    \<and> (\<forall>k j t. check_send S c k = Some (True, c) \<longrightarrow> chan_legal S (TrySendOp j t) c \<longrightarrow> (\<exists>r c'. try_send S c j t = Some (r, c') \<and> r \<noteq> Inl SendFull))"
proof -
  obtain a where a: "chan_rel S c a" "sp_ok a" "sent = got @ lc_queue c" using reach_refines [OF assms] by blast
  have "chan_step S p c \<noteq> None" if "chan_legal S p c" for p using step_refines_spec [OF a(1,2) that] by auto
  moreover have "\<exists>r c'. try_send S c j t = Some (r, c') \<and> r \<noteq> Inl SendFull"
    if chk: "check_send S c k = Some (True, c)" and leg: "chan_legal S (TrySendOp j t) c" for k j t
  proof -
    have room: "length (lc_queue c) < lc_cap c" using chk by (auto simp: check_send_def Let_def split: if_splits bind_splits)
    obtain c1 where c1: "clear_sender_notified S c j = Some c1" "chan_rel S c1 (sp_clear j a)"
      using clear_refines [OF a(1)] rel_sender [OF a(1)] leg by auto
    then show ?thesis using room rel_queue [OF a(1)] rel_queue [OF c1(2)] by (simp add: try_send_def sp_clear_def)
  qed
  ultimately show ?thesis using a rel_queue [OF a(1)] by (auto simp: sp_ok_def sp_inv_def)
qed

lemma fair_refines:
  assumes "chan_fair S c"
  shows "\<exists>a. chan_rel S c a \<and> sp_ok a \<and> sp_fair a"
  using assms
proof (induction rule: chan_fair.induct)
  case (init bound senders key c)
  then show ?case using new_refines [OF init] by auto
next
  case (step c p r c')
  then obtain a where a: "chan_rel S c a" "sp_ok a" "sp_fair a" by blast
  show ?case using step_refines_spec [OF a(1,2) step.hyps(2)] step.hyps(3,4) a(3) by auto
qed

lemma fair_wakeup:
  assumes "chan_fair S c"
  shows "\<exists>ws. ll_iter (slab_backend S) (lc_waiting c) (lc_nodes c) = Some ws
    \<and> (ws = [] \<or> lc_cap c - length (lc_queue c) \<le> card (notified_of S (lc_nodes c) - set ws))"
proof -
  obtain a where a: "chan_rel S c a" "sp_ok a" "sp_fair a" using fair_refines [OF assms] by blast
  then show ?thesis using iter_waiting [OF a(1)] by (auto simp: chan_rel_def sp_ok_def sp_inv_def)
qed

end

lemma sender_nodesI: "slab_spec S \<Longrightarrow> sender_nodes S"
  by (simp add: sender_nodes_def slab_nodes_def)

section \<open>Properties\<close>

text \<open>
  Property C27. After any calls by any number of senders and the receiver, also after it has been dropped and made anew, no further legal call panics,
  the values accepted from the senders are exactly the values taken out by the receiver (by \<open>clear\<close>, which drops them,
  also), in order, followed by those in the queue, and the queue is within its capacity. After \<open>check_send\<close> has returned true, a \<open>try_send\<close> of
  any sender does not fail for lack of room.
\<close>

theorem local_channel_fifo:
  fixes c :: "('s, 'a) local_channel"
  assumes "slab_spec S" and "chan_reach S c sent got"
  shows "sent = got @ lc_queue c \<and> length (lc_queue c) \<le> lc_cap c
    \<and> (\<forall>p. chan_legal S p c \<longrightarrow> chan_step S p c \<noteq> None)
    \<and> (\<forall>k j t. check_send S c k = Some (True, c) \<longrightarrow> chan_legal S (TrySendOp j t) c \<longrightarrow> (\<exists>r c'. try_send S c j t = Some (r, c') \<and> r \<noteq> Inl SendFull))"
  using sender_nodes.reach_fifo [OF sender_nodesI [OF assms(1)] assms(2)] .

text \<open>
  Property C28. No wake-up is lost, as long as no sender is refused for want of a receiver while another one waits. After any
  such calls, also ones that drop the receiver, make a new one and clear the queue: whenever a sender is in the list of
  waiting senders, at least as many senders have been notified, and have neither acted on it nor gone
  back to waiting, as the queue has free places. A waiting sender is thus never left with room in the
  queue and nobody about to act. The condition is always met with one sender, as on the channels for which the servers
  make new receivers; without it a turn is lost, since a sender that is refused does not pass it on.
\<close>

theorem local_channel_no_lost_wakeup:
  assumes "slab_spec S" and "chan_fair S c"
  shows "\<exists>ws. ll_iter (slab_backend S) (lc_waiting c) (lc_nodes c) = Some ws
    \<and> (ws = [] \<or> lc_cap c - length (lc_queue c) \<le> card (notified_of S (lc_nodes c) - set ws))"
  using sender_nodes.fair_wakeup [OF sender_nodesI [OF assms(1)] assms(2)] .

text \<open>A channel of capacity one with two senders: the first fills it and the second waits.\<close>

lemma full_channel_reach:
  "\<exists>c. chan_reach vec_slab_ops c [7 :: nat] [] \<and> chan_fair vec_slab_ops c \<and> lc_queue c = [7] \<and> ll_head (lc_waiting c) = Some 1"
proof -
  let ?S = "vec_slab_ops :: (sender_data slab_node vec_slab, sender_data slab_node) slab_ops"
  let ?n = "slab_node_new \<lparr>sd_notified = False\<rparr>"
  let ?c = "\<lambda>q w es. \<lparr>lc_queue = q, lc_cap = 1, lc_nodes = \<lparr>vs_entries = es, vs_capacity = 2\<rparr>, lc_waiting = w, lc_receiver = True\<rparr> :: (sender_data slab_node vec_slab, nat) local_channel"
  note eval = vec_slab_ops_def vec_insert_def vec_get_def slab_node_new_def
  have "local_channel_new ?S 1 2 = Some (0, ?c [] ll_empty [Some ?n])"
    by (simp add: local_channel_new_def add_sender_def eval assert_that_def)
  then have r0: "chan_reach ?S (?c [] ll_empty [Some ?n]) [] []" "chan_fair ?S (?c [] ll_empty [Some ?n])" by (rule chan_reach.init, rule chan_fair.init)
  have "chan_step ?S CloneOp (?c [] ll_empty [Some ?n]) = Some (ResKey (Inr 1), ?c [] ll_empty [Some ?n, Some ?n])"
    by (simp add: try_clone_def add_sender_def eval)
  from chan_reach.step [OF r0(1) _ this] chan_fair.step [OF r0(2) _ _ this]
  have r1: "chan_reach ?S (?c [] ll_empty [Some ?n, Some ?n]) [] []" "chan_fair ?S (?c [] ll_empty [Some ?n, Some ?n])" by simp_all
  have "chan_step ?S (TrySendOp 0 7) (?c [] ll_empty [Some ?n, Some ?n]) = Some (ResSend (Inr ()), ?c [7] ll_empty [Some ?n, Some ?n])"
    by (simp add: try_send_def clear_sender_notified_def slab_index_def slab_assign_def eval)
  from chan_reach.step [OF r1(1) _ this] chan_fair.step [OF r1(2) _ _ this]
  have r2: "chan_reach ?S (?c [7] ll_empty [Some ?n, Some ?n]) [7] []" "chan_fair ?S (?c [7] ll_empty [Some ?n, Some ?n])" by (simp_all add: eval)
  have "chan_step ?S (CheckSendOp 1) (?c [7] ll_empty [Some ?n, Some ?n])
      = Some (ResReady False, ?c [7] \<lparr>ll_head = Some 1, ll_tail = Some 1\<rparr> [Some ?n, Some ?n])"
    by (simp add: check_send_def set_sender_waiting_def slab_index_def eval ll_push_back_def ll_insert_def ll_insert_front_def ll_empty_def
        slab_backend_def slab_set_link_def slab_assign_def)
  from chan_reach.step [OF r2(1) _ this] chan_fair.step [OF r2(2) _ _ this] show ?thesis by (auto simp: eval)
qed

theorem local_channel_fifo_witness:
  "\<exists>c :: (sender_data slab_node vec_slab, nat) local_channel. ll_head (lc_waiting c) = Some 1
    \<and> [7] = [] @ lc_queue c \<and> length (lc_queue c) \<le> lc_cap c"
  using full_channel_reach local_channel_fifo [OF vec.slab_spec_axioms] by blast

theorem local_channel_no_lost_wakeup_witness:
  "\<exists>c :: (sender_data slab_node vec_slab, nat) local_channel. ll_head (lc_waiting c) = Some 1
    \<and> (\<exists>ws. ll_iter (slab_backend vec_slab_ops) (lc_waiting c) (lc_nodes c) = Some ws
        \<and> (ws = [] \<or> lc_cap c - length (lc_queue c) \<le> card (notified_of vec_slab_ops (lc_nodes c) - set ws)))"
  using full_channel_reach local_channel_no_lost_wakeup [OF vec.slab_spec_axioms] by blast

end
