(* ===== verification/TimerBits.thy ===== *)
theory TimerBits
  imports Prelude
begin

text \<open>
  The bit arithmetic of the timer wheel, \<open>src/core/timer.rs\<close>: \<open>fls64\<close>, \<open>need_resched\<close> (which slots of
  each wheel the hand passes when time advances) and its slow definition \<open>need_resched_simple\<close>, which
  the repository's tests compare it with. Times are \<open>u64\<close> values, here natural numbers: the code only
  subtracts, shifts right and masks them, after the comparisons that keep the results in range. The
  maps of slots are 64-bit words.
\<close>

unbundle bit_operations_syntax

section \<open>Constants and bit counting\<close>

definition WHEEL_BITS :: nat where "WHEEL_BITS = 6"
definition WHEEL_NUM :: nat where "WHEEL_NUM = 4"
definition WHEEL_LEN :: nat where "WHEEL_LEN = push_bit WHEEL_BITS 1"
definition WHEEL_MAX :: nat where "WHEEL_MAX = WHEEL_LEN - 1"
definition WHEEL_MASK :: nat where "WHEEL_MASK = WHEEL_LEN - 1"
definition TIMEOUT_MAX :: nat where "TIMEOUT_MAX = push_bit (WHEEL_BITS * WHEEL_NUM) 1 - 1"

lemma wheel_consts [simp]:
  "WHEEL_BITS = 6" "WHEEL_NUM = 4" "WHEEL_LEN = 64" "WHEEL_MAX = 63" "WHEEL_MASK = 63" "TIMEOUT_MAX = 16777215"
  by (simp_all add: WHEEL_BITS_def WHEEL_NUM_def WHEEL_LEN_def WHEEL_MAX_def WHEEL_MASK_def TIMEOUT_MAX_def push_bit_eq_mult)

text \<open>\<open>u64::leading_zeros\<close> of a number and \<open>u64::trailing_zeros\<close> of a map of slots.\<close>

fun bit_length :: "nat \<Rightarrow> nat" where
  "bit_length n = (if n = 0 then 0 else Suc (bit_length (n div 2)))"

declare bit_length.simps [simp del]

definition leading_zeros :: "nat \<Rightarrow> nat" where
  "leading_zeros x = 64 - bit_length x"

definition trailing_zeros :: "u64 \<Rightarrow> nat" where
  "trailing_zeros x = length (takeWhile (\<lambda>i. \<not> bit x i) [0..<64])"

definition fls64 :: "nat \<Rightarrow> nat" where
  "fls64 x = 64 - leading_zeros x"

definition slot_bit :: "nat \<Rightarrow> u64" where
  "slot_bit slot = push_bit slot 1"

section \<open>Slots passed by the hand\<close>

definition wheel_pending :: "nat \<Rightarrow> nat \<Rightarrow> nat \<Rightarrow> nat \<Rightarrow> u64" where
  "wheel_pending curtime newtime elapsed wheel =
     (let trunc_bits = wheel * WHEEL_BITS in
      if drop_bit trunc_bits elapsed > WHEEL_MAX then NOT 0
      else
        let old_slot = drop_bit trunc_bits curtime AND WHEEL_MASK;
            new_slot = drop_bit trunc_bits newtime AND WHEEL_MASK;
            d = (if new_slot > old_slot then new_slot - old_slot else WHEEL_LEN - old_slot + new_slot)
        in if d \<ge> WHEEL_LEN then NOT 0
           else if wheel > 0 then word_rotl old_slot (push_bit d 1 - 1)
           else word_rotl (old_slot + 1) (push_bit d 1 - 1))"

definition finished_bit :: "nat \<Rightarrow> u64" where
  "finished_bit wheel = (if wheel > 0 then push_bit (WHEEL_LEN - 1) 1 else 1)"

fun need_resched_loop :: "nat \<Rightarrow> nat \<Rightarrow> nat \<Rightarrow> nat list \<Rightarrow> u64 list" where
  "need_resched_loop curtime newtime elapsed [] = []"
| "need_resched_loop curtime newtime elapsed (wheel # wheels) =
     (let pending = wheel_pending curtime newtime elapsed wheel in
      pending #
        (if pending AND finished_bit wheel = 0 then map (\<lambda>_. 0) wheels
         else need_resched_loop curtime newtime (max elapsed (push_bit (wheel * WHEEL_BITS) WHEEL_LEN)) wheels))"

definition need_resched :: "nat \<Rightarrow> nat \<Rightarrow> u64 list" where
  "need_resched curtime newtime =
     (if newtime \<le> curtime then replicate WHEEL_NUM 0
      else need_resched_loop curtime newtime (newtime - curtime) [0..<WHEEL_NUM])"

text \<open>The slow definition: one step of time after the other.\<close>

definition tick_slot :: "nat \<Rightarrow> nat \<Rightarrow> u64" where
  "tick_slot curtime wheel =
     (let trunc_bits = wheel * WHEEL_BITS;
          old_slot = drop_bit trunc_bits curtime AND WHEEL_MASK;
          new_slot = drop_bit trunc_bits (curtime + 1) AND WHEEL_MASK
      in if old_slot \<noteq> new_slot then (if wheel > 0 then slot_bit old_slot else slot_bit new_slot) else 0)"

definition need_resched_simple :: "nat \<Rightarrow> nat \<Rightarrow> u64 list" where
  "need_resched_simple curtime newtime =
     (if newtime \<le> curtime then replicate WHEEL_NUM 0
      else fold (\<lambda>curtime result. map (\<lambda>wheel. result ! wheel OR tick_slot curtime wheel) [0..<WHEEL_NUM])
             [curtime..<newtime] (replicate WHEEL_NUM 0))"

section \<open>Bits\<close>

lemma bit_slot_bit [simp]: "bit (slot_bit s) j \<longleftrightarrow> j = s \<and> j < 64"
  unfolding slot_bit_def bit_push_bit_iff bit_1_iff by auto

lemma and_63 [simp]: "(n::nat) AND 63 = n mod 64"
  using take_bit_eq_mask [of 6 n] by (simp add: take_bit_eq_mod mask_eq_exp_minus_1)

lemma bit_mask_minus_1: "d < 64 \<Longrightarrow> bit (push_bit d 1 - 1 :: u64) j \<longleftrightarrow> j < d"
  using bit_mask_iff [where ?'a = u64, of d j] by (auto simp: mask_eq_exp_minus_1 push_bit_of_1)

lemma word64_eqI: "(\<And>j. j < 64 \<Longrightarrow> bit (x::u64) j \<longleftrightarrow> bit y j) \<Longrightarrow> x = y"
  by (rule bit_eqI) simp

lemma word64_zero_iff: "(x::u64) = 0 \<longleftrightarrow> (\<forall>j < 64. \<not> bit x j)"
  by (auto intro: word64_eqI)

lemma trailing_zeros_bit:
  assumes "x \<noteq> 0"
  shows "trailing_zeros x < 64" and "bit x (trailing_zeros x)" and "\<And>i. i < trailing_zeros x \<Longrightarrow> \<not> bit x i"
proof -
  let ?P = "\<lambda>i. \<not> bit x i"
  have ex: "\<exists>i \<in> set [0..<64]. \<not> ?P i"
    using assms by (auto simp: word64_zero_iff)
  have le: "length (takeWhile ?P [0..<64]) < length [0..<64]"
    using ex by (metis length_takeWhile_le nat_less_le takeWhile_eq_all_conv takeWhile_eq_take take_all_iff)
  then show "trailing_zeros x < 64" by (simp add: trailing_zeros_def)
  from nth_length_takeWhile [OF le] le show "bit x (trailing_zeros x)"
    by (simp add: trailing_zeros_def)
  fix i assume i: "i < trailing_zeros x"
  then have "takeWhile ?P [0..<64] ! i = i"
    using le by (simp add: trailing_zeros_def takeWhile_nth)
  with i show "\<not> bit x i"
    by (metis nth_mem set_takeWhileD trailing_zeros_def)
qed

lemma bit_length_bounds: "0 < n \<Longrightarrow> 2 ^ (bit_length n - 1) \<le> n \<and> n < 2 ^ bit_length n"
proof (induction n rule: bit_length.induct)
  case (1 n)
  show ?case
  proof (cases "n div 2 = 0")
    case True
    with 1 have "n = 1" by auto
    then show ?thesis by (simp add: bit_length.simps)
  next
    case False
    with 1 have IH: "2 ^ (bit_length (n div 2) - 1) \<le> n div 2" "n div 2 < 2 ^ bit_length (n div 2)" by auto
    from False have "bit_length (n div 2) > 0" by (simp add: bit_length.simps)
    then obtain k where k: "bit_length (n div 2) = Suc k" using gr0_conv_Suc by blast
    have "bit_length n = Suc (Suc k)" using 1 k by (simp add: bit_length.simps [of n])
    moreover have "2 * 2 ^ k \<le> n" "n < 4 * 2 ^ k" using IH k by simp_all
    ultimately show ?thesis by simp
  qed
qed

lemma fls64_bounds:
  assumes "0 < t" and "t < 2 ^ 64"
  shows "2 ^ (fls64 t - 1) \<le> t" and "t < 2 ^ fls64 t" and "0 < fls64 t"
proof -
  have "2 ^ (bit_length t - 1) < (2::nat) ^ 64"
    using bit_length_bounds [OF assms(1)] assms(2) by linarith
  then have "bit_length t - 1 < 64" by (rule power_less_imp_less_exp [rotated]) simp
  then have "fls64 t = bit_length t" by (simp add: fls64_def leading_zeros_def)
  with bit_length_bounds [OF assms(1)] assms(1) show "2 ^ (fls64 t - 1) \<le> t" "t < 2 ^ fls64 t" "0 < fls64 t"
    by (auto simp: bit_length.simps [of t])
qed

section \<open>What the maps of slots mean\<close>

text \<open>Slot \<open>j\<close> is passed when the hand of a wheel moves over the positions from \<open>lo\<close> up to before \<open>hi\<close>.\<close>

definition passes :: "nat \<Rightarrow> nat \<Rightarrow> nat \<Rightarrow> bool" where
  "passes lo hi j \<longleftrightarrow> (\<exists>x. lo \<le> x \<and> x < hi \<and> x mod 64 = j)"

text \<open>The positions that wheel \<open>w\<close> processes when time advances.\<close>

definition hand_from :: "nat \<Rightarrow> nat \<Rightarrow> nat" where
  "hand_from w t = (if w = 0 then t + 1 else t div 64 ^ w)"

lemma drop_bit_wheel: "drop_bit (w * 6) (t::nat) = t div 64 ^ w"
proof -
  have "(2::nat) ^ (w * 6) = 64 ^ w" by (subst mult.commute) (simp add: power_mult)
  then show ?thesis by (simp add: drop_bit_eq_div)
qed

lemma split_64: obtains q r where "(n::nat) = 64 * q + r" "r < 64" "n mod 64 = r" "n div 64 = q"
  by (metis mult_div_mod_eq mod_less_divisor zero_less_numeral)

lemma slot_shift:
  assumes "j < 64"
  shows "(lo + (j + (64 - lo mod 64)) mod 64) mod 64 = (j::nat)"
proof -
  obtain q r where lo: "lo = 64 * q + r" "r < 64" "lo mod 64 = r" by (rule split_64)
  have "lo + (j + (64 - r)) = j + 64 * (q + 1)" using lo(1,2) by simp
  then have "(lo + (j + (64 - r))) mod 64 = j" using assms by (simp only: mod_mult_self2 mod_less)
  then show ?thesis unfolding lo(3) by (simp only: mod_add_right_eq)
qed

lemma slot_unshift:
  assumes "k < 64"
  shows "((lo + k) mod 64 + (64 - lo mod 64)) mod 64 = (k::nat)"
proof -
  obtain q r where lo: "lo = 64 * q + r" "r < 64" "lo mod 64 = r" by (rule split_64)
  have "(lo + k) + (64 - r) = k + 64 * (q + 1)" using lo(1,2) by simp
  then have "((lo + k) + (64 - r)) mod 64 = k" using assms by (simp only: mod_mult_self2 mod_less)
  then show ?thesis unfolding lo(3) by (simp only: mod_add_left_eq)
qed

lemma passes_all:
  assumes "64 \<le> hi - lo" and "j < 64"
  shows "passes lo hi j"
proof -
  have "(j + (64 - lo mod 64)) mod 64 < 64" by simp
  with assms(1) have "lo + (j + (64 - lo mod 64)) mod 64 < hi" by linarith
  with slot_shift [OF assms(2)] show ?thesis unfolding passes_def by (meson le_add1)
qed

lemma passes_window:
  assumes "j < 64" and "hi - lo < 64"
  shows "passes lo hi j \<longleftrightarrow> (j + (64 - lo mod 64)) mod 64 < hi - lo"
proof
  assume "passes lo hi j"
  then obtain k where k: "lo + k < hi" "(lo + k) mod 64 = j"
    unfolding passes_def by (metis le_Suc_ex)
  with assms have "k < 64" by linarith
  from slot_unshift [OF this] k show "(j + (64 - lo mod 64)) mod 64 < hi - lo" by force
next
  assume *: "(j + (64 - lo mod 64)) mod 64 < hi - lo"
  then have "lo + (j + (64 - lo mod 64)) mod 64 < hi" by linarith
  with slot_shift [OF assms(1)] show "passes lo hi j" unfolding passes_def by (meson le_add1)
qed

lemma passes_empty: "hi \<le> lo \<Longrightarrow> \<not> passes lo hi j"
  by (auto simp: passes_def)

lemma bit_rotated_window:
  assumes "d < 64" and "j < 64"
  shows "bit (word_rotl m (push_bit d 1 - 1 :: u64)) j \<longleftrightarrow> (j + (64 - m mod 64)) mod 64 < d"
  unfolding bit_word_rotl_iff using assms by (simp del: push_bit_of_1 add: bit_mask_minus_1)

lemma slot_distance:
  assumes "lo < hi" and "hi - lo \<le> 64"
  shows "(if hi mod 64 > lo mod 64 then hi mod 64 - lo mod 64 else 64 - lo mod 64 + hi mod 64) = hi - (lo::nat)"
proof -
  obtain q r where lo: "lo = 64 * q + r" "r < 64" "lo mod 64 = r" by (rule split_64)
  obtain q' r' where hi: "hi = 64 * q' + r'" "r' < 64" "hi mod 64 = r'" by (rule split_64)
  have "q' = q \<or> q' = q + 1" using assms lo hi by linarith
  then show ?thesis unfolding lo(3) hi(3) using assms lo(1,2) hi(1,2) by auto
qed

lemma div_diff_bounds:
  assumes "a \<le> (b::nat)" and "0 < q"
  shows "(b - a) div q \<le> b div q - a div q" and "b div q - a div q \<le> (b - a) div q + 1"
proof -
  obtain k where k: "b = a + k" using assms le_Suc_ex by blast
  have "b div q = a div q + k div q + (a mod q + k mod q) div q"
    unfolding k by (rule div_add1_eq)
  moreover have "(a mod q + k mod q) div q \<le> 1"
    using assms(2) mod_less_divisor [of q a] mod_less_divisor [of q k]
    by (metis add_less_mono assms(2) less_mult_imp_div_less less_Suc_eq_le mult_2 One_nat_def Suc_1)
  ultimately show "(b - a) div q \<le> b div q - a div q" and "b div q - a div q \<le> (b - a) div q + 1"
    using k by simp_all
qed

lemma wheel_pending_bit:
  assumes "cur < new" and "elapsed div 64 ^ w = (new - cur) div 64 ^ w \<or> elapsed div 64 ^ w \<le> 63 \<and> (new - cur) div 64 ^ w \<le> 63"
    and "0 < w \<longrightarrow> cur div 64 ^ w < new div 64 ^ w" and "j < 64"
  shows "bit (wheel_pending cur new elapsed w) j \<longleftrightarrow> passes (hand_from w cur) (hand_from w new) j"
proof -
  let ?C = "cur div 64 ^ w" and ?N = "new div 64 ^ w"
  have CN: "?C < ?N" using assms(1,3) by (cases "w = 0") auto
  have shift: "passes (hand_from w cur) (hand_from w new) j \<longleftrightarrow> passes (if w = 0 then ?C + 1 else ?C) (if w = 0 then ?N + 1 else ?N) j"
    by (simp add: hand_from_def)
  show ?thesis
  proof (cases "elapsed div 64 ^ w > 63")
    case True
    then have "64 \<le> (new - cur) div 64 ^ w" using assms(2) by auto
    then have "64 \<le> ?N - ?C" using div_diff_bounds(1) [of cur new "64 ^ w"] assms(1) by simp
    with True assms(4) show ?thesis
      unfolding shift by (auto simp: wheel_pending_def drop_bit_wheel Let_def intro!: passes_all)
  next
    case False
    then have "(new - cur) div 64 ^ w \<le> 63" using assms(2) by auto
    then have le: "?N - ?C \<le> 64" using div_diff_bounds(2) [of cur new "64 ^ w"] assms(1) by simp
    have nle: "(elapsed div 64 ^ w > 63) = False" using False by simp
    have wp: "wheel_pending cur new elapsed w =
        (if 64 \<le> ?N - ?C then NOT 0 else if 0 < w then word_rotl (?C mod 64) (push_bit (?N - ?C) 1 - 1)
         else word_rotl (?C mod 64 + 1) (push_bit (?N - ?C) 1 - 1))"
      by (simp only: wheel_pending_def Let_def wheel_consts nle if_False drop_bit_wheel and_63 slot_distance [OF CN le])
    show ?thesis
    proof (cases "?N - ?C = 64")
      case True
      then have "wheel_pending cur new elapsed w = NOT 0" using wp by simp
      with True assms(4) show ?thesis
        unfolding shift by (auto intro!: passes_all)
    next
      case less: False
      with le have lt: "?N - ?C < 64" by simp
      have C1: "(?C + 1) mod 64 = (?C mod 64 + 1) mod 64" by (simp add: mod_Suc_eq)
      have "bit (wheel_pending cur new elapsed w) j \<longleftrightarrow>
          (j + (64 - (if w = 0 then ?C + 1 else ?C) mod 64)) mod 64 < ?N - ?C"
        using lt bit_rotated_window [OF lt assms(4), of "?C mod 64"] bit_rotated_window [OF lt assms(4), of "?C mod 64 + 1"]
        unfolding wp by (auto simp only: C1 mod_mod_trivial split: if_splits)
      also have "\<dots> \<longleftrightarrow> passes (if w = 0 then ?C + 1 else ?C) (if w = 0 then ?N + 1 else ?N) j"
        using lt passes_window [OF assms(4), of "?N" "?C"] passes_window [OF assms(4), of "?N + 1" "?C + 1"]
        by (cases "w = 0") simp_all
      finally show ?thesis unfolding shift .
    qed
  qed
qed

lemma passes_0: "passes (a + 1) (b + 1) 0 \<longleftrightarrow> a div 64 < b div 64"
proof -
  obtain q r where a: "a = 64 * q + r" "r < 64" "a mod 64 = r" "a div 64 = q" by (rule split_64)
  obtain q' r' where b: "b = 64 * q' + r'" "r' < 64" "b mod 64 = r'" "b div 64 = q'" by (rule split_64)
  have "passes (a + 1) (b + 1) 0 \<longleftrightarrow> (\<exists>m. a < 64 * m \<and> 64 * m \<le> b)"
    unfolding passes_def by (metis Suc_eq_plus1 Suc_le_eq less_Suc_eq_le mod_0_imp_dvd dvdE mod_mult_self1_is_0)
  also have "\<dots> \<longleftrightarrow> q < q'"
  proof
    assume "\<exists>m. a < 64 * m \<and> 64 * m \<le> b"
    then obtain m where m: "a < 64 * m" "64 * m \<le> b" by blast
    have "q < m" using m(1) a(1) by linarith
    moreover have "m \<le> q'" using m(2) b(1,2) by linarith
    ultimately show "q < q'" by simp
  next
    assume "q < q'"
    then show "\<exists>m. a < 64 * m \<and> 64 * m \<le> b" using a(1,2) b(1) by (intro exI [of _ q']) auto
  qed
  finally show ?thesis using a(4) b(4) by simp
qed

lemma passes_63: "passes a b 63 \<longleftrightarrow> a div 64 < b div 64"
proof -
  obtain q r where a: "a = 64 * q + r" "r < 64" "a mod 64 = r" "a div 64 = q" by (rule split_64)
  obtain q' r' where b: "b = 64 * q' + r'" "r' < 64" "b mod 64 = r'" "b div 64 = q'" by (rule split_64)
  have "passes a b 63 \<longleftrightarrow> q < q'"
  proof
    assume "passes a b 63"
    then obtain x where x: "a \<le> x" "x < b" "x mod 64 = 63" by (auto simp: passes_def)
    obtain m k where m: "x = 64 * m + k" "k < 64" "x mod 64 = k" by (rule split_64)
    have "q \<le> m" using x(1) a(1) m(1,2) by linarith
    moreover have "m < q'" using x(2,3) b(1,2) m(1,3) by linarith
    ultimately show "q < q'" by simp
  next
    assume "q < q'"
    then have "a \<le> 64 * q + 63" "64 * q + 63 < b" using a(1,2) b(1) by auto
    moreover have "(64 * q + 63) mod 64 = 63" by simp
    ultimately show "passes a b 63" unfolding passes_def by blast
  qed
  then show ?thesis using a(4) b(4) by simp
qed

lemma finished_iff:
  assumes "\<And>j. j < 64 \<Longrightarrow> bit p j \<longleftrightarrow> passes (hand_from w cur) (hand_from w new) j" and "cur < new"
  shows "p AND finished_bit w \<noteq> 0 \<longleftrightarrow> cur div 64 ^ Suc w < new div 64 ^ Suc w"
proof -
  let ?s = "if w = 0 then 0 else 63"
  have "finished_bit w = slot_bit ?s"
    by (simp add: finished_bit_def slot_bit_def)
  then have "p AND finished_bit w \<noteq> 0 \<longleftrightarrow> bit p ?s"
    by (auto simp: word64_zero_iff bit_and_iff)
  also have "\<dots> \<longleftrightarrow> passes (hand_from w cur) (hand_from w new) ?s"
    using assms(1) [of ?s] by (cases "w = 0") auto
  also have "\<dots> \<longleftrightarrow> (cur div 64 ^ w) div 64 < (new div 64 ^ w) div 64"
    using passes_0 [of cur new] by (cases "w = 0") (simp_all add: hand_from_def passes_63)
  finally show ?thesis by (simp only: power_Suc2 div_mult2_eq)
qed

definition elapsed_ok :: "nat \<Rightarrow> nat \<Rightarrow> nat \<Rightarrow> bool" where
  "elapsed_ok real elapsed w \<longleftrightarrow> elapsed div 64 ^ w = real div 64 ^ w \<or> elapsed div 64 ^ w \<le> 63 \<and> real div 64 ^ w \<le> 63"

lemma elapsed_ok_max:
  assumes "elapsed_ok real elapsed v" and "w < v"
  shows "elapsed_ok real (max elapsed (push_bit (w * WHEEL_BITS) WHEEL_LEN)) v"
proof -
  have "(2::nat) ^ (w * 6) = 64 ^ w" by (subst mult.commute) (simp add: power_mult)
  then have e: "push_bit (w * WHEEL_BITS) WHEEL_LEN = 64 ^ Suc w" by (simp add: push_bit_eq_mult)
  show ?thesis
  proof (cases "64 ^ Suc w \<le> elapsed")
    case True
    then show ?thesis using assms(1) by (simp only: e max_absorb1)
  next
    case False
    have le: "(64::nat) ^ Suc w \<le> 64 ^ v" using assms(2) by (intro power_increasing) auto
    then have "elapsed div 64 ^ v = 0" using False by (intro div_less) linarith
    moreover have "64 ^ Suc w div 64 ^ v \<le> (1::nat)" using div_le_mono [OF le, of "64 ^ v"] by simp
    ultimately show ?thesis using assms(1) False unfolding e by (auto simp: elapsed_ok_def max_def)
  qed
qed

lemma div_power_le_mono:
  assumes "\<not> cur div 64 ^ w < new div 64 ^ w" and "w \<le> v"
  shows "new div 64 ^ v \<le> (cur::nat) div 64 ^ v"
proof -
  from assms(2) obtain k where "v = w + k" using le_Suc_ex by blast
  with assms(1) show ?thesis by (simp add: power_add div_mult2_eq div_le_mono)
qed

lemma length_need_resched_loop [simp]: "length (need_resched_loop cur new elapsed ws) = length ws"
  by (induction cur new elapsed ws rule: need_resched_loop.induct) (simp_all add: Let_def)

lemma need_resched_loop_bit:
  assumes "cur < new" and "\<And>v. w \<le> v \<Longrightarrow> elapsed_ok (new - cur) elapsed v"
    and "0 < w \<longrightarrow> cur div 64 ^ w < new div 64 ^ w" and "k < n" and "j < 64"
  shows "bit (need_resched_loop cur new elapsed [w..<w + n] ! k) j
     \<longleftrightarrow> passes (hand_from (w + k) cur) (hand_from (w + k) new) j"
  using assms(2-4)
proof (induction n arbitrary: w k elapsed)
  case 0
  then show ?case by simp
next
  case (Suc n)
  let ?p = "wheel_pending cur new elapsed w"
  have p: "bit ?p i \<longleftrightarrow> passes (hand_from w cur) (hand_from w new) i" if "i < 64" for i
    using Suc.prems(1) [of w] Suc.prems(2) that assms(1) by (intro wheel_pending_bit) (simp_all add: elapsed_ok_def)
  have ws: "[w..<w + Suc n] = w # [Suc w..<Suc w + n]" by (simp add: upt_rec)
  show ?case
  proof (cases k)
    case 0
    then show ?thesis using p [OF assms(5)] by (simp only: ws need_resched_loop.simps Let_def nth_Cons_0 add_0_right)
  next
    case (Suc m)
    with Suc.prems(3) have m: "m < n" by simp
    show ?thesis
    proof (cases "?p AND finished_bit w = 0")
      case True
      then have "\<not> cur div 64 ^ Suc w < new div 64 ^ Suc w" using finished_iff [OF p assms(1)] by blast
      from div_power_le_mono [OF this, of "Suc w + m"] have "\<not> passes (hand_from (w + k) cur) (hand_from (w + k) new) j"
        using Suc by (intro passes_empty) (simp add: hand_from_def)
      with True m Suc show ?thesis by (simp only: ws need_resched_loop.simps Let_def if_True nth_Cons_Suc) (simp del: upt_Suc)
    next
      case False
      then have "cur div 64 ^ Suc w < new div 64 ^ Suc w" using finished_iff [OF p assms(1)] by blast
      then have "bit (need_resched_loop cur new (max elapsed (push_bit (w * WHEEL_BITS) WHEEL_LEN)) [Suc w..<Suc w + n] ! m) j
          \<longleftrightarrow> passes (hand_from (Suc w + m) cur) (hand_from (Suc w + m) new) j"
        using m Suc.prems(1) by (intro Suc.IH elapsed_ok_max) simp_all
      with False Suc show ?thesis by (simp only: ws need_resched_loop.simps Let_def if_False nth_Cons_Suc) simp
    qed
  qed
qed

lemma need_resched_bit:
  assumes "w < 4" and "j < 64"
  shows "bit (need_resched cur new ! w) j \<longleftrightarrow> passes (hand_from w cur) (hand_from w new) j"
proof (cases "new \<le> cur")
  case True
  then have "hand_from w new \<le> hand_from w cur" by (simp add: hand_from_def div_le_mono)
  with True assms show ?thesis by (simp add: need_resched_def passes_empty)
next
  case False
  have "[0..<WHEEL_NUM] = [0..<0 + 4]" by simp
  with False assms show ?thesis
    using need_resched_loop_bit [of cur new 0 "new - cur" w 4 j]
    by (simp only: need_resched_def if_False) (simp add: elapsed_ok_def)
qed

lemma length_need_resched [simp]: "length (need_resched cur new) = 4"
  by (simp add: need_resched_def)

section \<open>The slow definition agrees\<close>

lemma tick_slot_bit:
  assumes "w < 4" and "j < 64"
  shows "bit (tick_slot t w) j \<longleftrightarrow> passes (hand_from w t) (hand_from w (t + 1)) j"
proof -
  let ?C = "t div 64 ^ w" and ?N = "(t + 1) div 64 ^ w"
  have one: "passes a (a + 1) j \<longleftrightarrow> j = a mod 64" for a
    unfolding passes_def by (metis add_le_cancel_left le_add1 less_Suc_eq_le Suc_eq_plus1 le_antisym lessI)
  have ts: "tick_slot t w = (if ?C mod 64 \<noteq> ?N mod 64 then slot_bit (if w > 0 then ?C mod 64 else ?N mod 64) else 0)"
    by (simp only: tick_slot_def Let_def wheel_consts drop_bit_wheel and_63) (simp only: if_distrib)
  consider "0 < w" "?N = ?C" | "?N = ?C + 1"
    using div_Suc [of t "64 ^ w"] by (cases "w = 0"; cases "Suc t mod 64 ^ w = 0") auto
  then show ?thesis
  proof cases
    case 1
    then show ?thesis unfolding ts by (simp add: hand_from_def passes_empty)
  next
    case 2
    obtain q r where "?C = 64 * q + r" "r < 64" "?C mod 64 = r" by (rule split_64)
    then have "?N mod 64 \<noteq> ?C mod 64" unfolding 2 by (simp add: mod_Suc)
    then have ts: "tick_slot t w = slot_bit (if w > 0 then ?C mod 64 else ?N mod 64)" unfolding ts by simp
    show ?thesis
    proof (cases "w = 0")
      case True
      then show ?thesis using ts one [of "t + 1"] assms(2) by (auto simp: hand_from_def)
    next
      case False
      then have "passes (hand_from w t) (hand_from w (t + 1)) j \<longleftrightarrow> passes ?C (?C + 1) j"
        using 2 by (simp add: hand_from_def)
      then show ?thesis using ts False one [of ?C] assms(2) by simp
    qed
  qed
qed

lemma passes_split: "lo \<le> mid \<Longrightarrow> mid \<le> hi \<Longrightarrow> passes lo hi j \<longleftrightarrow> passes lo mid j \<or> passes mid hi j"
  unfolding passes_def by (metis le_trans less_le_trans not_le)

lemma hand_from_mono: "a \<le> b \<Longrightarrow> hand_from w a \<le> hand_from w b"
  by (simp add: hand_from_def div_le_mono)

lemma resched_fold_bit:
  assumes "cur \<le> new"
  shows "length (fold (\<lambda>t result. map (\<lambda>wheel. result ! wheel OR tick_slot t wheel) [0..<WHEEL_NUM]) [cur..<new] (replicate WHEEL_NUM 0)) = 4
    \<and> (\<forall>w < 4. \<forall>j < 64. bit (fold (\<lambda>t result. map (\<lambda>wheel. result ! wheel OR tick_slot t wheel) [0..<WHEEL_NUM]) [cur..<new] (replicate WHEEL_NUM 0) ! w) j
        \<longleftrightarrow> passes (hand_from w cur) (hand_from w new) j)"
  using assms
proof (induction new rule: dec_induct)
  case base
  then show ?case by (simp add: passes_empty)
next
  case (step n)
  then have "passes (hand_from w cur) (hand_from w (Suc n)) j \<longleftrightarrow>
      passes (hand_from w cur) (hand_from w n) j \<or> passes (hand_from w n) (hand_from w (Suc n)) j" for w j
    by (intro passes_split hand_from_mono) auto
  with step tick_slot_bit [of _ _ n] show ?case by (simp add: bit_or_iff)
qed

text \<open>
  Property C2. \<open>need_resched\<close>, which computes the slots to process with a constant number of shifts
  and rotations, is equal to the definition that steps through every tick, for all times.
\<close>

theorem need_resched_equals_simple: "need_resched curtime newtime = need_resched_simple curtime newtime"
proof (cases "newtime \<le> curtime")
  case True
  then show ?thesis by (simp add: need_resched_def need_resched_simple_def)
next
  case False
  then have le: "curtime \<le> newtime" by simp
  show ?thesis
  proof (rule nth_equalityI)
    show len: "length (need_resched curtime newtime) = length (need_resched_simple curtime newtime)"
      using False resched_fold_bit [OF le] by (simp add: need_resched_simple_def)
    fix w assume "w < length (need_resched curtime newtime)"
    then have "w < 4" by simp
    then show "need_resched curtime newtime ! w = need_resched_simple curtime newtime ! w"
      using False resched_fold_bit [OF le]
      by (intro word64_eqI) (simp add: need_resched_bit need_resched_simple_def)
  qed
qed

end
