(* ===== verification/TimerWheel.thy ===== *)
theory TimerWheel
  imports TimerBits SlabList
begin

text \<open>
  The timer wheel of \<open>src/core/timer.rs\<close>: \<open>TimerWheel\<close> with \<open>add\<close>, \<open>remove\<close>, \<open>timeout\<close>, \<open>update\<close>,
  \<open>take_expired\<close> and \<open>sched\<close>, over the slab lists of \<open>SlabList\<close>. Four wheels of 64 slots each hold
  lists of timers; a map of 64 bits per wheel says which slots are not empty. \<open>wheel_inv\<close> is the
  invariant; \<open>timer_spec\<close> is the contract a client sees (a clock and a finite map from keys to expiry
  times), and the refinement theorem shows that the wheel implements it: no timer expires early, none
  is late, the timeout never oversleeps, and no operation panics.
\<close>

unbundle bit_operations_syntax

section \<open>State\<close>

datatype in_list = Wheel nat nat | Expired

record timer =
  tm_expires :: nat
  tm_list :: "in_list option"
  tm_user_data :: nat

record 's timer_wheel =
  tw_nodes :: 's
  tw_wheel :: "nat llist list list"
  tw_expired :: "nat llist"
  tw_pending :: "u64 list"
  tw_curtime :: nat

type_synonym 's timer_slab = "('s, timer slab_node) slab_ops"

definition tw_new :: "'s timer_slab \<Rightarrow> nat \<Rightarrow> 's timer_wheel" where
  "tw_new S cap = \<lparr>
     tw_nodes = sl_with_capacity S cap,
     tw_wheel = map (\<lambda>_. map (\<lambda>_. ll_empty) [0..<WHEEL_LEN]) [0..<WHEEL_NUM],
     tw_expired = ll_empty,
     tw_pending = replicate WHEEL_NUM 0,
     tw_curtime = 0\<rparr>"

text \<open>\<open>self.wheel[wheel][slot]\<close>, read and written, and \<open>self.nodes[key].value.list = v\<close>.\<close>

definition wheel_at :: "'s timer_wheel \<Rightarrow> nat \<Rightarrow> nat \<Rightarrow> nat llist run" where
  "wheel_at tw wheel slot = do { row \<leftarrow> index_at (tw_wheel tw) wheel; index_at row slot }"

definition wheel_put :: "nat \<Rightarrow> nat \<Rightarrow> nat llist \<Rightarrow> 's timer_wheel \<Rightarrow> 's timer_wheel" where
  "wheel_put wheel slot l tw = tw\<lparr>tw_wheel := (tw_wheel tw)[wheel := (tw_wheel tw ! wheel)[slot := l]]\<rparr>"

definition pending_put :: "nat \<Rightarrow> u64 \<Rightarrow> 's timer_wheel \<Rightarrow> 's timer_wheel" where
  "pending_put wheel p tw = tw\<lparr>tw_pending := (tw_pending tw)[wheel := p]\<rparr>"

definition set_timer_list :: "'s timer_slab \<Rightarrow> 's \<Rightarrow> nat \<Rightarrow> in_list option \<Rightarrow> 's run" where
  "set_timer_list S nodes key v = do {
     n \<leftarrow> slab_index S nodes key;
     slab_assign S nodes key (n\<lparr>sn_value := (sn_value n)\<lparr>tm_list := v\<rparr>\<rparr>)
   }"

section \<open>Operations\<close>

definition tw_sched :: "'s timer_slab \<Rightarrow> 's timer_wheel \<Rightarrow> nat \<Rightarrow> 's timer_wheel run" where
  "tw_sched S tw key = do {
     n \<leftarrow> slab_index S (tw_nodes tw) key;
     let expires = tm_expires (sn_value n);
     (if expires > tw_curtime tw then do {
        let t = min (expires - tw_curtime tw) TIMEOUT_MAX;
        _ \<leftarrow> assert_that (t > 0);
        let wheel = (fls64 t - 1) div WHEEL_BITS;
        _ \<leftarrow> assert_that (wheel < WHEEL_NUM);
        let trunc_bits = wheel * WHEEL_BITS;
        let offset = (if wheel > 0 then 1 else 0);
        position \<leftarrow> usize_sub (drop_bit trunc_bits expires) offset;
        let slot = position AND WHEEL_MASK;
        l \<leftarrow> wheel_at tw wheel slot;
        (l, nodes) \<leftarrow> ll_push_back (slab_backend S) l (tw_nodes tw) key;
        p \<leftarrow> index_at (tw_pending tw) wheel;
        nodes \<leftarrow> set_timer_list S nodes key (Some (Wheel wheel slot));
        Some (pending_put wheel (p OR slot_bit slot) (wheel_put wheel slot l (tw\<lparr>tw_nodes := nodes\<rparr>)))
      }
      else do {
        (l, nodes) \<leftarrow> ll_push_back (slab_backend S) (tw_expired tw) (tw_nodes tw) key;
        nodes \<leftarrow> set_timer_list S nodes key (Some Expired);
        Some (tw\<lparr>tw_nodes := nodes, tw_expired := l\<rparr>)
      })
   }"

definition tw_add :: "'s timer_slab \<Rightarrow> 's timer_wheel \<Rightarrow> nat \<Rightarrow> nat \<Rightarrow> ((unit + nat) \<times> 's timer_wheel) run" where
  "tw_add S tw expires user_data =
     (if sl_len S (tw_nodes tw) = sl_capacity S (tw_nodes tw) then Some (Inl (), tw)
      else do {
        let t = \<lparr>tm_expires = expires, tm_list = None, tm_user_data = user_data\<rparr>;
        let (key, nodes) = sl_insert S (tw_nodes tw) (slab_node_new t);
        tw \<leftarrow> tw_sched S (tw\<lparr>tw_nodes := nodes\<rparr>) key;
        Some (Inr key, tw)
      })"

definition tw_remove :: "'s timer_slab \<Rightarrow> 's timer_wheel \<Rightarrow> nat \<Rightarrow> 's timer_wheel run" where
  "tw_remove S tw key =
     (case sl_get S (tw_nodes tw) key of
        None \<Rightarrow> Some tw
      | Some n \<Rightarrow> do {
          tw \<leftarrow> (case tm_list (sn_value n) of
              Some (Wheel wheel slot) \<Rightarrow> do {
                l \<leftarrow> wheel_at tw wheel slot;
                (l, nodes) \<leftarrow> ll_remove (slab_backend S) l (tw_nodes tw) key;
                let tw = wheel_put wheel slot l (tw\<lparr>tw_nodes := nodes\<rparr>);
                (if ll_is_empty l then do {
                   p \<leftarrow> index_at (tw_pending tw) wheel;
                   Some (pending_put wheel (p AND NOT (slot_bit slot)) tw)
                 } else Some tw)
              }
            | Some Expired \<Rightarrow> do {
                (l, nodes) \<leftarrow> ll_remove (slab_backend S) (tw_expired tw) (tw_nodes tw) key;
                Some (tw\<lparr>tw_nodes := nodes, tw_expired := l\<rparr>)
              }
            | None \<Rightarrow> Some tw);
          (_, nodes) \<leftarrow> slab_take S (tw_nodes tw) key;
          Some (tw\<lparr>tw_nodes := nodes\<rparr>)
        })"

fun timeout_loop :: "'s timer_wheel \<Rightarrow> nat list \<Rightarrow> nat option \<Rightarrow> nat \<Rightarrow> nat option run" where
  "timeout_loop tw [] timeout relmask = Some timeout"
| "timeout_loop tw (wheel # wheels) timeout relmask = do {
     let trunc_bits = wheel * WHEEL_BITS;
     p \<leftarrow> index_at (tw_pending tw) wheel;
     timeout \<leftarrow>
       (if p \<noteq> 0 then do {
          let slot = drop_bit trunc_bits (tw_curtime tw) AND WHEEL_MASK;
          let pending = word_rotr slot p;
          let offset = (if wheel > 0 then 1 else 0);
          let t = push_bit trunc_bits (trailing_zeros pending + offset);
          t \<leftarrow> usize_sub t (relmask AND tw_curtime tw);
          Some (Some (case timeout of Some best \<Rightarrow> min best t | None \<Rightarrow> t))
        } else Some timeout);
     timeout_loop tw wheels timeout (push_bit WHEEL_BITS relmask OR WHEEL_MASK)
   }"

definition tw_timeout :: "'s timer_wheel \<Rightarrow> nat option run" where
  "tw_timeout tw =
     (if \<not> ll_is_empty (tw_expired tw) then Some (Some 0) else timeout_loop tw [0..<WHEEL_NUM] None 0)"

text \<open>The two loops of \<open>update\<close>: move the timers of the passed slots out, then schedule them again.\<close>

partial_function (option) take_slots ::
  "'s timer_slab \<Rightarrow> 's timer_wheel \<Rightarrow> nat llist \<Rightarrow> nat \<Rightarrow> u64 \<Rightarrow> ('s timer_wheel \<times> nat llist) option" where
  "take_slots S tw l wheel pending = do {
     p \<leftarrow> index_at (tw_pending tw) wheel;
     (if pending AND p \<noteq> 0 then do {
        let slot = trailing_zeros (pending AND p);
        w \<leftarrow> wheel_at tw wheel slot;
        (l, nodes, w) \<leftarrow> ll_concat (slab_backend S) l (tw_nodes tw) w;
        take_slots S (pending_put wheel (p AND NOT (slot_bit slot)) (wheel_put wheel slot w (tw\<lparr>tw_nodes := nodes\<rparr>))) l wheel pending
      } else Some (tw, l))
   }"

fun take_wheels ::
  "'s timer_slab \<Rightarrow> 's timer_wheel \<Rightarrow> nat llist \<Rightarrow> (nat \<times> u64) list \<Rightarrow> ('s timer_wheel \<times> nat llist) run" where
  "take_wheels S tw l [] = Some (tw, l)"
| "take_wheels S tw l ((wheel, pending) # need) = do {
     (tw, l) \<leftarrow> take_slots S tw l wheel pending;
     take_wheels S tw l need
   }"

partial_function (option) resched_all :: "'s timer_slab \<Rightarrow> 's timer_wheel \<Rightarrow> nat llist \<Rightarrow> 's timer_wheel option" where
  "resched_all S tw l =
     (case ll_head l of
        None \<Rightarrow> Some tw
      | Some key \<Rightarrow> do {
          (l, nodes) \<leftarrow> ll_remove (slab_backend S) l (tw_nodes tw) key;
          nodes \<leftarrow> set_timer_list S nodes key None;
          tw \<leftarrow> tw_sched S (tw\<lparr>tw_nodes := nodes\<rparr>) key;
          resched_all S tw l
        })"

definition tw_update :: "'s timer_slab \<Rightarrow> 's timer_wheel \<Rightarrow> nat \<Rightarrow> 's timer_wheel run" where
  "tw_update S tw curtime =
     (if curtime \<le> tw_curtime tw then Some tw
      else do {
        let need = need_resched (tw_curtime tw) curtime;
        (tw, l) \<leftarrow> take_wheels S tw ll_empty (enumerate 0 need);
        resched_all S (tw\<lparr>tw_curtime := curtime\<rparr>) l
      })"

definition tw_take_expired :: "'s timer_slab \<Rightarrow> 's timer_wheel \<Rightarrow> ((nat \<times> nat) option \<times> 's timer_wheel) run" where
  "tw_take_expired S tw = do {
     (k, l, nodes) \<leftarrow> ll_pop_front (slab_backend S) (tw_expired tw) (tw_nodes tw);
     let tw = tw\<lparr>tw_nodes := nodes, tw_expired := l\<rparr>;
     (case k of
        None \<Rightarrow> Some (None, tw)
      | Some key \<Rightarrow> do {
          n \<leftarrow> slab_index S (tw_nodes tw) key;
          let user_data = tm_user_data (sn_value n);
          (_, nodes) \<leftarrow> slab_take S (tw_nodes tw) key;
          Some (Some (key, user_data), tw\<lparr>tw_nodes := nodes\<rparr>)
        })
   }"

section \<open>Invariant\<close>

definition slab_vals :: "('s, 'v slab_node) slab_ops \<Rightarrow> 's \<Rightarrow> nat \<Rightarrow> 'v option" where
  "slab_vals S s i = map_option sn_value (sl_get S s i)"

fun valid_id :: "in_list \<Rightarrow> bool" where
  "valid_id (Wheel w s) \<longleftrightarrow> w < 4 \<and> s < 64"
| "valid_id Expired \<longleftrightarrow> True"

fun list_of :: "'s timer_wheel \<Rightarrow> in_list \<Rightarrow> nat llist" where
  "list_of tw (Wheel w s) = tw_wheel tw ! w ! s"
| "list_of tw Expired = tw_expired tw"

text \<open>Where a timer that expires at \<open>e\<close> may be at time \<open>cur\<close>.\<close>

fun placed :: "nat \<Rightarrow> in_list \<Rightarrow> nat \<Rightarrow> bool" where
  "placed cur Expired e \<longleftrightarrow> e \<le> cur"
| "placed cur (Wheel w s) e \<longleftrightarrow> w < 4 \<and> s = (e div 64 ^ w - (if w > 0 then 1 else 0)) mod 64
     \<and> cur div 64 ^ w < e div 64 ^ w \<and> (w = 0 \<longrightarrow> e - cur < 64)"

definition tw_shape :: "'s timer_wheel \<Rightarrow> bool" where
  "tw_shape tw \<longleftrightarrow> length (tw_wheel tw) = 4 \<and> (\<forall>w < 4. length (tw_wheel tw ! w) = 64) \<and> length (tw_pending tw) = 4"

text \<open>
  \<open>Q\<close> gives every list its sequence of keys; the timers of \<open>T\<close> are in none of them (they are being
  moved). Every other timer is in the list its \<open>list\<close> field names, at a place that fits its time.
\<close>

definition wheel_inv :: "'s timer_slab \<Rightarrow> 's timer_wheel \<Rightarrow> (in_list \<Rightarrow> nat list) \<Rightarrow> nat set \<Rightarrow> bool" where
  "wheel_inv S tw Q T \<longleftrightarrow> tw_shape tw
     \<and> (\<forall>q. valid_id q \<longrightarrow> represents (slab_link S (tw_nodes tw)) (list_of tw q) (Q q))
     \<and> (\<forall>i q. i \<in> set (Q q) \<longleftrightarrow> i \<notin> T \<and> (\<exists>t. slab_vals S (tw_nodes tw) i = Some t \<and> tm_list t = Some q))
     \<and> (\<forall>i t. i \<notin> T \<longrightarrow> slab_vals S (tw_nodes tw) i = Some t \<longrightarrow>
          (\<exists>q. tm_list t = Some q \<and> placed (tw_curtime tw) q (tm_expires t)))
     \<and> (\<forall>w < 4. \<forall>s < 64. bit (tw_pending tw ! w) s \<longleftrightarrow> Q (Wheel w s) \<noteq> [])"

text \<open>The timers as a client sees them.\<close>

definition tw_timers :: "'s timer_slab \<Rightarrow> 's timer_wheel \<Rightarrow> nat \<Rightarrow> (nat \<times> nat) option" where
  "tw_timers S tw i = map_option (\<lambda>t. (tm_expires t, tm_user_data t)) (slab_vals S (tw_nodes tw) i)"

lemma placed_valid: "placed cur q e \<Longrightarrow> valid_id q"
  by (cases q) auto

lemma list_of_put [simp]:
  "tw_shape tw \<Longrightarrow> w < 4 \<Longrightarrow> s < 64 \<Longrightarrow> list_of (wheel_put w s l tw) = (list_of tw)(Wheel w s := l)"
proof (rule ext)
  fix q assume "tw_shape tw" "w < 4" "s < 64"
  then show "list_of (wheel_put w s l tw) q = ((list_of tw)(Wheel w s := l)) q"
    by (cases q) (auto simp: wheel_put_def tw_shape_def nth_list_update)
qed

lemma list_of_pending_put [simp]: "list_of (pending_put w p tw) = list_of tw"
  by (rule ext, rename_tac q, case_tac q) (simp_all add: pending_put_def)

lemma list_of_nodes [simp]: "list_of (tw\<lparr>tw_nodes := n\<rparr>) = list_of tw" "list_of (tw\<lparr>tw_curtime := c\<rparr>) = list_of tw"
  by (rule ext, rename_tac q, case_tac q; simp)+

lemma list_of_expired [simp]: "list_of (tw\<lparr>tw_expired := l\<rparr>) = (list_of tw)(Expired := l)"
  by (rule ext, rename_tac q, case_tac q) simp_all

lemma tw_fields [simp]:
  "tw_nodes (wheel_put w s l tw) = tw_nodes tw" "tw_pending (wheel_put w s l tw) = tw_pending tw"
  "tw_curtime (wheel_put w s l tw) = tw_curtime tw" "tw_expired (wheel_put w s l tw) = tw_expired tw"
  "tw_nodes (pending_put w p tw) = tw_nodes tw" "tw_pending (pending_put w p tw) = (tw_pending tw)[w := p]"
  "tw_curtime (pending_put w p tw) = tw_curtime tw" "tw_expired (pending_put w p tw) = tw_expired tw"
  by (simp_all add: wheel_put_def pending_put_def)

lemma tw_shape_put [simp]: "tw_shape tw \<Longrightarrow> tw_shape (wheel_put w s l tw)"
  by (simp add: tw_shape_def wheel_put_def) (metis length_list_update nth_list_update_eq nth_list_update_neq)

lemma tw_shape_simps [simp]:
  "tw_shape (pending_put w p tw) = tw_shape tw"
  "tw_shape (tw\<lparr>tw_nodes := n\<rparr>) = tw_shape tw" "tw_shape (tw\<lparr>tw_expired := l\<rparr>) = tw_shape tw"
  "tw_shape (tw\<lparr>tw_curtime := c\<rparr>) = tw_shape tw"
  by (simp_all add: tw_shape_def pending_put_def)

lemma wheel_at_ok [simp]: "tw_shape tw \<Longrightarrow> w < 4 \<Longrightarrow> s < 64 \<Longrightarrow> wheel_at tw w s = Some (list_of tw (Wheel w s))"
  by (simp add: wheel_at_def tw_shape_def)

lemma pending_at_ok [simp]: "tw_shape tw \<Longrightarrow> w < 4 \<Longrightarrow> index_at (tw_pending tw) w = Some (tw_pending tw ! w)"
  by (simp add: tw_shape_def)

text \<open>Changing one list, and the pending bit that goes with it.\<close>

definition put_id :: "in_list \<Rightarrow> nat llist \<Rightarrow> bool \<Rightarrow> 's timer_wheel \<Rightarrow> 's timer_wheel" where
  "put_id q l b tw =
     (case q of
        Expired \<Rightarrow> tw\<lparr>tw_expired := l\<rparr>
      | Wheel w s \<Rightarrow> pending_put w (if b then tw_pending tw ! w OR slot_bit s else tw_pending tw ! w AND NOT (slot_bit s)) (wheel_put w s l tw))"

lemma put_id_simps [simp]:
  "tw_shape tw \<Longrightarrow> valid_id q \<Longrightarrow> list_of (put_id q l b tw) = (list_of tw)(q := l)"
  "tw_nodes (put_id q l b tw) = tw_nodes tw" "tw_curtime (put_id q l b tw) = tw_curtime tw"
  "tw_shape tw \<Longrightarrow> tw_shape (put_id q l b tw)"
  by (cases q; simp add: put_id_def)+

lemma put_id_pending:
  assumes "tw_shape tw" and "w < 4" and "s < 64" and "valid_id q"
  shows "bit (tw_pending (put_id q l b tw) ! w) s = (if q = Wheel w s then b else bit (tw_pending tw ! w) s)"
proof (cases q)
  case (Wheel w' s')
  then show ?thesis
    using assms by (auto simp: put_id_def tw_shape_def nth_list_update bit_or_iff bit_and_iff bit_not_iff)
qed (simp add: put_id_def)

lemma wheel_invD:
  assumes "wheel_inv S tw Q T"
  shows "tw_shape tw"
    and "valid_id q \<Longrightarrow> represents (slab_link S (tw_nodes tw)) (list_of tw q) (Q q)"
    and "i \<in> set (Q q) \<longleftrightarrow> i \<notin> T \<and> (\<exists>t. slab_vals S (tw_nodes tw) i = Some t \<and> tm_list t = Some q)"
    and "i \<notin> T \<Longrightarrow> slab_vals S (tw_nodes tw) i = Some t \<Longrightarrow>
          \<exists>q. tm_list t = Some q \<and> placed (tw_curtime tw) q (tm_expires t)"
    and "w < 4 \<Longrightarrow> s < 64 \<Longrightarrow> bit (tw_pending tw ! w) s \<longleftrightarrow> Q (Wheel w s) \<noteq> []"
  using assms by (simp_all add: wheel_inv_def)

lemma slab_has_vals: "slab_has S s i \<longleftrightarrow> slab_vals S s i \<noteq> None"
  by (auto simp: slab_has_def slab_vals_def)

lemma power_64: "(64::nat) ^ w = 2 ^ (6 * w)"
  by (simp add: power_mult)

text \<open>The wheel and slot that \<open>sched\<close> selects.\<close>

lemma sched_place:
  assumes "cur < e" and "t = min (e - cur) TIMEOUT_MAX" and "w = (fls64 t - 1) div WHEEL_BITS"
  shows "0 < t" and "w < 4" and "placed cur (Wheel w ((e div 64 ^ w - (if w > 0 then 1 else 0)) mod 64)) e"
    and "0 < e div 64 ^ w"
proof -
  show t: "0 < t" using assms(1,2) by simp
  have tmax: "t < 2 ^ 24" using assms(2) by simp
  then have "t < 2 ^ 64" by simp
  note f = fls64_bounds [OF t this]
  have "(2::nat) ^ (fls64 t - 1) < 2 ^ 24" using f(1) tmax by linarith
  then have "fls64 t - 1 < 24" by (rule power_less_imp_less_exp [rotated]) simp
  then show w: "w < 4" using assms(3) by simp
  have "(64::nat) ^ w \<le> 2 ^ (fls64 t - 1)"
    unfolding power_64 using assms(3) by (intro power_increasing) auto
  then have lo: "64 ^ w \<le> t" using f(1) by simp
  then have "cur + 64 ^ w \<le> e" using assms(1,2) by (simp add: min_def split: if_splits)
  then have "(cur + 64 ^ w) div 64 ^ w \<le> e div 64 ^ w" by (rule div_le_mono)
  then have less: "cur div 64 ^ w < e div 64 ^ w" using div_add_self2 [of "64 ^ w" cur] by simp
  then show "0 < e div 64 ^ w" by simp
  have "e - cur < 64" if "w = 0"
  proof -
    have "fls64 t - 1 < 6" using that assms(3) by (simp add: div_eq_0_iff)
    then have "(2::nat) ^ fls64 t \<le> 2 ^ 6" using f(3) by (intro power_increasing) auto
    then have "t < 64" using f(2) by simp
    then show ?thesis using assms(2) by (auto simp: min_def split: if_splits)
  qed
  with w less show "placed cur (Wheel w ((e div 64 ^ w - (if w > 0 then 1 else 0)) mod 64)) e" by simp
qed

text \<open>A timer in a slot that the hand does not pass is still ahead of the new time.\<close>

lemma placed_advance:
  assumes "placed cur (Wheel w s) e" and "cur \<le> new" and "\<not> bit (need_resched cur new ! w) s"
  shows "placed new (Wheel w s) e"
proof -
  have w: "w < 4" "s < 64" using assms(1) by auto
  let ?e = "e div 64 ^ w"
  have np: "\<not> passes (hand_from w cur) (hand_from w new) s" using assms(3) need_resched_bit [OF w] by simp
  show ?thesis
  proof (cases "w = 0")
    case True
    with assms(1) have e: "cur < e" "e - cur < 64" "s = e mod 64" by auto
    have "\<not> e \<le> new"
    proof
      assume "e \<le> new"
      with e have "passes (cur + 1) (new + 1) s" unfolding passes_def by (intro exI [of _ e]) auto
      with np True show False by (simp add: hand_from_def)
    qed
    then show ?thesis using True e assms(2) by auto
  next
    case False
    with assms(1) have e: "cur div 64 ^ w < ?e" "s = (?e - 1) mod 64" by auto
    have "\<not> ?e \<le> new div 64 ^ w"
    proof
      assume "?e \<le> new div 64 ^ w"
      with e have "passes (cur div 64 ^ w) (new div 64 ^ w) s" unfolding passes_def by (intro exI [of _ "?e - 1"]) auto
      with np False show False by (simp add: hand_from_def)
    qed
    then show ?thesis using False w e by simp
  qed
qed

text \<open>What \<open>timeout\<close> computes for one wheel.\<close>

definition wheel_timeout :: "nat \<Rightarrow> u64 \<Rightarrow> nat \<Rightarrow> nat" where
  "wheel_timeout cur p w =
     (trailing_zeros (word_rotr ((cur div 64 ^ w) mod 64) p) + (if w > 0 then 1 else 0)) * 64 ^ w - cur mod 64 ^ w"

lemma and_mask_nat: "mask n AND (t::nat) = t mod 2 ^ n"
  by (simp add: take_bit_eq_mod take_bit_eq_mask and.commute flip: take_bit_eq_mask)

lemma relmask_step: "push_bit 6 (mask n) OR 63 = (mask (n + 6) :: nat)"
proof -
  have e: "(63::nat) = mask 6" by (simp add: mask_eq_exp_minus_1)
  show ?thesis
    unfolding e by (rule bit_eqI, simp only: bit_or_iff bit_push_bit_iff bit_mask_iff) auto
qed

definition wheel_timeouts :: "'s timer_wheel \<Rightarrow> nat \<Rightarrow> nat set" where
  "wheel_timeouts tw w = {wheel_timeout (tw_curtime tw) (tw_pending tw ! v) v | v. w \<le> v \<and> v < 4 \<and> tw_pending tw ! v \<noteq> 0}"

lemma wheel_timeouts_step:
  assumes "w < 4"
  shows "wheel_timeouts tw w = (if tw_pending tw ! w = 0 then wheel_timeouts tw (Suc w)
     else insert (wheel_timeout (tw_curtime tw) (tw_pending tw ! w) w) (wheel_timeouts tw (Suc w)))"
proof -
  have "w \<le> v \<longleftrightarrow> v = w \<or> Suc w \<le> v" for v by auto
  then show ?thesis using assms by (auto simp: wheel_timeouts_def)
qed

lemma finite_wheel_timeouts [simp]: "finite (wheel_timeouts tw w)"
proof -
  have "wheel_timeouts tw w \<subseteq> (\<lambda>v. wheel_timeout (tw_curtime tw) (tw_pending tw ! v) v) ` {..<4}"
    by (auto simp: wheel_timeouts_def)
  then show ?thesis by (rule finite_subset) simp
qed

definition min_option :: "nat set \<Rightarrow> nat option" where
  "min_option X = (if X = {} then None else Some (Min X))"

lemma min_option_merge: "finite C \<Longrightarrow> min_option (insert (min a b) C) = min_option (insert a (insert b C))"
  by (cases "C = {}") (simp_all add: min_option_def min.assoc)

lemma timeout_loop_ok:
  assumes "length (tw_pending tw) = 4" and "w + n = 4"
  shows "timeout_loop tw [w..<w + n] acc (mask (6 * w)) = Some (min_option (set_option acc \<union> wheel_timeouts tw w))"
  using assms(2)
proof (induction n arbitrary: w acc)
  case 0
  then have "wheel_timeouts tw w = {}" by (auto simp: wheel_timeouts_def)
  then show ?case by (cases acc) (simp_all add: min_option_def)
next
  case (Suc n)
  let ?p = "tw_pending tw ! w" and ?t = "wheel_timeout (tw_curtime tw) (tw_pending tw ! w) w"
  let ?acc = "if ?p \<noteq> 0 then Some (case acc of Some best \<Rightarrow> min best ?t | None \<Rightarrow> ?t) else acc"
  have w: "w < 4" using Suc.prems by simp
  have ws: "[w..<w + Suc n] = w # [Suc w..<Suc w + n]" by (simp add: upt_rec)
  have shift: "push_bit (w * 6) x = x * 64 ^ w" for x :: nat
    by (simp add: push_bit_eq_mult power_64 mult.commute)
  have mask: "mask (6 * w) AND tw_curtime tw = tw_curtime tw mod 64 ^ w"
    by (simp add: and_mask_nat power_64)
  have "tw_curtime tw mod 64 ^ w \<le> (trailing_zeros q + (if w > 0 then 1 else 0)) * 64 ^ w" for q
    by (cases "w = 0") (auto intro: order_trans [OF less_imp_le [OF mod_less_divisor]])
  then have sub: "usize_sub (push_bit (w * 6) (trailing_zeros (word_rotr ((tw_curtime tw div 64 ^ w) mod 64) ?p) + (if w > 0 then 1 else 0)))
      (mask (6 * w) AND tw_curtime tw) = Some ?t"
    unfolding wheel_timeout_def shift mask by (rule usize_sub_in_range)
  have step: "timeout_loop tw [w..<w + Suc n] acc (mask (6 * w)) = timeout_loop tw [Suc w..<Suc w + n] ?acc (mask (6 * Suc w))"
    unfolding ws timeout_loop.simps Let_def wheel_consts drop_bit_wheel and_63 relmask_step
    using w assms(1) sub by (simp del: upt_Suc add: add.commute)
  have IH: "Suc w + n = 4" using Suc.prems by simp
  show ?case
    unfolding step Suc.IH [OF IH] wheel_timeouts_step [OF w]
    by (cases acc) (simp_all add: min_option_merge)
qed

text \<open>No wheel oversleeps a timer it holds, and no wheel that holds only timers in time returns 0.\<close>

lemma rotr_bit: "k < 64 \<Longrightarrow> bit (word_rotr m (p::u64)) k \<longleftrightarrow> bit p ((k + m) mod 64)"
  by (simp add: bit_word_rotr_iff)

lemma wheel_timeout_le:
  assumes "placed cur (Wheel w s) e" and "bit p s"
  shows "wheel_timeout cur p w \<le> e - cur"
proof -
  let ?q = "(64::nat) ^ w" and ?o = "if w > 0 then 1 else (0::nat)"
  let ?C = "cur div ?q"
  define x where "x = e div ?q - ?o"
  have s: "s = x mod 64" and Cx: "?C \<le> x" and ex: "e div ?q = x + ?o"
    using assms(1) by (auto simp: x_def)
  define k where "k = (s + (64 - ?C mod 64)) mod 64"
  have k: "k < 64" by (simp add: k_def)
  have "(k + ?C mod 64) mod 64 = s"
    using slot_shift [of s "?C"] s by (simp add: k_def add.commute mod_add_right_eq)
  then have bk: "bit (word_rotr (?C mod 64) p) k" using rotr_bit [OF k] assms(2) by simp
  then have ne: "word_rotr (?C mod 64) p \<noteq> 0" by auto
  have tz: "trailing_zeros (word_rotr (?C mod 64) p) \<le> k"
    using trailing_zeros_bit(3) [OF ne, of k] bk by linarith
  obtain d where d: "x = ?C + d" using Cx le_Suc_ex by blast
  have "k = d mod 64"
    using slot_unshift [of "d mod 64" "?C"] s d by (simp add: k_def mod_add_right_eq)
  then have "k \<le> d" by simp
  with tz have "(trailing_zeros (word_rotr (?C mod 64) p) + ?o) * ?q \<le> (d + ?o) * ?q" by (intro mult_right_mono) auto
  moreover have "(?C + (d + ?o)) * ?q \<le> e"
    using ex d by (metis add.assoc div_times_less_eq_dividend)
  moreover have "?C * ?q + cur mod ?q = cur" by (rule div_mult_mod_eq)
  ultimately show ?thesis unfolding wheel_timeout_def add_mult_distrib by linarith
qed

lemma wheel_timeout_pos:
  assumes "p \<noteq> 0" and "w = 0 \<longrightarrow> \<not> bit p (cur mod 64)"
  shows "0 < wheel_timeout cur p w"
proof (cases "w = 0")
  case True
  let ?r = "word_rotr (cur mod 64) p"
  have "?r \<noteq> 0" using assms(1) by (metis word_rot_rl word_rotx_0)
  then have "bit ?r (trailing_zeros ?r)" by (rule trailing_zeros_bit(2))
  moreover have "\<not> bit ?r 0" using rotr_bit [of 0 "cur mod 64" p] assms(2) True by simp
  ultimately have "trailing_zeros ?r \<noteq> 0" by metis
  then show ?thesis using True by (simp add: wheel_timeout_def)
next
  case False
  have "cur mod 64 ^ w < 64 ^ w" by simp
  then show ?thesis using False by (simp add: wheel_timeout_def trans_less_add1)
qed

locale timer_slab = slab_nodes S for S :: "'s timer_slab"
begin

lemma set_timer_list_ok:
  assumes "slab_vals S s key = Some t"
  shows "\<exists>s'. set_timer_list S s key v = Some s' \<and> slab_link S s' = slab_link S s
    \<and> slab_vals S s' = (slab_vals S s)(key \<mapsto> t\<lparr>tm_list := v\<rparr>) \<and> sl_capacity S s' = sl_capacity S s"
proof -
  from assms obtain n where n: "sl_get S s key = Some n" "sn_value n = t" by (auto simp: slab_vals_def)
  let ?s = "sl_put S s key (n\<lparr>sn_value := t\<lparr>tm_list := v\<rparr>\<rparr>)"
  have get: "sl_get S ?s = (sl_get S s)(key \<mapsto> n\<lparr>sn_value := t\<lparr>tm_list := v\<rparr>\<rparr>)" using n by simp
  have "slab_link S ?s r i = slab_link S s r i" for r i
    using n get by (cases r) (simp_all add: slab_link_def)
  moreover have "slab_vals S ?s = (slab_vals S s)(key \<mapsto> t\<lparr>tm_list := v\<rparr>)"
    by (rule ext) (simp add: slab_vals_def get)
  moreover have "set_timer_list S s key v = Some ?s"
    using n by (simp add: set_timer_list_def slab_index_def slab_assign_def)
  moreover have "sl_capacity S ?s = sl_capacity S s" using n by simp
  ultimately show ?thesis by (metis ext)
qed

lemma frame_vals:
  "nodes.frame U s s' \<Longrightarrow> slab_vals S s' = slab_vals S s \<and> sl_capacity S s' = sl_capacity S s"
  unfolding nodes.frame_def slab_value_def slab_vals_def by (metis prod.inject)

lemma frame_link: "nodes.frame U s s' \<Longrightarrow> i \<notin> U \<Longrightarrow> slab_link S s' r i = slab_link S s r i"
  by (simp add: nodes.frame_def)

lemma inv_has: "wheel_inv S tw Q T \<Longrightarrow> i \<in> set (Q q) \<Longrightarrow> slab_has S (tw_nodes tw) i"
  by (auto simp: slab_has_vals wheel_invD(3))

text \<open>A new state with one list changed keeps the invariant.\<close>

lemma inv_put:
  assumes inv: "wheel_inv S tw Q T" and q: "valid_id q"
    and rep: "represents (slab_link S s') l' ys"
    and lk: "\<And>r i. i \<notin> U \<Longrightarrow> slab_link S s' r i = slab_link S (tw_nodes tw) r i"
    and U: "\<And>q' i. q' \<noteq> q \<Longrightarrow> i \<in> set (Q q') \<Longrightarrow> i \<notin> U"
    and mem: "\<And>i. i \<in> set ys \<longleftrightarrow> i \<notin> T' \<and> (\<exists>t. slab_vals S s' i = Some t \<and> tm_list t = Some q)"
    and other: "\<And>i q'. q' \<noteq> q \<Longrightarrow> i \<in> set (Q q') \<longleftrightarrow> i \<notin> T' \<and> (\<exists>t. slab_vals S s' i = Some t \<and> tm_list t = Some q')"
    and pl: "\<And>i t. i \<notin> T' \<Longrightarrow> slab_vals S s' i = Some t \<Longrightarrow>
       \<exists>q. tm_list t = Some q \<and> placed (tw_curtime tw) q (tm_expires t)"
    and b: "b \<longleftrightarrow> ys \<noteq> []"
  shows "wheel_inv S (put_id q l' b (tw\<lparr>tw_nodes := s'\<rparr>)) (Q(q := ys)) T'"
proof -
  have shape: "tw_shape (tw\<lparr>tw_nodes := s'\<rparr>)" using wheel_invD(1) [OF inv] by simp
  have reps: "represents (slab_link S s') (list_of tw q') (Q q')" if "valid_id q'" "q' \<noteq> q" for q'
    using wheel_invD(2) [OF inv that(1)] represents_cong [of "Q q'" "slab_link S s'" "slab_link S (tw_nodes tw)" "list_of tw q'"]
      lk U that(2) by blast
  show ?thesis
    unfolding wheel_inv_def
  proof (intro conjI allI impI)
    fix w s :: nat assume "w < 4" "s < 64"
    then show "bit (tw_pending (put_id q l' b (tw\<lparr>tw_nodes := s'\<rparr>)) ! w) s \<longleftrightarrow> (Q(q := ys)) (Wheel w s) \<noteq> []"
      using put_id_pending [OF shape _ _ q] wheel_invD(5) [OF inv, of w s] b by auto
  qed (use shape q rep reps mem other pl in auto)
qed

lemma attach:
  assumes inv: "wheel_inv S tw Q T" and key: "key \<in> T" and t: "slab_vals S (tw_nodes tw) key = Some t"
    and prev: "slab_link S (tw_nodes tw) Prev key = None" and pl: "placed (tw_curtime tw) q (tm_expires t)"
  shows "\<exists>l' s1 s2. ll_push_back (slab_backend S) (list_of tw q) (tw_nodes tw) key = Some (l', s1)
    \<and> set_timer_list S s1 key (Some q) = Some s2
    \<and> wheel_inv S (put_id q l' True (tw\<lparr>tw_nodes := s2\<rparr>)) (Q(q := Q q @ [key])) (T - {key})
    \<and> slab_vals S s2 = (slab_vals S (tw_nodes tw))(key \<mapsto> t\<lparr>tm_list := Some q\<rparr>)
    \<and> sl_capacity S s2 = sl_capacity S (tw_nodes tw)
    \<and> (\<forall>r i. i \<in> T - {key} \<longrightarrow> slab_link S s2 r i = slab_link S (tw_nodes tw) r i)"
proof -
  note D = wheel_invD [OF inv]
  have valid: "valid_id q" using pl by (rule placed_valid)
  have notin: "key \<notin> set (Q q')" for q' using key D(3) by blast
  obtain l' s1 where push: "ll_push_back (slab_backend S) (list_of tw q) (tw_nodes tw) key = Some (l', s1)"
      "represents (slab_link S s1) l' (Q q @ [key])" "nodes.frame (insert key (set (Q q))) (tw_nodes tw) s1"
    using nodes.push_back_ok [OF D(2) [OF valid], of key] inv_has [OF inv] t prev notin by (auto simp: slab_has_vals)
  from frame_vals [OF push(3)] have v1: "slab_vals S s1 = slab_vals S (tw_nodes tw)" "sl_capacity S s1 = sl_capacity S (tw_nodes tw)"
    by auto
  from set_timer_list_ok [of s1 key t "Some q"] t v1
  obtain s2 where s2: "set_timer_list S s1 key (Some q) = Some s2" "slab_link S s2 = slab_link S s1"
      "slab_vals S s2 = (slab_vals S (tw_nodes tw))(key \<mapsto> t\<lparr>tm_list := Some q\<rparr>)" "sl_capacity S s2 = sl_capacity S (tw_nodes tw)"
    by auto
  have lk: "i \<notin> insert key (set (Q q)) \<Longrightarrow> slab_link S s2 r i = slab_link S (tw_nodes tw) r i" for r i
    using frame_link [OF push(3)] s2(2) by simp
  have "wheel_inv S (put_id q l' True (tw\<lparr>tw_nodes := s2\<rparr>)) (Q(q := Q q @ [key])) (T - {key})"
  proof (rule inv_put [OF inv valid, where U = "insert key (set (Q q))"])
    show "represents (slab_link S s2) l' (Q q @ [key])" using push(2) s2(2) by simp
    show "i \<notin> insert key (set (Q q))" if "q' \<noteq> q" "i \<in> set (Q q')" for q' i
      using that D(3) [of i q'] D(3) [of i q] notin by auto
    show "i \<in> set (Q q @ [key]) \<longleftrightarrow> i \<notin> T - {key} \<and> (\<exists>t. slab_vals S s2 i = Some t \<and> tm_list t = Some q)" for i
      using s2(3) D(3) [of i q] by auto
    show "i \<in> set (Q q') \<longleftrightarrow> i \<notin> T - {key} \<and> (\<exists>t. slab_vals S s2 i = Some t \<and> tm_list t = Some q')" if "q' \<noteq> q" for i q'
      using s2(3) D(3) [of i q'] notin [of q'] that by auto
    show "\<exists>q. tm_list t' = Some q \<and> placed (tw_curtime tw) q (tm_expires t')" if "i \<notin> T - {key}" "slab_vals S s2 i = Some t'" for i t'
      using s2(3) D(4) [of i t'] pl that by (cases "i = key") auto
  qed (use lk in auto)
  moreover have "slab_link S s2 r i = slab_link S (tw_nodes tw) r i" if "i \<in> T - {key}" for r i
    using lk that D(3) [of i q] by auto
  ultimately show ?thesis using push(1) s2 by blast
qed

definition same_timers :: "'s timer_wheel \<Rightarrow> 's timer_wheel \<Rightarrow> bool" where
  "same_timers tw tw' \<longleftrightarrow> tw_timers S tw' = tw_timers S tw \<and> tw_curtime tw' = tw_curtime tw
     \<and> sl_capacity S (tw_nodes tw') = sl_capacity S (tw_nodes tw)"

lemma same_timers_trans: "same_timers a b \<Longrightarrow> same_timers b c \<Longrightarrow> same_timers a c"
  by (simp add: same_timers_def)

lemma timers_retag:
  "slab_vals S s' = (slab_vals S (tw_nodes tw))(key \<mapsto> t\<lparr>tm_list := v\<rparr>) \<Longrightarrow> slab_vals S (tw_nodes tw) key = Some t
    \<Longrightarrow> tw_nodes tw' = s' \<Longrightarrow> tw_timers S tw' = tw_timers S tw"
  by (rule ext) (simp add: tw_timers_def)

lemma sched_ok:
  assumes inv: "wheel_inv S tw Q T" and key: "key \<in> T" and t: "slab_vals S (tw_nodes tw) key = Some t"
    and prev: "slab_link S (tw_nodes tw) Prev key = None"
  shows "\<exists>tw' Q'. tw_sched S tw key = Some tw' \<and> wheel_inv S tw' Q' (T - {key}) \<and> same_timers tw tw'
    \<and> (\<forall>i \<in> T - {key}. slab_vals S (tw_nodes tw') i = slab_vals S (tw_nodes tw) i)
    \<and> (\<forall>r. \<forall>i \<in> T - {key}. slab_link S (tw_nodes tw') r i = slab_link S (tw_nodes tw) r i)"
proof -
  from t obtain n where n: "sl_get S (tw_nodes tw) key = Some n" "sn_value n = t" by (auto simp: slab_vals_def)
  note shape = wheel_invD(1) [OF inv]
  let ?e = "tm_expires t" and ?cur = "tw_curtime tw"
  show ?thesis
  proof (cases "?cur < ?e")
    case True
    define d where "d = min (?e - ?cur) TIMEOUT_MAX"
    define w where "w = (fls64 d - 1) div WHEEL_BITS"
    define sl where "sl = (?e div 64 ^ w - (if w > 0 then 1 else 0)) mod 64"
    note P = sched_place [OF True d_def w_def]
    have sl: "sl < 64" by (simp add: sl_def)
    obtain l' s1 s2 where a: "ll_push_back (slab_backend S) (list_of tw (Wheel w sl)) (tw_nodes tw) key = Some (l', s1)"
        "set_timer_list S s1 key (Some (Wheel w sl)) = Some s2"
        "wheel_inv S (put_id (Wheel w sl) l' True (tw\<lparr>tw_nodes := s2\<rparr>)) (Q(Wheel w sl := Q (Wheel w sl) @ [key])) (T - {key})"
        "slab_vals S s2 = (slab_vals S (tw_nodes tw))(key \<mapsto> t\<lparr>tm_list := Some (Wheel w sl)\<rparr>)"
        "sl_capacity S s2 = sl_capacity S (tw_nodes tw)"
        "\<forall>r i. i \<in> T - {key} \<longrightarrow> slab_link S s2 r i = slab_link S (tw_nodes tw) r i"
      using attach [OF inv key t prev P(3)] unfolding sl_def by blast
    have "tw_sched S tw key = Some (put_id (Wheel w sl) l' True (tw\<lparr>tw_nodes := s2\<rparr>))"
      using P(1,2,4) True n a(1,2) sl shape
      unfolding tw_sched_def Let_def d_def [symmetric]
      by (simp add: slab_index_def w_def [symmetric, simplified] drop_bit_wheel sl_def [symmetric] put_id_def d_def [symmetric, simplified])
    moreover have "same_timers tw (put_id (Wheel w sl) l' True (tw\<lparr>tw_nodes := s2\<rparr>))"
      using a(5) timers_retag [OF a(4) t] by (simp add: same_timers_def)
    ultimately show ?thesis using a(3,4,6) by auto
  next
    case False
    then have "placed ?cur Expired ?e" by simp
    from attach [OF inv key t prev this]
    obtain l' s1 s2 where a: "ll_push_back (slab_backend S) (tw_expired tw) (tw_nodes tw) key = Some (l', s1)"
        "set_timer_list S s1 key (Some Expired) = Some s2"
        "wheel_inv S (put_id Expired l' True (tw\<lparr>tw_nodes := s2\<rparr>)) (Q(Expired := Q Expired @ [key])) (T - {key})"
        "slab_vals S s2 = (slab_vals S (tw_nodes tw))(key \<mapsto> t\<lparr>tm_list := Some Expired\<rparr>)"
        "sl_capacity S s2 = sl_capacity S (tw_nodes tw)"
        "\<forall>r i. i \<in> T - {key} \<longrightarrow> slab_link S s2 r i = slab_link S (tw_nodes tw) r i"
      by auto
    have "tw_sched S tw key = Some (put_id Expired l' True (tw\<lparr>tw_nodes := s2\<rparr>))"
      using False n a(1,2) by (simp add: tw_sched_def slab_index_def put_id_def)
    moreover have "same_timers tw (put_id Expired l' True (tw\<lparr>tw_nodes := s2\<rparr>))"
      using a(5) timers_retag [OF a(4) t] by (simp add: same_timers_def)
    ultimately show ?thesis using a(3,4,6) by auto
  qed
qed

text \<open>Changes to the timers being moved do not matter to the others.\<close>

lemma inv_moved:
  assumes inv: "wheel_inv S tw Q T"
    and "\<And>r i. i \<notin> T \<Longrightarrow> slab_link S s' r i = slab_link S (tw_nodes tw) r i"
    and "\<And>i. i \<notin> T \<Longrightarrow> slab_vals S s' i = slab_vals S (tw_nodes tw) i"
  shows "wheel_inv S (tw\<lparr>tw_nodes := s'\<rparr>) Q T"
proof -
  note D = wheel_invD [OF inv]
  have "represents (slab_link S s') (list_of tw q) (Q q)" if "valid_id q" for q
    using represents_cong [of "Q q" "slab_link S s'" "slab_link S (tw_nodes tw)"] D(2) [OF that] D(3) assms(2) by blast
  moreover have "i \<in> set (Q q) \<longleftrightarrow> i \<notin> T \<and> (\<exists>t. slab_vals S s' i = Some t \<and> tm_list t = Some q)" for i q
    using D(3) assms(3) by auto
  moreover have "\<exists>q. tm_list t = Some q \<and> placed (tw_curtime tw) q (tm_expires t)"
    if "i \<notin> T" "slab_vals S s' i = Some t" for i t
    using that D(4) [of i t] assms(3) by simp
  ultimately show ?thesis
    using D(1,5) unfolding wheel_inv_def by simp
qed

lemma take_slot_ok:
  assumes inv: "wheel_inv S tw Q (set L)" and rep: "represents (slab_link S (tw_nodes tw)) l L"
    and has: "\<forall>i \<in> set L. slab_has S (tw_nodes tw) i" and w: "w < 4" "sl < 64"
  shows "\<exists>l' s' L' Q'. ll_concat (slab_backend S) l (tw_nodes tw) (list_of tw (Wheel w sl)) = Some (l', s', ll_empty)
    \<and> wheel_inv S (put_id (Wheel w sl) ll_empty False (tw\<lparr>tw_nodes := s'\<rparr>)) Q' (set L')
    \<and> represents (slab_link S s') l' L' \<and> (\<forall>i \<in> set L'. slab_has S s' i)
    \<and> slab_vals S s' = slab_vals S (tw_nodes tw) \<and> sl_capacity S s' = sl_capacity S (tw_nodes tw)"
proof -
  let ?q = "Wheel w sl"
  note D = wheel_invD [OF inv]
  have valid: "valid_id ?q" using w by simp
  have disj: "set L \<inter> set (Q ?q) = {}" using D(3) by blast
  obtain l' s' where c: "ll_concat (slab_backend S) l (tw_nodes tw) (list_of tw ?q) = Some (l', s', ll_empty)"
      "represents (slab_link S s') l' (L @ Q ?q)" "nodes.frame (set L \<union> set (Q ?q)) (tw_nodes tw) s'"
    using nodes.concat_ok [OF rep has D(2) [OF valid] _ disj] inv_has [OF inv] by blast
  note v = frame_vals [OF c(3)]
  have "wheel_inv S (put_id ?q ll_empty False (tw\<lparr>tw_nodes := s'\<rparr>)) (Q(?q := [])) (set (L @ Q ?q))"
  proof (rule inv_put [OF inv valid, where U = "set L \<union> set (Q ?q)"])
    show "i \<notin> set L \<union> set (Q ?q)" if "q' \<noteq> ?q" "i \<in> set (Q q')" for q' i
      using that D(3) [of i q'] D(3) [of i ?q] by auto
    show "i \<in> set (Q q') \<longleftrightarrow> i \<notin> set (L @ Q ?q) \<and> (\<exists>t. slab_vals S s' i = Some t \<and> tm_list t = Some q')" if "q' \<noteq> ?q" for i q'
      using v D(3) [of i q'] D(3) [of i ?q] that by auto
    show "i \<in> set [] \<longleftrightarrow> i \<notin> set (L @ Q ?q) \<and> (\<exists>t. slab_vals S s' i = Some t \<and> tm_list t = Some ?q)" for i
      using v D(3) [of i ?q] by auto
    show "\<exists>q. tm_list t = Some q \<and> placed (tw_curtime tw) q (tm_expires t)" if "i \<notin> set (L @ Q ?q)" "slab_vals S s' i = Some t" for i t
      using that v D(4) [of i t] by auto
  qed (use frame_link [OF c(3)] in auto)
  moreover have "\<forall>i \<in> set (L @ Q ?q). slab_has S s' i"
    using has inv_has [OF inv] v by (auto simp: slab_has_vals)
  ultimately show ?thesis using c(1,2) v by blast
qed

definition moving :: "'s timer_wheel \<Rightarrow> nat llist \<Rightarrow> bool" where
  "moving tw l \<longleftrightarrow> (\<exists>Q L. wheel_inv S tw Q (set L) \<and> represents (slab_link S (tw_nodes tw)) l L
     \<and> (\<forall>i \<in> set L. slab_has S (tw_nodes tw) i))"

lemma moving_shape: "moving tw l \<Longrightarrow> tw_shape tw"
  by (auto simp: moving_def wheel_inv_def)

lemma slots_left:
  assumes "p \<noteq> (0::u64)" and "s = trailing_zeros p"
  shows "card {i. i < 64 \<and> bit (p AND NOT (slot_bit s)) i} < card {i. i < 64 \<and> bit p i}"
proof (rule psubset_card_mono)
  note tz = trailing_zeros_bit [OF assms(1)]
  have "s \<in> {i. i < 64 \<and> bit p i}" using tz(1,2) assms(2) by simp
  moreover have "s \<notin> {i. i < 64 \<and> bit (p AND NOT (slot_bit s)) i}" by (auto simp: bit_and_iff bit_not_iff)
  moreover have "{i. i < 64 \<and> bit (p AND NOT (slot_bit s)) i} \<subseteq> {i. i < 64 \<and> bit p i}" by (auto simp: bit_and_iff)
  ultimately show "{i. i < 64 \<and> bit (p AND NOT (slot_bit s)) i} \<subset> {i. i < 64 \<and> bit p i}" by blast
qed simp

lemma take_slots_ok:
  assumes "moving tw l" and "w < 4"
  shows "\<exists>tw' l'. take_slots S tw l w need = Some (tw', l') \<and> moving tw' l' \<and> same_timers tw tw'
    \<and> need AND tw_pending tw' ! w = 0 \<and> (\<forall>v. v \<noteq> w \<longrightarrow> tw_pending tw' ! v = tw_pending tw ! v)"
  using assms
proof (induction "card {i. i < 64 \<and> bit (need AND tw_pending tw ! w) i}" arbitrary: tw l rule: less_induct)
  case less
  let ?m = "need AND tw_pending tw ! w"
  note shape = moving_shape [OF less.prems(1)]
  show ?case
  proof (cases "?m = 0")
    case True
    then show ?thesis
      by (intro exI [of _ tw] exI [of _ l], subst take_slots.simps)
         (simp add: less.prems shape same_timers_def)
  next
    case False
    define sl where "sl = trailing_zeros ?m"
    have sl: "sl < 64" using trailing_zeros_bit(1) [OF False] by (simp add: sl_def)
    from less.prems obtain Q L where I: "wheel_inv S tw Q (set L)" "represents (slab_link S (tw_nodes tw)) l L"
      "\<forall>i \<in> set L. slab_has S (tw_nodes tw) i" by (auto simp: moving_def)
    obtain l1 s1 L1 Q1 where c: "ll_concat (slab_backend S) l (tw_nodes tw) (list_of tw (Wheel w sl)) = Some (l1, s1, ll_empty)"
      "wheel_inv S (put_id (Wheel w sl) ll_empty False (tw\<lparr>tw_nodes := s1\<rparr>)) Q1 (set L1)"
      "represents (slab_link S s1) l1 L1" "\<forall>i \<in> set L1. slab_has S s1 i"
      "slab_vals S s1 = slab_vals S (tw_nodes tw)" "sl_capacity S s1 = sl_capacity S (tw_nodes tw)"
      using take_slot_ok [OF I less.prems(2) sl] by blast
    define tw1 where "tw1 = put_id (Wheel w sl) ll_empty False (tw\<lparr>tw_nodes := s1\<rparr>)"
    have step: "take_slots S tw l w need = take_slots S tw1 l1 w need"
      using False c(1) sl shape less.prems(2) unfolding tw1_def put_id_def
      by (subst take_slots.simps) (simp add: sl_def [symmetric])
    have pend: "tw_pending tw1 ! w = tw_pending tw ! w AND NOT (slot_bit sl)" "\<And>v. v \<noteq> w \<Longrightarrow> tw_pending tw1 ! v = tw_pending tw ! v"
      using shape less.prems(2) by (simp_all add: tw1_def put_id_def tw_shape_def)
    have "card {i. i < 64 \<and> bit (need AND tw_pending tw1 ! w) i} < card {i. i < 64 \<and> bit ?m i}"
      using slots_left [OF False sl_def] by (simp add: pend and.assoc)
    moreover have "moving tw1 l1" using c(2-4) by (auto simp: moving_def tw1_def)
    moreover have st: "same_timers tw tw1"
      using c(5,6) unfolding same_timers_def tw1_def by (auto simp: tw_timers_def)
    ultimately obtain tw' l' where "take_slots S tw1 l1 w need = Some (tw', l')" "moving tw' l'" "same_timers tw1 tw'"
        "need AND tw_pending tw' ! w = 0" "\<forall>v. v \<noteq> w \<longrightarrow> tw_pending tw' ! v = tw_pending tw1 ! v"
      using less.hyps [of tw1 l1] less.prems(2) by blast
    then show ?thesis using step pend(2) same_timers_trans [OF st] by auto
  qed
qed

lemma take_wheels_ok:
  assumes "moving tw l" and "distinct (map fst ns)" and "\<forall>(w, p) \<in> set ns. w < 4"
  shows "\<exists>tw' l'. take_wheels S tw l ns = Some (tw', l') \<and> moving tw' l' \<and> same_timers tw tw'
    \<and> (\<forall>(w, p) \<in> set ns. p AND tw_pending tw' ! w = 0)
    \<and> (\<forall>v. v \<notin> fst ` set ns \<longrightarrow> tw_pending tw' ! v = tw_pending tw ! v)"
  using assms
proof (induction ns arbitrary: tw l)
  case Nil
  then show ?case by (simp add: same_timers_def)
next
  case (Cons a ns)
  obtain w p where a: "a = (w, p)" by force
  with Cons.prems have w: "w < 4" "w \<notin> fst ` set ns" by auto
  obtain tw1 l1 where 1: "take_slots S tw l w p = Some (tw1, l1)" "moving tw1 l1" "same_timers tw tw1"
      "p AND tw_pending tw1 ! w = 0" "\<forall>v. v \<noteq> w \<longrightarrow> tw_pending tw1 ! v = tw_pending tw ! v"
    using take_slots_ok [OF Cons.prems(1) w(1)] by blast
  obtain tw2 l2 where 2: "take_wheels S tw1 l1 ns = Some (tw2, l2)" "moving tw2 l2" "same_timers tw1 tw2"
      "\<forall>(w, p) \<in> set ns. p AND tw_pending tw2 ! w = 0" "\<forall>v. v \<notin> fst ` set ns \<longrightarrow> tw_pending tw2 ! v = tw_pending tw1 ! v"
    using Cons.IH [OF 1(2)] Cons.prems(2,3) by auto
  have "p AND tw_pending tw2 ! w = 0" using 2(5) w(2) 1(4) by simp
  moreover have "tw_pending tw2 ! v = tw_pending tw ! v" if "v \<notin> fst ` set (a # ns)" for v
    using that a 1(5) 2(5) by simp
  moreover have "take_wheels S tw l (a # ns) = Some (tw2, l2)" using a 1(1) 2(1) by simp
  ultimately show ?case
    using a 2(2,4) same_timers_trans [OF 1(3) 2(3)] by (intro exI [of _ tw2] exI [of _ l2]) simp
qed

lemma advance_inv:
  assumes inv: "wheel_inv S tw Q T" and "tw_curtime tw \<le> new"
    and "\<forall>w < 4. need_resched (tw_curtime tw) new ! w AND tw_pending tw ! w = 0"
  shows "wheel_inv S (tw\<lparr>tw_curtime := new\<rparr>) Q T"
proof -
  note D = wheel_invD [OF inv]
  have "\<exists>q. tm_list t = Some q \<and> placed new q (tm_expires t)"
    if i: "i \<notin> T" "slab_vals S (tw_nodes tw) i = Some t" for i t
  proof -
    obtain q where q: "tm_list t = Some q" "placed (tw_curtime tw) q (tm_expires t)" using D(4) [OF i] by blast
    have "placed new q (tm_expires t)"
    proof (cases q)
      case (Wheel w s)
      then have w: "w < 4" "s < 64" using q(2) by auto
      have "i \<in> set (Q q)" using D(3) i q(1) by blast
      then have "bit (tw_pending tw ! w) s" using D(5) [OF w] Wheel by auto
      moreover have "\<not> bit (need_resched (tw_curtime tw) new ! w AND tw_pending tw ! w) s" using assms(3) w(1) by simp
      ultimately have "\<not> bit (need_resched (tw_curtime tw) new ! w) s" by (simp add: bit_and_iff)
      then show ?thesis using placed_advance q(2) assms(2) Wheel by blast
    next
      case Expired
      then show ?thesis using q(2) assms(2) by simp
    qed
    then show ?thesis using q(1) by blast
  qed
  then show ?thesis using D(1,2,3,5) unfolding wheel_inv_def by simp
qed

lemma resched_all_ok:
  assumes "wheel_inv S tw Q (set L)" and "represents (slab_link S (tw_nodes tw)) l L"
    and "\<forall>i \<in> set L. slab_has S (tw_nodes tw) i"
  shows "\<exists>tw' Q'. resched_all S tw l = Some tw' \<and> wheel_inv S tw' Q' {} \<and> same_timers tw tw'"
  using assms
proof (induction L arbitrary: tw Q l)
  case Nil
  then have "ll_head l = None" by (simp add: represents_def)
  then have "resched_all S tw l = Some tw" by (subst resched_all.simps) simp
  then show ?case using Nil.prems by (auto simp: same_timers_def)
next
  case (Cons key L)
  note inv = Cons.prems(1) and rep = Cons.prems(2) and has = Cons.prems(3)
  have key: "key \<notin> set L" "ll_head l = Some key" using rep by (auto simp: represents_def)
  obtain t where t: "slab_vals S (tw_nodes tw) key = Some t" using has by (auto simp: slab_has_vals)
  obtain l1 s1 where r: "ll_remove (slab_backend S) l (tw_nodes tw) key = Some (l1, s1)"
      "represents (slab_link S s1) l1 L" "slab_link S s1 Prev key = None" "nodes.frame (set (key # L)) (tw_nodes tw) s1"
    using nodes.remove_ok [of "tw_nodes tw" l "[]" key L] rep has by auto
  note v1 = frame_vals [OF r(4)]
  obtain s2 where s2: "set_timer_list S s1 key None = Some s2" "slab_link S s2 = slab_link S s1"
      "slab_vals S s2 = (slab_vals S (tw_nodes tw))(key \<mapsto> t\<lparr>tm_list := None\<rparr>)" "sl_capacity S s2 = sl_capacity S (tw_nodes tw)"
    using set_timer_list_ok [of s1 key t None] t v1 by auto
  let ?tw = "tw\<lparr>tw_nodes := s2\<rparr>"
  have inv2: "wheel_inv S ?tw Q (set (key # L))"
    using inv_moved [OF inv, of s2] frame_link [OF r(4)] s2(2,3) by auto
  have st: "same_timers tw ?tw"
    using timers_retag [OF s2(3) t, of ?tw] s2(4) by (simp add: same_timers_def)
  obtain tw3 Q3 where sc: "tw_sched S ?tw key = Some tw3" "wheel_inv S tw3 Q3 (set (key # L) - {key})" "same_timers ?tw tw3"
      "\<forall>i \<in> set (key # L) - {key}. slab_vals S (tw_nodes tw3) i = slab_vals S s2 i"
      "\<forall>r. \<forall>i \<in> set (key # L) - {key}. slab_link S (tw_nodes tw3) r i = slab_link S s2 r i"
    using sched_ok [OF inv2, of key "t\<lparr>tm_list := None\<rparr>"] s2(2,3) r(3) by auto
  have L: "set (key # L) - {key} = set L" using key(1) by auto
  have "represents (slab_link S (tw_nodes tw3)) l1 L"
    using represents_cong [of L "slab_link S (tw_nodes tw3)" "slab_link S s1"] r(2) sc(5) s2(2) L by simp
  moreover have "\<forall>i \<in> set L. slab_has S (tw_nodes tw3) i"
    using sc(4) has s2(3) L key(1) by (auto simp: slab_has_vals)
  ultimately obtain tw' Q' where "resched_all S tw3 l1 = Some tw'" "wheel_inv S tw' Q' {}" "same_timers tw3 tw'"
    using Cons.IH [of tw3 Q3 l1] sc(2) L by auto
  moreover have "resched_all S tw l = resched_all S tw3 l1"
    using key(2) r(1) s2(1) sc(1) by (subst resched_all.simps) simp
  ultimately show ?case using same_timers_trans [OF same_timers_trans [OF st sc(3)]] by auto
qed

lemma update_ok:
  assumes inv: "wheel_inv S tw Q {}"
  shows "\<exists>tw' Q'. tw_update S tw new = Some tw' \<and> wheel_inv S tw' Q' {} \<and> tw_timers S tw' = tw_timers S tw
    \<and> tw_curtime tw' = max (tw_curtime tw) new \<and> sl_capacity S (tw_nodes tw') = sl_capacity S (tw_nodes tw)"
proof (cases "new \<le> tw_curtime tw")
  case True
  then show ?thesis using inv by (auto simp: tw_update_def)
next
  case False
  let ?need = "need_resched (tw_curtime tw) new"
  have "moving tw ll_empty"
    using inv by (auto simp: moving_def intro!: exI [of _ Q] exI [of _ "[]"])
  moreover have "distinct (map fst (enumerate 0 ?need))" by simp
  moreover have "\<forall>(w, p) \<in> set (enumerate 0 ?need). w < 4" by (auto simp: in_set_enumerate_eq)
  ultimately obtain tw1 l1 where t: "take_wheels S tw ll_empty (enumerate 0 ?need) = Some (tw1, l1)" "moving tw1 l1"
      "same_timers tw tw1" "\<forall>(w, p) \<in> set (enumerate 0 ?need). p AND tw_pending tw1 ! w = 0"
    using take_wheels_ok by blast
  have clear: "\<forall>w < 4. need_resched (tw_curtime tw1) new ! w AND tw_pending tw1 ! w = 0"
    using t(3,4) by (auto simp: in_set_enumerate_eq same_timers_def)
  obtain Q1 L where m: "wheel_inv S tw1 Q1 (set L)" "represents (slab_link S (tw_nodes tw1)) l1 L"
      "\<forall>i \<in> set L. slab_has S (tw_nodes tw1) i"
    using t(2) by (auto simp: moving_def)
  have "wheel_inv S (tw1\<lparr>tw_curtime := new\<rparr>) Q1 (set L)"
    using advance_inv [OF m(1) _ clear] t(3) False by (simp add: same_timers_def)
  then obtain tw' Q' where r: "resched_all S (tw1\<lparr>tw_curtime := new\<rparr>) l1 = Some tw'" "wheel_inv S tw' Q' {}"
      "same_timers (tw1\<lparr>tw_curtime := new\<rparr>) tw'"
    using resched_all_ok [of "tw1\<lparr>tw_curtime := new\<rparr>" Q1 L l1] m(2,3) by auto
  have "tw_timers S (tw1\<lparr>tw_curtime := new\<rparr>) = tw_timers S tw1" by (rule ext) (simp add: tw_timers_def)
  then show ?thesis
    using False t(1,3) r by (auto simp: tw_update_def same_timers_def)
qed

lemma new_ok:
  "wheel_inv S (tw_new S cap) (\<lambda>_. []) {}" "tw_timers S (tw_new S cap) = Map.empty" "tw_curtime (tw_new S cap) = 0"
  "sl_capacity S (tw_nodes (tw_new S cap)) = sl_capacity S (sl_with_capacity S cap)"
proof -
  have vals: "slab_vals S (tw_nodes (tw_new S cap)) i = None" for i by (simp add: tw_new_def slab_vals_def)
  have "list_of (tw_new S cap) q = ll_empty" if "valid_id q" for q
    using that by (cases q) (simp_all add: tw_new_def)
  moreover have "tw_shape (tw_new S cap)" by (simp add: tw_shape_def tw_new_def)
  moreover have "tw_pending (tw_new S cap) ! w = 0" if "w < 4" for w using that by (simp add: tw_new_def)
  ultimately show "wheel_inv S (tw_new S cap) (\<lambda>_. []) {}" using vals by (simp add: wheel_inv_def)
  show "tw_timers S (tw_new S cap) = Map.empty" using vals by (auto simp: tw_timers_def)
qed (simp_all add: tw_new_def)

lemma dom_timers: "dom (tw_timers S tw) = dom (sl_get S (tw_nodes tw))"
  by (auto simp: tw_timers_def slab_vals_def dom_def)

lemma add_full:
  assumes "card (dom (tw_timers S tw)) = sl_capacity S (tw_nodes tw)"
  shows "tw_add S tw e u = Some (Inl (), tw)"
  using assms by (simp add: tw_add_def len_card dom_timers)

lemma add_ok:
  assumes inv: "wheel_inv S tw Q {}" and "card (dom (tw_timers S tw)) < sl_capacity S (tw_nodes tw)"
  shows "\<exists>k tw' Q'. tw_add S tw e u = Some (Inr k, tw') \<and> wheel_inv S tw' Q' {} \<and> tw_timers S tw k = None
    \<and> tw_timers S tw' = (tw_timers S tw)(k \<mapsto> (e, u)) \<and> tw_curtime tw' = tw_curtime tw
    \<and> sl_capacity S (tw_nodes tw') = sl_capacity S (tw_nodes tw)"
proof -
  let ?t = "\<lparr>tm_expires = e, tm_list = None, tm_user_data = u\<rparr>"
  obtain k s1 where k: "sl_insert S (tw_nodes tw) (slab_node_new ?t) = (k, s1)" by force
  let ?tw = "tw\<lparr>tw_nodes := s1\<rparr>"
  note D = wheel_invD [OF inv]
  have vac: "sl_get S (tw_nodes tw) k = None" using insert_vacant [OF k] .
  have get: "sl_get S s1 = (sl_get S (tw_nodes tw))(k \<mapsto> slab_node_new ?t)" using get_insert [OF k] .
  have cap: "sl_capacity S s1 = sl_capacity S (tw_nodes tw)"
    using capacity_insert [OF k] assms(2) by (simp add: len_card dom_timers)
  have lk: "slab_link S s1 r i = slab_link S (tw_nodes tw) r i" for r i
    using get vac by (cases r) (simp_all add: slab_link_def slab_node_new_def)
  have vals: "slab_vals S s1 = (slab_vals S (tw_nodes tw))(k \<mapsto> ?t)"
    by (rule ext) (simp add: slab_vals_def get slab_node_new_def)
  have vk: "slab_vals S (tw_nodes tw) k = None" using vac by (simp add: slab_vals_def)
  have "wheel_inv S tw Q {k}"
    using D vk unfolding wheel_inv_def by auto
  from inv_moved [OF this, of s1] lk vals have "wheel_inv S ?tw Q {k}" by simp
  from sched_ok [OF this, of k ?t]
  obtain tw' Q' where s: "tw_sched S ?tw k = Some tw'" "wheel_inv S tw' Q' {}" "same_timers ?tw tw'"
    using vals lk vac by (auto simp: slab_link_def)
  have "tw_timers S ?tw = (tw_timers S tw)(k \<mapsto> (e, u))"
    by (rule ext) (simp add: tw_timers_def vals)
  moreover have "tw_timers S tw k = None" by (simp add: tw_timers_def vk)
  moreover have "tw_add S tw e u = Some (Inr k, tw')"
    using assms(2) k s(1) by (simp add: tw_add_def len_card dom_timers)
  ultimately show ?thesis using s cap by (auto simp: same_timers_def)
qed

text \<open>Taking a timer out of its list and out of the slab.\<close>

lemma detach_ok:
  assumes inv: "wheel_inv S tw Q {}" and q: "valid_id q" and Q: "set (Q q) = insert key (set ys)" "key \<notin> set ys"
    and rep: "represents (slab_link S s1) l ys" and fr: "nodes.frame (set (Q q)) (tw_nodes tw) s1"
    and b: "b \<longleftrightarrow> ys \<noteq> []"
  shows "\<exists>v s2. slab_take S s1 key = Some (v, s2) \<and> wheel_inv S (put_id q l b (tw\<lparr>tw_nodes := s2\<rparr>)) (Q(q := ys)) {}
    \<and> slab_vals S s2 = (slab_vals S (tw_nodes tw))(key := None) \<and> sl_capacity S s2 = sl_capacity S (tw_nodes tw)"
proof -
  note D = wheel_invD [OF inv] and v1 = frame_vals [OF fr]
  have "key \<in> set (Q q)" using Q by simp
  then obtain t where t: "slab_vals S (tw_nodes tw) key = Some t" "tm_list t = Some q" using D(3) by blast
  then have "slab_vals S s1 key = Some t" using v1 by simp
  then obtain n where n: "sl_get S s1 key = Some n" by (auto simp: slab_vals_def)
  let ?s = "sl_remove S s1 key"
  have get: "sl_get S ?s = (sl_get S s1)(key := None)" using n by simp
  have vals: "slab_vals S ?s = (slab_vals S (tw_nodes tw))(key := None)"
    unfolding conjunct1 [OF v1, symmetric] by (rule ext) (simp add: slab_vals_def get)
  have lk: "slab_link S ?s r i = slab_link S s1 r i" if "i \<noteq> key" for r i
    using that by (simp add: slab_link_def get)
  have "wheel_inv S (put_id q l b (tw\<lparr>tw_nodes := ?s\<rparr>)) (Q(q := ys)) {}"
  proof (rule inv_put [OF inv q, where U = "set (Q q)"])
    have "slab_link S ?s r i = slab_link S s1 r i" if "i \<in> set ys" for r i
      using that lk [of i r] Q(2) by (cases "i = key") simp_all
    with represents_cong [of ys "slab_link S ?s" "slab_link S s1" l] rep show "represents (slab_link S ?s) l ys" by blast
    show "slab_link S ?s r i = slab_link S (tw_nodes tw) r i" if "i \<notin> set (Q q)" for r i
      using that lk Q(1) frame_link [OF fr that] by auto
    show "i \<notin> set (Q q)" if "q' \<noteq> q" "i \<in> set (Q q')" for q' i using that D(3) [of i q'] D(3) [of i q] by auto
    show "i \<in> set ys \<longleftrightarrow> i \<notin> {} \<and> (\<exists>t. slab_vals S ?s i = Some t \<and> tm_list t = Some q)" for i
      using D(3) [of i q] Q vals by auto
    show "i \<in> set (Q q') \<longleftrightarrow> i \<notin> {} \<and> (\<exists>t. slab_vals S ?s i = Some t \<and> tm_list t = Some q')" if "q' \<noteq> q" for i q'
      using D(3) [of i q'] t vals that by auto
    show "\<exists>q. tm_list t = Some q \<and> placed (tw_curtime tw) q (tm_expires t)" if "i \<notin> {}" "slab_vals S ?s i = Some t" for i t
      using that D(4) [of i t] vals by (auto split: if_splits)
  qed (rule b)
  moreover have "slab_take S s1 key = Some (n, ?s)" using n by (simp add: slab_take_def)
  ultimately show ?thesis using vals v1 n by auto
qed

lemma timers_removed:
  "slab_vals S s' = (slab_vals S (tw_nodes tw))(key := None) \<Longrightarrow> tw_nodes tw' = s' \<Longrightarrow>
    tw_timers S tw' = (tw_timers S tw)(key := None)"
  by (rule ext) (simp add: tw_timers_def)

lemma take_expired_none:
  assumes inv: "wheel_inv S tw Q {}" and "Q Expired = []"
  shows "tw_take_expired S tw = Some (None, tw) \<and> (\<forall>k e u. tw_timers S tw k = Some (e, u) \<longrightarrow> tw_curtime tw < e)"
proof -
  note D = wheel_invD [OF inv]
  have "ll_pop_front (slab_backend S) (tw_expired tw) (tw_nodes tw) = Some (None, tw_expired tw, tw_nodes tw)"
    using nodes.pop_front_empty [of "tw_nodes tw" "tw_expired tw"] D(2) [of Expired] assms(2) by simp
  moreover have "tw_curtime tw < e" if k: "tw_timers S tw k = Some (e, u)" for k e u
  proof -
    from k obtain t where t: "slab_vals S (tw_nodes tw) k = Some t" "tm_expires t = e" by (auto simp: tw_timers_def)
    obtain q where q: "tm_list t = Some q" "placed (tw_curtime tw) q e" using D(4) [of k t] t by auto
    have "k \<in> set (Q q)" using D(3) t(1) q(1) by blast
    then obtain w s where w: "q = Wheel w s" using assms(2) by (cases q) auto
    then have "tw_curtime tw div 64 ^ w < e div 64 ^ w" using q(2) by simp
    then show ?thesis using div_le_mono [of e "tw_curtime tw" "64 ^ w"] by linarith
  qed
  ultimately show ?thesis by (simp add: tw_take_expired_def)
qed

lemma take_expired_some:
  assumes inv: "wheel_inv S tw Q {}" and "Q Expired = key # ys"
  shows "\<exists>e u tw' Q'. tw_take_expired S tw = Some (Some (key, u), tw') \<and> tw_timers S tw key = Some (e, u) \<and> e \<le> tw_curtime tw
    \<and> wheel_inv S tw' Q' {} \<and> tw_timers S tw' = (tw_timers S tw)(key := None) \<and> tw_curtime tw' = tw_curtime tw
    \<and> sl_capacity S (tw_nodes tw') = sl_capacity S (tw_nodes tw)"
proof -
  note D = wheel_invD [OF inv]
  have rep: "represents (slab_link S (tw_nodes tw)) (tw_expired tw) (key # ys)" using D(2) [of Expired] assms(2) by simp
  obtain t where t: "slab_vals S (tw_nodes tw) key = Some t" "tm_list t = Some Expired"
    using D(3) [of key Expired] assms(2) by auto
  obtain l s1 where p: "ll_pop_front (slab_backend S) (tw_expired tw) (tw_nodes tw) = Some (Some key, l, s1)"
      "represents (slab_link S s1) l ys" "nodes.frame (set (key # ys)) (tw_nodes tw) s1"
    using nodes.pop_front_ok [OF rep] inv_has [OF inv, of _ Expired] assms(2) by auto
  have key: "key \<notin> set ys" using rep by (simp add: represents_def)
  obtain v s2 where d: "slab_take S s1 key = Some (v, s2)"
      "wheel_inv S (put_id Expired l (ys \<noteq> []) (tw\<lparr>tw_nodes := s2\<rparr>)) (Q(Expired := ys)) {}"
      "slab_vals S s2 = (slab_vals S (tw_nodes tw))(key := None)" "sl_capacity S s2 = sl_capacity S (tw_nodes tw)"
    using detach_ok [OF inv _ _ key p(2), of Expired] p(3) assms(2) by auto
  have "slab_vals S s1 key = Some t" using t(1) frame_vals [OF p(3)] by simp
  then obtain n where n: "sl_get S s1 key = Some n" "sn_value n = t" by (auto simp: slab_vals_def)
  let ?tw = "tw\<lparr>tw_nodes := s2, tw_expired := l\<rparr>"
  have "tw_take_expired S tw = Some (Some (key, tm_user_data t), ?tw)"
    using p(1) d(1) n by (simp add: tw_take_expired_def slab_index_def)
  moreover have "tw_timers S tw key = Some (tm_expires t, tm_user_data t)" using t(1) by (simp add: tw_timers_def)
  moreover have "tm_expires t \<le> tw_curtime tw" using D(4) [of key t] t by auto
  moreover have "tw_timers S ?tw = (tw_timers S tw)(key := None)" using timers_removed [OF d(3)] by simp
  ultimately show ?thesis using d(2,4) by (auto simp: put_id_def)
qed

lemma remove_ok:
  assumes inv: "wheel_inv S tw Q {}"
  shows "\<exists>tw' Q'. tw_remove S tw key = Some tw' \<and> wheel_inv S tw' Q' {} \<and> tw_timers S tw' = (tw_timers S tw)(key := None)
    \<and> tw_curtime tw' = tw_curtime tw \<and> sl_capacity S (tw_nodes tw') = sl_capacity S (tw_nodes tw)"
proof (cases "sl_get S (tw_nodes tw) key")
  case None
  then have "(tw_timers S tw)(key := None) = tw_timers S tw" by (auto simp: tw_timers_def slab_vals_def)
  then show ?thesis using None inv by (auto simp: tw_remove_def)
next
  case (Some n)
  note D = wheel_invD [OF inv]
  have t: "slab_vals S (tw_nodes tw) key = Some (sn_value n)" using Some by (simp add: slab_vals_def)
  obtain q where q: "tm_list (sn_value n) = Some q" "placed (tw_curtime tw) q (tm_expires (sn_value n))"
    using D(4) [of key] t by auto
  have valid: "valid_id q" using q(2) by (rule placed_valid)
  have "key \<in> set (Q q)" using D(3) t q(1) by blast
  then obtain us vs where Q: "Q q = us @ key # vs" by (meson split_list)
  have rep: "represents (slab_link S (tw_nodes tw)) (list_of tw q) (us @ key # vs)" using D(2) [OF valid] Q by simp
  obtain l s1 where r: "ll_remove (slab_backend S) (list_of tw q) (tw_nodes tw) key = Some (l, s1)"
      "represents (slab_link S s1) l (us @ vs)" "nodes.frame (set (us @ key # vs)) (tw_nodes tw) s1"
    using nodes.remove_ok [OF rep] inv_has [OF inv, of _ q] Q by auto
  have key: "key \<notin> set (us @ vs)" using rep by (simp add: represents_def)
  let ?b = "us @ vs \<noteq> []"
  obtain v s2 where d: "slab_take S s1 key = Some (v, s2)"
      "wheel_inv S (put_id q l ?b (tw\<lparr>tw_nodes := s2\<rparr>)) (Q(q := us @ vs)) {}"
      "slab_vals S s2 = (slab_vals S (tw_nodes tw))(key := None)" "sl_capacity S s2 = sl_capacity S (tw_nodes tw)"
    using detach_ok [OF inv valid _ key r(2)] r(3) Q by auto
  let ?tw = "put_id q l ?b (tw\<lparr>tw_nodes := s2\<rparr>)"
  have empty: "ll_is_empty l \<longleftrightarrow> us @ vs = []" using nodes.is_empty_ok [OF r(2)] .
  have "tw_remove S tw key = Some ?tw"
  proof (cases q)
    case (Wheel w s)
    with valid have w: "w < 4" "s < 64" by auto
    have "bit (tw_pending tw ! w) s" using D(5) [OF w] Wheel Q by simp
    then have p: "tw_pending tw ! w OR slot_bit s = tw_pending tw ! w"
      by (intro word64_eqI) (auto simp: bit_or_iff)
    show ?thesis
      using Some q(1) Wheel w D(1) r(1) d(1) empty p
      by (auto simp: tw_remove_def put_id_def pending_put_def wheel_put_def tw_shape_def)
  next
    case Expired
    then show ?thesis using Some q(1) r(1) d(1) by (simp add: tw_remove_def put_id_def)
  qed
  moreover have "tw_timers S ?tw = (tw_timers S tw)(key := None)" using timers_removed [OF d(3)] by simp
  ultimately show ?thesis using d(2,4) by auto
qed

lemma timeout_ok:
  assumes inv: "wheel_inv S tw Q {}"
  shows "\<exists>r. tw_timeout tw = Some r \<and> (r = None \<longleftrightarrow> tw_timers S tw = Map.empty)
    \<and> (\<forall>x. r = Some x \<longrightarrow> (x = 0 \<longleftrightarrow> (\<exists>k e u. tw_timers S tw k = Some (e, u) \<and> e \<le> tw_curtime tw))
        \<and> (\<forall>k e u. tw_timers S tw k = Some (e, u) \<longrightarrow> x \<le> e - tw_curtime tw))"
proof -
  note D = wheel_invD [OF inv]
  let ?cur = "tw_curtime tw"
  have empty: "ll_is_empty (tw_expired tw) \<longleftrightarrow> Q Expired = []"
    using nodes.is_empty_ok D(2) [of Expired] by simp
  show ?thesis
  proof (cases "Q Expired")
    case (Cons k ys)
    then obtain t where t: "slab_vals S (tw_nodes tw) k = Some t" "tm_list t = Some Expired"
      using D(3) [of k Expired] by auto
    then have "tw_timers S tw k = Some (tm_expires t, tm_user_data t)" "tm_expires t \<le> ?cur"
      using D(4) [of k t] by (auto simp: tw_timers_def)
    moreover from this have "tw_timers S tw \<noteq> Map.empty" by auto
    ultimately show ?thesis using Cons empty by (auto simp: tw_timeout_def)
  next
    case Nil
    have live: "\<exists>w s. placed ?cur (Wheel w s) e \<and> bit (tw_pending tw ! w) s" if k: "tw_timers S tw k = Some (e, u)" for k e u
    proof -
      from k obtain t where t: "slab_vals S (tw_nodes tw) k = Some t" "tm_expires t = e" by (auto simp: tw_timers_def)
      obtain q where q: "tm_list t = Some q" "placed ?cur q e" using D(4) [of k t] t by auto
      have kq: "k \<in> set (Q q)" using D(3) t(1) q(1) by blast
      then obtain w s where w: "q = Wheel w s" using Nil by (cases q) auto
      then have "bit (tw_pending tw ! w) s" using D(5) [of w s] q(2) kq by auto
      with w q(2) show ?thesis by blast
    qed
    have len: "length (tw_pending tw) = 4" using D(1) by (simp add: tw_shape_def)
    let ?X = "wheel_timeouts tw 0"
    have r: "tw_timeout tw = Some (min_option ?X)"
      using timeout_loop_ok [OF len, of 0 4 None] empty Nil by (simp add: tw_timeout_def)
    have occ: "\<exists>k e u s. tw_timers S tw k = Some (e, u) \<and> placed ?cur (Wheel w s) e" if p: "bit (tw_pending tw ! w) s" "w < 4" for w s
    proof -
      have "s < 64" using p(1) bit_imp_le_length by fastforce
      then obtain i where "i \<in> set (Q (Wheel w s))" using D(5) [OF p(2)] p(1) by (meson list.set_sel(1))
      then obtain t where "slab_vals S (tw_nodes tw) i = Some t" "tm_list t = Some (Wheel w s)" using D(3) by blast
      with D(4) [of i t] show ?thesis by (auto simp: tw_timers_def)
    qed
    have pos: "0 < x" if "x \<in> ?X" for x
    proof -
      from that obtain w where w: "w < 4" "tw_pending tw ! w \<noteq> 0" "x = wheel_timeout ?cur (tw_pending tw ! w) w"
        by (auto simp: wheel_timeouts_def)
      have "\<not> bit (tw_pending tw ! w) (?cur mod 64)" if w0: "w = 0"
      proof
        assume b: "bit (tw_pending tw ! w) (?cur mod 64)"
        then have "Q (Wheel 0 (?cur mod 64)) \<noteq> []" using D(5) [of w "?cur mod 64"] w(1) w0 by simp
        then obtain i where "i \<in> set (Q (Wheel 0 (?cur mod 64)))" by (meson list.set_sel(1))
        then obtain t where t: "slab_vals S (tw_nodes tw) i = Some t" "tm_list t = Some (Wheel 0 (?cur mod 64))" using D(3) by blast
        then have e: "?cur < tm_expires t" "tm_expires t - ?cur < 64" "?cur mod 64 = tm_expires t mod 64"
          using D(4) [of i t] by auto
        then obtain d where "tm_expires t = ?cur + d" "0 < d" "d < 64"
          by (metis add_diff_cancel_left' less_imp_add_positive)
        with slot_unshift [of d ?cur] slot_unshift [of 0 ?cur] e(3) show False by simp
      qed
      then show ?thesis using wheel_timeout_pos w by simp
    qed
    have emp: "?X = {} \<longleftrightarrow> tw_timers S tw = Map.empty"
    proof
      assume "?X = {}"
      then have "tw_pending tw ! w = 0" if "w < 4" for w using that by (auto simp: wheel_timeouts_def)
      then show "tw_timers S tw = Map.empty"
        using live by (metis bit_0_eq bot_apply bot_bool_def not_None_eq placed.simps(2) surj_pair)
    next
      assume e: "tw_timers S tw = Map.empty"
      have "tw_pending tw ! w = 0" if "w < 4" for w
        using occ [of w] that e by (intro word64_eqI) auto
      then show "?X = {}" by (auto simp: wheel_timeouts_def)
    qed
    have le: "Min ?X \<le> e - ?cur" if k: "tw_timers S tw k = Some (e, u)" for k e u
    proof -
      obtain w s where w: "placed ?cur (Wheel w s) e" "bit (tw_pending tw ! w) s" using live [OF k] by blast
      then have "wheel_timeout ?cur (tw_pending tw ! w) w \<in> ?X" by (auto simp: wheel_timeouts_def)
      then show ?thesis using wheel_timeout_le [OF w] by (meson Min_le finite_wheel_timeouts le_trans)
    qed
    have late: "\<not> e \<le> ?cur" if "tw_timers S tw k = Some (e, u)" for k e u
      using take_expired_none [OF inv Nil] that by (meson not_le)
    show ?thesis
    proof (cases "?X = {}")
      case True
      then show ?thesis using r emp by (auto simp: min_option_def)
    next
      case False
      then have "Min ?X \<noteq> 0" using pos [OF Min_in] by simp
      then show ?thesis
        using r emp False le late by (intro exI [of _ "Some (Min ?X)"]) (auto simp only: min_option_def if_False simp_thms option.simps)
    qed
  qed
qed

end

section \<open>The contract\<close>

text \<open>
  What a client relies on: a clock and the timers that were added and neither removed nor taken.
  \<open>take_expired\<close> returns a timer that is due, and returns nothing only if none is; \<open>timeout\<close> is a
  wait that no timer misses, zero exactly when one is due.
\<close>

datatype timer_op = AddOp nat nat | RemoveOp nat | UpdateOp nat | TakeExpiredOp | TimeoutOp

datatype timer_result = Added "unit + nat" | Removed | Updated | Taken "(nat \<times> nat) option" | Timeout "nat option"

record timer_client =
  tc_now :: nat
  tc_timers :: "nat \<Rightarrow> (nat \<times> nat) option"

inductive timer_spec :: "nat \<Rightarrow> timer_client \<Rightarrow> timer_op \<Rightarrow> timer_result \<Rightarrow> timer_client \<Rightarrow> bool" for cap where
  add_full: "card (dom (tc_timers c)) = cap \<Longrightarrow> timer_spec cap c (AddOp e u) (Added (Inl ())) c"
| add: "card (dom (tc_timers c)) < cap \<Longrightarrow> tc_timers c k = None \<Longrightarrow>
    timer_spec cap c (AddOp e u) (Added (Inr k)) (c\<lparr>tc_timers := (tc_timers c)(k \<mapsto> (e, u))\<rparr>)"
| remove: "timer_spec cap c (RemoveOp k) Removed (c\<lparr>tc_timers := (tc_timers c)(k := None)\<rparr>)"
| update: "timer_spec cap c (UpdateOp t) Updated (c\<lparr>tc_now := max (tc_now c) t\<rparr>)"
| take: "tc_timers c k = Some (e, u) \<Longrightarrow> e \<le> tc_now c \<Longrightarrow>
    timer_spec cap c TakeExpiredOp (Taken (Some (k, u))) (c\<lparr>tc_timers := (tc_timers c)(k := None)\<rparr>)"
| take_none: "(\<And>k e u. tc_timers c k = Some (e, u) \<Longrightarrow> tc_now c < e) \<Longrightarrow> timer_spec cap c TakeExpiredOp (Taken None) c"
| timeout_none: "tc_timers c = Map.empty \<Longrightarrow> timer_spec cap c TimeoutOp (Timeout None) c"
| timeout: "tc_timers c \<noteq> Map.empty \<Longrightarrow>
    (x = 0 \<longleftrightarrow> (\<exists>k e u. tc_timers c k = Some (e, u) \<and> e \<le> tc_now c)) \<Longrightarrow>
    (\<And>k e u. tc_timers c k = Some (e, u) \<Longrightarrow> x \<le> e - tc_now c) \<Longrightarrow>
    timer_spec cap c TimeoutOp (Timeout (Some x)) c"

fun tw_step :: "'s timer_slab \<Rightarrow> timer_op \<Rightarrow> 's timer_wheel \<Rightarrow> (timer_result \<times> 's timer_wheel) run" where
  "tw_step S (AddOp e u) tw = do { (r, tw) \<leftarrow> tw_add S tw e u; Some (Added r, tw) }"
| "tw_step S (RemoveOp k) tw = do { tw \<leftarrow> tw_remove S tw k; Some (Removed, tw) }"
| "tw_step S (UpdateOp t) tw = do { tw \<leftarrow> tw_update S tw t; Some (Updated, tw) }"
| "tw_step S TakeExpiredOp tw = do { (r, tw) \<leftarrow> tw_take_expired S tw; Some (Taken r, tw) }"
| "tw_step S TimeoutOp tw = do { r \<leftarrow> tw_timeout tw; Some (Timeout r, tw) }"

fun tw_run :: "'s timer_slab \<Rightarrow> timer_op list \<Rightarrow> 's timer_wheel \<Rightarrow> (timer_result list \<times> 's timer_wheel) run" where
  "tw_run S [] tw = Some ([], tw)"
| "tw_run S (p # ps) tw = do {
     (r, tw) \<leftarrow> tw_step S p tw;
     (rs, tw) \<leftarrow> tw_run S ps tw;
     Some (r # rs, tw)
   }"

inductive timer_spec_run :: "nat \<Rightarrow> timer_client \<Rightarrow> timer_op list \<Rightarrow> timer_result list \<Rightarrow> timer_client \<Rightarrow> bool" for cap where
  spec_nil: "timer_spec_run cap c [] [] c"
| spec_cons: "timer_spec cap c p r c' \<Longrightarrow> timer_spec_run cap c' ps rs c'' \<Longrightarrow> timer_spec_run cap c (p # ps) (r # rs) c''"

definition client_view :: "'s timer_slab \<Rightarrow> 's timer_wheel \<Rightarrow> timer_client" where
  "client_view S tw = \<lparr>tc_now = tw_curtime tw, tc_timers = tw_timers S tw\<rparr>"

context timer_slab
begin

definition good :: "'s timer_wheel \<Rightarrow> bool" where
  "good tw \<longleftrightarrow> (\<exists>Q. wheel_inv S tw Q {}) \<and> card (dom (tw_timers S tw)) \<le> sl_capacity S (tw_nodes tw)"

lemma finite_timers: "finite (dom (tw_timers S tw))"
  by (simp add: dom_timers finite_entries)

lemma step_refines:
  assumes "good tw"
  shows "\<exists>r tw'. tw_step S p tw = Some (r, tw') \<and> good tw' \<and> sl_capacity S (tw_nodes tw') = sl_capacity S (tw_nodes tw)
    \<and> timer_spec (sl_capacity S (tw_nodes tw)) (client_view S tw) p r (client_view S tw')"
proof -
  from assms obtain Q where inv: "wheel_inv S tw Q {}" and cap: "card (dom (tw_timers S tw)) \<le> sl_capacity S (tw_nodes tw)"
    by (auto simp: good_def)
  have less: "card (dom ((tw_timers S tw)(k := None))) \<le> sl_capacity S (tw_nodes tw)" for k
    using cap card_Diff1_le [of "dom (tw_timers S tw)" k] by simp
  show ?thesis
  proof (cases p)
    case (AddOp e u)
    show ?thesis
    proof (cases "card (dom (tw_timers S tw)) = sl_capacity S (tw_nodes tw)")
      case True
      with add_full [OF True] assms AddOp show ?thesis
        by (auto intro!: timer_spec.add_full simp: client_view_def)
    next
      case False
      with cap have lt: "card (dom (tw_timers S tw)) < sl_capacity S (tw_nodes tw)" by simp
      obtain k tw' Q' where a: "tw_add S tw e u = Some (Inr k, tw')" "wheel_inv S tw' Q' {}" "tw_timers S tw k = None"
          "tw_timers S tw' = (tw_timers S tw)(k \<mapsto> (e, u))" "tw_curtime tw' = tw_curtime tw"
          "sl_capacity S (tw_nodes tw') = sl_capacity S (tw_nodes tw)"
        using add_ok [OF inv lt] by blast
      have "card (dom (tw_timers S tw')) = Suc (card (dom (tw_timers S tw)))"
        using a(3,4) finite_timers by (simp add: domIff)
      then have "good tw'" using a(2,6) lt by (auto simp: good_def)
      moreover have "timer_spec (sl_capacity S (tw_nodes tw)) (client_view S tw) p (Added (Inr k)) (client_view S tw')"
        using timer_spec.add [of "client_view S tw" "sl_capacity S (tw_nodes tw)" k e u] lt a AddOp by (simp add: client_view_def)
      ultimately show ?thesis using a(1,6) AddOp by auto
    qed
  next
    case (RemoveOp k)
    obtain tw' Q' where r: "tw_remove S tw k = Some tw'" "wheel_inv S tw' Q' {}" "tw_timers S tw' = (tw_timers S tw)(k := None)"
        "tw_curtime tw' = tw_curtime tw" "sl_capacity S (tw_nodes tw') = sl_capacity S (tw_nodes tw)"
      using remove_ok [OF inv] by blast
    then have "good tw'" using less by (auto simp: good_def)
    moreover have "timer_spec (sl_capacity S (tw_nodes tw)) (client_view S tw) p Removed (client_view S tw')"
      using timer_spec.remove [of _ "client_view S tw" k] r RemoveOp by (simp add: client_view_def)
    ultimately show ?thesis using r(1,5) RemoveOp by auto
  next
    case (UpdateOp t)
    obtain tw' Q' where r: "tw_update S tw t = Some tw'" "wheel_inv S tw' Q' {}" "tw_timers S tw' = tw_timers S tw"
        "tw_curtime tw' = max (tw_curtime tw) t" "sl_capacity S (tw_nodes tw') = sl_capacity S (tw_nodes tw)"
      using update_ok [OF inv] by blast
    then have "good tw'" using cap by (auto simp: good_def)
    moreover have "timer_spec (sl_capacity S (tw_nodes tw)) (client_view S tw) p Updated (client_view S tw')"
      using timer_spec.update [of _ "client_view S tw" t] r UpdateOp by (simp add: client_view_def)
    ultimately show ?thesis using r(1,5) UpdateOp by auto
  next
    case TakeExpiredOp
    show ?thesis
    proof (cases "Q Expired")
      case Nil
      have "timer_spec (sl_capacity S (tw_nodes tw)) (client_view S tw) p (Taken None) (client_view S tw)"
        unfolding TakeExpiredOp by (rule timer_spec.take_none) (use take_expired_none [OF inv Nil] in \<open>auto simp: client_view_def\<close>)
      then show ?thesis using take_expired_none [OF inv Nil] TakeExpiredOp assms by auto
    next
      case (Cons k ys)
      obtain e u tw' Q' where r: "tw_take_expired S tw = Some (Some (k, u), tw')" "tw_timers S tw k = Some (e, u)" "e \<le> tw_curtime tw"
          "wheel_inv S tw' Q' {}" "tw_timers S tw' = (tw_timers S tw)(k := None)" "tw_curtime tw' = tw_curtime tw"
          "sl_capacity S (tw_nodes tw') = sl_capacity S (tw_nodes tw)"
        using take_expired_some [OF inv Cons] by blast
      then have "good tw'" using less by (auto simp: good_def)
      moreover have "timer_spec (sl_capacity S (tw_nodes tw)) (client_view S tw) p (Taken (Some (k, u))) (client_view S tw')"
        using timer_spec.take [of "client_view S tw" k e u] r TakeExpiredOp by (simp add: client_view_def)
      ultimately show ?thesis using r(1,7) TakeExpiredOp by auto
    qed
  next
    case TimeoutOp
    obtain r where r: "tw_timeout tw = Some r" "r = None \<longleftrightarrow> tw_timers S tw = Map.empty"
        "\<forall>x. r = Some x \<longrightarrow> (x = 0 \<longleftrightarrow> (\<exists>k e u. tw_timers S tw k = Some (e, u) \<and> e \<le> tw_curtime tw))
          \<and> (\<forall>k e u. tw_timers S tw k = Some (e, u) \<longrightarrow> x \<le> e - tw_curtime tw)"
      using timeout_ok [OF inv] by blast
    have "timer_spec (sl_capacity S (tw_nodes tw)) (client_view S tw) p (Timeout r) (client_view S tw)"
    proof (cases r)
      case None
      then show ?thesis using r(2) TimeoutOp by (auto intro!: timer_spec.timeout_none simp: client_view_def)
    next
      case (Some x)
      show ?thesis
        unfolding TimeoutOp Some by (intro timer_spec.timeout) (use r(2,3) Some in \<open>auto simp: client_view_def\<close>)
    qed
    then show ?thesis using r(1) TimeoutOp assms by auto
  qed
qed

lemma run_refines_spec:
  assumes "good tw"
  shows "\<exists>rs tw'. tw_run S ps tw = Some (rs, tw') \<and> good tw'
    \<and> timer_spec_run (sl_capacity S (tw_nodes tw)) (client_view S tw) ps rs (client_view S tw')"
  using assms
proof (induction ps arbitrary: tw)
  case Nil
  then show ?case by (auto intro: timer_spec_run.intros)
next
  case (Cons p ps)
  obtain r tw1 where s: "tw_step S p tw = Some (r, tw1)" "good tw1" "sl_capacity S (tw_nodes tw1) = sl_capacity S (tw_nodes tw)"
      "timer_spec (sl_capacity S (tw_nodes tw)) (client_view S tw) p r (client_view S tw1)"
    using step_refines [OF Cons.prems] by blast
  obtain rs tw2 where "tw_run S ps tw1 = Some (rs, tw2)" "good tw2"
      "timer_spec_run (sl_capacity S (tw_nodes tw)) (client_view S tw1) ps rs (client_view S tw2)"
    using Cons.IH [OF s(2)] s(3) by auto
  then show ?case using s by (auto intro: timer_spec_run.spec_cons)
qed

lemma new_good: "good (tw_new S cap)"
  using new_ok [of cap] by (auto simp: good_def)

end

lemma timer_slabI: "slab_spec S \<Longrightarrow> timer_slab S"
  by (simp add: timer_slab_def slab_nodesI)

interpretation vec_timers: timer_slab vec_slab_ops
  by (rule timer_slabI) (rule vec.slab_spec_axioms)

text \<open>
  Property C1. The timer wheel implements its contract. From a new wheel, any sequence of \<open>add\<close>,
  \<open>remove\<close>, \<open>update\<close>, \<open>take_expired\<close> and \<open>timeout\<close> calls, with any times, runs without a panic and
  without looping, and every result is one the contract allows: timers are found by \<open>take_expired\<close>
  exactly when their time has come (none early, none forgotten), \<open>timeout\<close> never exceeds the time to
  the next expiry and is zero only when a timer is due, and \<open>add\<close> fails only when the slab is full.
\<close>

theorem timer_wheel_refines_spec:
  assumes "slab_spec S"
  shows "\<exists>rs tw'. tw_run S ps (tw_new S n) = Some (rs, tw')
    \<and> timer_spec_run (sl_capacity S (sl_with_capacity S n)) \<lparr>tc_now = 0, tc_timers = Map.empty\<rparr> ps rs (client_view S tw')"
proof -
  have S: "timer_slab S" using assms by (rule timer_slabI)
  have view: "client_view S (tw_new S n) = \<lparr>tc_now = 0, tc_timers = Map.empty\<rparr>"
    by (simp add: client_view_def timer_slab.new_ok [OF S])
  show ?thesis
    using timer_slab.run_refines_spec [OF S timer_slab.new_good [OF S], of ps n]
    by (auto simp: view timer_slab.new_ok [OF S])
qed

theorem timer_wheel_refines_spec_witness:
  "\<exists>rs tw'. tw_run vec_slab_ops [AddOp 100 7, TimeoutOp, UpdateOp 90, TakeExpiredOp, UpdateOp 5000, TakeExpiredOp] (tw_new vec_slab_ops 2) = Some (rs, tw')
    \<and> timer_spec_run (sl_capacity vec_slab_ops (sl_with_capacity vec_slab_ops 2 :: timer slab_node vec_slab))
        \<lparr>tc_now = 0, tc_timers = Map.empty\<rparr>
        [AddOp 100 7, TimeoutOp, UpdateOp 90, TakeExpiredOp, UpdateOp 5000, TakeExpiredOp] rs (client_view vec_slab_ops tw')"
  by (rule timer_wheel_refines_spec) (rule vec.slab_spec_axioms)

end
