(* ===== verification/Text.thy ===== *)
theory Text
  imports Prelude
begin

text \<open>
  The text primitives of the Rust standard library that the parsers and printers call: decimal
  printing (\<open>{}\<close> of an integer), \<open>str::parse\<close> into \<open>usize\<close> and \<open>isize\<close>, and UTF-8 validation and
  decoding. The lemmas are the round trips the protocol components rest on.
\<close>

section \<open>Decimal numbers\<close>

definition digit_byte :: "nat \<Rightarrow> u8" where
  "digit_byte d = of_nat (48 + d)"

fun dec_digits :: "nat \<Rightarrow> bytes" where
  "dec_digits n = (if n < 10 then [digit_byte n] else dec_digits (n div 10) @ [digit_byte (n mod 10)])"

declare dec_digits.simps [simp del]

definition dec_of_int :: "int \<Rightarrow> bytes" where
  "dec_of_int x = (if x < 0 then 45 # dec_digits (nat (- x)) else dec_digits (nat x))"

definition is_digit :: "u8 \<Rightarrow> bool" where
  "is_digit b \<longleftrightarrow> 48 \<le> unat b \<and> unat b \<le> 57"

text \<open>The digit loop of \<open>from_str_radix\<close>, with the overflow check of each step.\<close>

fun parse_digits :: "nat \<Rightarrow> nat \<Rightarrow> bytes \<Rightarrow> nat option" where
  "parse_digits limit acc [] = Some acc"
| "parse_digits limit acc (b # bs) =
     (if is_digit b then
        (let v = acc * 10 + (unat b - 48) in if v \<le> limit then parse_digits limit v bs else None)
      else None)"

definition parse_usize :: "bytes \<Rightarrow> nat option" where
  "parse_usize bs =
     (case bs of
        [] \<Rightarrow> None
      | b # rest \<Rightarrow> if b = 43 \<and> rest \<noteq> [] then parse_digits usize_max 0 rest else parse_digits usize_max 0 bs)"

definition parse_isize :: "bytes \<Rightarrow> int option" where
  "parse_isize bs =
     (case bs of
        [] \<Rightarrow> None
      | b # rest \<Rightarrow>
          if b = 45 \<and> rest \<noteq> [] then map_option (\<lambda>n. - int n) (parse_digits (2 ^ 63) 0 rest)
          else if b = 43 \<and> rest \<noteq> [] then map_option int (parse_digits (2 ^ 63 - 1) 0 rest)
          else map_option int (parse_digits (2 ^ 63 - 1) 0 bs))"

lemma unat_digit_byte [simp]: "d < 10 \<Longrightarrow> unat (digit_byte d) = 48 + d"
  unfolding digit_byte_def by (subst unat_of_nat) (simp add: take_bit_nat_eq_self)

lemma is_digit_digit_byte [simp]: "d < 10 \<Longrightarrow> is_digit (digit_byte d)"
  by (simp add: is_digit_def)

lemma is_digit_not [simp]: "\<not> is_digit 58" "\<not> is_digit 43" "\<not> is_digit 45"
  by (simp_all add: is_digit_def)

lemma dec_digits_all: "\<forall>b \<in> set (dec_digits n). is_digit b"
  by (induction n rule: dec_digits.induct) (subst dec_digits.simps, auto)

lemma dec_digits_nonempty [simp]: "dec_digits n \<noteq> []"
  by (subst dec_digits.simps) simp

lemma dec_digits_hd: "is_digit (hd (dec_digits n))"
  using dec_digits_all [of n] by simp

lemma parse_digits_append:
  "parse_digits limit acc (xs @ ys) = Option.bind (parse_digits limit acc xs) (\<lambda>v. parse_digits limit v ys)"
  by (induction limit acc xs rule: parse_digits.induct) (simp_all add: Let_def)

lemma parse_dec_digits: "n \<le> limit \<Longrightarrow> parse_digits limit 0 (dec_digits n) = Some n"
proof (induction n rule: dec_digits.induct)
  case (1 n)
  show ?case
  proof (cases "n < 10")
    case True
    then show ?thesis using 1 by (subst dec_digits.simps) simp
  next
    case False
    then have "parse_digits limit 0 (dec_digits (n div 10)) = Some (n div 10)" using 1 by simp
    then show ?thesis using False 1(2) by (subst dec_digits.simps) (simp add: parse_digits_append)
  qed
qed

lemma parse_usize_dec [simp]: "n \<le> usize_max \<Longrightarrow> parse_usize (dec_digits n) = Some n"
proof -
  assume n: "n \<le> usize_max"
  obtain b rest where b: "dec_digits n = b # rest" by (meson dec_digits_nonempty neq_Nil_conv)
  then have "is_digit b" using dec_digits_hd [of n] by simp
  then have "b \<noteq> 43" by auto
  then show ?thesis using parse_dec_digits [OF n] b by (simp add: parse_usize_def)
qed

lemma parse_isize_dec: "isize_min \<le> x \<Longrightarrow> x \<le> isize_max \<Longrightarrow> parse_isize (dec_of_int x) = Some x"
proof (cases "x < 0")
  case True
  assume "isize_min \<le> x"
  then have "nat (- x) \<le> 2 ^ 63" by (simp add: isize_min_def nat_le_iff)
  then show ?thesis using True parse_dec_digits by (simp add: dec_of_int_def parse_isize_def)
next
  case False
  assume "x \<le> isize_max"
  then have n: "nat x \<le> 2 ^ 63 - 1" by (simp add: isize_max_def nat_le_iff)
  obtain b rest where b: "dec_digits (nat x) = b # rest" by (meson dec_digits_nonempty neq_Nil_conv)
  then have "is_digit b" using dec_digits_hd [of "nat x"] by simp
  then have "b \<noteq> 43" "b \<noteq> 45" by auto
  then show ?thesis using parse_dec_digits [OF n] b False by (simp add: dec_of_int_def parse_isize_def)
qed

lemma parse_digits_le: "parse_digits limit acc bs = Some n \<Longrightarrow> acc \<le> limit \<Longrightarrow> n \<le> limit"
  by (induction limit acc bs rule: parse_digits.induct) (auto simp: Let_def split: if_splits)

lemma parse_usize_le: "parse_usize bs = Some n \<Longrightarrow> n \<le> usize_max"
  by (auto simp: parse_usize_def dest: parse_digits_le simp del: parse_digits.simps split: list.splits if_splits)

section \<open>UTF-8\<close>

definition is_cont :: "nat \<Rightarrow> bool" where
  "is_cont b \<longleftrightarrow> 128 \<le> b \<and> b \<le> 191"

text \<open>The allowed range of the second byte, by the first byte (the Unicode table of well-formed sequences).\<close>

definition second_ok :: "nat \<Rightarrow> nat \<Rightarrow> bool" where
  "second_ok b c \<longleftrightarrow>
     (if b = 224 then 160 \<le> c \<and> c \<le> 191
      else if b = 237 then 128 \<le> c \<and> c \<le> 159
      else if b = 240 then 144 \<le> c \<and> c \<le> 191
      else if b = 244 then 128 \<le> c \<and> c \<le> 143
      else is_cont c)"

fun utf8_decode_nat :: "nat list \<Rightarrow> nat list option" where
  "utf8_decode_nat [] = Some []"
| "utf8_decode_nat (b # bs) =
     (if b < 128 then map_option ((#) b) (utf8_decode_nat bs)
      else if 194 \<le> b \<and> b \<le> 223 then
        (case bs of
           c # r \<Rightarrow> if is_cont c then map_option ((#) ((b - 192) * 64 + (c - 128))) (utf8_decode_nat r) else None
         | _ \<Rightarrow> None)
      else if 224 \<le> b \<and> b \<le> 239 then
        (case bs of
           c # d # r \<Rightarrow> if second_ok b c \<and> is_cont d
              then map_option ((#) ((b - 224) * 4096 + (c - 128) * 64 + (d - 128))) (utf8_decode_nat r) else None
         | _ \<Rightarrow> None)
      else if 240 \<le> b \<and> b \<le> 244 then
        (case bs of
           c # d # e # r \<Rightarrow> if second_ok b c \<and> is_cont d \<and> is_cont e
              then map_option ((#) ((b - 240) * 262144 + (c - 128) * 4096 + (d - 128) * 64 + (e - 128))) (utf8_decode_nat r) else None
         | _ \<Rightarrow> None)
      else None)"

definition utf8_decode :: "bytes \<Rightarrow> nat list option" where
  "utf8_decode bs = utf8_decode_nat (map unat bs)"

definition utf8_valid :: "bytes \<Rightarrow> bool" where
  "utf8_valid bs \<longleftrightarrow> utf8_decode bs \<noteq> None"

definition utf8_encode_char :: "nat \<Rightarrow> bytes" where
  "utf8_encode_char c =
     map of_nat
       (if c < 128 then [c]
        else if c < 2048 then [192 + c div 64, 128 + c mod 64]
        else if c < 65536 then [224 + c div 4096, 128 + c div 64 mod 64, 128 + c mod 64]
        else [240 + c div 262144, 128 + c div 4096 mod 64, 128 + c div 64 mod 64, 128 + c mod 64])"

lemma utf8_ascii: "\<forall>b \<in> set bs. unat b < 128 \<Longrightarrow> utf8_decode bs = Some (map unat bs)"
  unfolding utf8_decode_def by (induction bs) auto

lemma utf8_valid_ascii: "\<forall>b \<in> set bs. unat b < 128 \<Longrightarrow> utf8_valid bs"
  by (simp add: utf8_valid_def utf8_ascii)

lemma utf8_valid_dec_digits [simp]: "utf8_valid (dec_digits n)"
  by (rule utf8_valid_ascii) (use dec_digits_all [of n] in \<open>fastforce simp: is_digit_def\<close>)

lemma utf8_valid_digits: "\<forall>b \<in> set bs. is_digit b \<Longrightarrow> utf8_valid bs"
  by (rule utf8_valid_ascii) (fastforce simp: is_digit_def)

lemma utf8_valid_dec_of_int [simp]: "utf8_valid (dec_of_int x)"
proof (cases "x < 0")
  case True
  then show ?thesis
    using dec_digits_all [of "nat (- x)"]
    by (intro utf8_valid_ascii) (fastforce simp: dec_of_int_def is_digit_def)
qed (simp add: dec_of_int_def)

end
