(* ===== verification/Tnetstring.thy ===== *)
theory Tnetstring
  imports Text
begin

text \<open>
  Parsing of tnetstrings, \<open>src/core/tnetstring.rs\<close>: \<open>parse_frame\<close>, the typed parsers and the two
  iterators. A size field comes from the outside, so the additions on it are 64-bit additions that
  panic or wrap as the build profile says (the flag \<open>oc\<close>). \<open>tnet\<close> and \<open>tnet_encode\<close> are the format's
  abstract values and their bytes; the theorems relate the parsers to them and say exactly which
  inputs make \<open>parse_frame\<close> panic.
\<close>

section \<open>Frames\<close>

datatype frame_type = FNull | FBool | FInt | FFloat | FString | FArray | FMap

datatype parse_error = PUnexpectedEof | PInvalidData | WrongType frame_type frame_type | InvalidKey

record frame =
  fr_type :: frame_type
  fr_data :: bytes

definition frame_type_of :: "u8 \<Rightarrow> frame_type option" where
  "frame_type_of b =
     (if b = 126 then Some FNull
      else if b = 33 then Some FBool
      else if b = 35 then Some FInt
      else if b = 94 then Some FFloat
      else if b = 44 then Some FString
      else if b = 93 then Some FArray
      else if b = 125 then Some FMap
      else None)"

text \<open>The scan for the colon.\<close>

fun find_colon :: "nat \<Rightarrow> bytes \<Rightarrow> parse_error + nat" where
  "find_colon i [] = Inl PUnexpectedEof"
| "find_colon i (c # cs) =
     (if c = 58 then Inr i else if \<not> is_digit c then Inl PInvalidData else find_colon (Suc i) cs)"

type_synonym 'a parsed = "(parse_error + 'a) run"

definition parse_frame :: "bool \<Rightarrow> bytes \<Rightarrow> (frame \<times> nat) parsed" where
  "parse_frame oc src =
     (case find_colon 0 src of
        Inl e \<Rightarrow> Some (Inl e)
      | Inr size_end \<Rightarrow> do {
          digits \<leftarrow> subslice src 0 size_end;
          if \<not> utf8_valid digits then Some (Inl PInvalidData)
          else
            case parse_usize digits of
              None \<Rightarrow> Some (Inl PInvalidData)
            | Some sz \<Rightarrow> do {
                a \<leftarrow> usize_add oc size_end sz;
                need \<leftarrow> usize_add oc a 2;
                if need > length src then Some (Inl PUnexpectedEof)
                else do {
                  start \<leftarrow> usize_add oc size_end 1;
                  stop \<leftarrow> usize_add oc start sz;
                  type_byte \<leftarrow> index_at src stop;
                  case frame_type_of type_byte of
                    None \<Rightarrow> Some (Inl PInvalidData)
                  | Some ftype \<Rightarrow> do {
                      data \<leftarrow> subslice src start stop;
                      Some (Inr (\<lparr>fr_type = ftype, fr_data = data\<rparr>, need))
                    }
                }
              }
        })"

section \<open>Typed parsers\<close>

text \<open>The \<open>?\<close> operator: an error of \<open>parse_frame\<close> is returned as it is.\<close>

definition and_then :: "'a parsed \<Rightarrow> ('a \<Rightarrow> 'b parsed) \<Rightarrow> 'b parsed" where
  "and_then r f = (case r of None \<Rightarrow> None | Some (Inl e) \<Rightarrow> Some (Inl e) | Some (Inr x) \<Rightarrow> f x)"

definition parse_null :: "bool \<Rightarrow> bytes \<Rightarrow> unit parsed" where
  "parse_null oc src = and_then (parse_frame oc src) (\<lambda>(f, _).
     if fr_type f = FNull then Some (Inr ()) else Some (Inl (WrongType (fr_type f) FNull)))"

definition parse_bool :: "bool \<Rightarrow> bytes \<Rightarrow> bool parsed" where
  "parse_bool oc src = and_then (parse_frame oc src) (\<lambda>(f, _).
     if fr_type f \<noteq> FBool then Some (Inl (WrongType (fr_type f) FBool))
     else if fr_data f = str ''true'' then Some (Inr True)
     else if fr_data f = str ''false'' then Some (Inr False)
     else Some (Inl PInvalidData))"

definition parse_int :: "bool \<Rightarrow> bytes \<Rightarrow> int parsed" where
  "parse_int oc src = and_then (parse_frame oc src) (\<lambda>(f, _).
     if fr_type f \<noteq> FInt then Some (Inl (WrongType (fr_type f) FInt))
     else if \<not> utf8_valid (fr_data f) then Some (Inl PInvalidData)
     else case parse_isize (fr_data f) of Some x \<Rightarrow> Some (Inr x) | None \<Rightarrow> Some (Inl PInvalidData))"

definition parse_string :: "bool \<Rightarrow> bytes \<Rightarrow> bytes parsed" where
  "parse_string oc src = and_then (parse_frame oc src) (\<lambda>(f, _).
     if fr_type f = FString then Some (Inr (fr_data f)) else Some (Inl (WrongType (fr_type f) FString)))"

section \<open>Iterators\<close>

record iter =
  it_src :: bytes
  it_pos :: nat

definition iter_new :: "bytes \<Rightarrow> iter" where
  "iter_new src = \<lparr>it_src = src, it_pos = 0\<rparr>"

definition iter_end :: "iter \<Rightarrow> iter" where
  "iter_end it = it\<lparr>it_pos := length (it_src it)\<rparr>"

record seq_item =
  si_type :: frame_type
  si_data :: bytes

definition seq_next :: "bool \<Rightarrow> iter \<Rightarrow> ((parse_error + seq_item) option \<times> iter) run" where
  "seq_next oc it =
     (if it_pos it \<ge> length (it_src it) then Some (None, it)
      else do {
        rest \<leftarrow> subslice (it_src it) (it_pos it) (length (it_src it));
        r \<leftarrow> parse_frame oc rest;
        case r of
          Inr (f, e) \<Rightarrow> do {
            next_pos \<leftarrow> usize_add oc (it_pos it) e;
            idata \<leftarrow> subslice (it_src it) (it_pos it) next_pos;
            Some (Some (Inr \<lparr>si_type = fr_type f, si_data = idata\<rparr>), it\<lparr>it_pos := next_pos\<rparr>)
          }
        | Inl e \<Rightarrow> Some (Some (Inl e), iter_end it)
      })"

record map_item =
  mi_key :: bytes
  mi_type :: frame_type
  mi_data :: bytes

definition map_next :: "bool \<Rightarrow> iter \<Rightarrow> ((parse_error + map_item) option \<times> iter) run" where
  "map_next oc it =
     (if it_pos it \<ge> length (it_src it) then Some (None, it)
      else do {
        rest \<leftarrow> subslice (it_src it) (it_pos it) (length (it_src it));
        r \<leftarrow> parse_frame oc rest;
        case r of
          Inl e \<Rightarrow> Some (Some (Inl e), iter_end it)
        | Inr (kframe, kend) \<Rightarrow>
            if fr_type kframe \<noteq> FString then Some (Some (Inl InvalidKey), iter_end it)
            else if \<not> utf8_valid (fr_data kframe) then Some (Some (Inl InvalidKey), iter_end it)
            else do {
              vpos \<leftarrow> usize_add oc (it_pos it) kend;
              vrest \<leftarrow> subslice (it_src it) vpos (length (it_src it));
              v \<leftarrow> parse_frame oc vrest;
              case v of
                Inl e \<Rightarrow> Some (Some (Inl e), iter_end it)
              | Inr (vframe, vend) \<Rightarrow> do {
                  next_pos \<leftarrow> usize_add oc vpos vend;
                  vdata \<leftarrow> subslice (it_src it) vpos next_pos;
                  Some (Some (Inr \<lparr>mi_key = fr_data kframe, mi_type = fr_type vframe, mi_data = vdata\<rparr>),
                        it\<lparr>it_pos := next_pos\<rparr>)
                }
            }
      })"

definition parse_array :: "bool \<Rightarrow> bytes \<Rightarrow> iter parsed" where
  "parse_array oc src = and_then (parse_frame oc src) (\<lambda>(f, _).
     if fr_type f = FArray then Some (Inr (iter_new (fr_data f))) else Some (Inl (WrongType (fr_type f) FArray)))"

definition parse_map :: "bool \<Rightarrow> bytes \<Rightarrow> iter parsed" where
  "parse_map oc src = and_then (parse_frame oc src) (\<lambda>(f, _).
     if fr_type f = FMap then Some (Inr (iter_new (fr_data f))) else Some (Inl (WrongType (fr_type f) FMap)))"

text \<open>All items of an iterator, as a \<open>for\<close> loop sees them.\<close>

partial_function (option) collect_items ::
  "(iter \<Rightarrow> ((parse_error + 'i) option \<times> iter) run) \<Rightarrow> iter \<Rightarrow> (parse_error + 'i) list option" where
  "collect_items nx it = do {
     (item, it) \<leftarrow> nx it;
     case item of
       None \<Rightarrow> Some []
     | Some i \<Rightarrow> do { rest \<leftarrow> collect_items nx it; Some (i # rest) }
   }"

section \<open>Values and their encoding\<close>

text \<open>The text of a float is a parameter: its digits come from the formatting code of the standard library.\<close>

datatype 'f tnet =
    TNull
  | TBool bool
  | TInt int
  | TFloat 'f
  | TString bytes
  | TArray "'f tnet list"
  | TMap "(bytes \<times> 'f tnet) list"

fun tnet_type :: "'f tnet \<Rightarrow> frame_type" where
  "tnet_type TNull = FNull"
| "tnet_type (TBool b) = FBool"
| "tnet_type (TInt x) = FInt"
| "tnet_type (TFloat x) = FFloat"
| "tnet_type (TString s) = FString"
| "tnet_type (TArray vs) = FArray"
| "tnet_type (TMap kvs) = FMap"

fun type_byte :: "frame_type \<Rightarrow> u8" where
  "type_byte FNull = 126"
| "type_byte FBool = 33"
| "type_byte FInt = 35"
| "type_byte FFloat = 94"
| "type_byte FString = 44"
| "type_byte FArray = 93"
| "type_byte FMap = 125"

definition bool_bytes :: "bool \<Rightarrow> bytes" where
  "bool_bytes b = (if b then str ''true'' else str ''false'')"

definition frame_bytes :: "bytes \<Rightarrow> frame_type \<Rightarrow> bytes" where
  "frame_bytes data ftype = dec_digits (length data) @ [58] @ data @ [type_byte ftype]"

fun payload :: "('f \<Rightarrow> bytes) \<Rightarrow> 'f tnet \<Rightarrow> bytes" where
  "payload fmt TNull = []"
| "payload fmt (TBool b) = bool_bytes b"
| "payload fmt (TInt x) = dec_of_int x"
| "payload fmt (TFloat x) = fmt x"
| "payload fmt (TString s) = s"
| "payload fmt (TArray vs) = concat (map (\<lambda>v. frame_bytes (payload fmt v) (tnet_type v)) vs)"
| "payload fmt (TMap kvs) =
     concat (map (\<lambda>(k, v). frame_bytes k FString @ frame_bytes (payload fmt v) (tnet_type v)) kvs)"

definition tnet_encode :: "('f \<Rightarrow> bytes) \<Rightarrow> 'f tnet \<Rightarrow> bytes" where
  "tnet_encode fmt v = frame_bytes (payload fmt v) (tnet_type v)"

section \<open>What parse\_frame returns\<close>

lemma find_colon_digits: "\<forall>b \<in> set ds. is_digit b \<Longrightarrow> find_colon i (ds @ 58 # rest) = Inr (i + length ds)"
proof (induction ds arbitrary: i)
  case (Cons d ds)
  then show ?case by auto
qed simp

lemma find_colon_InrD:
  "find_colon i src = Inr k \<Longrightarrow> \<exists>ds rest. src = ds @ 58 # rest \<and> k = i + length ds \<and> (\<forall>b \<in> set ds. is_digit b)"
proof (induction i src rule: find_colon.induct)
  case (2 i c cs)
  show ?case
  proof (cases "c = 58")
    case True
    then show ?thesis using 2(2) by (intro exI [of _ "[]"] exI [of _ cs]) simp
  next
    case False
    with 2(2) have c: "is_digit c" "find_colon (Suc i) cs = Inr k" by (auto split: if_splits)
    then obtain ds rest where "cs = ds @ 58 # rest" "k = Suc i + length ds" "\<forall>b \<in> set ds. is_digit b"
      using 2(1) False by blast
    then show ?thesis using c(1) by (intro exI [of _ "c # ds"] exI [of _ rest]) simp
  qed
qed simp

text \<open>The result for an input whose size field is followed by a colon.\<close>

lemma parse_frame_sized:
  assumes "\<forall>b \<in> set ds. is_digit b"
  shows "parse_frame oc (ds @ 58 # rest) =
    (case parse_usize ds of
       None \<Rightarrow> Some (Inl PInvalidData)
     | Some sz \<Rightarrow> do {
         a \<leftarrow> usize_add oc (length ds) sz;
         need \<leftarrow> usize_add oc a 2;
         if need > length (ds @ 58 # rest) then Some (Inl PUnexpectedEof)
         else do {
           start \<leftarrow> usize_add oc (length ds) 1;
           stop \<leftarrow> usize_add oc start sz;
           type_byte \<leftarrow> index_at (ds @ 58 # rest) stop;
           case frame_type_of type_byte of
             None \<Rightarrow> Some (Inl PInvalidData)
           | Some ftype \<Rightarrow> do {
               data \<leftarrow> subslice (ds @ 58 # rest) start stop;
               Some (Inr (\<lparr>fr_type = ftype, fr_data = data\<rparr>, need))
             }
         }
       })"
  using find_colon_digits [OF assms, of 0 rest] utf8_valid_digits [OF assms]
  by (simp add: parse_frame_def)

lemma parse_frame_in_range:
  assumes ds: "\<forall>b \<in> set ds. is_digit b" and sz: "parse_usize ds = Some sz" and range: "length ds + sz + 2 \<le> usize_max"
  shows "parse_frame oc (ds @ 58 # rest) =
    Some (if length rest \<le> sz then Inl PUnexpectedEof
          else case frame_type_of (rest ! sz) of
            None \<Rightarrow> Inl PInvalidData
          | Some ftype \<Rightarrow> Inr (\<lparr>fr_type = ftype, fr_data = take sz rest\<rparr>, length ds + sz + 2))"
proof (cases "length rest \<le> sz")
  case True
  then show ?thesis using assms by (simp add: parse_frame_sized)
next
  case False
  have adds: "usize_add oc (length ds) sz = Some (length ds + sz)" "usize_add oc (length ds + sz) 2 = Some (length ds + sz + 2)"
    "usize_add oc (length ds) 1 = Some (length ds + 1)" "usize_add oc (length ds + 1) sz = Some (length ds + 1 + sz)"
    using range by simp_all
  have "index_at (ds @ 58 # rest) (length ds + 1 + sz) = Some (rest ! sz)"
    using False by (simp add: nth_append)
  moreover have "subslice (ds @ 58 # rest) (length ds + 1) (length ds + 1 + sz) = Some (take sz rest)"
    using False by simp
  ultimately show ?thesis
    using False sz adds by (simp add: parse_frame_sized [OF ds] split: option.split)
qed

lemma digit_no_type: "is_digit b \<or> b = 58 \<Longrightarrow> frame_type_of b = None"
proof -
  assume "is_digit b \<or> b = 58"
  then have "b \<noteq> 126" "b \<noteq> 33" "b \<noteq> 35" "b \<noteq> 94" "b \<noteq> 44" "b \<noteq> 93" "b \<noteq> 125"
    by (auto simp: is_digit_def)
  then show ?thesis by (simp add: frame_type_of_def)
qed

lemma usize_add_checked: "usize_max < a + b \<Longrightarrow> usize_add True a b = None"
  by (simp add: usize_add_def)

lemma parse_frame_overflow:
  assumes ds: "\<forall>b \<in> set ds. is_digit b" and sz: "parse_usize ds = Some sz" and over: "usize_max < length ds + sz + 2"
    and len: "length (ds @ 58 # rest) < 2 ^ 63"
  shows "parse_frame oc (ds @ 58 # rest) =
    (if oc \<or> length ds + sz + 2 = 2 ^ 64 then panic else Some (Inl PInvalidData))"
proof (cases oc)
  case True
  then show ?thesis
    using over sz
    by (cases "length ds + sz \<le> usize_max") (simp_all add: parse_frame_sized [OF ds] usize_add_def)
next
  case False
  have szle: "sz \<le> usize_max" using parse_usize_le [OF sz] .
  define k where "k = length ds + sz + 2 - 2 ^ 64"
  have k: "length ds + sz + 2 = 2 ^ 64 + k" "k \<le> length ds + 1"
    using over szle by (auto simp: k_def usize_max_def)
  have wrap: "usize_add False a b = Some ((a + b) mod 2 ^ 64)" for a b
    by (auto simp: usize_add_def usize_max_def)
  have need: "((length ds + sz) mod 2 ^ 64 + 2) mod 2 ^ 64 = k"
    using k len by (simp only: mod_add_left_eq) simp
  have start: "(length ds + 1) mod 2 ^ 64 = length ds + 1" using len by simp
  have stop: "(length ds + 1 + sz) mod 2 ^ 64 = (if k = 0 then 2 ^ 64 - 1 else k - 1)"
  proof (cases "k = 0")
    case True
    then have "length ds + 1 + sz = 2 ^ 64 - 1" using k by simp
    then show ?thesis using True by simp
  next
    case False
    then have "length ds + 1 + sz = 2 ^ 64 + (k - 1)" using k by simp
    then have "(length ds + 1 + sz) mod 2 ^ 64 = (k - 1) mod 2 ^ 64" by simp
    also have "\<dots> = k - 1" using k len by simp
    finally show ?thesis using False by simp
  qed
  have "\<not> length (ds @ 58 # rest) < k" using k by simp
  then have r: "parse_frame False (ds @ 58 # rest) = do {
      type_byte \<leftarrow> index_at (ds @ 58 # rest) (if k = 0 then 2 ^ 64 - 1 else k - 1);
      case frame_type_of type_byte of
        None \<Rightarrow> Some (Inl PInvalidData)
      | Some ftype \<Rightarrow> do {
          data \<leftarrow> subslice (ds @ 58 # rest) (length ds + 1) (if k = 0 then 2 ^ 64 - 1 else k - 1);
          Some (Inr (\<lparr>fr_type = ftype, fr_data = data\<rparr>, k))
        } }"
    unfolding parse_frame_sized [OF ds] sz wrap bind.bind_lunit option.case need start stop by simp
  show ?thesis
  proof (cases "k = 0")
    case True
    then show ?thesis using r len False k by (simp add: index_at_def)
  next
    case kpos: False
    have "(ds @ 58 # rest) ! (k - 1) \<in> set ds \<union> {58}"
      using kpos k(2) by (auto simp: nth_append nth_Cons' split: if_splits)
    then have "frame_type_of ((ds @ 58 # rest) ! (k - 1)) = None" using ds digit_no_type by blast
    moreover have "index_at (ds @ 58 # rest) (k - 1) = Some ((ds @ 58 # rest) ! (k - 1))" using k(2) kpos by (intro index_at_eq) simp
    ultimately show ?thesis using r kpos False k by simp
  qed
qed

text \<open>The inputs whose size makes \<open>parse_frame\<close> panic; without overflow checks these are not all that overflow.\<close>

definition size_panics :: "bool \<Rightarrow> bytes \<Rightarrow> bool" where
  "size_panics oc src \<longleftrightarrow>
     (case find_colon 0 src of
        Inl _ \<Rightarrow> False
      | Inr k \<Rightarrow> (case parse_usize (take k src) of
                   None \<Rightarrow> False
                 | Some sz \<Rightarrow> if oc then usize_max < k + sz + 2 else k + sz + 2 = 2 ^ 64))"

lemma parse_frame_panic_iff:
  assumes "length src < 2 ^ 63"
  shows "parse_frame oc src = panic \<longleftrightarrow> size_panics oc src"
proof (cases "find_colon 0 src")
  case (Inl e)
  then show ?thesis by (simp add: parse_frame_def size_panics_def)
next
  case (Inr k)
  then obtain ds rest where ds: "src = ds @ 58 # rest" "k = length ds" "\<forall>b \<in> set ds. is_digit b"
    using find_colon_InrD by force
  show ?thesis
  proof (cases "parse_usize ds")
    case None
    then show ?thesis using Inr ds by (simp add: parse_frame_sized size_panics_def)
  next
    case (Some sz)
    show ?thesis
    proof (cases "length ds + sz + 2 \<le> usize_max")
      case True
      then have "length ds + sz + 2 \<noteq> 2 ^ 64" by (auto simp: usize_max_def)
      then show ?thesis
        using True Inr ds(1,2) Some parse_frame_in_range [OF ds(3) Some True] by (auto simp: size_panics_def)
    next
      case False
      then show ?thesis
        using Inr ds(1,2) Some parse_frame_overflow [OF ds(3) Some] assms by (auto simp: size_panics_def)
    qed
  qed
qed

section \<open>Round trips\<close>

lemma frame_type_of_type_byte [simp]: "frame_type_of (type_byte t) = Some t"
  by (cases t) (simp_all add: frame_type_of_def)

lemma frame_type_of_SomeD: "frame_type_of b = Some t \<Longrightarrow> b = type_byte t"
  by (auto simp: frame_type_of_def split: if_splits)

lemma length_dec_digits_le: "length (dec_digits n) \<le> n + 1"
proof (induction n rule: dec_digits.induct)
  case (1 n)
  show ?case
  proof (cases "n < 10")
    case False
    then have "length (dec_digits (n div 10)) \<le> n div 10 + 1" using 1 by simp
    then show ?thesis using False by (subst dec_digits.simps) simp
  qed (subst dec_digits.simps, simp)
qed

lemma length_data_frame: "length data < length (frame_bytes data t)"
  by (simp add: frame_bytes_def)

lemma parse_frame_bytes:
  assumes "length (frame_bytes data t @ rest) < 2 ^ 63"
  shows "parse_frame oc (frame_bytes data t @ rest) = Some (Inr (\<lparr>fr_type = t, fr_data = data\<rparr>, length (frame_bytes data t)))"
proof -
  let ?ds = "dec_digits (length data)"
  have len: "length data \<le> usize_max" "length ?ds + length data + 2 \<le> usize_max"
    using assms by (simp_all add: frame_bytes_def usize_max_def)
  have "frame_bytes data t @ rest = ?ds @ 58 # (data @ type_byte t # rest)" by (simp add: frame_bytes_def)
  then show ?thesis
    using parse_frame_in_range [OF dec_digits_all parse_usize_dec [OF len(1)] len(2), of oc "data @ type_byte t # rest"]
    by (simp add: nth_append frame_bytes_def)
qed

lemma parse_frame_InrD:
  assumes "parse_frame oc src = Some (Inr (f, e))" and "length src < 2 ^ 63"
  shows "\<exists>ds rest. src = ds @ 58 # fr_data f @ type_byte (fr_type f) # rest \<and> (\<forall>b \<in> set ds. is_digit b)
    \<and> parse_usize ds = Some (length (fr_data f)) \<and> e = length ds + length (fr_data f) + 2"
proof -
  obtain k where "find_colon 0 src = Inr k" using assms(1) by (cases "find_colon 0 src") (auto simp: parse_frame_def)
  then obtain ds rest where ds: "src = ds @ 58 # rest" "\<forall>b \<in> set ds. is_digit b"
    using find_colon_InrD by blast
  obtain sz where sz: "parse_usize ds = Some sz"
    using assms(1) ds by (cases "parse_usize ds") (auto simp: parse_frame_sized)
  have range: "length ds + sz + 2 \<le> usize_max"
    using parse_frame_overflow [OF ds(2) sz, of rest oc] assms ds(1) by (force split: if_splits)
  have f: "sz < length rest" "frame_type_of (rest ! sz) = Some (fr_type f)" "fr_data f = take sz rest" "e = length ds + sz + 2"
    using assms(1) parse_frame_in_range [OF ds(2) sz range, of oc rest] ds(1) by (auto split: if_splits option.splits)
  have "rest = take sz rest @ rest ! sz # drop (Suc sz) rest" using f(1) by (simp add: id_take_nth_drop)
  then have "src = ds @ 58 # fr_data f @ type_byte (fr_type f) # drop (Suc sz) rest"
    using ds(1) f(3) frame_type_of_SomeD [OF f(2)] by simp
  then show ?thesis using ds(2) sz f by (intro exI [of _ ds] exI [of _ "drop (Suc sz) rest"]) simp
qed

text \<open>A frame that was accepted once is accepted again when cut out of its surroundings.\<close>

lemma parse_frame_reparse:
  assumes "parse_frame oc src = Some (Inr (f, e))" and "length src < 2 ^ 63"
  shows "parse_frame oc (take e src) = Some (Inr (f, e)) \<and> e \<le> length src \<and> 0 < e"
proof -
  obtain ds rest where p: "src = ds @ 58 # fr_data f @ type_byte (fr_type f) # rest" "\<forall>b \<in> set ds. is_digit b"
      "parse_usize ds = Some (length (fr_data f))" "e = length ds + length (fr_data f) + 2"
    using parse_frame_InrD [OF assms] by blast
  have "length ds + length (fr_data f) + 2 \<le> usize_max" using assms(2) p(1) by (simp add: usize_max_def)
  note r = parse_frame_in_range [OF p(2,3) this]
  have "take e src = ds @ 58 # (fr_data f @ [type_byte (fr_type f)])" using p(1,4) by simp
  then have "parse_frame oc (take e src) = Some (Inr (f, e))" using r p(4) by (simp add: nth_append)
  then show ?thesis using p(1,4) by simp
qed

lemma seq_next_frame:
  assumes "length (pre @ frame_bytes d t @ post) < 2 ^ 63"
  shows "seq_next oc \<lparr>it_src = pre @ frame_bytes d t @ post, it_pos = length pre\<rparr> =
    Some (Some (Inr \<lparr>si_type = t, si_data = frame_bytes d t\<rparr>), \<lparr>it_src = pre @ frame_bytes d t @ post, it_pos = length (pre @ frame_bytes d t)\<rparr>)"
proof -
  have "frame_bytes d t \<noteq> []" by (simp add: frame_bytes_def)
  moreover have "parse_frame oc (frame_bytes d t @ post) = Some (Inr (\<lparr>fr_type = t, fr_data = d\<rparr>, length (frame_bytes d t)))"
    using assms by (intro parse_frame_bytes) simp
  moreover have "length pre + length (frame_bytes d t) \<le> usize_max" using assms by (simp add: usize_max_def)
  ultimately show ?thesis by (simp add: seq_next_def)
qed

lemma collect_seq:
  assumes "length (pre @ concat (map (\<lambda>(d, t). frame_bytes d t) xs)) < 2 ^ 63"
  shows "collect_items (seq_next oc) \<lparr>it_src = pre @ concat (map (\<lambda>(d, t). frame_bytes d t) xs), it_pos = length pre\<rparr>
    = Some (map (\<lambda>(d, t). Inr \<lparr>si_type = t, si_data = frame_bytes d t\<rparr>) xs)"
  using assms
proof (induction xs arbitrary: pre)
  case Nil
  then show ?case by (subst collect_items.simps) (simp add: seq_next_def)
next
  case (Cons x xs)
  obtain d t where x: "x = (d, t)" by force
  let ?post = "concat (map (\<lambda>(d, t). frame_bytes d t) xs)"
  have "collect_items (seq_next oc) \<lparr>it_src = (pre @ frame_bytes d t) @ ?post, it_pos = length (pre @ frame_bytes d t)\<rparr>
      = Some (map (\<lambda>(d, t). Inr \<lparr>si_type = t, si_data = frame_bytes d t\<rparr>) xs)"
    using Cons.prems x by (intro Cons.IH) simp
  then show ?case
    using seq_next_frame [of pre d t ?post oc] Cons.prems x by (subst collect_items.simps) simp
qed

lemma map_next_frame:
  assumes "length (pre @ frame_bytes k FString @ frame_bytes d t @ post) < 2 ^ 63" and "utf8_valid k"
  shows "map_next oc \<lparr>it_src = pre @ frame_bytes k FString @ frame_bytes d t @ post, it_pos = length pre\<rparr> =
    Some (Some (Inr \<lparr>mi_key = k, mi_type = t, mi_data = frame_bytes d t\<rparr>),
      \<lparr>it_src = pre @ frame_bytes k FString @ frame_bytes d t @ post, it_pos = length (pre @ frame_bytes k FString @ frame_bytes d t)\<rparr>)"
proof -
  have "frame_bytes k FString \<noteq> []" by (simp add: frame_bytes_def)
  moreover have "parse_frame oc (frame_bytes k FString @ frame_bytes d t @ post) = Some (Inr (\<lparr>fr_type = FString, fr_data = k\<rparr>, length (frame_bytes k FString)))"
    using assms(1) by (intro parse_frame_bytes) simp
  moreover have "parse_frame oc (frame_bytes d t @ post) = Some (Inr (\<lparr>fr_type = t, fr_data = d\<rparr>, length (frame_bytes d t)))"
    using assms(1) by (intro parse_frame_bytes) simp
  moreover have "length pre + length (frame_bytes k FString) \<le> usize_max"
    "length pre + length (frame_bytes k FString) + length (frame_bytes d t) \<le> usize_max" using assms(1) by (simp_all add: usize_max_def)
  ultimately show ?thesis using assms(2) by (simp add: map_next_def add.assoc)
qed

lemma collect_map:
  assumes "length (pre @ concat (map (\<lambda>(k, d, t). frame_bytes k FString @ frame_bytes d t) xs)) < 2 ^ 63"
    and "\<forall>(k, d, t) \<in> set xs. utf8_valid k"
  shows "collect_items (map_next oc) \<lparr>it_src = pre @ concat (map (\<lambda>(k, d, t). frame_bytes k FString @ frame_bytes d t) xs), it_pos = length pre\<rparr>
    = Some (map (\<lambda>(k, d, t). Inr \<lparr>mi_key = k, mi_type = t, mi_data = frame_bytes d t\<rparr>) xs)"
  using assms
proof (induction xs arbitrary: pre)
  case Nil
  then show ?case by (subst collect_items.simps) (simp add: map_next_def)
next
  case (Cons x xs)
  obtain k d t where x: "x = (k, d, t)" by (cases x) auto
  let ?post = "concat (map (\<lambda>(k, d, t). frame_bytes k FString @ frame_bytes d t) xs)"
  let ?pre = "pre @ frame_bytes k FString @ frame_bytes d t"
  have "collect_items (map_next oc) \<lparr>it_src = ?pre @ ?post, it_pos = length ?pre\<rparr>
      = Some (map (\<lambda>(k, d, t). Inr \<lparr>mi_key = k, mi_type = t, mi_data = frame_bytes d t\<rparr>) xs)"
    using Cons.prems x by (intro Cons.IH) simp_all
  moreover have "map_next oc \<lparr>it_src = ?pre @ ?post, it_pos = length pre\<rparr> =
      Some (Some (Inr \<lparr>mi_key = k, mi_type = t, mi_data = frame_bytes d t\<rparr>), \<lparr>it_src = ?pre @ ?post, it_pos = length ?pre\<rparr>)"
    using map_next_frame [of pre k d t ?post oc] Cons.prems x by simp
  ultimately show ?case using x by (subst collect_items.simps) simp
qed

section \<open>Properties\<close>

text \<open>The bytes that the frame at the start of an input takes up, by its size.\<close>

definition frame_extent :: "bytes \<Rightarrow> nat option" where
  "frame_extent src =
     (case find_colon 0 src of
        Inl _ \<Rightarrow> None
      | Inr size_end \<Rightarrow> map_option (\<lambda>sz. size_end + sz + 2) (parse_usize (take size_end src)))"

text \<open>
  Property C20. The size arithmetic of \<open>parse_frame\<close>, for every input that a slice can hold. With overflow checks the
  parser panics exactly when \<open>size_end + size + 2\<close> exceeds \<open>usize::MAX\<close>. Without them it panics exactly when
  the sum is \<open>2^64\<close> (it wraps to 0, passes the length check, and the type byte is read at index
  \<open>2^64 - 1\<close>), and a larger sum, which also wraps, is rejected as invalid data. No other input panics.
\<close>

theorem parse_frame_panics_iff_overflow:
  assumes "length src < 2 ^ 63"
  shows "(parse_frame True src = panic \<longleftrightarrow> (\<exists>n. frame_extent src = Some n \<and> usize_max < n))
    \<and> (parse_frame False src = panic \<longleftrightarrow> frame_extent src = Some (2 ^ 64))
    \<and> (\<forall>n. frame_extent src = Some n \<and> 2 ^ 64 < n \<longrightarrow> parse_frame False src = Some (Inl PInvalidData))"
proof -
  have "parse_frame False src = Some (Inl PInvalidData)" if n: "frame_extent src = Some n" "2 ^ 64 < n" for n
  proof -
    obtain k sz where k: "find_colon 0 src = Inr k" "parse_usize (take k src) = Some sz" "n = k + sz + 2"
      using n(1) by (auto simp: frame_extent_def split: sum.splits)
    obtain ds rest where ds: "src = ds @ 58 # rest" "k = length ds" "\<forall>b \<in> set ds. is_digit b" using find_colon_InrD [OF k(1)] by force
    then show ?thesis using parse_frame_overflow [of ds sz rest] k n(2) assms by (auto simp: usize_max_def)
  qed
  moreover have "size_panics True src \<longleftrightarrow> (\<exists>n. frame_extent src = Some n \<and> usize_max < n)" "size_panics False src \<longleftrightarrow> frame_extent src = Some (2 ^ 64)"
    by (auto simp: size_panics_def frame_extent_def split: sum.splits option.splits)
  ultimately show ?thesis using parse_frame_panic_iff [OF assms] by auto
qed

theorem parse_frame_panics_iff_overflow_witness:
  "parse_frame False (str ''18446744073709551594:'') = panic \<and> parse_frame True (str ''18446744073709551594:'') = panic
    \<and> parse_frame False (str ''18446744073709551595:'') = Some (Inl PInvalidData)"
proof -
  have "frame_extent (str ''18446744073709551594:'') = Some (2 ^ 64)" "frame_extent (str ''18446744073709551595:'') = Some (2 ^ 64 + 1)"
    by (simp_all add: frame_extent_def chr_def is_digit_def parse_usize_def usize_max_def)
  then show ?thesis
    using parse_frame_panics_iff_overflow [of "str ''18446744073709551594:''"] parse_frame_panics_iff_overflow [of "str ''18446744073709551595:''"]
    by (simp add: usize_max_def)
qed

text \<open>
  A frame that \<open>parse_frame\<close> accepts has the form \<open>size:data type\<close> with the decimal size of
  its data, lies within the input, and is accepted again, with the same result, when exactly its bytes
  are parsed: the re-parses that the display code assumes cannot fail, do not fail.
\<close>

lemma parse_frame_sound:
  assumes "parse_frame oc src = Some (Inr (f, e))" and "length src < 2 ^ 63"
  shows "e \<le> length src \<and> parse_frame oc (take e src) = Some (Inr (f, e))
    \<and> (\<exists>ds. take e src = ds @ [58] @ fr_data f @ [type_byte (fr_type f)] \<and> parse_usize ds = Some (length (fr_data f)))"
proof -
  obtain ds rest where "src = ds @ 58 # fr_data f @ type_byte (fr_type f) # rest"
      "parse_usize ds = Some (length (fr_data f))" "e = length ds + length (fr_data f) + 2"
    using parse_frame_InrD [OF assms] by blast
  then show ?thesis using parse_frame_reparse [OF assms] by simp
qed

text \<open>
  Scalars survive encoding and parsing, whatever follows them in the buffer: booleans,
  every integer of the width of \<open>isize\<close>, and byte strings of any content.
\<close>

lemma tnet_scalar_roundtrip:
  assumes "length (tnet_encode fmt (TBool b) @ rest) < 2 ^ 63" and "length (tnet_encode fmt (TInt x) @ rest) < 2 ^ 63"
    and "length (tnet_encode fmt (TString s) @ rest) < 2 ^ 63" and "isize_min \<le> x" and "x \<le> isize_max"
  shows "parse_bool oc (tnet_encode fmt (TBool b) @ rest) = Some (Inr b)
    \<and> parse_int oc (tnet_encode fmt (TInt x) @ rest) = Some (Inr x)
    \<and> parse_string oc (tnet_encode fmt (TString s) @ rest) = Some (Inr s)"
  using parse_frame_bytes [OF assms(1) [unfolded tnet_encode_def]] parse_frame_bytes [OF assms(2) [unfolded tnet_encode_def]]
    parse_frame_bytes [OF assms(3) [unfolded tnet_encode_def]] parse_isize_dec [OF assms(4,5)]
  by (simp add: tnet_encode_def parse_bool_def parse_int_def parse_string_def and_then_def bool_bytes_def)

text \<open>
  \<open>parse_array\<close> on an encoded array, followed by anything, gives an iterator that yields
  exactly the types and encodings of the elements, in order, and then ends; no element panics.
\<close>

lemma tnet_array_roundtrip:
  assumes "length (tnet_encode fmt (TArray vs) @ rest) < 2 ^ 63"
  shows "\<exists>it. parse_array oc (tnet_encode fmt (TArray vs) @ rest) = Some (Inr it)
    \<and> collect_items (seq_next oc) it = Some (map (\<lambda>v. Inr \<lparr>si_type = tnet_type v, si_data = tnet_encode fmt v\<rparr>) vs)"
proof -
  let ?xs = "map (\<lambda>v. (payload fmt v, tnet_type v)) vs"
  have pl: "payload fmt (TArray vs) = concat (map (\<lambda>(d, t). frame_bytes d t) ?xs)"
    by (simp add: comp_def)
  have len: "length ([] @ concat (map (\<lambda>(d, t). frame_bytes d t) ?xs)) < 2 ^ 63"
    using assms length_data_frame [of "payload fmt (TArray vs)" FArray] unfolding tnet_encode_def pl by simp
  have "parse_array oc (tnet_encode fmt (TArray vs) @ rest) = Some (Inr (iter_new (payload fmt (TArray vs))))"
    using parse_frame_bytes [OF assms [unfolded tnet_encode_def]] by (simp add: tnet_encode_def parse_array_def and_then_def)
  then show ?thesis
    using collect_seq [OF len, of oc] unfolding pl by (simp add: iter_new_def tnet_encode_def comp_def)
qed

text \<open>
  \<open>parse_map\<close> on an encoded map with UTF-8 keys, followed by anything, gives an iterator
  that yields exactly the keys with the types and encodings of their values, in order.
\<close>

lemma tnet_map_roundtrip:
  assumes "length (tnet_encode fmt (TMap kvs) @ rest) < 2 ^ 63" and "\<forall>(k, v) \<in> set kvs. utf8_valid k"
  shows "\<exists>it. parse_map oc (tnet_encode fmt (TMap kvs) @ rest) = Some (Inr it)
    \<and> collect_items (map_next oc) it = Some (map (\<lambda>(k, v). Inr \<lparr>mi_key = k, mi_type = tnet_type v, mi_data = tnet_encode fmt v\<rparr>) kvs)"
proof -
  let ?xs = "map (\<lambda>(k, v). (k, payload fmt v, tnet_type v)) kvs"
  have pl: "payload fmt (TMap kvs) = concat (map (\<lambda>(k, d, t). frame_bytes k FString @ frame_bytes d t) ?xs)"
    by (simp add: comp_def case_prod_unfold)
  have len: "length ([] @ concat (map (\<lambda>(k, d, t). frame_bytes k FString @ frame_bytes d t) ?xs)) < 2 ^ 63"
    using assms(1) length_data_frame [of "payload fmt (TMap kvs)" FMap] unfolding tnet_encode_def pl by simp
  have keys: "\<forall>(k, d, t) \<in> set ?xs. utf8_valid k" using assms(2) by auto
  have "parse_map oc (tnet_encode fmt (TMap kvs) @ rest) = Some (Inr (iter_new (payload fmt (TMap kvs))))"
    using parse_frame_bytes [OF assms(1) [unfolded tnet_encode_def]] by (simp add: tnet_encode_def parse_map_def and_then_def)
  then show ?thesis
    using collect_map [OF len keys, of oc] unfolding pl by (simp add: iter_new_def tnet_encode_def comp_def case_prod_unfold)
qed

end
