(* ===== verification/TnetWriter.thy ===== *)
theory TnetWriter
  imports Tnetstring
begin

text \<open>
  Writing tnetstrings, \<open>src/core/tnetstring.rs\<close>: the \<open>Writer\<close>, which records operations and computes all
  length prefixes before it serializes into a fixed slice, and the serde \<open>Serializer\<close>, which nests
  growing buffers. Both are shown to produce \<open>tnet_encode\<close> of the value they were given. The lengths that
  \<open>calc_len\<close> adds up are lengths of byte slices the writer refers to, so they are natural numbers here.
\<close>

section \<open>Lengths of printed numbers\<close>

fun usize_len_loop :: "nat \<Rightarrow> nat \<Rightarrow> nat" where
  "usize_len_loop x len = (if x \<ge> 10 then usize_len_loop (x div 10) (len + 1) else len)"

declare usize_len_loop.simps [simp del]

definition usize_len :: "nat \<Rightarrow> nat" where
  "usize_len v = usize_len_loop v 1"

function isize_len_loop :: "int \<Rightarrow> nat \<Rightarrow> nat" where
  "isize_len_loop x len = (if x \<ge> 10 then isize_len_loop (x div 10) (len + 1) else len)"
  by auto
termination by (relation "measure (\<lambda>(x, len). nat x)") auto

declare isize_len_loop.simps [simp del]

text \<open>\<open>x.abs()\<close> of the smallest \<open>isize\<close> overflows: a panic with overflow checks, else the number itself.\<close>

definition isize_abs :: "bool \<Rightarrow> int \<Rightarrow> int run" where
  "isize_abs oc x = (if x = isize_min then (if oc then panic else Some isize_min) else Some \<bar>x\<bar>)"

definition isize_len :: "bool \<Rightarrow> int \<Rightarrow> nat run" where
  "isize_len oc v =
     (if v < 0 then do { x \<leftarrow> isize_abs oc v; Some (isize_len_loop x 2) } else Some (isize_len_loop v 1))"

definition F64_SIZE_MAX :: nat where "F64_SIZE_MAX = 64"

text \<open>\<open>write!\<close> into a slice of 64 bytes, with \<open>unwrap\<close>: a longer text panics.\<close>

definition f64_len :: "('f \<Rightarrow> bytes) \<Rightarrow> 'f \<Rightarrow> nat run" where
  "f64_len fmt x = (if length (fmt x) \<le> F64_SIZE_MAX then Some (length (fmt x)) else panic)"

section \<open>The destination\<close>

text \<open>\<open>io::Cursor<&mut [u8]>\<close>: a slice and a position. A write copies what fits.\<close>

record cursor =
  cur_buf :: bytes
  cur_pos :: nat

definition cursor_write :: "cursor \<Rightarrow> bytes \<Rightarrow> nat \<times> cursor" where
  "cursor_write c data =
     (let pos = min (cur_pos c) (length (cur_buf c));
          n = min (length data) (length (cur_buf c) - pos)
      in (n, c\<lparr>cur_buf := overwrite (cur_buf c) pos (take n data), cur_pos := cur_pos c + n\<rparr>))"

text \<open>\<open>write_exact\<close>, and \<open>write!\<close> through \<open>write_all\<close>: a short write is the error \<open>WriteZero\<close>.\<close>

definition write_exact :: "cursor \<Rightarrow> bytes \<Rightarrow> (io_error + unit) \<times> cursor" where
  "write_exact c data =
     (let (n, c) = cursor_write c data in if n < length data then (Inl WriteZero, c) else (Inr (), c))"

definition then_write :: "(io_error + unit) \<times> cursor \<Rightarrow> bytes \<Rightarrow> (io_error + unit) \<times> cursor" where
  "then_write rc data = (case rc of (Inl e, c) \<Rightarrow> (Inl e, c) | (Inr _, c) \<Rightarrow> write_exact c data)"

section \<open>Operations\<close>

datatype 'f op =
    OpInvalid
  | OpNull
  | OpBool bool
  | OpInt int
  | OpFloat 'f
  | OpString bytes
  | OpStartArray
  | OpEndArray
  | OpStartMap
  | OpEndMap

fun op_serialize :: "('f \<Rightarrow> bytes) \<Rightarrow> 'f op \<Rightarrow> cursor \<Rightarrow> nat \<Rightarrow> ((io_error + unit) \<times> cursor) run" where
  "op_serialize fmt OpInvalid c len = panic"
| "op_serialize fmt OpNull c len = Some (write_exact c (dec_digits len @ str '':~''))"
| "op_serialize fmt (OpBool b) c len =
     Some (then_write (then_write (write_exact c (dec_digits len @ str '':'')) (bool_bytes b)) (str ''!''))"
| "op_serialize fmt (OpInt x) c len = Some (write_exact c (dec_digits len @ str '':'' @ dec_of_int x @ str ''#''))"
| "op_serialize fmt (OpFloat x) c len = Some (write_exact c (dec_digits len @ str '':'' @ fmt x @ str ''^''))"
| "op_serialize fmt (OpString s) c len =
     Some (then_write (then_write (write_exact c (dec_digits len @ str '':'')) s) (str '',''))"
| "op_serialize fmt OpStartArray c len = Some (write_exact c (dec_digits len @ str '':''))"
| "op_serialize fmt OpStartMap c len = Some (write_exact c (dec_digits len @ str '':''))"
| "op_serialize fmt OpEndArray c len = Some (write_exact c (str '']''))"
| "op_serialize fmt OpEndMap c len = Some (write_exact c (str ''}''))"

text \<open>
  \<open>calc_len\<close> and the loop over the operations of an array (\<open>arr\<close>) or a map. The recursion is bounded by
  fuel; twice the number of operations is enough, see \<open>calc_len_value\<close>.
\<close>

fun calc_len :: "bool \<Rightarrow> ('f \<Rightarrow> bytes) \<Rightarrow> nat \<Rightarrow> 'f op list \<Rightarrow> nat list \<Rightarrow> (nat \<times> nat list) run"
  and calc_items :: "bool \<Rightarrow> ('f \<Rightarrow> bytes) \<Rightarrow> nat \<Rightarrow> bool \<Rightarrow> 'f op list \<Rightarrow> nat list \<Rightarrow> nat \<Rightarrow> nat \<Rightarrow> (nat \<times> nat \<times> nat list) run" where
  "calc_len oc fmt 0 ops lens = None"
| "calc_len oc fmt (Suc n) ops lens = do {
     _ \<leftarrow> assert_that (ops \<noteq> []);
     _ \<leftarrow> assert_that (length ops = length lens);
     (len, count, lens) \<leftarrow>
       (case hd ops of
          OpInvalid \<Rightarrow> panic
        | OpNull \<Rightarrow> Some (0, 1, lens)
        | OpBool b \<Rightarrow> Some (length (bool_bytes b), 1, lens)
        | OpInt x \<Rightarrow> do { l \<leftarrow> isize_len oc x; Some (l, 1, lens) }
        | OpFloat x \<Rightarrow> do { l \<leftarrow> f64_len fmt x; Some (l, 1, lens) }
        | OpString s \<Rightarrow> Some (length s, 1, lens)
        | OpStartArray \<Rightarrow> calc_items oc fmt n True ops lens 1 0
        | OpEndArray \<Rightarrow> panic
        | OpStartMap \<Rightarrow> calc_items oc fmt n False ops lens 1 0
        | OpEndMap \<Rightarrow> panic);
     Some (count, lens[0 := len])
   }"
| "calc_items oc fmt 0 arr ops lens i tot = None"
| "calc_items oc fmt (Suc n) arr ops lens i tot =
     (if i < length ops then
        (case ops ! i of
           OpEndArray \<Rightarrow> if arr then Some (tot, i + 1, lens) else panic
         | OpEndMap \<Rightarrow> if arr then panic else Some (tot, i + 1, lens)
         | _ \<Rightarrow> do {
             (count, sub) \<leftarrow> calc_len oc fmt n (drop i ops) (drop i lens);
             let lens = take i lens @ sub;
             let len = lens ! i;
             calc_items oc fmt n arr ops lens (i + count) (tot + (usize_len len + len + 2))
           })
      else panic)"

section \<open>The writer\<close>

text \<open>The operations recorded so far; the slots of the array after them hold \<open>Invalid\<close> and are not read.\<close>

definition OPS_MAX :: nat where "OPS_MAX = 1000"

record 'f tnet_writer =
  tn_ops :: "'f op list"
  tn_dest :: cursor

definition tn_new :: "cursor \<Rightarrow> 'f tnet_writer" where
  "tn_new dest = \<lparr>tn_ops = [], tn_dest = dest\<rparr>"

definition tn_append :: "'f tnet_writer \<Rightarrow> 'f op \<Rightarrow> (io_error + unit) \<times> 'f tnet_writer" where
  "tn_append w p =
     (if length (tn_ops w) \<ge> OPS_MAX then (Inl WriteZero, w) else (Inr (), w\<lparr>tn_ops := tn_ops w @ [p]\<rparr>))"

definition write_null :: "'f tnet_writer \<Rightarrow> (io_error + unit) \<times> 'f tnet_writer" where
  "write_null w = tn_append w OpNull"

definition write_bool :: "'f tnet_writer \<Rightarrow> bool \<Rightarrow> (io_error + unit) \<times> 'f tnet_writer" where
  "write_bool w b = tn_append w (OpBool b)"

definition write_int :: "'f tnet_writer \<Rightarrow> int \<Rightarrow> (io_error + unit) \<times> 'f tnet_writer" where
  "write_int w x = tn_append w (OpInt x)"

definition write_float :: "'f tnet_writer \<Rightarrow> 'f \<Rightarrow> (io_error + unit) \<times> 'f tnet_writer" where
  "write_float w x = tn_append w (OpFloat x)"

definition write_string :: "'f tnet_writer \<Rightarrow> bytes \<Rightarrow> (io_error + unit) \<times> 'f tnet_writer" where
  "write_string w s = tn_append w (OpString s)"

definition start_array :: "'f tnet_writer \<Rightarrow> (io_error + unit) \<times> 'f tnet_writer" where
  "start_array w = tn_append w OpStartArray"

definition end_array :: "'f tnet_writer \<Rightarrow> (io_error + unit) \<times> 'f tnet_writer" where
  "end_array w = tn_append w OpEndArray"

definition start_map :: "'f tnet_writer \<Rightarrow> (io_error + unit) \<times> 'f tnet_writer" where
  "start_map w = tn_append w OpStartMap"

definition end_map :: "'f tnet_writer \<Rightarrow> (io_error + unit) \<times> 'f tnet_writer" where
  "end_map w = tn_append w OpEndMap"

text \<open>The inner loop of \<open>flush\<close>: serialize \<open>count\<close> operations, marking each as done.\<close>

fun serialize_ops :: "('f \<Rightarrow> bytes) \<Rightarrow> 'f op list \<Rightarrow> nat list \<Rightarrow> nat \<Rightarrow> nat \<Rightarrow> cursor \<Rightarrow>
    ((io_error + unit) \<times> 'f op list \<times> nat \<times> cursor) run" where
  "serialize_ops fmt ops lens i 0 c = Some (Inr (), ops, i, c)"
| "serialize_ops fmt ops lens i (Suc k) c = do {
     p \<leftarrow> index_at ops i;
     len \<leftarrow> index_at lens i;
     (r, c) \<leftarrow> op_serialize fmt p c len;
     case r of
       Inl e \<Rightarrow> Some (Inl e, ops, i, c)
     | Inr _ \<Rightarrow> serialize_ops fmt (ops[i := OpInvalid]) lens (i + 1) k c
   }"

partial_function (option) flush_loop ::
  "bool \<Rightarrow> ('f \<Rightarrow> bytes) \<Rightarrow> 'f op list \<Rightarrow> nat list \<Rightarrow> nat \<Rightarrow> cursor \<Rightarrow> ((io_error + unit) \<times> 'f op list \<times> cursor) option" where
  "flush_loop oc fmt ops lens i c =
     (if i < length ops then do {
        (count, sub) \<leftarrow> calc_len oc fmt (2 * length ops) (drop i ops) (drop i lens);
        let lens = take i lens @ sub;
        _ \<leftarrow> assert_that (i + count \<le> length ops);
        (r, ops, i, c) \<leftarrow> serialize_ops fmt ops lens i count c;
        case r of
          Inl e \<Rightarrow> Some (Inl e, ops, c)
        | Inr _ \<Rightarrow> flush_loop oc fmt ops lens i c
      } else Some (Inr (), ops, c))"

definition tn_flush :: "bool \<Rightarrow> ('f \<Rightarrow> bytes) \<Rightarrow> 'f tnet_writer \<Rightarrow> ((io_error + unit) \<times> 'f tnet_writer) run" where
  "tn_flush oc fmt w = do {
     (r, ops, c) \<leftarrow> flush_loop oc fmt (tn_ops w) (replicate (length (tn_ops w)) 0) 0 (tn_dest w);
     Some (case r of
        Inl e \<Rightarrow> (Inl e, \<lparr>tn_ops = ops, tn_dest = c\<rparr>)
      | Inr _ \<Rightarrow> (Inr (), \<lparr>tn_ops = [], tn_dest = c\<rparr>))
   }"

section \<open>Correctness of the writer\<close>

lemma usize_len_loop_dec: "usize_len_loop x len + 1 = len + length (dec_digits x)"
  by (induction x len rule: usize_len_loop.induct)
     (subst usize_len_loop.simps, subst dec_digits.simps, simp)

lemma usize_len_dec [simp]: "usize_len n = length (dec_digits n)"
  using usize_len_loop_dec [of n 1] by (simp add: usize_len_def)

lemma isize_len_loop_dec: "0 \<le> x \<Longrightarrow> isize_len_loop x len + 1 = len + length (dec_digits (nat x))"
proof (induction x len rule: isize_len_loop.induct)
  case (1 x len)
  show ?case
  proof (cases "10 \<le> x")
    case True
    then have "isize_len_loop (x div 10) (len + 1) + 1 = len + 1 + length (dec_digits (nat x div 10))"
      using 1 by (simp add: nat_div_distrib)
    moreover have "\<not> nat x < 10" using True by linarith
    ultimately show ?thesis using True by (subst isize_len_loop.simps, subst dec_digits.simps) simp
  next
    case False
    then have "nat x < 10" by linarith
    then show ?thesis using False by (subst isize_len_loop.simps, subst dec_digits.simps) simp
  qed
qed

lemma isize_len_dec: "isize_min < x \<Longrightarrow> isize_len oc x = Some (length (dec_of_int x))"
  using isize_len_loop_dec [of "- x" 2] isize_len_loop_dec [of x 1]
  by (cases "x < 0") (auto simp: isize_len_def isize_abs_def dec_of_int_def)

text \<open>Writing in pieces is writing the whole.\<close>

lemma then_write_exact: "then_write (write_exact c a) b = write_exact c (a @ b)"
proof (cases "length a \<le> length (cur_buf c) - min (cur_pos c) (length (cur_buf c))")
  case True
  show ?thesis
  proof (cases "cur_pos c \<le> length (cur_buf c)")
    case pos: True
    then have fit: "cur_pos c + length a \<le> length (cur_buf c)" using True by simp
    have "overwrite (overwrite (cur_buf c) (cur_pos c) a) (cur_pos c + length a) bs = overwrite (cur_buf c) (cur_pos c) (a @ bs)" for bs
      using fit by (simp add: overwrite_def min_absorb2 add.commute add.left_commute)
    with pos fit show ?thesis
      by (auto simp: then_write_def write_exact_def cursor_write_def Let_def min_def split: if_splits)
  next
    case False
    with True show ?thesis
      by (auto simp: then_write_def write_exact_def cursor_write_def Let_def min_def split: if_splits)
  qed
next
  case False
  then show ?thesis
    by (auto simp: then_write_def write_exact_def cursor_write_def Let_def min_def split: if_splits)
qed

fun op_bytes :: "('f \<Rightarrow> bytes) \<Rightarrow> 'f op \<Rightarrow> nat \<Rightarrow> bytes" where
  "op_bytes fmt OpInvalid len = []"
| "op_bytes fmt OpNull len = dec_digits len @ [58, 126]"
| "op_bytes fmt (OpBool b) len = dec_digits len @ [58] @ bool_bytes b @ [33]"
| "op_bytes fmt (OpInt x) len = dec_digits len @ [58] @ dec_of_int x @ [35]"
| "op_bytes fmt (OpFloat x) len = dec_digits len @ [58] @ fmt x @ [94]"
| "op_bytes fmt (OpString s) len = dec_digits len @ [58] @ s @ [44]"
| "op_bytes fmt OpStartArray len = dec_digits len @ [58]"
| "op_bytes fmt OpStartMap len = dec_digits len @ [58]"
| "op_bytes fmt OpEndArray len = [93]"
| "op_bytes fmt OpEndMap len = [125]"

lemma op_serialize_bytes: "p \<noteq> OpInvalid \<Longrightarrow> op_serialize fmt p c len = Some (write_exact c (op_bytes fmt p len))"
  by (cases p) (simp_all add: then_write_exact chr_def)

lemma write_exact_append:
  "write_exact c (a @ b) = (case write_exact c a of (Inl e, c') \<Rightarrow> (Inl e, c') | (Inr _, c') \<Rightarrow> write_exact c' b)"
  by (simp add: then_write_def flip: then_write_exact split: prod.split sum.split)

lemma write_exact_Nil [simp]: "write_exact c [] = (Inr (), c)"
  by (simp add: write_exact_def cursor_write_def Let_def)

lemma serialize_ops_bytes:
  assumes "i + k \<le> length ops" and "i + k \<le> length lens" and "\<forall>p \<in> set (take k (drop i ops)). p \<noteq> OpInvalid"
  shows "\<exists>ops' i'. serialize_ops fmt ops lens i k c =
      (case write_exact c (concat (map2 (op_bytes fmt) (take k (drop i ops)) (take k (drop i lens)))) of
         (r, c') \<Rightarrow> Some (r, ops', i', c'))
    \<and> (fst (write_exact c (concat (map2 (op_bytes fmt) (take k (drop i ops)) (take k (drop i lens))))) = Inr () \<longrightarrow>
         i' = i + k \<and> length ops' = length ops \<and> drop i' ops' = drop i' ops)"
  using assms
proof (induction k arbitrary: i ops c)
  case 0
  then show ?case by auto
next
  case (Suc k)
  let ?ops = "ops[i := OpInvalid]"
  have drops: "take (Suc k) (drop i ops) = ops ! i # take k (drop (i + 1) ops)"
    "take (Suc k) (drop i lens) = lens ! i # take k (drop (i + 1) lens)"
    using Suc.prems by (simp_all flip: Cons_nth_drop_Suc)
  have valid: "ops ! i \<noteq> OpInvalid" using Suc.prems(3) unfolding drops by simp
  have rest: "drop (i + 1) ?ops = drop (i + 1) ops" by simp
  obtain r1 c1 where w: "write_exact c (op_bytes fmt (ops ! i) (lens ! i)) = (r1, c1)" by force
  let ?d = "concat (map2 (op_bytes fmt) (take k (drop (i + 1) ops)) (take k (drop (i + 1) lens)))"
  obtain ops' i' where IH: "serialize_ops fmt ?ops lens (i + 1) k c1 = (case write_exact c1 ?d of (r, c') \<Rightarrow> Some (r, ops', i', c'))"
      "fst (write_exact c1 ?d) = Inr () \<longrightarrow> i' = i + 1 + k \<and> length ops' = length ops \<and> drop i' ops' = drop i' ?ops"
    using Suc.IH [of "i + 1" ?ops c1] Suc.prems drops by (auto simp: rest)
  have d: "concat (map2 (op_bytes fmt) (take (Suc k) (drop i ops)) (take (Suc k) (drop i lens))) = op_bytes fmt (ops ! i) (lens ! i) @ ?d"
    by (simp add: drops)
  show ?case
  proof (cases r1)
    case (Inl e)
    then show ?thesis
      using Suc.prems valid w unfolding d write_exact_append
      by (intro exI [of _ ops] exI [of _ i]) (simp add: op_serialize_bytes)
  next
    case (Inr u)
    then show ?thesis
      using Suc.prems valid w IH unfolding d write_exact_append
      by (intro exI [of _ ops'] exI [of _ i']) (auto simp: op_serialize_bytes)
  qed
qed

section \<open>Values as operations\<close>

fun ops_of :: "'f tnet \<Rightarrow> 'f op list" where
  "ops_of TNull = [OpNull]"
| "ops_of (TBool b) = [OpBool b]"
| "ops_of (TInt x) = [OpInt x]"
| "ops_of (TFloat x) = [OpFloat x]"
| "ops_of (TString s) = [OpString s]"
| "ops_of (TArray vs) = OpStartArray # concat (map ops_of vs) @ [OpEndArray]"
| "ops_of (TMap kvs) = OpStartMap # concat (map (\<lambda>(k, v). OpString k # ops_of v) kvs) @ [OpEndMap]"

text \<open>Values the writer can measure: no smallest integer, no float with more than 64 characters.\<close>

fun tnet_ok :: "('f \<Rightarrow> bytes) \<Rightarrow> 'f tnet \<Rightarrow> bool" where
  "tnet_ok fmt (TInt x) \<longleftrightarrow> isize_min < x \<and> x \<le> isize_max"
| "tnet_ok fmt (TFloat x) \<longleftrightarrow> length (fmt x) \<le> 64"
| "tnet_ok fmt (TArray vs) \<longleftrightarrow> (\<forall>v \<in> set vs. tnet_ok fmt v)"
| "tnet_ok fmt (TMap kvs) \<longleftrightarrow> (\<forall>(k, v) \<in> set kvs. tnet_ok fmt v)"
| "tnet_ok fmt v \<longleftrightarrow> True"

lemma ops_of_nonempty [simp]: "ops_of v \<noteq> []"
  by (cases v) simp_all

lemma ops_of_valid: "OpInvalid \<notin> set (ops_of v)"
  by (induction v) (auto simp: snds.simps)

lemma hd_ops_of: "hd (ops_of v) \<noteq> OpEndArray" "hd (ops_of v) \<noteq> OpEndMap"
  by (cases v; simp)+

lemma map2_append:
  "length xs = length ys \<Longrightarrow> map2 f (xs @ xs') (ys @ ys') = map2 f xs ys @ map2 f xs' ys'"
  by simp

text \<open>What \<open>calc_len\<close> does with the operations of a value, whatever follows them.\<close>

definition measures :: "bool \<Rightarrow> ('f \<Rightarrow> bytes) \<Rightarrow> 'f tnet \<Rightarrow> bool" where
  "measures oc fmt v \<longleftrightarrow> (\<forall>n rest lens. 2 * length (ops_of v) \<le> n \<longrightarrow> length lens = length (ops_of v @ rest) \<longrightarrow>
     (\<exists>ls. length ls = length (ops_of v)
        \<and> calc_len oc fmt n (ops_of v @ rest) lens = Some (length (ops_of v), ls @ drop (length (ops_of v)) lens)
        \<and> concat (map2 (op_bytes fmt) (ops_of v) ls) = tnet_encode fmt v \<and> ls ! 0 = length (payload fmt v)))"

lemma encode_fun: "tnet_encode fmt = (\<lambda>v. frame_bytes (payload fmt v) (tnet_type v))"
  by (rule ext) (simp add: tnet_encode_def)

lemma length_encode: "length (tnet_encode fmt v) = length (dec_digits (length (payload fmt v))) + length (payload fmt v) + 2"
  by (simp add: tnet_encode_def frame_bytes_def)

lemma calc_items_values:
  assumes "\<forall>v \<in> set vs. measures oc fmt v" and "2 * length (concat (map ops_of vs)) + 1 \<le> n"
    and "length lpre = length pre" and "length lmid = length (concat (map ops_of vs)) + 1 + length rest"
    and closer: "e = (if arr then OpEndArray else OpEndMap)"
  shows "\<exists>ls. length ls = length (concat (map ops_of vs))
    \<and> calc_items oc fmt n arr (pre @ concat (map ops_of vs) @ e # rest) (lpre @ lmid) (length pre) tot
      = Some (tot + length (concat (map (tnet_encode fmt) vs)), length pre + length (concat (map ops_of vs)) + 1, lpre @ ls @ drop (length ls) lmid)
    \<and> concat (map2 (op_bytes fmt) (concat (map ops_of vs)) ls) = concat (map (tnet_encode fmt) vs)"
  using assms(1-4)
proof (induction vs arbitrary: n pre lpre lmid tot)
  case Nil
  then obtain m where "n = Suc m" by (cases n) auto
  then show ?case using closer by (auto simp: nth_append)
next
  case (Cons v vs)
  let ?V = "ops_of v" and ?R = "concat (map ops_of vs)" 
  have "0 < length ?V" by simp
  then obtain m where n: "n = Suc m" "2 * length ?V \<le> m" "2 * length ?R + 1 \<le> m"
    using Cons.prems(2) by (cases n) (auto simp del: length_greater_0_conv)
  obtain ls where ls: "length ls = length ?V"
      "calc_len oc fmt m (?V @ ?R @ e # rest) lmid = Some (length ?V, ls @ drop (length ?V) lmid)"
      "concat (map2 (op_bytes fmt) ?V ls) = tnet_encode fmt v" "ls ! 0 = length (payload fmt v)"
    using Cons.prems(1,4) n(2) unfolding measures_def by (force dest!: bspec [of _ _ v] spec [of _ m])
  define lmid' where "lmid' = drop (length ?V) lmid"
  have len': "length lmid' = length ?R + 1 + length rest" using Cons.prems(4) by (simp add: lmid'_def)
  let ?tot = "tot + length (tnet_encode fmt v)"
  obtain ls' where ls': "length ls' = length ?R"
      "calc_items oc fmt m arr ((pre @ ?V) @ ?R @ e # rest) ((lpre @ ls) @ lmid') (length (pre @ ?V)) ?tot
        = Some (?tot + length (concat (map (tnet_encode fmt) vs)), length (pre @ ?V) + length ?R + 1, (lpre @ ls) @ ls' @ drop (length ls') lmid')"
      "concat (map2 (op_bytes fmt) ?R ls') = concat (map (tnet_encode fmt) vs)"
    using Cons.IH [of m "lpre @ ls" "pre @ ?V" lmid' ?tot] Cons.prems(1,3) n(3) len' ls(1) by auto
  have hd: "(pre @ ?V @ ?R @ e # rest) ! length pre = hd ?V"
    by (simp add: nth_append hd_conv_nth)
  have "((lpre @ ls @ lmid') ! length pre) = length (payload fmt v)"
    using ls(1,4) Cons.prems(3) by (simp add: nth_append)
  then have step: "calc_items oc fmt n arr (pre @ ?V @ ?R @ e # rest) (lpre @ lmid) (length pre) tot
      = calc_items oc fmt m arr (pre @ ?V @ ?R @ e # rest) (lpre @ ls @ lmid') (length pre + length ?V) ?tot"
    using n(1) hd hd_ops_of [of v] ls(2) Cons.prems(3) lmid'_def
    by (simp add: length_encode Let_def split: op.split)
  show ?case
    using step ls ls' by (intro exI [of _ "ls @ ls'"]) (simp add: map2_append lmid'_def drop_drop add.commute)
qed

lemma scalar_measures:
  assumes "tnet_ok fmt v" and "\<And>vs. v \<noteq> TArray vs" and "\<And>kvs. v \<noteq> TMap kvs"
  shows "measures oc fmt v"
  unfolding measures_def
proof (intro allI impI)
  fix n and rest :: "'a op list" and lens :: "nat list"
  assume n: "2 * length (ops_of v) \<le> n" and lens: "length lens = length (ops_of v @ rest)"
  have one: "length (ops_of v) = 1" using assms(2,3) by (cases v) auto
  obtain m where m: "n = Suc m" using n one by (cases n) auto
  obtain l lr where l: "lens = l # lr" using lens one by (cases lens) auto
  show "\<exists>ls. length ls = length (ops_of v)
        \<and> calc_len oc fmt n (ops_of v @ rest) lens = Some (length (ops_of v), ls @ drop (length (ops_of v)) lens)
        \<and> concat (map2 (op_bytes fmt) (ops_of v) ls) = tnet_encode fmt v \<and> ls ! 0 = length (payload fmt v)"
    using assms m l lens
    by (intro exI [of _ "[length (payload fmt v)]"], cases v)
       (auto simp: isize_len_dec f64_len_def F64_SIZE_MAX_def tnet_encode_def frame_bytes_def)
qed

lemma container_measures:
  assumes "\<forall>v \<in> set vs. measures oc fmt v"
    and ops: "ops_of u = (if arr then OpStartArray else OpStartMap) # concat (map ops_of vs) @ [if arr then OpEndArray else OpEndMap]"
    and pl: "payload fmt u = concat (map (tnet_encode fmt) vs)" and ty: "tnet_type u = (if arr then FArray else FMap)"
  shows "measures oc fmt u"
  unfolding measures_def
proof (intro allI impI)
  fix n and rest :: "'a op list" and lens :: "nat list"
  let ?R = "concat (map ops_of vs)" and ?s = "if arr then OpStartArray else OpStartMap"
  assume n: "2 * length (ops_of u) \<le> n" and lens: "length lens = length (ops_of u @ rest)"
  obtain m where m: "n = Suc m" "2 * length ?R + 1 \<le> m" using n ops by (cases n) auto
  obtain l lr where l: "lens = l # lr" "length lr = length ?R + 1 + length rest" using lens ops by (cases lens) auto
  obtain ls where ls: "length ls = length ?R"
    "calc_items oc fmt m arr ([?s] @ ?R @ (if arr then OpEndArray else OpEndMap) # rest) ([l] @ lr) 1 0
      = Some (length (payload fmt u), length ?R + 2, l # ls @ drop (length ls) lr)"
    "concat (map2 (op_bytes fmt) ?R ls) = payload fmt u"
    using calc_items_values [OF assms(1) m(2), of "[l]" "[?s]" lr rest _ arr 0] l(2) pl by auto
  let ?ls = "length (payload fmt u) # ls @ [lr ! length ?R]"
  have lr: "drop (length ls) lr = lr ! length ?R # drop (Suc (length ?R)) lr"
    using ls(1) l(2) by (simp add: Cons_nth_drop_Suc)
  have "calc_len oc fmt n (ops_of u @ rest) lens = Some (length (ops_of u), ?ls @ drop (length (ops_of u)) lens)"
    using m(1) l ls(1,2) lr ops by (cases arr) simp_all
  moreover have "concat (map2 (op_bytes fmt) (ops_of u) ?ls) = tnet_encode fmt u"
    using ops ls(1,3) ty by (cases arr) (simp_all add: map2_append tnet_encode_def frame_bytes_def)
  ultimately show "\<exists>ls. length ls = length (ops_of u)
        \<and> calc_len oc fmt n (ops_of u @ rest) lens = Some (length (ops_of u), ls @ drop (length (ops_of u)) lens)
        \<and> concat (map2 (op_bytes fmt) (ops_of u) ls) = tnet_encode fmt u \<and> ls ! 0 = length (payload fmt u)"
    using ops ls(1) by (intro exI [of _ ?ls]) simp
qed

lemma calc_len_value: "tnet_ok fmt v \<Longrightarrow> measures oc fmt v"
proof (induction v)
  case (TArray vs)
  then have "\<forall>v \<in> set vs. measures oc fmt v" by auto
  then show ?case
    by (rule container_measures [where arr = True]) (simp_all add: encode_fun)
next
  case (TMap kvs)
  let ?vs = "concat (map (\<lambda>(k, v). [TString k, v]) kvs)"
  have "measures oc fmt v" if "(k, v) \<in> set kvs" for k v
    using TMap.IH [OF that, of v] TMap.prems that by (auto simp: snds.simps)
  then have vs: "\<forall>v \<in> set ?vs. measures oc fmt v"
    using scalar_measures [of fmt "TString _"] by auto
  have "map ops_of ?vs = concat (map (\<lambda>(k, v). [[OpString k], ops_of v]) kvs)"
    by (simp add: map_concat comp_def case_prod_unfold)
  then have "concat (map ops_of ?vs) = concat (map (\<lambda>(k, v). OpString k # ops_of v) kvs)"
    by (induction kvs) auto
  moreover have "concat (map (tnet_encode fmt) ?vs) = payload fmt (TMap kvs)"
    by (induction kvs) (auto simp: tnet_encode_def)
  ultimately show ?case
    by (intro container_measures [OF vs, where arr = False]) simp_all
qed (rule scalar_measures; simp)+

lemma flush_loop_values:
  assumes "\<forall>v \<in> set vs. tnet_ok fmt v" and "drop i ops = concat (map ops_of vs)" and "length lens = length ops" and "i \<le> length ops"
  shows "\<exists>ops'. flush_loop oc fmt ops lens i c =
    (case write_exact c (concat (map (tnet_encode fmt) vs)) of (r, c') \<Rightarrow> Some (r, ops', c'))"
  using assms
proof (induction vs arbitrary: i ops lens c)
  case Nil
  then have "\<not> i < length ops" by simp
  then show ?case by (subst flush_loop.simps) simp
next
  case (Cons v vs)
  let ?V = "ops_of v" and ?R = "concat (map ops_of vs)"
  have d: "drop i ops = ?V @ ?R" using Cons.prems(2) by simp
  then have len: "length ops = i + length ?V + length ?R" using Cons.prems(4) by (metis add.assoc length_append length_drop le_add_diff_inverse)
  have i: "i < length ops" using len by (simp add: Suc_le_eq)
  have "measures oc fmt v" using calc_len_value Cons.prems(1) by auto
  moreover have "2 * length ?V \<le> 2 * length ops" "length (drop i lens) = length (?V @ ?R)" using len Cons.prems(3) by simp_all
  ultimately obtain ls where ls: "length ls = length ?V"
      "calc_len oc fmt (2 * length ops) (?V @ ?R) (drop i lens) = Some (length ?V, ls @ drop (length ?V) (drop i lens))"
      "concat (map2 (op_bytes fmt) ?V ls) = tnet_encode fmt v"
    unfolding measures_def by blast
  let ?lens = "take i lens @ ls @ drop (length ?V + i) lens"
  have slices: "take (length ?V) (drop i ops) = ?V" "take (length ?V) (drop i ?lens) = ls"
    using d ls(1) Cons.prems(3) len by simp_all
  have bnd: "i + length ?V \<le> length ops" "i + length ?V \<le> length ?lens" using len ls(1) Cons.prems(3) by simp_all
  have "\<forall>p \<in> set (take (length ?V) (drop i ops)). p \<noteq> OpInvalid" using slices(1) ops_of_valid [of v] by auto
  from serialize_ops_bytes [OF bnd this, of fmt c]
  obtain ops' i' where ser: "serialize_ops fmt ops ?lens i (length ?V) c = (case write_exact c (tnet_encode fmt v) of (r, c') \<Rightarrow> Some (r, ops', i', c'))"
      "fst (write_exact c (tnet_encode fmt v)) = Inr () \<longrightarrow> i' = i + length ?V \<and> length ops' = length ops \<and> drop i' ops' = drop i' ops"
    unfolding slices ls(3) by blast
  obtain r c1 where w: "write_exact c (tnet_encode fmt v) = (r, c1)" by force
  have step: "flush_loop oc fmt ops lens i c = (case r of Inl e \<Rightarrow> Some (Inl e, ops', c1) | Inr _ \<Rightarrow> flush_loop oc fmt ops' ?lens i' c1)"
    using i d ls(2) ser(1) w bnd(1) by (subst flush_loop.simps) (simp add: Let_def)
  show ?case
  proof (cases r)
    case (Inl e)
    then show ?thesis using step w by (auto simp: write_exact_append)
  next
    case (Inr u)
    have *: "i' = i + length ?V" "length ops' = length ops" "drop i' ops' = drop i' ops"
      using ser(2) w Inr by auto
    have "drop (i + length ?V) ops = ?R" using d drop_drop [of "length ?V" i ops] by (simp add: add.commute)
    then have R: "drop i' ops' = ?R" using *(1,3) by simp
    obtain ops2 where "flush_loop oc fmt ops' ?lens i' c1 = (case write_exact c1 (concat (map (tnet_encode fmt) vs)) of (r, c') \<Rightarrow> Some (r, ops2, c'))"
      using Cons.IH [of i' ops' ?lens c1] Cons.prems(1,3) *(1,2) R bnd ls(1) len by auto
    then show ?thesis using step w Inr by (auto simp: write_exact_append split: prod.split)
  qed
qed

text \<open>The call that records one operation, and a sequence of calls up to the first error.\<close>

fun tn_call :: "'f tnet_writer \<Rightarrow> 'f op \<Rightarrow> (io_error + unit) \<times> 'f tnet_writer" where
  "tn_call w OpInvalid = (Inr (), w)"
| "tn_call w OpNull = write_null w"
| "tn_call w (OpBool b) = write_bool w b"
| "tn_call w (OpInt x) = write_int w x"
| "tn_call w (OpFloat x) = write_float w x"
| "tn_call w (OpString s) = write_string w s"
| "tn_call w OpStartArray = start_array w"
| "tn_call w OpEndArray = end_array w"
| "tn_call w OpStartMap = start_map w"
| "tn_call w OpEndMap = end_map w"

fun tn_calls :: "'f tnet_writer \<Rightarrow> 'f op list \<Rightarrow> (io_error + unit) \<times> 'f tnet_writer" where
  "tn_calls w [] = (Inr (), w)"
| "tn_calls w (p # ps) = (case tn_call w p of (Inl e, w) \<Rightarrow> (Inl e, w) | (Inr _, w) \<Rightarrow> tn_calls w ps)"

lemma tn_call_append: "p \<noteq> OpInvalid \<Longrightarrow> tn_call w p = tn_append w p"
  by (cases p) (simp_all add: write_null_def write_bool_def write_int_def write_float_def write_string_def
      start_array_def end_array_def start_map_def end_map_def)

lemma tn_calls_ops:
  "\<forall>p \<in> set ps. p \<noteq> OpInvalid \<Longrightarrow> length (tn_ops w) + length ps \<le> OPS_MAX \<Longrightarrow>
    tn_calls w ps = (Inr (), w\<lparr>tn_ops := tn_ops w @ ps\<rparr>)"
proof (induction ps arbitrary: w)
  case (Cons p ps)
  then have "tn_call w p = (Inr (), w\<lparr>tn_ops := tn_ops w @ [p]\<rparr>)" by (simp add: tn_call_append tn_append_def)
  then show ?case using Cons by simp
qed simp

lemma tn_calls_full:
  "\<forall>p \<in> set ps. p \<noteq> OpInvalid \<Longrightarrow> length (tn_ops w) \<le> OPS_MAX \<Longrightarrow> OPS_MAX < length (tn_ops w) + length ps \<Longrightarrow> fst (tn_calls w ps) = Inl WriteZero"
proof (induction ps arbitrary: w)
  case (Cons p ps)
  have p: "tn_call w p = tn_append w p" using Cons.prems(1) by (simp add: tn_call_append)
  show ?case
  proof (cases "length (tn_ops w) = OPS_MAX")
    case True
    then show ?thesis by (simp add: p tn_append_def)
  next
    case False
    then show ?thesis using Cons.IH [of "w\<lparr>tn_ops := tn_ops w @ [p]\<rparr>"] Cons.prems by (simp add: p tn_append_def)
  qed
qed simp

lemma writer_encodes:
  assumes "\<forall>v \<in> set vs. tnet_ok fmt v" and "length (concat (map ops_of vs)) \<le> OPS_MAX"
  shows "\<exists>w. tn_calls (tn_new dest) (concat (map ops_of vs)) = (Inr (), w)
    \<and> (\<exists>w'. tn_flush oc fmt w = Some (fst (write_exact dest (concat (map (tnet_encode fmt) vs))), w')
         \<and> tn_dest w' = snd (write_exact dest (concat (map (tnet_encode fmt) vs))))"
proof -
  let ?ops = "concat (map ops_of vs)" and ?w = "write_exact dest (concat (map (tnet_encode fmt) vs))"
  have "\<forall>p \<in> set ?ops. p \<noteq> OpInvalid" using ops_of_valid by (metis (no_types, lifting) UN_E image_iff set_concat set_map)
  with assms(2) have c: "tn_calls (tn_new dest) ?ops = (Inr (), \<lparr>tn_ops = ?ops, tn_dest = dest\<rparr>)"
    by (simp add: tn_calls_ops tn_new_def)
  obtain ops' where "flush_loop oc fmt ?ops (replicate (length ?ops) 0) 0 dest = (case ?w of (r, c') \<Rightarrow> Some (r, ops', c'))"
    using flush_loop_values [OF assms(1), of 0 ?ops "replicate (length ?ops) 0"] by auto
  then have "\<exists>w'. tn_flush oc fmt \<lparr>tn_ops = ?ops, tn_dest = dest\<rparr> = Some (fst ?w, w') \<and> tn_dest w' = snd ?w"
    by (cases ?w) (auto simp: tn_flush_def split: sum.split)
  with c show ?thesis by blast
qed

text \<open>
  Property C21. The writer is correct for every list of values whose integers are above \<open>isize::MIN\<close> and whose floats have at
  most 64 characters. If the calls that describe them are at most 1000 operations they succeed, and \<open>flush\<close> does not
  panic and writes exactly the concatenated encodings, with every nested length prefix right, if they fit the destination; if
  they do not fit it writes as much as fits and returns \<open>WriteZero\<close>. With more operations one of the calls returns
  \<open>WriteZero\<close>. The smallest integer is excluded because it is measured wrongly, see below.
\<close>

theorem tnet_writer_encodes:
  assumes "\<forall>v \<in> set vs. tnet_ok fmt v"
  shows "\<exists>r w. tn_calls (tn_new dest) (concat (map ops_of vs)) = (r, w)
    \<and> (if length (concat (map ops_of vs)) \<le> OPS_MAX
       then r = Inr () \<and> (\<exists>w'. tn_flush oc fmt w = Some (fst (write_exact dest (concat (map (tnet_encode fmt) vs))), w')
         \<and> tn_dest w' = snd (write_exact dest (concat (map (tnet_encode fmt) vs))))
       else r = Inl WriteZero)"
proof (cases "length (concat (map ops_of vs)) \<le> OPS_MAX")
  case True
  then show ?thesis using writer_encodes [OF assms True, of dest oc] by auto
next
  case False
  have "\<forall>p \<in> set (concat (map ops_of vs)). p \<noteq> OpInvalid" using ops_of_valid by (metis (no_types, lifting) UN_E image_iff set_concat set_map)
  then have "fst (tn_calls (tn_new dest) (concat (map ops_of vs))) = Inl WriteZero"
    using False by (intro tn_calls_full) (simp_all add: tn_new_def)
  then show ?thesis using False by (cases "tn_calls (tn_new dest) (concat (map ops_of vs))") simp
qed

theorem tnet_writer_encodes_witness:
  "\<exists>w w'. tn_calls (tn_new \<lparr>cur_buf = replicate 16 0, cur_pos = 0\<rparr>) [OpStartMap, OpString [97], OpInt 7, OpEndMap] = (Inr (), w)
    \<and> tn_flush True (\<lambda>(_::unit). []) w = Some (Inr (), w') \<and> cur_buf (tn_dest w') = str ''8:1:a,1:7#}'' @ replicate 5 0"
proof -
  let ?v = "TMap [([97], TInt 7)] :: unit tnet"
  have ops: "ops_of ?v = [OpStartMap, OpString [97], OpInt 7, OpEndMap]" by simp
  have enc: "tnet_encode (\<lambda>_. []) ?v = str ''8:1:a,1:7#}''"
    by (simp add: tnet_encode_def frame_bytes_def dec_digits.simps dec_of_int_def digit_byte_def chr_def)
  have wr: "write_exact \<lparr>cur_buf = replicate 16 0, cur_pos = 0\<rparr> (str ''8:1:a,1:7#}'')
      = (Inr (), \<lparr>cur_buf = str ''8:1:a,1:7#}'' @ replicate 5 0, cur_pos = 11\<rparr>)"
    by (simp add: write_exact_def cursor_write_def overwrite_def numeral_eq_Suc)
  have "\<forall>v \<in> set [?v]. tnet_ok (\<lambda>_. []) v" "length (concat (map ops_of [?v])) \<le> OPS_MAX"
    by (simp_all add: OPS_MAX_def isize_min_def isize_max_def)
  from tnet_writer_encodes [OF this(1), of "\<lparr>cur_buf = replicate 16 0, cur_pos = 0\<rparr>" True]
  show ?thesis using ops enc wr \<open>length (concat (map ops_of [?v])) \<le> OPS_MAX\<close> by (auto simp del: str_simps)
qed

text \<open>
  The smallest integer is outside that range for a reason: with overflow checks measuring
  it panics, and without them its length is taken to be 2, so that the frame written for it is rejected
  by \<open>parse_frame\<close>.
\<close>

lemma tnet_writer_min_int:
  "isize_len True isize_min = panic \<and> isize_len False isize_min = Some 2
    \<and> op_bytes fmt (OpInt isize_min) 2 = str ''2:-9223372036854775808#''
    \<and> parse_frame oc (str ''2:-9223372036854775808#'') = Some (Inl PInvalidData)"
proof -
  have "op_bytes fmt (OpInt isize_min) 2 = str ''2:-9223372036854775808#''"
    by (simp add: isize_min_def dec_of_int_def dec_digits.simps digit_byte_def chr_def)
  moreover have "parse_frame oc (str ''2:-9223372036854775808#'') = Some (Inl PInvalidData)"
  proof -
    have "parse_usize [50] = Some 2" by (simp add: parse_usize_def is_digit_def usize_max_def)
    from parse_frame_in_range [OF _ this, of oc "str ''-9223372036854775808#''"]
    show ?thesis by (simp add: is_digit_def usize_max_def chr_def frame_type_of_def)
  qed
  ultimately show ?thesis
    by (simp add: isize_len_def isize_abs_def isize_min_def isize_len_loop.simps)
qed

end
