(* ===== verification/TnetSerde.thy ===== *)
theory TnetSerde
  imports Tnetstring
begin

text \<open>
  The serde serializer of \<open>src/core/tnetstring.rs\<close> (\<open>mod serde_ser\<close>, \<open>to_bytes\<close>). serde drives it with
  the calls of its data model; \<open>sval\<close> is a value of that data model, and \<open>serialize\<close> makes the calls
  that serde makes for it, on a stack of growing buffers. The theorem says that \<open>to_bytes\<close> never
  panics and gives the tnetstring encoding of the value.
\<close>

section \<open>The serializer\<close>

text \<open>The stack of buffers, innermost first.\<close>

record serializer =
  ser_bufs :: "bytes list"

definition ser_new :: serializer where
  "ser_new = \<lparr>ser_bufs = [[]]\<rparr>"

definition ser_output :: "serializer \<Rightarrow> bytes run" where
  "ser_output s = (case ser_bufs s of [b] \<Rightarrow> Some b | _ \<Rightarrow> panic)"

definition start_buf :: "serializer \<Rightarrow> serializer" where
  "start_buf s = s\<lparr>ser_bufs := [] # ser_bufs s\<rparr>"

definition ser_add :: "serializer \<Rightarrow> bytes \<Rightarrow> u8 \<Rightarrow> serializer run" where
  "ser_add s data ftype =
     (case ser_bufs s of
        [] \<Rightarrow> panic
      | b # bs \<Rightarrow> Some (s\<lparr>ser_bufs := (b @ dec_digits (length data) @ str '':'' @ data @ [ftype]) # bs\<rparr>))"

definition end_buf :: "serializer \<Rightarrow> u8 \<Rightarrow> serializer run" where
  "end_buf s ftype =
     (case ser_bufs s of
        [] \<Rightarrow> panic
      | b # bs \<Rightarrow> ser_add (s\<lparr>ser_bufs := bs\<rparr>) b ftype)"

section \<open>Scalars\<close>

definition serialize_bool :: "serializer \<Rightarrow> bool \<Rightarrow> serializer run" where
  "serialize_bool s v = ser_add s (if v then str ''true'' else str ''false'') (chr CHR ''!'')"

definition serialize_i64 :: "serializer \<Rightarrow> int \<Rightarrow> serializer run" where
  "serialize_i64 s v = ser_add s (dec_of_int v) (chr CHR ''#'')"

definition serialize_u64 :: "serializer \<Rightarrow> nat \<Rightarrow> serializer run" where
  "serialize_u64 s v = ser_add s (dec_digits v) (chr CHR ''#'')"

definition serialize_f64 :: "('f \<Rightarrow> bytes) \<Rightarrow> serializer \<Rightarrow> 'f \<Rightarrow> serializer run" where
  "serialize_f64 fmt s v = ser_add s (fmt v) (chr CHR ''^'')"

definition serialize_bytes :: "serializer \<Rightarrow> bytes \<Rightarrow> serializer run" where
  "serialize_bytes s v = ser_add s v (chr CHR '','')"

definition serialize_str :: "serializer \<Rightarrow> bytes \<Rightarrow> serializer run" where
  "serialize_str s v = serialize_bytes s v"

definition serialize_char :: "serializer \<Rightarrow> nat \<Rightarrow> serializer run" where
  "serialize_char s v = serialize_bytes s (utf8_encode_char v)"

definition serialize_unit :: "serializer \<Rightarrow> serializer run" where
  "serialize_unit s = ser_add s [] (chr CHR ''~'')"

section \<open>The data model\<close>

text \<open>
  The integer types narrower than 64 bits are widened by the serializer first, so a signed and an
  unsigned constructor stand for all of them.
\<close>

datatype 'f sval =
    SBool bool
  | SInt int
  | SUint nat
  | SFloat 'f
  | SChar nat
  | SStr bytes
  | SBytes bytes
  | SNone
  | SSome "'f sval"
  | SUnit
  | SUnitStruct
  | SUnitVariant bytes
  | SNewtypeStruct "'f sval"
  | SNewtypeVariant bytes "'f sval"
  | SSeq "'f sval list"
  | STuple "'f sval list"
  | STupleStruct "'f sval list"
  | STupleVariant bytes "'f sval list"
  | SMap "('f sval \<times> 'f sval) list"
  | SStruct "(bytes \<times> 'f sval) list"
  | SStructVariant bytes "(bytes \<times> 'f sval) list"

text \<open>Running one step after the other, as the \<open>?\<close> chains and the element calls do.\<close>

fun run_all :: "(serializer \<Rightarrow> serializer run) list \<Rightarrow> serializer \<Rightarrow> serializer run" where
  "run_all [] s = Some s"
| "run_all (f # fs) s = do { s \<leftarrow> f s; run_all fs s }"

fun serialize :: "('f \<Rightarrow> bytes) \<Rightarrow> 'f sval \<Rightarrow> serializer \<Rightarrow> serializer run" where
  "serialize fmt (SBool b) s = serialize_bool s b"
| "serialize fmt (SInt x) s = serialize_i64 s x"
| "serialize fmt (SUint x) s = serialize_u64 s x"
| "serialize fmt (SFloat x) s = serialize_f64 fmt s x"
| "serialize fmt (SChar c) s = serialize_char s c"
| "serialize fmt (SStr v) s = serialize_str s v"
| "serialize fmt (SBytes v) s = serialize_bytes s v"
| "serialize fmt SNone s = serialize_unit s"
| "serialize fmt (SSome v) s = serialize fmt v s"
| "serialize fmt SUnit s = serialize_unit s"
| "serialize fmt SUnitStruct s = serialize_unit s"
| "serialize fmt (SUnitVariant name) s = serialize_str s name"
| "serialize fmt (SNewtypeStruct v) s = serialize fmt v s"
| "serialize fmt (SNewtypeVariant name v) s = do {
     s \<leftarrow> serialize_str (start_buf s) name;
     s \<leftarrow> serialize fmt v s;
     end_buf s (chr CHR ''}'')
   }"
| "serialize fmt (SSeq vs) s = do {
     s \<leftarrow> run_all (map (\<lambda>v. serialize fmt v) vs) (start_buf s);
     end_buf s (chr CHR '']'')
   }"
| "serialize fmt (STuple vs) s = do {
     s \<leftarrow> run_all (map (\<lambda>v. serialize fmt v) vs) (start_buf s);
     end_buf s (chr CHR '']'')
   }"
| "serialize fmt (STupleStruct vs) s = do {
     s \<leftarrow> run_all (map (\<lambda>v. serialize fmt v) vs) (start_buf s);
     end_buf s (chr CHR '']'')
   }"
| "serialize fmt (STupleVariant name vs) s = do {
     s \<leftarrow> serialize_str (start_buf s) name;
     s \<leftarrow> run_all (map (\<lambda>v. serialize fmt v) vs) (start_buf s);
     s \<leftarrow> end_buf s (chr CHR '']'');
     end_buf s (chr CHR ''}'')
   }"
| "serialize fmt (SMap kvs) s = do {
     s \<leftarrow> run_all (map (\<lambda>(k, v). \<lambda>s. do { s \<leftarrow> serialize fmt k s; serialize fmt v s }) kvs) (start_buf s);
     end_buf s (chr CHR ''}'')
   }"
| "serialize fmt (SStruct fs) s = do {
     s \<leftarrow> run_all (map (\<lambda>(k, v). \<lambda>s. do { s \<leftarrow> serialize_str s k; serialize fmt v s }) fs) (start_buf s);
     end_buf s (chr CHR ''}'')
   }"
| "serialize fmt (SStructVariant name fs) s = do {
     s \<leftarrow> serialize_str (start_buf s) name;
     s \<leftarrow> run_all (map (\<lambda>(k, v). \<lambda>s. do { s \<leftarrow> serialize_str s k; serialize fmt v s }) fs) (start_buf s);
     s \<leftarrow> end_buf s (chr CHR ''}'');
     end_buf s (chr CHR ''}'')
   }"

definition to_bytes :: "('f \<Rightarrow> bytes) \<Rightarrow> 'f sval \<Rightarrow> bytes run" where
  "to_bytes fmt v = do { s \<leftarrow> serialize fmt v ser_new; ser_output s }"

section \<open>Correctness\<close>

text \<open>The tnetstring value of a serde value: variants are maps with one entry, named by the variant.\<close>

fun key_bytes :: "'f sval \<Rightarrow> bytes option" where
  "key_bytes (SStr s) = Some s"
| "key_bytes (SBytes s) = Some s"
| "key_bytes (SChar c) = Some (utf8_encode_char c)"
| "key_bytes (SUnitVariant s) = Some s"
| "key_bytes (SSome v) = key_bytes v"
| "key_bytes (SNewtypeStruct v) = key_bytes v"
| "key_bytes _ = None"

fun tnet_of :: "'f sval \<Rightarrow> 'f tnet" where
  "tnet_of (SBool b) = TBool b"
| "tnet_of (SInt x) = TInt x"
| "tnet_of (SUint x) = TInt (int x)"
| "tnet_of (SFloat x) = TFloat x"
| "tnet_of (SChar c) = TString (utf8_encode_char c)"
| "tnet_of (SStr s) = TString s"
| "tnet_of (SBytes s) = TString s"
| "tnet_of SNone = TNull"
| "tnet_of (SSome v) = tnet_of v"
| "tnet_of SUnit = TNull"
| "tnet_of SUnitStruct = TNull"
| "tnet_of (SUnitVariant s) = TString s"
| "tnet_of (SNewtypeStruct v) = tnet_of v"
| "tnet_of (SNewtypeVariant s v) = TMap [(s, tnet_of v)]"
| "tnet_of (SSeq vs) = TArray (map tnet_of vs)"
| "tnet_of (STuple vs) = TArray (map tnet_of vs)"
| "tnet_of (STupleStruct vs) = TArray (map tnet_of vs)"
| "tnet_of (STupleVariant s vs) = TMap [(s, TArray (map tnet_of vs))]"
| "tnet_of (SMap kvs) = TMap (map (\<lambda>(k, v). (the (key_bytes k), tnet_of v)) kvs)"
| "tnet_of (SStruct fs) = TMap (map (\<lambda>(k, v). (k, tnet_of v)) fs)"
| "tnet_of (SStructVariant s fs) = TMap [(s, TMap (map (\<lambda>(k, v). (k, tnet_of v)) fs))]"

text \<open>The format has string keys only: the keys of every map must be strings.\<close>

fun string_keys :: "'f sval \<Rightarrow> bool" where
  "string_keys (SSome v) \<longleftrightarrow> string_keys v"
| "string_keys (SNewtypeStruct v) \<longleftrightarrow> string_keys v"
| "string_keys (SNewtypeVariant s v) \<longleftrightarrow> string_keys v"
| "string_keys (SSeq vs) \<longleftrightarrow> (\<forall>v \<in> set vs. string_keys v)"
| "string_keys (STuple vs) \<longleftrightarrow> (\<forall>v \<in> set vs. string_keys v)"
| "string_keys (STupleStruct vs) \<longleftrightarrow> (\<forall>v \<in> set vs. string_keys v)"
| "string_keys (STupleVariant s vs) \<longleftrightarrow> (\<forall>v \<in> set vs. string_keys v)"
| "string_keys (SMap kvs) \<longleftrightarrow> (\<forall>(k, v) \<in> set kvs. key_bytes k \<noteq> None \<and> string_keys v)"
| "string_keys (SStruct fs) \<longleftrightarrow> (\<forall>(k, v) \<in> set fs. string_keys v)"
| "string_keys (SStructVariant s fs) \<longleftrightarrow> (\<forall>(k, v) \<in> set fs. string_keys v)"
| "string_keys v \<longleftrightarrow> True"

text \<open>A step that appends the given bytes to the innermost buffer.\<close>

definition appends :: "(serializer \<Rightarrow> serializer run) \<Rightarrow> bytes \<Rightarrow> bool" where
  "appends f d \<longleftrightarrow> (\<forall>b bs. f \<lparr>ser_bufs = b # bs\<rparr> = Some \<lparr>ser_bufs = (b @ d) # bs\<rparr>)"

lemma appendsI: "(\<And>b bs. f \<lparr>ser_bufs = b # bs\<rparr> = Some \<lparr>ser_bufs = (b @ d) # bs\<rparr>) \<Longrightarrow> appends f d"
  by (simp add: appends_def)

lemma appendsD: "appends f d \<Longrightarrow> f \<lparr>ser_bufs = b # bs\<rparr> = Some \<lparr>ser_bufs = (b @ d) # bs\<rparr>"
  by (simp add: appends_def)

lemma ser_add_frame [simp]:
  "ser_add \<lparr>ser_bufs = b # bs\<rparr> d (type_byte t) = Some \<lparr>ser_bufs = (b @ frame_bytes d t) # bs\<rparr>"
  by (simp add: ser_add_def frame_bytes_def chr_def)

lemma type_chars:
  "chr CHR ''!'' = type_byte FBool" "chr CHR ''#'' = type_byte FInt" "chr CHR ''^'' = type_byte FFloat"
  "chr CHR '','' = type_byte FString" "chr CHR ''~'' = type_byte FNull" "chr CHR '']'' = type_byte FArray"
  "chr CHR ''}'' = type_byte FMap"
  by (simp_all add: chr_def)

lemma scalar_appends:
  "appends (\<lambda>s. serialize_bool s v1) (tnet_encode fmt (TBool v1))"
  "appends (\<lambda>s. serialize_i64 s v2) (tnet_encode fmt (TInt v2))"
  "appends (\<lambda>s. serialize_u64 s v3) (tnet_encode fmt (TInt (int v3)))"
  "appends (\<lambda>s. serialize_f64 fmt s v4) (tnet_encode fmt (TFloat v4))"
  "appends (\<lambda>s. serialize_bytes s v5) (tnet_encode fmt (TString v5))"
  "appends (\<lambda>s. serialize_str s v5) (tnet_encode fmt (TString v5))"
  "appends (\<lambda>s. serialize_char s v6) (tnet_encode fmt (TString (utf8_encode_char v6)))"
  "appends (\<lambda>s. serialize_unit s) (tnet_encode fmt TNull)"
  by (simp_all add: appends_def serialize_bool_def serialize_i64_def serialize_u64_def serialize_f64_def serialize_bytes_def
      serialize_str_def serialize_char_def serialize_unit_def type_chars tnet_encode_def bool_bytes_def dec_of_int_def del: type_byte.simps)

lemma seq_appends: "appends f a \<Longrightarrow> appends g b \<Longrightarrow> appends (\<lambda>s. do { s \<leftarrow> f s; g s }) (a @ b)"
  by (simp add: appends_def)

lemma run_all_appends:
  assumes "\<forall>x \<in> set xs. appends (f x) (d x)"
  shows "appends (run_all (map f xs)) (concat (map d xs))"
  using assms
proof (induction xs)
  case Nil
  then show ?case by (simp add: appends_def)
next
  case (Cons x xs)
  then show ?case by (simp add: appends_def)
qed

text \<open>A nested buffer: start, fill, end.\<close>

lemma nested_appends:
  assumes "appends f d" and "c = type_byte t"
  shows "appends (\<lambda>s. do { s \<leftarrow> f (start_buf s); end_buf s c }) (frame_bytes d t)"
  using assms by (simp add: appends_def start_buf_def end_buf_def)

lemma key_appends: "key_bytes k = Some s \<Longrightarrow> appends (serialize fmt k) (frame_bytes s FString)"
  using scalar_appends(5-7) [where fmt = fmt]
  by (induction k) (auto simp: tnet_encode_def appends_def)

lemma encode_array: "tnet_encode fmt (TArray vs) = frame_bytes (concat (map (tnet_encode fmt) vs)) FArray"
  by (simp add: tnet_encode_def) (metis (no_types, lifting) tnet_encode_def map_eq_conv)

lemma encode_map: "tnet_encode fmt (TMap kvs) = frame_bytes (concat (map (\<lambda>(k, v). frame_bytes k FString @ tnet_encode fmt v) kvs)) FMap"
  by (simp add: tnet_encode_def)

lemma array_appends:
  assumes "\<forall>v \<in> set vs. appends (serialize fmt v) (tnet_encode fmt (tnet_of v))"
  shows "appends (\<lambda>s. do { s \<leftarrow> run_all (map (\<lambda>v. serialize fmt v) vs) (start_buf s); end_buf s (chr CHR '']'') })
    (tnet_encode fmt (TArray (map tnet_of vs)))"
  using nested_appends [OF run_all_appends [OF assms], of "chr CHR '']''" FArray]
  by (simp add: encode_array type_chars comp_def)

lemma fields_appends:
  assumes "\<forall>(k, v) \<in> set fs. appends (serialize fmt v) (tnet_encode fmt (tnet_of v))"
  shows "appends (run_all (map (\<lambda>(k, v). \<lambda>s. do { s \<leftarrow> serialize_str s k; serialize fmt v s }) fs))
    (concat (map (\<lambda>(k, v). frame_bytes k FString @ tnet_encode fmt (tnet_of v)) fs))"
proof (rule run_all_appends, rule ballI)
  fix x assume x: "x \<in> set fs"
  obtain k v where kv: "x = (k, v)" by force
  have "appends (\<lambda>s. do { s \<leftarrow> serialize_str s k; serialize fmt v s }) (tnet_encode fmt (TString k) @ tnet_encode fmt (tnet_of v))"
    using assms x kv by (intro seq_appends scalar_appends) auto
  then show "appends (case x of (k, v) \<Rightarrow> \<lambda>s. do { s \<leftarrow> serialize_str s k; serialize fmt v s })
      (case x of (k, v) \<Rightarrow> frame_bytes k FString @ tnet_encode fmt (tnet_of v))"
    using kv by (simp add: tnet_encode_def)
qed

lemma struct_appends:
  assumes "\<forall>(k, v) \<in> set fs. appends (serialize fmt v) (tnet_encode fmt (tnet_of v))"
  shows "appends (\<lambda>s. do { s \<leftarrow> run_all (map (\<lambda>(k, v). \<lambda>s. do { s \<leftarrow> serialize_str s k; serialize fmt v s }) fs) (start_buf s); end_buf s (chr CHR ''}'') })
    (tnet_encode fmt (TMap (map (\<lambda>(k, v). (k, tnet_of v)) fs)))"
  using nested_appends [OF fields_appends [OF assms], of "chr CHR ''}''" FMap]
  by (simp add: encode_map type_chars comp_def case_prod_unfold)

lemma variant_appends:
  assumes "appends f (tnet_encode fmt v)"
  shows "appends (\<lambda>s. do { s \<leftarrow> serialize_str (start_buf s) name; s \<leftarrow> f s; end_buf s (chr CHR ''}'') }) (tnet_encode fmt (TMap [(name, v)]))"
proof -
  have "appends (\<lambda>s. do { s \<leftarrow> serialize_str s name; f s }) (tnet_encode fmt (TString name) @ tnet_encode fmt v)"
    using scalar_appends(6) assms by (rule seq_appends)
  from nested_appends [OF this, of "chr CHR ''}''" FMap] show ?thesis
    by (simp add: encode_map type_chars tnet_encode_def [of _ "TString name"])
qed

lemma serialize_appends: "string_keys v \<Longrightarrow> appends (serialize fmt v) (tnet_encode fmt (tnet_of v))"
proof (induction v)
  case (SMap kvs)
  have "\<forall>x \<in> set kvs. appends (case x of (k, v) \<Rightarrow> \<lambda>s. do { s \<leftarrow> serialize fmt k s; serialize fmt v s })
      (case x of (k, v) \<Rightarrow> frame_bytes (the (key_bytes k)) FString @ tnet_encode fmt (tnet_of v))"
  proof
    fix x assume x: "x \<in> set kvs"
    obtain k v where kv: "x = (k, v)" by force
    with x SMap.prems obtain b where b: "key_bytes k = Some b" and v: "string_keys v" by auto
    have "appends (serialize fmt v) (tnet_encode fmt (tnet_of v))"
      using SMap.IH(2) [OF x, of v] kv v by (simp add: snds.simps)
    then show "appends (case x of (k, v) \<Rightarrow> \<lambda>s. do { s \<leftarrow> serialize fmt k s; serialize fmt v s })
      (case x of (k, v) \<Rightarrow> frame_bytes (the (key_bytes k)) FString @ tnet_encode fmt (tnet_of v))"
      using seq_appends [OF key_appends [OF b]] kv b by simp
  qed
  from nested_appends [OF run_all_appends [OF this], of "chr CHR ''}''" FMap] show ?case
    by (simp add: appends_def encode_map type_chars comp_def case_prod_unfold)
next
  case (SNewtypeVariant name v)
  then show ?case using variant_appends [of "serialize fmt v" fmt "tnet_of v" name] by (simp add: appends_def)
next
  case (STupleVariant name vs)
  then show ?case using variant_appends [OF array_appends, of vs fmt name] by (simp add: appends_def)
next
  case (SStructVariant name fs)
  then have "\<forall>(k, v) \<in> set fs. appends (serialize fmt v) (tnet_encode fmt (tnet_of v))" by (fastforce simp: snds.simps)
  from variant_appends [OF struct_appends [OF this], of name] show ?case by (simp add: appends_def)
next
  case (SStruct fs)
  then have "\<forall>(k, v) \<in> set fs. appends (serialize fmt v) (tnet_encode fmt (tnet_of v))" by (fastforce simp: snds.simps)
  from struct_appends [OF this] show ?case by (simp add: appends_def)
next
  case (SSeq vs)
  then show ?case using array_appends [of vs fmt] by (simp add: appends_def)
next
  case (STuple vs)
  then show ?case using array_appends [of vs fmt] by (simp add: appends_def)
next
  case (STupleStruct vs)
  then show ?case using array_appends [of vs fmt] by (simp add: appends_def)
qed (use scalar_appends [where fmt = fmt] in \<open>simp_all add: appends_def\<close>)

text \<open>
  Property C22. For every value of the serde data model whose map keys are strings, \<open>to_bytes\<close> does not
  panic (its stack of buffers is balanced) and returns exactly the tnetstring encoding of the value, with
  structs and maps as maps, sequences and tuples as arrays, and enum variants as maps named by the variant.
\<close>

theorem serde_to_bytes_encodes:
  assumes "string_keys v"
  shows "to_bytes fmt v = Some (tnet_encode fmt (tnet_of v))"
  using appendsD [OF serialize_appends [OF assms, of fmt], of "[]" "[]"]
  by (simp add: to_bytes_def ser_new_def ser_output_def)

theorem serde_to_bytes_encodes_witness:
  "to_bytes (\<lambda>(_::unit). []) (SStruct [(str ''a'', SSeq [SUint 1, SNone]), (str ''b'', SUnitVariant (str ''X''))])
    = Some (str ''22:1:a,7:1:1#0:~]1:b,1:X,}'')"
proof -
  let ?v = "SStruct [(str ''a'', SSeq [SUint 1, SNone]), (str ''b'', SUnitVariant (str ''X''))] :: unit sval"
  have "tnet_encode (\<lambda>_. []) (tnet_of ?v) = str ''22:1:a,7:1:1#0:~]1:b,1:X,}''"
    by (simp add: tnet_encode_def frame_bytes_def dec_digits.simps dec_of_int_def digit_byte_def chr_def)
  with serde_to_bytes_encodes [of ?v "\<lambda>_. []"] show ?thesis by simp
qed

end
