(* ===== verification/WsFrame.thy ===== *)
theory WsFrame
  imports Text
begin

text \<open>
  The WebSocket wire format of \<open>src/connmgr/websocket.rs\<close>: frame headers (\<open>header_size\<close>, \<open>read_header\<close>,
  \<open>write_header\<close>), masking (\<open>apply_mask\<close>, \<open>apply_mask_vectored\<close>) and the parameters of the
  permessage-deflate extension (\<open>PerMessageDeflateConfig\<close>). The theorems are the round trip of headers,
  that a truncated header is recognized as such, that masking is its own inverse and does not depend on
  how the bytes are split, and that the extension parameters survive printing and parsing.
\<close>

unbundle bit_operations_syntax

section \<open>Big-endian numbers\<close>

fun be_bytes :: "nat \<Rightarrow> nat \<Rightarrow> bytes" where
  "be_bytes 0 n = []"
| "be_bytes (Suc k) n = be_bytes k (n div 256) @ [of_nat n]"

definition be_nat :: "bytes \<Rightarrow> nat" where
  "be_nat bs = foldl (\<lambda>a b. a * 256 + unat b) 0 bs"

section \<open>Headers\<close>

datatype mask = Mask u8 u8 u8 u8

fun mask_bytes :: "mask \<Rightarrow> bytes" where
  "mask_bytes (Mask a b c d) = [a, b, c, d]"

fun mask_of :: "bytes \<Rightarrow> mask run" where
  "mask_of [a, b, c, d] = Some (Mask a b c d)"
| "mask_of _ = panic"

record frame_info =
  fi_fin :: bool
  fi_rsv1 :: bool
  fi_opcode :: u8
  fi_mask :: "mask option"
  fi_payload_offset :: nat
  fi_payload_size :: nat

definition HEADER_SIZE_MAX :: nat where "HEADER_SIZE_MAX = 14"
definition PSIZE_3BYTE :: nat where "PSIZE_3BYTE = 126"
definition PSIZE_9BYTE :: nat where "PSIZE_9BYTE = 65536"

definition header_size :: "nat \<Rightarrow> bool \<Rightarrow> nat" where
  "header_size payload_size masked =
     (let n = (if payload_size < PSIZE_3BYTE then 1 + 1
               else if payload_size < PSIZE_9BYTE then 1 + 3 else 1 + 9)
      in if masked then n + 4 else n)"

text \<open>The size of the header before the mask, and the payload size it announces.\<close>

definition read_psize :: "bytes \<Rightarrow> (io_error + nat \<times> nat) run" where
  "read_psize buf = do {
     b \<leftarrow> index_at buf 1;
     let b1 = b AND 0x7f;
     if b1 < of_nat PSIZE_3BYTE then Some (Inr (2, unat b1))
     else if b1 = of_nat PSIZE_3BYTE then
       (if length buf < 2 + 2 then Some (Inl UnexpectedEof)
        else do { arr \<leftarrow> subslice buf 2 4; Some (Inr (4, be_nat arr)) })
     else
       (if length buf < 2 + 8 then Some (Inl UnexpectedEof)
        else do { arr \<leftarrow> subslice buf 2 10; Some (Inr (10, be_nat arr)) })
   }"

definition read_header :: "bytes \<Rightarrow> (io_error + frame_info) run" where
  "read_header buf =
     (if length buf < 2 then Some (Inl UnexpectedEof)
      else do {
        r \<leftarrow> read_psize buf;
        case r of
          Inl e \<Rightarrow> Some (Inl e)
        | Inr (hsize, psize) \<Rightarrow> do {
            b0 \<leftarrow> index_at buf 0;
            b1 \<leftarrow> index_at buf 1;
            let info = (\<lambda>mk hsize. \<lparr>fi_fin = (b0 AND 0x80 \<noteq> 0), fi_rsv1 = (b0 AND 0x40 \<noteq> 0), fi_opcode = b0 AND 0x0f,
                         fi_mask = mk, fi_payload_offset = hsize, fi_payload_size = psize\<rparr>);
            if b1 AND 0x80 \<noteq> 0 then
              (if length buf < hsize + 4 then Some (Inl UnexpectedEof)
               else do {
                 bytes \<leftarrow> subslice buf hsize (hsize + 4);
                 m \<leftarrow> mask_of bytes;
                 Some (Inr (info (Some m) (hsize + 4)))
               })
            else Some (Inr (info None hsize))
          }
      })"

definition header_b0 :: "bool \<Rightarrow> bool \<Rightarrow> u8 \<Rightarrow> u8" where
  "header_b0 fin rsv1 opcode = (if fin then 0x80 else 0) OR (if rsv1 then 0x40 else 0) OR (opcode AND 0x0f)"

definition write_header ::
  "bool \<Rightarrow> bool \<Rightarrow> u8 \<Rightarrow> nat \<Rightarrow> mask option \<Rightarrow> bytes \<Rightarrow> ((io_error + nat) \<times> bytes) run" where
  "write_header fin rsv1 opcode payload_size mk buf =
     (let hsize = header_size payload_size (mk \<noteq> None) in
      if length buf < hsize then Some (Inl WriteZero, buf)
      else do {
        let buf = buf[0 := header_b0 fin rsv1 opcode];
        (hsize, buf) \<leftarrow>
          (if payload_size < PSIZE_3BYTE then Some (2, buf[1 := of_nat payload_size])
           else if payload_size < PSIZE_9BYTE then do {
             buf \<leftarrow> copy_from_slice (buf[1 := of_nat PSIZE_3BYTE]) 2 4 (be_bytes 2 payload_size);
             Some (4, buf)
           } else do {
             buf \<leftarrow> copy_from_slice (buf[1 := 0x7f]) 2 10 (be_bytes 8 payload_size);
             Some (10, buf)
           });
        case mk of
          Some m \<Rightarrow> do {
            b1 \<leftarrow> index_at buf 1;
            buf \<leftarrow> copy_from_slice (buf[1 := b1 OR 0x80]) hsize (hsize + 4) (mask_bytes m);
            Some (Inr (hsize + 4), buf)
          }
        | None \<Rightarrow> Some (Inr hsize, buf)
      })"

section \<open>Masking\<close>

definition mask_at :: "mask \<Rightarrow> nat \<Rightarrow> u8" where
  "mask_at m i = mask_bytes m ! (i mod 4)"

definition apply_mask :: "bytes \<Rightarrow> mask \<Rightarrow> nat \<Rightarrow> bytes" where
  "apply_mask buf m offset = map (\<lambda>(i, c). c XOR mask_at m (offset + i)) (enumerate 0 buf)"

fun mask_vectored_loop :: "bytes list \<Rightarrow> mask \<Rightarrow> nat \<Rightarrow> nat \<Rightarrow> bytes list" where
  "mask_vectored_loop [] m offset count = []"
| "mask_vectored_loop (buf # bufs) m offset count =
     apply_mask buf m (offset + count) # mask_vectored_loop bufs m offset (count + length buf)"

definition apply_mask_vectored :: "bytes list \<Rightarrow> mask \<Rightarrow> nat \<Rightarrow> bytes list" where
  "apply_mask_vectored bufs m offset = mask_vectored_loop bufs m offset 0"

section \<open>The permessage-deflate extension\<close>

definition DEFAULT_MAX_WINDOW_BITS :: nat where "DEFAULT_MAX_WINDOW_BITS = 15"

text \<open>\<open>str::parse\<close> into a \<open>u8\<close>.\<close>

definition parse_u8 :: "bytes \<Rightarrow> nat option" where
  "parse_u8 bs =
     (case bs of
        [] \<Rightarrow> None
      | b # rest \<Rightarrow> if b = 43 \<and> rest \<noteq> [] then parse_digits 255 0 rest else parse_digits 255 0 bs)"

definition parse_empty :: "bytes \<Rightarrow> bool \<Rightarrow> io_error + bool" where
  "parse_empty s dest = (if dest \<or> s \<noteq> [] then Inl InvalidData else Inr True)"

definition parse_bits :: "bytes \<Rightarrow> nat option \<Rightarrow> nat option \<Rightarrow> io_error + nat option" where
  "parse_bits s dest dflt =
     (if dest \<noteq> None then Inl InvalidData
      else if s = [] \<and> dflt \<noteq> None then Inr dflt
      else case parse_u8 s of
        None \<Rightarrow> Inl InvalidData
      | Some x \<Rightarrow> if 8 \<le> x \<and> x \<le> 15 then Inr (Some x) else Inl InvalidData)"

record deflate_config =
  client_no_context_takeover :: bool
  server_no_context_takeover :: bool
  client_max_window_bits :: nat
  server_max_window_bits :: nat

definition deflate_config_default :: deflate_config where
  "deflate_config_default = \<lparr>client_no_context_takeover = False, server_no_context_takeover = False,
     client_max_window_bits = DEFAULT_MAX_WINDOW_BITS, server_max_window_bits = DEFAULT_MAX_WINDOW_BITS\<rparr>"

text \<open>The loop over the parameters; the iterator's items are its argument.\<close>

fun params_loop :: "(io_error + bytes \<times> bytes) list \<Rightarrow> bool \<Rightarrow> bool \<Rightarrow> nat option \<Rightarrow> nat option \<Rightarrow>
    io_error + (bool \<times> bool \<times> nat option \<times> nat option)" where
  "params_loop [] cnct snct cbits sbits = Inr (cnct, snct, cbits, sbits)"
| "params_loop (Inl e # ps) cnct snct cbits sbits = Inl e"
| "params_loop (Inr (k, v) # ps) cnct snct cbits sbits =
     (if k = str ''client_no_context_takeover'' then
        (case parse_empty v cnct of Inl e \<Rightarrow> Inl e | Inr cnct \<Rightarrow> params_loop ps cnct snct cbits sbits)
      else if k = str ''server_no_context_takeover'' then
        (case parse_empty v snct of Inl e \<Rightarrow> Inl e | Inr snct \<Rightarrow> params_loop ps cnct snct cbits sbits)
      else if k = str ''client_max_window_bits'' then
        (case parse_bits v cbits (Some 15) of Inl e \<Rightarrow> Inl e | Inr cbits \<Rightarrow> params_loop ps cnct snct cbits sbits)
      else if k = str ''server_max_window_bits'' then
        (case parse_bits v sbits None of Inl e \<Rightarrow> Inl e | Inr sbits \<Rightarrow> params_loop ps cnct snct cbits sbits)
      else Inl InvalidData)"

definition unwrap_or :: "'a option \<Rightarrow> 'a \<Rightarrow> 'a" where
  "unwrap_or x d = (case x of Some v \<Rightarrow> v | None \<Rightarrow> d)"

definition from_params :: "(io_error + bytes \<times> bytes) list \<Rightarrow> io_error + deflate_config" where
  "from_params params =
     (case params_loop params False False None None of
        Inl e \<Rightarrow> Inl e
      | Inr (cnct, snct, cbits, sbits) \<Rightarrow>
          Inr \<lparr>client_no_context_takeover = cnct, server_no_context_takeover = snct,
               client_max_window_bits = unwrap_or cbits DEFAULT_MAX_WINDOW_BITS,
               server_max_window_bits = unwrap_or sbits DEFAULT_MAX_WINDOW_BITS\<rparr>)"

definition create_response :: "deflate_config \<Rightarrow> unit + deflate_config" where
  "create_response c =
     (if server_max_window_bits c \<noteq> DEFAULT_MAX_WINDOW_BITS then Inl ()
      else Inr \<lparr>client_no_context_takeover = client_no_context_takeover c,
                server_no_context_takeover = server_no_context_takeover c,
                client_max_window_bits = DEFAULT_MAX_WINDOW_BITS, server_max_window_bits = DEFAULT_MAX_WINDOW_BITS\<rparr>)"

definition check_response :: "deflate_config \<Rightarrow> unit + unit" where
  "check_response c = (if client_max_window_bits c \<noteq> DEFAULT_MAX_WINDOW_BITS then Inl () else Inr ())"

text \<open>The parameters that \<open>serialize\<close> prints, and its text.\<close>

definition config_params :: "deflate_config \<Rightarrow> (bytes \<times> bytes) list" where
  "config_params c =
     (if client_no_context_takeover c then [(str ''client_no_context_takeover'', [])] else []) @
     (if server_no_context_takeover c then [(str ''server_no_context_takeover'', [])] else []) @
     (if client_max_window_bits c \<noteq> DEFAULT_MAX_WINDOW_BITS
      then [(str ''client_max_window_bits'', dec_digits (client_max_window_bits c))] else []) @
     (if server_max_window_bits c \<noteq> DEFAULT_MAX_WINDOW_BITS
      then [(str ''server_max_window_bits'', dec_digits (server_max_window_bits c))] else [])"

definition config_serialize :: "deflate_config \<Rightarrow> bytes" where
  "config_serialize c =
     (if client_no_context_takeover c then str ''; client_no_context_takeover'' else []) @
     (if server_no_context_takeover c then str ''; server_no_context_takeover'' else []) @
     (if client_max_window_bits c \<noteq> DEFAULT_MAX_WINDOW_BITS
      then str ''; client_max_window_bits='' @ dec_digits (client_max_window_bits c) else []) @
     (if server_max_window_bits c \<noteq> DEFAULT_MAX_WINDOW_BITS
      then str ''; server_max_window_bits='' @ dec_digits (server_max_window_bits c) else [])"

section \<open>Header lemmas\<close>

lemma length_be_bytes [simp]: "length (be_bytes k n) = k"
  by (induction k n rule: be_bytes.induct) simp_all

lemma be_nat_snoc [simp]: "be_nat (bs @ [b]) = be_nat bs * 256 + unat b"
  by (simp add: be_nat_def)

lemma be_nat_be_bytes: "be_nat (be_bytes k n) = n mod 256 ^ k"
proof (induction k n rule: be_bytes.induct)
  case (1 n)
  then show ?case by (simp add: be_nat_def)
next
  case (2 k n)
  have "n mod (256 * 256 ^ k) = 256 * (n div 256 mod 256 ^ k) + n mod 256" by (simp add: mod_mult2_eq)
  with 2 show ?case by (simp add: unat_of_nat take_bit_eq_mod)
qed

lemma header_b0_bits [simp]:
  "header_b0 fin rsv1 opcode AND 0x80 \<noteq> 0 \<longleftrightarrow> fin" "header_b0 fin rsv1 opcode AND 0x40 \<noteq> 0 \<longleftrightarrow> rsv1"
  "header_b0 fin rsv1 opcode AND 0x0f = opcode AND 0x0f"
  by (simp_all add: header_b0_def word_ao_dist and.assoc)

lemma small_and_7f: "p < 128 \<Longrightarrow> (of_nat p :: u8) AND 0x7f = of_nat p"
proof -
  assume "p < 128"
  have "(of_nat p :: u8) AND 0x7f = take_bit 7 (of_nat p)" by (simp add: take_bit_eq_mask mask_eq_exp_minus_1)
  also have "\<dots> = of_nat (take_bit 7 p)" by (simp add: take_bit_of_nat)
  finally show ?thesis using \<open>p < 128\<close> by (simp add: take_bit_nat_eq_self)
qed

lemma small_and_80: "p < 128 \<Longrightarrow> (of_nat p :: u8) AND 0x80 = 0"
proof -
  assume "p < 128"
  then have "(of_nat p :: u8) AND 0x80 = (of_nat p AND 0x7f) AND 0x80" by (simp add: small_and_7f)
  then show ?thesis by (simp add: and.assoc)
qed

text \<open>The header as a list of bytes.\<close>

definition header_bytes :: "bool \<Rightarrow> bool \<Rightarrow> u8 \<Rightarrow> nat \<Rightarrow> mask option \<Rightarrow> bytes" where
  "header_bytes fin rsv1 opcode n mk =
     (let m = (if mk = None then 0 else 0x80 :: u8) in
      header_b0 fin rsv1 opcode #
      (if n < 126 then [of_nat n OR m] else if n < 65536 then (126 OR m) # be_bytes 2 n else (0x7f OR m) # be_bytes 8 n) @
      (case mk of None \<Rightarrow> [] | Some k \<Rightarrow> mask_bytes k))"

lemma length_mask_bytes [simp]: "length (mask_bytes m) = 4"
  by (cases m) simp

lemma length_header_bytes: "length (header_bytes fin rsv1 opcode n mk) = header_size n (mk \<noteq> None)"
  by (auto simp: header_bytes_def header_size_def PSIZE_3BYTE_def PSIZE_9BYTE_def Let_def split: option.split)

lemma copy_from_slice_cons2:
  "length rest \<ge> k \<Longrightarrow> length xs = k \<Longrightarrow> copy_from_slice (a # b # rest) 2 (2 + k) xs = Some (a # b # xs @ drop k rest)"
  by (simp add: copy_from_slice_def overwrite_def)

lemma copy_from_slice_middle:
  "length pre = h \<Longrightarrow> length xs = k \<Longrightarrow> length rest \<ge> k \<Longrightarrow>
    copy_from_slice (pre @ rest) h (h + k) xs = Some (pre @ xs @ drop k rest)"
  by (simp add: copy_from_slice_def overwrite_def)

lemma write_header_ok:
  assumes "header_size n (mk \<noteq> None) \<le> length buf"
  shows "write_header fin rsv1 opcode n mk buf =
    Some (Inr (header_size n (mk \<noteq> None)), header_bytes fin rsv1 opcode n mk @ drop (header_size n (mk \<noteq> None)) buf)"
proof -
  obtain a b rest where buf: "buf = a # b # rest"
    using assms by (cases buf; cases "tl buf") (auto simp: header_size_def Let_def split: if_splits)
  let ?h = "header_b0 fin rsv1 opcode"
  consider "n < 126" | "126 \<le> n" "n < 65536" | "65536 \<le> n" by linarith
  then show ?thesis
  proof cases
    case 1
    then show ?thesis
      using assms buf copy_from_slice_middle [of "[?h, of_nat n OR 0x80]" 2 "mask_bytes (the mk)" 4 rest]
      by (cases mk) (auto simp: write_header_def header_size_def header_bytes_def PSIZE_3BYTE_def PSIZE_9BYTE_def Let_def)
  next
    case 2
    have "copy_from_slice (?h # 126 # rest) 2 4 (be_bytes 2 n) = Some (?h # 126 # be_bytes 2 n @ drop 2 rest)"
      using copy_from_slice_cons2 [of 2 rest "be_bytes 2 n"] assms buf 2
      by (auto simp: header_size_def PSIZE_3BYTE_def PSIZE_9BYTE_def split: if_splits)
    with 2 show ?thesis
      using assms buf copy_from_slice_middle [of "?h # (126 OR 0x80) # be_bytes 2 n" 4 "mask_bytes (the mk)" 4 "drop 2 rest"]
      by (cases mk) (auto simp: write_header_def header_size_def header_bytes_def PSIZE_3BYTE_def PSIZE_9BYTE_def Let_def)
  next
    case 3
    have "copy_from_slice (?h # 0x7f # rest) 2 10 (be_bytes 8 n) = Some (?h # 0x7f # be_bytes 8 n @ drop 8 rest)"
      using copy_from_slice_cons2 [of 8 rest "be_bytes 8 n"] assms buf 3
      by (auto simp: header_size_def PSIZE_3BYTE_def PSIZE_9BYTE_def split: if_splits)
    with 3 show ?thesis
      using assms buf copy_from_slice_middle [of "?h # (0x7f OR 0x80) # be_bytes 8 n" 10 "mask_bytes (the mk)" 4 "drop 8 rest"]
      by (cases mk) (auto simp: write_header_def header_size_def header_bytes_def PSIZE_3BYTE_def PSIZE_9BYTE_def Let_def)
  qed
qed

lemma read_header_long:
  assumes "2 \<le> length buf"
  shows "read_header buf =
    (case read_psize buf of
       None \<Rightarrow> None
     | Some (Inl e) \<Rightarrow> Some (Inl e)
     | Some (Inr (hsize, psize)) \<Rightarrow>
         (let info = (\<lambda>mk hsize. \<lparr>fi_fin = (buf ! 0 AND 0x80 \<noteq> 0), fi_rsv1 = (buf ! 0 AND 0x40 \<noteq> 0), fi_opcode = buf ! 0 AND 0x0f,
            fi_mask = mk, fi_payload_offset = hsize, fi_payload_size = psize\<rparr>) in
          if buf ! 1 AND 0x80 \<noteq> 0 then
            (if length buf < hsize + 4 then Some (Inl UnexpectedEof)
             else map_option (\<lambda>m. Inr (info (Some m) (hsize + 4))) (mask_of (take 4 (drop hsize buf))))
          else Some (Inr (info None hsize))))"
proof -
  have "index_at buf 0 = Some (buf ! 0)" "index_at buf 1 = Some (buf ! 1)"
    using assms by (intro index_at_eq, linarith)+
  with assms show ?thesis
    by (auto simp: read_header_def Let_def map_option_case split: option.split sum.split)
qed

lemma mask_of_4: "length xs = 4 \<Longrightarrow> \<exists>m. mask_of xs = Some m"
  by (auto simp: numeral_eq_Suc length_Suc_conv)

lemma read_header_total: "\<exists>r. read_header buf = Some r"
proof (cases "length buf < 2")
  case True
  then show ?thesis by (simp add: read_header_def)
next
  case False
  then have "\<exists>r. read_psize buf = Some r" by (auto simp: read_psize_def Let_def)
  moreover have "\<exists>m. mask_of (take 4 (drop h buf)) = Some m" if "h + 4 \<le> length buf" for h
  proof -
    have "length (take 4 (drop h buf)) = 4" using that by simp
    from mask_of_4 [OF this] show ?thesis .
  qed
  ultimately show ?thesis
    using False by (fastforce simp: read_header_long not_less Let_def split: sum.split)
qed

lemma be_nat_2: "n < 65536 \<Longrightarrow> be_nat (be_bytes 2 n) = n" and be_nat_8: "n < 2 ^ 64 \<Longrightarrow> be_nat (be_bytes 8 n) = n"
  by (simp_all add: be_nat_be_bytes)

lemma or_80_simps [simp]:
  "p < 128 \<Longrightarrow> ((of_nat p :: u8) OR 0x80) AND 0x7f = of_nat p"
  "((of_nat p :: u8) OR 0x80) AND 0x80 = 0x80"
  by (simp_all add: word_ao_dist small_and_7f)

lemma of_nat_less_126: "p < 126 \<Longrightarrow> (of_nat p :: u8) < 126"
  by (simp add: word_less_nat_alt unat_of_nat take_bit_nat_eq_self)

lemma read_psize_header:
  assumes "n < 2 ^ 64"
  shows "read_psize (header_bytes fin rsv1 opcode n mk @ rest) = Some (Inr (header_size n False, n))"
proof -
  consider "n < 126" | "126 \<le> n" "n < 65536" | "65536 \<le> n" by linarith
  then show ?thesis
  proof cases
    case 1
    have "((of_nat n :: u8) OR (if mk = None then 0 else 0x80)) AND 0x7f = of_nat n" using 1 small_and_7f [of n] by simp
    with 1 show ?thesis
      using of_nat_less_126 [OF 1]
      by (simp add: read_psize_def header_bytes_def header_size_def PSIZE_3BYTE_def PSIZE_9BYTE_def Let_def unat_of_nat take_bit_nat_eq_self)
  next
    case 2
    then show ?thesis
      using be_nat_2 [of n]
      by (auto simp: read_psize_def header_bytes_def header_size_def PSIZE_3BYTE_def PSIZE_9BYTE_def Let_def)
  next
    case 3
    then show ?thesis
      using be_nat_8 [OF assms]
      by (auto simp: read_psize_def header_bytes_def header_size_def PSIZE_3BYTE_def PSIZE_9BYTE_def Let_def)
  qed
qed

lemma header_byte_0: "(header_bytes fin rsv1 opcode n mk @ rest) ! 0 = header_b0 fin rsv1 opcode"
  by (simp add: header_bytes_def Let_def)

lemma header_byte_1: "(header_bytes fin rsv1 opcode n mk @ rest) ! 1 AND 0x80 \<noteq> 0 \<longleftrightarrow> mk \<noteq> None"
  using small_and_80 [of n] by (auto simp: header_bytes_def Let_def)

lemma header_size_mask: "header_size n True = header_size n False + 4"
  by (simp add: header_size_def Let_def)

lemma header_size_ge: "2 \<le> header_size n m"
  by (simp add: header_size_def Let_def)

lemma header_split:
  "header_bytes fin rsv1 opcode n mk = take (header_size n False) (header_bytes fin rsv1 opcode n mk) @ (case mk of None \<Rightarrow> [] | Some k \<Rightarrow> mask_bytes k)"
  by (auto simp: header_bytes_def header_size_def PSIZE_3BYTE_def PSIZE_9BYTE_def Let_def split: option.split)

lemma read_header_ok:
  assumes "n < 2 ^ 64"
  shows "read_header (header_bytes fin rsv1 opcode n mk @ rest) = Some (Inr \<lparr>fi_fin = fin, fi_rsv1 = rsv1,
    fi_opcode = opcode AND 0x0f, fi_mask = mk, fi_payload_offset = header_size n (mk \<noteq> None), fi_payload_size = n\<rparr>)"
proof -
  let ?h = "header_bytes fin rsv1 opcode n mk" and ?s = "header_size n False"
  have len: "length ?h = header_size n (mk \<noteq> None)" by (rule length_header_bytes)
  have long: "2 \<le> length (?h @ rest)" using header_size_ge [of n "mk \<noteq> None"] by (simp add: len)
  have mask: "mask_of (take 4 (drop ?s (?h @ rest))) = Some k" if k: "mk = Some k" for k
  proof -
    have "length (take ?s ?h) = ?s" using len k header_size_mask [of n] by simp
    then have "drop ?s (?h @ rest) = mask_bytes k @ rest"
      using header_split [of fin rsv1 opcode n mk] k by (metis (no_types, lifting) append.assoc append_eq_conv_conj option.simps(5))
    then show ?thesis by (cases k) simp
  qed
  show ?thesis
    unfolding read_header_long [OF long] read_psize_header [OF assms] header_byte_0
    using header_byte_1 [of fin rsv1 opcode n mk rest] mask len header_size_mask [of n]
    by (cases mk) (auto simp: Let_def)
qed

lemma read_header_truncated:
  assumes "k < header_size n (mk \<noteq> None)"
  shows "read_header (take k (header_bytes fin rsv1 opcode n mk)) = Some (Inl UnexpectedEof)"
proof -
  let ?h = "header_bytes fin rsv1 opcode n mk"
  show ?thesis
  proof (cases "k < 2")
    case True
    then have "length (take k ?h) < 2" by (simp add: min_less_iff_disj)
    then show ?thesis unfolding read_header_def by simp
  next
    case False
    have b1: "take k ?h ! 1 = ?h ! 1" using False by simp
    have len: "length (take k ?h) = k" using assms by (simp add: length_header_bytes)
    consider "n < 126" | "126 \<le> n" "n < 65536" | "65536 \<le> n" by linarith
    then show ?thesis
    proof cases
      case 1
      have "((of_nat n :: u8) OR (if mk = None then 0 else 0x80)) AND 0x7f = of_nat n" using 1 small_and_7f [of n] by simp
      then have "read_psize (take k ?h) = Some (Inr (2, n))"
        using 1 False len b1 of_nat_less_126 [OF 1]
        by (simp add: read_psize_def header_bytes_def PSIZE_3BYTE_def PSIZE_9BYTE_def Let_def unat_of_nat take_bit_nat_eq_self)
      moreover have "mk \<noteq> None" using 1 False assms by (auto simp: header_size_def PSIZE_3BYTE_def split: if_splits)
      moreover have "k < 6" using 1 assms calculation(2) by (simp add: header_size_def PSIZE_3BYTE_def)
      ultimately show ?thesis
        using False len header_byte_1 [of fin rsv1 opcode n mk "[]"] b1 by (simp add: read_header_long Let_def)
    next
      case 2
      then have ps: "read_psize (take k ?h) = Some (if k < 4 then Inl UnexpectedEof else Inr (4, be_nat (take 2 (drop 2 (take k ?h)))))"
        using False len b1 by (auto simp: read_psize_def header_bytes_def PSIZE_3BYTE_def PSIZE_9BYTE_def Let_def)
      have "mk \<noteq> None \<and> k < 8" if "\<not> k < 4"
        using 2 assms that by (auto simp: header_size_def PSIZE_3BYTE_def PSIZE_9BYTE_def split: if_splits)
      then show ?thesis
        using False len header_byte_1 [of fin rsv1 opcode n mk "[]"] b1 ps by (auto simp: read_header_long Let_def)
    next
      case 3
      then have ps: "read_psize (take k ?h) = Some (if k < 10 then Inl UnexpectedEof else Inr (10, be_nat (take 8 (drop 2 (take k ?h)))))"
        using False len b1 by (auto simp: read_psize_def header_bytes_def PSIZE_3BYTE_def PSIZE_9BYTE_def Let_def)
      have "mk \<noteq> None \<and> k < 14" if "\<not> k < 10"
        using 3 assms that by (auto simp: header_size_def PSIZE_3BYTE_def PSIZE_9BYTE_def split: if_splits)
      then show ?thesis
        using False len header_byte_1 [of fin rsv1 opcode n mk "[]"] b1 ps by (auto simp: read_header_long Let_def)
    qed
  qed
qed

section \<open>Masking lemmas\<close>

lemma length_apply_mask [simp]: "length (apply_mask buf m off) = length buf"
  by (simp add: apply_mask_def)

lemma nth_apply_mask: "i < length buf \<Longrightarrow> apply_mask buf m off ! i = buf ! i XOR mask_at m (off + i)"
  by (simp add: apply_mask_def nth_enumerate_eq)

lemma apply_mask_append: "apply_mask (a @ b) m off = apply_mask a m off @ apply_mask b m (off + length a)"
  by (rule nth_equalityI) (auto simp: nth_apply_mask nth_append add.assoc)

lemma apply_mask_involution [simp]: "apply_mask (apply_mask buf m off) m off = buf"
  by (rule nth_equalityI) (simp_all add: nth_apply_mask xor.assoc)

lemma apply_mask_mod: "apply_mask buf m (off mod 4) = apply_mask buf m off"
  by (rule nth_equalityI) (simp_all add: nth_apply_mask mask_at_def mod_add_left_eq)

lemma apply_mask_take: "take n (apply_mask buf m off) = apply_mask (take n buf) m off"
  by (rule nth_equalityI) (auto simp: nth_apply_mask)

lemma apply_mask_drop: "drop n (apply_mask buf m off) = apply_mask (drop n buf) m (off + n)"
  by (rule nth_equalityI) (auto simp: nth_apply_mask add.assoc)

lemma apply_mask_Nil [simp]: "apply_mask [] m off = []"
  by (simp add: apply_mask_def)

lemma concat_mask_loop: "concat (mask_vectored_loop bufs m off c) = apply_mask (concat bufs) m (off + c)"
  by (induction bufs m off c rule: mask_vectored_loop.induct) (simp_all add: apply_mask_append add.assoc)

lemma map_length_mask_loop: "map length (mask_vectored_loop bufs m off c) = map length bufs"
  by (induction bufs m off c rule: mask_vectored_loop.induct) simp_all

lemma concat_apply_mask_vectored: "concat (apply_mask_vectored bufs m off) = apply_mask (concat bufs) m off"
  by (simp add: apply_mask_vectored_def concat_mask_loop)

lemma map_length_apply_mask_vectored [simp]: "map length (apply_mask_vectored bufs m off) = map length bufs"
  by (simp add: apply_mask_vectored_def map_length_mask_loop)

section \<open>Properties\<close>

text \<open>
  Property C23. Headers round-trip. \<open>write_header\<close> into a buffer that is long enough writes a header that
  \<open>read_header\<close> reads back, with everything that follows it left alone: the flags, the low four bits of the
  opcode, the mask, the size of the header and the payload size, for every payload size of 64 bits. Any
  proper prefix of the header is reported as incomplete, and \<open>read_header\<close> panics on no input.
\<close>

theorem ws_header_roundtrip:
  assumes "header_size n (mk \<noteq> None) \<le> length buf" and "n < 2 ^ 64"
  shows "\<exists>buf'. write_header fin rsv1 opcode n mk buf = Some (Inr (header_size n (mk \<noteq> None)), buf')
    \<and> length buf' = length buf \<and> drop (header_size n (mk \<noteq> None)) buf' = drop (header_size n (mk \<noteq> None)) buf
    \<and> read_header buf' = Some (Inr \<lparr>fi_fin = fin, fi_rsv1 = rsv1, fi_opcode = opcode AND 0x0f, fi_mask = mk,
         fi_payload_offset = header_size n (mk \<noteq> None), fi_payload_size = n\<rparr>)
    \<and> (\<forall>k < header_size n (mk \<noteq> None). read_header (take k buf') = Some (Inl UnexpectedEof))"
  using write_header_ok [OF assms(1), of fin rsv1 opcode] read_header_ok [OF assms(2), of fin rsv1 opcode mk]
    read_header_truncated [of _ n mk fin rsv1 opcode] length_header_bytes [of fin rsv1 opcode n mk] assms(1)
  by simp

theorem ws_header_roundtrip_witness:
  "\<exists>buf'. write_header True False 1 70000 (Some (Mask 1 2 3 4)) (replicate 20 0) = Some (Inr 14, buf') \<and>
     read_header buf' = Some (Inr \<lparr>fi_fin = True, fi_rsv1 = False, fi_opcode = 1, fi_mask = Some (Mask 1 2 3 4),
         fi_payload_offset = 14, fi_payload_size = 70000\<rparr>)"
  using ws_header_roundtrip [of 70000 "Some (Mask 1 2 3 4)" "replicate 20 0" True False 1]
  by (auto simp: header_size_def PSIZE_3BYTE_def PSIZE_9BYTE_def)

text \<open>
  Masking is its own inverse, and masking a message in pieces (split at any points, each
  piece from the offset it has in the message) is the same as masking it whole.
\<close>

lemma ws_mask_inverse_and_split:
  "apply_mask (apply_mask buf m off) m off = buf
    \<and> concat (apply_mask_vectored bufs m off) = apply_mask (concat bufs) m off
    \<and> concat (apply_mask_vectored (apply_mask_vectored bufs m off) m off) = concat bufs
    \<and> map length (apply_mask_vectored bufs m off) = map length bufs"
  by (simp add: concat_apply_mask_vectored)

lemma parse_bits_dec: "8 \<le> n \<Longrightarrow> n \<le> 15 \<Longrightarrow> parse_bits (dec_digits n) None d = Inr (Some n)"
proof -
  assume n: "8 \<le> n" "n \<le> 15"
  obtain b rest where b: "dec_digits n = b # rest" by (meson dec_digits_nonempty neq_Nil_conv)
  then have "is_digit b" using dec_digits_hd [of n] by simp
  then have "b \<noteq> 43" by auto
  then have "parse_u8 (dec_digits n) = Some n" using parse_dec_digits [of n 255] n b by (simp add: parse_u8_def)
  then show ?thesis using n by (simp add: parse_bits_def)
qed

lemma param_names_distinct:
  "str ''server_no_context_takeover'' \<noteq> str ''client_no_context_takeover''"
  "str ''client_max_window_bits'' \<noteq> str ''client_no_context_takeover''"
  "str ''client_max_window_bits'' \<noteq> str ''server_no_context_takeover''"
  "str ''server_max_window_bits'' \<noteq> str ''client_no_context_takeover''"
  "str ''server_max_window_bits'' \<noteq> str ''server_no_context_takeover''"
  "str ''server_max_window_bits'' \<noteq> str ''client_max_window_bits''"
  by (simp_all add: chr_def)

lemma from_params_config:
  assumes "8 \<le> client_max_window_bits c" and "client_max_window_bits c \<le> 15"
    and "8 \<le> server_max_window_bits c" and "server_max_window_bits c \<le> 15"
  shows "from_params (map Inr (config_params c)) = Inr c"
  using assms param_names_distinct
  by (cases c) (simp add: from_params_def config_params_def parse_bits_dec parse_empty_def unwrap_or_def DEFAULT_MAX_WINDOW_BITS_def del: str_simps)

text \<open>One printed parameter: \<open>; name\<close> or \<open>; name=value\<close>.\<close>

definition param_text :: "bytes \<times> bytes \<Rightarrow> bytes" where
  "param_text p = str ''; '' @ fst p @ (if snd p = [] then [] else str ''='' @ snd p)"

lemma config_serialize_params: "config_serialize c = concat (map param_text (config_params c))"
  by (simp add: config_serialize_def config_params_def param_text_def)

text \<open>
  \<open>serialize\<close> prints one \<open>; name\<close> or \<open>; name=value\<close> for each parameter of a configuration, and
  every configuration that \<open>from_params\<close> can return (window bits from 8 to 15) is
  returned again for the parameters that \<open>serialize\<close> prints, and any response the server creates to it
  passes the check of \<open>check_response\<close> and survives the same round trip.
\<close>

lemma deflate_config_roundtrip:
  assumes "8 \<le> client_max_window_bits c" and "client_max_window_bits c \<le> 15"
    and "8 \<le> server_max_window_bits c" and "server_max_window_bits c \<le> 15"
  shows "config_serialize c = concat (map param_text (config_params c)) \<and> from_params (map Inr (config_params c)) = Inr c
    \<and> (\<forall>r. create_response c = Inr r \<longrightarrow> check_response r = Inr () \<and> from_params (map Inr (config_params r)) = Inr r)"
proof (intro conjI allI impI)
  show "config_serialize c = concat (map param_text (config_params c))" by (rule config_serialize_params)
  show "from_params (map Inr (config_params c)) = Inr c" using assms by (rule from_params_config)
  fix r assume "create_response c = Inr r"
  then have r: "client_max_window_bits r = 15" "server_max_window_bits r = 15"
    by (auto simp: create_response_def DEFAULT_MAX_WINDOW_BITS_def split: if_splits)
  then show "check_response r = Inr ()" by (simp add: check_response_def DEFAULT_MAX_WINDOW_BITS_def)
  show "from_params (map Inr (config_params r)) = Inr r" using r by (intro from_params_config) simp_all
qed

end
