(* ===== verification/WsDeflate.thy ===== *)
theory WsDeflate
  imports Vectored
begin

text \<open>
  The permessage-deflate codec of \<open>src/connmgr/websocket.rs\<close>: \<open>deflate_helper\<close>, \<open>DeflateEncoder\<close> (which
  holds back the last bytes of the compressed stream so that the final sync marker is never sent) and
  \<open>DeflateDecoder\<close> (which feeds the missing marker to the decompressor at the end of a message).

  The compressor and the decompressor are those of the \<open>miniz_oxide\<close> crate, and are arguments: functions
  from a state, the input and the room for output to the status, the number of bytes consumed, the
  output and the next state. What the code relies on is \<open>codec_bounded\<close>: no more input is consumed than
  was given and no more output is produced than there was room for.

  An output slice \<open>dest: &mut [u8]\<close> is its length as an argument and the bytes written to its front as a
  result: the code never reads what the slice held before.
\<close>

section \<open>The library interface\<close>

datatype mz_status = MZ_Ok | MZ_StreamEnd | MZ_NeedDict
datatype mz_error = MZE_ErrNo | MZE_Stream | MZE_Data | MZE_Mem | MZE_Buf | MZE_Version | MZE_Param
datatype mz_flush = MZF_None | MZF_Sync

record 's stream_result =
  sr_status :: "mz_error + mz_status"
  sr_consumed :: nat
  sr_output :: bytes
  sr_state :: 's

type_synonym 's codec = "'s \<Rightarrow> bytes \<Rightarrow> nat \<Rightarrow> mz_flush \<Rightarrow> 's stream_result"

definition codec_bounded :: "'s codec \<Rightarrow> bool" where
  "codec_bounded f \<longleftrightarrow> (\<forall>s inp n fl. sr_consumed (f s inp n fl) \<le> length inp \<and> length (sr_output (f s inp n fl)) \<le> n)"

section \<open>Constants and the ArrayVec extension\<close>

definition SYNC_MARKER :: bytes where "SYNC_MARKER = [0x00, 0x00, 0xff, 0xff]"
definition ENC_MIN_OUTPUT_SIZE :: nat where "ENC_MIN_OUTPUT_SIZE = 7"
definition ENC_NEXT_BUF_SIZE :: nat where "ENC_NEXT_BUF_SIZE = length SYNC_MARKER + ENC_MIN_OUTPUT_SIZE"

definition array_resize :: "nat \<Rightarrow> 'a list \<Rightarrow> nat \<Rightarrow> 'a \<Rightarrow> 'a list run" where
  "array_resize cap xs new_len v = do {
     assert_that (new_len \<le> cap);
     if new_len > length xs then Some (xs @ replicate (new_len - length xs) v)
     else if new_len < length xs then Some (take new_len xs)
     else Some xs
   }"

definition shift_left :: "'a list \<Rightarrow> nat \<Rightarrow> 'a list run" where
  "shift_left xs amount = do {
     assert_that (amount \<le> length xs);
     ys \<leftarrow> copy_within xs amount (length xs) 0;
     Some (take (length xs - amount) ys)
   }"

definition ends_with :: "'a list \<Rightarrow> 'a list \<Rightarrow> bool" where
  "ends_with xs suf \<longleftrightarrow> length suf \<le> length xs \<and> drop (length xs - length suf) xs = suf"

section \<open>Encoder\<close>

datatype deflate_error = UnexpectedStatus "mz_error + mz_status" | NoProgressDuringSync

definition deflate_helper ::
  "'c codec \<Rightarrow> 'c \<Rightarrow> bytes \<Rightarrow> nat \<Rightarrow> bool \<Rightarrow> ((deflate_error + nat \<times> bytes) \<times> 'c) run" where
  "deflate_helper dfl c input room sync = do {
     assert_that (room \<ge> ENC_MIN_OUTPUT_SIZE);
     let flush = (if sync then MZF_Sync else MZF_None);
     let r = dfl c input room flush;
     if sr_status r \<noteq> Inr MZ_Ok \<and> sr_status r \<noteq> Inl MZE_Buf then Some (Inl (UnexpectedStatus (sr_status r)), sr_state r)
     else do {
       assert_that (sr_consumed r \<le> length input);
       assert_that (length (sr_output r) \<le> room);
       if flush = MZF_Sync \<and> sr_output r = [] then Some (Inl NoProgressDuringSync, sr_state r)
       else Some (Inr (sr_consumed r, sr_output r), sr_state r)
     }
   }"

record 'c deflate_encoder =
  de_enc :: 'c
  de_next_buf :: bytes
  de_flushing :: bool

definition encoder_new :: "'c \<Rightarrow> 'c deflate_encoder" where
  "encoder_new c = \<lparr>de_enc = c, de_next_buf = [], de_flushing = False\<rparr>"

definition encoder_reset :: "('c \<Rightarrow> 'c) \<Rightarrow> 'c deflate_encoder \<Rightarrow> 'c deflate_encoder" where
  "encoder_reset c_reset e = e\<lparr>de_enc := c_reset (de_enc e)\<rparr>"

type_synonym 'c encode_result = "((io_error + nat \<times> bytes \<times> bool) \<times> 'c deflate_encoder) run"

text \<open>
  The recheck for completion at the end of \<open>encode_step\<close>: once the held-back bytes are exactly the
  marker, they are dropped and the end is acknowledged.
\<close>

definition encode_finish :: "'c deflate_encoder \<Rightarrow> nat \<Rightarrow> bytes \<Rightarrow> 'c encode_result" where
  "encode_finish e consumed written =
     (let output_finished = de_flushing e \<and> ends_with (de_next_buf e) SYNC_MARKER in
      if output_finished \<and> length (de_next_buf e) = length SYNC_MARKER then do {
        assert_that (de_next_buf e = SYNC_MARKER);
        Some (Inr (consumed, written, True), e\<lparr>de_next_buf := [], de_flushing := False\<rparr>)
      }
      else Some (Inr (consumed, written, False), e))"

text \<open>
  The encoding part of \<open>encode_step\<close>, after the first move out of \<open>next_buf\<close>: \<open>moved\<close> are the bytes moved,
  \<open>room\<close> what is left of \<open>dest\<close>. After an error \<open>next_buf\<close> stays at its full length.
\<close>

definition encode_into ::
  "'c codec \<Rightarrow> 'c deflate_encoder \<Rightarrow> bytes \<Rightarrow> bool \<Rightarrow> nat \<Rightarrow> bytes \<Rightarrow> 'c encode_result" where
  "encode_into dfl e src encode_into_dest room moved =
     (let next_buf = de_next_buf e in do {
        full \<leftarrow> (if encode_into_dest then Some next_buf
                else array_resize ENC_NEXT_BUF_SIZE next_buf ENC_NEXT_BUF_SIZE 0);
        let output_len = (if encode_into_dest then room else length full - length next_buf);
        assert_that (output_len \<ge> ENC_MIN_OUTPUT_SIZE);
        (r, c) \<leftarrow> deflate_helper dfl (de_enc e) src output_len (de_flushing e);
        case r of
          Inl err \<Rightarrow> Some (Inl OtherError, e\<lparr>de_enc := c, de_next_buf := full\<rparr>)
        | Inr (consumed, out) \<Rightarrow>
            if encode_into_dest then do {
              assert_that (next_buf = []);
              let keep = min (length SYNC_MARKER) (length out);
              encode_finish (e\<lparr>de_enc := c, de_next_buf := drop (length out - keep) out\<rparr>)
                consumed (moved @ take (length out - keep) out)
            } else do {
              let next_buf = take (length next_buf + length out) (overwrite full (length next_buf) out);
              let size = min (length next_buf - length SYNC_MARKER) room;
              next_buf' \<leftarrow> shift_left next_buf size;
              encode_finish (e\<lparr>de_enc := c, de_next_buf := next_buf'\<rparr>) consumed (moved @ take size next_buf)
            }
      })"

definition encode_step :: "'c codec \<Rightarrow> 'c deflate_encoder \<Rightarrow> bytes \<Rightarrow> bool \<Rightarrow> nat \<Rightarrow> 'c encode_result" where
  "encode_step dfl e src fin room =
     (if de_flushing e \<and> (src \<noteq> [] \<or> \<not> fin) then Some (Inl InvalidInput, e)
      else do {
        let e = (if src = [] \<and> fin then e\<lparr>de_flushing := True\<rparr> else e);
        let next_buf = de_next_buf e;
        let output_finished = de_flushing e \<and> ends_with next_buf SYNC_MARKER;
        let dest_large_enough = room \<ge> length next_buf + ENC_MIN_OUTPUT_SIZE;
        let (take_size, encode_into_dest) =
          (if \<not> output_finished \<and> dest_large_enough then (length next_buf, True)
           else (min (length next_buf - length SYNC_MARKER) room, False));
        room \<leftarrow> usize_sub room take_size;
        moved \<leftarrow> subslice next_buf 0 take_size;
        next_buf \<leftarrow> shift_left next_buf take_size;
        let e = e\<lparr>de_next_buf := next_buf\<rparr>;
        let can_encode = encode_into_dest
          \<or> (\<not> output_finished \<and> ENC_NEXT_BUF_SIZE - length next_buf \<ge> ENC_MIN_OUTPUT_SIZE);
        if can_encode then encode_into dfl e src encode_into_dest room moved
        else encode_finish e 0 moved
      })"

definition encode :: "'c codec \<Rightarrow> 'c deflate_encoder \<Rightarrow> bytes \<Rightarrow> bool \<Rightarrow> nat \<Rightarrow> 'c encode_result" where
  "encode dfl e src fin room = do {
     (r, e) \<leftarrow> encode_step dfl e src fin room;
     case r of
       Inl err \<Rightarrow> Some (Inl err, e)
     | Inr (n_read, written, end_ack) \<Rightarrow>
         if src \<noteq> [] \<and> n_read = length src \<and> fin \<and> \<not> end_ack then do {
           room \<leftarrow> usize_sub room (length written);
           (r2, e) \<leftarrow> encode_step dfl e [] fin room;
           case r2 of
             Inl err \<Rightarrow> Some (Inl err, e)
           | Inr (n, w, ea) \<Rightarrow> do {
               assert_that (n = 0);
               Some (Inr (n_read, written @ w, ea), e)
             }
         }
         else Some (Inr (n_read, written, end_ack), e)
   }"

definition encode_to_ringbuffer ::
  "'c codec \<Rightarrow> 'c deflate_encoder \<Rightarrow> bytes \<Rightarrow> bool \<Rightarrow> ring_buffer \<Rightarrow>
    ((io_error + nat \<times> bool) \<times> 'c deflate_encoder \<times> ring_buffer) run" where
  "encode_to_ringbuffer dfl e src fin dest = do {
     (s, t) \<leftarrow> rb_write_range dest;
     (r, e) \<leftarrow> encode dfl e src fin (t - s);
     case r of
       Inl err \<Rightarrow> Some (Inl err, e, dest)
     | Inr (n_read, written, end_ack) \<Rightarrow> do {
         let write_maxed = (length written = t - s);
         dest \<leftarrow> rb_fill dest written;
         dest \<leftarrow> rb_write_commit dest (length written);
         if \<not> end_ack \<and> write_maxed \<and> rb_remaining_capacity dest > 0 then do {
           rest \<leftarrow> subslice src n_read (length src);
           (s, t) \<leftarrow> rb_write_range dest;
           (r2, e) \<leftarrow> encode dfl e rest fin (t - s);
           case r2 of
             Inl err \<Rightarrow> Some (Inl err, e, dest)
           | Inr (n, written, ea) \<Rightarrow> do {
               dest \<leftarrow> rb_fill dest written;
               dest \<leftarrow> rb_write_commit dest (length written);
               Some (Inr (n_read + n, ea), e, dest)
             }
         }
         else Some (Inr (n_read, end_ack), e, dest)
       }
   }"

section \<open>Decoder\<close>

record 'i deflate_decoder =
  dd_dec :: 'i
  dd_marker_pos :: "nat option"

definition decoder_new :: "'i \<Rightarrow> 'i deflate_decoder" where
  "decoder_new i = \<lparr>dd_dec = i, dd_marker_pos = None\<rparr>"

type_synonym 'd decode_result = "((io_error + nat \<times> bytes \<times> bool) \<times> 'd) run"

text \<open>The status check that follows each of the two calls of \<open>inflate\<close>.\<close>

definition inflate_status_ok :: "mz_error + mz_status \<Rightarrow> bool" where
  "inflate_status_ok st \<longleftrightarrow> st = Inr MZ_Ok \<or> st = Inl MZE_Buf"

text \<open>The second half of \<open>decode\<close>, which feeds what is left of the marker.\<close>

definition decode_marker ::
  "'i codec \<Rightarrow> 'i deflate_decoder \<Rightarrow> bool \<Rightarrow> nat \<Rightarrow> nat \<Rightarrow> bytes \<Rightarrow> 'i deflate_decoder decode_result" where
  "decode_marker ifl d fin room consumed written =
     (case dd_marker_pos d of
        None \<Rightarrow> Some (Inr (consumed, written, False), d)
      | Some pos \<Rightarrow>
          if \<not> fin then Some (Inl OtherError, d)
          else do {
            room \<leftarrow> usize_sub room (length written);
            marker_left \<leftarrow> subslice SYNC_MARKER pos (length SYNC_MARKER);
            let r = ifl (dd_dec d) marker_left room MZF_None;
            let d = d\<lparr>dd_dec := sr_state r\<rparr>;
            if \<not> inflate_status_ok (sr_status r) then Some (Inl OtherError, d)
            else do {
              assert_that (sr_consumed r \<le> length marker_left);
              assert_that (length (sr_output r) \<le> room);
              let pos = pos + sr_consumed r;
              if pos = length SYNC_MARKER \<and> length (sr_output r) < room
              then Some (Inr (consumed, written @ sr_output r, True), d\<lparr>dd_marker_pos := None\<rparr>)
              else Some (Inr (consumed, written @ sr_output r, False), d\<lparr>dd_marker_pos := Some pos\<rparr>)
            }
          })"

definition decode ::
  "'i codec \<Rightarrow> 'i deflate_decoder \<Rightarrow> bytes \<Rightarrow> bool \<Rightarrow> nat \<Rightarrow> 'i deflate_decoder decode_result" where
  "decode ifl d src fin room =
     (if dd_marker_pos d = None then do {
        let r = ifl (dd_dec d) src room MZF_None;
        let d = d\<lparr>dd_dec := sr_state r\<rparr>;
        if \<not> inflate_status_ok (sr_status r) then Some (Inl OtherError, d)
        else do {
          assert_that (sr_consumed r \<le> length src);
          assert_that (length (sr_output r) \<le> room);
          let d = (if sr_consumed r = length src \<and> fin then d\<lparr>dd_marker_pos := Some 0\<rparr> else d);
          if length (sr_output r) = room then Some (Inr (sr_consumed r, sr_output r, False), d)
          else decode_marker ifl d fin room (sr_consumed r) (sr_output r)
        }
      }
      else decode_marker ifl d fin room 0 [])"

section \<open>The compressed stream\<close>

text \<open>
  A run of a codec: the bytes it has consumed and the bytes it has produced, over any number of calls.
\<close>

inductive codec_trace :: "'s codec \<Rightarrow> 's \<Rightarrow> bytes \<Rightarrow> bytes \<Rightarrow> 's \<Rightarrow> bool" for f where
  trace_nil: "codec_trace f s [] [] s"
| trace_call: "codec_trace f s i out s' \<Longrightarrow> r = f s' inp n fl \<Longrightarrow>
    codec_trace f s (i @ take (sr_consumed r) inp) (out @ sr_output r) (sr_state r)"

lemma codec_trace_trans:
  assumes "codec_trace f s2 i2 o2 s3" and "codec_trace f s1 i1 o1 s2"
  shows "codec_trace f s1 (i1 @ i2) (o1 @ o2) s3"
  using assms
proof (induction rule: codec_trace.induct)
  case (trace_nil s)
  then show ?case by simp
next
  case (trace_call s i out s' r inp n fl)
  from codec_trace.trace_call [OF trace_call.IH [OF trace_call.prems] trace_call.hyps(2)] show ?case by simp
qed

lemma codec_trace_one: "codec_trace f s (take (sr_consumed (f s inp n fl)) inp) (sr_output (f s inp n fl)) (sr_state (f s inp n fl))"
  using trace_call [OF trace_nil HOL.refl] by fastforce

lemma codec_boundedD:
  "codec_bounded f \<Longrightarrow> sr_consumed (f s inp n fl) \<le> length inp"
  "codec_bounded f \<Longrightarrow> length (sr_output (f s inp n fl)) \<le> n"
  by (simp_all add: codec_bounded_def)

lemma length_SYNC_MARKER [simp]: "length SYNC_MARKER = 4"
  by (simp add: SYNC_MARKER_def)

lemma ENC_NEXT_BUF_SIZE_eq [simp]: "ENC_NEXT_BUF_SIZE = 11"
  by (simp add: ENC_NEXT_BUF_SIZE_def ENC_MIN_OUTPUT_SIZE_def)

lemma shift_left_eq [simp]: "n \<le> length xs \<Longrightarrow> shift_left xs n = Some (drop n xs)"
  by (simp add: shift_left_def copy_within_def overwrite_def)

lemma overwrite_append: "overwrite (xs @ ys) (length xs) zs = xs @ zs @ drop (length zs) ys"
  by (simp add: overwrite_def)

lemma ends_with_full: "length xs = length ys \<Longrightarrow> ends_with xs ys \<longleftrightarrow> xs = ys"
  by (auto simp: ends_with_def)

text \<open>What one step of the encoder does, in terms of the bytes held back and the compressed stream.\<close>

definition encode_effect :: "'c codec \<Rightarrow> 'c deflate_encoder \<Rightarrow> bytes \<Rightarrow> bool \<Rightarrow> bytes \<Rightarrow> bytes \<Rightarrow> bool \<Rightarrow> 'c deflate_encoder \<Rightarrow> bool" where
  "encode_effect dfl e consumed fin src_left out ack e' \<longleftrightarrow>
     (\<exists>raw. codec_trace dfl (de_enc e) consumed raw (de_enc e')
        \<and> de_next_buf e @ raw = out @ (if ack then SYNC_MARKER else de_next_buf e'))
     \<and> (ack \<longrightarrow> fin \<and> src_left = [] \<and> de_next_buf e' = [] \<and> \<not> de_flushing e')"

lemma encode_effect_trans:
  assumes "encode_effect dfl e1 i1 fin1 left1 o1 False e2" and "encode_effect dfl e2 i2 fin2 left2 o2 ack e3"
  shows "encode_effect dfl e1 (i1 @ i2) fin2 left2 (o1 @ o2) ack e3"
proof -
  from assms obtain raw1 raw2 where
    r1: "codec_trace dfl (de_enc e1) i1 raw1 (de_enc e2)" "de_next_buf e1 @ raw1 = o1 @ de_next_buf e2" and
    r2: "codec_trace dfl (de_enc e2) i2 raw2 (de_enc e3)" "de_next_buf e2 @ raw2 = o2 @ (if ack then SYNC_MARKER else de_next_buf e3)"
    by (auto simp: encode_effect_def)
  have "de_next_buf e1 @ raw1 @ raw2 = (o1 @ o2) @ (if ack then SYNC_MARKER else de_next_buf e3)"
    using r1(2) r2(2) by (metis append.assoc)
  with codec_trace_trans [OF r2(1) r1(1)] assms(2) show ?thesis
    by (auto simp: encode_effect_def)
qed

lemma encode_finish_effect:
  assumes "codec_trace dfl (de_enc e) consumed raw (de_enc e2)" and "de_next_buf e @ raw = out @ de_next_buf e2"
    and "de_flushing e2 \<Longrightarrow> fin \<and> src = []"
  shows "\<exists>ack e'. encode_finish e2 k out = Some (Inr (k, out, ack), e') \<and> encode_effect dfl e consumed fin src out ack e'
    \<and> length (de_next_buf e') \<le> length (de_next_buf e2) \<and> (de_flushing e' \<longrightarrow> de_flushing e2)"
proof (cases "de_flushing e2 \<and> de_next_buf e2 = SYNC_MARKER")
  case True
  with assms show ?thesis
    by (auto simp: encode_finish_def encode_effect_def ends_with_full Let_def)
next
  case False
  then have "encode_finish e2 k out = Some (Inr (k, out, False), e2)"
    by (auto simp: encode_finish_def ends_with_full Let_def)
  with assms show ?thesis by (auto simp: encode_effect_def)
qed

lemma deflate_helper_spec:
  assumes "codec_bounded dfl" and "ENC_MIN_OUTPUT_SIZE \<le> room"
  shows "\<exists>r c'. deflate_helper dfl c input room sync = Some (r, c') \<and>
    (case r of Inl _ \<Rightarrow> True
     | Inr (k, out) \<Rightarrow> k \<le> length input \<and> length out \<le> room \<and> codec_trace dfl c (take k input) out c')"
  using assms(2) codec_boundedD [OF assms(1)] codec_trace_one [of dfl c input room]
  by (auto simp: deflate_helper_def Let_def)

definition encoder_ok :: "'c deflate_encoder \<Rightarrow> bool" where
  "encoder_ok e \<longleftrightarrow> length (de_next_buf e) \<le> ENC_NEXT_BUF_SIZE"

lemma encode_into_effect:
  assumes "codec_bounded dfl" and nb: "length (de_next_buf e2) \<le> ENC_NEXT_BUF_SIZE"
    and e: "de_next_buf e = moved @ de_next_buf e2" "de_enc e2 = de_enc e"
    and room: "into \<Longrightarrow> de_next_buf e2 = [] \<and> ENC_MIN_OUTPUT_SIZE \<le> room"
      "\<not> into \<Longrightarrow> ENC_MIN_OUTPUT_SIZE \<le> ENC_NEXT_BUF_SIZE - length (de_next_buf e2)"
    and fl: "de_flushing e2 \<Longrightarrow> fin \<and> src = []"
  shows "\<exists>r e'. encode_into dfl e2 src into room moved = Some (r, e') \<and> encoder_ok e' \<and>
    (case r of Inl err \<Rightarrow> err = OtherError
     | Inr (k, out, ack) \<Rightarrow> k \<le> length src \<and> length out \<le> length moved + room
         \<and> encode_effect dfl e (take k src) fin (drop k src) out ack e' \<and> (de_flushing e' \<longrightarrow> de_flushing e2))"
proof -
  let ?nb = "de_next_buf e2" and ?full = "if into then de_next_buf e2 else de_next_buf e2 @ replicate (11 - length (de_next_buf e2)) 0"
  let ?len = "if into then room else 11 - length ?nb"
  have full: "(if into then Some ?nb else array_resize ENC_NEXT_BUF_SIZE ?nb ENC_NEXT_BUF_SIZE 0) = Some ?full"
    using nb by (auto simp: array_resize_def not_less)
  have len: "(if into then room else length ?full - length ?nb) = ?len" by simp
  have ge: "ENC_MIN_OUTPUT_SIZE \<le> ?len" using room by auto
  from deflate_helper_spec [OF assms(1) ge] obtain r c where
    h: "deflate_helper dfl (de_enc e2) src ?len (de_flushing e2) = Some (r, c)" and
    hr: "case r of Inl _ \<Rightarrow> True | Inr (k, out) \<Rightarrow> k \<le> length src \<and> length out \<le> ?len \<and> codec_trace dfl (de_enc e2) (take k src) out c"
    by blast
  note unf = encode_into_def Let_def full len h bind.bind_lunit assert_that_bind
  show ?thesis
  proof (cases r)
    case (Inl err)
    then have "encode_into dfl e2 src into room moved = Some (Inl OtherError, e2\<lparr>de_enc := c, de_next_buf := ?full\<rparr>)"
      using ge unfolding unf by simp
    with nb show ?thesis by (auto simp: encoder_ok_def)
  next
    case (Inr p)
    obtain k raw where p: "p = (k, raw)" by (cases p)
    with hr Inr have kr: "k \<le> length src" "length raw \<le> ?len" "codec_trace dfl (de_enc e2) (take k src) raw c" by auto
    have src: "de_flushing e2 \<Longrightarrow> fin \<and> drop k src = []" using fl by simp
    show ?thesis
    proof (cases into)
      case True
      let ?n = "length raw - min 4 (length raw)"
      let ?e3 = "e2\<lparr>de_enc := c, de_next_buf := drop ?n raw\<rparr>"
      have eq: "encode_into dfl e2 src into room moved = encode_finish ?e3 k (moved @ take ?n raw)"
        using ge True room(1) Inr p h by (simp add: encode_into_def Let_def)
      have "de_next_buf e @ raw = (moved @ take ?n raw) @ de_next_buf ?e3" using e room(1) True by simp
      from encode_finish_effect [of dfl e "take k src" raw ?e3 "moved @ take ?n raw" fin "drop k src" k, OF _ this] kr(3) src e(2)
      obtain ack e' where "encode_finish ?e3 k (moved @ take ?n raw) = Some (Inr (k, moved @ take ?n raw, ack), e')"
        "encode_effect dfl e (take k src) fin (drop k src) (moved @ take ?n raw) ack e'"
        "length (de_next_buf e') \<le> length (de_next_buf ?e3)" "de_flushing e' \<longrightarrow> de_flushing ?e3" by auto
      with eq kr True show ?thesis by (auto simp: encoder_ok_def)
    next
      case False
      let ?m = "?nb @ raw"
      let ?n = "min (length ?m - 4) room"
      let ?e3 = "e2\<lparr>de_enc := c, de_next_buf := drop ?n ?m\<rparr>"
      have "?n \<le> length ?m" by simp
      then have eq: "encode_into dfl e2 src into room moved = encode_finish ?e3 k (moved @ take ?n ?m)"
        using ge False full Inr p h nb by (simp add: encode_into_def overwrite_append Let_def)
      have "de_next_buf e @ raw = (moved @ take ?n ?m) @ de_next_buf ?e3"
        using e append_take_drop_id [of ?n ?m] by simp
      from encode_finish_effect [of dfl e "take k src" raw ?e3 "moved @ take ?n ?m" fin "drop k src" k, OF _ this] kr(3) src e(2)
      obtain ack e' where "encode_finish ?e3 k (moved @ take ?n ?m) = Some (Inr (k, moved @ take ?n ?m, ack), e')"
        "encode_effect dfl e (take k src) fin (drop k src) (moved @ take ?n ?m) ack e'"
        "length (de_next_buf e') \<le> length (de_next_buf ?e3)" "de_flushing e' \<longrightarrow> de_flushing ?e3"
        by (auto simp del: length_append drop_append take_append)
      moreover have "length (take ?n ?m) \<le> room" "length (drop ?n ?m) \<le> 11"
        using kr(2) False nb by (auto simp del: take_append drop_append)
      ultimately show ?thesis using eq kr by (auto simp: encoder_ok_def simp del: take_append drop_append)
    qed
  qed
qed

text \<open>
  The result of a step, an \<open>encode\<close> or the whole \<open>encode_to_ringbuffer\<close>: it returns, the encoder stays
  well-formed, and on success the effect is as above, with no more than the room used.
\<close>

definition encode_ok ::
  "'c codec \<Rightarrow> 'c deflate_encoder \<Rightarrow> bytes \<Rightarrow> bool \<Rightarrow> nat \<Rightarrow> io_error + nat \<times> bytes \<times> bool \<Rightarrow> 'c deflate_encoder \<Rightarrow> bool" where
  "encode_ok dfl e src fin room r e' \<longleftrightarrow> encoder_ok e' \<and>
     (case r of
        Inl err \<Rightarrow> (err = InvalidInput \<and> e' = e \<and> de_flushing e \<and> (src \<noteq> [] \<or> \<not> fin)) \<or> err = OtherError
      | Inr (k, out, ack) \<Rightarrow> k \<le> length src \<and> length out \<le> room
          \<and> encode_effect dfl e (take k src) fin (drop k src) out ack e'
          \<and> (de_flushing e' \<longrightarrow> fin \<and> k = length src))"

lemma encode_step_ok:
  assumes "codec_bounded dfl" and "encoder_ok e"
  shows "\<exists>r e'. encode_step dfl e src fin room = Some (r, e') \<and> encode_ok dfl e src fin room r e'"
proof (cases "de_flushing e \<and> (src \<noteq> [] \<or> \<not> fin)")
  case True
  with assms show ?thesis by (auto simp: encode_step_def encode_ok_def)
next
  case False
  define e1 where "e1 = (if src = [] \<and> fin then e\<lparr>de_flushing := True\<rparr> else e)"
  define finished where "finished \<longleftrightarrow> de_flushing e1 \<and> ends_with (de_next_buf e) SYNC_MARKER"
  define into where "into \<longleftrightarrow> \<not> finished \<and> room \<ge> length (de_next_buf e) + ENC_MIN_OUTPUT_SIZE"
  define n where "n = (if into then length (de_next_buf e) else min (length (de_next_buf e) - 4) room)"
  define e2 where "e2 = e1\<lparr>de_next_buf := drop n (de_next_buf e)\<rparr>"
  have e1: "de_next_buf e1 = de_next_buf e" "de_enc e1 = de_enc e" "de_flushing e1 \<Longrightarrow> fin \<and> src = []"
    using False by (auto simp: e1_def split: if_splits)
  have n: "n \<le> length (de_next_buf e)" "n \<le> room" by (auto simp: n_def into_def)
  have pair: "(if \<not> finished \<and> room \<ge> length (de_next_buf e) + ENC_MIN_OUTPUT_SIZE then (length (de_next_buf e), True)
      else (min (length (de_next_buf e) - length SYNC_MARKER) room, False)) = (n, into)"
    by (simp add: n_def into_def)
  have step: "encode_step dfl e src fin room =
    (if into \<or> (\<not> finished \<and> ENC_NEXT_BUF_SIZE - length (de_next_buf e2) \<ge> ENC_MIN_OUTPUT_SIZE)
     then encode_into dfl e2 src into (room - n) (take n (de_next_buf e)) else encode_finish e2 0 (take n (de_next_buf e)))"
    unfolding encode_step_def Let_def if_not_P [OF False] e1_def [symmetric] e1(1) finished_def [symmetric] pair
    using n by (simp add: e2_def)
  show ?thesis
  proof (cases "into \<or> (\<not> finished \<and> ENC_NEXT_BUF_SIZE - length (de_next_buf e2) \<ge> ENC_MIN_OUTPUT_SIZE)")
    case True
    have "into \<Longrightarrow> de_next_buf e2 = [] \<and> ENC_MIN_OUTPUT_SIZE \<le> room - n" by (auto simp: into_def e2_def n_def)
    moreover have "length (de_next_buf e2) \<le> ENC_NEXT_BUF_SIZE" using assms(2) by (simp add: encoder_ok_def e2_def)
    ultimately obtain r e' where "encode_into dfl e2 src into (room - n) (take n (de_next_buf e)) = Some (r, e')" "encoder_ok e'"
      "case r of Inl err \<Rightarrow> err = OtherError
       | Inr (k, out, ack) \<Rightarrow> k \<le> length src \<and> length out \<le> length (take n (de_next_buf e)) + (room - n)
           \<and> encode_effect dfl e (take k src) fin (drop k src) out ack e' \<and> (de_flushing e' \<longrightarrow> de_flushing e2)"
      using encode_into_effect [OF assms(1), of e2 e "take n (de_next_buf e)" into "room - n" fin src] True e1
      by (auto simp: e2_def)
    with step True n e1(3) show ?thesis
      by (auto simp: encode_ok_def e2_def split: sum.splits)
  next
    case no: False
    have "de_next_buf e @ [] = take n (de_next_buf e) @ de_next_buf e2" by (simp add: e2_def)
    from encode_finish_effect [of dfl e "[]" "[]" e2 "take n (de_next_buf e)" fin src 0, OF _ this]
    obtain ack e' where "encode_finish e2 0 (take n (de_next_buf e)) = Some (Inr (0, take n (de_next_buf e), ack), e')"
      "encode_effect dfl e [] fin src (take n (de_next_buf e)) ack e'"
      "length (de_next_buf e') \<le> length (de_next_buf e2)" "de_flushing e' \<longrightarrow> de_flushing e2"
      using e1 by (auto simp: e2_def intro: codec_trace.trace_nil)
    with step no n assms(2) e1(3) show ?thesis by (auto simp: encode_ok_def encoder_ok_def e2_def)
  qed
qed

lemma encode_total:
  assumes "codec_bounded dfl" and "encoder_ok e"
  shows "\<exists>r e'. encode dfl e src fin room = Some (r, e') \<and> encode_ok dfl e src fin room r e'"
proof -
  from encode_step_ok [OF assms, of src fin room] obtain r e1 where
    s: "encode_step dfl e src fin room = Some (r, e1)" and ok: "encode_ok dfl e src fin room r e1" by blast
  show ?thesis
  proof (cases r)
    case (Inl err)
    with s ok show ?thesis by (auto simp: encode_def)
  next
    case (Inr p)
    obtain k out ack where p: "p = (k, out, ack)" by (cases p)
    show ?thesis
    proof (cases "src \<noteq> [] \<and> k = length src \<and> fin \<and> \<not> ack")
      case False
      with s ok Inr p show ?thesis by (auto simp: encode_def)
    next
      case True
      note o1 = ok [unfolded encode_ok_def Inr p sum.case prod.case]
      from o1 have "encoder_ok e1" "length out \<le> room" by auto
      from encode_step_ok [OF assms(1) this(1), of "[]" fin "room - length out"] obtain r2 e2 where
        s2: "encode_step dfl e1 [] fin (room - length out) = Some (r2, e2)"
          "encode_ok dfl e1 [] fin (room - length out) r2 e2" by blast
      show ?thesis
      proof (cases r2)
        case (Inl err)
        with s s2 Inr p True o1 show ?thesis by (auto simp: encode_def encode_ok_def)
      next
        case inr2: (Inr q)
        obtain k2 w ea where q: "q = (k2, w, ea)" by (cases q)
        note o2 = s2(2) [unfolded encode_ok_def inr2 q sum.case prod.case]
        have "encode_effect dfl e (take k src @ []) fin [] (out @ w) ea e2"
          using o1 o2 True by (intro encode_effect_trans [of dfl e _ fin "drop k src" out e1]) auto
        with s s2 Inr p True o1 o2 inr2 q show ?thesis by (auto simp: encode_def encode_ok_def)
      qed
    qed
  qed
qed

definition ring_encode_ok ::
  "'c codec \<Rightarrow> 'c deflate_encoder \<Rightarrow> bytes \<Rightarrow> bool \<Rightarrow> ring_buffer \<Rightarrow> io_error + nat \<times> bool \<Rightarrow> 'c deflate_encoder \<Rightarrow> ring_buffer \<Rightarrow> bool" where
  "ring_encode_ok dfl e src fin dest r e' dest' \<longleftrightarrow> encoder_ok e' \<and> rb_inv dest' \<and>
     (case r of
        Inl err \<Rightarrow> True
      | Inr (k, ack) \<Rightarrow> k \<le> length src \<and> (de_flushing e' \<longrightarrow> fin \<and> k = length src) \<and>
          (\<exists>out. rb_contents dest' = rb_contents dest @ out
             \<and> encode_effect dfl e (take k src) fin (drop k src) out ack e'))"

text \<open>One \<open>encode\<close> into the free slice of the ring buffer, filled and committed.\<close>

lemma ring_encode_turn:
  assumes "codec_bounded dfl" and "encoder_ok e" and "rb_inv dest"
  shows "\<exists>s t r e'. rb_write_range dest = Some (s, t) \<and> encode dfl e src fin (t - s) = Some (r, e')
    \<and> encode_ok dfl e src fin (t - s) r e'
    \<and> (\<forall>k out ack. r = Inr (k, out, ack) \<longrightarrow>
        (\<exists>d1 d2. rb_fill dest out = Some d1 \<and> rb_write_commit d1 (length out) = Some d2
           \<and> rb_inv d2 \<and> rb_contents d2 = rb_contents dest @ out))"
proof -
  from ring.write_range_room [OF assms(3)] obtain s t where r: "rb_write_range dest = Some (s, t)" by blast
  from encode_total [OF assms(1,2), of src fin "t - s"] obtain res e' where
    e: "encode dfl e src fin (t - s) = Some (res, e')" "encode_ok dfl e src fin (t - s) res e'" by blast
  have "\<exists>d1 d2. rb_fill dest out = Some d1 \<and> rb_write_commit d1 (length out) = Some d2
      \<and> rb_inv d2 \<and> rb_contents d2 = rb_contents dest @ out" if "res = Inr (k, out, ack)" for k out ack
    using ring.fill_commit_append [OF assms(3) r, of out] e(2) that by (auto simp: encode_ok_def)
  with r e show ?thesis by blast
qed

lemma encode_to_ringbuffer_total:
  assumes "codec_bounded dfl" and "encoder_ok e" and "rb_inv dest"
  shows "\<exists>r e' dest'. encode_to_ringbuffer dfl e src fin dest = Some (r, e', dest')
    \<and> ring_encode_ok dfl e src fin dest r e' dest'"
proof -
  from ring_encode_turn [OF assms, of src fin] obtain s t r e1 where
    w: "rb_write_range dest = Some (s, t)" "encode dfl e src fin (t - s) = Some (r, e1)" and
    ok: "encode_ok dfl e src fin (t - s) r e1" and
    fill: "\<forall>k out ack. r = Inr (k, out, ack) \<longrightarrow> (\<exists>d1 d2. rb_fill dest out = Some d1
      \<and> rb_write_commit d1 (length out) = Some d2 \<and> rb_inv d2 \<and> rb_contents d2 = rb_contents dest @ out)" by blast
  show ?thesis
  proof (cases r)
    case (Inl err)
    with w ok assms(3) show ?thesis by (auto simp: encode_to_ringbuffer_def ring_encode_ok_def encode_ok_def)
  next
    case (Inr p)
    obtain k out ack where p: "p = (k, out, ack)" by (cases p)
    from fill Inr p obtain d1 d2 where
      d: "rb_fill dest out = Some d1" "rb_write_commit d1 (length out) = Some d2" "rb_inv d2" "rb_contents d2 = rb_contents dest @ out"
      by blast
    note o1 = ok [unfolded encode_ok_def Inr p sum.case prod.case]
    show ?thesis
    proof (cases "\<not> ack \<and> length out = t - s \<and> rb_remaining_capacity d2 > 0")
      case False
      then have "encode_to_ringbuffer dfl e src fin dest = Some (Inr (k, ack), e1, d2)"
        using w Inr p d by (auto simp: encode_to_ringbuffer_def)
      with o1 d show ?thesis by (auto simp: ring_encode_ok_def)
    next
      case True
      from o1 have "encoder_ok e1" by simp
      from ring_encode_turn [OF assms(1) this d(3), of "drop k src" fin] obtain s2 t2 r2 e2 where
        w2: "rb_write_range d2 = Some (s2, t2)" "encode dfl e1 (drop k src) fin (t2 - s2) = Some (r2, e2)" and
        ok2: "encode_ok dfl e1 (drop k src) fin (t2 - s2) r2 e2" and
        fill2: "\<forall>k out ack. r2 = Inr (k, out, ack) \<longrightarrow> (\<exists>d1 d3. rb_fill d2 out = Some d1
          \<and> rb_write_commit d1 (length out) = Some d3 \<and> rb_inv d3 \<and> rb_contents d3 = rb_contents d2 @ out)" by blast
      show ?thesis
      proof (cases r2)
        case (Inl err)
        with w Inr p d w2 True o1 ok2 show ?thesis
          by (auto simp: encode_to_ringbuffer_def ring_encode_ok_def encode_ok_def)
      next
        case inr2: (Inr q)
        obtain k2 out2 ack2 where q: "q = (k2, out2, ack2)" by (cases q)
        from fill2 inr2 q obtain d3 d4 where
          d4: "rb_fill d2 out2 = Some d3" "rb_write_commit d3 (length out2) = Some d4" "rb_inv d4"
            "rb_contents d4 = rb_contents d2 @ out2" by blast
        note o2 = ok2 [unfolded encode_ok_def inr2 q sum.case prod.case]
        have eff: "encode_effect dfl e (take k src @ take k2 (drop k src)) fin (drop k2 (drop k src)) (out @ out2) ack2 e2"
          using o1 o2 True by (intro encode_effect_trans [of dfl e _ fin "drop k src" out e1]) auto
        have "encode_to_ringbuffer dfl e src fin dest = Some (Inr (k + k2, ack2), e2, d4)"
          using w Inr p d w2 True o1 inr2 q d4 by (auto simp: encode_to_ringbuffer_def)
        moreover have "rb_contents d4 = rb_contents dest @ out @ out2" using d d4 by simp
        moreover have "take k src @ take k2 (drop k src) = take (k + k2) src" "drop k2 (drop k src) = drop (k + k2) src"
          using take_add [of k k2 src] by (simp_all add: add.commute)
        ultimately show ?thesis using eff o1 o2 d4(3) by (auto simp: ring_encode_ok_def)
      qed
    qed
  qed
qed

section \<open>The decoder's input\<close>

definition decoder_ok :: "'i deflate_decoder \<Rightarrow> bool" where
  "decoder_ok d \<longleftrightarrow> (\<forall>p. dd_marker_pos d = Some p \<longrightarrow> p \<le> length SYNC_MARKER)"

text \<open>How much of the marker the decompressor has been given.\<close>

definition marker_fed :: "'i deflate_decoder \<Rightarrow> bool \<Rightarrow> bytes" where
  "marker_fed d ack = (if ack then SYNC_MARKER else case dd_marker_pos d of None \<Rightarrow> [] | Some p \<Rightarrow> take p SYNC_MARKER)"

definition decode_effect ::
  "'i codec \<Rightarrow> 'i deflate_decoder \<Rightarrow> bytes \<Rightarrow> bytes \<Rightarrow> bool \<Rightarrow> 'i deflate_decoder \<Rightarrow> bool" where
  "decode_effect ifl d consumed out ack d' \<longleftrightarrow>
     (\<exists>fed. codec_trace ifl (dd_dec d) (consumed @ fed) out (dd_dec d') \<and> marker_fed d False @ fed = marker_fed d' ack)
     \<and> (ack \<longrightarrow> dd_marker_pos d' = None) \<and> (dd_marker_pos d \<noteq> None \<longrightarrow> consumed = [] \<and> (\<not> ack \<longrightarrow> dd_marker_pos d' \<noteq> None))"

lemma decode_marker_effect:
  assumes b: "codec_bounded ifl" and ok: "decoder_ok d1" and len: "length out \<le> room"
    and tr: "codec_trace ifl (dd_dec d) consumed out (dd_dec d1)"
    and pos: "marker_fed d False = marker_fed d1 False" "dd_marker_pos d \<noteq> None \<longrightarrow> consumed = [] \<and> dd_marker_pos d1 \<noteq> None"
  shows "\<exists>r d'. decode_marker ifl d1 fin room k out = Some (r, d') \<and> decoder_ok d' \<and>
    (case r of Inl err \<Rightarrow> err = OtherError
     | Inr (k', out', ack) \<Rightarrow> k' = k \<and> length out' \<le> room \<and> decode_effect ifl d consumed out' ack d'
         \<and> (ack \<longrightarrow> fin \<and> dd_marker_pos d1 \<noteq> None) \<and> (dd_marker_pos d' \<noteq> None \<longrightarrow> fin \<and> dd_marker_pos d1 \<noteq> None))"
proof (cases "dd_marker_pos d1")
  case None
  then show ?thesis using ok len tr pos
    by (auto simp: decode_marker_def decode_effect_def intro!: exI [of _ "[]"])
next
  case (Some p)
  then have p: "p \<le> 4" using ok by (simp add: decoder_ok_def)
  let ?m = "drop p SYNC_MARKER"
  let ?r = "ifl (dd_dec d1) ?m (room - length out) MZF_None"
  have m: "subslice SYNC_MARKER p (length SYNC_MARKER) = Some ?m" using p by simp
  have c: "sr_consumed ?r \<le> 4 - p" and o2: "length (sr_output ?r) \<le> room - length out"
    using codec_boundedD [OF b, of "dd_dec d1" ?m "room - length out" MZF_None] by auto
  have fed: "take p SYNC_MARKER @ take (sr_consumed ?r) ?m = take (p + sr_consumed ?r) SYNC_MARKER"
    by (simp add: take_add)
  have t2: "codec_trace ifl (dd_dec d) (consumed @ take (sr_consumed ?r) ?m) (out @ sr_output ?r) (sr_state ?r)"
    by (rule codec_trace_trans [OF codec_trace_one tr])
  have f0: "marker_fed d False = take p SYNC_MARKER" using pos(1) Some by (simp add: marker_fed_def)
  show ?thesis
  proof (cases "fin \<and> inflate_status_ok (sr_status ?r)")
    case False
    then show ?thesis using ok Some len m by (auto simp: decode_marker_def Let_def decoder_ok_def)
  next
    case True
    show ?thesis
    proof (cases "p + sr_consumed ?r = 4 \<and> length (sr_output ?r) < room - length out")
      case ack: True
      then have "decode_marker ifl d1 fin room k out =
          Some (Inr (k, out @ sr_output ?r, True), d1\<lparr>dd_dec := sr_state ?r, dd_marker_pos := None\<rparr>)"
        using True Some len m c o2 by (simp add: decode_marker_def Let_def)
      moreover have "take p SYNC_MARKER @ take (sr_consumed ?r) ?m = SYNC_MARKER" using ack fed by simp
      ultimately show ?thesis using ack True t2 f0 pos(2) Some
        by (auto simp: decoder_ok_def decode_effect_def marker_fed_def)
    next
      case more: False
      have "decode_marker ifl d1 fin room k out =
          Some (Inr (k, out @ sr_output ?r, False), d1\<lparr>dd_dec := sr_state ?r, dd_marker_pos := Some (p + sr_consumed ?r)\<rparr>)"
        using more True Some len m c o2 by (auto simp: decode_marker_def Let_def)
      then show ?thesis using True t2 f0 fed pos(2) Some p c len o2
        by (auto simp: decoder_ok_def decode_effect_def marker_fed_def)
    qed
  qed
qed

lemma decode_total:
  assumes b: "codec_bounded ifl" and ok: "decoder_ok d"
  shows "\<exists>r d'. decode ifl d src fin room = Some (r, d') \<and> decoder_ok d' \<and>
    (case r of Inl err \<Rightarrow> err = OtherError
     | Inr (k, out, ack) \<Rightarrow> k \<le> length src \<and> length out \<le> room \<and> decode_effect ifl d (take k src) out ack d'
         \<and> (ack \<longrightarrow> fin \<and> (dd_marker_pos d = None \<longrightarrow> k = length src))
         \<and> (dd_marker_pos d' \<noteq> None \<longrightarrow> fin \<and> (dd_marker_pos d = None \<longrightarrow> k = length src)))"
proof (cases "dd_marker_pos d")
  case (Some p)
  with decode_marker_effect [OF b ok, where d = d and out = "[]" and consumed = "[]" and room = room and fin = fin and k = 0]
  show ?thesis by (fastforce simp: decode_def codec_trace.trace_nil split: sum.splits)
next
  case None
  let ?r = "ifl (dd_dec d) src room MZF_None"
  let ?d1 = "d\<lparr>dd_dec := sr_state ?r\<rparr>"
  let ?d2 = "if sr_consumed ?r = length src \<and> fin then ?d1\<lparr>dd_marker_pos := Some 0\<rparr> else ?d1"
  have c: "sr_consumed ?r \<le> length src" and o: "length (sr_output ?r) \<le> room"
    using codec_boundedD [OF b] by auto
  have tr: "codec_trace ifl (dd_dec d) (take (sr_consumed ?r) src) (sr_output ?r) (dd_dec ?d2)"
    using codec_trace_one [of ifl "dd_dec d" src room MZF_None] by (auto split: if_split)
  have ok2: "decoder_ok ?d2" and m2: "marker_fed d False = marker_fed ?d2 False"
    using None by (auto simp: decoder_ok_def marker_fed_def)
  consider (bad) "\<not> inflate_status_ok (sr_status ?r)" | (full) "inflate_status_ok (sr_status ?r)" "length (sr_output ?r) = room"
    | (more) "inflate_status_ok (sr_status ?r)" "length (sr_output ?r) \<noteq> room" by blast
  then show ?thesis
  proof cases
    case bad
    then show ?thesis using None ok by (auto simp: decode_def Let_def decoder_ok_def)
  next
    case full
    then have "decode ifl d src fin room = Some (Inr (sr_consumed ?r, sr_output ?r, False), ?d2)"
      using None c by (simp add: decode_def Let_def)
    moreover have "decode_effect ifl d (take (sr_consumed ?r) src) (sr_output ?r) False ?d2"
      using tr m2 None by (auto simp: decode_effect_def intro!: exI [of _ "[]"])
    ultimately show ?thesis using ok2 c o None by auto
  next
    case more
    then have "decode ifl d src fin room = decode_marker ifl ?d2 fin room (sr_consumed ?r) (sr_output ?r)"
      using None c o by (simp add: decode_def Let_def)
    moreover have "dd_marker_pos ?d2 \<noteq> None \<longleftrightarrow> sr_consumed ?r = length src \<and> fin" using None by simp
    ultimately show ?thesis
      using decode_marker_effect [OF b ok2 o tr m2, of fin "sr_consumed ?r"] None c
      by (fastforce split: sum.splits)
  qed
qed

section \<open>Messages\<close>

text \<open>
  The calls that encode one message: any number of calls that do not acknowledge the end, with the bytes
  each consumed and wrote, up to one that does. And those that decode one: each call is offered some
  bytes and consumes a prefix of them.
\<close>

inductive encode_calls :: "'c codec \<Rightarrow> 'c deflate_encoder \<Rightarrow> bytes \<Rightarrow> bytes \<Rightarrow> bool \<Rightarrow> 'c deflate_encoder \<Rightarrow> bool" for dfl where
  encode_start: "encode_calls dfl e [] [] False e"
| encode_call: "encode_calls dfl e msg wire False e1 \<Longrightarrow> encode dfl e1 src fin room = Some (Inr (k, out, ack), e2) \<Longrightarrow>
    encode_calls dfl e (msg @ take k src) (wire @ out) ack e2"

inductive decode_calls :: "'i codec \<Rightarrow> 'i deflate_decoder \<Rightarrow> bytes \<Rightarrow> bytes \<Rightarrow> bool \<Rightarrow> 'i deflate_decoder \<Rightarrow> bool" for ifl where
  decode_start: "decode_calls ifl d [] [] False d"
| decode_call: "decode_calls ifl d wire out False d1 \<Longrightarrow> decode ifl d1 src fin room = Some (Inr (k, w, ack), d2) \<Longrightarrow>
    decode_calls ifl d (wire @ take k src) (out @ w) ack d2"

lemma encode_calls_effect:
  assumes "encode_calls dfl e msg wire ack e'" and "codec_bounded dfl" and "encoder_ok e"
  shows "encoder_ok e' \<and> (\<exists>fin left. encode_effect dfl e msg fin left wire ack e')"
  using assms(1,3)
proof (induction rule: encode_calls.induct)
  case (encode_start e)
  then show ?case by (auto simp: encode_effect_def intro!: exI [of _ "[]"] codec_trace.trace_nil)
next
  case (encode_call e msg wire e1 src fin room k out ack e2)
  with encode_total [OF assms(2), of e1 src fin room] show ?case
    by (auto simp: encode_ok_def intro: encode_effect_trans)
qed

lemma decode_effect_trans:
  assumes "decode_effect ifl d1 i1 o1 False d2" and "decode_effect ifl d2 i2 o2 ack d3"
  shows "decode_effect ifl d1 (i1 @ i2) (o1 @ o2) ack d3"
proof -
  from assms obtain f1 f2 where
    f: "codec_trace ifl (dd_dec d1) (i1 @ f1) o1 (dd_dec d2)" "marker_fed d1 False @ f1 = marker_fed d2 False"
      "codec_trace ifl (dd_dec d2) (i2 @ f2) o2 (dd_dec d3)" "marker_fed d2 False @ f2 = marker_fed d3 ack"
    by (auto simp: decode_effect_def)
  have tr: "codec_trace ifl (dd_dec d1) ((i1 @ f1) @ (i2 @ f2)) (o1 @ o2) (dd_dec d3)"
    by (rule codec_trace_trans [OF f(3,1)])
  have none: "f1 = []" if "dd_marker_pos d2 = None" using f(2) that by (simp add: marker_fed_def)
  have "i2 = []" if "dd_marker_pos d2 \<noteq> None" using assms(2) that by (simp add: decode_effect_def)
  then have "(i1 @ f1) @ (i2 @ f2) = (i1 @ i2) @ (f1 @ f2)"
    using none by (cases "dd_marker_pos d2") auto
  then have "\<exists>fed. codec_trace ifl (dd_dec d1) ((i1 @ i2) @ fed) (o1 @ o2) (dd_dec d3) \<and> marker_fed d1 False @ fed = marker_fed d3 ack"
    using tr f(2,4) by (intro exI [of _ "f1 @ f2"]) (metis append.assoc)
  then show ?thesis using assms by (simp add: decode_effect_def)
qed

lemma decode_calls_effect:
  assumes "decode_calls ifl d wire out ack d'" and "codec_bounded ifl" and "decoder_ok d"
  shows "decoder_ok d' \<and> decode_effect ifl d wire out ack d'"
  using assms(1,3)
proof (induction rule: decode_calls.induct)
  case (decode_start d)
  then show ?case by (auto simp: decode_effect_def intro!: exI [of _ "[]"] codec_trace.trace_nil)
next
  case (decode_call d wire out d1 src fin room k w ack d2)
  with decode_total [OF assms(2), of d1 src fin room] show ?case
    by (auto intro: decode_effect_trans)
qed

section \<open>Properties\<close>

text \<open>
  The encoder loses nothing and panics on nothing: with any compressor that stays within
  its buffers, \<open>encode_to_ringbuffer\<close> returns, keeps the encoder and the ring buffer well-formed, and on
  success the bytes it appends to the ring buffer followed by the bytes it still holds back are the bytes
  held back before followed by what the compressor produced from the input it reports as consumed. The
  end is acknowledged only when all input has been consumed with \<open>end\<close> set, and then the bytes withheld
  are exactly the sync marker.
\<close>

lemma deflate_encode_conserves:
  assumes "codec_bounded dfl" and "encoder_ok e" and "rb_inv dest"
  shows "\<exists>r e' dest'. encode_to_ringbuffer dfl e src fin dest = Some (r, e', dest') \<and> encoder_ok e' \<and> rb_inv dest' \<and>
    (case r of
       Inl err \<Rightarrow> True
     | Inr (k, ack) \<Rightarrow> k \<le> length src \<and> (ack \<longrightarrow> fin \<and> k = length src \<and> \<not> de_flushing e') \<and>
         (\<exists>out raw. rb_contents dest' = rb_contents dest @ out
            \<and> codec_trace dfl (de_enc e) (take k src) raw (de_enc e')
            \<and> de_next_buf e @ raw = out @ (if ack then SYNC_MARKER else de_next_buf e')))"
  using encode_to_ringbuffer_total [OF assms, of src fin]
  by (force simp: ring_encode_ok_def encode_effect_def split: sum.splits)

text \<open>
  A compressor that copies its input, and on a sync flush without input writes the marker. It stands for
  \<open>miniz_oxide\<close> in the examples.
\<close>

definition copy_deflate :: "unit codec" where
  "copy_deflate s inp n fl =
     (if inp \<noteq> [] \<or> fl = MZF_None
      then \<lparr>sr_status = Inr MZ_Ok, sr_consumed = min (length inp) n, sr_output = take n inp, sr_state = ()\<rparr>
      else \<lparr>sr_status = Inr MZ_Ok, sr_consumed = 0, sr_output = take n SYNC_MARKER, sr_state = ()\<rparr>)"

definition copy_inflate :: "unit codec" where
  "copy_inflate s inp n fl =
     \<lparr>sr_status = Inr MZ_Ok, sr_consumed = min (length inp) n,
      sr_output = (if take n inp = SYNC_MARKER then [] else take n inp), sr_state = ()\<rparr>"

lemma copy_codecs_bounded: "codec_bounded copy_deflate" "codec_bounded copy_inflate"
  by (auto simp: codec_bounded_def copy_deflate_def copy_inflate_def)

lemma encoder_new_ok: "encoder_ok (encoder_new c)"
  by (simp add: encoder_ok_def encoder_new_def)

lemma copy_encode_run: "encode copy_deflate (encoder_new ()) [1, 2, 3] True 20 = Some (Inr (3, [1, 2, 3], True), encoder_new ())"
  by code_simp

lemma copy_decode_run: "decode copy_inflate (decoder_new ()) [1, 2, 3] True 20 = Some (Inr (3, [1, 2, 3], True), decoder_new ())"
  by code_simp

text \<open>
  Property C26. A compressed message reaches the decompressor whole. Take an encoder and a decoder between
  messages, encode a message over any number of calls until the end is acknowledged, and decode the bytes
  that were sent, split in any other way, until the decoder acknowledges the end. Then what the
  decompressor consumed is exactly what the compressor produced for the message, sync marker included
  although it was never sent, the decoded bytes are the decompressor's output on it, and both sides are
  again between messages.
\<close>

theorem deflate_message_transport:
  assumes "codec_bounded dfl" "codec_bounded ifl"
    and "encoder_ok e" "de_next_buf e = []" "decoder_ok d" "dd_marker_pos d = None"
    and "encode_calls dfl e msg wire True e'" and "decode_calls ifl d wire out True d'"
  shows "(\<exists>raw. codec_trace dfl (de_enc e) msg raw (de_enc e') \<and> codec_trace ifl (dd_dec d) raw out (dd_dec d'))
    \<and> de_next_buf e' = [] \<and> \<not> de_flushing e' \<and> dd_marker_pos d' = None"
proof -
  from encode_calls_effect [OF assms(7,1,3)] assms(4) obtain raw where
    "codec_trace dfl (de_enc e) msg raw (de_enc e')" "raw = wire @ SYNC_MARKER" "de_next_buf e' = []" "\<not> de_flushing e'"
    by (auto simp: encode_effect_def)
  moreover from decode_calls_effect [OF assms(8,2,5)] assms(6) have
    "codec_trace ifl (dd_dec d) (wire @ SYNC_MARKER) out (dd_dec d')" "dd_marker_pos d' = None"
    by (auto simp: decode_effect_def marker_fed_def)
  ultimately show ?thesis by blast
qed

theorem deflate_message_transport_witness:
  "\<exists>raw. codec_trace copy_deflate () [1, 2, 3] raw () \<and> codec_trace copy_inflate () raw [1, 2, 3] ()"
proof -
  have "encode_calls copy_deflate (encoder_new ()) [1, 2, 3] [1, 2, 3] True (encoder_new ())"
    using encode_calls.encode_call [OF encode_calls.encode_start copy_encode_run] by simp
  moreover have "decode_calls copy_inflate (decoder_new ()) [1, 2, 3] [1, 2, 3] True (decoder_new ())"
    using decode_calls.decode_call [OF decode_calls.decode_start copy_decode_run] by simp
  ultimately show ?thesis
    using deflate_message_transport [OF copy_codecs_bounded encoder_new_ok, of "()" "decoder_new ()" "[1, 2, 3]" "[1, 2, 3]"]
    by (auto simp: encoder_new_def decoder_new_def decoder_ok_def)
qed

end
