(* ===== verification/WsMask.thy ===== *)
theory WsMask
  imports WsFrame WsDeflate
begin

text \<open>
  The in-place masking of \<open>src/connmgr/websocket.rs\<close>: \<open>with_mask\<close>, which masks the caller's slices, runs a
  function on them and unmasks what it did not use, and \<open>decode_from_buffer\<close> and \<open>unmask_and_decode\<close>, which
  unmask received bytes inside the ring buffer, decode them and put the mask back on what was not read.

  Slices of bytes that are changed in place are values that are passed in and returned. The buffer is the
  ring buffer, the type all callers pass for \<open>T: Buffer\<close>. The decoder is an argument, as in the source.
\<close>

section \<open>Changing the readable bytes of a ring buffer in place\<close>

text \<open>Writing through \<open>read_buf_mut\<close> (a prefix of the slice) and through \<open>read_bufs_mut\<close>.\<close>

definition rb_put_read_buf :: "ring_buffer \<Rightarrow> bytes \<Rightarrow> ring_buffer" where
  "rb_put_read_buf rb data = rb\<lparr>rb_buf := overwrite (rb_buf rb) (rb_start rb) data\<rparr>"

fun rb_put_read_bufs :: "ring_buffer \<Rightarrow> bytes list \<Rightarrow> ring_buffer" where
  "rb_put_read_bufs rb [a] = rb_put_read_buf rb a"
| "rb_put_read_bufs rb [a, b] = rb\<lparr>rb_buf := overwrite (overwrite (rb_buf rb) (rb_start rb) a) 0 b\<rparr>"
| "rb_put_read_bufs rb _ = rb"

definition BUFFER_BUFS_MAX :: nat where "BUFFER_BUFS_MAX = 2"

section \<open>Operations\<close>

definition with_mask :: "bytes list \<Rightarrow> mask option \<Rightarrow> nat \<Rightarrow> (bytes list \<Rightarrow> (nat \<times> 'r) run) \<Rightarrow> ('r \<times> bytes list) run" where
  "with_mask src mk mask_offset f = do {
     let src = (case mk of Some m \<Rightarrow> apply_mask_vectored src m mask_offset | None \<Rightarrow> src);
     (skip_unmask, ret) \<leftarrow> f src;
     src \<leftarrow> (case mk of
        Some m \<Rightarrow> do {
          let g = skip src skip_unmask;
          vis \<leftarrow> lg_as_slice g;
          Some (lg_drop (lg_update g (apply_mask_vectored vis m (mask_offset + skip_unmask))))
        }
      | None \<Rightarrow> Some src);
     Some (ret, src)
   }"

type_synonym 'd decoder = "'d \<Rightarrow> bytes \<Rightarrow> bool \<Rightarrow> nat \<Rightarrow> 'd decode_result"

text \<open>The closure \<open>preprocess_fn\<close> changes the bytes and its captured state \<open>'s\<close>.\<close>

definition decode_from_buffer ::
  "'d decoder \<Rightarrow> ring_buffer \<Rightarrow> nat \<Rightarrow> bool \<Rightarrow> 'd \<Rightarrow> nat \<Rightarrow> ('s \<Rightarrow> bytes \<Rightarrow> nat \<Rightarrow> bytes \<times> 's) \<Rightarrow> 's \<Rightarrow>
    ((io_error + bytes \<times> bool) \<times> ring_buffer \<times> 'd \<times> 's) run" where
  "decode_from_buffer dec src lim fin d room preprocess_fn s = do {
     buf \<leftarrow> rb_read_buf src;
     let lim = min lim (length buf);
     let (buf, s) = preprocess_fn s (take lim buf) 0;
     let src = rb_put_read_buf src buf;
     (r, d) \<leftarrow> dec d buf fin room;
     case r of
       Inl e \<Rightarrow> Some (Inl e, src, d, s)
     | Inr (n_read, written, end_ack) \<Rightarrow> do {
         let read_maxed = (n_read = length buf);
         src \<leftarrow> rb_read_commit src n_read;
         buf \<leftarrow> rb_read_buf src;
         left \<leftarrow> usize_sub lim n_read;
         buf \<leftarrow> subslice buf 0 left;
         if \<not> end_ack \<and> read_maxed \<and> buf \<noteq> [] then do {
           let (buf, s) = preprocess_fn s buf n_read;
           let src = rb_put_read_buf src buf;
           room \<leftarrow> usize_sub room (length written);
           (r, d) \<leftarrow> dec d buf fin room;
           case r of
             Inl e \<Rightarrow> Some (Inl e, src, d, s)
           | Inr (n_read, w, ea) \<Rightarrow> do {
               src \<leftarrow> rb_read_commit src n_read;
               Some (Inr (written @ w, ea), src, d, s)
             }
         }
         else Some (Inr (written, end_ack), src, d, s)
       }
   }"

text \<open>The closure that \<open>unmask_and_decode\<close> passes; it counts the bytes it has masked.\<close>

definition unmask_closure :: "mask option \<Rightarrow> nat \<Rightarrow> nat \<Rightarrow> bytes \<Rightarrow> nat \<Rightarrow> bytes \<times> nat" where
  "unmask_closure mk mask_offset masked buf offset =
     (case mk of
        Some m \<Rightarrow> (apply_mask buf m (mask_offset + offset), masked + length buf)
      | None \<Rightarrow> (buf, masked))"

definition unmask_and_decode ::
  "'d decoder \<Rightarrow> ring_buffer \<Rightarrow> nat \<Rightarrow> bool \<Rightarrow> mask option \<Rightarrow> nat \<Rightarrow> 'd \<Rightarrow> nat \<Rightarrow>
    ((io_error + nat \<times> bytes \<times> bool) \<times> ring_buffer \<times> 'd) run" where
  "unmask_and_decode dec src lim fin mk mask_offset d room = do {
     let orig_len = rb_len src;
     (r, src, d, masked) \<leftarrow> decode_from_buffer dec src lim fin d room (unmask_closure mk mask_offset) 0;
     case r of
       Inl e \<Rightarrow> Some (Inl e, src, d)
     | Inr (written, output_end) \<Rightarrow> do {
         n_read \<leftarrow> usize_sub orig_len (rb_len src);
         src \<leftarrow> (case mk of
            Some m \<Rightarrow> do {
              assert_that (masked \<ge> n_read);
              let masked = masked - n_read;
              bufs \<leftarrow> rb_read_bufs_mut src BUFFER_BUFS_MAX;
              let g = limit bufs masked;
              vis \<leftarrow> lg_as_slice g;
              Some (rb_put_read_bufs src (lg_drop (lg_update g (apply_mask_vectored vis m (mask_offset + n_read)))))
            }
          | None \<Rightarrow> Some src);
         Some (Inr (n_read, written, output_end), src, d)
       }
   }"

section \<open>In-place change through guards\<close>

lemma skip_update:
  assumes "n \<le> length (concat bufs)" and "lg_as_slice (skip bufs n) = Some vis" and "map length vis' = map length vis"
  shows "concat (lg_drop (lg_update (skip bufs n) vis')) = take n (concat bufs) @ concat vis'"
    and "map length (lg_drop (lg_update (skip bufs n) vis')) = map length bufs"
proof -
  have len: "length vis' = length vis" using assms(3) by (metis length_map)
  have "concat (lg_drop (lg_update (skip bufs n) vis')) = take n (concat bufs) @ concat vis'
    \<and> map length (lg_drop (lg_update (skip bufs n) vis')) = map length bufs"
  proof (cases "find_split 0 n bufs")
    case None
    with find_split_spec [where i = 0 and want = n and bufs = bufs] assms have "bufs = []" "n = 0" by auto
    with assms None len show ?thesis
      by (auto simp: skip_def lg_as_slice_def lg_update_def lg_drop_def)
  next
    case (Some p)
    obtain j k where p: "p = (j, k)" by (cases p)
    with Some find_split_spec [where i = 0 and want = n and bufs = bufs] have
      *: "j < length bufs" "k \<le> length (bufs ! j)" "n = length (concat (take j bufs)) + k" by auto
    have vis: "vis = drop k (bufs ! j) # drop (Suc j) bufs"
      using assms(2) Some p * by (simp add: skip_def lg_as_slice_def Cons_nth_drop_Suc [symmetric])
    then obtain v vs where v: "vis' = v # vs" "length v = length (bufs ! j) - k" "map length vs = map length (drop (Suc j) bufs)"
      using assms(3) by (cases vis') auto
    have "lg_drop (lg_update (skip bufs n) vis') = take j bufs @ (take k (bufs ! j) @ v) # vs"
      using Some p * v(1) by (simp add: skip_def lg_update_def lg_drop_def nth_append list_update_append min_def)
    moreover have "take n (concat bufs) = concat (take j bufs) @ take k (bufs ! j)"
      using * concat_split_at [OF *(1)] by (simp add: length_concat)
    moreover have "map length bufs = map length (take j bufs) @ length (bufs ! j) # map length (drop (Suc j) bufs)"
      using id_take_nth_drop [OF *(1)] by (metis list.simps(9) map_append)
    ultimately show ?thesis using v * by simp
  qed
  then show "concat (lg_drop (lg_update (skip bufs n) vis')) = take n (concat bufs) @ concat vis'"
    and "map length (lg_drop (lg_update (skip bufs n) vis')) = map length bufs" by auto
qed

lemma limit_update:
  assumes "lg_as_slice (limit bufs n) = Some vis" and "map length vis' = map length vis"
  shows "concat (lg_drop (lg_update (limit bufs n) vis')) = concat vis' @ drop n (concat bufs)"
    and "map length (lg_drop (lg_update (limit bufs n) vis')) = map length bufs"
proof -
  have len: "length vis' = length vis" using assms(2) by (metis length_map)
  have "concat (lg_drop (lg_update (limit bufs n) vis')) = concat vis' @ drop n (concat bufs)
    \<and> map length (lg_drop (lg_update (limit bufs n) vis')) = map length bufs"
  proof (cases "find_split 0 n bufs")
    case None
    with find_split_spec [where i = 0 and want = n and bufs = bufs] have "length (concat bufs) \<le> n" by auto
    with assms None len show ?thesis
      by (auto simp: limit_def lg_as_slice_def lg_update_def lg_drop_def)
  next
    case (Some p)
    obtain j k where p: "p = (j, k)" by (cases p)
    with Some find_split_spec [where i = 0 and want = n and bufs = bufs] have
      *: "j < length bufs" "k \<le> length (bufs ! j)" "n = length (concat (take j bufs)) + k" by auto
    have vis: "vis = take j bufs @ [take k (bufs ! j)]"
      using assms(1) Some p * by (simp add: limit_def lg_as_slice_def take_Suc_conv_app_nth)
    then obtain v vs where v: "vis' = vs @ [v]" "length v = k" "map length vs = map length (take j bufs)"
      using assms(2) * by (cases vis' rule: rev_cases) auto
    have vl: "length vs = j" using v(3) * by (metis length_map length_take min.absorb2 less_imp_le)
    have "lg_drop (lg_update (limit bufs n) vis') = vs @ (v @ drop k (bufs ! j)) # drop (Suc j) bufs"
      using Some p * v(1) vl by (simp add: limit_def lg_update_def lg_drop_def nth_append list_update_append)
    moreover have "drop n (concat bufs) = drop k (bufs ! j) @ concat (drop (Suc j) bufs)"
      using * concat_split_at [OF *(1)] by (simp add: length_concat)
    moreover have "map length bufs = map length (take j bufs) @ length (bufs ! j) # map length (drop (Suc j) bufs)"
      using id_take_nth_drop [OF *(1)] by (metis list.simps(9) map_append)
    ultimately show ?thesis using v * by simp
  qed
  then show "concat (lg_drop (lg_update (limit bufs n) vis')) = concat vis' @ drop n (concat bufs)"
    and "map length (lg_drop (lg_update (limit bufs n) vis')) = map length bufs" by auto
qed

section \<open>with\_mask\<close>

definition masked_by :: "mask option \<Rightarrow> nat \<Rightarrow> bytes \<Rightarrow> bytes" where
  "masked_by mk off data = (case mk of None \<Rightarrow> data | Some m \<Rightarrow> apply_mask data m off)"

lemma length_masked_by [simp]: "length (masked_by mk off data) = length data"
  by (simp add: masked_by_def split: option.split)

lemma masked_by_involution [simp]: "masked_by mk off (masked_by mk off data) = data"
  by (simp add: masked_by_def split: option.split)

lemma masked_by_append: "masked_by mk off (a @ b) = masked_by mk off a @ masked_by mk (off + length a) b"
  by (simp add: masked_by_def apply_mask_append split: option.split)

lemma masked_by_take: "take n (masked_by mk off data) = masked_by mk off (take n data)"
  by (simp add: masked_by_def apply_mask_take split: option.split)

lemma masked_by_drop: "drop n (masked_by mk off data) = masked_by mk (off + n) (drop n data)"
  by (simp add: masked_by_def apply_mask_drop split: option.split)

lemma masked_by_Nil [simp]: "masked_by mk off [] = []"
  by (simp add: masked_by_def split: option.split)

lemma masked_by_None [simp]: "masked_by None off data = data"
  by (simp add: masked_by_def)

text \<open>
  The function runs on the masked bytes in slices of the same lengths; afterwards the bytes it did not
  use are what they were before.
\<close>

lemma with_mask_effect:
  obtains msrc where "map length msrc = map length src" and "concat msrc = masked_by mk off (concat src)"
    and "\<And>k r. f msrc = Some (k, r) \<Longrightarrow> k \<le> length (concat src) \<Longrightarrow>
      \<exists>src'. with_mask src mk off f = Some (r, src') \<and> map length src' = map length src
        \<and> drop k (concat src') = drop k (concat src)"
proof (cases mk)
  case None
  then have "\<exists>src'. with_mask src mk off f = Some (r, src') \<and> map length src' = map length src
      \<and> drop k (concat src') = drop k (concat src)" if "f src = Some (k, r)" for k r
    using that by (simp add: with_mask_def)
  with that [of src] None show ?thesis by simp
next
  case (Some m)
  let ?src = "apply_mask_vectored src m off"
  have c: "concat ?src = apply_mask (concat src) m off" by (rule concat_apply_mask_vectored)
  have l: "length (concat ?src) = length (concat src)" by (simp add: c)
  have "\<exists>src'. with_mask src mk off f = Some (r, src') \<and> map length src' = map length src
      \<and> drop k (concat src') = drop k (concat src)" if f: "f ?src = Some (k, r)" and k: "k \<le> length (concat src)" for k r
  proof (cases "src = []")
    case True
    then show ?thesis using f k Some
      by (simp add: with_mask_def apply_mask_vectored_def skip_def lg_as_slice_def lg_update_def lg_drop_def)
  next
    case False
    then have "?src \<noteq> []" by (metis map_is_Nil_conv map_length_apply_mask_vectored)
    from skip_visible [OF _ this, of k] k l obtain vis where
      vis: "lg_as_slice (skip ?src k) = Some vis" "concat vis = drop k (concat ?src)" by auto
    let ?vis = "apply_mask_vectored vis m (off + k)"
    have "concat ?vis = drop k (concat src)"
      by (simp add: concat_apply_mask_vectored vis(2) c apply_mask_drop)
    moreover note skip_update [OF _ vis(1), of ?vis]
    ultimately show ?thesis using f k l vis(1) Some by (auto simp: with_mask_def Let_def)
  qed
  with that [of ?src] Some c show ?thesis by (simp add: masked_by_def)
qed

section \<open>Readable bytes changed in place\<close>

lemma rb_put_read_buf_contents:
  assumes inv: "rb_inv rb" and len: "length data \<le> length (take (length (rb_buf rb) - rb_start rb) (rb_contents rb))"
  shows "rb_inv (rb_put_read_buf rb data)"
    and "rb_contents (rb_put_read_buf rb data) = data @ drop (length data) (rb_contents rb)"
    and "length (rb_buf (rb_put_read_buf rb data)) = length (rb_buf rb)"
proof -
  let ?rb = "rb_put_read_buf rb data"
  have le: "length data \<le> rb_end rb - rb_start rb" "rb_start rb + length data \<le> length (rb_buf rb)"
    using len inv by (auto simp: rb_inv_def)
  show lb: "length (rb_buf ?rb) = length (rb_buf rb)" using le by (simp add: rb_put_read_buf_def)
  show inv': "rb_inv ?rb" using inv le by (auto simp: rb_inv_def rb_put_read_buf_def)
  have se: "rb_start ?rb = rb_start rb" "rb_end ?rb = rb_end rb" by (simp_all add: rb_put_read_buf_def)
  show "rb_contents ?rb = data @ drop (length data) (rb_contents rb)"
  proof (rule nth_equalityI)
    show "length (rb_contents ?rb) = length (data @ drop (length data) (rb_contents rb))"
      using inv inv' le se by simp
    fix i assume "i < length (rb_contents ?rb)"
    then have i: "i < rb_end rb - rb_start rb" using inv' se by simp
    let ?p = "if rb_start rb + i < length (rb_buf rb) then rb_start rb + i else rb_start rb + i - length (rb_buf rb)"
    have p: "?p < length (rb_buf rb)" using inv i by (auto simp: rb_inv_def)
    have lhs: "rb_contents ?rb ! i = overwrite (rb_buf rb) (rb_start rb) data ! ?p"
      using nth_rb_contents [OF inv', of i] i lb se by (simp add: rb_put_read_buf_def)
    show "rb_contents ?rb ! i = (data @ drop (length data) (rb_contents rb)) ! i"
    proof (cases "i < length data")
      case True
      then show ?thesis using lhs le by (simp add: nth_append nth_overwrite)
    next
      case False
      then have "\<not> (rb_start rb \<le> ?p \<and> ?p < rb_start rb + length data)" using inv i by (auto simp: rb_inv_def)
      then have "rb_contents ?rb ! i = rb_buf rb ! ?p" using lhs le(2) p by (simp only: nth_overwrite if_False)
      then show ?thesis using False inv i by (simp add: nth_append nth_rb_contents)
    qed
  qed
qed

lemma rb_read_bufs_mut_eq:
  assumes "rb_inv rb"
  shows "rb_read_bufs_mut rb BUFFER_BUFS_MAX =
    Some (if rb_end rb > length (rb_buf rb) then [drop (rb_start rb) (rb_buf rb), take (rb_end rb - length (rb_buf rb)) (rb_buf rb)]
      else [take (rb_end rb - rb_start rb) (drop (rb_start rb) (rb_buf rb))])"
  using assms by (auto simp: rb_read_bufs_mut_def BUFFER_BUFS_MAX_def rb_inv_def Let_def min_def)

lemma rb_put_read_bufs_contents:
  assumes inv: "rb_inv rb" and bufs: "rb_read_bufs_mut rb BUFFER_BUFS_MAX = Some bufs" and len: "map length bufs' = map length bufs"
  shows "concat bufs = rb_contents rb" and "rb_inv (rb_put_read_bufs rb bufs')"
    and "rb_contents (rb_put_read_bufs rb bufs') = concat bufs'"
proof -
  let ?c = "length (rb_buf rb)"
  have eq: "bufs = (if rb_end rb > ?c then [drop (rb_start rb) (rb_buf rb), take (rb_end rb - ?c) (rb_buf rb)]
      else [take (rb_end rb - rb_start rb) (drop (rb_start rb) (rb_buf rb))])"
    using bufs rb_read_bufs_mut_eq [OF inv] by simp
  show c: "concat bufs = rb_contents rb"
    using eq rb_contents_wrapped [OF inv] rb_contents_unwrapped [of rb] by auto
  have "rb_inv (rb_put_read_bufs rb bufs') \<and> rb_contents (rb_put_read_bufs rb bufs') = concat bufs'"
  proof (cases "rb_end rb > ?c")
    case False
    then obtain a' where a': "bufs' = [a']" "length a' = rb_end rb - rb_start rb"
      using len eq inv by (cases bufs') (auto simp: rb_inv_def)
    from rb_put_read_buf_contents [OF inv, of a'] a' False inv show ?thesis by (simp add: rb_inv_def)
  next
    case True
    with len eq inv obtain a' b' where ab': "bufs' = [a', b']" "length a' = ?c - rb_start rb" "length b' = rb_end rb - ?c"
      by (cases bufs'; cases "tl bufs'") (auto simp: rb_inv_def)
    have l: "length (overwrite (rb_buf rb) (rb_start rb) a') = ?c" "length (overwrite (overwrite (rb_buf rb) (rb_start rb) a') 0 b') = ?c"
      using ab' inv True by (auto simp: rb_inv_def)
    have inv': "rb_inv (rb_put_read_bufs rb bufs')" using inv l ab' by (simp add: rb_inv_def)
    moreover have "rb_contents (rb_put_read_bufs rb bufs') = a' @ b'"
    proof -
      have rs: "rb_start rb + length a' = ?c" "length b' \<le> rb_start rb" using ab' True inv by (auto simp: rb_inv_def)
      have "overwrite (rb_buf rb) (rb_start rb) a' = take (rb_start rb) (rb_buf rb) @ a'" using rs by (simp add: overwrite_def)
      then have "overwrite (overwrite (rb_buf rb) (rb_start rb) a') 0 b' = b' @ drop (length b') (take (rb_start rb) (rb_buf rb)) @ a'"
        using rs by (simp add: overwrite_def)
      with rb_contents_wrapped [OF inv'] True ab' l rs show ?thesis by simp
    qed
    ultimately show ?thesis using ab' by simp
  qed
  then show "rb_inv (rb_put_read_bufs rb bufs')" and "rb_contents (rb_put_read_bufs rb bufs') = concat bufs'" by auto
qed

section \<open>Decoding out of the ring buffer\<close>

lemma rb_read_commit_partial:
  assumes "rb_inv rb" and "k < length (take (length (rb_buf rb) - rb_start rb) (rb_contents rb))"
  shows "rb_read_commit rb k = Some (rb\<lparr>rb_start := rb_start rb + k\<rparr>)"
  using assms by (auto simp: rb_read_commit_def assert_that_bind rb_inv_def Let_def)

text \<open>What the code relies on of a decoder: it returns, and consumes and produces within bounds.\<close>

locale stream_decoder =
  fixes dec :: "'d decoder"
    and ok :: "'d \<Rightarrow> bool"
  assumes decode_returns: "ok d \<Longrightarrow> \<exists>r d'. dec d src fin room = Some (r, d') \<and> ok d' \<and>
    (case r of Inl _ \<Rightarrow> True | Inr (k, out, ack) \<Rightarrow> k \<le> length src \<and> length out \<le> room)"
begin

text \<open>
  The second pass of \<open>decode_from_buffer\<close> is never taken: the limit has been cut down to the first slice,
  so nothing of it is left once that slice has been read.
\<close>

lemma decode_from_buffer_once:
  assumes "rb_inv src" and "ok d" and pre: "\<And>s b off. length (fst (pre s b off)) = length b"
    and part: "part = take (min lim (length (rb_buf src) - rb_start src)) (rb_contents src)"
    and pb: "pre s part 0 = (b, s')"
  shows "\<exists>r src' d'. dec d b fin room = Some (r, d') \<and> ok d' \<and> rb_inv src' \<and>
    (case r of
       Inl e \<Rightarrow> decode_from_buffer dec src lim fin d room pre s = Some (Inl e, src', d', s')
         \<and> rb_contents src' = b @ drop (length b) (rb_contents src)
     | Inr (k, w, ack) \<Rightarrow> decode_from_buffer dec src lim fin d room pre s = Some (Inr (w, ack), src', d', s')
         \<and> k \<le> length b \<and> rb_contents src' = drop k (b @ drop (length b) (rb_contents src)))"
proof -
  let ?buf = "take (length (rb_buf src) - rb_start src) (rb_contents src)"
  have buf: "rb_read_buf src = Some ?buf" by (rule rb_read_buf_contents [OF assms(1)])
  have part': "take (min lim (length ?buf)) ?buf = part" using part by (simp add: min_def)
  have lb: "length b = length part" using pre [of s part 0] pb by simp
  have len: "length b \<le> length ?buf" using lb part by simp
  have lim: "min lim (length ?buf) = length b" using lb part by simp
  define src1 where "src1 = rb_put_read_buf src b"
  note put = rb_put_read_buf_contents [OF assms(1) len, folded src1_def]
  from decode_returns [OF assms(2), of b fin room] obtain r d' where
    r: "dec d b fin room = Some (r, d')" "ok d'"
      "case r of Inl _ \<Rightarrow> True | Inr (k, out, ack) \<Rightarrow> k \<le> length b \<and> length out \<le> room" by blast
  show ?thesis
  proof (cases r)
    case (Inl e)
    then have "decode_from_buffer dec src lim fin d room pre s = Some (Inl e, src1, d', s')"
      using buf part' pb r(1) by (simp add: decode_from_buffer_def Let_def src1_def)
    with Inl r put show ?thesis by auto
  next
    case (Inr q)
    obtain k w ack where q: "q = (k, w, ack)" by (cases q)
    have k: "k \<le> length b" using r(3) Inr q by simp
    then have "k \<le> length (rb_contents src1)" by (simp add: put(2))
    from rb_read_commit_contents [OF put(1) this] obtain src2 where
      c: "rb_read_commit src1 k = Some src2" "rb_inv src2" "rb_contents src2 = drop k (rb_contents src1)" by blast
    have sub: "\<exists>y x. rb_read_buf src2 = Some y \<and> subslice y 0 (length b - k) = Some x \<and> (k = length b \<longrightarrow> x = [])"
    proof (cases "k = length b")
      case True
      with ring.read_buf_prefix [OF c(2)] show ?thesis by auto
    next
      case False
      have "length b \<le> length (take (length (rb_buf src1) - rb_start src1) (rb_contents src1))"
        using len put assms(1) by (simp add: src1_def rb_put_read_buf_def)
      with rb_read_commit_partial [OF put(1), of k] False k c(1) have
        "src2 = src1\<lparr>rb_start := rb_start src1 + k\<rparr>" by simp
      then have "length (rb_buf src2) - rb_start src2 = length (rb_buf src) - rb_start src - k"
        using put(3) by (simp add: src1_def rb_put_read_buf_def)
      moreover have "length b - k \<le> length (rb_contents src2)" unfolding c(3) put(2) by simp
      ultimately have "length b - k \<le> length (take (length (rb_buf src2) - rb_start src2) (rb_contents src2))"
        using len by (auto simp del: length_rb_contents)
      with rb_read_buf_contents [OF c(2)] False show ?thesis by auto
    qed
    then obtain y x where "rb_read_buf src2 = Some y" "subslice y 0 (length b - k) = Some x" "k = length b \<longrightarrow> x = []" by blast
    then have "decode_from_buffer dec src lim fin d room pre s = Some (Inr (w, ack), src2, d', s')"
      using buf part' pb r(1) Inr q c(1) lim k by (auto simp: decode_from_buffer_def Let_def src1_def)
    with r Inr q k c put(2) show ?thesis by auto
  qed
qed

lemma unmask_and_decode_effect:
  assumes inv: "rb_inv src" and ok: "ok d"
    and part: "part = take (min lim (length (rb_buf src) - rb_start src)) (rb_contents src)"
  shows "\<exists>r src' d'. unmask_and_decode dec src lim fin mk off d room = Some (r, src', d')
    \<and> dec d (masked_by mk off part) fin room = Some (r, d') \<and> ok d' \<and> rb_inv src' \<and>
    (case r of
       Inl e \<Rightarrow> rb_contents src' = masked_by mk off part @ drop (length part) (rb_contents src)
     | Inr (k, w, ack) \<Rightarrow> k \<le> length part \<and> length w \<le> room \<and> rb_contents src' = drop k (rb_contents src))"
proof -
  let ?b = "masked_by mk off part" and ?m = "if mk = None then 0 else length part"
  have pre: "length (fst (unmask_closure mk off s b o')) = length b" for s b o'
    by (simp add: unmask_closure_def split: option.split)
  have pb: "unmask_closure mk off 0 part 0 = (?b, ?m)"
    by (auto simp: unmask_closure_def masked_by_def split: option.split)
  from decode_from_buffer_once [where pre = "unmask_closure mk off" and s = 0, OF inv ok pre part pb, of fin room] obtain r src1 d' where
    d: "dec d ?b fin room = Some (r, d')" "ok d'" "rb_inv src1" and
    res: "case r of
       Inl e \<Rightarrow> decode_from_buffer dec src lim fin d room (unmask_closure mk off) 0 = Some (Inl e, src1, d', ?m)
         \<and> rb_contents src1 = ?b @ drop (length ?b) (rb_contents src)
     | Inr (k, w, ack) \<Rightarrow> decode_from_buffer dec src lim fin d room (unmask_closure mk off) 0 = Some (Inr (w, ack), src1, d', ?m)
         \<and> k \<le> length ?b \<and> rb_contents src1 = drop k (?b @ drop (length ?b) (rb_contents src))" by blast
  show ?thesis
  proof (cases r)
    case (Inl e)
    with d res show ?thesis by (auto simp: unmask_and_decode_def Let_def)
  next
    case (Inr q)
    obtain k w ack where q: "q = (k, w, ack)" by (cases q)
    have dfb: "decode_from_buffer dec src lim fin d room (unmask_closure mk off) 0 = Some (Inr (w, ack), src1, d', ?m)"
      and k: "k \<le> length part" and c1: "rb_contents src1 = drop k (?b @ drop (length part) (rb_contents src))"
      using res Inr q by auto
    have w: "length w \<le> room" using decode_returns [OF ok, of ?b fin room] d(1) Inr q by auto
    have lp: "length part \<le> length (rb_contents src)" using part by simp
    have nread: "usize_sub (rb_len src) (rb_len src1) = Some k"
    proof -
      have "length (rb_contents src1) = length (rb_contents src) - k" using c1 k lp by (simp del: length_rb_contents)
      then show ?thesis using ring.len_contents [OF inv] ring.len_contents [OF d(3)] k lp
        by (simp del: length_rb_contents)
    qed
    show ?thesis
    proof (cases mk)
      case None
      have "part @ drop (length part) (rb_contents src) = rb_contents src" using part by (simp add: append_take_drop_id min_def)
      then have "rb_contents src1 = drop k (rb_contents src)" using c1 None by simp
      then show ?thesis using None dfb nread d Inr q k w by (simp add: unmask_and_decode_def Let_def)
    next
      case (Some m)
      obtain bufs where bufs: "rb_read_bufs_mut src1 BUFFER_BUFS_MAX = Some bufs" using rb_read_bufs_mut_eq [OF d(3)] by blast
      obtain vis where vis: "lg_as_slice (limit bufs (length part - k)) = Some vis" "concat vis = take (length part - k) (concat bufs)"
        using limit_visible by blast
      let ?vis = "apply_mask_vectored vis m (off + k)"
      let ?bufs = "lg_drop (lg_update (limit bufs (length part - k)) ?vis)"
      note up = limit_update [OF vis(1), of ?vis, OF map_length_apply_mask_vectored]
      note put = rb_put_read_bufs_contents [OF d(3) bufs up(2)]
      have "concat vis = masked_by mk (off + k) (drop k part)"
        unfolding vis(2) put(1) c1 using k by (simp add: masked_by_drop)
      then have "concat ?vis = drop k part" by (simp add: concat_apply_mask_vectored masked_by_def Some)
      moreover have "drop (length part - k) (concat bufs) = drop (length part) (rb_contents src)"
        unfolding put(1) c1 using k by simp
      ultimately have "concat ?bufs = drop k part @ drop (length part) (rb_contents src)" using up(1) by simp
      also have "\<dots> = drop k (rb_contents src)"
      proof -
        have "drop k part = take (length part - k) (drop k (rb_contents src))" using part by (simp add: drop_take min_def)
        moreover have "drop (length part) (rb_contents src) = drop (length part - k) (drop k (rb_contents src))" using k by simp
        ultimately show ?thesis by (metis append_take_drop_id)
      qed
      finally have "rb_contents (rb_put_read_bufs src1 ?bufs) = drop k (rb_contents src)" using put(3) by simp
      moreover have "unmask_and_decode dec src lim fin mk off d room = Some (r, rb_put_read_bufs src1 ?bufs, d')"
        using dfb nread Some k bufs vis(1) Inr q by (simp add: unmask_and_decode_def Let_def)
      ultimately show ?thesis using d put(2) Inr q k w by auto
    qed
  qed
qed

end

interpretation deflate_stream: stream_decoder "decode ifl" "\<lambda>d. codec_bounded ifl \<and> decoder_ok d" for ifl
proof (unfold_locales, goal_cases)
  case (1 d src fin room)
  with decode_total [of ifl d src fin room] show ?case by (fastforce split: sum.splits)
qed

section \<open>Properties\<close>

text \<open>
  \<open>unmask_and_decode\<close> hands the decoder the unmasked bytes of the first readable slice, up to
  the limit, once, and leaves the ring buffer holding exactly the bytes the decoder did not consume, as
  they were received: the mask is back on every byte that had been unmasked in place but was not read,
  wherever the contents wrap. It never panics; only an error of the decoder leaves unmasked bytes behind.
\<close>

lemma unmask_and_decode_restores:
  assumes "rb_inv src" and "codec_bounded ifl" and "decoder_ok d"
    and "part = take (min lim (length (rb_buf src) - rb_start src)) (rb_contents src)"
  shows "\<exists>r src' d'. unmask_and_decode (decode ifl) src lim fin mk off d room = Some (r, src', d')
    \<and> decode ifl d (masked_by mk off part) fin room = Some (r, d') \<and> decoder_ok d' \<and> rb_inv src' \<and>
    (case r of
       Inl e \<Rightarrow> rb_contents src' = masked_by mk off part @ drop (length part) (rb_contents src)
     | Inr (k, w, ack) \<Rightarrow> k \<le> length part \<and> length w \<le> room \<and> rb_contents src' = drop k (rb_contents src))"
  using deflate_stream.unmask_and_decode_effect [of src ifl d part lim fin mk off room] assms by blast

text \<open>Three bytes, of which two stand before the end of the array and one has wrapped.\<close>

definition wrapped_ring :: ring_buffer where
  "wrapped_ring = \<lparr>rb_buf = [3, 0, 1, 2], rb_start = 2, rb_end = 5, rb_tmp_len = 4\<rparr>"

lemma wrapped_ring_ok: "rb_inv wrapped_ring" "rb_contents wrapped_ring = [1, 2, 3]"
  by (simp_all add: wrapped_ring_def rb_inv_def rb_contents_def)

text \<open>
  Property C40. The end of a message is passed to the decoder too early when its last bytes wrap around the
  end of the buffer. Let the readable bytes wrap, \<open>a\<close> standing before the end of the array and \<open>b\<close> after it,
  and let the limit reach beyond \<open>a\<close>. With \<open>end\<close> set, \<open>unmask_and_decode\<close> calls the decoder once, with the
  unmasked bytes of \<open>a\<close> alone and already with \<open>end\<close>, and the result is that of this call. So whenever it
  reports the end of the output, the bytes of \<open>b\<close> are still unread in the buffer, and the decompressor has
  been given \<open>a\<close> followed by the sync marker, which belongs after \<open>b\<close>. The second pass in
  \<open>decode_from_buffer\<close>, meant for the bytes after the wrap, cannot happen because the limit has been cut to
  the first slice. The decompressor is any bounded codec, at the point where no marker is being fed.
\<close>

theorem decode_wrapped_ends_early:
  fixes ifl :: "'i codec"
  assumes "rb_inv src" "codec_bounded ifl" "decoder_ok d" "dd_marker_pos d = None"
    and "rb_read_buf src = Some a" "rb_contents src = a @ b" "b \<noteq> []" "length a < lim"
  shows "\<exists>r src' d'. unmask_and_decode (decode ifl) src lim True mk off d room = Some (r, src', d')
    \<and> decode ifl d (masked_by mk off a) True room = Some (r, d')
    \<and> (\<forall>n w. r = Inr (n, w, True) \<longrightarrow> n = length a \<and> rb_contents src' = b
        \<and> codec_trace ifl (dd_dec d) (masked_by mk off a @ SYNC_MARKER) w (dd_dec d'))"
proof -
  let ?k = "length (rb_buf src) - rb_start src"
  have a: "a = take ?k (a @ b)" using rb_read_buf_contents [OF assms(1)] assms(5,6) by simp
  then have "length a = min ?k (length a + length b)" by (metis length_append length_take min.commute)
  moreover have "0 < length b" using assms(7) by simp
  ultimately have "length a = ?k" by linarith
  then have part: "a = take (min lim ?k) (rb_contents src)" using assms(6,8) by simp
  from unmask_and_decode_restores [OF assms(1-3) part, of True mk off room] obtain r src' d' where
    r: "unmask_and_decode (decode ifl) src lim True mk off d room = Some (r, src', d')"
      "decode ifl d (masked_by mk off a) True room = Some (r, d')" and
    c: "case r of Inl e \<Rightarrow> rb_contents src' = masked_by mk off a @ drop (length a) (rb_contents src)
      | Inr (k, w, ack) \<Rightarrow> k \<le> length a \<and> length w \<le> room \<and> rb_contents src' = drop k (rb_contents src)" by blast
  have "n = length a \<and> rb_contents src' = b \<and> codec_trace ifl (dd_dec d) (masked_by mk off a @ SYNC_MARKER) w (dd_dec d')"
    if e: "r = Inr (n, w, True)" for n w
  proof -
    from decode_total [OF assms(2,3), of "masked_by mk off a" True room] r(2) e assms(4) have
      n: "n = length a" and eff: "decode_effect ifl d (masked_by mk off a) w True d'" by auto
    from eff assms(4) have "codec_trace ifl (dd_dec d) (masked_by mk off a @ SYNC_MARKER) w (dd_dec d')"
      by (simp add: decode_effect_def marker_fed_def)
    with n c e assms(6) show ?thesis by simp
  qed
  with r show ?thesis by blast
qed

theorem decode_wrapped_ends_early_witness:
  "rb_contents wrapped_ring = [1, 2, 3]
    \<and> (\<exists>src'. unmask_and_decode (decode copy_inflate) wrapped_ring 3 True None 0 (decoder_new ()) 9
        = Some (Inr (2, [1, 2], True), src', decoder_new ()) \<and> rb_contents src' = [3])"
proof -
  have "rb_read_buf wrapped_ring = Some [1, 2]" "dd_marker_pos (decoder_new ()) = None"
    "decode copy_inflate (decoder_new ()) [1, 2] True 9 = Some (Inr (2, [1, 2], True), decoder_new ())" by code_simp+
  moreover have "decoder_ok (decoder_new ())" by (simp add: decoder_ok_def decoder_new_def)
  ultimately show ?thesis
    using decode_wrapped_ends_early [where a = "[1, 2]" and b = "[3]" and lim = 3 and mk = None and off = 0 and room = 9
      and d = "decoder_new ()", OF wrapped_ring_ok(1) copy_codecs_bounded(2)] wrapped_ring_ok(2) by auto
qed

end
