(* ===== verification/WsProtocol.thy ===== *)
theory WsProtocol
  imports WsMask
begin

text \<open>
  The session of \<open>src/connmgr/websocket.rs\<close>: \<open>Protocol\<close> with \<open>send_frame\<close>, \<open>recv_frame\<close>, the message-level
  \<open>send_message_start\<close>, \<open>send_message_content\<close> and \<open>recv_message_content\<close>, and the closing handshake.

  The state is a record with the fields of \<open>Protocol\<close>, \<open>Sending\<close>, \<open>Receiving\<close> and \<open>DeflateState\<close>; the
  interior mutability of the source (\<open>Cell\<close>, \<open>RefCell\<close>) is state passing, since no borrow is held across a
  call of one of the operations by its callers. The writer, the codecs of \<open>miniz_oxide\<close> and the reset of the
  compressor are arguments. The slices to send are passed in and returned, because masking changes them
  in place.
\<close>

unbundle bit_operations_syntax

section \<open>State\<close>

definition OPCODE_CONTINUATION :: u8 where "OPCODE_CONTINUATION = 0"
definition OPCODE_CLOSE :: u8 where "OPCODE_CLOSE = 8"
definition CONTROL_FRAME_PAYLOAD_MAX :: nat where "CONTROL_FRAME_PAYLOAD_MAX = 125"
definition SEND_FRAME_BUFS_MAX :: nat where "SEND_FRAME_BUFS_MAX = 8"

datatype compression_mode = Compressed | Uncompressed
datatype ws_state = Connected | PeerClosed | Closing | Finished
datatype ws_error = WsIo io_error | InvalidControlFrame | UnexpectedOpcode | CompressionError

record sending_frame =
  sf_opcode :: u8
  sf_header :: bytes
  sf_payload_size :: nat
  sf_sent :: nat

record sending_message =
  sm_opcode :: u8
  sm_mask :: "mask option"
  sm_frame_sent :: bool
  sm_end_len :: "nat option"
  sm_enc_output_end :: bool

record receiving_message =
  rm_opcode :: u8
  rm_frame_payload_read :: nat
  rm_compression_mode :: compression_mode

record ('c, 'i) deflate_state =
  ds_enc :: "'c deflate_encoder"
  ds_dec :: "'i deflate_decoder"
  ds_allow_takeover :: bool
  ds_enc_buf :: ring_buffer

record ('c, 'i) protocol =
  p_state :: ws_state
  p_sending_frame :: "sending_frame option"
  p_sending_message :: "sending_message option"
  p_receiving_frame :: "frame_info option"
  p_receiving_message :: "receiving_message option"
  p_deflate :: "('c, 'i) deflate_state option"

text \<open>\<open>c\<close> and \<open>i\<close> are the fresh compressor and decompressor.\<close>

definition protocol_new :: "'c \<Rightarrow> 'i \<Rightarrow> (bool \<times> ring_buffer) option \<Rightarrow> ('c, 'i) protocol" where
  "protocol_new c i deflate_config =
     \<lparr>p_state = Connected, p_sending_frame = None, p_sending_message = None,
      p_receiving_frame = None, p_receiving_message = None,
      p_deflate = map_option (\<lambda>(allow_takeover, enc_buf).
        \<lparr>ds_enc = encoder_new c, ds_dec = decoder_new i, ds_allow_takeover = allow_takeover, ds_enc_buf = enc_buf\<rparr>)
        deflate_config\<rparr>"

section \<open>Frames\<close>

definition can_send :: "('c, 'i) protocol \<Rightarrow> bool" where
  "can_send p \<longleftrightarrow> p_state p = Connected \<or> p_state p = PeerClosed"

definition can_recv :: "('c, 'i) protocol \<Rightarrow> bool" where
  "can_recv p \<longleftrightarrow> p_state p = Connected \<or> p_state p = Closing"

text \<open>The state changes when a close frame has been sent, and when one has been received.\<close>

definition close_sent :: "ws_state \<Rightarrow> ws_state" where
  "close_sent s = (if s = PeerClosed then Finished else Closing)"

definition close_received :: "ws_state \<Rightarrow> ws_state" where
  "close_received s = (if s = Closing then Finished else PeerClosed)"

text \<open>The frame that is being sent: the one in progress, or a new one with its header.\<close>

definition current_frame ::
  "('c, 'i) protocol \<Rightarrow> u8 \<Rightarrow> nat \<Rightarrow> bool \<Rightarrow> bool \<Rightarrow> mask option \<Rightarrow> (io_error + sending_frame) run" where
  "current_frame p opcode src_len fin rsv1 mk =
     (case p_sending_frame p of
        Some f \<Rightarrow> Some (Inr f)
      | None \<Rightarrow> do {
          (r, header) \<leftarrow> write_header fin rsv1 opcode src_len mk (replicate HEADER_SIZE_MAX 0);
          case r of
            Inl e \<Rightarrow> Some (Inl e)
          | Inr n \<Rightarrow> Some (Inr \<lparr>sf_opcode = opcode, sf_header = take n header, sf_payload_size = src_len, sf_sent = 0\<rparr>)
        })"

text \<open>The closure that writes what is left of the header and the masked payload.\<close>

definition write_frame ::
  "'w writer \<Rightarrow> 'w \<Rightarrow> sending_frame \<Rightarrow> nat \<Rightarrow> bytes list \<Rightarrow> (nat \<times> (io_error + nat) \<times> 'w) run" where
  "write_frame W w f header_remaining src = do {
     let out = (if header_remaining > 0 then [drop (sf_sent f) (sf_header f)] else []) @ src;
     assert_that (length out \<le> SEND_FRAME_BUFS_MAX + 1);
     (ret, w) \<leftarrow> write_vectored_offset W w out 0;
     let n = (case ret of Inr n \<Rightarrow> n | Inl _ \<Rightarrow> 0);
     Some (n - header_remaining, ret, w)
   }"

definition send_frame ::
  "'w writer \<Rightarrow> ('c, 'i) protocol \<Rightarrow> 'w \<Rightarrow> u8 \<Rightarrow> bytes list \<Rightarrow> bool \<Rightarrow> bool \<Rightarrow> mask option \<Rightarrow>
    ((ws_error + nat) \<times> 'w \<times> bytes list \<times> ('c, 'i) protocol) run" where
  "send_frame W p w opcode src0 fin rsv1 mk = do {
     assert_that (can_send p);
     let (src, capped) = cap_bufs src0 SEND_FRAME_BUFS_MAX;
     let beyond = drop (length src) src0;
     let fin = (fin \<and> \<not> capped);
     let src_len = sum_list (map length src);
     cf \<leftarrow> current_frame p opcode src_len fin rsv1 mk;
     case cf of
       Inl e \<Rightarrow> Some (Inl (WsIo e), w, src0, p)
     | Inr frame \<Rightarrow> do {
         let p = p\<lparr>p_sending_frame := Some frame\<rparr>;
         let header_len = length (sf_header frame);
         let frame_size = header_len + sf_payload_size frame;
         let (header_remaining, payload_sent) =
           (if sf_sent frame < header_len then (header_len - sf_sent frame, 0) else (0, sf_sent frame - header_len));
         assert_that (payload_sent \<le> sf_payload_size frame);
         let g = limit src (sf_payload_size frame - payload_sent);
         vis \<leftarrow> lg_as_slice g;
         ((ret, w), vis) \<leftarrow> with_mask vis mk payload_sent (write_frame W w frame header_remaining);
         let src0 = lg_drop (lg_update g vis) @ beyond;
         case ret of
           Inl e \<Rightarrow> Some (Inl (WsIo e), w, src0, p)
         | Inr n \<Rightarrow> do {
             let sent = sf_sent frame + n;
             assert_that (sent \<le> frame_size);
             let p = p\<lparr>p_sending_frame := Some (frame\<lparr>sf_sent := sent\<rparr>)\<rparr>;
             if sent < header_len then Some (Inr 0, w, src0, p)
             else do {
               payload_written \<leftarrow> usize_sub (sent - header_len) payload_sent;
               let p = (if sent = frame_size then
                          (let p = p\<lparr>p_sending_frame := None\<rparr> in
                           if sf_opcode frame = OPCODE_CLOSE then p\<lparr>p_state := close_sent (p_state p)\<rparr> else p)
                        else p);
               Some (Inr payload_written, w, src0, p)
             }
           }
       }
   }"

text \<open>\<open>None\<close> is \<open>recv_frame\<close>'s answer that more bytes are needed. It returns the payload, unmasked in place.\<close>

definition recv_frame ::
  "('c, 'i) protocol \<Rightarrow> ring_buffer \<Rightarrow> ((ws_error + u8 \<times> bytes \<times> bool) option \<times> ring_buffer \<times> ('c, 'i) protocol) run" where
  "recv_frame p rbuf = do {
     assert_that (can_recv p);
     (hdr, rbuf, p) \<leftarrow>
       (case p_receiving_frame p of
          Some fi \<Rightarrow> Some (Inr fi, rbuf, p)
        | None \<Rightarrow> do {
            buf \<leftarrow> rb_read_buf rbuf;
            r \<leftarrow> read_header buf;
            case r of
              Inl e \<Rightarrow> Some (Inl e, rbuf, p)
            | Inr fi \<Rightarrow> do {
                rbuf \<leftarrow> rb_read_commit rbuf (fi_payload_offset fi);
                Some (Inr fi, rbuf, p\<lparr>p_receiving_frame := Some fi\<rparr>)
              }
          });
     case hdr of
       Inl e \<Rightarrow> Some (if e = UnexpectedEof then None else Some (Inl (WsIo e)), rbuf, p)
     | Inr fi \<Rightarrow> do {
         buf \<leftarrow> rb_read_buf rbuf;
         if length buf < fi_payload_size fi then Some (None, rbuf, p)
         else do {
           let p = (if fi_opcode fi = OPCODE_CLOSE then p\<lparr>p_state := close_received (p_state p)\<rparr> else p);
           let buf = masked_by (fi_mask fi) 0 buf;
           let rbuf = rb_put_read_buf rbuf buf;
           Some (Some (Inr (fi_opcode fi, take (fi_payload_size fi) buf, fi_fin fi)), rbuf, p\<lparr>p_receiving_frame := None\<rparr>)
         }
       }
   }"

section \<open>Sending messages\<close>

definition is_sending_message :: "('c, 'i) protocol \<Rightarrow> bool" where
  "is_sending_message p \<longleftrightarrow> p_sending_message p \<noteq> None"

definition send_message_start :: "('c, 'i) protocol \<Rightarrow> u8 \<Rightarrow> mask option \<Rightarrow> ('c, 'i) protocol run" where
  "send_message_start p opcode mk = do {
     assert_that (can_send p);
     assert_that (p_sending_message p = None);
     Some (p\<lparr>p_sending_message := Some \<lparr>sm_opcode = opcode, sm_mask = mk, sm_frame_sent = False,
               sm_end_len = None, sm_enc_output_end = False\<rparr>\<rparr>)
   }"

text \<open>The loop that compresses the slices, with the bytes read so far.\<close>

fun encode_bufs ::
  "'c codec \<Rightarrow> 'c deflate_encoder \<Rightarrow> ring_buffer \<Rightarrow> bytes list \<Rightarrow> bool \<Rightarrow> nat \<Rightarrow> bool \<Rightarrow>
    ((io_error + nat \<times> bool) \<times> 'c deflate_encoder \<times> ring_buffer) run" where
  "encode_bufs dfl e dest [] fin n_read oe = Some (Inr (n_read, oe), e, dest)"
| "encode_bufs dfl e dest (buf # bufs) fin n_read oe = do {
     (r, e, dest) \<leftarrow> encode_to_ringbuffer dfl e buf (fin \<and> bufs = []) dest;
     case r of
       Inl err \<Rightarrow> Some (Inl err, e, dest)
     | Inr (n, oe) \<Rightarrow>
         if n < length buf \<or> oe then Some (Inr (n_read + n, oe), e, dest)
         else encode_bufs dfl e dest bufs fin (n_read + n) oe
   }"

definition sub_end_len :: "sending_message \<Rightarrow> nat \<Rightarrow> sending_message run" where
  "sub_end_len msg n =
     (case sm_end_len msg of
        None \<Rightarrow> Some msg
      | Some end_len \<Rightarrow> do { l \<leftarrow> usize_sub end_len n; Some (msg\<lparr>sm_end_len := Some l\<rparr>) })"

definition set_message :: "('c, 'i) protocol \<Rightarrow> sending_message \<Rightarrow> ('c, 'i) protocol" where
  "set_message p msg = p\<lparr>p_sending_message := Some msg\<rparr>"

text \<open>The branch of \<open>send_message_content\<close> without compression.\<close>

definition send_plain ::
  "'w writer \<Rightarrow> ('c, 'i) protocol \<Rightarrow> 'w \<Rightarrow> sending_message \<Rightarrow> u8 \<Rightarrow> bytes list \<Rightarrow> bool \<Rightarrow>
    ((ws_error + nat \<times> bool) \<times> 'w \<times> bytes list \<times> ('c, 'i) protocol) run" where
  "send_plain W p w msg opcode src fin = do {
     (r, w, src', p) \<leftarrow> send_frame W p w opcode src fin False (sm_mask msg);
     case r of
       Inl e \<Rightarrow> Some (Inl e, w, src', p)
     | Inr n_read \<Rightarrow> do {
         msg \<leftarrow> sub_end_len msg n_read;
         let p = set_message p (msg\<lparr>sm_frame_sent := True\<rparr>);
         Some (Inr (n_read, fin \<and> n_read = sum_list (map length src)), w, src', p)
       }
   }"

text \<open>
  The branch with compression: first compress into the encoder's buffer; only when nothing was read, send
  a frame from it.
\<close>

definition send_compressed ::
  "'w writer \<Rightarrow> 'c codec \<Rightarrow> ('c, 'i) protocol \<Rightarrow> ('c, 'i) deflate_state \<Rightarrow> 'w \<Rightarrow> sending_message \<Rightarrow> u8 \<Rightarrow> bytes list \<Rightarrow> bool \<Rightarrow>
    ((ws_error + nat \<times> bool) \<times> 'w \<times> ('c, 'i) protocol) run" where
  "send_compressed W dfl p ds w msg opcode src fin = do {
     let src_len = sum_list (map length src);
     (r, e, eb) \<leftarrow>
       (if sm_enc_output_end msg then Some (Inr (0, True), ds_enc ds, ds_enc_buf ds)
        else if src_len > 0 then encode_bufs dfl (ds_enc ds) (ds_enc_buf ds) src fin 0 False
        else do {
          (r, e, eb) \<leftarrow> encode_to_ringbuffer dfl (ds_enc ds) [] fin (ds_enc_buf ds);
          Some (case r of Inl err \<Rightarrow> Inl err | Inr (_, oe) \<Rightarrow> Inr (0, oe), e, eb)
        });
     let ds = ds\<lparr>ds_enc := e, ds_enc_buf := eb\<rparr>;
     let p = p\<lparr>p_deflate := Some ds\<rparr>;
     case r of
       Inl err \<Rightarrow> Some (Inl (WsIo err), w, p)
     | Inr (n_read, oe) \<Rightarrow> do {
         let msg = msg\<lparr>sm_enc_output_end := oe\<rparr>;
         assert_that (\<not> oe \<or> n_read = src_len);
         msg \<leftarrow> sub_end_len msg n_read;
         let p = set_message p msg;
         if n_read = 0 \<and> (rb_len eb > 0 \<or> oe) then do {
           bufs \<leftarrow> rb_read_bufs_mut eb BUFFER_BUFS_MAX;
           (r, w, bufs', p) \<leftarrow> send_frame W p w opcode bufs oe (opcode \<noteq> OPCODE_CONTINUATION) (sm_mask msg);
           let eb = rb_put_read_bufs eb bufs';
           case r of
             Inl e \<Rightarrow> Some (Inl e, w, p\<lparr>p_deflate := Some (ds\<lparr>ds_enc_buf := eb\<rparr>)\<rparr>)
           | Inr n \<Rightarrow> do {
               eb \<leftarrow> rb_read_commit eb n;
               let p = set_message (p\<lparr>p_deflate := Some (ds\<lparr>ds_enc_buf := eb\<rparr>)\<rparr>) (msg\<lparr>sm_frame_sent := True\<rparr>);
               Some (Inr (n_read, oe \<and> rb_len eb = 0), w, p)
             }
         }
         else Some (Inr (n_read, False), w, p)
       }
   }"

text \<open>The end of \<open>send_message_content\<close>: the message is over when all is sent and no frame is left in progress.\<close>

definition finish_message :: "('c \<Rightarrow> 'c) \<Rightarrow> ('c, 'i) protocol \<Rightarrow> bool \<Rightarrow> ('c, 'i) protocol" where
  "finish_message c_reset p sent_all =
     (if sent_all \<and> p_sending_frame p = None then
        p\<lparr>p_sending_message := None,
          p_deflate := map_option (\<lambda>ds. if ds_allow_takeover ds then ds else ds\<lparr>ds_enc := encoder_reset c_reset (ds_enc ds)\<rparr>) (p_deflate p)\<rparr>
      else p)"

definition send_message_content ::
  "'w writer \<Rightarrow> 'c codec \<Rightarrow> ('c \<Rightarrow> 'c) \<Rightarrow> ('c, 'i) protocol \<Rightarrow> 'w \<Rightarrow> bytes list \<Rightarrow> bool \<Rightarrow>
    ((ws_error + nat \<times> bool) \<times> 'w \<times> bytes list \<times> ('c, 'i) protocol) run" where
  "send_message_content W dfl c_reset p w src fin = do {
     assert_that (can_send p);
     msg \<leftarrow> p_sending_message p;
     let src_len = sum_list (map length src);
     assert_that (case sm_end_len msg of Some end_len \<Rightarrow> fin \<and> src_len = end_len | None \<Rightarrow> True);
     let msg = (if sm_end_len msg = None \<and> fin then msg\<lparr>sm_end_len := Some src_len\<rparr> else msg);
     let p = set_message p msg;
     let is_control = (sm_opcode msg AND 0x08 \<noteq> 0);
     if is_control \<and> (src_len > CONTROL_FRAME_PAYLOAD_MAX \<or> \<not> fin) then Some (Inl InvalidControlFrame, w, src, p)
     else do {
       let opcode = (if sm_frame_sent msg then OPCODE_CONTINUATION else sm_opcode msg);
       (r, w, src, p) \<leftarrow>
         (case p_deflate p of
            Some ds \<Rightarrow>
              if is_control then send_plain W p w msg opcode src fin
              else do { (r, w, p) \<leftarrow> send_compressed W dfl p ds w msg opcode src fin; Some (r, w, src, p) }
          | None \<Rightarrow> send_plain W p w msg opcode src fin);
       case r of
         Inl e \<Rightarrow> Some (Inl e, w, src, p)
       | Inr (n_read, sent_all) \<Rightarrow>
           let p = finish_message c_reset p sent_all in Some (Inr (n_read, p_sending_message p = None), w, src, p)
     }
   }"

section \<open>Receiving messages\<close>

text \<open>The start of a frame: its header is read and checked against the message in progress.\<close>

definition check_header :: "('c, 'i) protocol \<Rightarrow> frame_info \<Rightarrow> ws_error + receiving_message" where
  "check_header p fi =
     (case p_receiving_message p of
        Some msg \<Rightarrow>
          if fi_opcode fi \<noteq> OPCODE_CONTINUATION then Inl UnexpectedOpcode
          else if fi_rsv1 fi then Inl CompressionError
          else Inr (msg\<lparr>rm_frame_payload_read := 0\<rparr>)
      | None \<Rightarrow>
          if fi_opcode fi = OPCODE_CONTINUATION then Inl UnexpectedOpcode
          else if fi_opcode fi AND 0x08 \<noteq> 0 \<and> (fi_payload_size fi > CONTROL_FRAME_PAYLOAD_MAX \<or> \<not> fi_fin fi \<or> fi_rsv1 fi)
          then Inl InvalidControlFrame
          else Inr \<lparr>rm_opcode = fi_opcode fi, rm_frame_payload_read = 0,
                    rm_compression_mode = (if fi_rsv1 fi then Compressed else Uncompressed)\<rparr>)"

type_synonym ('c, 'i) recv_result =
  "((ws_error + u8 \<times> bytes \<times> bool) option \<times> ring_buffer \<times> ('c, 'i) protocol) run"

definition recv_header ::
  "('c, 'i) protocol \<Rightarrow> ring_buffer \<Rightarrow> ((ws_error option + unit) \<times> ring_buffer \<times> ('c, 'i) protocol) run" where
  "recv_header p rbuf =
     (if p_receiving_frame p \<noteq> None then Some (Inr (), rbuf, p)
      else do {
        buf \<leftarrow> rb_read_buf rbuf;
        r \<leftarrow> read_header buf;
        case r of
          Inl e \<Rightarrow> Some (Inl (if e = UnexpectedEof then None else Some (WsIo e)), rbuf, p)
        | Inr fi \<Rightarrow> do {
            rbuf \<leftarrow> rb_read_commit rbuf (fi_payload_offset fi);
            let p = p\<lparr>p_receiving_frame := Some fi\<rparr>;
            case check_header p fi of
              Inl e \<Rightarrow> Some (Inl (Some e), rbuf, p)
            | Inr msg \<Rightarrow> Some (Inr (), rbuf, p\<lparr>p_receiving_message := Some msg\<rparr>)
          }
      })"

text \<open>
  The payload of a compressed message and of an uncompressed one: the bytes written to \<open>dest\<close> and whether
  the frame has been read to its end.
\<close>

definition recv_compressed ::
  "'i codec \<Rightarrow> ('c, 'i) protocol \<Rightarrow> ring_buffer \<Rightarrow> frame_info \<Rightarrow> receiving_message \<Rightarrow> nat \<Rightarrow>
    ((ws_error option + bytes \<times> bool) \<times> ring_buffer \<times> ('c, 'i) protocol) run" where
  "recv_compressed ifl p rbuf fi msg room =
     (case p_deflate p of
        None \<Rightarrow> Some (Inl (Some CompressionError), rbuf, p)
      | Some ds \<Rightarrow> do {
          left \<leftarrow> usize_sub (fi_payload_size fi) (rm_frame_payload_read msg);
          let lim = min left (rb_len rbuf);
          let fin = (rm_frame_payload_read msg + lim = fi_payload_size fi \<and> fi_fin fi);
          (r, rbuf, d) \<leftarrow> unmask_and_decode (decode ifl) rbuf lim fin (fi_mask fi) (rm_frame_payload_read msg) (ds_dec ds) room;
          let p = p\<lparr>p_deflate := Some (ds\<lparr>ds_dec := d\<rparr>)\<rparr>;
          case r of
            Inl e \<Rightarrow> Some (Inl (Some (WsIo e)), rbuf, p)
          | Inr (n_read, written, output_end) \<Rightarrow>
              let payload_read = rm_frame_payload_read msg + n_read;
                  p = p\<lparr>p_receiving_message := Some (msg\<lparr>rm_frame_payload_read := payload_read\<rparr>)\<rparr>;
                  frame_read_end = (payload_read = fi_payload_size fi \<and> (fi_fin fi \<longrightarrow> output_end))
              in if \<not> frame_read_end \<and> written = [] \<and> rb_len rbuf = 0 then Some (Inl None, rbuf, p)
                 else Some (Inr (written, frame_read_end), rbuf, p)
        })"

definition recv_plain ::
  "('c, 'i) protocol \<Rightarrow> ring_buffer \<Rightarrow> frame_info \<Rightarrow> receiving_message \<Rightarrow> nat \<Rightarrow>
    ((ws_error option + bytes \<times> bool) \<times> ring_buffer \<times> ('c, 'i) protocol) run" where
  "recv_plain p rbuf fi msg room = do {
     buf \<leftarrow> rb_read_buf rbuf;
     if fi_opcode fi AND 0x08 \<noteq> 0 \<and> length buf < fi_payload_size fi then Some (Inl None, rbuf, p)
     else do {
       left \<leftarrow> usize_sub (fi_payload_size fi) (rm_frame_payload_read msg);
       if left > 0 \<and> buf = [] then Some (Inl None, rbuf, p)
       else do {
         let buf = take (min left (length buf)) buf;
         let n = min (length buf) room;
         let dest = take n buf;
         rbuf \<leftarrow> rb_read_commit rbuf n;
         let dest = masked_by (fi_mask fi) (rm_frame_payload_read msg) dest;
         let payload_read = rm_frame_payload_read msg + n;
         assert_that (payload_read \<le> fi_payload_size fi);
         Some (Inr (dest, payload_read = fi_payload_size fi), rbuf,
               p\<lparr>p_receiving_message := Some (msg\<lparr>rm_frame_payload_read := payload_read\<rparr>)\<rparr>)
       }
     }
   }"

definition recv_message_content :: "'i codec \<Rightarrow> ('c, 'i) protocol \<Rightarrow> ring_buffer \<Rightarrow> nat \<Rightarrow> ('c, 'i) recv_result" where
  "recv_message_content ifl p rbuf room = do {
     assert_that (can_recv p);
     (h, rbuf, p) \<leftarrow> recv_header p rbuf;
     case h of
       Inl e \<Rightarrow> Some (map_option Inl e, rbuf, p)
     | Inr _ \<Rightarrow> do {
         fi \<leftarrow> p_receiving_frame p;
         msg \<leftarrow> p_receiving_message p;
         (r, rbuf, p) \<leftarrow>
           (if rm_compression_mode msg = Compressed then recv_compressed ifl p rbuf fi msg room
            else recv_plain p rbuf fi msg room);
         case r of
           Inl e \<Rightarrow> Some (map_option Inl e, rbuf, p)
         | Inr (written, frame_read_end) \<Rightarrow>
             let p = (if frame_read_end then
                        (let p = p\<lparr>p_receiving_frame := None\<rparr> in
                         if fi_fin fi then
                           (let p = p\<lparr>p_receiving_message := None\<rparr> in
                            if rm_opcode msg = OPCODE_CLOSE then p\<lparr>p_state := close_received (p_state p)\<rparr> else p)
                         else p)
                      else p)
             in Some (Some (Inr (rm_opcode msg, written, p_receiving_message p = None)), rbuf, p)
       }
   }"

section \<open>Sending a frame\<close>

text \<open>What is left to write of a frame, given the payload bytes not yet sent; and the end of a frame.\<close>

definition payload_sent :: "sending_frame \<Rightarrow> nat" where
  "payload_sent f = sf_sent f - length (sf_header f)"

definition frame_todo :: "sending_frame \<Rightarrow> mask option \<Rightarrow> bytes \<Rightarrow> bytes" where
  "frame_todo f mk left = drop (sf_sent f) (sf_header f) @ masked_by mk (payload_sent f) left"

definition frame_done :: "('c, 'i) protocol \<Rightarrow> sending_frame \<Rightarrow> ('c, 'i) protocol" where
  "frame_done p f = p\<lparr>p_sending_frame := None,
     p_state := (if sf_opcode f = OPCODE_CLOSE then close_sent (p_state p) else p_state p)\<rparr>"

lemma lg_limit_length: "lg_as_slice (limit bufs n) = Some vis \<Longrightarrow> length vis \<le> length bufs"
  using find_split_spec [where i = 0 and want = n and bufs = bufs]
  by (auto simp: limit_def lg_as_slice_def subslice_Some_iff split: option.splits prod.splits)

context vectored_sink
begin

lemma write_frame_effect:
  assumes "invar w" and "w_write_vectored W = write_vectored" and "length src \<le> 8"
    and hr: "hr = length (sf_header f) - sf_sent f" and todo: "todo = drop (sf_sent f) (sf_header f) @ concat src"
  shows "\<exists>ret w'. write_frame W w f hr src = Some ((case ret of Inr n \<Rightarrow> n | Inl _ \<Rightarrow> 0) - hr, ret, w')
    \<and> invar w' \<and> took (out w) todo (out w') ret"
proof -
  let ?out = "(if hr > 0 then [drop (sf_sent f) (sf_header f)] else []) @ src"
  have c: "concat ?out = todo" using hr todo by auto
  have l: "length ?out \<le> SEND_FRAME_BUFS_MAX + 1" using assms(3) by (auto simp: SEND_FRAME_BUFS_MAX_def)
  show ?thesis
  proof (cases "?out = []")
    case True
    then show ?thesis using assms c by (auto simp: write_frame_def write_vectored_offset_def split: if_splits)
  next
    case False
    from write_vectored_offset_took [OF assms(1,2) False, of 0] c obtain r w' where
      "write_vectored_offset W w ?out 0 = Some (r, w')" "invar w'" "took (out w) todo (out w') r" by auto
    with l show ?thesis by (cases r) (auto simp: write_frame_def Let_def)
  qed
qed

lemma send_frame_effect:
  fixes p :: "('c, 'i) protocol"
  assumes inv: "invar w" and W: "w_write_vectored W = write_vectored" and can: "can_send p"
    and cf: "current_frame p opcode (length (concat (take SEND_FRAME_BUFS_MAX src))) (fin \<and> length src \<le> SEND_FRAME_BUFS_MAX) rsv1 mk = Some (Inr f)"
    and sent: "payload_sent f \<le> sf_payload_size f"
    and left: "left = take (sf_payload_size f - payload_sent f) (concat (take SEND_FRAME_BUFS_MAX src))"
      "length left = sf_payload_size f - payload_sent f"
  shows "\<exists>r w' src' p'. send_frame W p w opcode src fin rsv1 mk = Some (r, w', src', p') \<and> invar w' \<and> map length src' = map length src \<and>
    (case r of
       Inl e \<Rightarrow> (\<exists>x. e = WsIo x) \<and> out w' = out w \<and> concat src' = concat src \<and> p' = p\<lparr>p_sending_frame := Some f\<rparr>
     | Inr n \<Rightarrow> \<exists>k \<le> length (frame_todo f mk left). out w' = out w @ take k (frame_todo f mk left)
         \<and> n = k - (length (sf_header f) - sf_sent f) \<and> drop n (concat src') = drop n (concat src)
         \<and> p' = (if k = length (frame_todo f mk left) then frame_done p f else p\<lparr>p_sending_frame := Some (f\<lparr>sf_sent := sf_sent f + k\<rparr>)\<rparr>))"
proof -
  let ?hl = "length (sf_header f)" and ?s8 = "take 8 src" and ?beyond = "drop 8 src"
  let ?hr = "?hl - sf_sent f" and ?todo = "frame_todo f mk left" and ?lim = "sf_payload_size f - payload_sent f"
  have cap: "cap_bufs src SEND_FRAME_BUFS_MAX = (?s8, length src > 8)" "drop (length ?s8) src = ?beyond"
    by (auto simp: cap_bufs_def SEND_FRAME_BUFS_MAX_def min_def)
  have cf': "current_frame p opcode (sum_list (map length ?s8)) (fin \<and> \<not> length src > 8) rsv1 mk = Some (Inr f)"
    using cf by (simp add: length_concat SEND_FRAME_BUFS_MAX_def not_less)
  have hp: "(if sf_sent f < ?hl then (?hl - sf_sent f, 0) else (0, sf_sent f - ?hl)) = (?hr, payload_sent f)"
    by (simp add: payload_sent_def)
  obtain vis where vis: "lg_as_slice (limit ?s8 ?lim) = Some vis" "concat vis = left"
    using limit_visible [of ?s8 ?lim] left by (auto simp: SEND_FRAME_BUFS_MAX_def)
  have v8: "length vis \<le> 8" using lg_limit_length [OF vis(1)] by simp
  obtain msrc where m: "map length msrc = map length vis" "concat msrc = masked_by mk (payload_sent f) (concat vis)"
    and wm: "\<And>k r. write_frame W w f ?hr msrc = Some (k, r) \<Longrightarrow> k \<le> length (concat vis) \<Longrightarrow>
      \<exists>src'. with_mask vis mk (payload_sent f) (write_frame W w f ?hr) = Some (r, src') \<and> map length src' = map length vis
        \<and> drop k (concat src') = drop k (concat vis)"
    by (rule with_mask_effect [where src = vis and mk = mk and off = "payload_sent f" and f = "write_frame W w f ?hr"]) blast
  have "length msrc \<le> 8" using m(1) v8 by (metis length_map)
  from write_frame_effect [where f = f and todo = ?todo, OF inv W this refl] m(2) vis(2) obtain ret w' where
    wf: "write_frame W w f ?hr msrc = Some ((case ret of Inr n \<Rightarrow> n | Inl _ \<Rightarrow> 0) - ?hr, ret, w')" and
    w': "invar w'" "took (out w) ?todo (out w') ret" by (auto simp: frame_todo_def)
  let ?n = "(case ret of Inr n \<Rightarrow> n | Inl _ \<Rightarrow> 0) - ?hr"
  have lt: "length ?todo = ?hr + length left" by (simp add: frame_todo_def)
  have n: "?n \<le> length left" using w'(2) lt by (cases ret) auto
  from wm [OF wf] n vis(2) obtain vis' where
    vm: "with_mask vis mk (payload_sent f) (write_frame W w f ?hr) = Some ((ret, w'), vis')" and
    vl: "map length vis' = map length vis" and vd: "drop ?n (concat vis') = drop ?n left" by auto
  define src' where "src' = lg_drop (lg_update (limit ?s8 ?lim) vis') @ ?beyond"
  note up = limit_update [OF vis(1) vl]
  have len: "map length src' = map length src"
    unfolding src'_def map_append up(2) by (metis append_take_drop_id map_append)
  have cl: "length (concat vis') = length left" using vl vis(2) by (metis length_concat)
  have "concat src' = concat vis' @ drop ?lim (concat ?s8) @ concat ?beyond" by (simp add: src'_def up(1))
  then have "drop ?n (concat src') = drop ?n left @ drop ?lim (concat ?s8) @ concat ?beyond"
    using vd n cl by simp
  moreover have "concat src = left @ drop ?lim (concat ?s8) @ concat ?beyond"
    using left(1) by (metis SEND_FRAME_BUFS_MAX_def append.assoc append_take_drop_id concat_append)
  ultimately have dr: "drop ?n (concat src') = drop ?n (concat src)" using n by simp
  have unf: "send_frame W p w opcode src fin rsv1 mk =
    (case ret of
       Inl e \<Rightarrow> Some (Inl (WsIo e), w', src', p\<lparr>p_sending_frame := Some f\<rparr>)
     | Inr n \<Rightarrow> do {
         assert_that (sf_sent f + n \<le> ?hl + sf_payload_size f);
         if sf_sent f + n < ?hl then Some (Inr 0, w', src', p\<lparr>p_sending_frame := Some (f\<lparr>sf_sent := sf_sent f + n\<rparr>)\<rparr>)
         else do {
           pw \<leftarrow> usize_sub (sf_sent f + n - ?hl) (payload_sent f);
           Some (Inr pw, w', src',
             if sf_sent f + n = ?hl + sf_payload_size f then frame_done p f else p\<lparr>p_sending_frame := Some (f\<lparr>sf_sent := sf_sent f + n\<rparr>)\<rparr>)
         }})"
    unfolding send_frame_def cap Let_def prod.case cf' hp bind.bind_lunit sum.case src'_def
    using can sent vis(1) vm by (cases ret) (auto simp: frame_done_def assert_that_bind Let_def)
  show ?thesis
  proof (cases ret)
    case (Inl e)
    with unf w' len dr show ?thesis by auto
  next
    case (Inr k)
    have k: "k \<le> ?hr + length left" using w'(2) Inr lt by auto
    have total: "sf_sent f + k \<le> ?hl + sf_payload_size f" using k left(2) sent by (auto simp: payload_sent_def)
    have full: "sf_sent f + k = ?hl + sf_payload_size f \<longleftrightarrow> k = length ?todo"
      using k lt left(2) sent unfolding payload_sent_def by linarith
    have "send_frame W p w opcode src fin rsv1 mk = Some (Inr (k - ?hr), w', src',
        if k = length ?todo then frame_done p f else p\<lparr>p_sending_frame := Some (f\<lparr>sf_sent := sf_sent f + k\<rparr>)\<rparr>)"
      using unf Inr total full lt by (auto simp: payload_sent_def)
    with w' len dr Inr k lt show ?thesis by auto
  qed
qed

end

section \<open>Sending a frame over several calls\<close>

definition ws_frame_bytes :: "bool \<Rightarrow> bool \<Rightarrow> u8 \<Rightarrow> mask option \<Rightarrow> bytes \<Rightarrow> bytes" where
  "ws_frame_bytes fin rsv1 opcode mk payload = header_bytes fin rsv1 opcode (length payload) mk @ masked_by mk 0 payload"

definition new_frame :: "bool \<Rightarrow> bool \<Rightarrow> u8 \<Rightarrow> mask option \<Rightarrow> nat \<Rightarrow> nat \<Rightarrow> sending_frame" where
  "new_frame fin rsv1 opcode mk n sent = \<lparr>sf_opcode = opcode, sf_header = header_bytes fin rsv1 opcode n mk, sf_payload_size = n, sf_sent = sent\<rparr>"

text \<open>The bytes the caller still has to send after a call, in slices \<open>src'\<close> that masking has gone over.\<close>

definition unsent :: "ws_error + nat \<Rightarrow> bytes list \<Rightarrow> bytes" where
  "unsent r src' = (case r of Inl _ \<Rightarrow> concat src' | Inr n \<Rightarrow> drop n (concat src'))"

text \<open>
  The calls that send one frame: the first with the whole payload and no frame in progress, each further
  one, while the frame is in progress, with the bytes that are left, in slices of the caller's choice. The
  later calls' opcode, \<open>fin\<close> and \<open>rsv1\<close> are ignored by the code.
\<close>

inductive frame_calls ::
  "'w writer \<Rightarrow> bool \<Rightarrow> bool \<Rightarrow> u8 \<Rightarrow> mask option \<Rightarrow> bytes \<Rightarrow> ('c, 'i) protocol \<Rightarrow> 'w \<Rightarrow> bytes \<Rightarrow> ('c, 'i) protocol \<Rightarrow> 'w \<Rightarrow> bool"
  for W fin rsv1 opcode mk payload p w where
  first_call: "concat src = payload \<Longrightarrow> length src \<le> SEND_FRAME_BUFS_MAX \<Longrightarrow> p_sending_frame p = None \<Longrightarrow>
    send_frame W p w opcode src fin rsv1 mk = Some (r, w', src', p') \<Longrightarrow>
    frame_calls W fin rsv1 opcode mk payload p w (unsent r src') p' w'"
| next_call: "frame_calls W fin rsv1 opcode mk payload p w left p1 w1 \<Longrightarrow> p_sending_frame p1 \<noteq> None \<Longrightarrow>
    concat src = left \<Longrightarrow> length src \<le> SEND_FRAME_BUFS_MAX \<Longrightarrow>
    send_frame W p1 w1 op' src fin' rsv1' mk = Some (r, w', src', p') \<Longrightarrow>
    frame_calls W fin rsv1 opcode mk payload p w (unsent r src') p' w'"

definition frame_progress ::
  "bool \<Rightarrow> bool \<Rightarrow> u8 \<Rightarrow> mask option \<Rightarrow> bytes \<Rightarrow> ('c, 'i) protocol \<Rightarrow> nat \<Rightarrow> ('c, 'i) protocol" where
  "frame_progress fin rsv1 opcode mk payload p n =
     (if n = length (ws_frame_bytes fin rsv1 opcode mk payload) then frame_done p (new_frame fin rsv1 opcode mk (length payload) n)
      else p\<lparr>p_sending_frame := Some (new_frame fin rsv1 opcode mk (length payload) n)\<rparr>)"

lemma current_frame_new:
  assumes "p_sending_frame p = None"
  shows "current_frame p opcode n fin rsv1 mk = Some (Inr (new_frame fin rsv1 opcode mk n 0))"
proof -
  have "header_size n (mk \<noteq> None) \<le> HEADER_SIZE_MAX"
    by (simp add: header_size_def HEADER_SIZE_MAX_def PSIZE_3BYTE_def PSIZE_9BYTE_def Let_def)
  with write_header_ok [of n mk "replicate HEADER_SIZE_MAX 0" fin rsv1 opcode] assms show ?thesis
    by (simp add: current_frame_def new_frame_def length_header_bytes)
qed

lemma frame_todo_new:
  assumes "n \<le> length (ws_frame_bytes fin rsv1 opcode mk payload)"
  shows "frame_todo (new_frame fin rsv1 opcode mk (length payload) n) mk (drop (n - length (header_bytes fin rsv1 opcode (length payload) mk)) payload)
    = drop n (ws_frame_bytes fin rsv1 opcode mk payload)"
  by (simp add: frame_todo_def new_frame_def ws_frame_bytes_def payload_sent_def masked_by_drop)

lemma frame_done_again [simp]:
  "frame_done (p\<lparr>p_sending_frame := x\<rparr>) f = frame_done p f"
  "frame_done p (f\<lparr>sf_sent := n\<rparr>) = frame_done p f"
  by (simp_all add: frame_done_def)

lemma frame_done_new: "frame_done p (new_frame fin rsv1 opcode mk n k) = frame_done p (new_frame fin rsv1 opcode mk n 0)"
  by (simp add: frame_done_def new_frame_def)

lemma can_send_sending_frame [simp]: "can_send (p\<lparr>p_sending_frame := x\<rparr>) = can_send p"
  by (simp add: can_send_def)

context vectored_sink
begin

text \<open>One call in the middle of a frame of which \<open>n\<close> bytes have been written.\<close>

lemma send_frame_turn:
  fixes p p0 :: "('c, 'i) protocol"
  assumes inv: "invar w" and W: "w_write_vectored W = write_vectored" and can: "can_send p"
    and wire: "wire = ws_frame_bytes fin rsv1 opcode mk payload" and hl: "hl = length (header_bytes fin rsv1 opcode (length payload) mk)"
    and src: "concat src = drop (n - hl) payload" "length src \<le> SEND_FRAME_BUFS_MAX" and n: "n < length wire"
    and cf: "current_frame p op' (length (concat src)) fin' rsv1' mk = Some (Inr (new_frame fin rsv1 opcode mk (length payload) n))"
    and p: "p\<lparr>p_sending_frame := None\<rparr> = p0\<lparr>p_sending_frame := None\<rparr>"
  shows "\<exists>r w' src' p' m. send_frame W p w op' src fin' rsv1' mk = Some (r, w', src', p') \<and> invar w'
    \<and> n \<le> m \<and> m \<le> length wire \<and> out w' = out w @ drop n (take m wire)
    \<and> unsent r src' = drop (m - hl) payload \<and> p' = frame_progress fin rsv1 opcode mk payload p0 m"
proof -
  let ?f = "new_frame fin rsv1 opcode mk (length payload) n"
  have ps: "payload_sent ?f = n - hl" by (simp add: payload_sent_def new_frame_def hl)
  have size: "sf_payload_size ?f = length payload" "length (sf_header ?f) = hl" "sf_sent ?f = n" by (simp_all add: new_frame_def hl)
  have lw: "length wire = hl + length payload" by (simp add: wire ws_frame_bytes_def hl)
  have s8: "take SEND_FRAME_BUFS_MAX src = src" using src(2) by simp
  have todo: "frame_todo ?f mk (concat src) = drop n wire"
    using frame_todo_new [of n fin rsv1 opcode mk payload] n wire src(1) hl by simp
  have p_eq: "p\<lparr>p_sending_frame := x\<rparr> = p0\<lparr>p_sending_frame := x\<rparr>" for x
    using p by (metis (no_types, lifting) protocol.surjective protocol.update_convs(2))
  have cf': "current_frame p op' (length (concat (take SEND_FRAME_BUFS_MAX src))) (fin' \<and> length src \<le> SEND_FRAME_BUFS_MAX) rsv1' mk = Some (Inr ?f)"
    using cf src(2) s8 by simp
  have le: "payload_sent ?f \<le> sf_payload_size ?f" using ps size n lw by simp
  have l2: "length (concat src) = sf_payload_size ?f - payload_sent ?f" unfolding src(1) ps size by simp
  have l1: "concat src = take (sf_payload_size ?f - payload_sent ?f) (concat (take SEND_FRAME_BUFS_MAX src))"
    unfolding s8 l2 [symmetric] by simp
  note eff = send_frame_effect [OF inv W can cf' le l1 l2, unfolded todo size]
  from eff obtain r w' src' p' where
    c: "send_frame W p w op' src fin' rsv1' mk = Some (r, w', src', p')" "invar w'" and
    res: "case r of
       Inl e \<Rightarrow> (\<exists>x. e = WsIo x) \<and> out w' = out w \<and> concat src' = concat src \<and> p' = p\<lparr>p_sending_frame := Some ?f\<rparr>
     | Inr j \<Rightarrow> \<exists>k \<le> length (drop n wire). out w' = out w @ take k (drop n wire)
         \<and> j = k - (hl - n) \<and> drop j (concat src') = drop j (concat src)
         \<and> p' = (if k = length (drop n wire) then frame_done p ?f else p\<lparr>p_sending_frame := Some (?f\<lparr>sf_sent := n + k\<rparr>)\<rparr>)"
    by blast
  show ?thesis
  proof (cases r)
    case (Inl e)
    with c res n src(1) wire p_eq show ?thesis
      by (intro exI [of _ r] exI [of _ w'] exI [of _ src'] exI [of _ p'] exI [of _ n]) (simp add: unsent_def frame_progress_def)
  next
    case (Inr j)
    with res obtain k where
      k: "k \<le> length wire - n" "out w' = out w @ take k (drop n wire)" "j = k - (hl - n)" "drop j (concat src') = drop j (concat src)"
      "p' = (if k = length wire - n then frame_done p ?f else p\<lparr>p_sending_frame := Some (?f\<lparr>sf_sent := n + k\<rparr>)\<rparr>)" by auto
    have "drop n (take (n + k) wire) = take k (drop n wire)" by (simp add: drop_take)
    moreover have "unsent r src' = drop (n + k - hl) payload"
    proof -
      have "(n - hl) + (k - (hl - n)) = n + k - hl" by linarith
      then show ?thesis using Inr k(3,4) src(1) by (simp add: unsent_def add.commute)
    qed
    moreover have "p' = frame_progress fin rsv1 opcode mk payload p0 (n + k)"
    proof -
      have "frame_done p ?f = frame_done p0 (new_frame fin rsv1 opcode mk (length payload) (n + k))"
        using frame_done_again(1) [of None p ?f] frame_done_again(1) [of None p0 ?f] p
        by (simp add: frame_done_new [where k = n] frame_done_new [where k = "n + k"])
      moreover have "?f\<lparr>sf_sent := n + k\<rparr> = new_frame fin rsv1 opcode mk (length payload) (n + k)" by (simp add: new_frame_def)
      ultimately show ?thesis using k(1,5) n wire p_eq by (auto simp: frame_progress_def)
    qed
    moreover have "n + k \<le> length wire" using k(1) n by linarith
    ultimately show ?thesis using c k(2) le_add1 [of n k] by metis
  qed
qed

lemma frame_calls_progress:
  fixes p p' :: "('c, 'i) protocol"
  assumes "frame_calls W fin rsv1 opcode mk payload p w left p' w'"
    and "invar w" and "w_write_vectored W = write_vectored" and "can_send p"
  shows "invar w' \<and> (\<exists>n \<le> length (ws_frame_bytes fin rsv1 opcode mk payload).
    out w' = out w @ take n (ws_frame_bytes fin rsv1 opcode mk payload)
    \<and> left = drop (n - length (header_bytes fin rsv1 opcode (length payload) mk)) payload
    \<and> p' = frame_progress fin rsv1 opcode mk payload p n)"
  using assms
proof (induction rule: frame_calls.induct)
  case (first_call src r w' src' p')
  have "0 < length (ws_frame_bytes fin rsv1 opcode mk payload)"
    by (simp add: ws_frame_bytes_def length_header_bytes header_size_def Let_def)
  with send_frame_turn [where n = 0 and src = src and op' = opcode and fin' = fin and rsv1' = rsv1 and ?p0.0 = p, OF first_call.prems refl refl]
    first_call current_frame_new [OF first_call.hyps(3)] show ?case by fastforce
next
  case (next_call left p1 w1 src op' fin' rsv1' r w' src' p')
  from next_call.IH [OF next_call.prems] obtain n where inv: "invar w1" and
    n: "n \<le> length (ws_frame_bytes fin rsv1 opcode mk payload)" "out w1 = out w @ take n (ws_frame_bytes fin rsv1 opcode mk payload)"
      "left = drop (n - length (header_bytes fin rsv1 opcode (length payload) mk)) payload"
      "p1 = frame_progress fin rsv1 opcode mk payload p n" by blast
  have lt: "n < length (ws_frame_bytes fin rsv1 opcode mk payload)"
    and p1: "p1 = p\<lparr>p_sending_frame := Some (new_frame fin rsv1 opcode mk (length payload) n)\<rparr>"
    using n(1,4) next_call.hyps(2) by (auto simp: frame_progress_def frame_done_def split: if_splits)
  have can: "can_send p1" using p1 next_call.prems(3) by simp
  have cf: "current_frame p1 op' (length (concat src)) fin' rsv1' mk = Some (Inr (new_frame fin rsv1 opcode mk (length payload) n))"
    by (simp add: current_frame_def p1)
  have pp: "p1\<lparr>p_sending_frame := None\<rparr> = p\<lparr>p_sending_frame := None\<rparr>" by (simp add: p1)
  from send_frame_turn [OF inv next_call.prems(2) can refl refl _ next_call.hyps(4) lt cf pp] next_call.hyps(3,5) n(3)
  obtain m where m: "invar w'" "n \<le> m" "m \<le> length (ws_frame_bytes fin rsv1 opcode mk payload)"
      "out w' = out w1 @ drop n (take m (ws_frame_bytes fin rsv1 opcode mk payload))"
      "unsent r src' = drop (m - length (header_bytes fin rsv1 opcode (length payload) mk)) payload"
      "p' = frame_progress fin rsv1 opcode mk payload p m" by auto
  have "take n (ws_frame_bytes fin rsv1 opcode mk payload) @ drop n (take m (ws_frame_bytes fin rsv1 opcode mk payload))
      = take m (ws_frame_bytes fin rsv1 opcode mk payload)"
    using m(2) append_take_drop_id [of n "take m (ws_frame_bytes fin rsv1 opcode mk payload)"] by (simp add: min_def)
  with m n(2) show ?case by auto
qed

end

section \<open>Receiving a frame over several calls\<close>

definition sent_info :: "bool \<Rightarrow> bool \<Rightarrow> u8 \<Rightarrow> mask option \<Rightarrow> nat \<Rightarrow> frame_info" where
  "sent_info fin rsv1 opcode mk n = \<lparr>fi_fin = fin, fi_rsv1 = rsv1, fi_opcode = opcode AND 0x0f, fi_mask = mk,
     fi_payload_offset = header_size n (mk \<noteq> None), fi_payload_size = n\<rparr>"

text \<open>The session in the middle of a frame of which \<open>j\<close> bytes of payload have been read, and after it.\<close>

definition in_frame :: "('c, 'i) protocol \<Rightarrow> frame_info \<Rightarrow> receiving_message \<Rightarrow> nat \<Rightarrow> ('c, 'i) protocol" where
  "in_frame p fi m j = p\<lparr>p_receiving_frame := Some fi, p_receiving_message := Some (m\<lparr>rm_frame_payload_read := j\<rparr>)\<rparr>"

definition after_frame :: "('c, 'i) protocol \<Rightarrow> frame_info \<Rightarrow> receiving_message \<Rightarrow> ('c, 'i) protocol" where
  "after_frame p fi m = p\<lparr>p_receiving_frame := None,
     p_receiving_message := (if fi_fin fi then None else Some (m\<lparr>rm_frame_payload_read := fi_payload_size fi\<rparr>)),
     p_state := (if fi_fin fi \<and> rm_opcode m = OPCODE_CLOSE then close_received (p_state p) else p_state p)\<rparr>"

definition received :: "(ws_error + u8 \<times> bytes \<times> bool) option \<Rightarrow> bytes" where
  "received res = (case res of Some (Inr (opcode, written, done)) \<Rightarrow> written | _ \<Rightarrow> [])"

text \<open>
  A receiver at work: bytes arrive in the ring buffer (or are only moved inside it, by \<open>align\<close>), and
  \<open>recv_message_content\<close> is called with some room for output. \<open>fed\<close> are all bytes that have arrived,
  \<open>got\<close> all bytes returned, \<open>ok\<close> that no call returned an error.
\<close>

inductive recv_calls ::
  "'i codec \<Rightarrow> ('c, 'i) protocol \<Rightarrow> bytes \<Rightarrow> bytes \<Rightarrow> bool \<Rightarrow> ('c, 'i) protocol \<Rightarrow> ring_buffer \<Rightarrow> bool" for ifl p0 where
  recv_start: "rb_inv rb \<Longrightarrow> rb_contents rb = [] \<Longrightarrow> recv_calls ifl p0 [] [] True p0 rb"
| recv_arrive: "recv_calls ifl p0 fed got ok p rb \<Longrightarrow> rb_inv rb' \<Longrightarrow> rb_contents rb' = rb_contents rb @ bs \<Longrightarrow>
    recv_calls ifl p0 (fed @ bs) got ok p rb'"
| recv_call: "recv_calls ifl p0 fed got ok p rb \<Longrightarrow> recv_message_content ifl p rb room = Some (res, rb', p') \<Longrightarrow>
    recv_calls ifl p0 fed (got @ received res) (ok \<and> (\<forall>e. res \<noteq> Some (Inl e))) p' rb'"

lemma in_frame_simps [simp]:
  "p_receiving_frame (in_frame p fi m j) = Some fi"
  "p_receiving_message (in_frame p fi m j) = Some (m\<lparr>rm_frame_payload_read := j\<rparr>)"
  "can_recv (in_frame p fi m j) = can_recv p" "p_state (in_frame p fi m j) = p_state p"
  by (simp_all add: in_frame_def can_recv_def)

lemma take_take_take: "k \<le> a \<Longrightarrow> k \<le> b \<Longrightarrow> take k (take a (take b xs)) = take k xs"
  by (simp add: min.absorb1)

lemma in_frame_upd: "(in_frame p fi m i)\<lparr>p_receiving_message := Some (m\<lparr>rm_frame_payload_read := i, rm_frame_payload_read := j\<rparr>)\<rparr> = in_frame p fi m j"
  by (simp add: in_frame_def)

text \<open>One call on an uncompressed frame, from the payload bytes that are in the buffer.\<close>

lemma recv_plain_turn:
  assumes inv: "rb_inv rb" and P: "j < n \<or> n = 0 \<and> j = 0" and fi: "fi_payload_size fi = n"
    and c: "rb_contents rb = masked_by (fi_mask fi) j avail" and la: "length avail \<le> n - j"
  shows "\<exists>r rb' p'. recv_plain (in_frame p fi m j) rb fi (m\<lparr>rm_frame_payload_read := j\<rparr>) room = Some (r, rb', p') \<and> rb_inv rb' \<and>
    (case r of
       Inl e \<Rightarrow> e = None \<and> p' = in_frame p fi m j \<and> rb_contents rb' = rb_contents rb \<and> j < n
     | Inr (w, fin) \<Rightarrow> \<exists>k \<le> length avail. w = take k avail \<and> rb_contents rb' = masked_by (fi_mask fi) (j + k) (drop k avail)
         \<and> p' = in_frame p fi m (j + k) \<and> (fin \<longleftrightarrow> j + k = n))"
proof -
  obtain b where b: "rb_read_buf rb = Some (take b (rb_contents rb))" "rb_contents rb \<noteq> [] \<longrightarrow> 0 < b"
    using ring.read_buf_prefix [OF inv] by blast
  let ?buf = "take b (rb_contents rb)"
  let ?k = "min (length (take (min (n - j) (length ?buf)) ?buf)) room"
  have lc: "length (rb_contents rb) = length avail" using c by (metis length_masked_by)
  have rj: "rm_frame_payload_read (m\<lparr>rm_frame_payload_read := j\<rparr>) = j" by simp
  have left: "usize_sub n j = Some (n - j)" using P by auto
  consider (wait) "(fi_opcode fi AND 0x08 \<noteq> 0 \<and> length ?buf < n) \<or> (n - j > 0 \<and> ?buf = [])"
    | (go) "\<not> (fi_opcode fi AND 0x08 \<noteq> 0 \<and> length ?buf < n)" "\<not> (n - j > 0 \<and> ?buf = [])" by blast
  then show ?thesis
  proof cases
    case wait
    then have "j < n" using P by auto
    have "recv_plain (in_frame p fi m j) rb fi (m\<lparr>rm_frame_payload_read := j\<rparr>) room = Some (Inl None, rb, in_frame p fi m j)"
      unfolding recv_plain_def b(1) bind.bind_lunit fi rj left using wait by auto
    with \<open>j < n\<close> inv show ?thesis by auto
  next
    case go
    have k: "?k \<le> length (rb_contents rb)" by simp
    from rb_read_commit_contents [OF inv k] obtain rb' where
      rb': "rb_read_commit rb ?k = Some rb'" "rb_inv rb'" "rb_contents rb' = drop ?k (rb_contents rb)" by blast
    have kk: "?k \<le> n - j" "?k \<le> length avail" using lc by auto
    have "take ?k (take (min (n - j) (length ?buf)) ?buf) = take ?k (rb_contents rb)"
    proof -
      have "?k \<le> min (n - j) (length ?buf)" "?k \<le> b" by auto
      then show ?thesis by (rule take_take_take)
    qed
    then have w: "masked_by (fi_mask fi) j (take ?k (take (min (n - j) (length ?buf)) ?buf)) = take ?k avail"
      unfolding c masked_by_take by simp
    have kj: "j + ?k \<le> n" using P kk(1) by auto
    have "recv_plain (in_frame p fi m j) rb fi (m\<lparr>rm_frame_payload_read := j\<rparr>) room =
        Some (Inr (take ?k avail, j + ?k = n), rb', in_frame p fi m (j + ?k))"
      unfolding recv_plain_def b(1) bind.bind_lunit Let_def fi if_not_P [OF go(1)] rj left
        if_not_P [OF go(2)] rb'(1) w assert_that_bind if_P [OF kj] by (simp only: in_frame_upd)
    moreover have "rb_contents rb' = masked_by (fi_mask fi) (j + ?k) (drop ?k avail)"
      using rb'(3) c by (simp add: masked_by_drop)
    ultimately show ?thesis using rb'(2) kk(2)
      by (intro exI [of _ "Inr (take ?k avail, j + ?k = n)"] exI [of _ rb'] exI [of _ "in_frame p fi m (j + ?k)"])
        (simp only: sum.case prod.case simp_thms, rule exI [of _ ?k], simp only: simp_thms)
  qed
qed

lemma recv_message_in_frame:
  assumes inv: "rb_inv rb" and P: "j < n \<or> n = 0 \<and> j = 0" and fi: "fi_payload_size fi = n"
    and c: "rb_contents rb = masked_by (fi_mask fi) j avail" and la: "length avail \<le> n - j"
    and m: "rm_compression_mode m = Uncompressed" and can: "can_recv p"
  shows "\<exists>res rb' p'. recv_message_content ifl (in_frame p fi m j) rb room = Some (res, rb', p') \<and> rb_inv rb' \<and>
    (res = None \<and> p' = in_frame p fi m j \<and> rb_contents rb' = rb_contents rb \<and> j < n
     \<or> (\<exists>k \<le> length avail. res = Some (Inr (rm_opcode m, take k avail, j + k = n \<and> fi_fin fi))
          \<and> rb_contents rb' = masked_by (fi_mask fi) (j + k) (drop k avail)
          \<and> p' = (if j + k = n then after_frame p fi m else in_frame p fi m (j + k))))"
proof -
  from recv_plain_turn [OF inv P fi c la, of p m room] obtain r rb' p' where
    r: "recv_plain (in_frame p fi m j) rb fi (m\<lparr>rm_frame_payload_read := j\<rparr>) room = Some (r, rb', p')" "rb_inv rb'" and
    rr: "case r of
       Inl e \<Rightarrow> e = None \<and> p' = in_frame p fi m j \<and> rb_contents rb' = rb_contents rb \<and> j < n
     | Inr (w, fin) \<Rightarrow> \<exists>k \<le> length avail. w = take k avail \<and> rb_contents rb' = masked_by (fi_mask fi) (j + k) (drop k avail)
         \<and> p' = in_frame p fi m (j + k) \<and> (fin \<longleftrightarrow> j + k = n)" by blast
  show ?thesis
  proof (cases r)
    case (Inl e)
    with rr have "recv_message_content ifl (in_frame p fi m j) rb room = Some (None, rb', p')"
      using r(1) m can by (simp add: recv_message_content_def recv_header_def)
    with Inl rr r(2) show ?thesis by simp
  next
    case (Inr q)
    then obtain k where
      k: "k \<le> length avail" "q = (take k avail, j + k = n)" "rb_contents rb' = masked_by (fi_mask fi) (j + k) (drop k avail)"
        "p' = in_frame p fi m (j + k)" using rr by (cases q) auto
    have "recv_message_content ifl (in_frame p fi m j) rb room =
        Some (Some (Inr (rm_opcode m, take k avail, j + k = n \<and> fi_fin fi)), rb', if j + k = n then after_frame p fi m else in_frame p fi m (j + k))"
      using r(1) m can Inr k(2,4) fi
      by (auto simp: recv_message_content_def recv_header_def after_frame_def Let_def) (auto simp: in_frame_def)
    with k r(2) show ?thesis by blast
  qed
qed

definition mode_ok :: "receiving_message \<Rightarrow> bool" where
  "mode_ok m \<longleftrightarrow> rm_compression_mode m = Uncompressed \<and> rm_frame_payload_read m = 0"

lemma recv_message_at_header:
  assumes inv: "rb_inv rb" and p0: "p_receiving_frame p0 = None" "can_recv p0" and n: "n < 2 ^ 64"
    and fi: "fi = sent_info fin rsv1 opcode mk n" and m: "check_header p0 fi = Inr m" "mode_ok m"
    and c: "rb_contents rb = take k (header_bytes fin rsv1 opcode n mk @ rest)" and hl: "hl = header_size n (mk \<noteq> None)"
  shows "recv_message_content ifl p0 rb room = Some (None, rb, p0)
    \<or> (\<exists>rb1. hl \<le> k \<and> rb_inv rb1 \<and> rb_contents rb1 = take (k - hl) rest
        \<and> recv_message_content ifl p0 rb room = recv_message_content ifl (in_frame p0 fi m 0) rb1 room)"
proof -
  let ?h = "header_bytes fin rsv1 opcode n mk"
  have lh: "length ?h = hl" by (simp add: length_header_bytes hl)
  obtain b where b: "rb_read_buf rb = Some (take b (rb_contents rb))" using ring.read_buf_prefix [OF inv] by blast
  let ?j = "min b k"
  have buf: "take b (rb_contents rb) = take ?j (?h @ rest)" unfolding c take_take by (rule refl)
  show ?thesis
  proof (cases "?j < hl")
    case True
    then have "take b (rb_contents rb) = take ?j ?h" using buf lh by simp
    with read_header_truncated [of ?j n mk fin rsv1 opcode] True hl have "read_header (take b (rb_contents rb)) = Some (Inl UnexpectedEof)" by simp
    then show ?thesis using b p0 by (simp add: recv_message_content_def recv_header_def)
  next
    case False
    then have "hl \<le> b" "hl \<le> k" by auto
    then have j: "take b (rb_contents rb) = ?h @ take (?j - hl) rest" using buf lh by simp
    have rh: "read_header (take b (rb_contents rb)) = Some (Inr fi)"
      unfolding j read_header_ok [OF n] fi sent_info_def by (rule refl)
    have "hl \<le> length (rb_contents rb)" using False lh c by simp
    from rb_read_commit_contents [OF inv this] obtain rb1 where
      rb1: "rb_read_commit rb hl = Some rb1" "rb_inv rb1" "rb_contents rb1 = drop hl (rb_contents rb)" by blast
    have off: "fi_payload_offset fi = hl" by (simp add: fi sent_info_def hl)
    have ch: "check_header (p0\<lparr>p_receiving_frame := x\<rparr>) fi = Inr m" for x using m(1) by (simp add: check_header_def)
    have mm: "m\<lparr>rm_frame_payload_read := 0\<rparr> = m" using m(2) by (simp add: mode_ok_def)
    have "recv_header p0 rb = Some (Inr (), rb1, in_frame p0 fi m 0)"
      using p0(1) b rh rb1(1) off ch mm by (simp add: recv_header_def Let_def in_frame_def)
    then have "recv_message_content ifl p0 rb room = recv_message_content ifl (in_frame p0 fi m 0) rb1 room"
      using p0 by (simp add: recv_message_content_def recv_header_def)
    moreover have "rb_contents rb1 = take (k - hl) rest" unfolding rb1(3) c drop_take using lh by simp
    ultimately show ?thesis using rb1(2) False by auto
  qed
qed

text \<open>
  The three stages of receiving one frame of which the first \<open>k\<close> bytes have arrived: before its header has
  been read, in its payload, and after it.
\<close>

definition recv_stage ::
  "('c, 'i) protocol \<Rightarrow> frame_info \<Rightarrow> receiving_message \<Rightarrow> bytes \<Rightarrow> bytes \<Rightarrow> nat \<Rightarrow> bytes \<Rightarrow> ('c, 'i) protocol \<Rightarrow> ring_buffer \<Rightarrow> bool" where
  "recv_stage p0 fi m hdr payload k got p rb \<longleftrightarrow> rb_inv rb \<and>
     (p = p0 \<and> got = [] \<and> rb_contents rb = take k (hdr @ masked_by (fi_mask fi) 0 payload)
      \<or> length hdr + length got \<le> k \<and> length got < length payload \<and> got = take (length got) payload \<and> p = in_frame p0 fi m (length got)
          \<and> rb_contents rb = masked_by (fi_mask fi) (length got) (drop (length got) (take (k - length hdr) payload))
      \<or> length hdr + length payload \<le> k \<and> got = payload \<and> p = after_frame p0 fi m \<and> rb_contents rb = [])"

lemma take_masked_payload:
  "take k (hdr @ masked_by mk 0 payload) = (if length hdr \<le> k then hdr @ masked_by mk 0 (take (k - length hdr) payload) else take k hdr)"
  by (simp add: masked_by_take)

text \<open>A call in the payload moves on within the payload or ends the frame.\<close>

lemma in_frame_stage:
  assumes inv: "rb_inv rb" and got: "length got < length payload \<or> payload = [] \<and> got = []" "got = take (length got) payload"
    and k: "length hdr + length got \<le> k" and fi: "fi_payload_size fi = length payload" and m: "rm_compression_mode m = Uncompressed" "can_recv p0"
    and c: "rb_contents rb = masked_by (fi_mask fi) (length got) (drop (length got) (take (k - length hdr) payload))"
  shows "\<exists>res rb' p'. recv_message_content ifl (in_frame p0 fi m (length got)) rb room = Some (res, rb', p')
    \<and> (\<forall>e. res \<noteq> Some (Inl e)) \<and> (\<forall>op w d. res = Some (Inr (op, w, d)) \<longrightarrow> op = rm_opcode m \<and> (d \<longrightarrow> got @ w = payload))
    \<and> recv_stage p0 fi m hdr payload k (got @ received res) p' rb'"
proof -
  let ?j = "length got" and ?avail = "drop (length got) (take (k - length hdr) payload)"
  have P: "?j < length payload \<or> length payload = 0 \<and> ?j = 0" using got(1) by auto
  have la: "length ?avail \<le> length payload - ?j" by simp
  from recv_message_in_frame [OF inv P fi c la m, of ifl room] obtain res rb' p' where
    r: "recv_message_content ifl (in_frame p0 fi m ?j) rb room = Some (res, rb', p')" "rb_inv rb'" and
    cases: "res = None \<and> p' = in_frame p0 fi m ?j \<and> rb_contents rb' = rb_contents rb \<and> ?j < length payload
     \<or> (\<exists>k' \<le> length ?avail. res = Some (Inr (rm_opcode m, take k' ?avail, ?j + k' = length payload \<and> fi_fin fi))
          \<and> rb_contents rb' = masked_by (fi_mask fi) (?j + k') (drop k' ?avail)
          \<and> p' = (if ?j + k' = length payload then after_frame p0 fi m else in_frame p0 fi m (?j + k')))" by blast
  from cases show ?thesis
  proof
    assume "res = None \<and> p' = in_frame p0 fi m ?j \<and> rb_contents rb' = rb_contents rb \<and> ?j < length payload"
    with r c got(2) k show ?thesis
      by (intro exI [of _ res] exI [of _ rb'] exI [of _ p']) (simp add: recv_stage_def received_def)
  next
    assume "\<exists>k' \<le> length ?avail. res = Some (Inr (rm_opcode m, take k' ?avail, ?j + k' = length payload \<and> fi_fin fi))
          \<and> rb_contents rb' = masked_by (fi_mask fi) (?j + k') (drop k' ?avail)
          \<and> p' = (if ?j + k' = length payload then after_frame p0 fi m else in_frame p0 fi m (?j + k'))"
    then obtain k' where k': "k' \<le> length ?avail" "res = Some (Inr (rm_opcode m, take k' ?avail, ?j + k' = length payload \<and> fi_fin fi))"
      "rb_contents rb' = masked_by (fi_mask fi) (?j + k') (drop k' ?avail)"
      "p' = (if ?j + k' = length payload then after_frame p0 fi m else in_frame p0 fi m (?j + k'))" by blast
    have g: "got @ take k' ?avail = take (?j + k') payload"
    proof -
      have "k' \<le> k - length hdr - ?j" using k'(1) by simp
      then have "take k' ?avail = take k' (drop ?j payload)" by (simp add: drop_take min.absorb1)
      then show ?thesis using got(2) by (metis take_add)
    qed
    have le: "?j + k' \<le> length payload" "length hdr + (?j + k') \<le> k" using k'(1) got k by auto
    have dr: "drop k' ?avail = drop (?j + k') (take (k - length hdr) payload)" by (simp add: add.commute)
    have "recv_stage p0 fi m hdr payload k (got @ received res) p' rb'"
    proof (cases "?j + k' = length payload")
      case True
      then have "drop k' ?avail = []" "length payload \<le> k - length hdr" using dr le by auto
      with True k' r(2) g k show ?thesis by (auto simp: recv_stage_def received_def)
    next
      case False
      with le k' r(2) g dr k show ?thesis by (simp add: recv_stage_def received_def)
    qed
    with r k'(2) g show ?thesis by auto
  qed
qed

lemma drop_take_wire:
  assumes "length hdr \<le> k"
  shows "masked_by mk j (drop j (take (k - length hdr) payload)) = drop (length hdr + j) (take k (hdr @ masked_by mk 0 payload))"
  using assms masked_by_drop [of j mk 0 "take (k - length hdr) payload"] by (simp add: masked_by_take)

lemma recv_stage_arrive:
  assumes st: "recv_stage p0 fi m hdr payload k got p rb" and rb': "rb_inv rb'" "rb_contents rb' = rb_contents rb @ bs"
    and bs: "take k (hdr @ masked_by (fi_mask fi) 0 payload) @ bs = take (k + length bs) (hdr @ masked_by (fi_mask fi) 0 payload)"
    and k: "k \<le> length hdr + length payload" "k + length bs \<le> length hdr + length payload"
  shows "recv_stage p0 fi m hdr payload (k + length bs) got p rb'"
proof -
  let ?w = "hdr @ masked_by (fi_mask fi) 0 payload" and ?j = "length got"
  have lw: "length (take k ?w) = k" using k by simp
  from st [unfolded recv_stage_def] have "p = p0 \<and> got = [] \<and> rb_contents rb = take k ?w
      \<or> length hdr + ?j \<le> k \<and> ?j < length payload \<and> got = take ?j payload \<and> p = in_frame p0 fi m ?j
          \<and> rb_contents rb = masked_by (fi_mask fi) ?j (drop ?j (take (k - length hdr) payload))
      \<or> length hdr + length payload \<le> k \<and> got = payload \<and> p = after_frame p0 fi m \<and> rb_contents rb = []" by simp
  then show ?thesis
  proof (elim disjE conjE)
    assume "p = p0" "got = []" "rb_contents rb = take k ?w"
    then show ?thesis using rb' bs by (simp add: recv_stage_def)
  next
    assume s: "length hdr + ?j \<le> k" "?j < length payload" "got = take ?j payload" "p = in_frame p0 fi m ?j"
      "rb_contents rb = masked_by (fi_mask fi) ?j (drop ?j (take (k - length hdr) payload))"
    have "rb_contents rb' = drop (length hdr + ?j) (take k ?w) @ bs"
      using rb'(2) s(5) drop_take_wire [of hdr k "fi_mask fi" ?j payload] s(1) by simp
    also have "\<dots> = drop (length hdr + ?j) (take (k + length bs) ?w)"
      using s(1) lw unfolding bs [symmetric] by simp
    also have "\<dots> = masked_by (fi_mask fi) ?j (drop ?j (take (k + length bs - length hdr) payload))"
      using drop_take_wire [of hdr "k + length bs" "fi_mask fi" ?j payload] s(1) by simp
    finally show ?thesis using s rb'(1) by (simp add: recv_stage_def)
  next
    assume "length hdr + length payload \<le> k" "got = payload" "p = after_frame p0 fi m" "rb_contents rb = []"
    then show ?thesis using k rb' by (simp add: recv_stage_def)
  qed
qed

text \<open>A call at any stage; after the frame the session may have ended, and is not called again then.\<close>

lemma recv_stage_call:
  assumes st: "recv_stage p0 fi m hdr payload k got p rb"
    and p0: "p_receiving_frame p0 = None" "can_recv p0" and n: "length payload < 2 ^ 64"
    and fi: "fi = sent_info fin rsv1 opcode mk (length payload)" and m: "check_header p0 fi = Inr m" "mode_ok m"
    and hdr: "hdr = header_bytes fin rsv1 opcode (length payload) mk"
    and call: "recv_message_content ifl p rb room = Some (res, rb', p')"
  shows "(\<forall>e. res \<noteq> Some (Inl e)) \<and> (\<forall>op w d. res = Some (Inr (op, w, d)) \<longrightarrow> op = rm_opcode m \<and> (d \<longrightarrow> got @ w = payload))
    \<and> recv_stage p0 fi m hdr payload k (got @ received res) p' rb'"
proof -
  let ?w = "hdr @ masked_by (fi_mask fi) 0 payload"
  have mk: "fi_mask fi = mk" "fi_payload_size fi = length payload" by (simp_all add: fi sent_info_def)
  have mode: "rm_compression_mode m = Uncompressed" using m(2) by (simp add: mode_ok_def)
  have inv: "rb_inv rb" using st by (simp add: recv_stage_def)
  from st [unfolded recv_stage_def] have "p = p0 \<and> got = [] \<and> rb_contents rb = take k ?w
      \<or> length hdr + length got \<le> k \<and> length got < length payload \<and> got = take (length got) payload \<and> p = in_frame p0 fi m (length got)
          \<and> rb_contents rb = masked_by (fi_mask fi) (length got) (drop (length got) (take (k - length hdr) payload))
      \<or> length hdr + length payload \<le> k \<and> got = payload \<and> p = after_frame p0 fi m \<and> rb_contents rb = []" by simp
  then show ?thesis
  proof (elim disjE conjE)
    assume s: "p = p0" "got = []" "rb_contents rb = take k ?w"
    from recv_message_at_header [OF inv p0 n fi m s(3) [unfolded hdr] refl, of ifl room] show ?thesis
    proof
      assume "recv_message_content ifl p0 rb room = Some (None, rb, p0)"
      then show ?thesis using call s inv by (simp add: recv_stage_def received_def)
    next
      assume "\<exists>rb1. header_size (length payload) (mk \<noteq> None) \<le> k \<and> rb_inv rb1
        \<and> rb_contents rb1 = take (k - header_size (length payload) (mk \<noteq> None)) (masked_by (fi_mask fi) 0 payload)
        \<and> recv_message_content ifl p0 rb room = recv_message_content ifl (in_frame p0 fi m 0) rb1 room"
      then obtain rb1 where rb1: "length hdr \<le> k" "rb_inv rb1" "rb_contents rb1 = masked_by (fi_mask fi) 0 (take (k - length hdr) payload)"
        "recv_message_content ifl p0 rb room = recv_message_content ifl (in_frame p0 fi m 0) rb1 room"
        by (auto simp: hdr length_header_bytes masked_by_take)
      with in_frame_stage [where got = "[]" and rb = rb1 and k = k and payload = payload and hdr = hdr and ifl = ifl and room = room, OF rb1(2) _ _ _ mk(2) mode p0(2)] call s
      show ?thesis by fastforce
    qed
  next
    assume s: "length hdr + length got \<le> k" "length got < length payload" "got = take (length got) payload" "p = in_frame p0 fi m (length got)"
      "rb_contents rb = masked_by (fi_mask fi) (length got) (drop (length got) (take (k - length hdr) payload))"
    from in_frame_stage [where ifl = ifl and room = room, OF inv _ s(3,1) mk(2) mode p0(2) s(5)] s call show ?thesis by fastforce
  next
    assume s: "length hdr + length payload \<le> k" "got = payload" "p = after_frame p0 fi m" "rb_contents rb = []"
    have "can_recv p" using call by (simp add: recv_message_content_def assert_that_bind split: if_splits)
    moreover have "rb_read_buf rb = Some []" using ring.read_buf_prefix [OF inv] s(4) by auto
    ultimately have "recv_message_content ifl p rb room = Some (None, rb, p)"
      using s(3) by (simp add: recv_message_content_def recv_header_def read_header_def after_frame_def)
    then show ?thesis using call s inv by (simp add: recv_stage_def received_def)
  qed
qed

lemma recv_calls_stage:
  fixes p0 p :: "('c, 'i) protocol"
  assumes "recv_calls ifl p0 fed got ok p rb" and "fed = take (length fed) (ws_frame_bytes fin rsv1 opcode mk payload)"
    and p0: "p_receiving_frame p0 = None" "can_recv p0" and n: "length payload < 2 ^ 64"
    and fi: "fi = sent_info fin rsv1 opcode mk (length payload)" and m: "check_header p0 fi = Inr m" "mode_ok m"
    and hdr: "hdr = header_bytes fin rsv1 opcode (length payload) mk"
  shows "ok \<and> recv_stage p0 fi m hdr payload (length fed) got p rb"
  using assms(1,2)
proof (induction rule: recv_calls.induct)
  case (recv_start rb)
  then show ?case by (simp add: recv_stage_def)
next
  case (recv_arrive fed got ok p rb rb' bs)
  let ?w = "ws_frame_bytes fin rsv1 opcode mk payload"
  have w: "?w = hdr @ masked_by (fi_mask fi) 0 payload" by (simp add: ws_frame_bytes_def hdr fi sent_info_def)
  note fb = recv_arrive.prems
  have f: "fed = take (length fed) ?w"
    using arg_cong [OF fb, of "take (length fed)"] by (simp add: min.absorb1)
  have le: "length (fed @ bs) \<le> length hdr + length payload"
    using arg_cong [OF fb, of length] by (simp add: w)
  from recv_arrive.IH [OF f] have st: "ok" "recv_stage p0 fi m hdr payload (length fed) got p rb" by auto
  have "take (length fed) ?w @ bs = take (length fed + length bs) ?w" using f fb by simp
  with recv_stage_arrive [OF st(2) recv_arrive.hyps(2,3)] le st(1) show ?case by (simp add: w)
next
  case (recv_call fed got ok p rb room res rb' p')
  from recv_call.IH [OF recv_call.prems] recv_stage_call [OF _ p0 n fi m hdr recv_call.hyps(2)]
  show ?case by blast
qed

subsection \<open>A frame that is in the buffer in one piece\<close>

lemma contiguous_commit:
  assumes "rb_inv rb" "rb_read_buf rb = Some (rb_contents rb)" "rb_read_commit rb n = Some rb'"
  shows "rb_read_buf rb' = Some (rb_contents rb')"
proof -
  have "take (length (rb_buf rb) - rb_start rb) (rb_contents rb) = rb_contents rb"
    using rb_read_buf_contents [OF assms(1)] assms(2) by simp
  then have "length (rb_contents rb) \<le> length (rb_buf rb) - rb_start rb" by (metis length_take min.cobounded2)
  then have "rb_end rb \<le> length (rb_buf rb)" using assms(1) by (auto simp: rb_inv_def)
  moreover have "rb_inv rb'" if "n \<le> length (rb_contents rb)"
    using rb_read_commit_contents [OF assms(1) that] assms(3) by auto
  ultimately show ?thesis using assms(1,3)
    by (auto simp: rb_read_commit_def rb_read_buf_def rb_contents_unwrapped rb_inv_def assert_that_bind Let_def min_def split: if_splits)
qed

text \<open>A call with the rest of the payload in the buffer returns as much of it as there is room for.\<close>

lemma recv_message_whole:
  assumes inv: "rb_inv rb" "rb_read_buf rb = Some (rb_contents rb)" and P: "j < n \<or> n = 0 \<and> j = 0" and fi: "fi_payload_size fi = n"
    and c: "rb_contents rb = masked_by (fi_mask fi) j avail" and la: "length avail = n - j"
    and op: "fi_opcode fi AND 0x08 = 0 \<or> j = 0" and m: "rm_compression_mode m = Uncompressed" and can: "can_recv p"
  shows "\<exists>rb'. recv_message_content ifl (in_frame p fi m j) rb room =
      Some (Some (Inr (rm_opcode m, take room avail, n - j \<le> room \<and> fi_fin fi)), rb',
        if n - j \<le> room then after_frame p fi m else in_frame p fi m (j + room))
    \<and> rb_inv rb' \<and> rb_contents rb' = masked_by (fi_mask fi) (j + room) (drop room avail) \<and> rb_read_buf rb' = Some (rb_contents rb')"
proof -
  let ?k = "min (n - j) room"
  have lc: "length (rb_contents rb) = n - j" using c la by (metis length_masked_by)
  then have "?k \<le> length (rb_contents rb)" by simp
  from rb_read_commit_contents [OF inv(1) this] obtain rb' where
    rb': "rb_read_commit rb ?k = Some rb'" "rb_inv rb'" "rb_contents rb' = drop ?k (rb_contents rb)" by blast
  have tk: "take ?k avail = take room avail" "drop ?k avail = drop room avail" using la by (simp_all add: min_def)
  have w: "masked_by (fi_mask fi) j (take ?k (rb_contents rb)) = take room avail"
    unfolding c masked_by_take tk(1) [symmetric] by simp
  have rest: "rb_contents rb' = masked_by (fi_mask fi) (j + room) (drop room avail)"
    unfolding rb'(3) c tk(2) [symmetric] masked_by_drop using la by (cases "n - j \<le> room") simp_all
  have all: "take (n - j) (rb_contents rb) = rb_contents rb" using lc by simp
  have "recv_plain (in_frame p fi m j) rb fi (m\<lparr>rm_frame_payload_read := j\<rparr>) room =
      Some (Inr (take room avail, j + ?k = n), rb', in_frame p fi m (j + ?k))"
    using inv(2) P op lc rb'(1) w all fi in_frame_upd [where p = p and fi = fi and m = m and i = j and j = "j + ?k"]
    by (auto simp: recv_plain_def Let_def assert_that_bind)
  moreover have "j + ?k = n \<longleftrightarrow> n - j \<le> room" using P by auto
  moreover have "\<not> n - j \<le> room \<Longrightarrow> ?k = room" by simp
  ultimately have "recv_message_content ifl (in_frame p fi m j) rb room =
      Some (Some (Inr (rm_opcode m, take room avail, n - j \<le> room \<and> fi_fin fi)), rb',
        if n - j \<le> room then after_frame p fi m else in_frame p fi m (j + room))"
    using m can fi P by (auto simp: recv_message_content_def recv_header_def after_frame_def Let_def) (auto simp: in_frame_def)
  with rb'(2) rest contiguous_commit [OF inv rb'(1)] show ?thesis by blast
qed

lemma recv_message_header_whole:
  assumes inv: "rb_inv rb" "rb_read_buf rb = Some (rb_contents rb)" and p0: "p_receiving_frame p0 = None" "can_recv p0" and n: "n < 2 ^ 64"
    and fi: "fi = sent_info fin rsv1 opcode mk n" and m: "check_header p0 fi = Inr m" "mode_ok m"
    and c: "rb_contents rb = header_bytes fin rsv1 opcode n mk @ rest"
  shows "\<exists>rb1. rb_inv rb1 \<and> rb_read_buf rb1 = Some (rb_contents rb1) \<and> rb_contents rb1 = rest
    \<and> recv_message_content ifl p0 rb room = recv_message_content ifl (in_frame p0 fi m 0) rb1 room"
proof -
  let ?hl = "header_size n (mk \<noteq> None)"
  have rh: "read_header (rb_contents rb) = Some (Inr fi)" unfolding c read_header_ok [OF n] fi sent_info_def by (rule refl)
  have "?hl \<le> length (rb_contents rb)" by (simp add: c length_header_bytes)
  from rb_read_commit_contents [OF inv(1) this] obtain rb1 where
    rb1: "rb_read_commit rb ?hl = Some rb1" "rb_inv rb1" "rb_contents rb1 = drop ?hl (rb_contents rb)" by blast
  have "check_header (p0\<lparr>p_receiving_frame := x\<rparr>) fi = Inr m" for x using m(1) by (simp add: check_header_def)
  moreover have "m\<lparr>rm_frame_payload_read := 0\<rparr> = m" using m(2) by (simp add: mode_ok_def)
  ultimately have "recv_header p0 rb = Some (Inr (), rb1, in_frame p0 fi m 0)"
    using p0(1) inv(2) rh rb1(1) by (simp add: recv_header_def Let_def in_frame_def fi sent_info_def)
  then have "recv_message_content ifl p0 rb room = recv_message_content ifl (in_frame p0 fi m 0) rb1 room"
    using p0 by (simp add: recv_message_content_def recv_header_def)
  moreover have "rb_contents rb1 = rest" using rb1(3) by (simp add: c length_header_bytes)
  ultimately show ?thesis using rb1(2) contiguous_commit [OF inv rb1(1)] by blast
qed

text \<open>
  Once the whole frame has arrived: an empty buffer means that all of it has been returned, and with bytes
  left in one piece the next call returns the next part of the payload. A control frame has to be at its
  start for that.
\<close>

lemma recv_stage_progress:
  assumes st: "recv_stage p0 fi m hdr payload k got p rb" and k: "length hdr + length payload \<le> k"
    and p0: "p_receiving_frame p0 = None" "can_recv p0" and n: "length payload < 2 ^ 64"
    and fi: "fi = sent_info fin rsv1 opcode mk (length payload)" and m: "check_header p0 fi = Inr m" "mode_ok m"
    and hdr: "hdr = header_bytes fin rsv1 opcode (length payload) mk"
  shows "rb_contents rb = [] \<Longrightarrow> got = payload \<and> p = after_frame p0 fi m"
    and "rb_contents rb \<noteq> [] \<Longrightarrow> rb_read_buf rb = Some (rb_contents rb) \<Longrightarrow> fi_opcode fi AND 0x08 = 0 \<or> got = [] \<Longrightarrow>
      \<exists>rb'. recv_message_content ifl p rb room =
          Some (Some (Inr (rm_opcode m, take room (drop (length got) payload), length payload - length got \<le> room \<and> fin)), rb',
            if length payload - length got \<le> room then after_frame p0 fi m else in_frame p0 fi m (length got + room))
        \<and> rb_read_buf rb' = Some (rb_contents rb')"
proof -
  have ne: "hdr \<noteq> []" using length_header_bytes [of fin rsv1 opcode "length payload" mk] by (auto simp: hdr header_size_def Let_def split: if_splits)
  have fi': "fi_mask fi = mk" "fi_payload_size fi = length payload" "fi_fin fi = fin" by (simp_all add: fi sent_info_def)
  have mode: "rm_compression_mode m = Uncompressed" using m(2) by (simp add: mode_ok_def)
  have tk: "take (k - length hdr) payload = payload" "take k (hdr @ masked_by mk 0 payload) = hdr @ masked_by mk 0 payload" using k by simp_all
  from st [unfolded recv_stage_def fi'(1) tk] have inv: "rb_inv rb" and stages:
    "p = p0 \<and> got = [] \<and> rb_contents rb = hdr @ masked_by mk 0 payload
     \<or> length got < length payload \<and> p = in_frame p0 fi m (length got) \<and> rb_contents rb = masked_by mk (length got) (drop (length got) payload)
     \<or> got = payload \<and> p = after_frame p0 fi m \<and> rb_contents rb = []" by auto
  have nonempty: "rb_contents rb \<noteq> []" if "rb_contents rb = masked_by mk j (drop j payload)" "j < length payload" for j
    using that length_masked_by [of mk j "drop j payload"] by (metis length_drop length_greater_0_conv zero_less_diff)
  show "rb_contents rb = [] \<Longrightarrow> got = payload \<and> p = after_frame p0 fi m"
    using stages ne nonempty [of "length got"] by auto
  note whole = recv_message_whole [where n = "length payload" and fi = fi and p = p0 and m = m and ifl = ifl and room = room, OF _ _ _ fi'(2) _ _ _ mode p0(2), unfolded fi']
  assume c: "rb_contents rb \<noteq> []" "rb_read_buf rb = Some (rb_contents rb)" and op: "fi_opcode fi AND 0x08 = 0 \<or> got = []"
  from c(1) stages consider
    "p = p0" "got = []" "rb_contents rb = hdr @ masked_by mk 0 payload"
    | "length got < length payload" "p = in_frame p0 fi m (length got)" "rb_contents rb = masked_by mk (length got) (drop (length got) payload)"
    by blast
  then show "\<exists>rb'. recv_message_content ifl p rb room =
          Some (Some (Inr (rm_opcode m, take room (drop (length got) payload), length payload - length got \<le> room \<and> fin)), rb',
            if length payload - length got \<le> room then after_frame p0 fi m else in_frame p0 fi m (length got + room))
        \<and> rb_read_buf rb' = Some (rb_contents rb')"
  proof cases
    case 1
    from recv_message_header_whole [OF inv c(2) p0 n fi m, of "masked_by mk 0 payload" ifl room] 1(3) hdr obtain rb1 where
      "rb_inv rb1" "rb_read_buf rb1 = Some (rb_contents rb1)" "rb_contents rb1 = masked_by mk 0 payload"
      "recv_message_content ifl p0 rb room = recv_message_content ifl (in_frame p0 fi m 0) rb1 room" by auto
    with whole [of rb1 0 payload] 1(1,2) show ?thesis by fastforce
  next
    case 2
    with whole [OF inv c(2), of "length got" "drop (length got) payload"] op show ?thesis by auto
  qed
qed

section \<open>The closing handshake\<close>

text \<open>The last byte of a close frame has been written by this call.\<close>

definition completes_close :: "('c, 'i) protocol \<Rightarrow> u8 \<Rightarrow> ws_error + nat \<Rightarrow> ('c, 'i) protocol \<Rightarrow> bool" where
  "completes_close p opcode r p' \<longleftrightarrow>
     (case p_sending_frame p of Some f \<Rightarrow> sf_opcode f | None \<Rightarrow> opcode) = OPCODE_CLOSE
     \<and> p_sending_frame p' = None \<and> (\<exists>n. r = Inr n)"

lemma current_frame_opcode:
  "current_frame p opcode n fin rsv1 mk = Some (Inr f) \<Longrightarrow>
    sf_opcode f = (case p_sending_frame p of Some f \<Rightarrow> sf_opcode f | None \<Rightarrow> opcode)"
  by (auto simp: current_frame_def split: option.splits sum.splits bind_splits)

lemma send_frame_state:
  assumes "send_frame W p w opcode src fin rsv1 mk = Some (r, w', src', p')"
  shows "can_send p \<and> p_state p' = (if completes_close p opcode r p' then close_sent (p_state p) else p_state p)"
  using assms
  by (auto simp: send_frame_def completes_close_def Let_def assert_that_bind current_frame_opcode
      split: option.splits sum.splits bind_splits if_splits prod.splits)

lemma recv_header_state: "recv_header p rb = Some (h, rb1, p1) \<Longrightarrow> p_state p1 = p_state p"
  by (auto simp: recv_header_def Let_def split: if_splits sum.splits bind_splits)

lemma recv_compressed_state:
  "recv_compressed ifl p1 rb1 fi msg room = Some (r, rb2, p2) \<Longrightarrow> p_state p2 = p_state p1 \<and> (\<forall>v. r = Inr v \<longrightarrow> p_receiving_message p2 \<noteq> None)"
  by (auto simp: recv_compressed_def Let_def split: if_splits sum.splits bind_splits option.splits prod.splits)

lemma recv_plain_state:
  "recv_plain p1 rb1 fi msg room = Some (r, rb2, p2) \<Longrightarrow> p_state p2 = p_state p1 \<and> (\<forall>v. r = Inr v \<longrightarrow> p_receiving_message p2 \<noteq> None)"
  by (auto simp: recv_plain_def Let_def assert_that_bind split: if_splits bind_splits)

lemma recv_message_state:
  assumes "recv_message_content ifl p rb room = Some (res, rb', p')"
  shows "can_recv p \<and> p_state p' = (if \<exists>w. res = Some (Inr (OPCODE_CLOSE, w, True)) then close_received (p_state p) else p_state p)"
  using assms
  by (auto simp: recv_message_content_def Let_def assert_that_bind
      dest!: recv_header_state recv_compressed_state recv_plain_state
      split: if_splits sum.splits bind_splits prod.splits)

text \<open>
  A session: frames are sent, messages received, and the bookkeeping of the message being sent (and of
  compression) changes in any way. The counts are the close frames completely written and the close
  messages completely returned.
\<close>

inductive session :: "'w writer \<Rightarrow> 'i codec \<Rightarrow> ('c, 'i) protocol \<Rightarrow> nat \<Rightarrow> nat \<Rightarrow> ('c, 'i) protocol \<Rightarrow> bool" for W ifl p0 where
  session_open: "session W ifl p0 0 0 p0"
| session_send: "session W ifl p0 s r p \<Longrightarrow> send_frame W p w opcode src fin rsv1 mk = Some (res, w', src', p') \<Longrightarrow>
    session W ifl p0 (if completes_close p opcode res p' then Suc s else s) r p'"
| session_recv: "session W ifl p0 s r p \<Longrightarrow> recv_message_content ifl p rb room = Some (res, rb', p') \<Longrightarrow>
    session W ifl p0 s (if \<exists>w. res = Some (Inr (OPCODE_CLOSE, w, True)) then Suc r else r) p'"
| session_message: "session W ifl p0 s r p \<Longrightarrow> session W ifl p0 s r (p\<lparr>p_sending_message := msg, p_deflate := ds\<rparr>)"

definition state_after :: "nat \<Rightarrow> nat \<Rightarrow> ws_state" where
  "state_after s r = (if s = 0 \<and> r = 0 then Connected else if s = 0 then PeerClosed else if r = 0 then Closing else Finished)"

lemma session_state:
  assumes "session W ifl p0 s r p" and "p_state p0 = Connected"
  shows "s \<le> 1 \<and> r \<le> 1 \<and> p_state p = state_after s r"
  using assms(1)
proof (induction rule: session.induct)
  case session_open
  then show ?case using assms(2) by (simp add: state_after_def)
next
  case (session_send s r p w opcode src fin rsv1 mk res w' src' p')
  from send_frame_state [OF session_send.hyps(2)] session_send.IH show ?case
    by (auto simp: state_after_def can_send_def close_sent_def split: if_splits)
next
  case (session_recv s r p rb room res rb' p')
  from recv_message_state [OF session_recv.hyps(2)] session_recv.IH show ?case
    by (auto simp: state_after_def can_recv_def close_received_def split: if_splits)
next
  case (session_message s r p msg ds)
  then show ?case by simp
qed

section \<open>Properties\<close>

context vectored_sink
begin

lemma frame_calls_total:
  fixes p p' :: "('c, 'i) protocol"
  assumes calls: "frame_calls W fin rsv1 opcode mk payload p w left p' w'"
    and prems: "invar w" "w_write_vectored W = write_vectored" "can_send p"
    and src: "p_sending_frame p' \<noteq> None" "concat src = left" "length src \<le> SEND_FRAME_BUFS_MAX"
  shows "send_frame W p' w' op' src fin' rsv1' mk \<noteq> None"
proof -
  from frame_calls_progress [OF calls prems] obtain n where inv: "invar w'" and
    n: "n \<le> length (ws_frame_bytes fin rsv1 opcode mk payload)"
      "left = drop (n - length (header_bytes fin rsv1 opcode (length payload) mk)) payload"
      "p' = frame_progress fin rsv1 opcode mk payload p n" by blast
  have lt: "n < length (ws_frame_bytes fin rsv1 opcode mk payload)"
    and p': "p' = p\<lparr>p_sending_frame := Some (new_frame fin rsv1 opcode mk (length payload) n)\<rparr>"
    using n src(1) by (auto simp: frame_progress_def frame_done_def split: if_splits)
  have cf: "current_frame p' op' (length (concat src)) fin' rsv1' mk = Some (Inr (new_frame fin rsv1 opcode mk (length payload) n))"
    by (simp add: current_frame_def p')
  have can: "can_send p'" using p' prems(3) by simp
  from send_frame_turn [OF inv prems(2) can refl refl _ src(3) lt cf, of p] src(2) n(2) p' show ?thesis by auto
qed

end

text \<open>
  A frame goes out whole and once, whatever the writer does. Over any number of calls of
  \<open>send_frame\<close>, each offered the bytes that are still unsent and each writing as much as the writer takes
  or failing, the writer has received a prefix of the header followed by the masked payload; the caller's
  unsent bytes are, after every call, the original unmasked ones; the frame is no longer in progress
  exactly when all of it has been written, and then no bytes are left; and no further call panics.
\<close>

lemma send_frame_transmits:
  fixes p p' :: "('c, 'i) protocol"
  assumes "vectored_sink (w_write_vectored W) out invar" and "frame_calls W fin rsv1 opcode mk payload p w left p' w'"
    and "invar w" and "can_send p"
  shows "invar w' \<and> (\<exists>n \<le> length (ws_frame_bytes fin rsv1 opcode mk payload).
      out w' = out w @ take n (ws_frame_bytes fin rsv1 opcode mk payload)
      \<and> left = drop (n - length (header_bytes fin rsv1 opcode (length payload) mk)) payload
      \<and> (p_sending_frame p' = None \<longleftrightarrow> n = length (ws_frame_bytes fin rsv1 opcode mk payload)))
    \<and> (\<forall>src op' fin' rsv1'. p_sending_frame p' \<noteq> None \<and> concat src = left \<and> length src \<le> SEND_FRAME_BUFS_MAX
        \<longrightarrow> send_frame W p' w' op' src fin' rsv1' mk \<noteq> None)"
proof -
  have none: "p_sending_frame (frame_progress fin rsv1 opcode mk payload p n) = None \<longleftrightarrow> n = length (ws_frame_bytes fin rsv1 opcode mk payload)" for n
    by (simp add: frame_progress_def frame_done_def)
  from vectored_sink.frame_calls_progress [OF assms(1,2,3) refl assms(4)] none
    vectored_sink.frame_calls_total [OF assms(1,2,3) refl assms(4)]
  show ?thesis by metis
qed

definition plain_session :: "(unit, unit) protocol" where
  "plain_session = protocol_new () () None"

lemma plain_session_simps [simp]:
  "p_state plain_session = Connected" "p_sending_frame plain_session = None" "p_receiving_frame plain_session = None"
  "p_receiving_message plain_session = None" "can_send plain_session" "can_recv plain_session"
  by (simp_all add: plain_session_def protocol_new_def can_send_def can_recv_def)

lemma rb_writer_sink: "vectored_sink (w_write_vectored rb_writer) rb_contents rb_inv"
  using ring_sink.vectored_sink_axioms by (simp add: rb_writer_def)

lemma example_send:
  "send_frame rb_writer plain_session (empty_ring 20) 2 [[1, 2]] True False (Some (Mask 1 2 3 4)) =
    Some (Inr 2, \<lparr>rb_buf = [130, 130, 1, 2, 3, 4] @ replicate 14 0, rb_start = 0, rb_end = 8, rb_tmp_len = 20\<rparr>, [[0, 0]], plain_session)"
  by code_simp

lemma example_calls:
  "frame_calls rb_writer True False 2 (Some (Mask 1 2 3 4)) [1, 2] plain_session (empty_ring 20) [] plain_session
    \<lparr>rb_buf = [130, 130, 1, 2, 3, 4] @ replicate 14 0, rb_start = 0, rb_end = 8, rb_tmp_len = 20\<rparr>"
  using frame_calls.first_call [OF _ _ _ example_send, of "[1, 2]"] by (simp add: unsent_def SEND_FRAME_BUFS_MAX_def)

text \<open>
  Property C24. A frame sent by one session is received by another. Let a session send a frame over any
  number of calls until it is complete, and let any prefix of the bytes its writer took arrive at a session
  that accepts the frame as uncompressed, in any portions and into a ring buffer in any position, while
  \<open>recv_message_content\<close> is called with any room for output. Then no call fails, and the bytes returned so
  far are a prefix of the payload as it was before masking. When the whole frame has arrived, the receiver
  is done exactly when the buffer is empty: then the whole payload has been returned and the frame has
  been left. Until then, with the bytes in one piece in the buffer (as \<open>align\<close> leaves them), a call with
  \<open>room\<close> returns the next \<open>room\<close> bytes of the payload, in a data frame at any time and in a control frame when
  none of it has been returned yet; a call whose room takes all that is left leaves the frame, and reports
  the end of the message if the frame is final.
\<close>

theorem ws_frame_delivery:
  fixes p p' :: "('c, 'i) protocol" and q0 q :: "('d, 'j) protocol"
  assumes "vectored_sink (w_write_vectored W) out invar" "invar w" "can_send p"
    and "frame_calls W fin rsv1 opcode mk payload p w left p' w'" "p_sending_frame p' = None"
    and "recv_calls ifl q0 fed got ok q rb" "out w' = out w @ fed @ later"
    and "p_receiving_frame q0 = None" "can_recv q0" "length payload < 2 ^ 64"
    and "fi = sent_info fin rsv1 opcode mk (length payload)" "check_header q0 fi = Inr m" "mode_ok m"
  shows "ok \<and> got = take (length got) payload
    \<and> (q = q0 \<and> got = [] \<or> q = in_frame q0 fi m (length got) \<or> q = after_frame q0 fi m \<and> got = payload)
    \<and> (later = [] \<and> rb_contents rb = [] \<longrightarrow> q = after_frame q0 fi m \<and> got = payload)
    \<and> (later = [] \<and> rb_contents rb \<noteq> [] \<and> rb_read_buf rb = Some (rb_contents rb) \<and> (fi_opcode fi AND 0x08 = 0 \<or> got = []) \<longrightarrow>
        (\<exists>rb'. recv_message_content ifl q rb room =
            Some (Some (Inr (rm_opcode m, take room (drop (length got) payload), length payload - length got \<le> room \<and> fin)), rb',
              if length payload - length got \<le> room then after_frame q0 fi m else in_frame q0 fi m (length got + room))
          \<and> rb_read_buf rb' = Some (rb_contents rb')))"
proof -
  let ?w = "ws_frame_bytes fin rsv1 opcode mk payload" and ?h = "header_bytes fin rsv1 opcode (length payload) mk"
  from vectored_sink.frame_calls_progress [OF assms(1,4,2) refl assms(3)] obtain n where
    n: "n \<le> length ?w" "out w' = out w @ take n ?w" "p' = frame_progress fin rsv1 opcode mk payload p n" by blast
  then have "n = length ?w" using assms(5) by (auto simp: frame_progress_def split: if_splits)
  with n(2) assms(7) have w: "fed @ later = ?w" by simp
  then have "fed = take (length fed) ?w" by (metis append_eq_conv_conj)
  from recv_calls_stage [OF assms(6) this assms(8-13) refl] have
    st: "ok" "recv_stage q0 fi m ?h payload (length fed) got q rb" by auto
  have "length ?h + length payload \<le> length fed" if "later = []"
    using that w by (simp add: ws_frame_bytes_def)
  note whole = recv_stage_progress [OF st(2) this assms(8-13) refl]
  have "got = take (length got) payload
    \<and> (q = q0 \<and> got = [] \<or> q = in_frame q0 fi m (length got) \<or> q = after_frame q0 fi m \<and> got = payload)"
    using st(2) by (auto simp: recv_stage_def)
  with st(1) whole(1) whole(2) [of ifl room] show ?thesis by blast
qed

lemma example_arrived:
  "recv_calls copy_inflate plain_session [130, 130, 1, 2, 3, 4, 0, 0] [] True plain_session
     \<lparr>rb_buf = [130, 130, 1, 2, 3, 4, 0, 0], rb_start = 0, rb_end = 8, rb_tmp_len = 8\<rparr>"
proof -
  have "recv_calls copy_inflate plain_session [] [] True plain_session (empty_ring 8)"
    by (rule recv_calls.recv_start) (simp_all add: empty_ring_ok)
  from recv_calls.recv_arrive [OF this, of "\<lparr>rb_buf = [130, 130, 1, 2, 3, 4, 0, 0], rb_start = 0, rb_end = 8, rb_tmp_len = 8\<rparr>" "[130, 130, 1, 2, 3, 4, 0, 0]"]
  show ?thesis by (simp add: empty_ring_ok) (simp add: rb_inv_def rb_contents_def)
qed

theorem ws_frame_delivery_witness:
  "\<exists>rb. recv_message_content copy_inflate plain_session \<lparr>rb_buf = [130, 130, 1, 2, 3, 4, 0, 0], rb_start = 0, rb_end = 8, rb_tmp_len = 8\<rparr> 2
    = Some (Some (Inr (2, [1, 2], True)), rb, plain_session)"
proof -
  let ?rb = "\<lparr>rb_buf = [130, 130, 1, 2, 3, 4, 0, 0 :: u8], rb_start = 0, rb_end = 8, rb_tmp_len = 8\<rparr>"
  let ?fi = "sent_info True False 2 (Some (Mask 1 2 3 4)) 2"
  let ?m = "\<lparr>rm_opcode = 2, rm_frame_payload_read = 0, rm_compression_mode = Uncompressed\<rparr>"
  have ch: "check_header plain_session ?fi = Inr ?m" by code_simp
  have out: "rb_contents \<lparr>rb_buf = [130, 130, 1, 2, 3, 4] @ replicate 14 0, rb_start = 0, rb_end = 8, rb_tmp_len = 20\<rparr>
      = rb_contents (empty_ring 20) @ [130, 130, 1, 2, 3, 4, 0, 0] @ []" by code_simp
  have rb: "rb_contents ?rb \<noteq> []" "rb_read_buf ?rb = Some (rb_contents ?rb)" "fi_opcode ?fi AND 0x08 = 0"
    "after_frame plain_session ?fi ?m = plain_session" by code_simp+
  have side: "mode_ok ?m" "?fi = sent_info True False 2 (Some (Mask 1 2 3 4)) (length [1, 2 :: u8])"
    by (simp_all add: mode_ok_def numeral_2_eq_2)
  have size: "length [1, 2 :: u8] < 2 ^ 64" by simp
  note ws_frame_delivery [where room = 2, OF rb_writer_sink empty_ring_ok(1) plain_session_simps(5) example_calls plain_session_simps(2)
      example_arrived out plain_session_simps(3,6) size side(2) ch side(1), THEN conjunct2, THEN conjunct2, THEN conjunct2, THEN conjunct2, THEN mp]
  with rb show ?thesis by auto
qed

text \<open>
  Property C25. The closing handshake. In every session at most one close frame is sent and at most one
  close message received; the state says exactly which of the two has happened; and once both have, the
  session is \<open>Finished\<close> and accepts no further call in either direction.
\<close>

theorem ws_close_handshake:
  fixes p0 p :: "('c, 'i) protocol"
  assumes "session W ifl p0 s r p" and "p_state p0 = Connected"
  shows "s \<le> 1 \<and> r \<le> 1 \<and> p_state p = state_after s r
    \<and> (1 \<le> s \<longrightarrow> send_frame W p w opcode src fin rsv1 mk = None)
    \<and> (1 \<le> r \<longrightarrow> recv_message_content ifl p rb room = None)"
  using session_state [OF assms]
  by (auto simp: state_after_def send_frame_def recv_message_content_def can_send_def can_recv_def assert_that_bind split: if_splits)

lemma example_close:
  "send_frame rb_writer plain_session (empty_ring 20) 8 [[3, 232]] True False None =
    Some (Inr 2, \<lparr>rb_buf = [136, 2, 3, 232] @ replicate 16 0, rb_start = 0, rb_end = 4, rb_tmp_len = 20\<rparr>, [[3, 232]], plain_session\<lparr>p_state := Closing\<rparr>)"
  by code_simp

theorem ws_close_handshake_witness:
  "session rb_writer copy_inflate plain_session 1 0 (plain_session\<lparr>p_state := Closing\<rparr>) \<and> state_after 1 0 = Closing"
proof -
  have "session rb_writer copy_inflate plain_session 0 0 plain_session" by (rule session.session_open)
  from session.session_send [OF this example_close]
  have s: "session rb_writer copy_inflate plain_session 1 0 (plain_session\<lparr>p_state := Closing\<rparr>)"
    by (simp add: completes_close_def OPCODE_CLOSE_def)
  from ws_close_handshake [OF s plain_session_simps(1)] s show ?thesis by simp
qed

text \<open>
  A call that sends a part of a message without compression and not a control message is one call of
  \<open>send_frame\<close> and the bookkeeping of the message around it.
\<close>

lemma send_message_plain:
  assumes call: "send_message_content W dfl c_reset p w src fin = Some (r, w', src', p')"
    and p: "p_deflate p = None" "p_sending_message p = Some msg" and msg: "sm_end_len msg = None" "sm_opcode msg AND 0x08 = 0"
  shows "\<exists>msg1 msg2 rf pf. can_send p
    \<and> send_frame W (set_message p msg1) w (if sm_frame_sent msg then OPCODE_CONTINUATION else sm_opcode msg) src fin False (sm_mask msg)
        = Some (rf, w', src', pf)
    \<and> sm_mask msg2 = sm_mask msg \<and> sm_opcode msg2 = sm_opcode msg \<and> (\<not> fin \<longrightarrow> sm_end_len msg2 = None)
    \<and> (case rf of
         Inl e \<Rightarrow> r = Inl e \<and> p' = pf \<and> msg1 = msg2
       | Inr n \<Rightarrow> r = Inr (n, p_sending_message p' = None)
           \<and> p' = finish_message c_reset (set_message pf msg2) (fin \<and> n = length (concat src)))"
proof -
  let ?msg1 = "if sm_end_len msg = None \<and> fin then msg\<lparr>sm_end_len := Some (sum_list (map length src))\<rparr> else msg"
  let ?op = "if sm_frame_sent msg then OPCODE_CONTINUATION else sm_opcode msg"
  have can: "can_send p" using call by (auto simp: send_message_content_def assert_that_bind split: if_splits)
  have eq: "send_message_content W dfl c_reset p w src fin =
      do { (r, w, src, p) \<leftarrow> send_plain W (set_message p ?msg1) w ?msg1 ?op src fin;
           case r of Inl e \<Rightarrow> Some (Inl e, w, src, p)
           | Inr (n_read, sent_all) \<Rightarrow>
               let p = finish_message c_reset p sent_all in Some (Inr (n_read, p_sending_message p = None), w, src, p) }"
    using can p msg by (simp add: send_message_content_def assert_that_bind set_message_def Let_def)
  from call [unfolded eq] obtain rp wp sp pp where
    sp: "send_plain W (set_message p ?msg1) w ?msg1 ?op src fin = Some (rp, wp, sp, pp)" and
    fin: "(case rp of Inl e \<Rightarrow> Some (Inl e, wp, sp, pp)
           | Inr (n_read, sent_all) \<Rightarrow>
               let p = finish_message c_reset pp sent_all in Some (Inr (n_read, p_sending_message p = None), wp, sp, p)) = Some (r, w', src', p')"
    by (auto split: bind_splits)
  have mask: "sm_mask ?msg1 = sm_mask msg" by simp
  from sp obtain rf pf where
    sf: "send_frame W (set_message p ?msg1) w ?op src fin False (sm_mask msg) = Some (rf, wp, sp, pf)" and
    res: "case rf of
       Inl e \<Rightarrow> rp = Inl e \<and> pp = pf
     | Inr n \<Rightarrow> \<exists>msg2. sub_end_len ?msg1 n = Some msg2 \<and> rp = Inr (n, fin \<and> n = sum_list (map length src))
         \<and> pp = set_message pf (msg2\<lparr>sm_frame_sent := True\<rparr>)"
    unfolding send_plain_def mask by (force split: bind_splits sum.splits)
  show ?thesis
  proof (cases rf)
    case (Inl e)
    with res fin sf can msg(1) show ?thesis
      by (intro exI [of _ ?msg1] exI [of _ rf] exI [of _ pf]) auto
  next
    case (Inr n)
    with res obtain msg2 where m2: "sub_end_len ?msg1 n = Some msg2" "rp = Inr (n, fin \<and> n = sum_list (map length src))"
      "pp = set_message pf (msg2\<lparr>sm_frame_sent := True\<rparr>)" by auto
    have "sm_mask msg2 = sm_mask msg" "sm_opcode msg2 = sm_opcode msg" "\<not> fin \<longrightarrow> sm_end_len msg2 = None"
      using m2(1) msg(1) by (auto simp: sub_end_len_def split: option.splits bind_splits if_splits)
    with m2 Inr fin sf can show ?thesis
      by (intro exI [of _ ?msg1] exI [of _ "msg2\<lparr>sm_frame_sent := True\<rparr>"] exI [of _ rf] exI [of _ pf])
        (auto simp: Let_def length_concat)
  qed
qed

lemma finish_message_ends:
  "p_sending_message (finish_message r (set_message p msg) b) = None \<Longrightarrow>
    p_sending_frame p = None \<and> p_sending_frame (finish_message r (set_message p msg) b) = None"
  by (auto simp: finish_message_def set_message_def split: if_splits)

context vectored_sink
begin

lemma frame_without_fin:
  fixes p p1 :: "('c, 'i) protocol"
  assumes inv: "invar w" and W: "w_write_vectored W = write_vectored"
    and p: "p_sending_frame p = None" "p_deflate p = None" "p_sending_message p = Some msg"
    and msg: "sm_end_len msg = None" "sm_opcode msg AND 0x08 = 0"
    and src: "length src \<le> SEND_FRAME_BUFS_MAX"
    and call: "send_message_content W dfl c_reset p w src False = Some (r, w1, src1, p1)" and open_frame: "p_sending_frame p1 \<noteq> None"
    and op: "op = (if sm_frame_sent msg then OPCODE_CONTINUATION else sm_opcode msg)"
  shows "\<exists>n msg1. invar w1 \<and> n < length (ws_frame_bytes False False op (sm_mask msg) (concat src))
    \<and> out w1 = out w @ take n (ws_frame_bytes False False op (sm_mask msg) (concat src))
    \<and> unsent (map_sum id fst r) src1 = drop (n - length (header_bytes False False op (length (concat src)) (sm_mask msg))) (concat src)
    \<and> p_sending_frame p1 = Some (new_frame False False op (sm_mask msg) (length (concat src)) n) \<and> p_deflate p1 = None
    \<and> p_sending_message p1 = Some msg1 \<and> sm_mask msg1 = sm_mask msg \<and> sm_end_len msg1 = None \<and> sm_opcode msg1 = sm_opcode msg"
proof -
  let ?mk = "sm_mask msg" let ?wire = "ws_frame_bytes False False op ?mk (concat src)"
  from send_message_plain [OF call p(2,3) msg] obtain msg1 msg2 rf pf where
    c: "can_send p" "send_frame W (set_message p msg1) w op src False False ?mk = Some (rf, w1, src1, pf)"
    and m2: "sm_mask msg2 = ?mk" "sm_opcode msg2 = sm_opcode msg" "\<not> False \<longrightarrow> sm_end_len msg2 = None"
    and rf: "case rf of Inl e \<Rightarrow> r = Inl e \<and> p1 = pf \<and> msg1 = msg2
       | Inr n \<Rightarrow> r = Inr (n, p_sending_message p1 = None)
           \<and> p1 = finish_message c_reset (set_message pf msg2) (False \<and> n = length (concat src))"
    unfolding op by blast
  let ?p = "set_message p msg1"
  have "0 < length ?wire" by (simp add: ws_frame_bytes_def length_header_bytes header_size_def Let_def)
  moreover have "can_send ?p" "p_sending_frame ?p = None" using c(1) p(1) by (simp_all add: set_message_def can_send_def)
  ultimately obtain n where n: "invar w1" "n \<le> length ?wire" "out w1 = out w @ take n ?wire"
      "unsent rf src1 = drop (n - length (header_bytes False False op (length (concat src)) ?mk)) (concat src)"
      "pf = frame_progress False False op ?mk (concat src) ?p n"
    using send_frame_turn [OF inv W, of ?p ?wire False False op ?mk "concat src" _ src 0 op False False ?p] current_frame_new [of ?p] src c(2)
    by fastforce
  have same: "p_sending_frame p1 = p_sending_frame pf" "p_deflate p1 = p_deflate pf"
    using rf by (auto simp: finish_message_def set_message_def split: sum.splits)
  then have lt: "n < length ?wire" and pf: "pf = ?p\<lparr>p_sending_frame := Some (new_frame False False op ?mk (length (concat src)) n)\<rparr>"
    using open_frame n(2,5) by (auto simp: frame_progress_def frame_done_def split: if_splits)
  have "p_sending_message p1 = Some msg2" using rf pf by (auto simp: finish_message_def set_message_def split: sum.splits)
  moreover have "map_sum id fst r = rf" using rf by (cases rf) auto
  ultimately show ?thesis using n(1,3,4) lt same [unfolded pf] p(2) m2 by (intro exI [of _ n] exI [of _ msg2]) (simp add: set_message_def)
qed

lemma frame_without_fin_ends:
  fixes p p2 :: "('c, 'i) protocol"
  assumes inv: "invar w" and W: "w_write_vectored W = write_vectored"
    and p: "p_sending_frame p = Some (new_frame False False op mk (length payload) n)" "p_deflate p = None" "p_sending_message p = Some msg"
    and msg: "sm_end_len msg = None" "sm_opcode msg AND 0x08 = 0" "sm_mask msg = mk"
    and n: "n < length (ws_frame_bytes False False op mk payload)"
    and src: "length src \<le> SEND_FRAME_BUFS_MAX" "concat src = drop (n - length (header_bytes False False op (length payload) mk)) payload"
    and call: "send_message_content W dfl c_reset p w src True = Some (Inr (k, True), w2, src2, p2)"
  shows "out w2 = out w @ drop n (ws_frame_bytes False False op mk payload) \<and> p_sending_frame p2 = None \<and> \<not> is_sending_message p2"
proof -
  let ?wire = "ws_frame_bytes False False op mk payload"
  define op' where "op' = (if sm_frame_sent msg then OPCODE_CONTINUATION else sm_opcode msg)"
  from send_message_plain [OF call p(2,3) msg(1,2), unfolded msg(3), folded op'_def] obtain msg1 msg2 rf pf where
    c: "can_send p" "send_frame W (set_message p msg1) w op' src True False mk = Some (rf, w2, src2, pf)"
    and rf: "case rf of Inl e \<Rightarrow> Inr (k, True) = Inl e \<and> p2 = pf \<and> msg1 = msg2
       | Inr n \<Rightarrow> Inr (k, True) = (Inr (n, p_sending_message p2 = None) :: ws_error + nat \<times> bool)
           \<and> p2 = finish_message c_reset (set_message pf msg2) (True \<and> n = length (concat src))"
    by blast
  let ?p = "set_message p msg1"
  have cf: "current_frame ?p op' (length (concat src)) True False mk = Some (Inr (new_frame False False op mk (length payload) n))"
    using p(1) by (simp add: current_frame_def set_message_def)
  have can: "can_send ?p" using c(1) by (simp add: set_message_def can_send_def)
  from send_frame_turn [OF inv W can refl refl src(2,1) n cf refl] c(2) obtain m where
    m: "m \<le> length ?wire" "n \<le> m" "out w2 = out w @ drop n (take m ?wire)" "pf = frame_progress False False op mk payload ?p m" by auto
  have fin: "p_sending_message p2 = None" "\<exists>b. p2 = finish_message c_reset (set_message pf msg2) b"
    using rf by (auto split: sum.splits)
  then have none: "p_sending_frame pf = None" "p_sending_frame p2 = None"
    using finish_message_ends [of c_reset pf msg2] by auto
  with m have "m = length ?wire" by (auto simp: frame_progress_def split: if_splits)
  with m(3) none fin(1) show ?thesis by (simp add: is_sending_message_def)
qed

end

text \<open>
  Property C38. A message can end without a final frame. Let a message be sent without compression over any
  writer, and let a call without \<open>end\<close> leave its frame in progress (partly written, or refused by the
  writer). If the caller then learns that nothing follows and passes the unsent bytes with \<open>end\<close> set, and
  that call reports the message as done, then what has been written is one frame with the FIN bit clear:
  the header had been made before the end was known. The peer takes it for the start of a longer message,
  while the session is ready for the next one.
\<close>

theorem message_ends_without_fin:
  fixes p p1 p2 :: "('c, 'i) protocol"
  assumes "vectored_sink (w_write_vectored W) out invar" "invar w"
    and "p_sending_frame p = None" "p_deflate p = None" "p_sending_message p = Some msg"
    and "sm_end_len msg = None" "sm_opcode msg AND 0x08 = 0" "length src \<le> SEND_FRAME_BUFS_MAX"
    and "send_message_content W dfl c_reset p w src False = Some (r, w1, src1, p1)" "p_sending_frame p1 \<noteq> None"
    and "concat src2 = unsent (map_sum id fst r) src1" "length src2 \<le> SEND_FRAME_BUFS_MAX"
    and "send_message_content W dfl c_reset p1 w1 src2 True = Some (Inr (n, True), w2, src3, p2)"
  shows "out w2 = out w @ ws_frame_bytes False False (if sm_frame_sent msg then OPCODE_CONTINUATION else sm_opcode msg) (sm_mask msg) (concat src)
    \<and> p_sending_frame p2 = None \<and> \<not> is_sending_message p2"
proof -
  let ?op = "if sm_frame_sent msg then OPCODE_CONTINUATION else sm_opcode msg"
  let ?wire = "ws_frame_bytes False False ?op (sm_mask msg) (concat src)"
  from vectored_sink.frame_without_fin [OF assms(1,2) refl assms(3-10) refl] obtain k msg1 where
    k: "invar w1" "k < length ?wire" "out w1 = out w @ take k ?wire"
      "unsent (map_sum id fst r) src1 = drop (k - length (header_bytes False False ?op (length (concat src)) (sm_mask msg))) (concat src)"
      "p_sending_frame p1 = Some (new_frame False False ?op (sm_mask msg) (length (concat src)) k)" "p_deflate p1 = None"
      "p_sending_message p1 = Some msg1"
    and m1: "sm_mask msg1 = sm_mask msg" "sm_end_len msg1 = None" "sm_opcode msg1 = sm_opcode msg" by blast
  have "sm_opcode msg1 AND 0x08 = 0" using m1(3) assms(7) by simp
  from vectored_sink.frame_without_fin_ends [OF assms(1) k(1) refl k(5-7) m1(2) this m1(1) k(2) assms(12) _ assms(13)] assms(11) k(3,4)
  show ?thesis by (simp add: append.assoc [symmetric] del: append.assoc)
qed

text \<open>A writer that takes at most a given number of bytes per write.\<close>

definition portion_writer :: "nat \<Rightarrow> bytes writer" where
  "portion_writer n = \<lparr>w_write = \<lambda>w data. Some (Inr (min n (length data)), w @ take n data),
     w_write_vectored = \<lambda>w bufs. Some (Inr (min n (length (concat bufs))), w @ take n (concat bufs))\<rparr>"

lemma portion_sink: "vectored_sink (w_write_vectored (portion_writer n)) (\<lambda>w. w) (\<lambda>_. True)"
  by unfold_locales (simp add: portion_writer_def min_def)

definition text_message :: sending_message where
  "text_message = \<lparr>sm_opcode = 1, sm_mask = None, sm_frame_sent = False, sm_end_len = None, sm_enc_output_end = False\<rparr>"

definition text_session :: "(unit, unit) protocol" where
  "text_session = plain_session\<lparr>p_sending_message := Some text_message\<rparr>"

definition text_session_open :: "(unit, unit) protocol" where
  "text_session_open = plain_session\<lparr>p_sending_frame := Some \<lparr>sf_opcode = 1, sf_header = [1, 3], sf_payload_size = 3, sf_sent = 4\<rparr>,
     p_sending_message := Some (text_message\<lparr>sm_frame_sent := True\<rparr>)\<rparr>"

lemma text_calls:
  "send_message_content (portion_writer 4) copy_deflate id text_session [] [[97, 98, 99]] False =
    Some (Inr (2, False), [1, 3, 97, 98], [[97, 98, 99]], text_session_open)"
  "send_message_content (portion_writer 4) copy_deflate id text_session_open [1, 3, 97, 98] [[99]] True =
    Some (Inr (1, True), [1, 3, 97, 98, 99], [[99]], plain_session)"
  by code_simp+

theorem message_ends_without_fin_witness:
  "[1, 3, 97, 98, 99] = ws_frame_bytes False False 1 None [97, 98, 99] \<and> \<not> is_sending_message plain_session"
proof -
  have "p_sending_frame text_session = None" "p_deflate text_session = None" "p_sending_message text_session = Some text_message"
    "sm_end_len text_message = None" "sm_opcode text_message AND 0x08 = 0" "p_sending_frame text_session_open \<noteq> None"
    "length [[97, 98, 99 :: u8]] \<le> SEND_FRAME_BUFS_MAX" "length [[99 :: u8]] \<le> SEND_FRAME_BUFS_MAX"
    "\<not> sm_frame_sent text_message" "sm_opcode text_message = 1" "sm_mask text_message = None"
    by code_simp+
  with message_ends_without_fin [OF portion_sink TrueI _ _ _ _ _ _ text_calls(1) _ _ _ text_calls(2)]
  show ?thesis by (simp add: unsent_def)
qed

text \<open>
  Property C39. A control frame that does not fit the caller's room is stuck. Let any control frame that the
  session accepts be complete in the buffer, in one piece, with a payload longer than the room of the call
  (which is not zero). The call returns the first part of the payload. From then on, however much room is
  offered, \<open>recv_message_content\<close> asks for more input as long as the buffer holds fewer bytes than the whole
  payload, although the rest of the payload is there: the check that the control frame is available in its
  entirety compares what is left in the buffer with the size of the whole payload. Only bytes sent after
  this frame can end the wait.
\<close>

theorem control_frame_stalls:
  fixes q0 :: "('c, 'i) protocol"
  assumes "rb_inv rb" "rb_read_buf rb = Some (rb_contents rb)" "rb_contents rb = ws_frame_bytes fin rsv1 opcode mk payload"
    and "p_receiving_frame q0 = None" "can_recv q0" "length payload < 2 ^ 64"
    and "fi = sent_info fin rsv1 opcode mk (length payload)" "check_header q0 fi = Inr m" "mode_ok m"
    and "fi_opcode fi AND 0x08 \<noteq> 0" "0 < room" "room < length payload"
  shows "\<exists>rb1. recv_message_content ifl q0 rb room = Some (Some (Inr (rm_opcode m, take room payload, False)), rb1, in_frame q0 fi m room)
    \<and> rb_inv rb1 \<and> rb_contents rb1 = masked_by mk room (drop room payload)
    \<and> (\<forall>rb2 room'. rb_inv rb2 \<and> length (rb_contents rb2) < length payload \<longrightarrow>
        recv_message_content ifl (in_frame q0 fi m room) rb2 room' = Some (None, rb2, in_frame q0 fi m room))"
proof -
  have fi: "fi_mask fi = mk" "fi_payload_size fi = length payload" by (simp_all add: assms(7) sent_info_def)
  have mode: "rm_compression_mode m = Uncompressed" using assms(9) by (simp add: mode_ok_def)
  from recv_message_header_whole [OF assms(1,2,4-9), of "masked_by mk 0 payload" ifl room] assms(3) obtain rb0 where
    rb0: "rb_inv rb0" "rb_read_buf rb0 = Some (rb_contents rb0)" "rb_contents rb0 = masked_by (fi_mask fi) 0 payload"
      "recv_message_content ifl q0 rb room = recv_message_content ifl (in_frame q0 fi m 0) rb0 room"
    by (auto simp: ws_frame_bytes_def fi)
  have "0 < length payload \<or> length payload = 0 \<and> (0 :: nat) = 0" by simp
  from recv_message_whole [where ifl = ifl and room = room, OF rb0(1,2) this fi(2) rb0(3) _ _ mode assms(5)] assms(12) rb0(4)
  obtain rb1 where "recv_message_content ifl q0 rb room = Some (Some (Inr (rm_opcode m, take room payload, False)), rb1, in_frame q0 fi m room)"
    "rb_inv rb1" "rb_contents rb1 = masked_by mk room (drop room payload)" by (auto simp: fi)
  moreover have "recv_message_content ifl (in_frame q0 fi m room) rb2 room' = Some (None, rb2, in_frame q0 fi m room)"
    if rb2: "rb_inv rb2" "length (rb_contents rb2) < length payload" for rb2 room'
  proof -
    obtain b where b: "rb_read_buf rb2 = Some (take b (rb_contents rb2))" using ring.read_buf_prefix [OF rb2(1)] by blast
    have "length (take b (rb_contents rb2)) < length payload" using rb2(2) by simp
    then have "recv_plain (in_frame q0 fi m room) rb2 fi (m\<lparr>rm_frame_payload_read := room\<rparr>) room' = Some (Inl None, rb2, in_frame q0 fi m room)"
      unfolding recv_plain_def b bind.bind_lunit fi(2) using assms(10) by simp
    then show ?thesis using assms(5) mode by (simp add: recv_message_content_def recv_header_def)
  qed
  ultimately show ?thesis by blast
qed

theorem control_frame_stalls_witness:
  "\<exists>rb1 p1. recv_message_content copy_inflate plain_session \<lparr>rb_buf = [0x89, 2, 5, 6], rb_start = 0, rb_end = 4, rb_tmp_len = 4\<rparr> 1
      = Some (Some (Inr (9, [5], False)), rb1, p1)
    \<and> rb_contents rb1 = [6] \<and> (\<forall>room. recv_message_content copy_inflate p1 rb1 room = Some (None, rb1, p1))"
proof -
  let ?rb = "\<lparr>rb_buf = [0x89, 2, 5, 6 :: u8], rb_start = 0, rb_end = 4, rb_tmp_len = 4\<rparr>"
  let ?fi = "sent_info True False 9 None 2"
  let ?m = "\<lparr>rm_opcode = 9, rm_frame_payload_read = 0, rm_compression_mode = Uncompressed\<rparr>"
  have rb: "rb_inv ?rb" by (simp add: rb_inv_def)
  have b: "rb_read_buf ?rb = Some (rb_contents ?rb)" "rb_contents ?rb = ws_frame_bytes True False 9 None [5, 6]"
    "check_header plain_session ?fi = Inr ?m" "fi_opcode ?fi AND 0x08 \<noteq> 0" "masked_by None 1 (drop 1 [5, 6 :: u8]) = [6]" by code_simp+
  have m: "mode_ok ?m" "?fi = sent_info True False 9 None (length [5, 6 :: u8])" by (simp_all add: mode_ok_def numeral_2_eq_2)
  have n: "length [5, 6 :: u8] < 2 ^ 64" "0 < (1 :: nat)" "1 < length [5, 6 :: u8]" by simp_all
  from control_frame_stalls [where ifl = copy_inflate, OF rb b(1,2) plain_session_simps(3,6) n(1) m(2) b(3) m(1) b(4) n(2,3)] obtain rb1 where
    rb1: "recv_message_content copy_inflate plain_session ?rb 1 = Some (Some (Inr (9, [5], False)), rb1, in_frame plain_session ?fi ?m 1)"
      "rb_inv rb1" "rb_contents rb1 = [6]"
      "\<And>rb2 room. rb_inv rb2 \<Longrightarrow> length (rb_contents rb2) < 2 \<Longrightarrow>
        recv_message_content copy_inflate (in_frame plain_session ?fi ?m 1) rb2 room = Some (None, rb2, in_frame plain_session ?fi ?m 1)"
    by (auto simp: b(5))
  have "length (rb_contents rb1) < 2" unfolding rb1(3) by simp
  from rb1(1,3) rb1(4) [OF rb1(2) this] show ?thesis by blast
qed

end
