(* ===== verification/HttpText.thy ===== *)
theory HttpText
  imports Text
begin

text \<open>
  The header text parsers of \<open>src/core/http1/protocol.rs\<close>: \<open>parse_as_int\<close>, \<open>header_contains_param\<close>, and the
  iterators over the values of a header and their parameters (\<open>HeaderValueIterator\<close>,
  \<open>HeaderParamsIterator\<close>).

  A \<open>&str\<close> is its UTF-8 bytes. Every position at which the code cuts a string is next to an ASCII byte, so
  the cuts fall on character boundaries and do not panic. An iterator is a state and its \<open>next\<close> returns
  the item and the next state.
\<close>

section \<open>String primitives\<close>

text \<open>\<open>str::trim\<close>: the characters of the Unicode property \<open>White_Space\<close>, in UTF-8.\<close>

definition ws_front :: "bytes \<Rightarrow> nat" where
  "ws_front bs =
     (case bs of
        [] \<Rightarrow> 0
      | a # r \<Rightarrow>
          if (9 \<le> a \<and> a \<le> 13) \<or> a = 32 then 1
          else (case r of
             [] \<Rightarrow> 0
           | b # s \<Rightarrow>
               if a = 0xC2 \<and> (b = 0x85 \<or> b = 0xA0) then 2
               else (case s of
                  [] \<Rightarrow> 0
                | c # _ \<Rightarrow>
                    if a = 0xE1 \<and> b = 0x9A \<and> c = 0x80
                     \<or> a = 0xE2 \<and> b = 0x80 \<and> ((0x80 \<le> c \<and> c \<le> 0x8A) \<or> c = 0xA8 \<or> c = 0xA9 \<or> c = 0xAF)
                     \<or> a = 0xE2 \<and> b = 0x81 \<and> c = 0x9F
                     \<or> a = 0xE3 \<and> b = 0x80 \<and> c = 0x80
                    then 3 else 0)))"

definition ws_back :: "bytes \<Rightarrow> nat" where
  "ws_back bs =
     (if ws_front (drop (length bs - 1) bs) = 1 then 1
      else if ws_front (drop (length bs - 2) bs) = 2 then 2
      else if ws_front (drop (length bs - 3) bs) = 3 then 3 else 0)"

lemma ws_front_le: "ws_front bs \<le> length bs"
  by (auto simp: ws_front_def split: list.splits)

function trim_start :: "bytes \<Rightarrow> bytes" where
  "trim_start bs = (if ws_front bs = 0 then bs else trim_start (drop (ws_front bs) bs))"
  by pat_completeness auto
termination
  by (relation "measure length") (auto simp: ws_front_def split: list.splits)

lemma ws_back_nonempty: "ws_back bs \<noteq> 0 \<Longrightarrow> bs \<noteq> []"
  by (auto simp: ws_back_def ws_front_def)

function trim_end :: "bytes \<Rightarrow> bytes" where
  "trim_end bs = (if ws_back bs = 0 then bs else trim_end (take (length bs - ws_back bs) bs))"
  by pat_completeness auto
termination
  by (relation "measure length") (simp_all add: ws_back_nonempty)

declare trim_start.simps [simp del] trim_end.simps [simp del]

definition trim :: "bytes \<Rightarrow> bytes" where
  "trim bs = trim_end (trim_start bs)"

definition to_ascii_lower :: "u8 \<Rightarrow> u8" where
  "to_ascii_lower c = (if 65 \<le> c \<and> c \<le> 90 then c + 32 else c)"

definition eq_ignore_ascii_case :: "bytes \<Rightarrow> bytes \<Rightarrow> bool" where
  "eq_ignore_ascii_case a b \<longleftrightarrow> map to_ascii_lower a = map to_ascii_lower b"

definition is_ascii_whitespace :: "u8 \<Rightarrow> bool" where
  "is_ascii_whitespace c \<longleftrightarrow> c = 9 \<or> c = 10 \<or> c = 12 \<or> c = 13 \<or> c = 32"

text \<open>\<open>slice::split\<close> at a byte.\<close>

fun split_bytes :: "u8 \<Rightarrow> bytes \<Rightarrow> bytes list" where
  "split_bytes d [] = [[]]"
| "split_bytes d (b # bs) =
     (if b = d then [] # split_bytes d bs
      else (case split_bytes d bs of p # ps \<Rightarrow> (b # p) # ps | [] \<Rightarrow> [[b]]))"

section \<open>Headers\<close>

record header =
  h_name :: bytes
  h_value :: bytes

datatype body_size = NoBody | Known nat | Unknown

definition named :: "header \<Rightarrow> string \<Rightarrow> bool" where
  "named h n = eq_ignore_ascii_case (h_name h) (str n)"

definition hdr :: "string \<Rightarrow> bytes \<Rightarrow> header" where
  "hdr n v = \<lparr>h_name = str n, h_value = v\<rparr>"

section \<open>The parsers\<close>

definition parse_as_int :: "bytes \<Rightarrow> io_error + nat" where
  "parse_as_int src =
     (if \<not> utf8_valid src then Inl InvalidData
      else case parse_usize src of None \<Rightarrow> Inl InvalidData | Some x \<Rightarrow> Inr x)"

definition header_contains_param :: "bytes \<Rightarrow> bytes \<Rightarrow> bool \<Rightarrow> bool" where
  "header_contains_param value param ignore_case \<longleftrightarrow>
     utf8_valid param \<and>
     list_ex (\<lambda>part. utf8_valid part \<and>
        (if ignore_case then eq_ignore_ascii_case (trim part) param else trim part = param))
       (split_bytes (chr CHR '','') value)"

fun find_one_of :: "nat \<Rightarrow> bytes \<Rightarrow> bytes \<Rightarrow> (nat \<times> u8) option" where
  "find_one_of pos [] vals = None"
| "find_one_of pos (c # s) vals = (if c \<in> set vals then Some (pos, c) else find_one_of (Suc pos) s vals)"

fun find_non_space :: "nat \<Rightarrow> bytes \<Rightarrow> nat option" where
  "find_non_space pos [] = None"
| "find_non_space pos (c # s) = (if \<not> is_ascii_whitespace c then Some pos else find_non_space (Suc pos) s)"

definition parse_quoted :: "bytes \<Rightarrow> io_error + bytes \<times> bytes" where
  "parse_quoted s =
     (case find_one_of 0 s [chr CHR 0x22] of
        Some (pos, _) \<Rightarrow> Inr (take pos s, drop (pos + 1) s)
      | None \<Rightarrow> Inl InvalidData)"

definition parse_param_value :: "bytes \<Rightarrow> io_error + bytes \<times> bytes" where
  "parse_param_value s =
     (case find_non_space 0 s of
        None \<Rightarrow> Inr ([], [])
      | Some pos \<Rightarrow>
          let s = drop pos s in
          if hd s = chr CHR 0x22 then
            (case parse_quoted (tl s) of
               Inl e \<Rightarrow> Inl e
             | Inr (v, remainder) \<Rightarrow>
                 Inr (v, case find_non_space 0 remainder of Some pos \<Rightarrow> drop pos remainder | None \<Rightarrow> []))
          else
            (case find_one_of 0 s (str '';,'') of
               Some (pos, _) \<Rightarrow> Inr (trim (take pos s), drop pos s)
             | None \<Rightarrow> Inr (trim s, [])))"

section \<open>The parameter iterator\<close>

record params_iter =
  hp_s :: bytes
  hp_done :: bool

definition params_new :: "bytes \<Rightarrow> params_iter" where
  "params_new s = \<lparr>hp_s = s, hp_done = False\<rparr>"

definition params_empty :: params_iter where
  "params_empty = \<lparr>hp_s = [], hp_done = True\<rparr>"

text \<open>What follows a value: the rest of the parameters, or the end of them.\<close>

definition after_value :: "bytes \<Rightarrow> io_error + bytes \<times> bool" where
  "after_value remainder =
     (case remainder of
        [] \<Rightarrow> Inr ([], True)
      | c # r \<Rightarrow>
          if c = chr CHR '';'' then Inr (r, False)
          else if c = chr CHR '','' then Inr (remainder, True)
          else Inl InvalidData)"

text \<open>The key, the value, the remainder and whether the iterator is done.\<close>

definition params_split :: "bytes \<Rightarrow> (io_error + bytes \<times> bytes \<times> bytes \<times> bool) run" where
  "params_split s =
     (case find_one_of 0 s (str ''=;,'') of
        Some (pos, c) \<Rightarrow>
          if c = chr CHR ''='' then
            Some (case parse_param_value (drop (pos + 1) s) of
               Inl e \<Rightarrow> Inl e
             | Inr (v, remainder) \<Rightarrow>
                 (case after_value remainder of
                    Inl e \<Rightarrow> Inl e
                  | Inr (remainder, fin) \<Rightarrow> Inr (take pos s, v, remainder, fin)))
          else if c = chr CHR '';'' then Some (Inr (take pos s, [], drop (pos + 1) s, False))
          else if c = chr CHR '','' then Some (Inr (take pos s, [], drop pos s, True))
          else panic
      | None \<Rightarrow> Some (Inr (s, [], [], True)))"

definition params_next :: "params_iter \<Rightarrow> ((io_error + bytes \<times> bytes) option \<times> params_iter) run" where
  "params_next it =
     (if hp_done it then Some (None, it)
      else do {
        r \<leftarrow> params_split (hp_s it);
        case r of
          Inl e \<Rightarrow> Some (Some (Inl e), it)
        | Inr (k, v, remainder, fin) \<Rightarrow>
            let k = trim k in
            if k = [] then Some (Some (Inl InvalidData), it)
            else Some (Some (Inr (k, v)), \<lparr>hp_s = remainder, hp_done = fin\<rparr>)
      })"

section \<open>The value iterator\<close>

text \<open>The loop that drives a parameter iterator to its end, up to the first error.\<close>

partial_function (option) drive_params :: "params_iter \<Rightarrow> ((io_error + bytes) option)" where
  "drive_params it = do {
     (item, it) \<leftarrow> params_next it;
     case item of
       None \<Rightarrow> Some (Inr (hp_s it))
     | Some (Inl e) \<Rightarrow> Some (Inl e)
     | Some (Inr _) \<Rightarrow> drive_params it
   }"

declare drive_params.simps [code]

record value_iter =
  hv_s :: bytes
  hv_done :: bool

definition value_next :: "value_iter \<Rightarrow> ((io_error + bytes \<times> params_iter) option \<times> value_iter) run" where
  "value_next it =
     (if hv_done it then Some (None, it)
      else do {
        r \<leftarrow>
          (case find_one_of 0 (hv_s it) (str '';,'') of
             Some (pos, c) \<Rightarrow>
               if c = chr CHR '';'' then do {
                 let params = params_new (drop (pos + 1) (hv_s it));
                 d \<leftarrow> drive_params params;
                 case d of
                   Inl e \<Rightarrow> Some (Inl e)
                 | Inr s \<Rightarrow> do {
                     (remainder, fin) \<leftarrow>
                       (if s \<noteq> [] \<and> hd s = chr CHR '','' then Some (tl s, False)
                        else if s = [] then Some ([], True)
                        else panic);
                     Some (Inr (take pos (hv_s it), params, remainder, fin))
                   }
               }
               else if c = chr CHR '','' then Some (Inr (take pos (hv_s it), params_empty, drop (pos + 1) (hv_s it), False))
               else panic
           | None \<Rightarrow> Some (Inr (hv_s it, params_empty, [], True)));
        case r of
          Inl e \<Rightarrow> Some (Some (Inl e), it)
        | Inr (first_part, params, remainder, fin) \<Rightarrow>
            let first_part = trim first_part in
            if first_part = [] then Some (Some (Inl InvalidData), it)
            else Some (Some (Inr (first_part, params)), \<lparr>hv_s = remainder, hv_done = fin\<rparr>)
      })"

definition parse_header_value :: "bytes \<Rightarrow> value_iter" where
  "parse_header_value s = (if utf8_valid s then \<lparr>hv_s = s, hv_done = False\<rparr> else \<lparr>hv_s = [], hv_done = False\<rparr>)"

section \<open>Search lemmas\<close>

lemma find_one_of_Some:
  "find_one_of p s vals = Some (q, c) \<Longrightarrow> \<exists>i < length s. q = p + i \<and> s ! i = c \<and> c \<in> set vals"
proof (induction p s vals rule: find_one_of.induct)
  case (2 pos d s vals)
  show ?case
  proof (cases "d \<in> set vals")
    case False
    then obtain i where "i < length s" "q = Suc pos + i" "s ! i = c" "c \<in> set vals" using 2 by auto
    then show ?thesis by (intro exI [of _ "Suc i"]) simp
  qed (use 2 in auto)
qed simp

lemma find_one_of_0: "find_one_of 0 s vals = Some (q, c) \<Longrightarrow> q < length s \<and> s ! q = c \<and> c \<in> set vals"
  by (auto dest: find_one_of_Some)

lemma find_one_of_app:
  "\<forall>b \<in> set a. b \<notin> set vals \<Longrightarrow> find_one_of p (a @ r) vals = find_one_of (p + length a) r vals"
  by (induction a arbitrary: p) auto

lemma find_one_of_none: "\<forall>b \<in> set a. b \<notin> set vals \<Longrightarrow> find_one_of p a vals = None"
  using find_one_of_app [of a vals p "[]"] by simp

lemma find_non_space_bound: "find_non_space p s = Some q \<Longrightarrow> p \<le> q \<and> q - p < length s"
  by (induction p s rule: find_non_space.induct) (force split: if_splits)+


section \<open>Trimming\<close>

text \<open>Visible ASCII, and the tokens of the grammar: visible ASCII with no separator in it.\<close>

definition visible :: "u8 \<Rightarrow> bool" where
  "visible b \<longleftrightarrow> 33 \<le> b \<and> b < 127"

definition token :: "bytes \<Rightarrow> bool" where
  "token bs \<longleftrightarrow> bs \<noteq> [] \<and> (\<forall>b \<in> set bs. visible b \<and> b \<notin> set (str ''=;,'') \<and> b \<noteq> chr CHR 0x22)"

lemma visible_no_space:
  "visible b \<Longrightarrow> \<not> (9 \<le> b \<and> b \<le> 13) \<and> b \<noteq> 32 \<and> b \<noteq> 0xC2 \<and> b \<noteq> 0xE1 \<and> b \<noteq> 0xE2 \<and> b \<noteq> 0xE3"
  unfolding visible_def word_le_nat_alt word_less_nat_alt by (auto simp: unsigned_numeral)

lemma ws_front_visible: "\<forall>b \<in> set bs. visible b \<Longrightarrow> ws_front bs = 0"
  by (cases bs) (use visible_no_space in \<open>auto simp: ws_front_def split: list.split\<close>)

lemma trim_start_visible: "\<forall>b \<in> set bs. visible b \<Longrightarrow> trim_start bs = bs"
  by (subst trim_start.simps) (simp add: ws_front_visible)

lemma trim_end_visible: "\<forall>b \<in> set bs. visible b \<Longrightarrow> trim_end bs = bs"
  by (subst trim_end.simps) (simp add: ws_back_def ws_front_visible in_set_dropD)

lemma trim_visible: "\<forall>b \<in> set bs. visible b \<Longrightarrow> trim bs = bs"
  by (simp add: trim_def trim_start_visible trim_end_visible)

lemma trim_space: "\<forall>b \<in> set bs. visible b \<Longrightarrow> trim (32 # bs) = bs"
  unfolding trim_def
  by (subst trim_start.simps) (simp add: ws_front_def trim_start_visible trim_end_visible)

section \<open>The iterators return\<close>

lemma after_value_shape:
  "after_value r = Inr (s, fin) \<Longrightarrow> if fin then s = [] \<or> hd s = chr CHR '','' else length s < length r"
  by (auto simp: after_value_def split: list.splits if_splits)

lemma parse_param_value_shorter: "parse_param_value s = Inr (v, r) \<Longrightarrow> length r \<le> length s"
  by (auto simp: parse_param_value_def parse_quoted_def Let_def split: option.splits if_splits sum.splits)

text \<open>What one step of the parameters leaves: the end (nothing, or the comma of the next value), or a strictly shorter text.\<close>

lemma params_split_total: "\<exists>r. params_split s = Some r"
  by (auto simp: params_split_def dest!: find_one_of_0 split: option.splits)

lemma params_split_shape:
  assumes "params_split s = Some (Inr (k, v, r, fin))"
  shows "if fin then r = [] \<or> hd r = chr CHR '','' else length r < length s"
proof (cases "find_one_of 0 s (str ''=;,'')")
  case None
  then show ?thesis using assms by (simp add: params_split_def)
next
  case (Some x)
  obtain pos c where x: "x = (pos, c)" by force
  have c: "pos < length s" "s ! pos = c" using find_one_of_0 Some x by auto
  show ?thesis
    using assms Some x c after_value_shape parse_param_value_shorter [of "drop (pos + 1) s"]
    by (auto simp: params_split_def hd_drop_conv_nth split: if_splits sum.splits) fastforce+
qed

section \<open>Collecting an iterator\<close>

text \<open>
  The items of a fallible iterator up to its end or its first error, as every caller consumes it; after an
  error the iterators here do not advance.
\<close>

partial_function (option) iter_items ::
    "('s \<Rightarrow> ((io_error + 'a) option \<times> 's) option) \<Rightarrow> 's \<Rightarrow> (io_error + 'a) list option" where
  "iter_items next it = do {
     (item, it) \<leftarrow> next it;
     case item of
       None \<Rightarrow> Some []
     | Some (Inl e) \<Rightarrow> Some [Inl e]
     | Some (Inr x) \<Rightarrow> do { xs \<leftarrow> iter_items next it; Some (Inr x # xs) }
   }"

declare iter_items.simps [code]

lemma iter_items_step:
  "next it = Some (None, it') \<Longrightarrow> iter_items next it = Some []"
  "next it = Some (Some (Inr x), it') \<Longrightarrow> iter_items next it = map_option ((#) (Inr x)) (iter_items next it')"
  by (subst iter_items.simps; simp add: map_option_case split: option.split)+

locale finite_iterator =
  fixes step :: "'s \<Rightarrow> ((io_error + 'a) option \<times> 's) option"
    and good :: "'s \<Rightarrow> bool"
    and room :: "'s \<Rightarrow> nat"
  assumes step_total: "good it \<Longrightarrow> \<exists>r. step it = Some r"
    and step_shrinks: "good it \<Longrightarrow> step it = Some (Some (Inr x), it') \<Longrightarrow> good it' \<and> room it' < room it"
begin

lemma collect_total: "good it \<Longrightarrow> \<exists>xs. iter_items step it = Some xs \<and> length xs \<le> Suc (room it)"
proof (induction "room it" arbitrary: it rule: less_induct)
  case less
  obtain item it' where step: "step it = Some (item, it')" using step_total [OF less.prems] by auto
  show ?case
  proof (cases "\<exists>x. item = Some (Inr x)")
    case True
    then obtain x where x: "item = Some (Inr x)" by blast
    have it': "good it'" "room it' < room it" using step_shrinks [OF less.prems] step x by auto
    obtain xs where "iter_items step it' = Some xs" "length xs \<le> Suc (room it')"
      using less.hyps [OF it'(2,1)] by blast
    then show ?thesis using step x it' by (subst iter_items.simps) simp
  next
    case False
    then show ?thesis using step by (subst iter_items.simps) (auto split: option.splits sum.splits)
  qed
qed

lemma iter_items_all:
  assumes q: "\<And>it x it'. step it = Some (Some (Inr x), it') \<Longrightarrow> Q x"
  shows "good it \<Longrightarrow> iter_items step it = Some xs \<Longrightarrow> Inr x \<in> set xs \<Longrightarrow> Q x"
proof (induction "room it" arbitrary: it xs rule: less_induct)
  case less
  obtain item it' where step: "step it = Some (item, it')" using step_total [OF less.prems(1)] by auto
  then obtain y ys where y: "item = Some (Inr y)" "iter_items step it' = Some ys" "xs = Inr y # ys"
    using less.prems(2,3) by (subst (asm) iter_items.simps) (auto split: option.splits sum.splits Option.bind_splits)
  then have "good it'" "room it' < room it" using step_shrinks [OF less.prems(1)] step by auto
  then show ?case using less.hyps [of it' ys] y less.prems(3) q step by auto
qed

end

definition params_room :: "params_iter \<Rightarrow> nat" where
  "params_room it = (if hp_done it then 0 else Suc (length (hp_s it)))"

text \<open>A finished parameter iterator has nothing left or stands at the comma of the next value.\<close>

definition params_good :: "params_iter \<Rightarrow> bool" where
  "params_good it \<longleftrightarrow> (hp_done it \<longrightarrow> hp_s it = [] \<or> hd (hp_s it) = chr CHR '','')"

lemma params_good_new [simp]: "params_good (params_new s)" "params_good params_empty"
  by (simp_all add: params_good_def params_new_def params_empty_def)

interpretation params_it: finite_iterator params_next params_good params_room
proof unfold_locales
  fix it :: params_iter
  show "\<exists>r. params_next it = Some r"
    using params_split_total [of "hp_s it"] by (auto simp: params_next_def Let_def split: sum.split)
next
  fix it it' x assume "params_next it = Some (Some (Inr x), it')"
  then show "params_good it' \<and> params_room it' < params_room it"
    using params_split_shape [of "hp_s it"]
    by (auto simp: params_next_def params_good_def params_room_def Let_def
        split: if_splits sum.splits Option.bind_splits)
qed

lemma after_value_le: "after_value r = Inr (s, fin) \<Longrightarrow> length s \<le> length r"
  by (auto simp: after_value_def split: list.splits if_splits)

lemma params_split_le: "params_split s = Some (Inr (k, v, r, fin)) \<Longrightarrow> length r \<le> length s"
  using after_value_le parse_param_value_shorter
  by (fastforce simp: params_split_def split: option.splits if_splits sum.splits)

lemma params_next_le: "params_next it = Some (item, it') \<Longrightarrow> length (hp_s it') \<le> length (hp_s it)"
  using params_split_le [of "hp_s it"]
  by (auto simp: params_next_def Let_def split: if_splits sum.splits Option.bind_splits)

lemma drive_params_step:
  "params_next it = Some (None, it') \<Longrightarrow> drive_params it = Some (Inr (hp_s it'))"
  "params_next it = Some (Some (Inr x), it') \<Longrightarrow> drive_params it = drive_params it'"
  by (subst drive_params.simps; simp)+

lemma drive_params_total:
  "params_good it \<Longrightarrow> \<exists>r. drive_params it = Some r \<and>
     (\<forall>s. r = Inr s \<longrightarrow> (s = [] \<or> hd s = chr CHR '','') \<and> length s \<le> length (hp_s it))"
proof (induction "params_room it" arbitrary: it rule: less_induct)
  case less
  obtain item it' where step: "params_next it = Some (item, it')"
    using params_it.step_total [OF less.prems] by auto
  show ?case
  proof (cases item)
    case None
    then have "hp_done it \<and> it' = it" using step
      by (auto simp: params_next_def Let_def split: if_splits sum.splits Option.bind_splits)
    then show ?thesis using None step less.prems by (subst drive_params.simps) (simp add: params_good_def)
  next
    case (Some r)
    then show ?thesis using step less.hyps [of it'] params_next_le [OF step] params_it.step_shrinks [OF less.prems]
      by (subst drive_params.simps) (cases r; fastforce)
  qed
qed

definition value_room :: "value_iter \<Rightarrow> nat" where
  "value_room it = (if hv_done it then 0 else Suc (length (hv_s it)))"


lemma value_next_total: "\<exists>r. value_next it = Some r"
proof (cases "find_one_of 0 (hv_s it) (str '';,'')")
  case (Some x)
  obtain pos c where x: "x = (pos, c)" by force
  then have c: "c = chr CHR '';'' \<or> c = chr CHR '',''" using find_one_of_0 Some by fastforce
  obtain d where "drive_params (params_new (drop (pos + 1) (hv_s it))) = Some d"
      "\<forall>s. d = Inr s \<longrightarrow> s = [] \<or> hd s = chr CHR '',''"
    using drive_params_total [of "params_new (drop (pos + 1) (hv_s it))"] by auto
  then show ?thesis using Some x c
    by (auto simp: value_next_def Let_def split: sum.splits)
qed (simp add: value_next_def Let_def)

lemma value_next_shrinks:
  assumes "value_next it = Some (Some (Inr x), it')"
  shows "value_room it' < value_room it"
proof (cases "find_one_of 0 (hv_s it) (str '';,'')")
  case None
  then show ?thesis using assms
    by (auto simp: value_next_def value_room_def Let_def split: if_splits sum.splits)
next
  case (Some y)
  obtain pos c where y: "y = (pos, c)" by force
  then have c: "pos < length (hv_s it)" using find_one_of_0 Some by fastforce
  have "\<forall>s. drive_params (params_new (drop (pos + 1) (hv_s it))) = Some (Inr s) \<longrightarrow> length s < length (hv_s it)"
    using drive_params_total [OF params_good_new(1), of "drop (pos + 1) (hv_s it)"] c
    by (auto simp: params_new_def) arith
  then show ?thesis using assms Some y c
    by (fastforce simp: value_next_def value_room_def Let_def split: if_splits sum.splits Option.bind_splits)
qed

interpretation value_it: finite_iterator value_next "\<lambda>_. True" value_room
  by unfold_locales (rule value_next_total, simp add: value_next_shrinks)

lemma drive_params_items: "params_good it \<Longrightarrow> drive_params it = Some (Inr s) \<Longrightarrow> \<exists>ps. iter_items params_next it = Some (map Inr ps)"
proof (induction "params_room it" arbitrary: it rule: less_induct)
  case less
  obtain item it' where step: "params_next it = Some (item, it')"
    using params_it.step_total [OF less.prems(1)] by auto
  show ?case
  proof (cases item)
    case None
    then show ?thesis using step by (subst iter_items.simps) simp
  next
    case (Some r)
    then obtain x where x: "r = Inr x" and d: "drive_params it' = Some (Inr s)"
      using step less.prems(2) by (subst (asm) drive_params.simps) (auto split: sum.splits)
    then have "params_good it'" "params_room it' < params_room it"
      using params_it.step_shrinks [OF less.prems(1)] step Some by auto
    then obtain ps where "iter_items params_next it' = Some (map Inr ps)" using less.hyps d by blast
    then show ?thesis using step Some x
      by (subst iter_items.simps) (auto intro: exI [of _ "x # ps"])
  qed
qed

lemma value_next_item:
  assumes "value_next it = Some (Some (Inr (name, params)), it')"
  shows "name \<noteq> [] \<and> (\<exists>ps. iter_items params_next params = Some (map Inr ps))"
proof -
  have e: "iter_items params_next params_empty = Some (map Inr [])"
    by (subst iter_items.simps) (simp add: params_next_def params_empty_def)
  show ?thesis
    using assms e drive_params_items [OF params_good_new(1)]
    by (fastforce simp: value_next_def Let_def split: if_splits sum.splits Option.bind_splits option.splits)
qed



lemma header_item_ok:
  assumes "iter_items value_next it = Some xs" and "Inr (name, params) \<in> set xs"
  shows "name \<noteq> [] \<and> (\<exists>ps. iter_items params_next params = Some (map Inr ps))"
  using value_it.iter_items_all
      [where Q = "\<lambda>(name, params). name \<noteq> [] \<and> (\<exists>ps. iter_items params_next params = Some (map Inr ps))",
       OF _ TrueI assms]
    value_next_item by auto

text \<open>
  Property C19. For every byte string as header value, the iteration of its values ends after at most
  two more items than it has bytes, never reaches an \<open>unreachable!\<close>, and the parameters of every value it
  returns are themselves iterated to the end without an error, the name not being empty.
\<close>

theorem header_value_items:
  "\<exists>xs. iter_items value_next (parse_header_value s) = Some xs \<and> length xs \<le> length s + 2 \<and>
     (\<forall>name params. Inr (name, params) \<in> set xs \<longrightarrow>
        name \<noteq> [] \<and> (\<exists>ps. iter_items params_next params = Some (map Inr ps)))"
proof -
  obtain xs where xs: "iter_items value_next (parse_header_value s) = Some xs"
      "length xs \<le> Suc (value_room (parse_header_value s))"
    using value_it.collect_total [of "parse_header_value s"] by auto
  moreover have "value_room (parse_header_value s) \<le> Suc (length s)"
    by (simp add: value_room_def parse_header_value_def)
  ultimately show ?thesis
    using header_item_ok by (intro exI [of _ xs]) auto
qed

theorem header_value_items_witness:
  "\<exists>xs. iter_items value_next (parse_header_value (str ''a; b=1, c'')) = Some xs \<and> length xs = 2 \<and>
     (\<forall>name params. Inr (name, params) \<in> set xs \<longrightarrow> name \<noteq> [])"
proof -
  have "map_option length (iter_items value_next (parse_header_value (str ''a; b=1, c''))) = Some 2"
    by code_simp
  then show ?thesis using header_value_items [of "str ''a; b=1, c''"] by fastforce
qed

section \<open>Reading printed parameters\<close>

lemma token_visible: "token bs \<Longrightarrow> \<forall>b \<in> set bs. visible b"
  by (simp add: token_def)

lemma token_no_sep: "token bs \<Longrightarrow> \<forall>b \<in> set bs. b \<notin> set (str ''=;,'')" "token bs \<Longrightarrow> \<forall>b \<in> set bs. b \<notin> set (str '';,'')"
  by (auto simp: token_def)

lemma visible_not_whitespace: "visible b \<Longrightarrow> \<not> is_ascii_whitespace b"
  using visible_no_space by (auto simp: is_ascii_whitespace_def visible_def)

lemma find_sep_token:
  assumes "token k" and "t = [] \<or> hd t \<in> set vals" and "vals = str ''=;,'' \<or> vals = str '';,''"
  shows "find_one_of p (k @ t) vals = (if t = [] then None else Some (p + length k, hd t))"
    and "find_one_of p (32 # k @ t) vals = (if t = [] then None else Some (Suc (p + length k), hd t))"
proof -
  have k: "\<forall>b \<in> set k. b \<notin> set vals" using assms(1,3) token_no_sep by blast
  moreover have "32 \<notin> set vals" using assms(3) by (auto simp: chr_def)
  moreover have "find_one_of q t vals = (if t = [] then None else Some (q, hd t))" for q
    using assms(2) by (cases t) auto
  ultimately show "find_one_of p (k @ t) vals = (if t = [] then None else Some (p + length k, hd t))"
    and "find_one_of p (32 # k @ t) vals = (if t = [] then None else Some (Suc (p + length k), hd t))"
    by (simp_all only: find_one_of_app find_one_of.simps if_False add_Suc)
qed

lemma parse_param_value_token:
  assumes "token v" and "t = [] \<or> hd t \<in> set (str '';,'')"
  shows "parse_param_value (v @ t) = Inr (v, t)"
proof -
  obtain b v' where v: "v = b # v'" using assms(1) by (auto simp: token_def neq_Nil_conv)
  have "find_non_space 0 (v @ t) = Some 0"
    using assms(1) v visible_not_whitespace by (simp add: token_def)
  moreover have "hd (v @ t) \<noteq> chr CHR 0x22" using assms(1) v by (simp add: token_def)
  ultimately show ?thesis
    using find_sep_token(1) [OF assms, of 0] trim_visible [OF token_visible, OF assms(1)]
    by (simp add: parse_param_value_def)
qed

text \<open>One printed parameter, with the rest of the parameters after it or the end.\<close>

definition param_suffix :: "bytes \<Rightarrow> bytes" where
  "param_suffix v = (if v = [] then [] else chr CHR ''='' # v)"

lemma params_next_printed:
  assumes k: "token k" and v: "v = [] \<or> token v" and t: "t = [] \<or> hd t = chr CHR '';''"
  shows "params_next \<lparr>hp_s = 32 # k @ param_suffix v @ t, hp_done = False\<rparr> =
    Some (Some (Inr (k, v)), \<lparr>hp_s = tl t, hp_done = (t = [])\<rparr>)"
proof -
  have k': "trim (32 # k) = k" "k \<noteq> []" using k trim_space token_visible by (auto simp: token_def)
  have "params_split (32 # k @ param_suffix v @ t) = Some (Inr (32 # k, v, tl t, t = []))"
  proof (cases "v = []")
    case True
    then show ?thesis using find_sep_token(2) [OF k, of t "str ''=;,''" 0] t
      by (cases t) (auto simp: params_split_def param_suffix_def chr_def)
  next
    case False
    have "after_value t = Inr (tl t, t = [])" using t by (cases t) (auto simp: after_value_def)
    then show ?thesis
      using False find_sep_token(2) [OF k, of "chr CHR ''='' # v @ t" "str ''=;,''" 0]
        parse_param_value_token [of v t] v t
      by (auto simp: params_split_def param_suffix_def)
  qed
  then show ?thesis using k' by (simp add: params_next_def)
qed

end
