(* ===== verification/WsHandshake.thy ===== *)
theory WsHandshake
  imports HttpText WsFrame
begin

text \<open>
  The WebSocket opening handshake of \<open>src/connmgr/connection.rs\<close>: the accept key, the extension header, the
  headers a client connection sends (\<open>client_stream_handler\<close>), how a server connection reads them
  (\<open>server_stream_process_req_header\<close>) and what it answers (\<open>server_stream_respond\<close>), and how the client
  connection reads the answer.

  The header lists are what the HTTP layer carries between the two. SHA-1 and Base64 are crates and are
  parameters; \<open>digest_text\<close> states what the code relies on. The log output and the packet sent to
  the handler are not part of these definitions.
\<close>

section \<open>Data\<close>

text \<open>\<open>Error\<close>; the payloads that only reach the log are dropped.\<close>

datatype conn_error = ConnIo io_error | Utf8 | CoreHttp | WebSocketError | ReqModeWebSocket | InvalidWebSocketRequest
  | InvalidWebSocketResponse | WebSocketRejectionTooLarge nat | Compression | BadMessage | Handler | HandlerCancel
  | BufferExceeded | BadFrame | BadRequest | Tls | PolicyViolation | TooManyRedirects | ValueActive | StreamTimeout
  | SessionTimeout | Stopped

definition HEADERS_MAX :: nat where "HEADERS_MAX = 64"
definition WS_HASH_INPUT_MAX :: nat where "WS_HASH_INPUT_MAX = 256"
definition WS_ACCEPT_MAX :: nat where "WS_ACCEPT_MAX = 28"
definition WS_EXT_MAX :: nat where "WS_EXT_MAX = 512"
definition WS_GUID :: bytes where "WS_GUID = str ''258EAFA5-E914-47DA-95CA-C5AB0DC85B11''"

section \<open>The accept key\<close>

text \<open>\<open>sha1\<close> is the digest, \<open>base64\<close> its text; the output array has \<open>WS_ACCEPT_MAX\<close> bytes.\<close>

definition calculate_ws_accept :: "(bytes \<Rightarrow> bytes) \<Rightarrow> (bytes \<Rightarrow> bytes) \<Rightarrow> bytes \<Rightarrow> (unit + bytes) run" where
  "calculate_ws_accept sha1 base64 key =
     (let input_len = length key + length WS_GUID in
      if input_len > WS_HASH_INPUT_MAX then Some (Inl ())
      else do {
        let output = base64 (sha1 (key @ WS_GUID));
        assert_that (length output \<le> WS_ACCEPT_MAX);
        Some (if utf8_valid output then Inr output else Inl ())
      })"

definition digest_text :: "(bytes \<Rightarrow> bytes) \<Rightarrow> (bytes \<Rightarrow> bytes) \<Rightarrow> bool" where
  "digest_text sha1 base64 \<longleftrightarrow>
     (\<forall>x. length (base64 (sha1 x)) = 28 \<and> (\<forall>b \<in> set (base64 (sha1 x)). unat b < 128))"

definition validate_ws_request ::
    "(bytes \<Rightarrow> bytes) \<Rightarrow> (bytes \<Rightarrow> bytes) \<Rightarrow> bytes \<Rightarrow> body_size \<Rightarrow> bytes option \<Rightarrow> bytes option \<Rightarrow> (unit + bytes) run" where
  "validate_ws_request sha1 base64 req_method bsize ws_version ws_key =
     (if req_method = str ''GET'' \<and> (bsize = NoBody \<or> bsize = Known 0) \<and> ws_version = Some (str ''13'') then
        (case ws_key of Some k \<Rightarrow> calculate_ws_accept sha1 base64 k | None \<Rightarrow> Some (Inl ()))
      else Some (Inl ()))"

definition validate_ws_response ::
    "(bytes \<Rightarrow> bytes) \<Rightarrow> (bytes \<Rightarrow> bytes) \<Rightarrow> bytes \<Rightarrow> bytes option \<Rightarrow> (unit + unit) run" where
  "validate_ws_response sha1 base64 ws_key ws_accept =
     (case ws_accept of
        None \<Rightarrow> Some (Inl ())
      | Some a \<Rightarrow> do {
          r \<leftarrow> calculate_ws_accept sha1 base64 ws_key;
          Some (case r of Inl e \<Rightarrow> Inl e | Inr x \<Rightarrow> if x = a then Inr () else Inl ())
        })"

section \<open>The extension header\<close>

text \<open>The destination is an array of \<open>cap\<close> bytes: a write past its end is an error.\<close>

definition write_ws_ext_header_value :: "nat \<Rightarrow> deflate_config \<Rightarrow> io_error + bytes" where
  "write_ws_ext_header_value cap config =
     (let text = str ''permessage-deflate'' @ config_serialize config in
      if length text \<le> cap then Inr text else Inl WriteZero)"

type_synonym ws_deflate = "(deflate_config \<times> nat) option"

text \<open>The server's loop over the values of one header: the first offer it can answer.\<close>

fun server_ext_loop ::
    "bool \<Rightarrow> nat \<Rightarrow> (io_error + bytes \<times> params_iter) list \<Rightarrow> ws_deflate \<Rightarrow> (conn_error + ws_deflate) run" where
  "server_ext_loop allow recv_buf_size [] cfg = Some (Inr cfg)"
| "server_ext_loop allow recv_buf_size (Inl e # vs) cfg = Some (Inl InvalidWebSocketRequest)"
| "server_ext_loop allow recv_buf_size (Inr (name, params) # vs) cfg =
     (if name = str ''permessage-deflate'' \<and> allow \<and> cfg = None then do {
        ps \<leftarrow> iter_items params_next params;
        server_ext_loop allow recv_buf_size vs
          (case from_params ps of
             Inl _ \<Rightarrow> cfg
           | Inr config \<Rightarrow>
               (case create_response config of
                  Inl _ \<Rightarrow> cfg
                | Inr resp_config \<Rightarrow> Some (resp_config, recv_buf_size div 4)))
      }
      else server_ext_loop allow recv_buf_size vs cfg)"

text \<open>The client's loop: at most one answer, and only if it offered.\<close>

fun client_ext_loop ::
    "bool \<Rightarrow> nat \<Rightarrow> (io_error + bytes \<times> params_iter) list \<Rightarrow> ws_deflate \<Rightarrow> (conn_error + ws_deflate) run" where
  "client_ext_loop allow recv_buf_size [] cfg = Some (Inr cfg)"
| "client_ext_loop allow recv_buf_size (Inl e # vs) cfg = Some (Inl InvalidWebSocketResponse)"
| "client_ext_loop allow recv_buf_size (Inr (name, params) # vs) cfg =
     (if name = str ''permessage-deflate'' then
        (if \<not> allow \<or> cfg \<noteq> None then Some (Inl InvalidWebSocketResponse)
         else do {
           ps \<leftarrow> iter_items params_next params;
           client_ext_loop allow recv_buf_size vs
             (case from_params ps of
                Inl _ \<Rightarrow> cfg
              | Inr config \<Rightarrow>
                  (case check_response config of Inl _ \<Rightarrow> cfg | Inr _ \<Rightarrow> Some (config, recv_buf_size div 4)))
         })
      else client_ext_loop allow recv_buf_size vs cfg)"

section \<open>The server's side\<close>

record ws_scan =
  sc_websocket :: bool
  sc_version :: "bytes option"
  sc_key :: "bytes option"
  sc_deflate :: ws_deflate

definition ws_scan_init :: ws_scan where
  "ws_scan_init = \<lparr>sc_websocket = False, sc_version = None, sc_key = None, sc_deflate = None\<rparr>"

definition server_scan_header :: "bool \<Rightarrow> nat \<Rightarrow> header \<Rightarrow> ws_scan \<Rightarrow> (conn_error + ws_scan) run" where
  "server_scan_header allow recv_buf_size h sc = do {
     let sc = (if named h ''Upgrade'' \<and> eq_ignore_ascii_case (h_value h) (str ''websocket'')
               then sc\<lparr>sc_websocket := True\<rparr> else sc);
     let sc = (if named h ''Sec-WebSocket-Version'' then sc\<lparr>sc_version := Some (h_value h)\<rparr> else sc);
     let sc = (if named h ''Sec-WebSocket-Key'' then sc\<lparr>sc_key := Some (h_value h)\<rparr> else sc);
     if named h ''Sec-WebSocket-Extensions'' then do {
       vs \<leftarrow> iter_items value_next (parse_header_value (h_value h));
       r \<leftarrow> server_ext_loop allow recv_buf_size vs (sc_deflate sc);
       Some (case r of Inl e \<Rightarrow> Inl e | Inr cfg \<Rightarrow> Inr (sc\<lparr>sc_deflate := cfg\<rparr>))
     }
     else Some (Inr sc)
   }"

fun server_scan_headers :: "bool \<Rightarrow> nat \<Rightarrow> header list \<Rightarrow> ws_scan \<Rightarrow> (conn_error + ws_scan) run" where
  "server_scan_headers allow recv_buf_size [] sc = Some (Inr sc)"
| "server_scan_headers allow recv_buf_size (h # hs) sc = do {
     r \<leftarrow> server_scan_header allow recv_buf_size h sc;
     case r of Inl e \<Rightarrow> Some (Inl e) | Inr sc \<Rightarrow> server_scan_headers allow recv_buf_size hs sc
   }"

datatype mode = HttpReq | HttpStream | WebSocket

text \<open>
  \<open>server_stream_process_req_header\<close>: the mode and the \<open>more\<close> flag of the packet to the handler, and for a
  WebSocket the accept key and the negotiated compression.
\<close>

definition server_stream_process_req_header ::
    "(bytes \<Rightarrow> bytes) \<Rightarrow> (bytes \<Rightarrow> bytes) \<Rightarrow> bool \<Rightarrow> nat \<Rightarrow> bytes \<Rightarrow> body_size \<Rightarrow> header list \<Rightarrow>
       (conn_error + mode \<times> bool \<times> (bytes \<times> ws_deflate) option) run" where
  "server_stream_process_req_header sha1 base64 allow recv_buf_size req_method bsize headers = do {
     r \<leftarrow> server_scan_headers allow recv_buf_size headers ws_scan_init;
     case r of
       Inl e \<Rightarrow> Some (Inl e)
     | Inr sc \<Rightarrow>
         if sc_websocket sc then do {
           v \<leftarrow> validate_ws_request sha1 base64 req_method bsize (sc_version sc) (sc_key sc);
           Some (case v of
             Inl _ \<Rightarrow> Inl InvalidWebSocketRequest
           | Inr ws_accept \<Rightarrow> Inr (WebSocket, False, Some (ws_accept, sc_deflate sc)))
         }
         else
           let has_more = (case bsize of NoBody \<Rightarrow> False | Known x \<Rightarrow> x > 0 | Unknown \<Rightarrow> True) in
           Some (Inr (HttpStream, has_more, None))
   }"

text \<open>The headers of the handler's response that go out, with their \<open>Content-Length\<close> if any.\<close>

definition ws_response_reserved :: "header \<Rightarrow> bool" where
  "ws_response_reserved h \<longleftrightarrow> named h ''Upgrade'' \<or> named h ''Connection'' \<or> named h ''Sec-WebSocket-Accept''
     \<or> named h ''Sec-WebSocket-Extensions''"

definition content_length :: "header \<Rightarrow> conn_error + nat" where
  "content_length h =
     (if \<not> utf8_valid (h_value h) then Inl Utf8
      else case parse_usize (h_value h) of None \<Rightarrow> Inl (ConnIo InvalidInput) | Some n \<Rightarrow> Inr n)"

fun response_header_loop ::
    "bool \<Rightarrow> header list \<Rightarrow> header list \<Rightarrow> body_size \<Rightarrow> conn_error + header list \<times> body_size" where
  "response_header_loop ws [] out bsize = Inr (out, bsize)"
| "response_header_loop ws (h # hs) out bsize =
     (if ws \<and> ws_response_reserved h then response_header_loop ws hs out bsize
      else
        (case (if \<not> ws \<and> named h ''Content-Length'' then map_sum id Known (content_length h) else Inr bsize) of
           Inl e \<Rightarrow> Inl e
         | Inr bsize \<Rightarrow>
             if length out \<ge> HEADERS_MAX then Inl BadMessage
             else response_header_loop ws hs (out @ [h]) bsize))"

definition server_response_headers ::
    "header list \<Rightarrow> bool \<Rightarrow> nat \<Rightarrow> (bytes \<times> ws_deflate) option \<Rightarrow> conn_error + header list \<times> body_size" where
  "server_response_headers rheaders has_more body_len ws_req_data =
     (case response_header_loop (ws_req_data \<noteq> None) rheaders [] Unknown of
        Inl e \<Rightarrow> Inl e
      | Inr (headers, bsize) \<Rightarrow>
          let bsize = (if bsize = Unknown \<and> \<not> has_more then Known body_len else bsize) in
          (case ws_req_data of
             None \<Rightarrow> Inr (headers, bsize)
           | Some (ws_accept, deflate) \<Rightarrow>
               if HEADERS_MAX - length headers < 4 then Inl BadMessage
               else
                 let headers = headers @ [hdr ''Upgrade'' (str ''websocket''), hdr ''Connection'' (str ''Upgrade''),
                       hdr ''Sec-WebSocket-Accept'' ws_accept] in
                 (case deflate of
                    None \<Rightarrow> Inr (headers, bsize)
                  | Some (config, _) \<Rightarrow>
                      (case write_ws_ext_header_value WS_EXT_MAX config of
                         Inl _ \<Rightarrow> Inl Compression
                       | Inr ws_ext \<Rightarrow> Inr (headers @ [hdr ''Sec-WebSocket-Extensions'' ws_ext], bsize)))))"

section \<open>The client's side\<close>

definition ws_request_reserved :: "header \<Rightarrow> bool" where
  "ws_request_reserved h \<longleftrightarrow> named h ''Connection'' \<or> named h ''Upgrade'' \<or> named h ''Sec-WebSocket-Version''
     \<or> named h ''Sec-WebSocket-Key''"

fun request_header_loop ::
    "bool \<Rightarrow> header list \<Rightarrow> header list \<Rightarrow> body_size \<Rightarrow> conn_error + header list \<times> body_size" where
  "request_header_loop ws [] out bsize = Inr (out, bsize)"
| "request_header_loop ws (h # hs) out bsize =
     (if named h ''Host'' \<or> ws \<and> ws_request_reserved h then request_header_loop ws hs out bsize
      else
        (case (if \<not> ws \<and> named h ''Content-Length'' then map_sum id Known (content_length h) else Inr bsize) of
           Inl e \<Rightarrow> Inl e
         | Inr bsize \<Rightarrow>
             if length out \<ge> HEADERS_MAX then Inl BadRequest
             else request_header_loop ws hs (out @ [h]) bsize))"

text \<open>The request headers of \<open>client_stream_handler\<close>; \<open>ws_key\<close> is there for the schemes \<open>ws\<close> and \<open>wss\<close>.\<close>

definition client_request_headers ::
    "bytes \<Rightarrow> bytes option \<Rightarrow> bool \<Rightarrow> bool \<Rightarrow> header list \<Rightarrow> bool \<Rightarrow> nat \<Rightarrow> conn_error + header list \<times> body_size" where
  "client_request_headers host_port ws_key allow include_body rheaders has_more body_len =
     (let bsize = (if ws_key \<noteq> None \<or> \<not> include_body then NoBody else Unknown);
          start = (case ws_key of
             None \<Rightarrow> Inr [hdr ''Host'' host_port]
           | Some key \<Rightarrow>
               let headers = [hdr ''Host'' host_port, hdr ''Upgrade'' (str ''websocket''), hdr ''Connection'' (str ''Upgrade''),
                     hdr ''Sec-WebSocket-Version'' (str ''13''), hdr ''Sec-WebSocket-Key'' key] in
               if allow then
                 (case write_ws_ext_header_value WS_EXT_MAX deflate_config_default of
                    Inl _ \<Rightarrow> Inl Compression
                  | Inr ws_ext \<Rightarrow> Inr (headers @ [hdr ''Sec-WebSocket-Extensions'' ws_ext]))
               else Inr headers) in
      case start of
        Inl e \<Rightarrow> Inl e
      | Inr headers \<Rightarrow>
          (case request_header_loop (ws_key \<noteq> None) rheaders headers bsize of
             Inl e \<Rightarrow> Inl e
           | Inr (headers, bsize) \<Rightarrow>
               Inr (headers, if bsize = Unknown \<and> \<not> has_more then Known body_len else bsize)))"

text \<open>The loop over the headers of the answer: the accept key and the compression.\<close>

fun client_scan_headers ::
    "bool \<Rightarrow> nat \<Rightarrow> bool \<Rightarrow> header list \<Rightarrow> bytes option \<Rightarrow> ws_deflate \<Rightarrow> (conn_error + bytes option \<times> ws_deflate) run" where
  "client_scan_headers allow recv_buf_size ws [] acc cfg = Some (Inr (acc, cfg))"
| "client_scan_headers allow recv_buf_size ws (h # hs) acc cfg = do {
     let acc = (if ws \<and> named h ''Sec-WebSocket-Accept'' then Some (h_value h) else acc);
     r \<leftarrow> (if ws \<and> named h ''Sec-WebSocket-Extensions'' then do {
             vs \<leftarrow> iter_items value_next (parse_header_value (h_value h));
             client_ext_loop allow recv_buf_size vs cfg
           }
           else Some (Inr cfg));
     case r of Inl e \<Rightarrow> Some (Inl e) | Inr cfg \<Rightarrow> client_scan_headers allow recv_buf_size ws hs acc cfg
   }"

datatype ws_answer = Rejected | Accepted ws_deflate | PlainHttp

definition client_process_response ::
    "(bytes \<Rightarrow> bytes) \<Rightarrow> (bytes \<Rightarrow> bytes) \<Rightarrow> bool \<Rightarrow> nat \<Rightarrow> bytes option \<Rightarrow> nat \<Rightarrow> header list \<Rightarrow> (conn_error + ws_answer) run" where
  "client_process_response sha1 base64 allow recv_buf_size ws_key code headers = do {
     r \<leftarrow> client_scan_headers allow recv_buf_size (ws_key \<noteq> None) headers None None;
     case r of
       Inl e \<Rightarrow> Some (Inl e)
     | Inr (ws_accept, cfg) \<Rightarrow>
         (case ws_key of
            None \<Rightarrow> Some (Inr PlainHttp)
          | Some key \<Rightarrow>
              if code = 101 then do {
                v \<leftarrow> validate_ws_response sha1 base64 key ws_accept;
                Some (case v of Inl _ \<Rightarrow> Inl InvalidWebSocketResponse | Inr _ \<Rightarrow> Inr (Accepted cfg))
              }
              else Some (Inr Rejected))
   }"

section \<open>The printed extension header is read back\<close>

lemma tokens:
  "token (str ''client_no_context_takeover'')" "token (str ''server_no_context_takeover'')"
  "token (str ''client_max_window_bits'')" "token (str ''server_max_window_bits'')"
  "token (str ''permessage-deflate'')"
  by code_simp+

lemma token_dec_digits: "token (dec_digits n)"
proof -
  have "visible b \<and> b \<notin> set (str ''=;,'') \<and> b \<noteq> chr CHR 0x22" if "b \<in> set (dec_digits n)" for b
  proof -
    have "is_digit b" using dec_digits_all that by blast
    then have "48 \<le> b" "b \<le> 57" by (auto simp: is_digit_def word_le_nat_alt)
    then have "visible b" "b \<noteq> 61" "b \<noteq> 59" "b \<noteq> 44" "b \<noteq> 34" by (auto simp: visible_def word_le_nat_alt word_less_nat_alt)
    then show ?thesis by (simp add: chr_def)
  qed
  then show ?thesis by (simp add: token_def)
qed

lemma config_params_tokens: "(k, v) \<in> set (config_params c) \<Longrightarrow> token k \<and> (v = [] \<or> token v)"
  using tokens token_dec_digits by (auto simp: config_params_def simp del: str_simps split: if_splits)

lemma param_text_shape: "param_text (k, v) = chr CHR '';'' # 32 # k @ param_suffix v"
  by (simp add: param_text_def param_suffix_def chr_def)

lemma printed_params:
  assumes "\<forall>(k, v) \<in> set ps. token k \<and> (v = [] \<or> token v)" and "ps \<noteq> []"
  shows "iter_items params_next \<lparr>hp_s = tl (concat (map param_text ps)), hp_done = False\<rparr> = Some (map Inr ps)"
    and "drive_params \<lparr>hp_s = tl (concat (map param_text ps)), hp_done = False\<rparr> = Some (Inr [])"
proof -
  have "iter_items params_next \<lparr>hp_s = tl (concat (map param_text ps)), hp_done = False\<rparr> = Some (map Inr ps) \<and>
    drive_params \<lparr>hp_s = tl (concat (map param_text ps)), hp_done = False\<rparr> = Some (Inr [])"
    using assms
  proof (induction ps)
    case (Cons p ps)
    obtain k v where p: "p = (k, v)" by force
    let ?t = "concat (map param_text ps)"
    have t: "?t = [] \<longleftrightarrow> ps = []" "?t = [] \<or> hd ?t = chr CHR '';''"
      by (cases ps; auto simp: param_text_shape)+
    have step: "params_next \<lparr>hp_s = tl (concat (map param_text (p # ps))), hp_done = False\<rparr> =
        Some (Some (Inr p), \<lparr>hp_s = tl ?t, hp_done = (ps = [])\<rparr>)"
      using params_next_printed [of k v ?t] Cons.prems p t by (simp add: param_text_shape)
    show ?case
    proof (cases "ps = []")
      case True
      then have "params_next \<lparr>hp_s = tl ?t, hp_done = (ps = [])\<rparr> = Some (None, \<lparr>hp_s = [], hp_done = True\<rparr>)"
        by (simp add: params_next_def)
      then show ?thesis using step True
        by (simp add: iter_items_step drive_params_step del: list.map concat.simps) simp
    next
      case False
      then show ?thesis using Cons step
        by (simp add: iter_items_step(2) drive_params_step(2) del: list.map(2) concat.simps) simp
    qed
  qed simp
  then show "iter_items params_next \<lparr>hp_s = tl (concat (map param_text ps)), hp_done = False\<rparr> = Some (map Inr ps)"
    and "drive_params \<lparr>hp_s = tl (concat (map param_text ps)), hp_done = False\<rparr> = Some (Inr [])" by auto
qed

lemma token_ascii: "token v \<Longrightarrow> b \<in> set v \<Longrightarrow> unat b < 128"
  by (auto simp: token_def visible_def word_less_nat_alt)

lemma param_suffix_ascii: "v = [] \<or> token v \<Longrightarrow> b \<in> set (param_suffix v) \<Longrightarrow> unat b < 128"
  using token_ascii [of v b] by (cases "v = []") (auto simp: param_suffix_def chr_def)

lemma ext_text_ascii:
  assumes "b \<in> set (str ''permessage-deflate'' @ concat (map param_text (config_params c)))"
  shows "unat b < 128"
proof (cases "b \<in> set (str ''permessage-deflate'')")
  case True
  then show ?thesis using token_ascii [OF tokens(5)] by blast
next
  case False
  then obtain k v where kv: "(k, v) \<in> set (config_params c)" "b \<in> set (param_text (k, v))" using assms by auto
  then have "token k" "v = [] \<or> token v" using config_params_tokens by auto
  moreover have "b = chr CHR '';'' \<or> b = 32 \<or> b \<in> set k \<or> b \<in> set (param_suffix v)"
    using kv(2) by (auto simp: param_text_shape)
  ultimately show ?thesis using token_ascii param_suffix_ascii by (auto simp: chr_def)
qed

text \<open>The items that the extension header of a configuration is read as.\<close>

lemma ext_header_items:
  assumes "write_ws_ext_header_value cap c = Inr t"
  obtains params where "iter_items value_next (parse_header_value t) = Some [Inr (str ''permessage-deflate'', params)]"
    and "iter_items params_next params = Some (map Inr (config_params c))"
proof -
  let ?n = "str ''permessage-deflate''" and ?ps = "config_params c"
  let ?r = "concat (map param_text ?ps)"
  have t: "t = ?n @ ?r"
    using assms by (simp add: write_ws_ext_header_value_def config_serialize_params Let_def del: str_simps split: if_splits)
  have it: "parse_header_value t = \<lparr>hv_s = ?n @ ?r, hv_done = False\<rparr>"
    using utf8_valid_ascii ext_text_ascii t by (simp add: parse_header_value_def del: str_simps)
  have r: "?r = [] \<longleftrightarrow> ?ps = []" "?r = [] \<or> hd ?r = chr CHR '';''"
    by (cases ?ps; auto simp: param_text_shape)+
  have find: "find_one_of 0 (?n @ ?r) (str '';,'') = (if ?r = [] then None else Some (length ?n, chr CHR '';''))"
    using find_sep_token(1) [OF tokens(5), of ?r "str '';,''" 0] r(2) by (auto simp: chr_def simp del: length_str)
  have n: "trim ?n = ?n" "?n \<noteq> []" using trim_visible token_visible tokens(5) by (auto simp del: str_simps simp: token_def)
  let ?params = "if ?ps = [] then params_empty else params_new (tl ?r)"
  have "value_next (parse_header_value t) = Some (Some (Inr (?n, ?params)), \<lparr>hv_s = [], hv_done = True\<rparr>)"
  proof (cases "?ps = []")
    case True
    then show ?thesis using it find n r by (simp add: value_next_def del: str_simps)
  next
    case False
    have "drive_params (params_new (tl ?r)) = Some (Inr [])"
      using printed_params(2) [of ?ps] config_params_tokens False by (auto simp: params_new_def)
    moreover have "drop (length ?n + 1) (?n @ ?r) = tl ?r" "take (length ?n) (?n @ ?r) = ?n"
      by (simp_all add: drop_Suc del: length_str str_simps)
    moreover have "find_one_of 0 (?n @ ?r) (str '';,'') = Some (length ?n, chr CHR '';'')"
      using find False r(1) by argo
    ultimately show ?thesis using False it n
      by (simp add: value_next_def del: str_simps length_str)
  qed
  moreover have "value_next \<lparr>hv_s = [], hv_done = True\<rparr> = Some (None, \<lparr>hv_s = [], hv_done = True\<rparr>)"
    by (simp add: value_next_def)
  ultimately have items: "iter_items value_next (parse_header_value t) = Some [Inr (?n, ?params)]"
    by (simp add: iter_items_step del: str_simps)
  have "iter_items params_next ?params = Some (map Inr ?ps)"
  proof (cases "?ps = []")
    case True
    then show ?thesis by (subst iter_items.simps) (simp add: params_empty_def params_next_def)
  next
    case False
    then show ?thesis using printed_params(1) [of ?ps] config_params_tokens by (auto simp: params_new_def)
  qed
  then show thesis using that items by blast
qed


section \<open>The two loops over one extension header\<close>

lemma server_ext_roundtrip:
  assumes w: "write_ws_ext_header_value cap c = Inr t" and c: "from_params (map Inr (config_params c)) = Inr c"
  obtains vs where "iter_items value_next (parse_header_value t) = Some vs"
    and "server_ext_loop allow n vs cfg = Some (Inr (if allow \<and> cfg = None
          then (case create_response c of Inl _ \<Rightarrow> None | Inr r \<Rightarrow> Some (r, n div 4)) else cfg))"
proof -
  obtain params where "iter_items value_next (parse_header_value t) = Some [Inr (str ''permessage-deflate'', params)]"
    and "iter_items params_next params = Some (map Inr (config_params c))"
    using ext_header_items [OF w] by blast
  then show thesis using c that [of "[Inr (str ''permessage-deflate'', params)]"]
    by (auto simp del: str_simps split: sum.splits)
qed

lemma client_ext_roundtrip:
  assumes w: "write_ws_ext_header_value cap c = Inr t" and c: "from_params (map Inr (config_params c)) = Inr c"
    and "check_response c = Inr ()"
  obtains vs where "iter_items value_next (parse_header_value t) = Some vs"
    and "client_ext_loop True n vs None = Some (Inr (Some (c, n div 4)))"
proof -
  obtain params where "iter_items value_next (parse_header_value t) = Some [Inr (str ''permessage-deflate'', params)]"
    and "iter_items params_next params = Some (map Inr (config_params c))"
    using ext_header_items [OF w] by blast
  then show thesis using assms(2,3) that [of "[Inr (str ''permessage-deflate'', params)]"]
    by (auto simp del: str_simps)
qed

text \<open>A header whose value is read without an error, and the server's loop over such values.\<close>

definition readable :: "header \<Rightarrow> bool" where
  "readable h \<longleftrightarrow>
     (case iter_items value_next (parse_header_value (h_value h)) of None \<Rightarrow> False | Some vs \<Rightarrow> \<forall>v \<in> set vs. \<not> isl v)"

lemma server_ext_loop_returns:
  assumes "\<And>e. Inl e \<notin> set vs" and "\<And>name params. Inr (name, params) \<in> set vs \<Longrightarrow> iter_items params_next params \<noteq> None"
  shows "\<exists>cfg'. server_ext_loop allow n vs cfg = Some (Inr cfg') \<and> (\<not> allow \<or> cfg \<noteq> None \<longrightarrow> cfg' = cfg)"
  using assms
proof (induction vs arbitrary: cfg)
  case Nil
  then show ?case by simp
next
  case (Cons v vs)
  then obtain name params where v: "v = Inr (name, params)" by (cases v) auto
  then obtain ps where ps: "iter_items params_next params = Some ps" using Cons.prems(2) [of name params] by auto
  have IH: "\<exists>cfg'. server_ext_loop allow n vs c = Some (Inr cfg') \<and> (\<not> allow \<or> c \<noteq> None \<longrightarrow> cfg' = c)" for c
    by (rule Cons.IH) (use Cons.prems in auto)
  from IH [of "case from_params ps of Inl _ \<Rightarrow> cfg | Inr config \<Rightarrow>
      (case create_response config of Inl _ \<Rightarrow> cfg | Inr resp_config \<Rightarrow> Some (resp_config, n div 4))"] IH [of cfg]
  show ?case unfolding v using ps by (auto simp del: str_simps)
qed

lemma readable_ext:
  assumes "readable h"
  obtains vs cfg' where "iter_items value_next (parse_header_value (h_value h)) = Some vs"
    and "server_ext_loop allow n vs cfg = Some (Inr cfg')" and "\<not> allow \<or> cfg \<noteq> None \<longrightarrow> cfg' = cfg"
proof -
  obtain vs where vs: "iter_items value_next (parse_header_value (h_value h)) = Some vs"
    using value_it.collect_total [of "parse_header_value (h_value h)"] by auto
  have "\<And>e. Inl e \<notin> set vs" using assms vs by (auto simp: readable_def)
  with server_ext_loop_returns [of vs allow n cfg] header_item_ok [OF vs] that [OF vs] show thesis by fastforce
qed

section \<open>Header lists\<close>

lemma named_hdr: "named (hdr n v) m \<longleftrightarrow> eq_ignore_ascii_case (str n) (str m)"
  by (simp add: named_def hdr_def del: str_simps)

lemma header_names:
  "eq_ignore_ascii_case (str n) (str n)"
  "\<not> eq_ignore_ascii_case (str ''Host'') (str ''Upgrade'')"
  "\<not> eq_ignore_ascii_case (str ''Host'') (str ''Sec-WebSocket-Version'')"
  "\<not> eq_ignore_ascii_case (str ''Host'') (str ''Sec-WebSocket-Key'')"
  "\<not> eq_ignore_ascii_case (str ''Host'') (str ''Sec-WebSocket-Extensions'')"
  "\<not> eq_ignore_ascii_case (str ''Upgrade'') (str ''Sec-WebSocket-Version'')"
  "\<not> eq_ignore_ascii_case (str ''Upgrade'') (str ''Sec-WebSocket-Key'')"
  "\<not> eq_ignore_ascii_case (str ''Upgrade'') (str ''Sec-WebSocket-Extensions'')"
  "\<not> eq_ignore_ascii_case (str ''Upgrade'') (str ''Sec-WebSocket-Accept'')"
  "\<not> eq_ignore_ascii_case (str ''Connection'') (str ''Upgrade'')"
  "\<not> eq_ignore_ascii_case (str ''Connection'') (str ''Sec-WebSocket-Version'')"
  "\<not> eq_ignore_ascii_case (str ''Connection'') (str ''Sec-WebSocket-Key'')"
  "\<not> eq_ignore_ascii_case (str ''Connection'') (str ''Sec-WebSocket-Extensions'')"
  "\<not> eq_ignore_ascii_case (str ''Connection'') (str ''Sec-WebSocket-Accept'')"
  "\<not> eq_ignore_ascii_case (str ''Sec-WebSocket-Version'') (str ''Upgrade'')"
  "\<not> eq_ignore_ascii_case (str ''Sec-WebSocket-Version'') (str ''Sec-WebSocket-Key'')"
  "\<not> eq_ignore_ascii_case (str ''Sec-WebSocket-Version'') (str ''Sec-WebSocket-Extensions'')"
  "\<not> eq_ignore_ascii_case (str ''Sec-WebSocket-Key'') (str ''Upgrade'')"
  "\<not> eq_ignore_ascii_case (str ''Sec-WebSocket-Key'') (str ''Sec-WebSocket-Version'')"
  "\<not> eq_ignore_ascii_case (str ''Sec-WebSocket-Key'') (str ''Sec-WebSocket-Extensions'')"
  "\<not> eq_ignore_ascii_case (str ''Sec-WebSocket-Extensions'') (str ''Upgrade'')"
  "\<not> eq_ignore_ascii_case (str ''Sec-WebSocket-Extensions'') (str ''Sec-WebSocket-Version'')"
  "\<not> eq_ignore_ascii_case (str ''Sec-WebSocket-Extensions'') (str ''Sec-WebSocket-Key'')"
  "\<not> eq_ignore_ascii_case (str ''Sec-WebSocket-Extensions'') (str ''Sec-WebSocket-Accept'')"
  "\<not> eq_ignore_ascii_case (str ''Sec-WebSocket-Accept'') (str ''Sec-WebSocket-Extensions'')"
  by (simp add: eq_ignore_ascii_case_def del: str_simps) code_simp+

lemma request_header_loop_eq:
  "request_header_loop ws hs out b = Inr (out', b') \<Longrightarrow>
     out' = out @ filter (\<lambda>h. \<not> named h ''Host'' \<and> \<not> (ws \<and> ws_request_reserved h)) hs \<and> (ws \<longrightarrow> b' = b)"
  by (induction ws hs out b rule: request_header_loop.induct) (auto split: if_splits sum.splits)

lemma response_header_loop_eq:
  "response_header_loop ws hs out b = Inr (out', b') \<Longrightarrow>
     out' = out @ filter (\<lambda>h. \<not> (ws \<and> ws_response_reserved h)) hs \<and> (ws \<longrightarrow> b' = b)"
  by (induction ws hs out b rule: response_header_loop.induct) (auto split: if_splits sum.splits)

lemma server_scan_append:
  "server_scan_headers allow n (as @ bs) sc =
     do { r \<leftarrow> server_scan_headers allow n as sc;
          case r of Inl e \<Rightarrow> Some (Inl e) | Inr sc \<Rightarrow> server_scan_headers allow n bs sc }"
  by (induction as arbitrary: sc) (auto split: sum.split Option.bind_split)

lemma client_scan_append:
  "client_scan_headers allow n ws (as @ bs) acc cfg =
     do { r \<leftarrow> client_scan_headers allow n ws as acc cfg;
          case r of Inl e \<Rightarrow> Some (Inl e) | Inr (acc, cfg) \<Rightarrow> client_scan_headers allow n ws bs acc cfg }"
  by (induction as arbitrary: acc cfg) (auto split: sum.split Option.bind_split)

lemma server_scan_handler:
  assumes "\<forall>h \<in> set hs. \<not> ws_request_reserved h \<and> (named h ''Sec-WebSocket-Extensions'' \<longrightarrow> readable h)"
  shows "\<exists>cfg. server_scan_headers allow n hs sc = Some (Inr (sc\<lparr>sc_deflate := cfg\<rparr>))
    \<and> (\<not> allow \<or> sc_deflate sc \<noteq> None \<or> (\<forall>h \<in> set hs. \<not> named h ''Sec-WebSocket-Extensions'') \<longrightarrow> cfg = sc_deflate sc)"
  using assms
proof (induction hs arbitrary: sc)
  case Nil
  then show ?case by simp
next
  case (Cons h hs)
  have h: "\<not> named h ''Upgrade''" "\<not> named h ''Sec-WebSocket-Version''" "\<not> named h ''Sec-WebSocket-Key''"
    using Cons.prems by (simp_all add: ws_request_reserved_def)
  show ?case
  proof (cases "named h ''Sec-WebSocket-Extensions''")
    case False
    then have "server_scan_header allow n h sc = Some (Inr sc)" using h by (simp add: server_scan_header_def)
    with Cons.IH [of sc] Cons.prems False show ?thesis by auto
  next
    case True
    then obtain vs c where "iter_items value_next (parse_header_value (h_value h)) = Some vs"
      "server_ext_loop allow n vs (sc_deflate sc) = Some (Inr c)" and c: "\<not> allow \<or> sc_deflate sc \<noteq> None \<longrightarrow> c = sc_deflate sc"
      using readable_ext [of h allow n "sc_deflate sc"] Cons.prems by auto
    then have "server_scan_header allow n h sc = Some (Inr (sc\<lparr>sc_deflate := c\<rparr>))" using h True by (simp add: server_scan_header_def)
    with Cons.IH [of "sc\<lparr>sc_deflate := c\<rparr>"] Cons.prems c True show ?thesis by auto
  qed
qed

lemma client_scan_neutral:
  "\<forall>h \<in> set hs. \<not> ws_response_reserved h \<Longrightarrow> client_scan_headers allow n ws hs acc cfg = Some (Inr (acc, cfg))"
  by (induction hs arbitrary: acc cfg) (simp_all add: ws_response_reserved_def)


section \<open>The handshake\<close>

lemma accept_ok:
  assumes "digest_text sha1 base64" and "length key \<le> 220"
  shows "calculate_ws_accept sha1 base64 key = Some (Inr (base64 (sha1 (key @ WS_GUID))))"
  using assms utf8_valid_ascii
  by (simp add: calculate_ws_accept_def digest_text_def WS_GUID_def WS_HASH_INPUT_MAX_def WS_ACCEPT_MAX_def del: str_simps)

lemma default_config_ext:
  "create_response deflate_config_default = Inr deflate_config_default"
  "check_response deflate_config_default = Inr ()"
  "from_params (map Inr (config_params deflate_config_default)) = Inr deflate_config_default"
  "write_ws_ext_header_value WS_EXT_MAX deflate_config_default = Inr (str ''permessage-deflate'')"
  by code_simp+

lemma hdr_value [simp]: "h_value (hdr n v) = v"
  by (simp add: hdr_def)

lemma server_reads_request:
  assumes req: "client_request_headers host_port (Some key) a include_body hs m len = Inr (headers, b)"
    and hs: "\<forall>h \<in> set hs. named h ''Sec-WebSocket-Extensions'' \<longrightarrow> readable h"
  shows "b = NoBody \<and> (\<exists>cfg. server_scan_headers allow n headers ws_scan_init =
      Some (Inr \<lparr>sc_websocket = True, sc_version = Some (str ''13''), sc_key = Some key, sc_deflate = cfg\<rparr>)
    \<and> (a \<or> \<not> allow \<or> (\<forall>h \<in> set hs. \<not> named h ''Sec-WebSocket-Extensions'') \<longrightarrow>
        cfg = (if a \<and> allow then Some (deflate_config_default, n div 4) else None)))"
proof -
  obtain vs where vs: "iter_items value_next (parse_header_value (str ''permessage-deflate'')) = Some vs"
    "server_ext_loop allow n vs None = Some (Inr (if allow then Some (deflate_config_default, n div 4) else None))"
    by (rule server_ext_roundtrip [OF default_config_ext(4,3), of allow n None])
      (simp add: default_config_ext cong: if_cong del: str_simps)
  let ?first = "[hdr ''Host'' host_port, hdr ''Upgrade'' (str ''websocket''), hdr ''Connection'' (str ''Upgrade''),
      hdr ''Sec-WebSocket-Version'' (str ''13''), hdr ''Sec-WebSocket-Key'' key] @
      (if a then [hdr ''Sec-WebSocket-Extensions'' (str ''permessage-deflate'')] else [])"
  let ?rest = "filter (\<lambda>h. \<not> named h ''Host'' \<and> \<not> ws_request_reserved h) hs"
  have h: "headers = ?first @ ?rest" "b = NoBody"
    using req request_header_loop_eq [of True hs ?first NoBody]
    by (cases a; auto simp: client_request_headers_def default_config_ext Let_def simp del: str_simps split: if_splits sum.splits)+
  let ?sc = "\<lparr>sc_websocket = True, sc_version = Some (str ''13''), sc_key = Some key,
      sc_deflate = (if a \<and> allow then Some (deflate_config_default, n div 4) else None)\<rparr>"
  have first: "server_scan_headers allow n ?first ws_scan_init = Some (Inr ?sc)"
    using vs by (cases a) (simp_all add: server_scan_header_def ws_scan_init_def named_hdr header_names Let_def del: str_simps)
  have all: "server_scan_headers allow n headers ws_scan_init = server_scan_headers allow n ?rest ?sc"
    unfolding h(1) server_scan_append [of allow n ?first] first by (simp only: bind.bind_lunit sum.case)
  have "\<forall>h \<in> set ?rest. \<not> ws_request_reserved h \<and> (named h ''Sec-WebSocket-Extensions'' \<longrightarrow> readable h)" using hs by simp
  from server_scan_handler [OF this, of allow n ?sc] obtain cfg where
    cfg: "server_scan_headers allow n ?rest ?sc = Some (Inr (?sc\<lparr>sc_deflate := cfg\<rparr>))"
      "\<not> allow \<or> sc_deflate ?sc \<noteq> None \<or> (\<forall>h \<in> set ?rest. \<not> named h ''Sec-WebSocket-Extensions'') \<longrightarrow> cfg = sc_deflate ?sc" by blast
  have "a \<or> \<not> allow \<or> (\<forall>h \<in> set hs. \<not> named h ''Sec-WebSocket-Extensions'') \<longrightarrow>
        cfg = (if a \<and> allow then Some (deflate_config_default, n div 4) else None)"
    using cfg(2) [unfolded ws_scan.select_convs] by (cases "a \<and> allow") (simp_all only: simp_thms set_filter mem_Collect_eq Ball_def if_True if_False, blast+)
  with cfg(1) show ?thesis unfolding all ws_scan.update_convs using h(2) by blast
qed


lemma server_answer_shape:
  assumes "server_response_headers rs m len (Some (acc, deflate)) = Inr (headers, b)"
  shows "\<exists>rest ext. headers = rest @ [hdr ''Upgrade'' (str ''websocket''), hdr ''Connection'' (str ''Upgrade''),
      hdr ''Sec-WebSocket-Accept'' acc] @ ext \<and> (\<forall>h \<in> set rest. \<not> ws_response_reserved h) \<and>
      (case deflate of None \<Rightarrow> ext = []
      | Some (c, _) \<Rightarrow> \<exists>t. write_ws_ext_header_value WS_EXT_MAX c = Inr t \<and> ext = [hdr ''Sec-WebSocket-Extensions'' t])"
proof -
  obtain rest b' where r: "response_header_loop True rs [] Unknown = Inr (rest, b')"
    using assms by (auto simp: server_response_headers_def split: sum.splits)
  have rest: "\<forall>h \<in> set rest. \<not> ws_response_reserved h" using response_header_loop_eq [OF r] by simp
  show ?thesis
  proof (cases deflate)
    case None
    then show ?thesis using assms r rest
      by - (rule exI [of _ rest], simp add: server_response_headers_def Let_def del: str_simps split: if_splits)
  next
    case (Some x)
    then show ?thesis using assms r rest
      by - (rule exI [of _ rest], auto simp add: server_response_headers_def Let_def simp del: str_simps split: if_splits sum.splits prod.splits)
  qed
qed

lemma client_reads_answer:
  assumes "server_response_headers rs m len (Some (acc, if c then Some (deflate_config_default, n') else None)) = Inr (headers, b)"
    and "c \<longrightarrow> allow"
  shows "client_scan_headers allow n True headers None None =
    Some (Inr (Some acc, if c then Some (deflate_config_default, n div 4) else None))"
proof -
  obtain rest ext where h: "headers = rest @ [hdr ''Upgrade'' (str ''websocket''), hdr ''Connection'' (str ''Upgrade''),
      hdr ''Sec-WebSocket-Accept'' acc] @ ext"
    and rest: "\<forall>h \<in> set rest. \<not> ws_response_reserved h"
    and ext: "ext = (if c then [hdr ''Sec-WebSocket-Extensions'' (str ''permessage-deflate'')] else [])"
    using server_answer_shape [OF assms(1)] by (cases c) (auto simp: default_config_ext simp del: str_simps)
  obtain vs where vs: "iter_items value_next (parse_header_value (str ''permessage-deflate'')) = Some vs"
    "client_ext_loop True n vs None = Some (Inr (Some (deflate_config_default, n div 4)))"
    by (rule client_ext_roundtrip [OF default_config_ext(4,3,2), of n])
  show ?thesis
    using rest vs assms(2) unfolding h ext
    by (cases c) (simp_all add: client_scan_append client_scan_neutral named_hdr header_names del: str_simps)
qed


text \<open>An answer with compression is refused by a client that does not allow it.\<close>

lemma client_refuses_answer:
  assumes "server_response_headers rs m len (Some (acc, Some (c, n'))) = Inr (headers, b)"
  shows "client_scan_headers False n True headers None None = Some (Inl InvalidWebSocketResponse)"
proof -
  obtain rest t where h: "headers = rest @ [hdr ''Upgrade'' (str ''websocket''), hdr ''Connection'' (str ''Upgrade''),
      hdr ''Sec-WebSocket-Accept'' acc] @ [hdr ''Sec-WebSocket-Extensions'' t]"
    and rest: "\<forall>h \<in> set rest. \<not> ws_response_reserved h" and t: "write_ws_ext_header_value WS_EXT_MAX c = Inr t"
    using server_answer_shape [OF assms] by (auto simp del: str_simps)
  obtain params where "iter_items value_next (parse_header_value t) = Some [Inr (str ''permessage-deflate'', params)]"
    using ext_header_items [OF t] by blast
  then show ?thesis using rest unfolding h
    by (simp add: client_scan_append client_scan_neutral named_hdr header_names del: str_simps)
qed

text \<open>
  Property C9. The two ends of a WebSocket connection. Let a client connection build its request headers, from
  handler headers whose \<open>Sec-WebSocket-Extensions\<close> values, if any, are well formed, and let a server connection
  read them. The server accepts the request as a WebSocket one. If the client allows compression, or the
  server does not, or the handler passes no extension header of its own, the server decides for compression
  exactly when both allow it, with the default configuration. When the server's answer, with any headers of
  its handler, is read by the client with status 101, the client accepts the key and uses compression
  exactly when both allow it, with the same configuration, in every case but one: a client that does not
  allow compression passes its handler's extension header on all the same, and if the server takes the offer
  up the client refuses the answer.
\<close>

theorem handshake_agrees:
  assumes crates: "digest_text sha1 base64" and key: "length key \<le> 220"
    and req: "client_request_headers host_port (Some key) ca include_body hs m len = Inr (headers, b)"
    and hs: "\<forall>h \<in> set hs. named h ''Sec-WebSocket-Extensions'' \<longrightarrow> readable h"
  shows "\<exists>acc cfg. server_stream_process_req_header sha1 base64 sa sn (str ''GET'') b headers = Some (Inr (WebSocket, False, Some (acc, cfg)))
    \<and> (ca \<or> \<not> sa \<or> (\<forall>h \<in> set hs. \<not> named h ''Sec-WebSocket-Extensions'') \<longrightarrow>
        cfg = (if ca \<and> sa then Some (deflate_config_default, sn div 4) else None))
    \<and> (\<forall>rs m' len' answer b'. server_response_headers rs m' len' (Some (acc, cfg)) = Inr (answer, b') \<longrightarrow>
         client_process_response sha1 base64 ca cn (Some key) 101 answer =
           Some (if ca \<or> cfg = None then Inr (Accepted (if ca \<and> sa then Some (deflate_config_default, cn div 4) else None))
                 else Inl InvalidWebSocketResponse))"
proof -
  let ?acc = "base64 (sha1 (key @ WS_GUID))"
  from server_reads_request [OF req hs, of sa sn] obtain cfg where b: "b = NoBody"
    and scan: "server_scan_headers sa sn headers ws_scan_init =
      Some (Inr \<lparr>sc_websocket = True, sc_version = Some (str ''13''), sc_key = Some key, sc_deflate = cfg\<rparr>)"
    and cfg: "ca \<or> \<not> sa \<or> (\<forall>h \<in> set hs. \<not> named h ''Sec-WebSocket-Extensions'') \<longrightarrow>
        cfg = (if ca \<and> sa then Some (deflate_config_default, sn div 4) else None)" by blast
  have "server_stream_process_req_header sha1 base64 sa sn (str ''GET'') b headers = Some (Inr (WebSocket, False, Some (?acc, cfg)))"
    using b scan accept_ok [OF crates key]
    by (simp add: server_stream_process_req_header_def validate_ws_request_def del: str_simps)
  moreover have "client_process_response sha1 base64 ca cn (Some key) 101 answer =
      Some (if ca \<or> cfg = None then Inr (Accepted (if ca \<and> sa then Some (deflate_config_default, cn div 4) else None))
            else Inl InvalidWebSocketResponse)"
    if ans: "server_response_headers rs m' len' (Some (?acc, cfg)) = Inr (answer, b')" for rs m' len' answer b'
  proof (cases "ca \<or> cfg = None")
    case True
    then have "cfg = (if ca \<and> sa then Some (deflate_config_default, sn div 4) else None)" using cfg by auto
    from client_reads_answer [OF ans [unfolded this], of ca cn] accept_ok [OF crates key] True show ?thesis
      by (simp add: client_process_response_def validate_ws_response_def)
  next
    case False
    then obtain c k where "cfg = Some (c, k)" by auto
    from client_refuses_answer [OF ans [unfolded this]] False show ?thesis
      by (simp add: client_process_response_def)
  qed
  ultimately show ?thesis using cfg by blast
qed

theorem handshake_agrees_witness:
  "\<exists>acc. server_stream_process_req_header (\<lambda>_. replicate 20 0) (\<lambda>_. replicate 28 65) True 400 (str ''GET'') NoBody
      [hdr ''Host'' (str ''h''), hdr ''Upgrade'' (str ''websocket''), hdr ''Connection'' (str ''Upgrade''),
       hdr ''Sec-WebSocket-Version'' (str ''13''), hdr ''Sec-WebSocket-Key'' (str ''k''),
       hdr ''Sec-WebSocket-Extensions'' (str ''permessage-deflate'')]
    = Some (Inr (WebSocket, False, Some (acc, Some (deflate_config_default, 100))))"
proof -
  have "digest_text (\<lambda>_. replicate 20 0) (\<lambda>_. replicate 28 65)" by (simp add: digest_text_def)
  moreover have "client_request_headers (str ''h'') (Some (str ''k'')) True True [] False 0 =
      Inr ([hdr ''Host'' (str ''h''), hdr ''Upgrade'' (str ''websocket''), hdr ''Connection'' (str ''Upgrade''),
       hdr ''Sec-WebSocket-Version'' (str ''13''), hdr ''Sec-WebSocket-Key'' (str ''k''),
       hdr ''Sec-WebSocket-Extensions'' (str ''permessage-deflate'')], NoBody)"
    by (simp add: client_request_headers_def default_config_ext del: str_simps)
  ultimately show ?thesis
    using handshake_agrees [of _ _ "str ''k''" "str ''h''" True True "[]" False 0 _ _ True 400 400] by fastforce
qed

end
