(* ===== verification/Http1Chunk.thy ===== *)
theory Http1Chunk
  imports Vectored Text
begin

text \<open>
  The chunk writer of \<open>src/core/http1/protocol.rs\<close> (\<open>Chunk\<close>, \<open>write_chunk\<close>): one chunk of a chunked body,
  written over as many calls as the writer needs, the progress kept in the caller's \<open>Option<Chunk>\<close>.
\<close>

section \<open>Hexadecimal numbers\<close>

text \<open>\<open>{:x}\<close> of an unsigned number.\<close>

definition hex_digit :: "nat \<Rightarrow> u8" where
  "hex_digit d = of_nat (if d < 10 then 48 + d else 87 + d)"

fun hex_digits :: "nat \<Rightarrow> bytes" where
  "hex_digits n = (if n < 16 then [hex_digit n] else hex_digits (n div 16) @ [hex_digit (n mod 16)])"

declare hex_digits.simps [simp del]

section \<open>The writer\<close>

definition CHUNK_SIZE_MAX :: nat where "CHUNK_SIZE_MAX = 0xffff"
definition CHUNK_HEADER_SIZE_MAX :: nat where "CHUNK_HEADER_SIZE_MAX = 6"
definition CHUNK_FOOTER :: bytes where "CHUNK_FOOTER = [13, 10]"
definition SEND_BODY_BUFS_MAX :: nat where "SEND_BODY_BUFS_MAX = 8"

record chunk =
  c_header :: bytes
  c_header_len :: nat
  c_size :: nat
  c_sent :: nat

text \<open>A fresh chunk: its size line is printed into an array of six bytes, and does not fit otherwise.\<close>

definition new_chunk :: "nat \<Rightarrow> chunk run" where
  "new_chunk sz = do {
     let text = hex_digits sz @ [13, 10];
     assert_that (length text \<le> CHUNK_HEADER_SIZE_MAX);
     Some \<lparr>c_header = text @ replicate (CHUNK_HEADER_SIZE_MAX - length text) 0, c_header_len = length text,
           c_size = sz, c_sent = 0\<rparr>
   }"

definition write_chunk ::
    "'w writer \<Rightarrow> 'w \<Rightarrow> bytes list \<Rightarrow> bytes \<Rightarrow> chunk option \<Rightarrow> nat \<Rightarrow> ((io_error + nat) \<times> chunk option \<times> 'w) run" where
  "write_chunk W w content footer chunk max_size = do {
     assert_that (length content \<le> SEND_BODY_BUFS_MAX);
     assert_that (max_size \<le> CHUNK_SIZE_MAX);
     let content_len = length (concat content);
     chunkv \<leftarrow> (case chunk of None \<Rightarrow> new_chunk (min content_len max_size) | Some c \<Rightarrow> Some c);
     cheader \<leftarrow> subslice (c_header chunkv) 0 (c_header_len chunkv);
     let data_size = c_size chunkv;
     let total = length cheader + data_size + length footer;
     bufs \<leftarrow> lg_as_slice (limit content data_size);
     let slices = cheader # bufs @ [footer];
     assert_that (length slices \<le> SEND_BODY_BUFS_MAX + 2);
     (r, w) \<leftarrow> write_vectored_offset W w slices (c_sent chunkv);
     case r of
       Inl e \<Rightarrow> Some (Inl e, Some chunkv, w)
     | Inr n \<Rightarrow>
         let sent = c_sent chunkv + n in
         if sent < total then Some (Inr 0, Some (chunkv\<lparr>c_sent := sent\<rparr>), w)
         else Some (Inr data_size, None, w)
   }"

section \<open>What one call does\<close>

lemma hex_digits_nonempty [simp]: "hex_digits n \<noteq> []"
  by (subst hex_digits.simps) simp

lemma length_hex_digits: "n < 16 ^ Suc k \<Longrightarrow> length (hex_digits n) \<le> Suc k"
proof (induction k arbitrary: n)
  case 0
  then show ?case by (subst hex_digits.simps) simp
next
  case (Suc k)
  show ?case
  proof (cases "n < 16")
    case True
    then show ?thesis by (subst hex_digits.simps) simp
  next
    case False
    have "n div 16 < 16 ^ Suc k" using Suc.prems by (simp add: less_mult_imp_div_less)
    then show ?thesis using Suc.IH [of "n div 16"] False by (subst hex_digits.simps) simp
  qed
qed

lemma hex_size_line: "n \<le> CHUNK_SIZE_MAX \<Longrightarrow> length (hex_digits n) \<le> 4"
  using length_hex_digits [of n 3] by (simp add: CHUNK_SIZE_MAX_def)

text \<open>The bytes of a chunk on the wire, and when a chunk in progress belongs to them.\<close>

definition size_line :: "nat \<Rightarrow> bytes" where
  "size_line n = hex_digits n @ [13, 10]"

definition chunk_wire :: "bytes \<Rightarrow> bytes \<Rightarrow> bytes" where
  "chunk_wire data footer = size_line (length data) @ data @ footer"

definition chunk_inv :: "chunk \<Rightarrow> bool" where
  "chunk_inv c \<longleftrightarrow> c_size c \<le> CHUNK_SIZE_MAX \<and> length (c_header c) = CHUNK_HEADER_SIZE_MAX \<and>
     c_header_len c = length (size_line (c_size c)) \<and> take (c_header_len c) (c_header c) = size_line (c_size c)"

lemma new_chunk_ok:
  assumes "n \<le> CHUNK_SIZE_MAX"
  shows "\<exists>c. new_chunk n = Some c \<and> chunk_inv c \<and> c_size c = n \<and> c_sent c = 0"
  using hex_size_line [OF assms] assms
  by (auto simp: new_chunk_def chunk_inv_def size_line_def CHUNK_HEADER_SIZE_MAX_def Let_def)

lemma chunk_header_slice:
  assumes "chunk_inv c"
  shows "subslice (c_header c) 0 (c_header_len c) = Some (size_line (c_size c))"
  using assms hex_size_line [of "c_size c"]
  by (auto simp: chunk_inv_def size_line_def CHUNK_HEADER_SIZE_MAX_def)

lemma limit_count: "lg_as_slice (limit bufs n) = Some vis \<Longrightarrow> length vis \<le> length bufs"
  by (auto simp: lg_as_slice_def limit_def subslice_def split: if_splits option.splits)

text \<open>The chunk that a call works on.\<close>

definition the_chunk :: "bytes list \<Rightarrow> chunk option \<Rightarrow> nat \<Rightarrow> chunk" where
  "the_chunk content chunk max_size =
     (case chunk of None \<Rightarrow> the (new_chunk (min (length (concat content)) max_size)) | Some c \<Rightarrow> c)"

definition pending_ok :: "chunk option \<Rightarrow> bool" where
  "pending_ok chunk \<longleftrightarrow> (case chunk of None \<Rightarrow> True | Some c \<Rightarrow> chunk_inv c)"

lemma pending_ok_simps [simp]: "pending_ok None" "pending_ok (Some c) \<longleftrightarrow> chunk_inv c"
  by (simp_all add: pending_ok_def)

lemma the_chunk_ok:
  assumes "max_size \<le> CHUNK_SIZE_MAX" and "pending_ok chunk"
  shows "(case chunk of None \<Rightarrow> new_chunk (min (length (concat content)) max_size) | Some c \<Rightarrow> Some c) =
      Some (the_chunk content chunk max_size)"
    and "chunk_inv (the_chunk content chunk max_size)"
  using new_chunk_ok [of "min (length (concat content)) max_size"] assms
  by (cases chunk; force simp: the_chunk_def)+

lemma the_chunk_None:
  assumes "max_size \<le> CHUNK_SIZE_MAX"
  shows "c_size (the_chunk content None max_size) = min (length (concat content)) max_size"
    and "c_sent (the_chunk content None max_size) = 0"
  using new_chunk_ok [of "min (length (concat content)) max_size"] assms by (force simp: the_chunk_def)+

lemma the_chunk_Some [simp]: "the_chunk content (Some c) max_size = c"
  by (simp add: the_chunk_def)

text \<open>What a call makes of the result of the vectored write.\<close>

definition chunk_result :: "chunk \<Rightarrow> bytes \<Rightarrow> io_error + nat \<Rightarrow> (io_error + nat) \<times> chunk option" where
  "chunk_result c footer r =
     (case r of
        Inl e \<Rightarrow> (Inl e, Some c)
      | Inr n \<Rightarrow>
          if c_sent c + n < length (size_line (c_size c)) + c_size c + length footer
          then (Inr 0, Some (c\<lparr>c_sent := c_sent c + n\<rparr>))
          else (Inr (c_size c), None))"

lemma write_chunk_eq:
  assumes content: "length content \<le> SEND_BODY_BUFS_MAX" and max_size: "max_size \<le> CHUNK_SIZE_MAX"
    and chunk: "pending_ok chunk" and c: "c = the_chunk content chunk max_size"
  shows "\<exists>vis. concat vis = take (c_size c) (concat content) \<and> (\<forall>r w'.
    write_vectored_offset W w (size_line (c_size c) # vis @ [footer]) (c_sent c) = Some (r, w') \<longrightarrow>
    write_chunk W w content footer chunk max_size = Some (fst (chunk_result c footer r), snd (chunk_result c footer r), w'))"
proof -
  have inv: "chunk_inv c"
    and start: "(case chunk of None \<Rightarrow> new_chunk (min (length (concat content)) max_size) | Some c \<Rightarrow> Some c) = Some c"
    using the_chunk_ok [OF max_size chunk] c by auto
  obtain vis where vis: "lg_as_slice (limit content (c_size c)) = Some vis" "concat vis = take (c_size c) (concat content)"
    using limit_visible by blast
  have n: "length (size_line (c_size c) # vis @ [footer]) \<le> SEND_BODY_BUFS_MAX + 2"
    using limit_count [OF vis(1)] content by simp
  have "write_chunk W w content footer chunk max_size = Some (fst (chunk_result c footer r), snd (chunk_result c footer r), w')"
    if r: "write_vectored_offset W w (size_line (c_size c) # vis @ [footer]) (c_sent c) = Some (r, w')" for r w'
    unfolding write_chunk_def Let_def start
    using r n content max_size vis(1) chunk_header_slice [OF inv] by (cases r; simp add: chunk_result_def del: append_Cons)
  then show ?thesis using vis(2) by blast
qed

context vectored_sink
begin

lemma write_chunk_total:
  assumes W: "w_write_vectored W = write_vectored" and w: "invar w" and content: "length content \<le> SEND_BODY_BUFS_MAX"
    and max_size: "max_size \<le> CHUNK_SIZE_MAX" and chunk: "pending_ok chunk"
  shows "\<exists>r chunk' w'. write_chunk W w content footer chunk max_size = Some (r, chunk', w') \<and> invar w' \<and> pending_ok chunk'"
proof -
  let ?c = "the_chunk content chunk max_size"
  obtain vis where vis: "\<And>r w'. write_vectored_offset W w (size_line (c_size ?c) # vis @ [footer]) (c_sent ?c) = Some (r, w') \<Longrightarrow>
      write_chunk W w content footer chunk max_size = Some (fst (chunk_result ?c footer r), snd (chunk_result ?c footer r), w')"
    using write_chunk_eq [OF content max_size chunk refl, of W w footer] by metis
  obtain r w' where r: "write_vectored_offset W w (size_line (c_size ?c) # vis @ [footer]) (c_sent ?c) = Some (r, w')" "invar w'"
    using write_vectored_offset_took [OF w W] by blast
  have "chunk_inv ?c" by (rule the_chunk_ok(2) [OF max_size chunk])
  then have "pending_ok (snd (chunk_result ?c footer r))"
    by (cases r) (auto simp: chunk_result_def chunk_inv_def)
  then show ?thesis using vis [OF r(1)] r(2) by blast
qed

lemma write_chunk_took:
  fixes content :: "bytes list" and chunk :: "chunk option" and max_size :: nat and footer :: bytes
  assumes W: "w_write_vectored W = write_vectored" and w: "invar w"
    and content: "length content \<le> SEND_BODY_BUFS_MAX" and max_size: "max_size \<le> CHUNK_SIZE_MAX"
    and chunk: "pending_ok chunk" and c: "c = the_chunk content chunk max_size"
    and wire: "wire = chunk_wire (take (c_size c) (concat content)) footer"
    and sz: "c_size c \<le> length (concat content)" and sent: "c_sent c \<le> length wire"
  shows "\<exists>r chunk' w'. write_chunk W w content footer chunk max_size = Some (r, chunk', w') \<and> invar w' \<and>
    (case r of
       Inl e \<Rightarrow> chunk' = Some c \<and> out w' = out w
     | Inr n \<Rightarrow> (\<exists>m. out w' = out w @ take m (drop (c_sent c) wire) \<and> c_sent c + m \<le> length wire \<and>
         (if c_sent c + m < length wire then n = 0 \<and> chunk' = Some (c\<lparr>c_sent := c_sent c + m\<rparr>)
          else n = c_size c \<and> chunk' = None)))"
proof -
  obtain vis where vis: "concat vis = take (c_size c) (concat content)"
    and result: "\<And>r w'. write_vectored_offset W w (size_line (c_size c) # vis @ [footer]) (c_sent c) = Some (r, w') \<Longrightarrow>
      write_chunk W w content footer chunk max_size = Some (fst (chunk_result c footer r), snd (chunk_result c footer r), w')"
    using write_chunk_eq [OF content max_size chunk c, of W w footer] by metis
  let ?slices = "size_line (c_size c) # vis @ [footer]"
  have slices: "concat ?slices = wire" using vis sz by (simp add: wire chunk_wire_def min_def)
  have total: "length (size_line (c_size c)) + c_size c + length footer = length wire"
    using sz by (simp add: wire chunk_wire_def min_def)
  obtain r w' where r: "write_vectored_offset W w ?slices (c_sent c) = Some (r, w')" "invar w'"
      "took (out w) (drop (c_sent c) wire) (out w') r"
    using write_vectored_offset_took [OF w W, of ?slices "c_sent c"] slices sent by fastforce
  have "case fst (chunk_result c footer r) of
       Inl e \<Rightarrow> snd (chunk_result c footer r) = Some c \<and> out w' = out w
     | Inr n \<Rightarrow> (\<exists>m. out w' = out w @ take m (drop (c_sent c) wire) \<and> c_sent c + m \<le> length wire \<and>
         (if c_sent c + m < length wire then n = 0 \<and> snd (chunk_result c footer r) = Some (c\<lparr>c_sent := c_sent c + m\<rparr>)
          else n = c_size c \<and> snd (chunk_result c footer r) = None))"
  proof (cases r)
    case (Inl e)
    then show ?thesis using r(3) by (simp add: chunk_result_def)
  next
    case (Inr n)
    then have n: "out w' = out w @ take n (drop (c_sent c) wire)" "c_sent c + n \<le> length wire" using r(3) sent by auto
    show ?thesis
    proof (cases "c_sent c + n < length wire")
      case True
      then show ?thesis using Inr n total by (simp add: chunk_result_def) (intro exI [of _ n], simp)
    next
      case False
      then show ?thesis using Inr n total by (simp add: chunk_result_def) (intro exI [of _ n], simp)
    qed
  qed
  then show ?thesis using result [OF r(1)] r(2) by blast
qed

end

end
