(* ===== verification/Http1Server.thy ===== *)
theory Http1Server
  imports Http1Chunk HttpText
begin

text \<open>
  The server side of the HTTP/1 protocol, \<open>ServerProtocol\<close> of \<open>src/core/http1/protocol.rs\<close>: reading a request
  header and deciding how its body is framed, reading the body (of known size, or in chunks), and sending a
  response header and body.

  The crate \<open>httparse\<close> is a parameter, the record \<open>httparse\<close> of the four functions the code calls; a successful
  parse returns the number of bytes it consumed. The cursor over the input is the bytes that remain
  and the number an operation consumes of them. The writers are those of \<open>Vectored\<close>.
\<close>

section \<open>Data\<close>

definition HTTP_HEADERS_MAX :: nat where "HTTP_HEADERS_MAX = 64"

record parsed_request =
  pq_method :: bytes
  pq_path :: bytes
  pq_version :: nat
  pq_headers :: "header list"

record parsed_response =
  pr_version :: nat
  pr_code :: nat
  pr_reason :: bytes
  pr_headers :: "header list"

text \<open>\<open>Status<T>\<close> of a parse: \<open>None\<close> is \<open>Partial\<close>. The first argument is the number of header slots.\<close>

record 'e httparse =
  ht_request :: "nat \<Rightarrow> bytes \<Rightarrow> 'e + (nat \<times> parsed_request) option"
  ht_response :: "nat \<Rightarrow> bytes \<Rightarrow> 'e + (nat \<times> parsed_response) option"
  ht_chunk_size :: "bytes \<Rightarrow> unit + (nat \<times> nat) option"
  ht_headers :: "nat \<Rightarrow> bytes \<Rightarrow> 'e + (nat \<times> header list) option"

datatype 'e http_error = Parse 'e | InvalidContentLength | UnsupportedTransferEncoding | Io io_error
  | InvalidChunkSize | ChunkTooLarge | InvalidChunkSuffix

datatype server_state = ReceivingRequest | ReceivingBody | AwaitingResponse | SendingBody | Finished

record server_protocol =
  sp_state :: server_state
  sp_ver_min :: nat
  sp_header_size :: "nat option"
  sp_body_size :: body_size
  sp_chunk_left :: "nat option"
  sp_chunk_size :: nat
  sp_persistent :: bool
  sp_chunked :: bool
  sp_sending_chunk :: "chunk option"

definition server_new :: server_protocol where
  "server_new = \<lparr>sp_state = ReceivingRequest, sp_ver_min = 0, sp_header_size = None, sp_body_size = NoBody,
     sp_chunk_left = None, sp_chunk_size = 0, sp_persistent = False, sp_chunked = False, sp_sending_chunk = None\<rparr>"

section \<open>Reading the request header\<close>

record framing =
  fr_content_len :: "nat option"
  fr_chunked :: bool
  fr_keep_alive :: bool
  fr_close :: bool
  fr_expect_100 :: bool

definition framing_init :: framing where
  "framing_init = \<lparr>fr_content_len = None, fr_chunked = False, fr_keep_alive = False, fr_close = False, fr_expect_100 = False\<rparr>"

text \<open>One header of the loop.\<close>

definition request_header :: "nat \<Rightarrow> header \<Rightarrow> framing \<Rightarrow> 'e http_error + framing" where
  "request_header version h f =
     (if named h ''Content-Length'' then
        (case parse_as_int (h_value h) of
           Inl _ \<Rightarrow> Inl InvalidContentLength
         | Inr len \<Rightarrow> Inr (f\<lparr>fr_content_len := Some len\<rparr>))
      else if named h ''Transfer-Encoding'' then
        (if h_value h = str ''chunked'' then Inr (f\<lparr>fr_chunked := True\<rparr>) else Inl UnsupportedTransferEncoding)
      else if named h ''Connection'' then
        Inr (f\<lparr>fr_keep_alive := fr_keep_alive f \<or> header_contains_param (h_value h) (str ''keep-alive'') True,
               fr_close := fr_close f \<or> header_contains_param (h_value h) (str ''close'') False\<rparr>)
      else if named h ''Expect'' then
        Inr (if header_contains_param (h_value h) (str ''100-continue'') False \<and> version \<ge> 1
             then f\<lparr>fr_expect_100 := True\<rparr> else f)
      else Inr f)"

fun request_headers :: "nat \<Rightarrow> header list \<Rightarrow> framing \<Rightarrow> 'e http_error + framing" where
  "request_headers version [] f = Inr f"
| "request_headers version (h # hs) f =
     (case request_header version h f of Inl e \<Rightarrow> Inl e | Inr f \<Rightarrow> request_headers version hs f)"

definition process_request :: "server_protocol \<Rightarrow> parsed_request \<Rightarrow> ('e http_error + bool) \<times> server_protocol" where
  "process_request p req =
     (case request_headers (pq_version req) (pq_headers req) framing_init of
        Inl e \<Rightarrow> (Inl e, p)
      | Inr f \<Rightarrow>
          let p = p\<lparr>sp_ver_min := pq_version req\<rparr>;
              p = (if fr_chunked f then p\<lparr>sp_body_size := Unknown\<rparr>
                   else case fr_content_len f of
                     Some len \<Rightarrow> p\<lparr>sp_body_size := Known len, sp_chunk_left := Some len\<rparr>
                   | None \<Rightarrow> p\<lparr>sp_body_size := NoBody\<rparr>);
              p = p\<lparr>sp_persistent := (if pq_version req \<ge> 1 then \<not> fr_close f else fr_keep_alive f \<and> \<not> fr_close f)\<rparr>;
              p = p\<lparr>sp_state := (case sp_body_size p of NoBody \<Rightarrow> AwaitingResponse | _ \<Rightarrow> ReceivingBody)\<rparr>
          in (Inr (fr_expect_100 f \<and> sp_body_size p \<noteq> NoBody), p))"

text \<open>\<open>OwnedRequest\<close>: what was parsed, and the bytes of the buffer after it (\<open>remaining_bytes\<close>).\<close>

record owned_request =
  oq_req :: parsed_request
  oq_body_size :: body_size
  oq_expect_100 :: bool
  oq_remaining :: bytes

datatype ('t, 'e) parse_status = Complete 't | Incomplete | ParseFailed 'e

definition recv_request_owned ::
    "'e httparse \<Rightarrow> nat \<Rightarrow> server_protocol \<Rightarrow> bytes \<Rightarrow>
       ((owned_request, 'e http_error) parse_status \<times> server_protocol) run" where
  "recv_request_owned HT slots p buf = do {
     assert_that (sp_state p = ReceivingRequest);
     case ht_request HT slots buf of
       Inl e \<Rightarrow> Some (ParseFailed (Parse e), p)
     | Inr None \<Rightarrow> Some (Incomplete, p)
     | Inr (Some (n, req)) \<Rightarrow>
         (case process_request p req of
            (Inl e, p) \<Rightarrow> Some (ParseFailed e, p)
          | (Inr expect_100, p) \<Rightarrow> do {
              remaining \<leftarrow> subslice buf n (length buf);
              Some (Complete \<lparr>oq_req = req, oq_body_size = sp_body_size p, oq_expect_100 = expect_100,
                      oq_remaining = remaining\<rparr>, p)
            })
   }"

definition skip_recv_request :: "server_protocol \<Rightarrow> server_protocol run" where
  "skip_recv_request p = do {
     assert_that (sp_state p = ReceivingRequest);
     Some (p\<lparr>sp_state := AwaitingResponse, sp_persistent := False\<rparr>)
   }"

section \<open>Reading the request body\<close>

text \<open>
  The result of one call, the number of input bytes it consumed and the next state. \<open>Inr None\<close> asks for more input;
  \<open>Inr (Some (data, trailers))\<close> are the bytes written to the destination of \<open>dest_len\<close> bytes.
\<close>

type_synonym 'e recv_result = "('e http_error + (bytes \<times> header list option) option) \<times> nat \<times> server_protocol"

definition recv_known :: "server_protocol \<Rightarrow> bytes \<Rightarrow> nat \<Rightarrow> 'e recv_result run" where
  "recv_known p src dest_len = do {
     chunk_left \<leftarrow> sp_chunk_left p;
     let src_avail = min chunk_left (length src);
     let read_size = min src_avail dest_len;
     let chunk_left = chunk_left - read_size;
     if chunk_left = 0 then
       Some (Inr (Some (take read_size src, None)), read_size, p\<lparr>sp_chunk_left := None, sp_state := AwaitingResponse\<rparr>)
     else do {
       let p = p\<lparr>sp_chunk_left := Some chunk_left\<rparr>;
       if src_avail = 0 then do {
         assert_that (read_size = 0);
         Some (Inr None, read_size, p)
       }
       else Some (Inr (Some (take read_size src, None)), read_size, p)
     }
   }"

text \<open>The footer of a chunk: \<open>pos\<close> bytes were consumed before it.\<close>

definition recv_footer :: "'e httparse \<Rightarrow> nat \<Rightarrow> server_protocol \<Rightarrow> bytes \<Rightarrow> nat \<Rightarrow> 'e recv_result" where
  "recv_footer HT slots p src pos =
     (let buf = drop pos src in
      if sp_chunk_size p = 0 then
        (case ht_headers HT slots buf of
           Inr (Some (n, headers)) \<Rightarrow>
             (Inr (Some ([], Some headers)), pos + n,
              p\<lparr>sp_state := AwaitingResponse, sp_chunk_left := None, sp_chunk_size := 0\<rparr>)
         | Inr None \<Rightarrow> (Inr None, pos, p)
         | Inl e \<Rightarrow> (Inl (Parse e), pos, p))
      else if length buf < 2 then (Inr None, pos, p)
      else if take 2 buf \<noteq> [13, 10] then (Inl InvalidChunkSuffix, pos, p)
      else (Inr (Some ([], None)), pos + 2, p\<lparr>sp_chunk_left := None, sp_chunk_size := 0\<rparr>))"

definition recv_content :: "'e httparse \<Rightarrow> nat \<Rightarrow> server_protocol \<Rightarrow> bytes \<Rightarrow> nat \<Rightarrow> nat \<Rightarrow> 'e recv_result run" where
  "recv_content HT slots p src dest_len pos = do {
     chunk_left \<leftarrow> sp_chunk_left p;
     buf \<leftarrow> subslice src pos (length src);
     if chunk_left > 0 then do {
       let src_avail = min chunk_left (length buf);
       let read_size = min src_avail dest_len;
       let p = p\<lparr>sp_chunk_left := Some (chunk_left - read_size)\<rparr>;
       if src_avail = 0 then do {
         assert_that (read_size = 0);
         Some (Inr None, pos, p)
       }
       else Some (Inr (Some (take read_size buf, None)), pos + read_size, p)
     }
     else Some (recv_footer HT slots p src pos)
   }"

definition recv_chunked :: "'e httparse \<Rightarrow> nat \<Rightarrow> server_protocol \<Rightarrow> bytes \<Rightarrow> nat \<Rightarrow> 'e recv_result run" where
  "recv_chunked HT slots p src dest_len =
     (if sp_chunk_left p = None then
        (case ht_chunk_size HT src of
           Inr (Some (pos, n)) \<Rightarrow>
             if n \<ge> 2 ^ 32 then Some (Inl ChunkTooLarge, 0, p)
             else recv_content HT slots (p\<lparr>sp_chunk_left := Some n, sp_chunk_size := n\<rparr>) src dest_len pos
         | Inr None \<Rightarrow> Some (Inr None, 0, p)
         | Inl _ \<Rightarrow> Some (Inl InvalidChunkSize, 0, p))
      else recv_content HT slots p src dest_len 0)"

definition recv_body :: "'e httparse \<Rightarrow> nat \<Rightarrow> server_protocol \<Rightarrow> bytes \<Rightarrow> nat \<Rightarrow> 'e recv_result run" where
  "recv_body HT slots p src dest_len = do {
     assert_that (sp_state p = ReceivingBody);
     case sp_body_size p of
       Known _ \<Rightarrow> recv_known p src dest_len
     | Unknown \<Rightarrow> recv_chunked HT slots p src dest_len
     | NoBody \<Rightarrow> panic
   }"

section \<open>Sending the response\<close>

definition SLICES_MAX :: nat where "SLICES_MAX = HTTP_HEADERS_MAX * 4 + 5 + 4"

definition crlf :: bytes where "crlf = [13, 10]"

definition no_body_code :: "nat \<Rightarrow> bool" where
  "no_body_code code \<longleftrightarrow> (100 \<le> code \<and> code \<le> 199) \<or> code = 204 \<or> code = 304"

text \<open>The four slices of each header that is not overridden.\<close>

definition user_header_slices :: "(header \<Rightarrow> bool) \<Rightarrow> header list \<Rightarrow> bytes list" where
  "user_header_slices skip_header hs =
     concat (map (\<lambda>h. [h_name h, str '': '', h_value h, crlf]) (filter (\<lambda>h. \<not> skip_header h) hs))"

definition response_overrides :: "nat \<Rightarrow> header \<Rightarrow> bool" where
  "response_overrides code h \<longleftrightarrow> (named h ''Connection'' \<and> code \<noteq> 101) \<or> named h ''Content-Length''
     \<or> named h ''Transfer-Encoding''"

definition response_slices ::
    "nat \<Rightarrow> bool \<Rightarrow> bool \<Rightarrow> nat \<Rightarrow> bytes \<Rightarrow> header list \<Rightarrow> body_size \<Rightarrow> bytes list" where
  "response_slices ver_min persistent chunked code reason headers bsize =
     [if ver_min \<ge> 1 then str ''HTTP/1.1 '' else str ''HTTP/1.0 '', dec_digits code, str '' '', reason, crlf] @
     user_header_slices (response_overrides code) headers @
     (if persistent \<and> ver_min = 0 then [str ''Connection: keep-alive'' @ crlf]
      else if \<not> persistent \<and> ver_min \<ge> 1 then [str ''Connection: close'' @ crlf] else []) @
     (if chunked then [str ''Connection: Transfer-Encoding'' @ crlf] else []) @
     (case bsize of Known x \<Rightarrow> [str ''Content-Length: '' @ dec_digits x @ crlf] | _ \<Rightarrow> []) @
     (if chunked then [str ''Transfer-Encoding: chunked'' @ crlf] else []) @
     [crlf]"

text \<open>\<open>Write::write_all\<close>; an interrupted write is retried, so the loop may not end.\<close>

partial_function (option) write_all ::
    "('w \<Rightarrow> bytes \<Rightarrow> 'w write_result) \<Rightarrow> 'w \<Rightarrow> bytes \<Rightarrow> ((io_error + unit) \<times> 'w) option" where
  "write_all wr w buf =
     (if buf = [] then Some (Inr (), w)
      else do {
        (r, w) \<leftarrow> wr w buf;
        case r of
          Inr n \<Rightarrow>
            if n = 0 then Some (Inl WriteZero, w)
            else do { rest \<leftarrow> subslice buf n (length buf); write_all wr w rest }
        | Inl e \<Rightarrow> if e = Interrupted then write_all wr w buf else Some (Inl e, w)
      })"

declare write_all.simps [code]

definition send_100_continue :: "'w writer \<Rightarrow> 'w \<Rightarrow> (('e http_error + unit) \<times> 'w) run" where
  "send_100_continue W w = do {
     (r, w) \<leftarrow> write_all (w_write W) w (str ''HTTP/1.1 100 Continue'' @ crlf @ crlf);
     Some (map_sum Io id r, w)
   }"

text \<open>The status code and the content length are printed into strings of 16 and 48 bytes.\<close>

definition send_response ::
    "'w writer \<Rightarrow> 'w \<Rightarrow> server_protocol \<Rightarrow> nat \<Rightarrow> bytes \<Rightarrow> header list \<Rightarrow> body_size \<Rightarrow> nat \<Rightarrow>
       (('e http_error + nat option) \<times> server_protocol \<times> 'w) run" where
  "send_response W w p code reason headers bsize offset = do {
     assert_that (sp_state p = AwaitingResponse \<or> sp_state p = ReceivingBody);
     let persistent = (if sp_state p = ReceivingBody then False else sp_persistent p);
     let bsize = (if no_body_code code then NoBody else bsize);
     let chunked = (bsize = Unknown \<and> sp_ver_min p \<ge> 1);
     if length headers > HTTP_HEADERS_MAX then Some (Inl (Io InvalidInput), p, w)
     else do {
       assert_that (length (dec_digits code) \<le> 16);
       assert_that (case bsize of Known x \<Rightarrow> length (str ''Content-Length: '' @ dec_digits x @ crlf) \<le> 48 | _ \<Rightarrow> True);
       let slices = response_slices (sp_ver_min p) persistent chunked code reason headers bsize;
       assert_that (length slices \<le> SLICES_MAX);
       let total_length = length (concat slices);
       if sp_header_size p \<noteq> None \<and> sp_header_size p \<noteq> Some total_length then Some (Inl (Io InvalidInput), p, w)
       else do {
         let p = p\<lparr>sp_header_size := Some total_length\<rparr>;
         (r, w) \<leftarrow> write_vectored_offset W w slices offset;
         case r of
           Inl e \<Rightarrow> Some (Inl (Io e), p, w)
         | Inr bytes_written \<Rightarrow>
             if offset + bytes_written \<ge> total_length then
               Some (Inr None, p\<lparr>sp_state := SendingBody, sp_header_size := None, sp_body_size := bsize,
                 sp_persistent := persistent, sp_chunked := chunked\<rparr>, w)
             else Some (Inr (Some bytes_written), p, w)
       }
     }
   }"

definition send_body ::
    "'w writer \<Rightarrow> 'w \<Rightarrow> server_protocol \<Rightarrow> bytes list \<Rightarrow> bool \<Rightarrow> bytes option \<Rightarrow>
       (('e http_error + nat) \<times> server_protocol \<times> 'w) run" where
  "send_body W w p src fin headers = do {
     assert_that (sp_state p = SendingBody);
     let (src, capped) = cap_bufs src SEND_BODY_BUFS_MAX;
     let fin = (fin \<and> \<not> capped);
     let src_len = length (concat src);
     if sp_body_size p = NoBody then
       Some (Inr src_len, if fin then p\<lparr>sp_state := Finished\<rparr> else p, w)
     else if \<not> sp_chunked p then do {
       (r, w) \<leftarrow> write_vectored_offset W w src 0;
       case r of
         Inl e \<Rightarrow> Some (Inl (Io e), p, w)
       | Inr n \<Rightarrow> Some (Inr n, if fin \<and> n \<ge> src_len then p\<lparr>sp_state := Finished\<rparr> else p, w)
     }
     else do {
       (r, chunk, w) \<leftarrow>
         (if src_len > 0 then write_chunk W w src CHUNK_FOOTER (sp_sending_chunk p) CHUNK_SIZE_MAX
          else Some (Inr 0, sp_sending_chunk p, w));
       let p = p\<lparr>sp_sending_chunk := chunk\<rparr>;
       case r of
         Inl e \<Rightarrow> Some (Inl (Io e), p, w)
       | Inr content_written \<Rightarrow>
           if fin \<and> content_written \<ge> src_len then do {
             let footer = (case headers of Some h \<Rightarrow> h | None \<Rightarrow> CHUNK_FOOTER);
             (r, chunk, w) \<leftarrow> write_chunk W w [[]] footer (sp_sending_chunk p) CHUNK_SIZE_MAX;
             let p = p\<lparr>sp_sending_chunk := chunk\<rparr>;
             case r of
               Inl e \<Rightarrow> Some (Inl (Io e), p, w)
             | Inr _ \<Rightarrow> Some (Inr content_written, if chunk = None then p\<lparr>sp_state := Finished\<rparr> else p, w)
           }
           else Some (Inr content_written, p, w)
     }
   }"

section \<open>No operation panics\<close>

text \<open>What the code relies on of \<open>httparse\<close>: a parse does not consume more than it was given.\<close>

definition httparse_bounded :: "'e httparse \<Rightarrow> bool" where
  "httparse_bounded HT \<longleftrightarrow>
     (\<forall>slots buf n req. ht_request HT slots buf = Inr (Some (n, req)) \<longrightarrow> n \<le> length buf) \<and>
     (\<forall>slots buf n resp. ht_response HT slots buf = Inr (Some (n, resp)) \<longrightarrow> n \<le> length buf) \<and>
     (\<forall>buf n sz. ht_chunk_size HT buf = Inr (Some (n, sz)) \<longrightarrow> n \<le> length buf) \<and>
     (\<forall>slots buf n hs. ht_headers HT slots buf = Inr (Some (n, hs)) \<longrightarrow> n \<le> length buf)"

definition server_inv :: "server_protocol \<Rightarrow> bool" where
  "server_inv p \<longleftrightarrow>
     (sp_state p = ReceivingBody \<longrightarrow> (case sp_body_size p of NoBody \<Rightarrow> False | Known _ \<Rightarrow> sp_chunk_left p \<noteq> None | Unknown \<Rightarrow> True)) \<and>
     pending_ok (sp_sending_chunk p)"

lemma server_inv_new: "server_inv server_new"
  by (simp add: server_inv_def server_new_def)

lemma process_request_inv:
  "server_inv p \<Longrightarrow> process_request p req = (r, p') \<Longrightarrow> server_inv p'"
  by (auto simp: process_request_def server_inv_def Let_def split: sum.splits option.splits if_splits body_size.splits)

text \<open>Where a call on the body may end.\<close>

definition recv_ok :: "bytes \<Rightarrow> 'e recv_result run \<Rightarrow> bool" where
  "recv_ok src r \<longleftrightarrow> (\<exists>x k p. r = Some (x, k, p) \<and> server_inv p \<and> k \<le> length src
     \<and> (sp_state p = ReceivingBody \<or> sp_state p = AwaitingResponse))"

lemma recv_footer_ok:
  assumes "server_inv p" and "httparse_bounded HT" and "sp_state p = ReceivingBody" and "sp_body_size p = Unknown"
    and pos: "pos \<le> length src"
  shows "recv_ok src (Some (recv_footer HT slots p src pos))"
proof -
  have "server_inv (p\<lparr>sp_state := AwaitingResponse, sp_chunk_left := None, sp_chunk_size := 0\<rparr>)"
    "server_inv (p\<lparr>sp_chunk_left := None, sp_chunk_size := 0\<rparr>)"
    using assms by (auto simp: server_inv_def)
  moreover have "pos + n \<le> length src" if "ht_headers HT slots (drop pos src) = Inr (Some (n, hs))" for n hs
  proof -
    have "n \<le> length (drop pos src)" using that assms(2) unfolding httparse_bounded_def by blast
    then show ?thesis using pos by simp
  qed
  ultimately show ?thesis using assms
    by (auto simp: recv_ok_def recv_footer_def Let_def split: sum.split option.split)
qed

lemma recv_content_ok:
  assumes "server_inv p" and "httparse_bounded HT" and "sp_state p = ReceivingBody" and "sp_body_size p = Unknown"
    and "sp_chunk_left p = Some k" and "pos \<le> length src"
  shows "recv_ok src (recv_content HT slots p src n pos)"
proof (cases "k > 0")
  case True
  have "server_inv (p\<lparr>sp_chunk_left := Some l\<rparr>)" for l using assms by (auto simp: server_inv_def)
  then show ?thesis using True assms by (auto simp: recv_ok_def recv_content_def Let_def)
next
  case False
  then show ?thesis using assms recv_footer_ok [OF assms(1-4,6)] by (simp add: recv_content_def)
qed

lemma recv_body_ok:
  assumes "server_inv p" and "httparse_bounded HT" and "sp_state p = ReceivingBody"
  shows "recv_ok src (recv_body HT slots p src n)"
proof (cases "sp_body_size p")
  case (Known len)
  then obtain k where k: "sp_chunk_left p = Some k" using assms by (auto simp: server_inv_def)
  have "server_inv (p\<lparr>sp_chunk_left := Some l\<rparr>)" "server_inv (p\<lparr>sp_chunk_left := None, sp_state := AwaitingResponse\<rparr>)" for l
    using assms Known by (auto simp: server_inv_def)
  then show ?thesis using Known k assms by (auto simp: recv_ok_def recv_body_def recv_known_def Let_def)
next
  case Unknown
  show ?thesis
  proof (cases "sp_chunk_left p")
    case (Some k)
    then show ?thesis using assms Unknown recv_content_ok [OF assms Unknown Some] by (simp add: recv_body_def recv_chunked_def)
  next
    case None
    have "server_inv (p\<lparr>sp_chunk_left := Some l, sp_chunk_size := l\<rparr>)" for l
      using assms Unknown by (auto simp: server_inv_def)
    note inv = this
    have "recv_ok src (recv_content HT slots (p\<lparr>sp_chunk_left := Some l, sp_chunk_size := l\<rparr>) src n pos)"
      if "ht_chunk_size HT src = Inr (Some (pos, l))" for l pos
    proof -
      have "pos \<le> length src" using that assms(2) unfolding httparse_bounded_def by blast
      then show ?thesis using assms(3) Unknown inv [of l]
        by (intro recv_content_ok [OF _ assms(2)]) simp_all
    qed
    then show ?thesis using assms Unknown None
      by (auto simp: recv_body_def recv_chunked_def recv_ok_def [of _ "Some _"] split: sum.split option.split)
  qed
next
  case NoBody
  then show ?thesis using assms by (simp add: server_inv_def)
qed

lemma length_dec_digits: "n < 10 ^ Suc k \<Longrightarrow> length (dec_digits n) \<le> Suc k"
proof (induction k arbitrary: n)
  case 0
  then show ?case by (subst dec_digits.simps) simp
next
  case (Suc k)
  show ?case
  proof (cases "n < 10")
    case True
    then show ?thesis by (subst dec_digits.simps) simp
  next
    case False
    have "n div 10 < 10 ^ Suc k" using Suc.prems by (simp add: less_mult_imp_div_less)
    then show ?thesis using Suc.IH [of "n div 10"] False by (subst dec_digits.simps) simp
  qed
qed

lemma dec_digits_u16: "n < 2 ^ 16 \<Longrightarrow> length (dec_digits n) \<le> 16"
  using length_dec_digits [of n 15] by simp

lemma dec_digits_usize: "n \<le> usize_max \<Longrightarrow> length (dec_digits n) \<le> 30"
  using length_dec_digits [of n 19] by (simp add: usize_max_def)

lemma length_user_header_slices: "length (user_header_slices skip_header hs) \<le> 4 * length hs"
  by (induction hs) (simp_all add: user_header_slices_def)

lemma response_slices_fit:
  "length headers \<le> HTTP_HEADERS_MAX \<Longrightarrow> (chunked \<longrightarrow> bsize = Unknown) \<Longrightarrow>
     length (response_slices v persistent chunked code reason headers bsize) \<le> SLICES_MAX"
  using length_user_header_slices [of "response_overrides code" headers]
  by (auto simp: response_slices_def SLICES_MAX_def split: body_size.split)

lemma response_slices_nonempty: "response_slices v persistent chunked code reason headers bsize \<noteq> []"
  by (simp add: response_slices_def)


text \<open>The header text that \<open>send_response\<close> sends.\<close>

definition response_text :: "server_protocol \<Rightarrow> nat \<Rightarrow> bytes \<Rightarrow> header list \<Rightarrow> body_size \<Rightarrow> bytes" where
  "response_text p code reason headers bsize =
     (let bsize = (if no_body_code code then NoBody else bsize) in
      concat (response_slices (sp_ver_min p) (sp_state p \<noteq> ReceivingBody \<and> sp_persistent p)
        (bsize = Unknown \<and> sp_ver_min p \<ge> 1) code reason headers bsize))"

definition response_done :: "server_protocol \<Rightarrow> nat \<Rightarrow> body_size \<Rightarrow> server_protocol" where
  "response_done p code bsize =
     (let bsize = (if no_body_code code then NoBody else bsize) in
      p\<lparr>sp_state := SendingBody, sp_header_size := None, sp_body_size := bsize,
        sp_persistent := (sp_state p \<noteq> ReceivingBody \<and> sp_persistent p),
        sp_chunked := (bsize = Unknown \<and> sp_ver_min p \<ge> 1)\<rparr>)"

text \<open>
  A caller of \<open>send_response\<close> before the header is out: it calls again with the bytes written so far as the offset, after a partial
  write and after an error.
\<close>

inductive response_run ::
    "'w writer \<Rightarrow> nat \<Rightarrow> bytes \<Rightarrow> header list \<Rightarrow> body_size \<Rightarrow> server_protocol \<Rightarrow> 'w \<Rightarrow> nat \<Rightarrow> server_protocol \<Rightarrow> 'w \<Rightarrow> bool"
  for W code reason headers bsize p0 w0 where
  start: "response_run W code reason headers bsize p0 w0 0 p0 w0"
| part: "response_run W code reason headers bsize p0 w0 k p w \<Longrightarrow>
     send_response W w p code reason headers bsize k = Some (Inr (Some n) :: unit http_error + nat option, p', w') \<Longrightarrow>
     response_run W code reason headers bsize p0 w0 (k + n) p' w'"
| fail: "response_run W code reason headers bsize p0 w0 k p w \<Longrightarrow>
     send_response W w p code reason headers bsize k = Some (Inl e :: unit http_error + nat option, p', w') \<Longrightarrow>
     response_run W code reason headers bsize p0 w0 k p' w'"

context vectored_sink
begin

lemma send_response_took:
  assumes W: "w_write_vectored W = write_vectored" and w: "invar w"
    and state: "sp_state p = AwaitingResponse \<or> sp_state p = ReceivingBody"
    and code: "code < 2 ^ 16" and bsize: "\<And>x. bsize = Known x \<Longrightarrow> x \<le> usize_max"
    and count: "length headers \<le> HTTP_HEADERS_MAX"
    and t: "t = response_text p code reason headers bsize"
    and resumed: "sp_header_size p = None \<or> sp_header_size p = Some (length t)" and offset: "offset \<le> length t"
  shows "\<exists>(r :: 'e http_error + nat option) p' w'. send_response W w p code reason headers bsize offset = Some (r, p', w') \<and> invar w' \<and>
    (case r of
       Inl e \<Rightarrow> out w' = out w \<and> p' = p\<lparr>sp_header_size := Some (length t)\<rparr>
     | Inr (Some n) \<Rightarrow> out w' = out w @ take n (drop offset t) \<and> offset + n < length t \<and> p' = p\<lparr>sp_header_size := Some (length t)\<rparr>
     | Inr None \<Rightarrow> out w' = out w @ drop offset t \<and> p' = response_done p code bsize)"
proof -
  let ?b = "if no_body_code code then NoBody else bsize" and ?pers = "sp_state p \<noteq> ReceivingBody \<and> sp_persistent p"
  let ?chunked = "?b = Unknown \<and> sp_ver_min p \<ge> 1"
  let ?s = "response_slices (sp_ver_min p) ?pers ?chunked code reason headers ?b"
  have t': "t = concat ?s" by (simp add: t response_text_def Let_def)
  have len: "length ?s \<le> SLICES_MAX" using count by (rule response_slices_fit) simp
  have digits: "length (dec_digits code) \<le> 16" "case ?b of Known x \<Rightarrow> length (str ''Content-Length: '' @ dec_digits x @ crlf) \<le> 48 | _ \<Rightarrow> True"
    using dec_digits_u16 [OF code] dec_digits_usize bsize by (auto simp: crlf_def split: body_size.split)
  obtain r w' where r: "write_vectored_offset W w ?s offset = Some (r, w')" "invar w'" "took (out w) (drop offset t) (out w') r"
    using write_vectored_offset_took [OF w W response_slices_nonempty, of _ _ _ _ _ _ _ offset] t' offset by fastforce
  have pers: "(if sp_state p = ReceivingBody then False else sp_persistent p) = ?pers" by simp
  have "send_response W w p code reason headers bsize offset =
      (case r of
         Inl e \<Rightarrow> Some (Inl (Io e :: 'e http_error), p\<lparr>sp_header_size := Some (length t)\<rparr>, w')
       | Inr n \<Rightarrow> if offset + n \<ge> length t then Some (Inr None, response_done p code bsize, w')
           else Some (Inr (Some n), p\<lparr>sp_header_size := Some (length t)\<rparr>, w'))"
    unfolding send_response_def Let_def pers
    using state count digits len resumed r(1)
    by (cases r; cases "sp_header_size p"; simp add: t' response_done_def Let_def del: length_str str_simps)
  then show ?thesis using r(2,3) offset by (cases r) auto
qed


lemma response_run_text:
  assumes run: "response_run W code reason headers bsize p0 w0 k p w" and W: "w_write_vectored W = write_vectored" and w: "invar w0"
    and state: "sp_state p0 = AwaitingResponse \<or> sp_state p0 = ReceivingBody" "sp_header_size p0 = None"
    and code: "code < 2 ^ 16" and bsize: "\<And>x. bsize = Known x \<Longrightarrow> x \<le> usize_max" and count: "length headers \<le> HTTP_HEADERS_MAX"
    and t: "t = response_text p0 code reason headers bsize"
  shows "invar w \<and> k \<le> length t \<and> out w = out w0 @ take k t \<and> (p = p0 \<or> p = p0\<lparr>sp_header_size := Some (length t)\<rparr>)"
  using run
proof (induction rule: response_run.induct)
  case start
  then show ?case using w by simp
next
  case (part k p w n p' w')
  then have ih: "t = response_text p code reason headers bsize" "sp_state p = AwaitingResponse \<or> sp_state p = ReceivingBody"
      "sp_header_size p = None \<or> sp_header_size p = Some (length t)" "invar w" "k \<le> length t"
    using t state by (auto simp: response_text_def)
  from send_response_took [OF W ih(4,2) code bsize count ih(1,3,5), where 'e = unit] part show ?case by (auto simp: take_add)
next
  case (fail k p w e p' w')
  then have ih: "t = response_text p code reason headers bsize" "sp_state p = AwaitingResponse \<or> sp_state p = ReceivingBody"
      "sp_header_size p = None \<or> sp_header_size p = Some (length t)" "invar w" "k \<le> length t"
    using t state by (auto simp: response_text_def)
  from send_response_took [OF W ih(4,2) code bsize count ih(1,3,5), where 'e = unit] fail show ?case by auto
qed

text \<open>The call that completes the header.\<close>

lemma response_run_done:
  assumes run: "response_run W code reason headers bsize p0 w0 k p w" and W: "w_write_vectored W = write_vectored" and w: "invar w0"
    and state: "sp_state p0 = AwaitingResponse \<or> sp_state p0 = ReceivingBody" "sp_header_size p0 = None"
    and code: "code < 2 ^ 16" and bsize: "\<And>x. bsize = Known x \<Longrightarrow> x \<le> usize_max"
    and last: "send_response W w p code reason headers bsize k = Some (Inr None :: unit http_error + nat option, p', w')"
  shows "invar w' \<and> out w' = out w0 @ response_text p0 code reason headers bsize \<and> p' = response_done p0 code bsize"
proof -
  let ?t = "response_text p0 code reason headers bsize"
  have count: "length headers \<le> HTTP_HEADERS_MAX"
    using last by (rule contrapos_pp) (simp add: send_response_def Let_def split: Option.bind_splits)
  note r = response_run_text [OF run W w state code bsize count refl]
  then have ih: "?t = response_text p code reason headers bsize" "sp_state p = AwaitingResponse \<or> sp_state p = ReceivingBody"
      "sp_header_size p = None \<or> sp_header_size p = Some (length ?t)" "invar w" "k \<le> length ?t" "response_done p code bsize = response_done p0 code bsize"
    using state by (auto simp: response_text_def response_done_def)
  from send_response_took [OF W ih(4,2) code bsize count ih(1,3,5), where 'e = unit] last r ih(6) show ?thesis by auto
qed

lemma send_body_ok:
  assumes W: "w_write_vectored W = write_vectored" and w: "invar w" and p: "server_inv p" and state: "sp_state p = SendingBody"
  shows "\<exists>(r :: 'e http_error + nat) p' w'. send_body W w p src fin trailers = Some (r, p', w') \<and> invar w' \<and> server_inv p'
    \<and> (sp_state p' = SendingBody \<or> sp_state p' = Finished)"
proof -
  obtain bufs capped where cap: "cap_bufs src SEND_BODY_BUFS_MAX = (bufs, capped)" by force
  have bufs: "length bufs \<le> SEND_BODY_BUFS_MAX" using cap by (auto simp: cap_bufs_def split: if_splits)
  have inv: "server_inv (p\<lparr>sp_sending_chunk := c\<rparr>)" "server_inv (p\<lparr>sp_sending_chunk := c, sp_state := Finished\<rparr>)"
      "server_inv (p\<lparr>sp_state := Finished\<rparr>)" if "pending_ok c" for c
    using p that state by (auto simp: server_inv_def)
  have chunk: "pending_ok (sp_sending_chunk p)" using p by (simp add: server_inv_def)
  have plain: "\<exists>r w'. write_vectored_offset W w bufs 0 = Some (r, w') \<and> invar w'"
    using write_vectored_offset_took [OF w W, of bufs 0] w by (cases "bufs = []") (auto simp: write_vectored_offset_def)
  have data: "\<exists>r c' w'. (if length (concat bufs) > 0 then write_chunk W w bufs CHUNK_FOOTER (sp_sending_chunk p) CHUNK_SIZE_MAX
      else Some (Inr 0, sp_sending_chunk p, w)) = Some (r, c', w') \<and> invar w' \<and> pending_ok c'"
    using write_chunk_total [OF W w bufs order_refl chunk] w chunk by auto
  have closing: "\<exists>r c' w'. write_chunk W w1 [[]] footer c CHUNK_SIZE_MAX = Some (r, c', w') \<and> invar w' \<and> pending_ok c'"
    if "invar w1" "pending_ok c" for w1 c footer
    using write_chunk_total [OF W that(1) _ order_refl that(2)] by (simp add: SEND_BODY_BUFS_MAX_def)
  show ?thesis
  proof (cases "sp_body_size p = NoBody \<or> \<not> sp_chunked p")
    case True
    then show ?thesis
      using plain state w inv [OF chunk] p cap
      by (cases "sp_body_size p = NoBody") (auto simp: send_body_def Let_def split: sum.split)
  next
    case False
    obtain r c1 w1 where 1: "(if length (concat bufs) > 0 then write_chunk W w bufs CHUNK_FOOTER (sp_sending_chunk p) CHUNK_SIZE_MAX
      else Some (Inr 0, sp_sending_chunk p, w)) = Some (r, c1, w1)" "invar w1" "pending_ok c1" using data by blast
    obtain r2 c2 w2 where 2: "write_chunk W w1 [[]] (case trailers of Some h \<Rightarrow> h | None \<Rightarrow> CHUNK_FOOTER) c1 CHUNK_SIZE_MAX = Some (r2, c2, w2)"
      "invar w2" "pending_ok c2" using closing [OF 1(2,3)] by blast
    show ?thesis
    proof (cases r)
      case (Inl e)
      then show ?thesis unfolding send_body_def Let_def cap using False 1 inv(1) [OF 1(3)] state by simp
    next
      case (Inr n)
      show ?thesis unfolding send_body_def Let_def cap
        using False Inr 1 2 inv [OF 1(3)] inv [OF 2(3)] state by (cases r2) auto
    qed
  qed
qed

end

section \<open>The state machine\<close>

text \<open>Any sequence of calls, with any arguments, each of which returns.\<close>

inductive server_step :: "'e httparse \<Rightarrow> 'w writer \<Rightarrow> server_protocol \<times> 'w \<Rightarrow> server_protocol \<times> 'w \<Rightarrow> bool"
  for HT :: "'e httparse" and W :: "'w writer" where
  request: "recv_request_owned HT slots p buf = Some (r, p') \<Longrightarrow> server_step HT W (p, w) (p', w)"
| skip_request: "skip_recv_request p = Some p' \<Longrightarrow> server_step HT W (p, w) (p', w)"
| body: "recv_body HT slots p src n = Some (r, k, p') \<Longrightarrow> server_step HT W (p, w) (p', w)"
| response: "send_response W w p code reason headers bsize offset = Some (r :: 'e http_error + nat option, p', w') \<Longrightarrow> server_step HT W (p, w) (p', w')"
| send: "send_body W w p src fin trailers = Some (r :: 'e http_error + nat, p', w') \<Longrightarrow> server_step HT W (p, w) (p', w')"

text \<open>The calls that the state of a connection allows do not panic.\<close>

definition server_ready :: "'e httparse \<Rightarrow> 'w writer \<Rightarrow> server_protocol \<Rightarrow> 'w \<Rightarrow> bool" where
  "server_ready HT W p w \<longleftrightarrow>
     (sp_state p = ReceivingRequest \<longrightarrow> (\<forall>slots buf. recv_request_owned HT slots p buf \<noteq> None) \<and> skip_recv_request p \<noteq> None) \<and>
     (sp_state p = ReceivingBody \<longrightarrow> (\<forall>slots src n. recv_body HT slots p src n \<noteq> None)) \<and>
     (sp_state p = AwaitingResponse \<or> sp_state p = ReceivingBody \<longrightarrow>
        (\<forall>code reason headers bsize offset. code < 2 ^ 16 \<and> (\<forall>x. bsize = Known x \<longrightarrow> x \<le> usize_max) \<longrightarrow>
           (send_response W w p code reason headers bsize offset :: (('e http_error + nat option) \<times> server_protocol \<times> 'w) run) \<noteq> None)) \<and>
     (sp_state p = SendingBody \<longrightarrow> (\<forall>src fin trailers.
        (send_body W w p src fin trailers :: (('e http_error + nat) \<times> server_protocol \<times> 'w) run) \<noteq> None))"


lemma recv_request_shape:
  assumes "recv_request_owned HT slots p buf = Some (r, p')" and "server_inv p"
  shows "server_inv p' \<and> sp_state p = ReceivingRequest \<and>
    sp_state p' \<in> {ReceivingRequest, ReceivingBody, AwaitingResponse}"
proof -
  have "sp_state q \<in> {sp_state p, ReceivingBody, AwaitingResponse}" if "process_request p req = (x, q)" for x req q
    using that by (auto simp: process_request_def Let_def split: sum.splits body_size.splits)
  moreover have "server_inv q" if "process_request p req = (x, q)" for x req q
    using process_request_inv [OF assms(2) that] .
  ultimately show ?thesis using assms
    by (auto simp: recv_request_owned_def split: Option.bind_splits sum.splits option.splits prod.splits)
qed

lemma send_response_shape:
  assumes "send_response W w p code reason headers bsize offset = Some (r, p', w')" and "server_inv p"
  shows "server_inv p' \<and> sp_state p \<in> {ReceivingBody, AwaitingResponse} \<and> (sp_state p' = sp_state p \<or> sp_state p' = SendingBody)"
proof -
  have inv: "server_inv (p\<lparr>sp_header_size := x\<rparr>)" for x
    using assms(2) by (auto simp: server_inv_def split: body_size.splits)
  have sending: "server_inv q" if "sp_state q = SendingBody" "sp_sending_chunk q = sp_sending_chunk p" for q
    using assms(2) that by (auto simp: server_inv_def)
  show ?thesis using assms
    by (auto simp: send_response_def Let_def inv sending split: Option.bind_splits sum.splits if_splits)
qed

lemma send_response_sink:
  assumes r: "send_response W w p code reason headers bsize offset = Some (r, p', w')"
    and sink: "vectored_sink (w_write_vectored W) out invar" and w: "invar w"
  shows "invar w'"
proof -
  have "invar w'" if "write_vectored_offset W w (response_slices v b c code reason headers d) offset = Some (x, w')" for v b c d x
    using vectored_sink.write_vectored_offset_took [OF sink w refl response_slices_nonempty, of v b c code reason headers d offset] that
    by auto
  then show ?thesis using r w by (auto simp: send_response_def Let_def split: Option.bind_splits sum.splits if_splits)
qed

lemma send_response_total:
  assumes sink: "vectored_sink (w_write_vectored W) out invar" and w: "invar w"
    and state: "sp_state p = AwaitingResponse \<or> sp_state p = ReceivingBody"
    and code: "code < 2 ^ 16" and bsize: "\<And>x. bsize = Known x \<Longrightarrow> x \<le> usize_max"
  shows "\<exists>(r :: 'e http_error + nat option) p' w'. send_response W w p code reason headers bsize offset = Some (r, p', w') \<and> invar w'"
proof -
  let ?b = "if no_body_code code then NoBody else bsize" and ?pers = "if sp_state p = ReceivingBody then False else sp_persistent p"
  let ?s = "response_slices (sp_ver_min p) ?pers (?b = Unknown \<and> sp_ver_min p \<ge> 1) code reason headers ?b"
  have len: "length ?s \<le> SLICES_MAX" if "length headers \<le> HTTP_HEADERS_MAX" using that by (rule response_slices_fit) simp
  have digits: "length (dec_digits code) \<le> 16" "case ?b of Known x \<Rightarrow> length (str ''Content-Length: '' @ dec_digits x @ crlf) \<le> 48 | _ \<Rightarrow> True"
    using dec_digits_u16 [OF code] dec_digits_usize bsize by (auto simp: crlf_def split: body_size.split)
  obtain r w' where r: "write_vectored_offset W w ?s offset = Some (r, w')" "invar w'"
    using vectored_sink.write_vectored_offset_took [OF sink w refl response_slices_nonempty, of _ _ _ _ _ _ _ offset] by blast
  show ?thesis
    unfolding send_response_def Let_def
    using state digits len r w by (cases r; cases "length headers \<le> HTTP_HEADERS_MAX"; simp del: length_str str_simps)
qed

lemma server_ready_ok:
  assumes "server_inv p" and "httparse_bounded HT" and sink: "vectored_sink (w_write_vectored W) out invar" and "invar w"
  shows "server_ready HT W p w"
  unfolding server_ready_def
proof (intro conjI impI allI)
  fix slots buf assume s: "sp_state p = ReceivingRequest"
  have "n \<le> length buf" if "ht_request HT slots buf = Inr (Some (n, req))" for n req
    using that assms(2) unfolding httparse_bounded_def by blast
  then show "recv_request_owned HT slots p buf \<noteq> None" using s
    by (auto simp: recv_request_owned_def split: sum.splits option.splits prod.splits)
next
  assume "sp_state p = ReceivingRequest"
  then show "skip_recv_request p \<noteq> None" by (simp add: skip_recv_request_def)
next
  fix slots src n assume "sp_state p = ReceivingBody"
  then show "recv_body HT slots p src n \<noteq> None"
    using recv_body_ok [OF assms(1,2), of src slots n] by (auto simp: recv_ok_def)
next
  fix code :: nat and reason headers bsize offset
  assume "sp_state p = AwaitingResponse \<or> sp_state p = ReceivingBody"
    and "code < 2 ^ 16 \<and> (\<forall>x. bsize = Known x \<longrightarrow> x \<le> usize_max)"
  then show "(send_response W w p code reason headers bsize offset :: (('a http_error + nat option) \<times> server_protocol \<times> 'b) run) \<noteq> None"
    using send_response_total [OF sink assms(4), of p code bsize, where 'e = 'a] by (metis option.distinct(1))
next
  fix src fin trailers assume "sp_state p = SendingBody"
  then show "(send_body W w p src fin trailers :: (('a http_error + nat) \<times> server_protocol \<times> 'b) run) \<noteq> None"
    using vectored_sink.send_body_ok [OF sink refl assms(4,1), where 'e = 'a] by (metis option.distinct(1))
qed


definition state_rank :: "server_state \<Rightarrow> nat" where
  "state_rank s = (case s of ReceivingRequest \<Rightarrow> 0 | ReceivingBody \<Rightarrow> 1 | AwaitingResponse \<Rightarrow> 2 | SendingBody \<Rightarrow> 3 | Finished \<Rightarrow> 4)"

lemma server_step_ok:
  assumes "server_step HT W (p, w) (p', w')" and "server_inv p" and "httparse_bounded HT"
    and sink: "vectored_sink (w_write_vectored W) out invar" and "invar w"
  shows "server_inv p' \<and> invar w' \<and> state_rank (sp_state p) \<le> state_rank (sp_state p')"
  using assms(1)
proof (cases rule: server_step.cases)
  case (request slots buf r)
  then show ?thesis using recv_request_shape [OF request(2) assms(2)] assms(5) by (auto simp: state_rank_def)
next
  case skip_request
  then show ?thesis using assms by (auto simp: skip_recv_request_def server_inv_def state_rank_def split: Option.bind_splits)
next
  case (body slots src n r k)
  have "sp_state p = ReceivingBody" using body(2) by (auto simp: recv_body_def split: Option.bind_splits)
  then show ?thesis using recv_body_ok [OF assms(2,3), of src slots n] body assms(5) by (auto simp: recv_ok_def state_rank_def)
next
  case (response code reason headers bsize offset r)
  show ?thesis
    using send_response_shape [OF response assms(2)] send_response_sink [OF response sink assms(5)] by (auto simp: state_rank_def)
next
  case (send src fin trailers r)
  have "sp_state p = SendingBody" using send by (auto simp: send_body_def split: Option.bind_splits)
  then show ?thesis using vectored_sink.send_body_ok [OF sink refl assms(5,2), of src fin trailers, where 'e = 'a] send
    by (auto simp: state_rank_def)
qed


lemma server_reach_ok:
  assumes "(server_step HT W)\<^sup>*\<^sup>* (p0, w0) (p, w)" and "server_inv p0" and "invar w0" and "httparse_bounded HT"
    and "vectored_sink (w_write_vectored W) out invar"
  shows "server_inv p \<and> invar w"
  using assms(1-3)
  by (induction "(p0, w0)" "(p, w)" arbitrary: p w rule: rtranclp.induct) (use server_step_ok assms(4,5) in \<open>force+\<close>)

text \<open>
  Property C4. In every state that a server connection reaches by any sequence of calls, from the moment it is created,
  each call that its state allows returns without a panic, whatever its arguments are (a status code and a content
  length at their machine widths), and no call moves the connection back to an earlier state.
\<close>

theorem server_connection_safe:
  assumes "httparse_bounded HT" and "vectored_sink (w_write_vectored W) out invar" and "invar w0"
    and "(server_step HT W)\<^sup>*\<^sup>* (server_new, w0) (p, w)"
  shows "server_ready HT W p w \<and>
    (\<forall>p' w'. server_step HT W (p, w) (p', w') \<longrightarrow> state_rank (sp_state p) \<le> state_rank (sp_state p'))"
  using server_reach_ok [OF assms(4) server_inv_new assms(3,1,2)] server_ready_ok server_step_ok assms(1,2) by metis

definition silent_parser :: "unit httparse" where
  "silent_parser = \<lparr>ht_request = \<lambda>_ _. Inr None, ht_response = \<lambda>_ _. Inr None, ht_chunk_size = \<lambda>_. Inr None, ht_headers = \<lambda>_ _. Inr None\<rparr>"

theorem server_connection_safe_witness:
  "server_ready silent_parser rb_writer (server_new\<lparr>sp_state := AwaitingResponse, sp_persistent := False\<rparr>) (empty_ring 8)"
proof -
  have 1: "httparse_bounded silent_parser" by (simp add: httparse_bounded_def silent_parser_def)
  have 2: "vectored_sink (w_write_vectored rb_writer) rb_contents rb_inv"
    using ring_sink.vectored_sink_axioms by (simp add: rb_writer_def)
  have 3: "(server_step silent_parser rb_writer)\<^sup>*\<^sup>* (server_new, empty_ring 8)
      (server_new\<lparr>sp_state := AwaitingResponse, sp_persistent := False\<rparr>, empty_ring 8)"
    by (rule r_into_rtranclp, rule server_step.skip_request) (simp add: skip_recv_request_def server_new_def)
  show ?thesis using server_connection_safe [OF 1 2 empty_ring_ok(1) 3] by blast
qed

end
