(* ===== verification/Http1Client.thy ===== *)
theory Http1Client
  imports Http1Server
begin

text \<open>
  The client side of the HTTP/1 protocol in \<open>src/core/http1/protocol.rs\<close>: \<open>ClientRequest\<close> sends the request header,
  \<open>ClientRequestBody\<close> the body, \<open>ClientResponse\<close> reads the response header and \<open>ClientResponseBody\<close> the body.
  The code moves one \<open>ClientState\<close> through these types; here each operation takes and returns it.
\<close>

section \<open>Data\<close>

record client_state =
  cs_ver_min :: nat
  cs_body_size :: body_size
  cs_chunk_left :: "nat option"
  cs_chunk_size :: nat
  cs_persistent :: bool
  cs_chunked :: bool
  cs_sending_chunk :: "chunk option"

definition client_state_new :: client_state where
  "client_state_new = \<lparr>cs_ver_min = 1, cs_body_size = NoBody, cs_chunk_left = None, cs_chunk_size = 0,
     cs_persistent = True, cs_chunked = False, cs_sending_chunk = None\<rparr>"

record client_request =
  cq_state :: client_state
  cq_header_size :: "nat option"
  cq_offset :: nat

definition client_request_new :: client_request where
  "client_request_new = \<lparr>cq_state = client_state_new, cq_header_size = None, cq_offset = 0\<rparr>"

datatype 'e send_header_status = HeaderPartial client_request | HeaderComplete client_state | HeaderError client_request "'e http_error"

datatype 'e send_status = SendComplete client_state nat | SendPartial client_state nat | SendError client_state "'e http_error"

record client_finished =
  cf_headers_range :: "(nat \<times> nat) option"
  cf_persistent :: bool

text \<open>The counts are the bytes consumed; the bytes written to the destination are given themselves.\<close>

datatype recv_status = NeedBytes client_state | Read client_state nat bytes | RecvComplete client_finished nat bytes

section \<open>Sending the request\<close>

definition request_overrides :: "bool \<Rightarrow> header \<Rightarrow> bool" where
  "request_overrides websocket h \<longleftrightarrow> (named h ''Connection'' \<and> \<not> websocket) \<or> named h ''Content-Length''
     \<or> named h ''Transfer-Encoding''"

definition CLIENT_SLICES_MAX :: nat where "CLIENT_SLICES_MAX = HTTP_HEADERS_MAX * 4 + 4 + 4"

definition content_length_needed :: "bytes \<Rightarrow> nat \<Rightarrow> bool" where
  "content_length_needed req_method x \<longleftrightarrow> x > 0 \<or> \<not> eq_ignore_ascii_case req_method (str ''OPTIONS'')
     \<and> \<not> eq_ignore_ascii_case req_method (str ''GET'') \<and> \<not> eq_ignore_ascii_case req_method (str ''HEAD'')"

definition request_slices :: "bytes \<Rightarrow> bytes \<Rightarrow> header list \<Rightarrow> body_size \<Rightarrow> bool \<Rightarrow> bytes list" where
  "request_slices req_method uri headers bsize websocket =
     [req_method, str '' '', uri, str '' HTTP/1.1'' @ crlf] @
     user_header_slices (request_overrides websocket) headers @
     (if bsize = Unknown then [str ''Connection: Transfer-Encoding'' @ crlf] else []) @
     (case bsize of
        Known x \<Rightarrow> if content_length_needed req_method x then [str ''Content-Length: '' @ dec_digits x @ crlf] else []
      | _ \<Rightarrow> []) @
     (if bsize = Unknown then [str ''Transfer-Encoding: chunked'' @ crlf] else []) @
     [crlf]"

definition send_header ::
    "'w writer \<Rightarrow> 'w \<Rightarrow> client_request \<Rightarrow> bytes \<Rightarrow> bytes \<Rightarrow> header list \<Rightarrow> body_size \<Rightarrow> bool \<Rightarrow>
       ('e send_header_status \<times> 'w) run" where
  "send_header W w q req_method uri headers bsize websocket = do {
     let bsize = (if websocket then NoBody else bsize);
     let chunked = (bsize = Unknown);
     if length headers > HTTP_HEADERS_MAX then
       Some (HeaderError (q\<lparr>cq_header_size := None, cq_offset := 0\<rparr>) (Io InvalidInput), w)
     else do {
       assert_that (case bsize of Known x \<Rightarrow> length (str ''Content-Length: '' @ dec_digits x @ crlf) \<le> 48 | _ \<Rightarrow> True);
       let slices = request_slices req_method uri headers bsize websocket;
       assert_that (length slices \<le> CLIENT_SLICES_MAX);
       let total_length = length (concat slices);
       if cq_header_size q \<noteq> None \<and> cq_header_size q \<noteq> Some total_length then
         Some (HeaderError (q\<lparr>cq_header_size := Some total_length\<rparr>) (Io InvalidInput), w)
       else do {
         (r, w) \<leftarrow> write_vectored_offset W w slices (cq_offset q);
         case r of
           Inl e \<Rightarrow> Some (HeaderError (q\<lparr>cq_header_size := Some total_length\<rparr>) (Io e), w)
         | Inr bytes_written \<Rightarrow>
             let offset = cq_offset q + bytes_written in
             if offset \<ge> total_length then
               Some (HeaderComplete ((cq_state q)\<lparr>cs_body_size := bsize, cs_chunked := chunked\<rparr>), w)
             else Some (HeaderPartial (q\<lparr>cq_header_size := Some total_length, cq_offset := offset\<rparr>), w)
       }
     }
   }"

definition into_early_response :: "client_state \<Rightarrow> client_state" where
  "into_early_response s = s\<lparr>cs_persistent := False\<rparr>"

definition client_send ::
    "'w writer \<Rightarrow> 'w \<Rightarrow> client_state \<Rightarrow> bytes list \<Rightarrow> bool \<Rightarrow> bytes option \<Rightarrow> ('e send_status \<times> 'w) run" where
  "client_send W w s src fin headers = do {
     let (src, capped) = cap_bufs src SEND_BODY_BUFS_MAX;
     let fin = (fin \<and> \<not> capped);
     let src_len = length (concat src);
     if cs_body_size s = NoBody then
       Some (if fin then SendComplete s 0 else SendPartial s src_len, w)
     else if \<not> cs_chunked s then do {
       (r, w) \<leftarrow> write_vectored_offset W w src 0;
       case r of
         Inl e \<Rightarrow> Some (SendError s (Io e), w)
       | Inr n \<Rightarrow> do {
           assert_that (n \<le> src_len);
           Some (if fin \<and> n = src_len then SendComplete s n else SendPartial s n, w)
         }
     }
     else do {
       (r, chunk, w) \<leftarrow>
         (if src_len > 0 then write_chunk W w src CHUNK_FOOTER (cs_sending_chunk s) CHUNK_SIZE_MAX
          else Some (Inr 0, cs_sending_chunk s, w));
       let s = s\<lparr>cs_sending_chunk := chunk\<rparr>;
       case r of
         Inl e \<Rightarrow> Some (SendError s (Io e), w)
       | Inr content_written \<Rightarrow> do {
           assert_that (content_written \<le> src_len);
           if fin \<and> content_written = src_len then do {
             let footer = (case headers of Some h \<Rightarrow> h | None \<Rightarrow> CHUNK_FOOTER);
             (r, chunk, w) \<leftarrow> write_chunk W w [[]] footer (cs_sending_chunk s) CHUNK_SIZE_MAX;
             let s = s\<lparr>cs_sending_chunk := chunk\<rparr>;
             case r of
               Inl e \<Rightarrow> Some (SendError s (Io e), w)
             | Inr _ \<Rightarrow>
                 Some (if chunk = None then SendComplete s content_written else SendPartial s content_written, w)
           }
           else Some (SendPartial s content_written, w)
         }
     }
   }"

section \<open>Reading the response header\<close>

definition response_header :: "header \<Rightarrow> framing \<Rightarrow> 'e http_error + framing" where
  "response_header h f =
     (if named h ''Content-Length'' then
        (case parse_as_int (h_value h) of
           Inl _ \<Rightarrow> Inl InvalidContentLength
         | Inr len \<Rightarrow> Inr (f\<lparr>fr_content_len := Some len\<rparr>))
      else if named h ''Transfer-Encoding'' then
        (if h_value h = str ''chunked'' then Inr (f\<lparr>fr_chunked := True\<rparr>) else Inl UnsupportedTransferEncoding)
      else if named h ''Connection'' then
        Inr (f\<lparr>fr_keep_alive := fr_keep_alive f \<or> header_contains_param (h_value h) (str ''keep-alive'') True,
               fr_close := fr_close f \<or> header_contains_param (h_value h) (str ''close'') False\<rparr>)
      else Inr f)"

fun response_headers :: "header list \<Rightarrow> framing \<Rightarrow> 'e http_error + framing" where
  "response_headers [] f = Inr f"
| "response_headers (h # hs) f =
     (case response_header h f of Inl e \<Rightarrow> Inl e | Inr f \<Rightarrow> response_headers hs f)"

definition process_response :: "client_state \<Rightarrow> parsed_response \<Rightarrow> 'e http_error + client_state" where
  "process_response s resp =
     (case response_headers (pr_headers resp) framing_init of
        Inl e \<Rightarrow> Inl e
      | Inr f \<Rightarrow>
          let s = s\<lparr>cs_ver_min := pr_version resp, cs_chunked := False\<rparr>;
              s = (if fr_chunked f then s\<lparr>cs_body_size := Unknown, cs_chunked := True\<rparr>
                   else case fr_content_len f of
                     Some len \<Rightarrow> s\<lparr>cs_body_size := Known len, cs_chunk_left := Some len\<rparr>
                   | None \<Rightarrow> s\<lparr>cs_body_size := (if no_body_code (pr_code resp) then NoBody else Unknown)\<rparr>);
              close_end = (cs_body_size s = Unknown \<and> \<not> fr_chunked f)
          in Inr (s\<lparr>cs_persistent := (if pr_version resp \<ge> 1 then \<not> fr_close f \<and> \<not> close_end
                     else fr_keep_alive f \<and> \<not> fr_close f \<and> \<not> close_end)\<rparr>))"

record owned_response =
  or_resp :: parsed_response
  or_body_size :: body_size
  or_remaining :: bytes

text \<open>On \<open>Incomplete\<close> the code hands the state back; on an error the state is gone.\<close>

definition client_recv_header ::
    "'e httparse \<Rightarrow> nat \<Rightarrow> client_state \<Rightarrow> bytes \<Rightarrow> (owned_response \<times> client_state, 'e http_error) parse_status run" where
  "client_recv_header HT slots s buf =
     (case ht_response HT slots buf of
        Inl e \<Rightarrow> Some (ParseFailed (Parse e))
      | Inr None \<Rightarrow> Some Incomplete
      | Inr (Some (n, resp)) \<Rightarrow>
          (case process_response s resp of
             Inl e \<Rightarrow> Some (ParseFailed e)
           | Inr s \<Rightarrow> do {
               remaining \<leftarrow> subslice buf n (length buf);
               Some (Complete (\<lparr>or_resp = resp, or_body_size = cs_body_size s, or_remaining = remaining\<rparr>, s))
             }))"

section \<open>Reading the response body\<close>

definition finished_plain :: "client_state \<Rightarrow> client_finished" where
  "finished_plain s = \<lparr>cf_headers_range = None, cf_persistent = cs_persistent s\<rparr>"

definition process_known_size :: "client_state \<Rightarrow> bytes \<Rightarrow> nat \<Rightarrow> bool \<Rightarrow> ('e http_error + recv_status) run" where
  "process_known_size s src dest_len fin = do {
     chunk_left \<leftarrow> cs_chunk_left s;
     let max_read = min chunk_left (length src);
     let src = take max_read src;
     let n = min (length src) dest_len;
     let chunk_left = chunk_left - n;
     if chunk_left = 0 then Some (Inr (RecvComplete (finished_plain s) n (take n src)))
     else do {
       let s = s\<lparr>cs_chunk_left := Some chunk_left\<rparr>;
       if src = [] then do {
         assert_that (n = 0);
         Some (if fin then Inl (Io UnexpectedEof) else Inr (NeedBytes s))
       }
       else Some (Inr (Read s n (take n src)))
     }
   }"

definition process_unknown_size :: "client_state \<Rightarrow> bytes \<Rightarrow> nat \<Rightarrow> bool \<Rightarrow> ('e http_error + recv_status) run" where
  "process_unknown_size s src dest_len fin = do {
     let n = min (length src) dest_len;
     if n = length src \<and> fin then Some (Inr (RecvComplete (finished_plain s) n (take n src)))
     else if src = [] then do {
       assert_that (n = 0);
       Some (Inr (NeedBytes s))
     }
     else Some (Inr (Read s n (take n src)))
   }"

text \<open>The rest of the chunked case, with \<open>pos\<close> bytes of the size line consumed in this call.\<close>

definition chunked_content ::
    "'e httparse \<Rightarrow> nat \<Rightarrow> client_state \<Rightarrow> bytes \<Rightarrow> nat \<Rightarrow> bool \<Rightarrow> nat \<Rightarrow> ('e http_error + recv_status) run" where
  "chunked_content HT slots s src dest_len fin pos = do {
     chunk_left \<leftarrow> cs_chunk_left s;
     if chunk_left > 0 then do {
       assert_that (pos \<le> length src);
       let max_read = min chunk_left (length src - pos);
       part \<leftarrow> subslice src pos (pos + max_read);
       let n = min (length part) dest_len;
       let pos = pos + n;
       let s = s\<lparr>cs_chunk_left := Some (chunk_left - n)\<rparr>;
       if part = [] then do {
         assert_that (n = 0);
         Some (if fin then Inl (Io UnexpectedEof) else if pos > 0 then Inr (Read s pos []) else Inr (NeedBytes s))
       }
       else Some (Inr (Read s pos (take n part)))
     }
     else if cs_chunk_size s = 0 then do {
       rest \<leftarrow> subslice src pos (length src);
       Some (case ht_headers HT slots rest of
         Inr (Some (x, _)) \<Rightarrow>
           Inr (RecvComplete \<lparr>cf_headers_range = Some (pos, pos + x), cf_persistent = cs_persistent s\<rparr> (pos + x) [])
       | Inr None \<Rightarrow>
           if fin then Inl (Io UnexpectedEof) else if pos > 0 then Inr (Read s pos []) else Inr (NeedBytes s)
       | Inl e \<Rightarrow> Inl (Parse e))
     }
     else do {
       assert_that (pos = 0);
       Some (if length src < 2 then (if fin then Inl (Io UnexpectedEof) else Inr (NeedBytes s))
             else if take 2 src \<noteq> [13, 10] then Inl InvalidChunkSuffix
             else Inr (Read (s\<lparr>cs_chunk_left := None, cs_chunk_size := 0\<rparr>) 2 []))
     }
   }"

definition process_unknown_size_chunked ::
    "'e httparse \<Rightarrow> nat \<Rightarrow> client_state \<Rightarrow> bytes \<Rightarrow> nat \<Rightarrow> bool \<Rightarrow> ('e http_error + recv_status) run" where
  "process_unknown_size_chunked HT slots s src dest_len fin =
     (if cs_chunk_left s = None then
        (case ht_chunk_size HT src of
           Inr (Some (pos, n)) \<Rightarrow>
             if n \<ge> 2 ^ 32 then Some (Inl ChunkTooLarge)
             else chunked_content HT slots (s\<lparr>cs_chunk_left := Some n, cs_chunk_size := n\<rparr>) src dest_len fin pos
         | Inr None \<Rightarrow> Some (if fin then Inl (Io UnexpectedEof) else Inr (NeedBytes s))
         | Inl _ \<Rightarrow> Some (Inl InvalidChunkSize))
      else chunked_content HT slots s src dest_len fin 0)"

definition client_recv ::
    "'e httparse \<Rightarrow> nat \<Rightarrow> client_state \<Rightarrow> bytes \<Rightarrow> nat \<Rightarrow> bool \<Rightarrow> ('e http_error + recv_status) run" where
  "client_recv HT slots s src dest_len fin =
     (case cs_body_size s of
        Known _ \<Rightarrow> process_known_size s src dest_len fin
      | Unknown \<Rightarrow>
          if cs_chunked s then process_unknown_size_chunked HT slots s src dest_len fin
          else process_unknown_size s src dest_len fin
      | NoBody \<Rightarrow> Some (Inr (RecvComplete (finished_plain s) 0 [])))"

end
