(* ===== verification/Http1Body.thy ===== *)
theory Http1Body
  imports Http1Client
begin

text \<open>
  Bodies between the two sides of the HTTP/1 protocol: a caller that sends a chunked body over any number of calls,
  as \<open>ResponseBody\<close> of \<open>src/core/http1/server.rs\<close> does, and a caller that reads one from a byte stream that
  arrives in any pieces, as \<open>ResponseBody\<close> of \<open>src/core/http1/client.rs\<close> does. The two meet in the round trip.
\<close>

section \<open>Sending a chunked body\<close>

text \<open>
  A caller of \<open>send_body\<close>: the bytes it holds and whether they are the last ones. It may add
  bytes until it has marked the end, hands in all it holds (as any list of slices), and drops the bytes reported as
  written. A call that fails changes nothing it holds. \<open>bs_given\<close> records all the bytes added, \<open>bs_late\<close>
  that some call has failed after it had written something.
\<close>

record 'w body_sender =
  bs_proto :: server_protocol
  bs_writer :: 'w
  bs_buf :: bytes
  bs_end :: bool
  bs_given :: bytes
  bs_late :: bool

inductive body_step :: "'w writer \<Rightarrow> ('w \<Rightarrow> bytes) \<Rightarrow> 'w body_sender \<Rightarrow> 'w body_sender \<Rightarrow> bool"
  for W :: "'w writer" and out :: "'w \<Rightarrow> bytes" where
  add: "\<not> bs_end s \<Longrightarrow> body_step W out s (s\<lparr>bs_buf := bs_buf s @ data, bs_end := fin, bs_given := bs_given s @ data\<rparr>)"
| call: "concat src = bs_buf s \<Longrightarrow> length src \<le> SEND_BODY_BUFS_MAX \<Longrightarrow>
     send_body W (bs_writer s) (bs_proto s) src (bs_end s) None = Some (Inr n :: unit http_error + nat, p, w) \<Longrightarrow>
     body_step W out s (s\<lparr>bs_proto := p, bs_writer := w, bs_buf := drop n (bs_buf s)\<rparr>)"
| fail: "concat src = bs_buf s \<Longrightarrow> length src \<le> SEND_BODY_BUFS_MAX \<Longrightarrow>
     send_body W (bs_writer s) (bs_proto s) src (bs_end s) None = Some (Inl e :: unit http_error + nat, p, w) \<Longrightarrow>
     body_step W out s (s\<lparr>bs_proto := p, bs_writer := w, bs_late := bs_late s \<or> out w \<noteq> out (bs_writer s)\<rparr>)"

text \<open>The chunks written in full, and the part of the current one that is out.\<close>

definition chunks_wire :: "bytes list \<Rightarrow> bytes" where
  "chunks_wire cs = concat (map (\<lambda>d. chunk_wire d CHUNK_FOOTER) cs)"

definition last_chunk :: bytes where
  "last_chunk = chunk_wire [] CHUNK_FOOTER"

definition proper_chunk :: "bytes \<Rightarrow> bool" where
  "proper_chunk d \<longleftrightarrow> d \<noteq> [] \<and> length d \<le> CHUNK_SIZE_MAX"

definition chunk_progress :: "chunk option \<Rightarrow> bytes \<Rightarrow> bytes" where
  "chunk_progress c buf = (case c of None \<Rightarrow> [] | Some c \<Rightarrow> take (c_sent c) (chunk_wire (take (c_size c) buf) CHUNK_FOOTER))"

text \<open>A chunk in progress is one of the bytes held, or the closing chunk once nothing is held.\<close>

definition live_chunk :: "chunk option \<Rightarrow> bytes \<Rightarrow> bool" where
  "live_chunk chunk buf \<longleftrightarrow> (case chunk of None \<Rightarrow> True | Some c \<Rightarrow>
     chunk_inv c \<and> c_size c \<le> length buf \<and> (buf \<noteq> [] \<longrightarrow> c_size c > 0) \<and>
     c_sent c < length (chunk_wire (take (c_size c) buf) CHUNK_FOOTER))"

lemma live_chunk_pending: "live_chunk chunk buf \<Longrightarrow> pending_ok chunk"
  by (cases chunk) (simp_all add: live_chunk_def)

text \<open>The chunk that a call works on is live, also when it is new.\<close>

lemma the_chunk_live:
  assumes "live_chunk chunk (concat content)"
  shows "live_chunk (Some (the_chunk content chunk CHUNK_SIZE_MAX)) (concat content)"
    and "chunk_progress (Some (the_chunk content chunk CHUNK_SIZE_MAX)) (concat content) = chunk_progress chunk (concat content)"
proof -
  have new: "chunk_inv (the_chunk content None CHUNK_SIZE_MAX)" by (rule the_chunk_ok(2)) simp_all
  have "0 < CHUNK_SIZE_MAX" by (simp add: CHUNK_SIZE_MAX_def)
  then show "live_chunk (Some (the_chunk content chunk CHUNK_SIZE_MAX)) (concat content)"
    using assms new the_chunk_None [of CHUNK_SIZE_MAX content]
    by (cases chunk) (auto simp: live_chunk_def chunk_wire_def size_line_def simp del: concat_eq_Nil_conv)
  show "chunk_progress (Some (the_chunk content chunk CHUNK_SIZE_MAX)) (concat content) = chunk_progress chunk (concat content)"
    using the_chunk_None(2) [of CHUNK_SIZE_MAX content] by (cases chunk) (simp_all add: chunk_progress_def)
qed

context vectored_sink
begin

lemma chunk_write:
  assumes W: "w_write_vectored W = write_vectored" and w: "invar w" and src: "length src \<le> SEND_BODY_BUFS_MAX"
    and live: "live_chunk chunk (concat src)" and out: "out w = base @ chunk_progress chunk (concat src)"
  shows "\<exists>r c' w'. write_chunk W w src CHUNK_FOOTER chunk CHUNK_SIZE_MAX = Some (r, c', w') \<and> invar w' \<and>
    (case r of
       Inl e \<Rightarrow> live_chunk c' (concat src) \<and> out w' = out w \<and> chunk_progress c' (concat src) = chunk_progress chunk (concat src) \<and> c' \<noteq> None
     | Inr n \<Rightarrow> (c' \<noteq> None \<and> n = 0 \<and> live_chunk c' (concat src) \<and> out w' = base @ chunk_progress c' (concat src)) \<or>
         (c' = None \<and> n \<le> length (concat src) \<and> n \<le> CHUNK_SIZE_MAX \<and> (concat src \<noteq> [] \<longrightarrow> n > 0) \<and> out w' \<noteq> out w \<and>
          out w' = base @ chunk_wire (take n (concat src)) CHUNK_FOOTER))"
proof -
  let ?buf = "concat src"
  define c where c: "c = the_chunk src chunk CHUNK_SIZE_MAX"
  define wire where wire: "wire = chunk_wire (take (c_size c) ?buf) CHUNK_FOOTER"
  have lc: "live_chunk (Some c) ?buf" and pc: "chunk_progress (Some c) ?buf = chunk_progress chunk ?buf"
    using the_chunk_live [OF live] by (auto simp: c)
  have out': "out w = base @ take (c_sent c) wire" using out pc by (simp add: chunk_progress_def wire)
  have sz: "c_size c \<le> length ?buf" "c_sent c < length wire" "c_size c \<le> CHUNK_SIZE_MAX" "?buf \<noteq> [] \<longrightarrow> c_size c > 0"
    using lc by (auto simp: live_chunk_def wire chunk_inv_def simp del: concat_eq_Nil_conv)
  obtain r c' w' where 1: "write_chunk W w src CHUNK_FOOTER chunk CHUNK_SIZE_MAX = Some (r, c', w')" "invar w'"
    and 2: "case r of
       Inl e \<Rightarrow> c' = Some c \<and> out w' = out w
     | Inr n \<Rightarrow> (\<exists>m. out w' = out w @ take m (drop (c_sent c) wire) \<and> c_sent c + m \<le> length wire \<and>
         (if c_sent c + m < length wire then n = 0 \<and> c' = Some (c\<lparr>c_sent := c_sent c + m\<rparr>)
          else n = c_size c \<and> c' = None))"
    using write_chunk_took [OF W w src order_refl live_chunk_pending [OF live] c wire sz(1) less_imp_le [OF sz(2)]] by blast
  show ?thesis
  proof (cases r)
    case (Inl e)
    then show ?thesis using 1 2 lc pc by simp
  next
    case (Inr n)
    then obtain m where m: "out w' = base @ take (c_sent c + m) wire" "c_sent c + m \<le> length wire" "m > 0 \<longrightarrow> out w' \<noteq> out w"
      "if c_sent c + m < length wire then n = 0 \<and> c' = Some (c\<lparr>c_sent := c_sent c + m\<rparr>) else n = c_size c \<and> c' = None"
      using 2 out' by (auto simp: take_add)
    show ?thesis
    proof (cases "c_sent c + m < length wire")
      case True
      then have c': "n = 0" "c' = Some (c\<lparr>c_sent := c_sent c + m\<rparr>)" using m(4) by auto
      have "live_chunk c' ?buf" using lc True c' by (auto simp: live_chunk_def chunk_inv_def wire simp del: concat_eq_Nil_conv)
      moreover have "chunk_progress c' ?buf = take (c_sent c + m) wire" using c' by (simp add: chunk_progress_def wire)
      ultimately show ?thesis using 1 Inr c' m(1) by simp
    next
      case False
      then have "n = c_size c" "c' = None" "m > 0" "out w' = base @ wire" using m sz(2) by auto
      then show ?thesis using 1 Inr sz m(3) by (simp add: wire del: concat_eq_Nil_conv)
    qed
  qed
qed

end


text \<open>
  The invariant of a sender: \<open>base\<close> is what was out before the body, \<open>cs\<close> are the chunks sent in full.
\<close>

definition sender_inv :: "('w \<Rightarrow> bytes) \<Rightarrow> bytes \<Rightarrow> bytes list \<Rightarrow> 'w body_sender \<Rightarrow> bool" where
  "sender_inv out base cs s \<longleftrightarrow>
     (\<forall>d \<in> set cs. proper_chunk d) \<and> sp_body_size (bs_proto s) = Unknown \<and> sp_chunked (bs_proto s) \<and>
     (if sp_state (bs_proto s) = Finished then bs_end s \<and> bs_buf s = [] \<and> out (bs_writer s) = base @ chunks_wire cs @ last_chunk
      else sp_state (bs_proto s) = SendingBody \<and> live_chunk (sp_sending_chunk (bs_proto s)) (bs_buf s) \<and>
        (bs_buf s = [] \<and> sp_sending_chunk (bs_proto s) \<noteq> None \<longrightarrow> bs_end s) \<and>
        out (bs_writer s) = base @ chunks_wire cs @ chunk_progress (sp_sending_chunk (bs_proto s)) (bs_buf s))"

lemma chunks_wire_simps [simp]:
  "chunks_wire [] = []" "chunks_wire (cs @ [d]) = chunks_wire cs @ chunk_wire d CHUNK_FOOTER"
  by (simp_all add: chunks_wire_def)

lemma live_chunk_grow: "buf \<noteq> [] \<or> chunk = None \<Longrightarrow> live_chunk chunk buf \<Longrightarrow> live_chunk chunk (buf @ data)"
  by (cases chunk) (auto simp: live_chunk_def)

lemma chunk_progress_grow: "live_chunk chunk buf \<Longrightarrow> chunk_progress chunk (buf @ data) = chunk_progress chunk buf"
  by (cases chunk) (auto simp: live_chunk_def chunk_progress_def)

lemma add_inv:
  assumes "sender_inv out base cs s" and "\<not> bs_end s"
  shows "sender_inv out base cs (s\<lparr>bs_buf := bs_buf s @ data, bs_end := fin, bs_given := g\<rparr>)"
  using assms live_chunk_grow chunk_progress_grow by (fastforce simp: sender_inv_def)

text \<open>The two phases of a call on a chunked body: the bytes held, then the closing chunk.\<close>

lemma send_body_chunked:
  assumes "sp_state p = SendingBody" and "sp_body_size p = Unknown" and "sp_chunked p" and "length src \<le> SEND_BODY_BUFS_MAX"
    and "(if concat src \<noteq> [] then write_chunk W w src CHUNK_FOOTER (sp_sending_chunk p) CHUNK_SIZE_MAX
          else Some (Inr 0, sp_sending_chunk p, w)) = Some (r1, c1, w1)"
  shows "send_body W w p src fin None =
     (case r1 of
        Inl e \<Rightarrow> Some (Inl (Io e :: 'e http_error), p\<lparr>sp_sending_chunk := c1\<rparr>, w1)
      | Inr n \<Rightarrow>
          if fin \<and> n \<ge> length (concat src) then do {
            (r, c2, w2) \<leftarrow> write_chunk W w1 [[]] CHUNK_FOOTER c1 CHUNK_SIZE_MAX;
            case r of
              Inl e \<Rightarrow> Some (Inl (Io e), p\<lparr>sp_sending_chunk := c2\<rparr>, w2)
            | Inr _ \<Rightarrow> Some (Inr n, if c2 = None then p\<lparr>sp_sending_chunk := c2, sp_state := Finished\<rparr> else p\<lparr>sp_sending_chunk := c2\<rparr>, w2)
          }
          else Some (Inr n, p\<lparr>sp_sending_chunk := c1\<rparr>, w1))"
proof -
  have cap: "cap_bufs src SEND_BODY_BUFS_MAX = (src, False)" using assms(4) by (simp add: cap_bufs_def)
  have len: "length (concat src) > 0 \<longleftrightarrow> concat src \<noteq> []" by (simp del: concat_eq_Nil_conv)
  show ?thesis
    unfolding send_body_def Let_def cap using assms(1-3,5)
    by (cases r1) (simp_all add: len del: length_greater_0_conv length_concat concat_eq_Nil_conv
        cong: if_cong split: Option.bind_split sum.split)
qed


context vectored_sink
begin

lemma closing_write:
  assumes W: "w_write_vectored W = write_vectored" and w: "invar w"
    and live: "live_chunk chunk []" and out: "out w = base @ chunk_progress chunk []"
  shows "\<exists>r c' w'. write_chunk W w [[]] CHUNK_FOOTER chunk CHUNK_SIZE_MAX = Some (r, c', w') \<and> invar w' \<and>
    (case r of
       Inl e \<Rightarrow> live_chunk c' [] \<and> out w' = out w \<and> chunk_progress c' [] = chunk_progress chunk []
     | Inr n \<Rightarrow> (c' \<noteq> None \<and> live_chunk c' [] \<and> out w' = base @ chunk_progress c' []) \<or> (c' = None \<and> out w' = base @ last_chunk))"
  using chunk_write [OF W w, of "[[]]" chunk base] live out
  by (fastforce simp: SEND_BODY_BUFS_MAX_def last_chunk_def split: sum.splits)

lemma call_idle:
  assumes W: "w_write_vectored W = write_vectored" and w: "invar (bs_writer s)" and inv: "sender_inv out base cs s"
    and src: "concat src = bs_buf s" "length src \<le> SEND_BODY_BUFS_MAX" and empty: "bs_buf s = []"
    and call: "send_body W (bs_writer s) (bs_proto s) src (bs_end s) None = Some (r :: 'e http_error + nat, p, w')"
  shows "invar w' \<and> sender_inv out base cs (s\<lparr>bs_proto := p, bs_writer := w'\<rparr>) \<and> (\<forall>n. r = Inr n \<longrightarrow> n = 0)"
proof -
  let ?p = "bs_proto s"
  have state: "sp_state ?p = SendingBody" using call by (auto simp: send_body_def split: Option.bind_splits)
  have i: "sp_body_size ?p = Unknown" "sp_chunked ?p" "live_chunk (sp_sending_chunk ?p) []"
      "out (bs_writer s) = (base @ chunks_wire cs) @ chunk_progress (sp_sending_chunk ?p) []"
    using inv state empty by (auto simp: sender_inv_def)
  note eq = send_body_chunked [OF state i(1,2) src(2), of W "bs_writer s" "Inr 0" "sp_sending_chunk ?p" "bs_writer s" "bs_end s", where 'e = 'e, unfolded src(1) empty, simplified]
  show ?thesis
  proof (cases "bs_end s")
    case False
    then show ?thesis using call eq w inv state empty by (auto simp: sender_inv_def)
  next
    case True
    obtain r2 c2 w2 where 2: "write_chunk W (bs_writer s) [[]] CHUNK_FOOTER (sp_sending_chunk ?p) CHUNK_SIZE_MAX = Some (r2, c2, w2)"
      "invar w2" and out2: "case r2 of
       Inl e \<Rightarrow> live_chunk c2 [] \<and> out w2 = out (bs_writer s) \<and> chunk_progress c2 [] = chunk_progress (sp_sending_chunk ?p) []
     | Inr n \<Rightarrow> (c2 \<noteq> None \<and> live_chunk c2 [] \<and> out w2 = (base @ chunks_wire cs) @ chunk_progress c2 []) \<or>
         (c2 = None \<and> out w2 = (base @ chunks_wire cs) @ last_chunk)"
      using closing_write [OF W w i(3,4)] by blast
    show ?thesis
      using call eq True 2 out2 inv state empty i
      by (cases r2) (auto simp: sender_inv_def)
  qed
qed


lemma idle_failure:
  assumes W: "w_write_vectored W = write_vectored" and w: "invar (bs_writer s)" and inv: "sender_inv out base cs s"
    and src: "concat src = bs_buf s" "length src \<le> SEND_BODY_BUFS_MAX" and empty: "bs_buf s = []"
    and call: "send_body W (bs_writer s) (bs_proto s) src (bs_end s) None = Some (Inl e :: 'e http_error + nat, p, w')"
  shows "bs_end s"
proof (rule ccontr)
  let ?p = "bs_proto s"
  assume "\<not> bs_end s"
  have state: "sp_state ?p = SendingBody" using call by (auto simp: send_body_def split: Option.bind_splits)
  have i: "sp_body_size ?p = Unknown" "sp_chunked ?p" using inv state by (auto simp: sender_inv_def)
  from send_body_chunked [OF state i src(2), of W "bs_writer s" "Inr 0" "sp_sending_chunk ?p" "bs_writer s" "bs_end s", where 'e = 'e, unfolded src(1) empty, simplified]
  show False using call \<open>\<not> bs_end s\<close> by simp
qed

lemma call_data:
  assumes W: "w_write_vectored W = write_vectored" and w: "invar (bs_writer s)" and inv: "sender_inv out base cs s"
    and src: "concat src = bs_buf s" "length src \<le> SEND_BODY_BUFS_MAX" and data: "bs_buf s \<noteq> []"
    and call: "send_body W (bs_writer s) (bs_proto s) src (bs_end s) None = Some (r :: 'e http_error + nat, p, w')"
  shows "invar w' \<and> (case r of
      Inl e \<Rightarrow> (out w' = out (bs_writer s) \<longrightarrow> sender_inv out base cs (s\<lparr>bs_proto := p, bs_writer := w'\<rparr>)) \<and> (out w' \<noteq> out (bs_writer s) \<longrightarrow> bs_end s)
    | Inr n \<Rightarrow> n \<le> length (bs_buf s) \<and>
        sender_inv out base (cs @ (if n = 0 then [] else [take n (bs_buf s)])) (s\<lparr>bs_proto := p, bs_writer := w', bs_buf := drop n (bs_buf s)\<rparr>))"
proof -
  let ?p = "bs_proto s" and ?buf = "bs_buf s" and ?base = "base @ chunks_wire cs"
  have state: "sp_state ?p = SendingBody" using call by (auto simp: send_body_def split: Option.bind_splits)
  have i: "sp_body_size ?p = Unknown" "sp_chunked ?p" "live_chunk (sp_sending_chunk ?p) ?buf" "\<forall>d \<in> set cs. proper_chunk d"
      "out (bs_writer s) = ?base @ chunk_progress (sp_sending_chunk ?p) ?buf"
    using inv state by (auto simp: sender_inv_def)
  obtain r1 c1 w1 where 1: "write_chunk W (bs_writer s) src CHUNK_FOOTER (sp_sending_chunk ?p) CHUNK_SIZE_MAX = Some (r1, c1, w1)" "invar w1"
    and out1: "case r1 of
       Inl e \<Rightarrow> live_chunk c1 ?buf \<and> out w1 = out (bs_writer s) \<and> chunk_progress c1 ?buf = chunk_progress (sp_sending_chunk ?p) ?buf \<and> c1 \<noteq> None
     | Inr n \<Rightarrow> (c1 \<noteq> None \<and> n = 0 \<and> live_chunk c1 ?buf \<and> out w1 = ?base @ chunk_progress c1 ?buf) \<or>
         (c1 = None \<and> n \<le> length ?buf \<and> n \<le> CHUNK_SIZE_MAX \<and> (?buf \<noteq> [] \<longrightarrow> n > 0) \<and> out w1 \<noteq> out (bs_writer s) \<and>
          out w1 = ?base @ chunk_wire (take n ?buf) CHUNK_FOOTER)"
    using chunk_write [OF W w src(2) i(3,5) [folded src(1)], unfolded src(1)] by blast
  have "(if concat src \<noteq> [] then write_chunk W (bs_writer s) src CHUNK_FOOTER (sp_sending_chunk ?p) CHUNK_SIZE_MAX
      else Some (Inr 0, sp_sending_chunk ?p, bs_writer s)) = Some (r1, c1, w1)"
    using 1(1) src(1) data by simp
  note eq = send_body_chunked [OF state i(1,2) src(2) this, of "bs_end s", where 'e = 'e, unfolded src(1) call]
  show ?thesis
  proof (cases r1)
    case (Inl e)
    then show ?thesis using eq 1 out1 inv state data by (auto simp: sender_inv_def)
  next
    case (Inr n)
    show ?thesis
    proof (cases "c1 = None")
      case False
      then show ?thesis using eq Inr 1 out1 inv state data by (auto simp: sender_inv_def)
    next
      case None: True
      then have n: "n \<le> length ?buf" "n \<le> CHUNK_SIZE_MAX" "n > 0" "out w1 \<noteq> out (bs_writer s)"
        "out w1 = ?base @ chunk_wire (take n ?buf) CHUNK_FOOTER" using Inr out1 data by auto
      then have chunks: "\<forall>d \<in> set (cs @ [take n ?buf]). proper_chunk d" "out w1 = (base @ chunks_wire (cs @ [take n ?buf])) @ chunk_progress None []"
        using i(4) data by (auto simp: proper_chunk_def chunk_progress_def)
      show ?thesis
      proof (cases "bs_end s \<and> length ?buf \<le> n")
        case False
        then show ?thesis using eq Inr None 1 n chunks state i by (auto simp: sender_inv_def live_chunk_def chunk_progress_def)
      next
        case True
        obtain r2 c2 w2 where 2: "write_chunk W w1 [[]] CHUNK_FOOTER None CHUNK_SIZE_MAX = Some (r2, c2, w2)" "invar w2"
          and out2: "case r2 of Inl e \<Rightarrow> live_chunk c2 [] \<and> out w2 = out w1 \<and> chunk_progress c2 [] = chunk_progress None []
            | Inr _ \<Rightarrow> (c2 \<noteq> None \<and> live_chunk c2 [] \<and> out w2 = (base @ chunks_wire (cs @ [take n ?buf])) @ chunk_progress c2 []) \<or>
                (c2 = None \<and> out w2 = (base @ chunks_wire (cs @ [take n ?buf])) @ last_chunk)"
          using closing_write [OF W 1(2) _ chunks(2)] by (auto simp: live_chunk_def)
        show ?thesis
          using eq Inr None True 2 out2 n(1,3,4) chunks(1) state i
          by (cases r2) (auto simp: sender_inv_def)
      qed
    qed
  qed
qed

end

text \<open>Every run from a fresh chunked body.\<close>

definition sender_start :: "server_protocol \<Rightarrow> 'w \<Rightarrow> 'w body_sender" where
  "sender_start p w = \<lparr>bs_proto = p, bs_writer = w, bs_buf = [], bs_end = False, bs_given = [], bs_late = False\<rparr>"

definition chunked_start :: "server_protocol \<Rightarrow> bool" where
  "chunked_start p \<longleftrightarrow> sp_state p = SendingBody \<and> sp_body_size p = Unknown \<and> sp_chunked p \<and> sp_sending_chunk p = None"

lemma sender_inv_start: "chunked_start p \<Longrightarrow> sender_inv out (out w) [] (sender_start p w)"
  by (simp add: chunked_start_def sender_inv_def sender_start_def live_chunk_def chunk_progress_def)

text \<open>A failure after a write leaves the sender in no particular state, but can happen only once the end is marked.\<close>

definition sender_ok :: "('w \<Rightarrow> bytes) \<Rightarrow> ('w \<Rightarrow> bool) \<Rightarrow> bytes \<Rightarrow> 'w body_sender \<Rightarrow> bool" where
  "sender_ok out invar base s \<longleftrightarrow>
     (if bs_late s then bs_end s
      else invar (bs_writer s) \<and> (\<exists>cs. sender_inv out base cs s \<and> concat cs @ bs_buf s = bs_given s))"

lemma sender_inv_late: "sender_inv out base cs s \<Longrightarrow> sender_inv out base cs (s\<lparr>bs_late := b\<rparr>)"
  by (simp add: sender_inv_def)

context vectored_sink
begin

lemma body_step_inv:
  assumes W: "w_write_vectored W = write_vectored" and "body_step W out s s'" and "sender_ok out invar base s"
  shows "sender_ok out invar base s'"
  using assms(2)
proof (cases rule: body_step.cases)
  case (add data fin)
  then show ?thesis using assms(3) add_inv [where data = data and fin = fin and g = "bs_given s @ data"]
    by (auto simp: sender_ok_def split: if_splits) blast
next
  case (call src n p w)
  show ?thesis
  proof (cases "bs_late s")
    case True
    then show ?thesis using assms(3) call(1) by (simp add: sender_ok_def)
  next
    case False
    then obtain cs where cs: "invar (bs_writer s)" "sender_inv out base cs s" "concat cs @ bs_buf s = bs_given s"
      using assms(3) by (auto simp: sender_ok_def)
    show ?thesis
    proof (cases "bs_buf s = []")
      case True
      then show ?thesis using call_idle [OF W cs(1,2) call(2,3) True call(4)] call(1) cs(3) False
        by (auto simp: sender_ok_def sender_inv_def intro!: exI [of _ cs])
    next
      case data: False
      then show ?thesis using call_data [OF W cs(1,2) call(2,3) data call(4)] call(1) cs(3) False
        by (auto simp: sender_ok_def intro!: exI [of _ "cs @ (if n = 0 then [] else [take n (bs_buf s)])"])
    qed
  qed
next
  case (fail src e p w)
  show ?thesis
  proof (cases "bs_late s")
    case True
    then show ?thesis using assms(3) fail(1) by (simp add: sender_ok_def)
  next
    case False
    then obtain cs where cs: "invar (bs_writer s)" "sender_inv out base cs s" "concat cs @ bs_buf s = bs_given s"
      using assms(3) by (auto simp: sender_ok_def)
    have "invar w \<and> (if out w = out (bs_writer s) then sender_inv out base cs (s\<lparr>bs_proto := p, bs_writer := w\<rparr>) else bs_end s)"
    proof (cases "bs_buf s = []")
      case True
      from call_idle [OF W cs(1,2) fail(2,3) True fail(4)] have "invar w" "sender_inv out base cs (s\<lparr>bs_proto := p, bs_writer := w\<rparr>)" by auto
      moreover have "bs_end s" if "out w \<noteq> out (bs_writer s)" using idle_failure [OF W cs(1,2) fail(2,3) True fail(4)] that by blast
      ultimately show ?thesis by simp
    next
      case data: False
      then show ?thesis using call_data [OF W cs(1,2) fail(2,3) data fail(4)] by simp
    qed
    then show ?thesis using cs(3) False fail(1) sender_inv_late [of out base cs "s\<lparr>bs_proto := p, bs_writer := w\<rparr>" False]
      by (auto simp: sender_ok_def split: if_splits intro!: exI [of _ cs])
  qed
qed

lemma body_run_inv:
  assumes "(body_step W out)\<^sup>*\<^sup>* s s'" and W: "w_write_vectored W = write_vectored" and "sender_ok out invar base s"
  shows "sender_ok out invar base s'"
  using assms(1,3) by (induction rule: rtranclp_induct) (use body_step_inv [OF W] in blast)+

end

lemma chunked_body_out:
  assumes sink: "vectored_sink (w_write_vectored W) out invar" and "invar w" and "chunked_start p"
    and run: "(body_step W out)\<^sup>*\<^sup>* (sender_start p w) s"
  shows "(bs_late s \<longrightarrow> bs_end s) \<and> (\<not> bs_late s \<and> sp_state (bs_proto s) = Finished \<longrightarrow>
    (\<exists>cs. (\<forall>d \<in> set cs. proper_chunk d) \<and> concat cs = bs_given s \<and> out (bs_writer s) = out w @ chunks_wire cs @ last_chunk))"
proof -
  have "sender_ok out invar (out w) (sender_start p w)"
    using assms(2) sender_inv_start [OF assms(3), of out w] by (auto simp: sender_ok_def sender_start_def)
  then have "sender_ok out invar (out w) s" using vectored_sink.body_run_inv [OF sink run refl] by blast
  then show ?thesis by (auto simp: sender_ok_def sender_inv_def split: if_splits intro: exI)
qed

section \<open>Reading a chunked body\<close>

text \<open>
  What the code relies on of \<open>httparse\<close> for the bytes that a sender writes: a size line is read as its number and length, a
  proper prefix of it is partial; the empty trailer section is two bytes, and partial before they are there.
\<close>

definition chunk_parser :: "'e httparse \<Rightarrow> bool" where
  "chunk_parser HT \<longleftrightarrow>
     (\<forall>n rest. n \<le> CHUNK_SIZE_MAX \<longrightarrow> ht_chunk_size HT (size_line n @ rest) = Inr (Some (length (size_line n), n))) \<and>
     (\<forall>n k. n \<le> CHUNK_SIZE_MAX \<and> k < length (size_line n) \<longrightarrow> ht_chunk_size HT (take k (size_line n)) = Inr None) \<and>
     (\<forall>slots rest. ht_headers HT slots (CHUNK_FOOTER @ rest) = Inr (Some (2, []))) \<and>
     (\<forall>slots k. k < 2 \<longrightarrow> ht_headers HT slots (take k CHUNK_FOOTER) = Inr None)"

text \<open>
  A caller of \<open>recv\<close>: its state until the body is complete, the bytes that have arrived and are not consumed, those still to
  come, and the bytes it has read.
\<close>

record body_reader =
  br_state :: "client_state option"
  br_src :: bytes
  br_coming :: bytes
  br_got :: bytes

inductive read_step :: "'e httparse \<Rightarrow> body_reader \<Rightarrow> body_reader \<Rightarrow> bool" for HT :: "'e httparse" where
  arrive: "read_step HT r (r\<lparr>br_src := br_src r @ take k (br_coming r), br_coming := drop k (br_coming r)\<rparr>)"
| need: "br_state r = Some s \<Longrightarrow> client_recv HT slots s (br_src r) n False = Some (Inr (NeedBytes s')) \<Longrightarrow>
     read_step HT r (r\<lparr>br_state := Some s'\<rparr>)"
| read: "br_state r = Some s \<Longrightarrow> client_recv HT slots s (br_src r) n False = Some (Inr (Read s' k data)) \<Longrightarrow>
     read_step HT r (r\<lparr>br_state := Some s', br_src := drop k (br_src r), br_got := br_got r @ data\<rparr>)"
| complete: "br_state r = Some s \<Longrightarrow> client_recv HT slots s (br_src r) n False = Some (Inr (RecvComplete f k data)) \<Longrightarrow>
     read_step HT r (r\<lparr>br_state := None, br_src := drop k (br_src r), br_got := br_got r @ data\<rparr>)"

text \<open>Where a reader stands: \<open>rest\<close> is the stream not yet consumed, \<open>body\<close> the bytes it still has to yield.\<close>

definition reader_at :: "client_state \<Rightarrow> bytes \<Rightarrow> bytes \<Rightarrow> bool" where
  "reader_at s rest body \<longleftrightarrow> cs_body_size s = Unknown \<and> cs_chunked s \<and>
     (case cs_chunk_left s of
        None \<Rightarrow> \<exists>cs. (\<forall>d \<in> set cs. proper_chunk d) \<and> rest = chunks_wire cs @ last_chunk \<and> body = concat cs
      | Some k \<Rightarrow>
          if cs_chunk_size s = 0 then k = 0 \<and> rest = CHUNK_FOOTER \<and> body = []
          else \<exists>d cs. (\<forall>d \<in> set cs. proper_chunk d) \<and> length d = k \<and>
            rest = d @ CHUNK_FOOTER @ chunks_wire cs @ last_chunk \<and> body = d @ concat cs)"

text \<open>One call, on a prefix \<open>src\<close> of the stream.\<close>

definition read_ok :: "bytes \<Rightarrow> bytes \<Rightarrow> bytes \<Rightarrow> nat \<Rightarrow> ('e http_error + recv_status) run \<Rightarrow> bool" where
  "read_ok src coming body n res \<longleftrightarrow>
     (case res of
        Some (Inr (NeedBytes s)) \<Rightarrow> reader_at s (src @ coming) body \<and> coming \<noteq> []
      | Some (Inr (Read s k data)) \<Rightarrow> k \<le> length src \<and> (k > 0 \<or> n = 0) \<and>
          (\<exists>body'. body = data @ body' \<and> reader_at s (drop k src @ coming) body')
      | Some (Inr (RecvComplete f k data)) \<Rightarrow> k = length src \<and> coming = [] \<and> body = data
      | _ \<Rightarrow> False)"

lemma chunks_wire_Cons [simp]: "chunks_wire (d # cs) = chunk_wire d CHUNK_FOOTER @ chunks_wire cs"
  by (simp add: chunks_wire_def)

text \<open>The stream starts with a size line whenever a chunk is due.\<close>

lemma stream_head:
  assumes "\<forall>d \<in> set cs. proper_chunk d"
  obtains n rest where "chunks_wire cs @ last_chunk = size_line n @ rest" and "n \<le> CHUNK_SIZE_MAX"
    and "(n = 0 \<and> cs = [] \<and> rest = CHUNK_FOOTER) \<or>
      (\<exists>d ds. n > 0 \<and> cs = d # ds \<and> proper_chunk d \<and> length d = n \<and> rest = d @ CHUNK_FOOTER @ chunks_wire ds @ last_chunk)"
proof (cases cs)
  case Nil
  then show thesis using that [of 0 CHUNK_FOOTER] by (simp add: last_chunk_def chunk_wire_def)
next
  case (Cons d ds)
  then show thesis
    using that [of "length d" "d @ CHUNK_FOOTER @ chunks_wire ds @ last_chunk"] assms
    by (auto simp: chunk_wire_def proper_chunk_def)
qed

lemma size_line_nonempty [simp]: "size_line n \<noteq> []" "length (size_line n) > 0"
  by (simp_all add: size_line_def)

lemma prefix_cases:
  assumes "src @ coming = line @ rest"
  obtains (full) tail where "src = line @ tail" and "rest = tail @ coming"
    | (partial) k where "k < length line" and "src = take k line" and "coming \<noteq> []"
proof (cases "length line \<le> length src")
  case True
  have "take (length line) src = line" using arg_cong [OF assms, of "take (length line)"] True by simp
  moreover have "drop (length line) src @ coming = rest" using arg_cong [OF assms, of "drop (length line)"] True by simp
  ultimately show thesis using full [of "drop (length line) src"] by (metis append_take_drop_id)
next
  case False
  then have "src = take (length src) line" using arg_cong [OF assms, of "take (length src)"] by simp
  moreover have "coming \<noteq> []" using False arg_cong [OF assms, of length] by auto
  ultimately show thesis using partial [of "length src"] False by simp
qed


lemma content_read:
  assumes k: "cs_chunk_left s = Some k" "k > 0" and pos: "pos \<le> length src" and at: "reader_at s (drop pos src @ coming) body"
    and sz: "cs_chunk_size s \<noteq> 0"
  shows "read_ok src coming body n (chunked_content HT slots s src n False pos)"
proof -
  obtain d cs where d: "\<forall>d \<in> set cs. proper_chunk d" "length d = k"
      "drop pos src @ coming = d @ CHUNK_FOOTER @ chunks_wire cs @ last_chunk" "body = d @ concat cs"
    and s: "cs_body_size s = Unknown" "cs_chunked s"
    using at k sz by (auto simp: reader_at_def)
  define part where part_def: "part = take (min k (length src - pos)) (drop pos src)"
  define m where m_def: "m = min (length part) n"
  have m: "m \<le> length d" "m \<le> length (drop pos src)" using d(2) by (auto simp: m_def part_def)
  have part: "take m part = take m d"
  proof -
    have "take m part = take m (drop pos src @ coming)" using m(2) by (simp add: m_def part_def)
    then show ?thesis using m(1) by (simp only: d(3)) simp
  qed
  have rest: "drop (pos + m) src @ coming = drop m d @ CHUNK_FOOTER @ chunks_wire cs @ last_chunk"
  proof -
    have "drop m (drop pos src @ coming) = drop (pos + m) src @ coming" using m(2) by (simp add: add.commute)
    then show ?thesis using m(1) by (simp only: d(3)) simp
  qed
  have at': "reader_at (s\<lparr>cs_chunk_left := Some (k - m)\<rparr>) (drop (pos + m) src @ coming) (drop m d @ concat cs)"
    unfolding rest using s sz d(1,2) by (auto simp: reader_at_def intro!: exI [of _ "drop m d"] exI [of _ cs])
  have body: "body = take m d @ drop m d @ concat cs" using d(4) by simp
  have sub: "subslice src pos (pos + min k (length src - pos)) = Some part"
    using pos unfolding part_def by (subst subslice_eq) auto
  show ?thesis
  proof (cases "part = []")
    case True
    then have src: "pos = length src" using k pos by (auto simp: part_def min_def split: if_splits)
    have "coming \<noteq> []" using d(2,3) k src by auto
    then show ?thesis using k pos at' True src body part sub
      by (auto simp: chunked_content_def read_ok_def Let_def m_def)
  next
    case False
    then have "chunked_content HT slots s src n False pos =
        Some (Inr (Read (s\<lparr>cs_chunk_left := Some (k - m)\<rparr>) (pos + m) (take m d)))"
      using k sub pos part by (simp add: chunked_content_def Let_def m_def)
    moreover have "0 < pos + m \<or> n = 0" using False by (cases "n = 0") (auto simp: m_def)
    moreover have "pos + m \<le> length src" using m(2) pos by auto
    ultimately show ?thesis using at' body by (auto simp: read_ok_def)
  qed
qed

lemma footer_read:
  assumes parser: "chunk_parser HT" and k: "cs_chunk_left s = Some 0" and pos: "pos \<le> length src"
    and at: "reader_at s (drop pos src @ coming) body" and sz: "cs_chunk_size s = 0 \<or> pos = 0"
  shows "read_ok src coming body n (chunked_content HT slots s src n False pos)"
proof (cases "cs_chunk_size s = 0")
  case True
  then have rest: "drop pos src @ coming = CHUNK_FOOTER @ []" and body: "body = []"
    using at k by (auto simp: reader_at_def)
  show ?thesis
    using rest
  proof (cases rule: prefix_cases)
    case (full tail)
    then have "ht_headers HT slots (drop pos src) = Inr (Some (2, []))" "coming = []" "length src = pos + 2"
      using parser pos by (auto simp: chunk_parser_def CHUNK_FOOTER_def dest: arg_cong [of _ _ length])
    then show ?thesis using True k pos body by (simp add: chunked_content_def read_ok_def)
  next
    case (partial j)
    then have "ht_headers HT slots (drop pos src) = Inr None"
      using parser by (simp add: chunk_parser_def CHUNK_FOOTER_def)
    then show ?thesis using True k pos at partial(3) by (cases "pos = 0") (simp_all add: chunked_content_def read_ok_def body)
  qed
next
  case False
  then have pos: "pos = 0" using sz by simp
  obtain cs where cs: "\<forall>d \<in> set cs. proper_chunk d" "src @ coming = CHUNK_FOOTER @ (chunks_wire cs @ last_chunk)" "body = concat cs"
    and s: "cs_body_size s = Unknown" "cs_chunked s"
    using at k False pos by (auto simp: reader_at_def)
  show ?thesis
    using cs(2)
  proof (cases rule: prefix_cases)
    case (full tail)
    then have "take 2 src = [13, 10]" "\<not> length src < 2" "drop 2 src = tail" by (auto simp: CHUNK_FOOTER_def)
    moreover have "reader_at (s\<lparr>cs_chunk_left := None, cs_chunk_size := 0\<rparr>) (tail @ coming) body"
      using full(2) cs s by (auto simp: reader_at_def)
    ultimately show ?thesis using False k pos by (auto simp: chunked_content_def read_ok_def)
  next
    case (partial j)
    then have "length src < 2" by (auto simp: CHUNK_FOOTER_def)
    then show ?thesis using False k pos at partial(3) by (auto simp: chunked_content_def read_ok_def)
  qed
qed

lemma client_read_ok:
  assumes parser: "chunk_parser HT" and at: "reader_at s (src @ coming) body"
  shows "read_ok src coming body n (client_recv HT slots s src n False)"
proof -
  have s: "client_recv HT slots s src n False = process_unknown_size_chunked HT slots s src n False"
    using at by (simp add: client_recv_def reader_at_def)
  show ?thesis
  proof (cases "cs_chunk_left s")
    case (Some k)
    show ?thesis
    proof (cases "k = 0")
      case True
      then show ?thesis using footer_read [OF parser, of s 0 src coming body n slots] Some at s
        by (simp add: process_unknown_size_chunked_def)
    next
      case False
      then have "cs_chunk_size s \<noteq> 0" using at Some by (auto simp: reader_at_def split: if_splits)
      then show ?thesis using content_read [of s k 0 src coming body n HT slots] False Some at s
        by (simp add: process_unknown_size_chunked_def)
    qed
  next
    case None
    then obtain cs where cs: "\<forall>d \<in> set cs. proper_chunk d" "src @ coming = chunks_wire cs @ last_chunk" "body = concat cs"
      using at by (auto simp: reader_at_def)
    obtain l rest where l: "chunks_wire cs @ last_chunk = size_line l @ rest" "l \<le> CHUNK_SIZE_MAX"
      and kind: "(l = 0 \<and> cs = [] \<and> rest = CHUNK_FOOTER) \<or>
        (\<exists>d ds. l > 0 \<and> cs = d # ds \<and> proper_chunk d \<and> length d = l \<and> rest = d @ CHUNK_FOOTER @ chunks_wire ds @ last_chunk)"
      using stream_head [OF cs(1)] by blast
    let ?s = "s\<lparr>cs_chunk_left := Some l, cs_chunk_size := l\<rparr>"
    have "src @ coming = size_line l @ rest" using cs(2) l(1) by simp
    then show ?thesis
    proof (cases rule: prefix_cases)
      case (partial j)
      then have "ht_chunk_size HT src = Inr None" using parser l(2) by (simp add: chunk_parser_def)
      then show ?thesis using None s at partial(3) by (simp add: process_unknown_size_chunked_def read_ok_def)
    next
      case (full tail)
      have size: "ht_chunk_size HT src = Inr (Some (length (size_line l), l))" using parser l(2) full(1) by (simp add: chunk_parser_def)
      have small: "\<not> l \<ge> 2 ^ 32" using l(2) by (simp add: CHUNK_SIZE_MAX_def)
      have res: "client_recv HT slots s src n False = chunked_content HT slots ?s src n False (length (size_line l))"
        using s size small None by (simp add: process_unknown_size_chunked_def)
      have at': "reader_at ?s (drop (length (size_line l)) src @ coming) body"
        using kind
      proof (elim disjE exE conjE)
        fix d ds assume "cs = d # ds" "length d = l" "l > 0" "rest = d @ CHUNK_FOOTER @ chunks_wire ds @ last_chunk"
        then show ?thesis using full cs(1,3) at by (auto simp: reader_at_def intro!: exI [of _ d] exI [of _ ds])
      qed (use full cs(3) at in \<open>auto simp: reader_at_def\<close>)
      have pos: "length (size_line l) \<le> length src" using full(1) by simp
      show ?thesis
      proof (cases "l = 0")
        case True
        then show ?thesis unfolding res using at' pos by (intro footer_read [OF parser]) simp_all
      next
        case False
        then show ?thesis unfolding res using at' pos by (intro content_read [where k = l]) simp_all
      qed
    qed
  qed
qed


section \<open>The round trip\<close>

definition reader_start :: "client_state \<Rightarrow> bytes \<Rightarrow> body_reader" where
  "reader_start s stream = \<lparr>br_state = Some s, br_src = [], br_coming = stream, br_got = []\<rparr>"

definition chunked_reader :: "client_state \<Rightarrow> bool" where
  "chunked_reader s \<longleftrightarrow> cs_body_size s = Unknown \<and> cs_chunked s \<and> cs_chunk_left s = None"

definition reader_inv :: "bytes \<Rightarrow> body_reader \<Rightarrow> bool" where
  "reader_inv data r \<longleftrightarrow>
     (case br_state r of
        None \<Rightarrow> br_got r = data \<and> br_src r @ br_coming r = []
      | Some s \<Rightarrow> \<exists>body. data = br_got r @ body \<and> reader_at s (br_src r @ br_coming r) body)"

lemma read_step_inv:
  assumes "chunk_parser HT" and "read_step HT r r'" and "reader_inv data r"
  shows "reader_inv data r'"
  using assms(2)
proof (cases rule: read_step.cases)
  case (arrive k)
  then show ?thesis using assms(3) by (simp add: reader_inv_def split: option.splits)
next
  case (need s slots n s')
  then show ?thesis using assms(3) client_read_ok [OF assms(1), of s "br_src r" "br_coming r" _ n slots]
    by (auto simp: reader_inv_def read_ok_def)
next
  case (read s slots n s' k d)
  then show ?thesis using assms(3) client_read_ok [OF assms(1), of s "br_src r" "br_coming r" _ n slots]
    by (auto simp: reader_inv_def read_ok_def)
next
  case (complete s slots n f k d)
  then show ?thesis using assms(3) client_read_ok [OF assms(1), of s "br_src r" "br_coming r" _ n slots]
    by (auto simp: reader_inv_def read_ok_def)
qed

lemma read_run_inv:
  assumes "(read_step HT)\<^sup>*\<^sup>* r r'" and "chunk_parser HT" and "reader_inv data r"
  shows "reader_inv data r'"
  using assms(1,3) by (induction rule: rtranclp_induct) (use read_step_inv [OF assms(2)] in blast)+

text \<open>A reader in the middle of a body: what its next call can do.\<close>

lemma reader_progress:
  assumes "chunk_parser HT" and "reader_inv data r" and "br_state r = Some s" and "n > 0"
  shows "\<exists>st. client_recv HT slots s (br_src r) n False = Some (Inr st) \<and>
    (case st of NeedBytes _ \<Rightarrow> br_coming r \<noteq> [] | Read _ k _ \<Rightarrow> 0 < k \<and> k \<le> length (br_src r)
      | RecvComplete _ k d \<Rightarrow> br_coming r = [] \<and> k = length (br_src r) \<and> br_got r @ d = data)"
proof -
  obtain body where body: "data = br_got r @ body" "reader_at s (br_src r @ br_coming r) body"
    using assms(2,3) by (auto simp: reader_inv_def)
  show ?thesis using client_read_ok [OF assms(1) body(2), of n slots] assms(4) body(1)
    by (auto simp: read_ok_def split: option.splits sum.splits recv_status.splits)
qed



text \<open>A parser that reads plain size lines and empty trailers, for the witness.\<close>

definition hex_value :: "u8 \<Rightarrow> nat option" where
  "hex_value b = (if 48 \<le> b \<and> b \<le> 57 then Some (unat b - 48) else if 97 \<le> b \<and> b \<le> 102 then Some (unat b - 87) else None)"

definition is_hex :: "u8 \<Rightarrow> bool" where
  "is_hex b \<longleftrightarrow> hex_value b \<noteq> None"

definition plain_parser :: "unit httparse" where
  "plain_parser = \<lparr>ht_request = \<lambda>_ _. Inr None, ht_response = \<lambda>_ _. Inr None,
     ht_chunk_size = \<lambda>buf.
       let ds = takeWhile is_hex buf; rest = drop (length ds) buf in
       if take 2 rest = [13, 10] then Inr (Some (length ds + 2, foldl (\<lambda>v b. v * 16 + the (hex_value b)) 0 ds))
       else if rest = [] \<or> rest = [13] then Inr None else Inl (),
     ht_headers = \<lambda>_ buf. if take 2 buf = [13, 10] then Inr (Some (2, [])) else if length buf < 2 then Inr None else Inl ()\<rparr>"

lemma hex_value_digit: "d < 16 \<Longrightarrow> hex_value (hex_digit d) = Some d"
proof -
  assume "d < 16"
  then have "d \<in> set [0..<16]" by simp
  moreover have "\<forall>d \<in> set [0..<16]. hex_value (hex_digit d) = Some d" by code_simp
  ultimately show ?thesis by blast
qed

lemma hex_digits_value:
  "(\<forall>b \<in> set (hex_digits n). is_hex b) \<and> foldl (\<lambda>v b. v * 16 + the (hex_value b)) 0 (hex_digits n) = n"
proof (induction n rule: hex_digits.induct)
  case (1 n)
  show ?case
  proof (cases "n < 16")
    case True
    then show ?thesis by (subst (1 2) hex_digits.simps) (simp add: hex_value_digit is_hex_def)
  next
    case False
    then show ?thesis using 1 by (subst (1 2) hex_digits.simps) (auto simp: hex_value_digit is_hex_def)
  qed
qed

lemma plain_chunk_parser: "chunk_parser plain_parser"
proof -
  have cr: "\<not> is_hex 13" "\<not> is_hex 10" by code_simp+
  have "takeWhile is_hex (hex_digits n @ 13 # r) = hex_digits n" for n r
    using hex_digits_value [of n] cr by (simp add: takeWhile_append)
  then have full: "ht_chunk_size plain_parser (size_line n @ rest) = Inr (Some (length (size_line n), n))" for n rest
    using hex_digits_value [of n] by (simp add: plain_parser_def size_line_def Let_def)
  have partial: "ht_chunk_size plain_parser (take k (size_line n)) = Inr None" if "k < length (size_line n)" for n k
  proof (cases "k \<le> length (hex_digits n)")
    case True
    then have l: "take k (size_line n) = take k (hex_digits n)" by (simp add: size_line_def)
    have tw: "takeWhile is_hex (take k (hex_digits n)) = take k (hex_digits n)"
      using hex_digits_value [of n] by (simp add: takeWhile_eq_all_conv) (meson in_set_takeD)
    show ?thesis by (simp add: plain_parser_def Let_def l tw)
  next
    case False
    then have "take k (size_line n) = hex_digits n @ [13]" using that by (auto simp: size_line_def take_Cons')
    moreover have "takeWhile is_hex (hex_digits n @ [13]) = hex_digits n"
      using hex_digits_value [of n] cr by (simp add: takeWhile_append)
    ultimately show ?thesis by (simp add: plain_parser_def Let_def)
  qed
  show ?thesis using full partial
    by (auto simp: chunk_parser_def) (auto simp: plain_parser_def CHUNK_FOOTER_def)
qed

text \<open>A \<open>Vec<u8>\<close> as a writer: it takes everything.\<close>

definition vec_writer :: "bytes writer" where
  "vec_writer = \<lparr>w_write = \<lambda>w data. Some (Inr (length data), w @ data), w_write_vectored = \<lambda>w bufs. Some (Inr (length (concat bufs)), w @ concat bufs)\<rparr>"

lemma vec_sink: "vectored_sink (w_write_vectored vec_writer) (\<lambda>w. w) (\<lambda>_. True)"
  by unfold_locales (simp add: vec_writer_def)

definition demo_server :: server_protocol where
  "demo_server = server_new\<lparr>sp_state := SendingBody, sp_ver_min := 1, sp_body_size := Unknown, sp_chunked := True\<rparr>"

definition demo_client :: client_state where
  "demo_client = client_state_new\<lparr>cs_body_size := Unknown, cs_chunked := True\<rparr>"

definition demo_wire :: bytes where
  "demo_wire = [50, 13, 10, 97, 98, 13, 10, 48, 13, 10, 13, 10]"

lemma hex_small: "hex_digits 0 = [48]" "hex_digits (Suc (Suc 0)) = [50]"
  by (subst hex_digits.simps, simp add: hex_digit_def)+

lemmas write_simps = write_chunk_def new_chunk_def write_vectored_offset_def write_vectored_offset_inner_def scratch_slots_def
  limit_def lg_as_slice_def Let_def CHUNK_SIZE_MAX_def CHUNK_HEADER_SIZE_MAX_def SEND_BODY_BUFS_MAX_def CHUNK_FOOTER_def

lemma demo_send:
  "send_body vec_writer [] demo_server [[97, 98]] True None = Some (Inr 2, demo_server\<lparr>sp_state := Finished\<rparr>, demo_wire)"
  by (simp add: send_body_def demo_server_def server_new_def cap_bufs_def vec_writer_def demo_wire_def hex_small write_simps numeral_2_eq_2)

lemma demo_recv:
  "client_recv plain_parser 4 demo_client demo_wire 10 False =
     Some (Inr (Read (demo_client\<lparr>cs_chunk_left := Some 0, cs_chunk_size := 2\<rparr>) 5 [97, 98]))"
  "client_recv plain_parser 4 (demo_client\<lparr>cs_chunk_left := Some 0, cs_chunk_size := 2\<rparr>) (drop 5 demo_wire) 10 False =
     Some (Inr (Read demo_client 2 []))"
  "client_recv plain_parser 4 demo_client (drop 7 demo_wire) 10 False =
     Some (Inr (RecvComplete \<lparr>cf_headers_range = Some (3, 5), cf_persistent = True\<rparr> 5 []))"
  by (simp_all add: client_recv_def process_unknown_size_chunked_def chunked_content_def demo_client_def demo_wire_def
    client_state_new_def plain_parser_def is_hex_def hex_value_def Let_def)



context vectored_sink
begin

text \<open>A call that fails after writing has written the data as one chunk and holds the closing chunk as the one in progress.\<close>

lemma late_failure:
  assumes W: "w_write_vectored W = write_vectored" and w: "invar w" and p: "chunked_start p"
    and src: "concat src \<noteq> []" "length (concat src) \<le> CHUNK_SIZE_MAX" "length src \<le> SEND_BODY_BUFS_MAX"
    and fail: "send_body W w p src True None = Some (Inl e :: 'e http_error + nat, p1, w1)" "out w1 \<noteq> out w"
  shows "invar w1 \<and> out w1 = out w @ chunks_wire [concat src] \<and>
    (\<exists>c. p1 = p\<lparr>sp_sending_chunk := Some c\<rparr> \<and> live_chunk (Some c) [] \<and> c_size c = 0 \<and> c_sent c = 0)"
proof -
  let ?buf = "concat src"
  have i: "sp_state p = SendingBody" "sp_body_size p = Unknown" "sp_chunked p" "sp_sending_chunk p = None" using p by (simp_all add: chunked_start_def)
  have live: "live_chunk (sp_sending_chunk p) ?buf" "out w = out w @ chunk_progress (sp_sending_chunk p) ?buf"
    by (simp_all add: i(4) live_chunk_def chunk_progress_def)
  obtain r1 c1 w' where 1: "write_chunk W w src CHUNK_FOOTER (sp_sending_chunk p) CHUNK_SIZE_MAX = Some (r1, c1, w')" "invar w'"
    and out1: "case r1 of
       Inl e \<Rightarrow> live_chunk c1 ?buf \<and> out w' = out w \<and> chunk_progress c1 ?buf = chunk_progress (sp_sending_chunk p) ?buf \<and> c1 \<noteq> None
     | Inr n \<Rightarrow> (c1 \<noteq> None \<and> n = 0 \<and> live_chunk c1 ?buf \<and> out w' = out w @ chunk_progress c1 ?buf) \<or>
         (c1 = None \<and> n \<le> length ?buf \<and> n \<le> CHUNK_SIZE_MAX \<and> (?buf \<noteq> [] \<longrightarrow> n > 0) \<and> out w' \<noteq> out w \<and>
          out w' = out w @ chunk_wire (take n ?buf) CHUNK_FOOTER)"
    using chunk_write [OF W w src(3) live] by blast
  have "(if concat src \<noteq> [] then write_chunk W w src CHUNK_FOOTER (sp_sending_chunk p) CHUNK_SIZE_MAX
      else Some (Inr 0, sp_sending_chunk p, w)) = Some (r1, c1, w')" using 1(1) src(1) by simp
  note eq = send_body_chunked [OF i(1-3) src(3) this, of True, where 'e = 'e, unfolded fail(1)]
  obtain n where r1: "r1 = Inr n" "length ?buf \<le> n" "c1 = None" "out w' = out w @ chunk_wire (take n ?buf) CHUNK_FOOTER"
    using eq out1 fail(2) src(1) by (cases r1) (auto split: if_splits simp del: concat_eq_Nil_conv)
  have wired: "out w' = (out w @ chunks_wire [?buf]) @ chunk_progress None []" using r1 chunks_wire_simps(2) [of "[]" ?buf] by (simp add: chunk_progress_def)
  obtain r2 c2 w2 where 2: "write_chunk W w' [[]] CHUNK_FOOTER None CHUNK_SIZE_MAX = Some (r2, c2, w2)" "invar w2"
    and out2: "case r2 of
       Inl e \<Rightarrow> live_chunk c2 (concat [[]]) \<and> out w2 = out w' \<and> chunk_progress c2 (concat [[]]) = chunk_progress None (concat [[]]) \<and> c2 \<noteq> None
     | Inr n \<Rightarrow> True"
    using chunk_write [OF W 1(2), of "[[]]" None "out w @ chunks_wire [?buf]"] wired
    by (fastforce simp: live_chunk_def SEND_BODY_BUFS_MAX_def split: sum.splits)
  obtain c where c: "c2 = Some c" "live_chunk (Some c) []" "chunk_progress (Some c) [] = []" "p1 = p\<lparr>sp_sending_chunk := Some c\<rparr>" "w1 = w2" "out w2 = out w'"
    using eq r1 2(1) out2 by (cases r2) (auto simp: chunk_progress_def split: if_splits)
  moreover have "c_size c = 0" "c_sent c = 0" using c(2,3) by (auto simp: live_chunk_def chunk_progress_def)
  ultimately show ?thesis using 2(2) wired by (auto simp: chunk_progress_def)
qed

text \<open>The next call with the same data finishes the closing chunk first.\<close>

lemma late_retry:
  assumes W: "w_write_vectored W = write_vectored" and w1: "invar w1" and p: "chunked_start p"
    and src: "concat src \<noteq> []" "length src \<le> SEND_BODY_BUFS_MAX"
    and c: "p1 = p\<lparr>sp_sending_chunk := Some c\<rparr>" "live_chunk (Some c) []" "c_size c = 0" "c_sent c = 0"
    and retry: "send_body W w1 p1 src True None = Some (Inr n :: 'e http_error + nat, p2, w2)" "sp_sending_chunk p2 = None"
  shows "invar w2 \<and> n = 0 \<and> p2 = p \<and> out w2 = out w1 @ last_chunk"
proof -
  have i: "sp_state p1 = SendingBody" "sp_body_size p1 = Unknown" "sp_chunked p1" "sp_sending_chunk p1 = Some c" "sp_sending_chunk p = None"
    using p c by (simp_all add: chunked_start_def)
  have wire: "last_chunk = chunk_wire (take (c_size c) (concat src)) CHUNK_FOOTER" "c = the_chunk src (Some c) CHUNK_SIZE_MAX"
    using c(3) by (simp_all add: last_chunk_def)
  obtain r1 c1 w' where 1: "write_chunk W w1 src CHUNK_FOOTER (Some c) CHUNK_SIZE_MAX = Some (r1, c1, w')" "invar w'"
    and 2: "case r1 of
       Inl e \<Rightarrow> c1 = Some c \<and> out w' = out w1
     | Inr n \<Rightarrow> (\<exists>m. out w' = out w1 @ take m (drop (c_sent c) last_chunk) \<and> c_sent c + m \<le> length last_chunk \<and>
         (if c_sent c + m < length last_chunk then n = 0 \<and> c1 = Some (c\<lparr>c_sent := c_sent c + m\<rparr>) else n = c_size c \<and> c1 = None))"
    using write_chunk_took [OF W w1 src(2) order_refl live_chunk_pending [OF c(2)] wire(2) wire(1)] c(3,4) by auto
  have "(if concat src \<noteq> [] then write_chunk W w1 src CHUNK_FOOTER (sp_sending_chunk p1) CHUNK_SIZE_MAX
      else Some (Inr 0, sp_sending_chunk p1, w1)) = Some (r1, c1, w')" using 1(1) src(1) i(4) by simp
  note eq = send_body_chunked [OF i(1-3) src(2) this, of True, where 'e = 'e, unfolded retry(1)]
  show ?thesis
  proof (cases r1)
    case (Inl e)
    then show ?thesis using eq by simp
  next
    case (Inr k)
    then have "k = 0" using 2 c(3) by (auto split: if_splits)
    then have "n = 0" "p2 = p1\<lparr>sp_sending_chunk := c1\<rparr>" "w2 = w'" using eq Inr src(1) by (auto simp del: concat_eq_Nil_conv)
    then show ?thesis using 1(2) 2 Inr retry(2) c i(5) by (auto split: if_splits)
  qed
qed

end

text \<open>
  Property C34. A closing chunk that the writer refuses corrupts the body. Take any data of at most one chunk, handed in with the
  end marked, and any writer. When the call fails after it has written something, it has sent the data as a chunk; and
  when the caller, which has been told that nothing was written, repeats the call, as it does after every
  \<open>WouldBlock\<close>, and the chunk in progress gets out, the stream holds a complete body but the call reports that nothing of
  the data was taken and the connection is still sending: the call that finishes the body sends the data and the closing chunk a second time.
\<close>

theorem refused_closing_chunk_resends:
  assumes sink: "vectored_sink (w_write_vectored W) out invar" and "invar w" and "chunked_start p"
    and "concat src \<noteq> []" and "length (concat src) \<le> CHUNK_SIZE_MAX" and "length src \<le> SEND_BODY_BUFS_MAX"
    and "send_body W w p src True None = Some (Inl e :: unit http_error + nat, p1, w1)" and "out w1 \<noteq> out w"
    and "send_body W w1 p1 src True None = Some (Inr n :: unit http_error + nat, p2, w2)" and "sp_sending_chunk p2 = None"
  shows "n = 0 \<and> sp_state p2 = SendingBody \<and> out w2 = out w @ chunks_wire [concat src] @ last_chunk \<and>
    (\<forall>m p3 w3. send_body W w2 p2 src True None = Some (Inr m :: unit http_error + nat, p3, w3) \<and> sp_state p3 = Finished \<longrightarrow>
       m = length (concat src) \<and>
       out w3 = out w @ chunks_wire [concat src] @ last_chunk @ chunks_wire [concat src] @ last_chunk)"
proof -
  obtain c where c: "invar w1" "out w1 = out w @ chunks_wire [concat src]" "p1 = p\<lparr>sp_sending_chunk := Some c\<rparr>" "live_chunk (Some c) []" "c_size c = 0" "c_sent c = 0"
    using vectored_sink.late_failure [OF sink refl assms(2-8)] by blast
  note 2 = vectored_sink.late_retry [OF sink refl c(1) assms(3,4,6) c(3-6) assms(9,10)]
  have "m = length (concat src) \<and> out w3 = out w2 @ chunks_wire [concat src] @ last_chunk"
    if 3: "send_body W w2 p2 src True None = Some (Inr m :: unit http_error + nat, p3, w3)" "sp_state p3 = Finished" for m p3 w3
  proof -
    let ?s = "\<lparr>bs_proto = p2, bs_writer = w2, bs_buf = concat src, bs_end = True, bs_given = [], bs_late = False\<rparr>"
    have "sender_inv out (out w2) [] ?s"
      using 2 assms(3) by (simp add: sender_inv_def chunked_start_def live_chunk_def chunk_progress_def)
    then have m: "m \<le> length (concat src)"
        "sender_inv out (out w2) (if m = 0 then [] else [take m (concat src)]) (?s\<lparr>bs_proto := p3, bs_writer := w3, bs_buf := drop m (concat src)\<rparr>)"
      using vectored_sink.call_data [OF sink refl, of ?s "out w2" "[]" src "Inr m :: unit http_error + nat" p3 w3] 2 3(1) assms(4,6)
      by (simp_all del: concat_eq_Nil_conv split: if_splits)
    then have "m = length (concat src)" using 3(2) by (simp add: sender_inv_def)
    then show ?thesis using m(2) 3(2) assms(4) by (auto simp: sender_inv_def simp del: concat_eq_Nil_conv split: if_splits)
  qed
  then show ?thesis using 2 c(2) assms(3) by (auto simp: chunked_start_def)
qed

text \<open>A writer that follows a plan: at each write it takes everything, or refuses once with \<open>WouldBlock\<close>.\<close>

definition pausing_writer :: "(bool list \<times> bytes) writer" where
  "pausing_writer = \<lparr>w_write = \<lambda>w data. Some (Inr (length data), w),
     w_write_vectored = \<lambda>(plan, w) bufs.
       (case plan of
          False # plan \<Rightarrow> Some (Inl WouldBlock, plan, w)
        | _ \<Rightarrow> Some (Inr (length (concat bufs)), tl plan, w @ concat bufs))\<rparr>"

lemma pausing_sink: "vectored_sink (w_write_vectored pausing_writer) snd (\<lambda>_. True)"
  by unfold_locales (auto simp: pausing_writer_def split: list.split bool.split)

lemma demo_refused:
  "send_body pausing_writer ([True, False], []) demo_server [[97, 98]] True None =
     Some (Inl (Io WouldBlock) :: unit http_error + nat, demo_server\<lparr>sp_sending_chunk := Some \<lparr>c_header = [48, 13, 10, 0, 0, 0], c_header_len = 3, c_size = 0, c_sent = 0\<rparr>\<rparr>, [], chunks_wire [[97, 98]])"
  "send_body pausing_writer ([], chunks_wire [[97, 98]]) (demo_server\<lparr>sp_sending_chunk := Some \<lparr>c_header = [48, 13, 10, 0, 0, 0], c_header_len = 3, c_size = 0, c_sent = 0\<rparr>\<rparr>) [[97, 98]] True None =
     Some (Inr 0 :: unit http_error + nat, demo_server, [], chunks_wire [[97, 98]] @ last_chunk)"
  by (simp_all add: send_body_def demo_server_def server_new_def cap_bufs_def pausing_writer_def hex_small write_simps
    chunks_wire_def chunk_wire_def last_chunk_def size_line_def numeral_2_eq_2 numeral_3_eq_3)

theorem refused_closing_chunk_resends_witness:
  "\<exists>p2 w2. send_body pausing_writer ([], chunks_wire [[97, 98]]) (demo_server\<lparr>sp_sending_chunk := Some \<lparr>c_header = [48, 13, 10, 0, 0, 0], c_header_len = 3, c_size = 0, c_sent = 0\<rparr>\<rparr>) [[97, 98]] True None =
     Some (Inr 0 :: unit http_error + nat, p2, w2) \<and> sp_state p2 = SendingBody \<and> snd w2 = chunks_wire [[97, 98]] @ last_chunk"
proof -
  have "chunked_start demo_server" by (simp add: chunked_start_def demo_server_def server_new_def)
  moreover have "chunks_wire [[97, 98]] \<noteq> []" by (simp add: chunks_wire_def chunk_wire_def size_line_def)
  ultimately have "sp_state demo_server = SendingBody \<and> snd ([] :: bool list, chunks_wire [[97, 98]] @ last_chunk) = chunks_wire [[97, 98]] @ last_chunk"
    using refused_closing_chunk_resends [OF pausing_sink TrueI _ _ _ _ demo_refused(1) _ demo_refused(2)]
    by (simp add: CHUNK_SIZE_MAX_def SEND_BODY_BUFS_MAX_def chunked_start_def)
  then show ?thesis using demo_refused(2) by blast
qed

end
