(* ===== verification/Http1Framing.thy ===== *)
theory Http1Framing
  imports Http1Body
begin

text \<open>
  Agreement of the two sides on the framing of a message: what \<open>send_response\<close> puts into a response header, and what
  \<open>process_response\<close> concludes from it (\<open>src/core/http1/protocol.rs\<close>). The text between them goes through
  \<open>httparse\<close>; the lemmas show that the text is the status line and one line for each header of a list, and the properties
  speak of that list.
\<close>

section \<open>The headers of a response\<close>

definition response_header_list :: "nat \<Rightarrow> bool \<Rightarrow> bool \<Rightarrow> nat \<Rightarrow> header list \<Rightarrow> body_size \<Rightarrow> header list" where
  "response_header_list ver_min persistent chunked code headers bsize =
     filter (\<lambda>h. \<not> response_overrides code h) headers @
     (if persistent \<and> ver_min = 0 then [hdr ''Connection'' (str ''keep-alive'')]
      else if \<not> persistent \<and> ver_min \<ge> 1 then [hdr ''Connection'' (str ''close'')] else []) @
     (if chunked then [hdr ''Connection'' (str ''Transfer-Encoding'')] else []) @
     (case bsize of Known x \<Rightarrow> [hdr ''Content-Length'' (dec_digits x)] | _ \<Rightarrow> []) @
     (if chunked then [hdr ''Transfer-Encoding'' (str ''chunked'')] else [])"

definition header_line :: "header \<Rightarrow> bytes" where
  "header_line h = h_name h @ str '': '' @ h_value h @ crlf"

definition status_line :: "nat \<Rightarrow> nat \<Rightarrow> bytes \<Rightarrow> bytes" where
  "status_line ver_min code reason =
     (if ver_min \<ge> 1 then str ''HTTP/1.1 '' else str ''HTTP/1.0 '') @ dec_digits code @ str '' '' @ reason @ crlf"

lemma user_header_text: "concat (user_header_slices skip_header hs) = concat (map header_line (filter (\<lambda>h. \<not> skip_header h) hs))"
  by (induction hs) (simp_all add: user_header_slices_def header_line_def)

lemma response_slices_text:
  "concat (response_slices ver_min persistent chunked code reason headers bsize) =
     status_line ver_min code reason @
     concat (map header_line (response_header_list ver_min persistent chunked code headers bsize)) @ crlf"
  by (cases bsize) (simp_all add: response_slices_def response_header_list_def status_line_def user_header_text header_line_def hdr_def)

section \<open>Reading them back\<close>

lemma response_headers_append:
  "response_headers (as @ bs) f = (case response_headers as f of Inl e \<Rightarrow> Inl e | Inr f \<Rightarrow> response_headers bs f)"
  by (induction as arbitrary: f) (simp_all split: sum.split)

lemma response_headers_neutral:
  "\<forall>h \<in> set hs. \<not> named h ''Connection'' \<and> \<not> named h ''Content-Length'' \<and> \<not> named h ''Transfer-Encoding'' \<Longrightarrow>
     response_headers hs f = Inr f"
  by (induction hs) (simp_all add: response_header_def)

lemma framing_names:
  "named (hdr n v) m \<longleftrightarrow> eq_ignore_ascii_case (str n) (str m)"
  "eq_ignore_ascii_case (str n) (str n)"
  "\<not> eq_ignore_ascii_case (str ''Connection'') (str ''Content-Length'')"
  "\<not> eq_ignore_ascii_case (str ''Connection'') (str ''Transfer-Encoding'')"
  "\<not> eq_ignore_ascii_case (str ''Transfer-Encoding'') (str ''Content-Length'')"
  by (simp add: named_def hdr_def del: str_simps, simp add: eq_ignore_ascii_case_def del: str_simps) code_simp+

lemma connection_params:
  "header_contains_param (str ''close'') (str ''close'') False" "\<not> header_contains_param (str ''close'') (str ''keep-alive'') True"
  "\<not> header_contains_param (str ''keep-alive'') (str ''close'') False" "header_contains_param (str ''keep-alive'') (str ''keep-alive'') True"
  "\<not> header_contains_param (str ''Transfer-Encoding'') (str ''close'') False"
  "\<not> header_contains_param (str ''Transfer-Encoding'') (str ''keep-alive'') True"
  by code_simp+

lemma hdr_fields [simp]: "h_value (hdr n v) = v" "h_name (hdr n v) = str n"
  by (simp_all add: hdr_def)

lemma parse_as_int_dec: "x \<le> usize_max \<Longrightarrow> parse_as_int (dec_digits x) = Inr x"
  by (simp add: parse_as_int_def)

lemma response_list_framing:
  assumes "code \<noteq> 101" and "\<And>x. bsize = Known x \<Longrightarrow> x \<le> usize_max"
  shows "response_headers (response_header_list v persistent chunked code headers bsize) framing_init =
    Inr \<lparr>fr_content_len = (case bsize of Known x \<Rightarrow> Some x | _ \<Rightarrow> None), fr_chunked = chunked,
      fr_keep_alive = (persistent \<and> v = 0), fr_close = (\<not> persistent \<and> v \<ge> 1), fr_expect_100 = False\<rparr>"
proof -
  have "\<forall>h \<in> set (filter (\<lambda>h. \<not> response_overrides code h) headers).
      \<not> named h ''Connection'' \<and> \<not> named h ''Content-Length'' \<and> \<not> named h ''Transfer-Encoding''"
    using assms(1) by (auto simp: response_overrides_def)
  note neutral = response_headers_neutral [OF this]
  show ?thesis
    using assms(2) parse_as_int_dec
    by (cases bsize; cases persistent; cases chunked; cases "v = 0";
      simp add: response_header_list_def response_headers_append neutral response_header_def framing_init_def framing_names
        connection_params del: str_simps)
qed

text \<open>What a client makes of the header that \<open>send_response\<close> ends with, in terms of the server's state after it.\<close>

lemma response_header_read:
  assumes "code \<noteq> 101" and "\<And>x. b = Known x \<Longrightarrow> x \<le> usize_max" and "chunked \<longleftrightarrow> b = Unknown \<and> v \<ge> 1" and "no_body_code code \<Longrightarrow> b = NoBody"
  shows "\<exists>s'. process_response s \<lparr>pr_version = v, pr_code = code, pr_reason = reason,
        pr_headers = response_header_list v persistent chunked code headers b\<rparr> = Inr s'
      \<and> cs_body_size s' = (if b = NoBody \<and> \<not> no_body_code code then Unknown else b)
      \<and> cs_chunked s' = chunked \<and> (\<forall>x. b = Known x \<longrightarrow> cs_chunk_left s' = Some x)
      \<and> (cs_persistent s' \<longleftrightarrow> persistent \<and> \<not> (cs_body_size s' = Unknown \<and> \<not> cs_chunked s'))"
  using assms(3,4) by (cases b) (auto simp: process_response_def response_list_framing [OF assms(1,2)] Let_def)

lemma response_agrees:
  assumes "code \<noteq> 101" and "\<And>x. bsize = Known x \<Longrightarrow> x \<le> usize_max" and p': "p' = response_done p code bsize"
    and resp: "resp = \<lparr>pr_version = sp_ver_min p, pr_code = code, pr_reason = reason,
      pr_headers = response_header_list (sp_ver_min p) (sp_persistent p') (sp_chunked p') code headers (sp_body_size p')\<rparr>"
  shows "response_text p code reason headers bsize = status_line (sp_ver_min p) code reason @ concat (map header_line (pr_headers resp)) @ crlf"
    and "\<exists>s'. process_response s resp = Inr s'
      \<and> cs_body_size s' = (if sp_body_size p' = NoBody \<and> \<not> no_body_code code then Unknown else sp_body_size p')
      \<and> cs_chunked s' = sp_chunked p' \<and> (\<forall>x. sp_body_size p' = Known x \<longrightarrow> cs_chunk_left s' = Some x)
      \<and> (cs_persistent s' \<longleftrightarrow> sp_persistent p' \<and> \<not> (cs_body_size s' = Unknown \<and> \<not> cs_chunked s'))"
proof -
  let ?b = "if no_body_code code then NoBody else bsize"
  have p'': "sp_body_size p' = ?b" "sp_persistent p' \<longleftrightarrow> sp_state p \<noteq> ReceivingBody \<and> sp_persistent p" "sp_chunked p' \<longleftrightarrow> ?b = Unknown \<and> sp_ver_min p \<ge> 1"
    by (simp_all add: p' response_done_def Let_def)
  show "response_text p code reason headers bsize = status_line (sp_ver_min p) code reason @ concat (map header_line (pr_headers resp)) @ crlf"
    by (simp add: response_text_def Let_def response_slices_text resp p'')
  have "\<And>x. sp_body_size p' = Known x \<Longrightarrow> x \<le> usize_max" using assms(2) p''(1) by (simp split: if_splits)
  then show "\<exists>s'. process_response s resp = Inr s'
      \<and> cs_body_size s' = (if sp_body_size p' = NoBody \<and> \<not> no_body_code code then Unknown else sp_body_size p')
      \<and> cs_chunked s' = sp_chunked p' \<and> (\<forall>x. sp_body_size p' = Known x \<longrightarrow> cs_chunk_left s' = Some x)
      \<and> (cs_persistent s' \<longleftrightarrow> sp_persistent p' \<and> \<not> (cs_body_size s' = Unknown \<and> \<not> cs_chunked s'))"
    unfolding resp by (rule response_header_read [OF assms(1)]) (simp_all add: p''(1,3))
qed

text \<open>
  Property C17. A client reads the framing that the server sent. Let a server send a response other than 101 with \<open>send_response\<close>,
  over any number of calls on any writer, until the header is out. What is out is a status line and one line for each header of a
  list; and from that list \<open>process_response\<close> finds the kind and size of body that the server's state holds, with the same decision on
  chunking, and a connection that is reusable exactly when the server's is, with two exceptions: a response that was declared to have no body under a
  status that allows one is read until the end of the connection, and a body that only the end of the connection
  delimits makes the client's connection not reusable (also where the server's is).
\<close>

theorem response_framing_agrees:
  assumes "vectored_sink (w_write_vectored W) out invar" and "invar w"
    and "sp_state p = AwaitingResponse \<or> sp_state p = ReceivingBody" and "sp_header_size p = None"
    and "code < 2 ^ 16" and "code \<noteq> 101" and "\<And>x. bsize = Known x \<Longrightarrow> x \<le> usize_max"
    and "response_run W code reason headers bsize p w k p1 w1"
    and "send_response W w1 p1 code reason headers bsize k = Some (Inr None :: unit http_error + nat option, p', w')"
    and "resp = \<lparr>pr_version = sp_ver_min p, pr_code = code, pr_reason = reason,
      pr_headers = response_header_list (sp_ver_min p) (sp_persistent p') (sp_chunked p') code headers (sp_body_size p')\<rparr>"
  shows "out w' = out w @ status_line (sp_ver_min p) code reason @ concat (map header_line (pr_headers resp)) @ crlf \<and>
    (\<exists>s'. process_response s resp = Inr s'
      \<and> cs_body_size s' = (if sp_body_size p' = NoBody \<and> \<not> no_body_code code then Unknown else sp_body_size p')
      \<and> cs_chunked s' = sp_chunked p' \<and> (\<forall>x. sp_body_size p' = Known x \<longrightarrow> cs_chunk_left s' = Some x)
      \<and> (cs_persistent s' \<longleftrightarrow> sp_persistent p' \<and> \<not> (cs_body_size s' = Unknown \<and> \<not> cs_chunked s')))"
proof -
  have d: "out w' = out w @ response_text p code reason headers bsize" "p' = response_done p code bsize"
    using vectored_sink.response_run_done [OF assms(1,8) refl assms(2,3,4,5,7,9)] by auto
  note a = response_agrees [OF assms(6,7) d(2) assms(10)]
  show ?thesis using d(1) a(1) a(2) [of s] by simp
qed

definition demo_awaiting :: "nat \<Rightarrow> server_protocol" where
  "demo_awaiting v = server_new\<lparr>sp_state := AwaitingResponse, sp_ver_min := v, sp_persistent := True\<rparr>"

lemma demo_response:
  assumes "v \<in> {0, 1}"
  shows "\<exists>w'. send_response vec_writer [] (demo_awaiting v) 200 (str ''OK'') [] Unknown 0 =
     Some (Inr None :: unit http_error + nat option, response_done (demo_awaiting v) 200 Unknown, w')"
proof -
  have "map_option (\<lambda>(r, p, w). (r, p)) (send_response vec_writer [] (demo_awaiting v) 200 (str ''OK'') [] Unknown 0) =
      Some (Inr None :: unit http_error + nat option, response_done (demo_awaiting v) 200 Unknown)" if "v = 0 \<or> v = 1"
    using that by (elim disjE) (hypsubst, code_simp)+
  then show ?thesis using assms by fastforce
qed

theorem response_framing_agrees_witness:
  "\<exists>s'. process_response client_state_new \<lparr>pr_version = 1, pr_code = 200, pr_reason = str ''OK'',
      pr_headers = response_header_list 1 True True 200 [] Unknown\<rparr> = (Inr s' :: unit http_error + client_state) \<and>
    cs_body_size s' = Unknown \<and> cs_chunked s' \<and> cs_persistent s'"
proof -
  obtain w' where "send_response vec_writer [] (demo_awaiting 1) 200 (str ''OK'') [] Unknown 0 =
     Some (Inr None :: unit http_error + nat option, response_done (demo_awaiting 1) 200 Unknown, w')" using demo_response [of 1] by blast
  from response_framing_agrees [OF vec_sink TrueI _ _ _ _ _ response_run.start this refl, of client_state_new]
  show ?thesis by (auto simp: demo_awaiting_def response_done_def no_body_code_def server_new_def simp del: str_simps)
qed

section \<open>Bodies that only the end of the connection delimits\<close>

text \<open>A body that is not sent in chunks is written as it is given.\<close>

definition plain_ok :: "('w \<Rightarrow> bytes) \<Rightarrow> ('w \<Rightarrow> bool) \<Rightarrow> bytes \<Rightarrow> bool \<Rightarrow> 'w body_sender \<Rightarrow> bool" where
  "plain_ok out invar base persistent s \<longleftrightarrow> invar (bs_writer s) \<and> sp_body_size (bs_proto s) = Unknown \<and> \<not> sp_chunked (bs_proto s)
     \<and> sp_persistent (bs_proto s) = persistent \<and> (sp_state (bs_proto s) = Finished \<longrightarrow> bs_buf s = [] \<and> bs_end s)
     \<and> (\<exists>sent. bs_given s = sent @ bs_buf s \<and> out (bs_writer s) = base @ sent)"

lemma plain_ok_late: "plain_ok out invar base persistent s \<Longrightarrow> plain_ok out invar base persistent (s\<lparr>bs_late := b\<rparr>)"
  by (simp add: plain_ok_def)

context vectored_sink
begin

lemma write_all_slices:
  assumes "w_write_vectored W = write_vectored" and "invar w"
  shows "\<exists>r w'. write_vectored_offset W w bufs 0 = Some (r, w') \<and> invar w' \<and>
    (case r of Inl e \<Rightarrow> out w' = out w | Inr n \<Rightarrow> n \<le> length (concat bufs) \<and> out w' = out w @ take n (concat bufs))"
proof (cases "bufs = []")
  case True
  then show ?thesis using assms by (simp add: write_vectored_offset_def)
next
  case False
  then show ?thesis using write_vectored_offset_took [OF assms(2,1) False, of 0] by (fastforce split: sum.splits)
qed

lemma plain_call:
  assumes W: "w_write_vectored W = write_vectored" and ok: "plain_ok out invar base persistent s"
    and src: "concat src = bs_buf s" "length src \<le> SEND_BODY_BUFS_MAX"
    and call: "send_body W (bs_writer s) (bs_proto s) src (bs_end s) None = Some (r :: 'e http_error + nat, p, w')"
  shows "case r of Inl e \<Rightarrow> out w' = out (bs_writer s) \<and> plain_ok out invar base persistent (s\<lparr>bs_proto := p, bs_writer := w'\<rparr>)
    | Inr n \<Rightarrow> plain_ok out invar base persistent (s\<lparr>bs_proto := p, bs_writer := w', bs_buf := drop n (bs_buf s)\<rparr>)"
proof -
  have cap: "cap_bufs src SEND_BODY_BUFS_MAX = (src, False)" using src(2) by (simp add: cap_bufs_def)
  have state: "sp_state (bs_proto s) = SendingBody" using call by (auto simp: send_body_def split: Option.bind_splits)
  have i: "sp_body_size (bs_proto s) = Unknown" "\<not> sp_chunked (bs_proto s)" "invar (bs_writer s)" using ok by (auto simp: plain_ok_def)
  obtain r1 w1 where 1: "write_vectored_offset W (bs_writer s) src 0 = Some (r1, w1)" "invar w1"
    and out1: "case r1 of Inl e \<Rightarrow> out w1 = out (bs_writer s) | Inr n \<Rightarrow> n \<le> length (bs_buf s) \<and> out w1 = out (bs_writer s) @ take n (bs_buf s)"
    using write_all_slices [OF W i(3), of src] unfolding src(1) by blast
  show ?thesis
  proof (cases r1)
    case (Inl e)
    then show ?thesis using call 1 out1 ok state i cap by (auto simp: send_body_def plain_ok_def)
  next
    case (Inr n)
    then have "r = Inr n" "w' = w1" "p = (if bs_end s \<and> n \<ge> length (bs_buf s) then (bs_proto s)\<lparr>sp_state := Finished\<rparr> else bs_proto s)"
      using call 1 state i cap src(1) by (auto simp: send_body_def)
    moreover obtain sent where "bs_given s = sent @ bs_buf s" "out (bs_writer s) = base @ sent" using ok by (auto simp: plain_ok_def)
    ultimately show ?thesis using 1(2) out1 Inr ok state by (auto simp: plain_ok_def intro!: exI [of _ "sent @ take n (bs_buf s)"])
  qed
qed

lemma plain_run:
  assumes "(body_step W out)\<^sup>*\<^sup>* s s'" and W: "w_write_vectored W = write_vectored" and "plain_ok out invar base persistent s"
  shows "plain_ok out invar base persistent s'"
  using assms(1,3)
proof (induction rule: rtranclp_induct)
  case (step y z)
  from step.hyps(2) step.IH [OF step.prems] show ?case
  proof (cases rule: body_step.cases)
    case (add data fin)
    then show ?thesis using step.IH [OF step.prems] by (auto simp: plain_ok_def)
  next
    case (call src n p w)
    then show ?thesis using plain_call [OF W step.IH [OF step.prems] call(2,3,4)] by simp
  next
    case (fail src e p w)
    then show ?thesis using plain_call [OF W step.IH [OF step.prems] fail(2,3,4)] plain_ok_late by fastforce
  qed
qed

end

text \<open>A client that reads until the end of the connection is not done before it.\<close>

lemma until_close_reader:
  assumes "(read_step HT)\<^sup>*\<^sup>* r r'" and "\<exists>c. br_state r = Some c \<and> cs_body_size c = Unknown \<and> \<not> cs_chunked c"
  shows "\<exists>c. br_state r' = Some c \<and> cs_body_size c = Unknown \<and> \<not> cs_chunked c"
  using assms
proof (induction rule: rtranclp_induct)
  case (step y z)
  from step.hyps(2) step.IH [OF step.prems] show ?case
    by (cases rule: read_step.cases) (auto simp: client_recv_def process_unknown_size_def assert_that_def Let_def split: if_splits)
qed

text \<open>
  Property C35. A response body of unknown size leaves an HTTP/1.0 client that asked for a persistent connection waiting. Let the server
  have such a request before it and send a response under any status that allows a body, over any calls on any
  writer, and then the body, in any pieces, to its end. The header announces neither a length nor chunks, and the body follows as
  it is; the server counts the connection as persistent, and so keeps it open; but a client that has read the
  header is not done with the body, whatever bytes and calls follow, as long as the connection is open.
\<close>

theorem unknown_size_keeps_http10_open:
  fixes HT :: "'e httparse"
  assumes sink: "vectored_sink (w_write_vectored W) out invar" and "invar w"
    and p: "sp_state p = AwaitingResponse" "sp_header_size p = None" "sp_ver_min p = 0" "sp_persistent p"
    and code: "code < 2 ^ 16" "\<not> no_body_code code"
    and header: "response_run W code reason headers Unknown p w k p1 w1"
      "send_response W w1 p1 code reason headers Unknown k = Some (Inr None :: unit http_error + nat option, p', w')"
    and body: "(body_step W out)\<^sup>*\<^sup>* (sender_start p' w') s" "sp_state (bs_proto s) = Finished"
    and resp: "resp = \<lparr>pr_version = 0, pr_code = code, pr_reason = reason, pr_headers = response_header_list 0 True False code headers Unknown\<rparr>"
  shows "out (bs_writer s) = out w @ status_line 0 code reason @ concat (map header_line (pr_headers resp)) @ crlf @ bs_given s
    \<and> sp_persistent (bs_proto s)
    \<and> (\<exists>c'. process_response c resp = (Inr c' :: 'e http_error + client_state) \<and> (\<forall>stream r. (read_step HT)\<^sup>*\<^sup>* (reader_start c' stream) r \<longrightarrow> br_state r \<noteq> None))"
proof -
  have code': "code \<noteq> 101" using code(2) by (auto simp: no_body_code_def)
  have d: "invar w'" "out w' = out w @ response_text p code reason headers Unknown" "p' = response_done p code Unknown"
    using vectored_sink.response_run_done [OF sink header(1) refl assms(2) _ p(2) code(1) _ header(2)] p(1) by auto
  have p': "sp_body_size p' = Unknown" "\<not> sp_chunked p'" "sp_persistent p'" "sp_state p' = SendingBody"
    using d(3) p code(2) by (simp_all add: response_done_def Let_def)
  have resp': "resp = \<lparr>pr_version = sp_ver_min p, pr_code = code, pr_reason = reason,
      pr_headers = response_header_list (sp_ver_min p) (sp_persistent p') (sp_chunked p') code headers (sp_body_size p')\<rparr>"
    using p p' resp by simp
  note a = response_agrees [OF code' _ d(3) resp', simplified]
  have "plain_ok out invar (out w') True (sender_start p' w')" using d(1) p' by (simp add: plain_ok_def sender_start_def)
  from vectored_sink.plain_run [OF sink body(1) refl this] have ok: "out (bs_writer s) = out w' @ bs_given s" "sp_persistent (bs_proto s)"
    using body(2) by (auto simp: plain_ok_def)
  obtain c' where c': "process_response c resp = (Inr c' :: 'e http_error + client_state)" "cs_body_size c' = Unknown" "\<not> cs_chunked c'" using a(2) [of c] p' by auto
  have "br_state r \<noteq> None" if "(read_step HT)\<^sup>*\<^sup>* (reader_start c' stream) r" for stream r
    using until_close_reader [OF that] c'(2,3) by (auto simp: reader_start_def)
  then show ?thesis using ok d(2) a(1) c'(1) p(3) by auto
qed

theorem unknown_size_keeps_http10_open_witness:
  "\<exists>s :: bytes body_sender. bs_writer s = str ''HTTP/1.0 200 OK'' @ crlf @ header_line (hdr ''Connection'' (str ''keep-alive'')) @ crlf @ [7]
     \<and> bs_given s = [7] \<and> sp_state (bs_proto s) = Finished \<and> sp_persistent (bs_proto s)"
proof -
  obtain w' where w': "send_response vec_writer [] (demo_awaiting 0) 200 (str ''OK'') [] Unknown 0 =
     Some (Inr None :: unit http_error + nat option, response_done (demo_awaiting 0) 200 Unknown, w')" using demo_response [of 0] by blast
  let ?p = "response_done (demo_awaiting 0) 200 Unknown"
  have p: "sp_state ?p = SendingBody" "sp_body_size ?p = Unknown" "\<not> sp_chunked ?p"
    by (simp_all add: response_done_def demo_awaiting_def no_body_code_def)
  let ?s1 = "(sender_start ?p w')\<lparr>bs_buf := [7], bs_end := True, bs_given := [7]\<rparr>"
  have 1: "body_step vec_writer (\<lambda>w. w) (sender_start ?p w') ?s1"
    using body_step.add [of "sender_start ?p w'" vec_writer "\<lambda>w. w" "[7]" True] by (simp add: sender_start_def)
  have "send_body vec_writer w' ?p [[7]] True None = Some (Inr 1 :: unit http_error + nat, ?p\<lparr>sp_state := Finished\<rparr>, w' @ [7])"
    using p by (simp add: send_body_def write_vectored_offset_def write_vectored_offset_inner_def vec_writer_def scratch_slots_def cap_bufs_def SEND_BODY_BUFS_MAX_def)
  then have 2: "body_step vec_writer (\<lambda>w. w) ?s1 (?s1\<lparr>bs_proto := ?p\<lparr>sp_state := Finished\<rparr>, bs_writer := w' @ [7], bs_buf := []\<rparr>)"
    using body_step.call [of "[[7]]" ?s1 vec_writer 1] by (simp add: sender_start_def SEND_BODY_BUFS_MAX_def)
  let ?s = "?s1\<lparr>bs_proto := ?p\<lparr>sp_state := Finished\<rparr>, bs_writer := w' @ [7], bs_buf := []\<rparr>"
  have run: "(body_step vec_writer (\<lambda>w. w))\<^sup>*\<^sup>* (sender_start ?p w') ?s" using 1 2 by (meson converse_rtranclp_into_rtranclp rtranclp.rtrancl_refl)
  have start: "sp_state (demo_awaiting 0) = AwaitingResponse" "sp_header_size (demo_awaiting 0) = None" "sp_ver_min (demo_awaiting 0) = 0" "sp_persistent (demo_awaiting 0)"
    by (simp_all add: demo_awaiting_def server_new_def)
  have code: "(200 :: nat) < 2 ^ 16" "\<not> no_body_code 200" by (simp_all add: no_body_code_def)
  have fin: "sp_state (bs_proto ?s) = Finished" by simp
  have "status_line 0 200 (str ''OK'') = str ''HTTP/1.0 200 OK'' @ crlf" by code_simp
  then show ?thesis
    using unknown_size_keeps_http10_open [OF vec_sink TrueI start code response_run.start w' run fin refl, of client_state_new silent_parser] fin
    by (intro exI [of _ ?s]) (auto simp: response_header_list_def simp del: str_simps)
qed

text \<open>A client that counts down the length of a body: it completes with exactly that many bytes.\<close>

definition counting :: "client_state \<Rightarrow> nat \<Rightarrow> bytes \<Rightarrow> body_reader \<Rightarrow> bool" where
  "counting s n stream r \<longleftrightarrow>
     (case br_state r of
        None \<Rightarrow> n \<le> length stream \<and> br_got r = take n stream
      | Some c \<Rightarrow> length (br_got r) < n \<and> stream = br_got r @ br_src r @ br_coming r \<and> c = s\<lparr>cs_chunk_left := Some (n - length (br_got r))\<rparr>)"

lemma counting_step:
  assumes "read_step HT r r'" and s: "cs_body_size s = Known x" and c: "counting s n stream r"
  shows "counting s n stream r'"
  using assms(1)
proof (cases rule: read_step.cases)
  case (arrive k)
  then show ?thesis using c by (simp add: counting_def split: option.splits)
next
  case (need c slots m c')
  then show ?thesis using s assms(3) by (auto simp: counting_def client_recv_def process_known_size_def Let_def assert_that_def split: if_splits)
next
  case (read c slots m c' k data)
  then show ?thesis using s assms(3) by (auto simp: counting_def client_recv_def process_known_size_def Let_def min_def split: if_splits)
next
  case (complete c slots m f k data)
  then show ?thesis using s assms(3) by (auto simp: counting_def client_recv_def process_known_size_def Let_def min_def split: if_splits)
qed

lemma counting_run: "(read_step HT)\<^sup>*\<^sup>* r r' \<Longrightarrow> cs_body_size s = Known x \<Longrightarrow> counting s n stream r \<Longrightarrow> counting s n stream r'"
  by (induction rule: rtranclp_induct) (use counting_step in blast)+

text \<open>
  Property C36. A response whose status rules out a body makes the client wait for one when it carries a
  \<open>Content-Length\<close>, as a 304 response may. Whatever else the header says, short of chunks: from the header with a length \<open>n\<close>
  the client reads a body of exactly \<open>n\<close> bytes. Over any calls and any arrival of the bytes that follow on the connection it is
  done only when it has taken \<open>n\<close> of them, which are not part of this response; before that it asks for more when there are
  none, and fails when the connection ends. From the same header without a length the response is complete at once.
\<close>

theorem no_body_status_with_length_waits:
  assumes "no_body_code (pr_code resp)" and "response_headers (pr_headers resp) framing_init = (Inr f :: 'e http_error + framing)" and "\<not> fr_chunked f"
  shows "\<exists>s'. process_response s resp = (Inr s' :: 'e http_error + client_state) \<and>
    (case fr_content_len f of
       None \<Rightarrow> client_recv HT slots s' [] k False = Some (Inr (RecvComplete (finished_plain s') 0 []))
     | Some n \<Rightarrow> 0 < n \<longrightarrow> (\<forall>stream r. (read_step HT)\<^sup>*\<^sup>* (reader_start s' stream) r \<longrightarrow>
         (case br_state r of
            None \<Rightarrow> n \<le> length stream \<and> br_got r = take n stream
          | Some c \<Rightarrow> length (br_got r) < n
              \<and> client_recv HT slots c [] k False = Some (Inr (NeedBytes c))
              \<and> client_recv HT slots c [] k True = Some (Inl (Io UnexpectedEof)))))"
proof (cases "fr_content_len f")
  case None
  then show ?thesis using assms by (simp add: process_response_def Let_def client_recv_def)
next
  case (Some n)
  obtain s' where s': "process_response s resp = (Inr s' :: 'e http_error + client_state)" "cs_body_size s' = Known n" "cs_chunk_left s' = Some n"
    using assms Some by (simp add: process_response_def Let_def)
  have "case br_state r of
            None \<Rightarrow> n \<le> length stream \<and> br_got r = take n stream
          | Some c \<Rightarrow> length (br_got r) < n
              \<and> client_recv HT slots c [] k False = Some (Inr (NeedBytes c))
              \<and> client_recv HT slots c [] k True = Some (Inl (Io UnexpectedEof))"
    if "0 < n" "(read_step HT)\<^sup>*\<^sup>* (reader_start s' stream) r" for stream r
  proof -
    have "s'\<lparr>cs_chunk_left := Some n\<rparr> = s'" using s'(3) by (cases s') simp
    then have "counting s' n stream (reader_start s' stream)" using that(1) s'(3) by (simp add: counting_def reader_start_def)
    from counting_run [OF that(2) s'(2) this] show ?thesis
      using s'(2) by (auto simp: counting_def client_recv_def process_known_size_def Let_def assert_that_def split: option.splits)
  qed
  then show ?thesis using s'(1) Some by simp
qed

theorem no_body_status_with_length_waits_witness:
  "\<exists>s'. process_response client_state_new \<lparr>pr_version = 1, pr_code = 304, pr_reason = str ''Not Modified'',
      pr_headers = [hdr ''Content-Length'' (dec_digits 5)]\<rparr> = (Inr s' :: unit http_error + client_state) \<and>
    client_recv silent_parser 64 s' [] 10 False = Some (Inr (NeedBytes s'))"
proof -
  have "no_body_code 304" by (simp add: no_body_code_def)
  moreover have "response_headers [hdr ''Content-Length'' (dec_digits 5)] framing_init = (Inr (framing_init\<lparr>fr_content_len := Some 5\<rparr>) :: unit http_error + framing)"
    using parse_as_int_dec [of 5] by (simp add: response_header_def framing_names framing_init_def usize_max_def del: str_simps)
  ultimately obtain s' where s': "process_response client_state_new \<lparr>pr_version = 1, pr_code = 304, pr_reason = str ''Not Modified'',
      pr_headers = [hdr ''Content-Length'' (dec_digits 5)]\<rparr> = (Inr s' :: unit http_error + client_state)"
    "\<forall>stream r. (read_step silent_parser)\<^sup>*\<^sup>* (reader_start s' stream) r \<longrightarrow>
         (case br_state r of
            None \<Rightarrow> 5 \<le> length stream \<and> br_got r = take 5 stream
          | Some c \<Rightarrow> length (br_got r) < 5
              \<and> client_recv silent_parser 64 c [] 10 False = Some (Inr (NeedBytes c))
              \<and> client_recv silent_parser 64 c [] 10 True = Some (Inl (Io UnexpectedEof)))"
    using no_body_status_with_length_waits [of "\<lparr>pr_version = 1, pr_code = 304, pr_reason = str ''Not Modified'',
      pr_headers = [hdr ''Content-Length'' (dec_digits 5)]\<rparr>" "framing_init\<lparr>fr_content_len := Some 5\<rparr>" client_state_new silent_parser 64 10]
    by (auto simp: framing_init_def simp del: str_simps)
  then show ?thesis by (force simp: reader_start_def)
qed

section \<open>Requests\<close>

definition request_header_list :: "bytes \<Rightarrow> header list \<Rightarrow> body_size \<Rightarrow> bool \<Rightarrow> header list" where
  "request_header_list req_method headers bsize websocket =
     filter (\<lambda>h. \<not> request_overrides websocket h) headers @
     (if bsize = Unknown then [hdr ''Connection'' (str ''Transfer-Encoding'')] else []) @
     (case bsize of Known x \<Rightarrow> if content_length_needed req_method x then [hdr ''Content-Length'' (dec_digits x)] else [] | _ \<Rightarrow> []) @
     (if bsize = Unknown then [hdr ''Transfer-Encoding'' (str ''chunked'')] else [])"

lemma request_slices_text:
  "concat (request_slices req_method uri headers bsize websocket) =
     req_method @ str '' '' @ uri @ str '' HTTP/1.1'' @ crlf @
     concat (map header_line (request_header_list req_method headers bsize websocket)) @ crlf"
  by (cases bsize) (simp_all add: request_slices_def request_header_list_def user_header_text header_line_def hdr_def)

lemma request_headers_append:
  "request_headers v (as @ bs) f = (case request_headers v as f of Inl e \<Rightarrow> Inl e | Inr f \<Rightarrow> request_headers v bs f)"
  by (induction as arbitrary: f) (simp_all split: sum.split)

lemma request_headers_neutral:
  "\<forall>h \<in> set hs. \<not> named h ''Connection'' \<and> \<not> named h ''Content-Length'' \<and> \<not> named h ''Transfer-Encoding'' \<Longrightarrow>
     \<exists>e. request_headers v hs f = (Inr (f\<lparr>fr_expect_100 := e\<rparr>) :: 'e http_error + framing)"
proof (induction hs arbitrary: f)
  case Nil
  then show ?case by (intro exI [of _ "fr_expect_100 f"]) simp
next
  case (Cons h hs)
  have "\<exists>e. request_header v h f = (Inr (f\<lparr>fr_expect_100 := e\<rparr>) :: 'e http_error + framing)"
    using Cons.prems by (auto simp: request_header_def intro: exI [of _ "fr_expect_100 f"])
  then obtain e where e: "request_header v h f = (Inr (f\<lparr>fr_expect_100 := e\<rparr>) :: 'e http_error + framing)" by blast
  obtain e' where "request_headers v hs (f\<lparr>fr_expect_100 := e\<rparr>) =
      (Inr (f\<lparr>fr_expect_100 := e\<rparr>\<lparr>fr_expect_100 := e'\<rparr>) :: 'e http_error + framing)"
    using Cons by (meson list.set_intros(2))
  then show ?case using e by auto
qed


text \<open>
  Property C18. A server reads the framing that the client sent: from the header that \<open>send_header\<close> writes for a request without
  the WebSocket flag, \<open>process_request\<close> finds a body exactly when the client sends one (a size of 0 may count as none), of the
  same size, or in chunks, and a connection that is persistent.
\<close>

theorem request_framing_agrees:
  assumes "\<And>x. bsize = Known x \<Longrightarrow> x \<le> usize_max"
    and req: "req = \<lparr>pq_method = req_method, pq_path = uri, pq_version = 1, pq_headers = request_header_list req_method headers bsize False\<rparr>"
  shows "concat (request_slices req_method uri headers bsize False) =
      req_method @ str '' '' @ uri @ str '' HTTP/1.1'' @ crlf @ concat (map header_line (pq_headers req)) @ crlf \<and>
    (\<exists>e p'. process_request p req = (Inr e :: 'e http_error + bool, p') \<and> sp_persistent p' \<and>
      sp_state p' = (if sp_body_size p' = NoBody then AwaitingResponse else ReceivingBody) \<and>
      (sp_body_size p' = bsize \<or> bsize = Known 0 \<and> sp_body_size p' = NoBody) \<and>
      (\<forall>x. sp_body_size p' = Known x \<longrightarrow> sp_chunk_left p' = Some x))"
proof
  show "concat (request_slices req_method uri headers bsize False) =
      req_method @ str '' '' @ uri @ str '' HTTP/1.1'' @ crlf @ concat (map header_line (pq_headers req)) @ crlf"
    by (simp add: request_slices_text req)
  have "\<forall>h \<in> set (filter (\<lambda>h. \<not> request_overrides False h) headers).
      \<not> named h ''Connection'' \<and> \<not> named h ''Content-Length'' \<and> \<not> named h ''Transfer-Encoding''"
    by (auto simp: request_overrides_def)
  then obtain e where e: "request_headers 1 (filter (\<lambda>h. \<not> request_overrides False h) headers) framing_init =
      (Inr (framing_init\<lparr>fr_expect_100 := e\<rparr>) :: 'e http_error + framing)"
    using request_headers_neutral by blast
  have scan: "request_headers 1 (pq_headers req) framing_init =
      (Inr \<lparr>fr_content_len = (case bsize of Known x \<Rightarrow> if content_length_needed req_method x then Some x else None | _ \<Rightarrow> None),
        fr_chunked = (bsize = Unknown), fr_keep_alive = False, fr_close = False, fr_expect_100 = e\<rparr> :: 'e http_error + framing)"
    using assms(1) e parse_as_int_dec
    by (cases bsize) (simp_all add: req request_header_list_def request_headers_append request_header_def framing_init_def framing_names
      connection_params del: str_simps)
  show "\<exists>e p'. process_request p req = (Inr e :: 'e http_error + bool, p') \<and> sp_persistent p' \<and>
      sp_state p' = (if sp_body_size p' = NoBody then AwaitingResponse else ReceivingBody) \<and>
      (sp_body_size p' = bsize \<or> bsize = Known 0 \<and> sp_body_size p' = NoBody) \<and>
      (\<forall>x. sp_body_size p' = Known x \<longrightarrow> sp_chunk_left p' = Some x)"
    using scan req by (cases bsize) (auto simp: process_request_def Let_def content_length_needed_def)
qed

theorem request_framing_agrees_witness:
  "\<exists>e p'. process_request server_new \<lparr>pq_method = str ''POST'', pq_path = str ''/'', pq_version = 1,
      pq_headers = request_header_list (str ''POST'') [hdr ''Host'' (str ''h'')] (Known 5) False\<rparr> =
      (Inr e :: unit http_error + bool, p') \<and> sp_body_size p' = Known 5"
  using request_framing_agrees [of "Known 5" _ "str ''POST''" "str ''/''" "[hdr ''Host'' (str ''h'')]" server_new]
  by (simp add: usize_max_def del: str_simps) blast

end
