(* ===== verification/ZhttpPacket.thy ===== *)
theory ZhttpPacket
  imports TnetWriter
begin

text \<open>
  The packets that the connection manager exchanges with its handlers, \<open>src/connmgr/zhttppacket.rs\<close>:
  the data of every packet type, its serialization through the tnetstring writer and its parsing
  through the tnetstring iterators. A \<open>&str\<close> is the list of its bytes; the field widths are words, and
  \<open>x as u32\<close> is the truncation \<open>word_of_int\<close>. The scratch array vectors that collect ids and headers are
  lists with the capacity written out; a push onto a full one panics.
\<close>

section \<open>Errors\<close>

type_synonym u32 = "32 word"

datatype packet_error =
    Unrecognized
  | TnetParse parse_error
  | PkWrongType string frame_type
  | NotMapOrString string
  | NotUtf8 string
  | NegativeInt string
  | TooManyIds
  | TooManyHeaders
  | InvalidHeader
  | NoId

type_synonym 'a packet = "(packet_error + 'a) run"

definition pk_bind :: "'a packet \<Rightarrow> ('a \<Rightarrow> 'b packet) \<Rightarrow> 'b packet" where
  "pk_bind r f = (case r of None \<Rightarrow> panic | Some (Inl e) \<Rightarrow> Some (Inl e) | Some (Inr x) \<Rightarrow> f x)"

text \<open>The conversion of \<open>?\<close>, and \<open>ErrorContext::field\<close> for the two error types it is implemented for.\<close>

definition tnet_result :: "'a parsed \<Rightarrow> 'a packet" where
  "tnet_result r = (case r of None \<Rightarrow> panic | Some (Inl e) \<Rightarrow> Some (Inl (TnetParse e)) | Some (Inr x) \<Rightarrow> Some (Inr x))"

definition field_of :: "string \<Rightarrow> 'a parsed \<Rightarrow> 'a packet" where
  "field_of field r =
     (case r of
        None \<Rightarrow> panic
      | Some (Inr v) \<Rightarrow> Some (Inr v)
      | Some (Inl e) \<Rightarrow> Some (Inl (case e of WrongType _ expected \<Rightarrow> PkWrongType field expected | _ \<Rightarrow> TnetParse e)))"

definition utf8_field :: "string \<Rightarrow> bytes \<Rightarrow> bytes packet" where
  "utf8_field field s = Some (if utf8_valid s then Inr s else Inl (NotUtf8 field))"

text \<open>The four kinds of field that the parsers read: byte string, text, non-negative integer, boolean.\<close>

definition bytes_field :: "bool \<Rightarrow> string \<Rightarrow> bytes \<Rightarrow> bytes packet" where
  "bytes_field oc field data = field_of field (parse_string oc data)"

definition str_field :: "bool \<Rightarrow> string \<Rightarrow> bytes \<Rightarrow> bytes packet" where
  "str_field oc field data = pk_bind (bytes_field oc field data) (utf8_field field)"

definition int_field :: "bool \<Rightarrow> string \<Rightarrow> bytes \<Rightarrow> int packet" where
  "int_field oc field data = pk_bind (field_of field (parse_int oc data))
     (\<lambda>x. Some (if x < 0 then Inl (NegativeInt field) else Inr x))"

definition bool_field :: "bool \<Rightarrow> string \<Rightarrow> bytes \<Rightarrow> bool packet" where
  "bool_field oc field data = field_of field (parse_bool oc data)"

text \<open>
  \<open>for e in iterator { let e = e?; body }\<close>. The loop is written as a partial function, since nothing in
  its form bounds the iterations; that it ends on every input is part of the theorem on the parsers.
\<close>

partial_function (option) for_items ::
  "(iter \<Rightarrow> ((parse_error + 'i) option \<times> iter) run) \<Rightarrow> ('i \<Rightarrow> 's \<Rightarrow> (packet_error + 's) option) \<Rightarrow> iter \<Rightarrow> 's \<Rightarrow> (packet_error + 's) option" where
  "for_items nx body it s = do {
     (item, it) \<leftarrow> nx it;
     case item of
       None \<Rightarrow> Some (Inr s)
     | Some (Inl e) \<Rightarrow> Some (Inl (TnetParse e))
     | Some (Inr i) \<Rightarrow> do {
         r \<leftarrow> body i s;
         case r of Inl e \<Rightarrow> Some (Inl e) | Inr s \<Rightarrow> for_items nx body it s
       }
   }"

section \<open>Packet data\<close>

definition IDS_MAX :: nat where "IDS_MAX = 128"
definition HEADERS_MAX :: nat where "HEADERS_MAX = 64"

record pkt_id =
  id_id :: bytes
  id_seq :: "u32 option"

definition EMPTY_ID :: pkt_id where "EMPTY_ID = \<lparr>id_id = [], id_seq = None\<rparr>"

record pkt_header =
  ph_name :: bytes
  ph_value :: bytes

datatype content_type = CtText | CtBinary

text \<open>\<open>ArrayVec::push\<close>.\<close>

definition scratch_push :: "nat \<Rightarrow> 'a list \<Rightarrow> 'a \<Rightarrow> 'a list run" where
  "scratch_push cap xs x = (if length xs < cap then Some (xs @ [x]) else panic)"

record common_data =
  cd_from :: bytes
  cd_ids :: "pkt_id list"
  cd_multi :: bool
  cd_ptype_str :: bytes

record request_data =
  rq_credits :: u32
  rq_more :: bool
  rq_stream :: bool
  rq_router_resp :: bool
  rq_max_size :: u32
  rq_timeout :: u32
  rq_method :: bytes
  rq_uri :: bytes
  rq_headers :: "pkt_header list"
  rq_content_type :: "content_type option"
  rq_body :: bytes
  rq_peer_address :: bytes
  rq_peer_port :: u16
  rq_connect_host :: bytes
  rq_connect_port :: u16
  rq_ignore_policies :: bool
  rq_trust_connect_host :: bool
  rq_ignore_tls_errors :: bool
  rq_client_cert :: bytes
  rq_client_key :: bytes
  rq_follow_redirects :: bool

definition request_data_new :: request_data where
  "request_data_new =
     \<lparr>rq_credits = 0, rq_more = False, rq_stream = False, rq_router_resp = False, rq_max_size = 0, rq_timeout = 0,
      rq_method = [], rq_uri = [], rq_headers = [], rq_content_type = None, rq_body = [], rq_peer_address = [],
      rq_peer_port = 0, rq_connect_host = [], rq_connect_port = 0, rq_ignore_policies = False,
      rq_trust_connect_host = False, rq_ignore_tls_errors = False, rq_client_cert = [], rq_client_key = [],
      rq_follow_redirects = False\<rparr>"

record response_data =
  rs_credits :: u32
  rs_more :: bool
  rs_code :: u16
  rs_reason :: bytes
  rs_headers :: "pkt_header list"
  rs_content_type :: "content_type option"
  rs_body :: bytes

definition response_data_new :: response_data where
  "response_data_new =
     \<lparr>rs_credits = 0, rs_more = False, rs_code = 0, rs_reason = [], rs_headers = [], rs_content_type = None, rs_body = []\<rparr>"

record rejected_info =
  ri_code :: u16
  ri_reason :: bytes
  ri_headers :: "pkt_header list"
  ri_body :: bytes

record response_error_data =
  re_condition :: bytes
  re_rejected_info :: "rejected_info option"

record ping_data =
  pg_credits :: u32
  pg_body :: bytes

text \<open>\<open>RequestErrorData\<close>, \<open>CreditData\<close> and \<open>CloseData\<close> have one field each, which stands for them here.\<close>

datatype request_packet =
    RqUnknown
  | RqData request_data
  | RqError bytes
  | RqCredit u32
  | RqKeepAlive
  | RqCancel
  | RqHandoffStart
  | RqHandoffProceed
  | RqClose "(u16 \<times> bytes) option"
  | RqPing ping_data
  | RqPong ping_data

datatype response_packet =
    RsUnknown
  | RsData response_data
  | RsError response_error_data
  | RsCredit u32
  | RsKeepAlive
  | RsCancel
  | RsHandoffStart
  | RsHandoffProceed
  | RsClose "(u16 \<times> bytes) option"
  | RsPing ping_data
  | RsPong ping_data

record 'p zpacket =
  zp_from :: bytes
  zp_ids :: "pkt_id list"
  zp_multi :: bool
  zp_ptype :: 'p
  zp_ptype_str :: bytes

type_synonym request = "request_packet zpacket"
type_synonym response = "response_packet zpacket"

section \<open>Serialization\<close>

text \<open>A sequence of writer calls joined by \<open>?\<close>.\<close>

fun w_all :: "('f tnet_writer \<Rightarrow> (io_error + unit) \<times> 'f tnet_writer) list \<Rightarrow> 'f tnet_writer \<Rightarrow> (io_error + unit) \<times> 'f tnet_writer" where
  "w_all [] w = (Inr (), w)"
| "w_all (a # as) w = (case a w of (Inl e, w) \<Rightarrow> (Inl e, w) | (Inr _, w) \<Rightarrow> w_all as w)"

definition w_str :: "bytes \<Rightarrow> 'f tnet_writer \<Rightarrow> (io_error + unit) \<times> 'f tnet_writer" where
  "w_str s w = write_string w s"

definition w_int :: "int \<Rightarrow> 'f tnet_writer \<Rightarrow> (io_error + unit) \<times> 'f tnet_writer" where
  "w_int x w = write_int w x"

definition w_bool :: "bool \<Rightarrow> 'f tnet_writer \<Rightarrow> (io_error + unit) \<times> 'f tnet_writer" where
  "w_bool b w = write_bool w b"

definition w_if :: "bool \<Rightarrow> ('f tnet_writer \<Rightarrow> (io_error + unit) \<times> 'f tnet_writer) list \<Rightarrow> 'f tnet_writer \<Rightarrow> (io_error + unit) \<times> 'f tnet_writer" where
  "w_if c as = (if c then w_all as else w_all [])"

definition seq_serialize :: "u32 option \<Rightarrow> 'f tnet_writer \<Rightarrow> (io_error + unit) \<times> 'f tnet_writer" where
  "seq_serialize q = (case q of None \<Rightarrow> w_all [] | Some seq \<Rightarrow> w_all [w_str (str ''seq''), w_int (uint seq)])"

definition id_serialize :: "pkt_id \<Rightarrow> 'f tnet_writer \<Rightarrow> (io_error + unit) \<times> 'f tnet_writer" where
  "id_serialize i = w_all [start_map, w_str (str ''id''), w_str (id_id i), seq_serialize (id_seq i), end_map]"

definition common_serialize :: "common_data \<Rightarrow> 'f tnet_writer \<Rightarrow> (io_error + unit) \<times> 'f tnet_writer" where
  "common_serialize d = w_all
     [w_if (cd_from d \<noteq> []) [w_str (str ''from''), w_str (cd_from d)],
      (if length (cd_ids d) = 1 then
         w_all [w_str (str ''id''), w_str (id_id (cd_ids d ! 0)), seq_serialize (id_seq (cd_ids d ! 0))]
       else if length (cd_ids d) > 1 then
         w_all [w_str (str ''id''), start_array, w_all (map id_serialize (cd_ids d)), end_array]
       else w_all []),
      w_if (cd_multi d) [w_str (str ''ext''), start_map, w_str (str ''multi''), w_bool True, end_map],
      w_if (cd_ptype_str d \<noteq> []) [w_str (str ''type''), w_str (cd_ptype_str d)]]"

definition header_serialize :: "pkt_header \<Rightarrow> 'f tnet_writer \<Rightarrow> (io_error + unit) \<times> 'f tnet_writer" where
  "header_serialize h = w_all [start_array, w_str (ph_name h), w_str (ph_value h), end_array]"

definition headers_serialize :: "pkt_header list \<Rightarrow> 'f tnet_writer \<Rightarrow> (io_error + unit) \<times> 'f tnet_writer" where
  "headers_serialize hs = w_if (hs \<noteq> [])
     [w_str (str ''headers''), start_array, w_all (map header_serialize hs), end_array]"

fun content_type_bytes :: "content_type \<Rightarrow> bytes" where
  "content_type_bytes CtText = str ''text''"
| "content_type_bytes CtBinary = str ''binary''"

definition content_type_serialize :: "content_type option \<Rightarrow> 'f tnet_writer \<Rightarrow> (io_error + unit) \<times> 'f tnet_writer" where
  "content_type_serialize ct =
     (case ct of None \<Rightarrow> w_all [] | Some c \<Rightarrow> w_all [w_str (str ''content-type''), w_str (content_type_bytes c)])"

definition request_data_serialize :: "request_data \<Rightarrow> 'f tnet_writer \<Rightarrow> (io_error + unit) \<times> 'f tnet_writer" where
  "request_data_serialize d = w_all
     [w_if (rq_method d \<noteq> []) [w_str (str ''method''), w_str (rq_method d)],
      w_if (rq_uri d \<noteq> []) [w_str (str ''uri''), w_str (rq_uri d)],
      headers_serialize (rq_headers d),
      content_type_serialize (rq_content_type d),
      w_if (rq_body d \<noteq> []) [w_str (str ''body''), w_str (rq_body d)],
      w_if (rq_credits d > 0) [w_str (str ''credits''), w_int (uint (rq_credits d))],
      w_if (rq_more d) [w_str (str ''more''), w_bool True],
      w_if (rq_stream d) [w_str (str ''stream''), w_bool True],
      w_if (rq_router_resp d) [w_str (str ''router-resp''), w_bool True],
      w_if (rq_max_size d > 0) [w_str (str ''max-size''), w_int (uint (rq_max_size d))],
      w_if (rq_timeout d > 0) [w_str (str ''timeout''), w_int (uint (rq_timeout d))],
      w_if (rq_peer_address d \<noteq> [])
        [w_str (str ''peer-address''), w_str (rq_peer_address d), w_str (str ''peer-port''), w_int (uint (rq_peer_port d))]]"

definition response_data_serialize :: "response_data \<Rightarrow> 'f tnet_writer \<Rightarrow> (io_error + unit) \<times> 'f tnet_writer" where
  "response_data_serialize d = w_all
     [w_if (rs_code d > 0) [w_str (str ''code''), w_int (uint (rs_code d))],
      w_if (rs_reason d \<noteq> []) [w_str (str ''reason''), w_str (rs_reason d)],
      headers_serialize (rs_headers d),
      content_type_serialize (rs_content_type d),
      w_if (rs_body d \<noteq> []) [w_str (str ''body''), w_str (rs_body d)],
      w_if (rs_credits d > 0) [w_str (str ''credits''), w_int (uint (rs_credits d))],
      w_if (rs_more d) [w_str (str ''more''), w_bool True]]"

definition request_error_serialize :: "bytes \<Rightarrow> 'f tnet_writer \<Rightarrow> (io_error + unit) \<times> 'f tnet_writer" where
  "request_error_serialize condition = w_all [w_str (str ''condition''), w_str condition]"

definition response_error_serialize :: "response_error_data \<Rightarrow> 'f tnet_writer \<Rightarrow> (io_error + unit) \<times> 'f tnet_writer" where
  "response_error_serialize d = w_all
     [w_str (str ''condition''), w_str (re_condition d),
      (case re_rejected_info d of
         None \<Rightarrow> w_all []
       | Some ri \<Rightarrow> w_all
           [w_str (str ''code''), w_int (uint (ri_code ri)),
            w_str (str ''reason''), w_str (ri_reason ri),
            headers_serialize (ri_headers ri),
            w_str (str ''body''), w_str (ri_body ri)])]"

definition credit_serialize :: "u32 \<Rightarrow> 'f tnet_writer \<Rightarrow> (io_error + unit) \<times> 'f tnet_writer" where
  "credit_serialize credits = w_all [w_str (str ''credits''), w_int (uint credits)]"

definition close_serialize :: "(u16 \<times> bytes) option \<Rightarrow> 'f tnet_writer \<Rightarrow> (io_error + unit) \<times> 'f tnet_writer" where
  "close_serialize status =
     (case status of
        None \<Rightarrow> w_all []
      | Some (code, reason) \<Rightarrow> w_all
          [w_str (str ''code''), w_int (uint code),
           w_if (reason \<noteq> []) [w_str (str ''body''), w_str reason]])"

definition ping_serialize :: "ping_data \<Rightarrow> 'f tnet_writer \<Rightarrow> (io_error + unit) \<times> 'f tnet_writer" where
  "ping_serialize d = w_if (pg_body d \<noteq> []) [w_str (str ''body''), w_str (pg_body d)]"

definition pong_serialize :: "ping_data \<Rightarrow> 'f tnet_writer \<Rightarrow> (io_error + unit) \<times> 'f tnet_writer" where
  "pong_serialize d = w_if (pg_body d \<noteq> []) [w_str (str ''body''), w_str (pg_body d)]"

text \<open>The type string of a packet; the unknown type makes \<open>serialize\<close> panic.\<close>

fun request_type :: "request_packet \<Rightarrow> bytes run" where
  "request_type (RqData _) = Some []"
| "request_type (RqError _) = Some (str ''error'')"
| "request_type (RqCredit _) = Some (str ''credit'')"
| "request_type RqKeepAlive = Some (str ''keep-alive'')"
| "request_type RqCancel = Some (str ''cancel'')"
| "request_type RqHandoffStart = Some (str ''handoff-start'')"
| "request_type RqHandoffProceed = Some (str ''handoff-proceed'')"
| "request_type (RqClose _) = Some (str ''close'')"
| "request_type (RqPing _) = Some (str ''ping'')"
| "request_type (RqPong _) = Some (str ''pong'')"
| "request_type RqUnknown = panic"

fun response_type :: "response_packet \<Rightarrow> bytes run" where
  "response_type (RsData _) = Some []"
| "response_type (RsError _) = Some (str ''error'')"
| "response_type (RsCredit _) = Some (str ''credit'')"
| "response_type RsKeepAlive = Some (str ''keep-alive'')"
| "response_type RsCancel = Some (str ''cancel'')"
| "response_type RsHandoffStart = Some (str ''handoff-start'')"
| "response_type RsHandoffProceed = Some (str ''handoff-proceed'')"
| "response_type (RsClose _) = Some (str ''close'')"
| "response_type (RsPing _) = Some (str ''ping'')"
| "response_type (RsPong _) = Some (str ''pong'')"
| "response_type RsUnknown = panic"

fun request_body_serialize :: "request_packet \<Rightarrow> 'f tnet_writer \<Rightarrow> (io_error + unit) \<times> 'f tnet_writer" where
  "request_body_serialize (RqData d) = request_data_serialize d"
| "request_body_serialize (RqError d) = request_error_serialize d"
| "request_body_serialize (RqCredit d) = credit_serialize d"
| "request_body_serialize (RqClose d) = close_serialize d"
| "request_body_serialize (RqPing d) = ping_serialize d"
| "request_body_serialize (RqPong d) = pong_serialize d"
| "request_body_serialize _ = w_all []"

fun response_body_serialize :: "response_packet \<Rightarrow> 'f tnet_writer \<Rightarrow> (io_error + unit) \<times> 'f tnet_writer" where
  "response_body_serialize (RsData d) = response_data_serialize d"
| "response_body_serialize (RsError d) = response_error_serialize d"
| "response_body_serialize (RsCredit d) = credit_serialize d"
| "response_body_serialize (RsClose d) = close_serialize d"
| "response_body_serialize (RsPing d) = ping_serialize d"
| "response_body_serialize (RsPong d) = pong_serialize d"
| "response_body_serialize _ = w_all []"

text \<open>
  \<open>serialize\<close>, which is written twice in the source, once for requests and once for responses: the result
  and the destination buffer afterwards. The destination starts with the byte \<open>T\<close>.
\<close>

definition packet_serialize ::
  "('p \<Rightarrow> bytes run) \<Rightarrow> ('p \<Rightarrow> 'f tnet_writer \<Rightarrow> (io_error + unit) \<times> 'f tnet_writer) \<Rightarrow>
   bool \<Rightarrow> ('f \<Rightarrow> bytes) \<Rightarrow> 'p zpacket \<Rightarrow> bytes \<Rightarrow> ((io_error + nat) \<times> bytes) run" where
  "packet_serialize ptype body oc fmt p dest =
     (if dest = [] then Some (Inl WriteZero, dest)
      else do {
        ptype_str \<leftarrow> ptype (zp_ptype p);
        let common = \<lparr>cd_from = zp_from p, cd_ids = zp_ids p, cd_multi = zp_multi p, cd_ptype_str = ptype_str\<rparr>;
        case w_all [start_map, common_serialize common, body (zp_ptype p), end_map] (tn_new \<lparr>cur_buf = tl dest, cur_pos = 0\<rparr>) of
          (Inl e, w) \<Rightarrow> Some (Inl e, 84 # cur_buf (tn_dest w))
        | (Inr _, w) \<Rightarrow> do {
            (r, w) \<leftarrow> tn_flush oc fmt w;
            Some (case r of Inl e \<Rightarrow> Inl e | Inr _ \<Rightarrow> Inr (cur_pos (tn_dest w) + 1), 84 # cur_buf (tn_dest w))
          }
      })"

definition request_serialize :: "bool \<Rightarrow> ('f \<Rightarrow> bytes) \<Rightarrow> request \<Rightarrow> bytes \<Rightarrow> ((io_error + nat) \<times> bytes) run" where
  "request_serialize = packet_serialize request_type request_body_serialize"

definition response_serialize :: "bool \<Rightarrow> ('f \<Rightarrow> bytes) \<Rightarrow> response \<Rightarrow> bytes \<Rightarrow> ((io_error + nat) \<times> bytes) run" where
  "response_serialize = packet_serialize response_type response_body_serialize"

section \<open>Constructors\<close>

definition packet_new :: "bytes \<Rightarrow> pkt_id list \<Rightarrow> 'p \<Rightarrow> 'p zpacket" where
  "packet_new from ids ptype =
     \<lparr>zp_from = from, zp_ids = ids, zp_multi = False, zp_ptype = ptype, zp_ptype_str = []\<rparr>"

definition request_new_data :: "bytes \<Rightarrow> pkt_id list \<Rightarrow> request_data \<Rightarrow> request" where
  "request_new_data from ids data = packet_new from ids (RqData data)"

definition request_new_error :: "bytes \<Rightarrow> pkt_id list \<Rightarrow> bytes \<Rightarrow> request" where
  "request_new_error from ids condition = packet_new from ids (RqError condition)"

definition request_new_credit :: "bytes \<Rightarrow> pkt_id list \<Rightarrow> u32 \<Rightarrow> request" where
  "request_new_credit from ids credits = packet_new from ids (RqCredit credits)"

definition request_new_keep_alive :: "bytes \<Rightarrow> pkt_id list \<Rightarrow> request" where
  "request_new_keep_alive from ids = packet_new from ids RqKeepAlive"

definition request_new_cancel :: "bytes \<Rightarrow> pkt_id list \<Rightarrow> request" where
  "request_new_cancel from ids = packet_new from ids RqCancel"

definition request_new_handoff_start :: "bytes \<Rightarrow> pkt_id list \<Rightarrow> request" where
  "request_new_handoff_start from ids = packet_new from ids RqHandoffStart"

definition request_new_handoff_proceed :: "bytes \<Rightarrow> pkt_id list \<Rightarrow> request" where
  "request_new_handoff_proceed from ids = packet_new from ids RqHandoffProceed"

definition request_new_close :: "bytes \<Rightarrow> pkt_id list \<Rightarrow> (u16 \<times> bytes) option \<Rightarrow> request" where
  "request_new_close from ids status = packet_new from ids (RqClose status)"

definition request_new_ping :: "bytes \<Rightarrow> pkt_id list \<Rightarrow> bytes \<Rightarrow> request" where
  "request_new_ping from ids body = packet_new from ids (RqPing \<lparr>pg_credits = 0, pg_body = body\<rparr>)"

definition request_new_pong :: "bytes \<Rightarrow> pkt_id list \<Rightarrow> bytes \<Rightarrow> request" where
  "request_new_pong from ids body = packet_new from ids (RqPong \<lparr>pg_credits = 0, pg_body = body\<rparr>)"

definition response_new_data :: "bytes \<Rightarrow> pkt_id list \<Rightarrow> response_data \<Rightarrow> response" where
  "response_new_data from ids data = packet_new from ids (RsData data)"

definition response_new_error :: "bytes \<Rightarrow> pkt_id list \<Rightarrow> response_error_data \<Rightarrow> response" where
  "response_new_error from ids edata = packet_new from ids (RsError edata)"

definition response_new_credit :: "bytes \<Rightarrow> pkt_id list \<Rightarrow> u32 \<Rightarrow> response" where
  "response_new_credit from ids credits = packet_new from ids (RsCredit credits)"

definition response_new_keep_alive :: "bytes \<Rightarrow> pkt_id list \<Rightarrow> response" where
  "response_new_keep_alive from ids = packet_new from ids RsKeepAlive"

definition response_new_cancel :: "bytes \<Rightarrow> pkt_id list \<Rightarrow> response" where
  "response_new_cancel from ids = packet_new from ids RsCancel"

definition response_new_handoff_proceed :: "bytes \<Rightarrow> pkt_id list \<Rightarrow> response" where
  "response_new_handoff_proceed from ids = packet_new from ids RsHandoffProceed"

definition response_new_close :: "bytes \<Rightarrow> pkt_id list \<Rightarrow> (u16 \<times> bytes) option \<Rightarrow> response" where
  "response_new_close from ids status = packet_new from ids (RsClose status)"

definition response_new_ping :: "bytes \<Rightarrow> pkt_id list \<Rightarrow> bytes \<Rightarrow> response" where
  "response_new_ping from ids body = packet_new from ids (RsPing \<lparr>pg_credits = 0, pg_body = body\<rparr>)"

definition response_new_pong :: "bytes \<Rightarrow> pkt_id list \<Rightarrow> bytes \<Rightarrow> response" where
  "response_new_pong from ids body = packet_new from ids (RsPong \<lparr>pg_credits = 0, pg_body = body\<rparr>)"

section \<open>Parsing\<close>

text \<open>The members of one element of an \<open>id\<close> array; \<open>parse_ids\<close> reads the \<open>id\<close> member only.\<close>

definition id_member :: "bool \<Rightarrow> map_item \<Rightarrow> pkt_id \<Rightarrow> pkt_id packet" where
  "id_member oc m i =
     (if mi_key m = str ''id'' then pk_bind (bytes_field oc ''id'' (mi_data m)) (\<lambda>s. Some (Inr (i\<lparr>id_id := s\<rparr>)))
      else if mi_key m = str ''seq'' then
        pk_bind (int_field oc ''seq'' (mi_data m)) (\<lambda>x. Some (Inr (i\<lparr>id_seq := Some (word_of_int x)\<rparr>)))
      else Some (Inr i))"

definition id_item :: "bool \<Rightarrow> seq_item \<Rightarrow> pkt_id list \<Rightarrow> pkt_id list packet" where
  "id_item oc e ids =
     (if length ids = IDS_MAX then Some (Inl TooManyIds)
      else pk_bind (tnet_result (parse_map oc (si_data e))) (\<lambda>it.
        pk_bind (for_items (map_next oc) (id_member oc) it EMPTY_ID) (\<lambda>i. do {
          ids \<leftarrow> scratch_push IDS_MAX ids i;
          Some (Inr ids)
        })))"

text \<open>\<open>scratch[0]\<close> after \<open>if scratch.is_empty() { scratch.push(EMPTY_ID) }\<close>.\<close>

definition with_first :: "(pkt_id \<Rightarrow> pkt_id) \<Rightarrow> pkt_id list \<Rightarrow> pkt_id list packet" where
  "with_first f ids = do {
     ids \<leftarrow> (if ids = [] then scratch_push IDS_MAX ids EMPTY_ID else Some ids);
     i \<leftarrow> index_at ids 0;
     Some (Inr (ids[0 := f i]))
   }"

definition ext_member :: "bool \<Rightarrow> map_item \<Rightarrow> bool \<Rightarrow> bool packet" where
  "ext_member oc m multi =
     (if mi_key m = str ''multi'' then bool_field oc ''multi'' (mi_data m) else Some (Inr multi))"

definition common_field :: "bool \<Rightarrow> map_item \<Rightarrow> common_data \<Rightarrow> common_data packet" where
  "common_field oc e d =
     (if mi_key e = str ''from'' then pk_bind (bytes_field oc ''from'' (mi_data e)) (\<lambda>s. Some (Inr (d\<lparr>cd_from := s\<rparr>)))
      else if mi_key e = str ''id'' then
        (case mi_type e of
           FArray \<Rightarrow> pk_bind (tnet_result (parse_array oc (mi_data e))) (\<lambda>it.
             pk_bind (for_items (seq_next oc) (id_item oc) it (cd_ids d)) (\<lambda>ids. Some (Inr (d\<lparr>cd_ids := ids\<rparr>))))
         | FString \<Rightarrow> pk_bind (tnet_result (parse_string oc (mi_data e))) (\<lambda>s.
             pk_bind (with_first (\<lambda>i. i\<lparr>id_id := s\<rparr>) (cd_ids d)) (\<lambda>ids. Some (Inr (d\<lparr>cd_ids := ids\<rparr>))))
         | _ \<Rightarrow> Some (Inl (NotMapOrString ''id'')))
      else if mi_key e = str ''seq'' then pk_bind (int_field oc ''seq'' (mi_data e)) (\<lambda>x.
        pk_bind (with_first (\<lambda>i. i\<lparr>id_seq := Some (word_of_int x)\<rparr>) (cd_ids d)) (\<lambda>ids. Some (Inr (d\<lparr>cd_ids := ids\<rparr>))))
      else if mi_key e = str ''type'' then pk_bind (str_field oc ''type'' (mi_data e)) (\<lambda>s. Some (Inr (d\<lparr>cd_ptype_str := s\<rparr>)))
      else if mi_key e = str ''ext'' then
        pk_bind (field_of ''ext'' (parse_map oc (mi_data e))) (\<lambda>it.
          pk_bind (for_items (map_next oc) (ext_member oc) it (cd_multi d)) (\<lambda>b. Some (Inr (d\<lparr>cd_multi := b\<rparr>))))
      else Some (Inr d))"

definition common_parse :: "bool \<Rightarrow> iter \<Rightarrow> pkt_id list \<Rightarrow> common_data packet" where
  "common_parse oc root scratch =
     for_items (map_next oc) (common_field oc) root \<lparr>cd_from = [], cd_ids = scratch, cd_multi = False, cd_ptype_str = []\<rparr>"

text \<open>The two calls of \<open>next\<close> on a header item.\<close>

definition next_or_invalid :: "bool \<Rightarrow> iter \<Rightarrow> (seq_item \<times> iter) packet" where
  "next_or_invalid oc hi = do {
     (item, hi) \<leftarrow> seq_next oc hi;
     Some (case item of Some (Inr i) \<Rightarrow> Inr (i, hi) | Some (Inl e) \<Rightarrow> Inl (TnetParse e) | None \<Rightarrow> Inl InvalidHeader)
   }"

definition header_item :: "bool \<Rightarrow> seq_item \<Rightarrow> pkt_header list \<Rightarrow> pkt_header list packet" where
  "header_item oc ha hs =
     (if length hs = HEADERS_MAX then Some (Inl TooManyHeaders)
      else pk_bind (field_of ''header item'' (parse_array oc (si_data ha))) (\<lambda>hi.
        pk_bind (next_or_invalid oc hi) (\<lambda>(ni, hi).
          pk_bind (str_field oc ''header name'' (si_data ni)) (\<lambda>name.
            pk_bind (next_or_invalid oc hi) (\<lambda>(vi, hi).
              pk_bind (bytes_field oc ''header value'' (si_data vi)) (\<lambda>value. do {
                hs \<leftarrow> scratch_push HEADERS_MAX hs \<lparr>ph_name = name, ph_value = value\<rparr>;
                Some (Inr hs)
              }))))))"

definition headers_field :: "bool \<Rightarrow> bytes \<Rightarrow> pkt_header list \<Rightarrow> pkt_header list packet" where
  "headers_field oc data hs =
     pk_bind (field_of ''headers'' (parse_array oc data)) (\<lambda>it. for_items (seq_next oc) (header_item oc) it hs)"

definition content_type_field :: "bool \<Rightarrow> bytes \<Rightarrow> content_type option packet" where
  "content_type_field oc data = pk_bind (bytes_field oc ''content-type'' data)
     (\<lambda>s. Some (Inr (Some (if s = str ''binary'' then CtBinary else CtText))))"

text \<open>Assignments of one parsed field to the local variables of a loop.\<close>

definition set_to :: "('a \<Rightarrow> 's) \<Rightarrow> 'a packet \<Rightarrow> 's packet" where
  "set_to upd r = pk_bind r (\<lambda>x. Some (Inr (upd x)))"

definition request_field :: "bool \<Rightarrow> map_item \<Rightarrow> request_data \<Rightarrow> request_data packet" where
  "request_field oc e d =
     (let key = mi_key e; data = mi_data e in
      if key = str ''credits'' then set_to (\<lambda>x. d\<lparr>rq_credits := word_of_int x\<rparr>) (int_field oc ''credits'' data)
      else if key = str ''more'' then set_to (\<lambda>b. d\<lparr>rq_more := b\<rparr>) (bool_field oc ''more'' data)
      else if key = str ''stream'' then set_to (\<lambda>b. d\<lparr>rq_stream := b\<rparr>) (bool_field oc ''stream'' data)
      else if key = str ''router-resp'' then set_to (\<lambda>b. d\<lparr>rq_router_resp := b\<rparr>) (bool_field oc ''router-resp'' data)
      else if key = str ''max-size'' then set_to (\<lambda>x. d\<lparr>rq_max_size := word_of_int x\<rparr>) (int_field oc ''max-size'' data)
      else if key = str ''timeout'' then set_to (\<lambda>x. d\<lparr>rq_timeout := word_of_int x\<rparr>) (int_field oc ''timeout'' data)
      else if key = str ''method'' then set_to (\<lambda>s. d\<lparr>rq_method := s\<rparr>) (str_field oc ''method'' data)
      else if key = str ''uri'' then set_to (\<lambda>s. d\<lparr>rq_uri := s\<rparr>) (str_field oc ''uri'' data)
      else if key = str ''headers'' then set_to (\<lambda>hs. d\<lparr>rq_headers := hs\<rparr>) (headers_field oc data (rq_headers d))
      else if key = str ''content-type'' then set_to (\<lambda>c. d\<lparr>rq_content_type := c\<rparr>) (content_type_field oc data)
      else if key = str ''body'' then set_to (\<lambda>s. d\<lparr>rq_body := s\<rparr>) (bytes_field oc ''body'' data)
      else if key = str ''peer-address'' then set_to (\<lambda>s. d\<lparr>rq_peer_address := s\<rparr>) (str_field oc ''peer-address'' data)
      else if key = str ''peer-port'' then set_to (\<lambda>x. d\<lparr>rq_peer_port := word_of_int x\<rparr>) (int_field oc ''peer-port'' data)
      else if key = str ''connect-host'' then set_to (\<lambda>s. d\<lparr>rq_connect_host := s\<rparr>) (str_field oc ''connect-host'' data)
      else if key = str ''connect-port'' then set_to (\<lambda>x. d\<lparr>rq_connect_port := word_of_int x\<rparr>) (int_field oc ''connect-port'' data)
      else if key = str ''ignore-policies'' then set_to (\<lambda>b. d\<lparr>rq_ignore_policies := b\<rparr>) (bool_field oc ''ignore-policies'' data)
      else if key = str ''trust-connect-host'' then set_to (\<lambda>b. d\<lparr>rq_trust_connect_host := b\<rparr>) (bool_field oc ''trust-connect-host'' data)
      else if key = str ''ignore-tls-errors'' then set_to (\<lambda>b. d\<lparr>rq_ignore_tls_errors := b\<rparr>) (bool_field oc ''ignore-tls-errors'' data)
      else if key = str ''client-cert'' then set_to (\<lambda>s. d\<lparr>rq_client_cert := s\<rparr>) (str_field oc ''client-cert'' data)
      else if key = str ''client-key'' then set_to (\<lambda>s. d\<lparr>rq_client_key := s\<rparr>) (str_field oc ''client-key'' data)
      else if key = str ''follow-redirects'' then set_to (\<lambda>b. d\<lparr>rq_follow_redirects := b\<rparr>) (bool_field oc ''follow-redirects'' data)
      else Some (Inr d))"

definition request_data_parse :: "bool \<Rightarrow> iter \<Rightarrow> pkt_header list \<Rightarrow> request_data packet" where
  "request_data_parse oc root scratch =
     for_items (map_next oc) (request_field oc) root (request_data_new\<lparr>rq_headers := scratch\<rparr>)"

definition response_field :: "bool \<Rightarrow> map_item \<Rightarrow> response_data \<Rightarrow> response_data packet" where
  "response_field oc e d =
     (let key = mi_key e; data = mi_data e in
      if key = str ''credits'' then set_to (\<lambda>x. d\<lparr>rs_credits := word_of_int x\<rparr>) (int_field oc ''credits'' data)
      else if key = str ''more'' then set_to (\<lambda>b. d\<lparr>rs_more := b\<rparr>) (bool_field oc ''more'' data)
      else if key = str ''code'' then set_to (\<lambda>x. d\<lparr>rs_code := word_of_int x\<rparr>) (int_field oc ''code'' data)
      else if key = str ''reason'' then set_to (\<lambda>s. d\<lparr>rs_reason := s\<rparr>) (str_field oc ''reason'' data)
      else if key = str ''headers'' then set_to (\<lambda>hs. d\<lparr>rs_headers := hs\<rparr>) (headers_field oc data (rs_headers d))
      else if key = str ''content-type'' then set_to (\<lambda>c. d\<lparr>rs_content_type := c\<rparr>) (content_type_field oc data)
      else if key = str ''body'' then set_to (\<lambda>s. d\<lparr>rs_body := s\<rparr>) (bytes_field oc ''body'' data)
      else Some (Inr d))"

definition response_data_parse :: "bool \<Rightarrow> iter \<Rightarrow> pkt_header list \<Rightarrow> response_data packet" where
  "response_data_parse oc root scratch =
     for_items (map_next oc) (response_field oc) root (response_data_new\<lparr>rs_headers := scratch\<rparr>)"

definition condition_field :: "bool \<Rightarrow> map_item \<Rightarrow> bytes \<Rightarrow> bytes packet" where
  "condition_field oc e condition =
     (if mi_key e = str ''condition'' then str_field oc ''condition'' (mi_data e) else Some (Inr condition))"

definition request_error_parse :: "bool \<Rightarrow> iter \<Rightarrow> bytes packet" where
  "request_error_parse oc root = for_items (map_next oc) (condition_field oc) root []"

text \<open>The local variables of \<open>ResponseErrorData::parse\<close>: the condition, and what becomes the rejection.\<close>

definition response_error_field :: "bool \<Rightarrow> map_item \<Rightarrow> bytes \<times> rejected_info \<Rightarrow> (bytes \<times> rejected_info) packet" where
  "response_error_field oc e = (\<lambda>(condition, ri).
     let key = mi_key e; data = mi_data e in
     if key = str ''condition'' then set_to (\<lambda>s. (s, ri)) (str_field oc ''condition'' data)
     else if key = str ''code'' then set_to (\<lambda>x. (condition, ri\<lparr>ri_code := word_of_int x\<rparr>)) (int_field oc ''code'' data)
     else if key = str ''reason'' then set_to (\<lambda>s. (condition, ri\<lparr>ri_reason := s\<rparr>)) (str_field oc ''reason'' data)
     else if key = str ''headers'' then set_to (\<lambda>hs. (condition, ri\<lparr>ri_headers := hs\<rparr>)) (headers_field oc data (ri_headers ri))
     else if key = str ''body'' then set_to (\<lambda>s. (condition, ri\<lparr>ri_body := s\<rparr>)) (bytes_field oc ''body'' data)
     else Some (Inr (condition, ri)))"

definition response_error_parse :: "bool \<Rightarrow> iter \<Rightarrow> pkt_header list \<Rightarrow> response_error_data packet" where
  "response_error_parse oc root scratch =
     set_to (\<lambda>(condition, ri). \<lparr>re_condition = condition,
         re_rejected_info = (if condition = str ''rejected'' then Some ri else None)\<rparr>)
       (for_items (map_next oc) (response_error_field oc) root
          ([], \<lparr>ri_code = 0, ri_reason = [], ri_headers = scratch, ri_body = []\<rparr>))"

definition credit_field :: "bool \<Rightarrow> map_item \<Rightarrow> u32 \<Rightarrow> u32 packet" where
  "credit_field oc e credits =
     (if mi_key e = str ''credits'' then set_to word_of_int (int_field oc ''credits'' (mi_data e)) else Some (Inr credits))"

definition credit_parse :: "bool \<Rightarrow> iter \<Rightarrow> u32 packet" where
  "credit_parse oc root = for_items (map_next oc) (credit_field oc) root 0"

text \<open>A close reason that is not UTF-8 is reported under the name \<open>condition\<close>.\<close>

definition close_field :: "bool \<Rightarrow> map_item \<Rightarrow> u16 option \<times> bytes \<Rightarrow> (u16 option \<times> bytes) packet" where
  "close_field oc e = (\<lambda>(code, reason).
     if mi_key e = str ''code'' then set_to (\<lambda>x. (Some (word_of_int x), reason)) (int_field oc ''code'' (mi_data e))
     else if mi_key e = str ''body'' then
       set_to (\<lambda>s. (code, s)) (pk_bind (bytes_field oc ''body'' (mi_data e)) (utf8_field ''condition''))
     else Some (Inr (code, reason)))"

definition close_parse :: "bool \<Rightarrow> iter \<Rightarrow> (u16 \<times> bytes) option packet" where
  "close_parse oc root =
     set_to (\<lambda>(code, reason). case code of Some c \<Rightarrow> Some (c, reason) | None \<Rightarrow> None)
       (for_items (map_next oc) (close_field oc) root (None, []))"

definition ping_field :: "bool \<Rightarrow> map_item \<Rightarrow> ping_data \<Rightarrow> ping_data packet" where
  "ping_field oc e d =
     (if mi_key e = str ''credits'' then set_to (\<lambda>x. d\<lparr>pg_credits := word_of_int x\<rparr>) (int_field oc ''credits'' (mi_data e))
      else if mi_key e = str ''body'' then set_to (\<lambda>s. d\<lparr>pg_body := s\<rparr>) (bytes_field oc ''body'' (mi_data e))
      else Some (Inr d))"

definition parse_ping_or_pong :: "bool \<Rightarrow> iter \<Rightarrow> ping_data packet" where
  "parse_ping_or_pong oc root = for_items (map_next oc) (ping_field oc) root \<lparr>pg_credits = 0, pg_body = []\<rparr>"

section \<open>Whole packets\<close>

definition parse_root :: "bool \<Rightarrow> bytes \<Rightarrow> iter packet" where
  "parse_root oc src =
     (if src = [] \<or> hd src \<noteq> 84 then Some (Inl Unrecognized) else field_of ''root'' (parse_map oc (tl src)))"

definition ids_member :: "bool \<Rightarrow> map_item \<Rightarrow> bytes \<Rightarrow> bytes packet" where
  "ids_member oc m i = (if mi_key m = str ''id'' then bytes_field oc ''id'' (mi_data m) else Some (Inr i))"

definition ids_item :: "bool \<Rightarrow> seq_item \<Rightarrow> pkt_id list \<Rightarrow> pkt_id list packet" where
  "ids_item oc e ids =
     (if length ids = IDS_MAX then Some (Inl TooManyIds)
      else pk_bind (tnet_result (parse_map oc (si_data e))) (\<lambda>it.
        pk_bind (for_items (map_next oc) (ids_member oc) it []) (\<lambda>i. do {
          ids \<leftarrow> scratch_push IDS_MAX ids \<lparr>id_id = i, id_seq = None\<rparr>;
          Some (Inr ids)
        })))"

definition ids_field :: "bool \<Rightarrow> map_item \<Rightarrow> bytes \<times> pkt_id list \<Rightarrow> (bytes \<times> pkt_id list) packet" where
  "ids_field oc e = (\<lambda>(from, ids).
     if mi_key e = str ''from'' then set_to (\<lambda>s. (s, ids)) (bytes_field oc ''from'' (mi_data e))
     else if mi_key e = str ''id'' then
       (case mi_type e of
          FArray \<Rightarrow> pk_bind (tnet_result (parse_array oc (mi_data e))) (\<lambda>it.
            set_to (\<lambda>ids. (from, ids)) (for_items (seq_next oc) (ids_item oc) it ids))
        | FString \<Rightarrow> pk_bind (tnet_result (parse_string oc (mi_data e))) (\<lambda>s. do {
            ids \<leftarrow> scratch_push IDS_MAX ids \<lparr>id_id = s, id_seq = None\<rparr>;
            Some (Inr (from, ids))
          })
        | _ \<Rightarrow> Some (Inl (NotMapOrString ''id'')))
     else Some (Inr (from, ids)))"

definition parse_ids :: "bool \<Rightarrow> bytes \<Rightarrow> pkt_id list \<Rightarrow> (bytes \<times> pkt_id list) packet" where
  "parse_ids oc src scratch =
     pk_bind (parse_root oc src) (\<lambda>root. for_items (map_next oc) (ids_field oc) root ([], scratch))"

definition request_body_parse :: "bool \<Rightarrow> bytes \<Rightarrow> iter \<Rightarrow> pkt_header list \<Rightarrow> request_packet packet" where
  "request_body_parse oc ptype_str root scratch =
     (if ptype_str = [] then set_to RqData (request_data_parse oc root scratch)
      else if ptype_str = str ''error'' then set_to RqError (request_error_parse oc root)
      else if ptype_str = str ''credit'' then set_to RqCredit (credit_parse oc root)
      else if ptype_str = str ''keep-alive'' then Some (Inr RqKeepAlive)
      else if ptype_str = str ''cancel'' then Some (Inr RqCancel)
      else if ptype_str = str ''handoff-start'' then Some (Inr RqHandoffStart)
      else if ptype_str = str ''handoff-proceed'' then Some (Inr RqHandoffProceed)
      else if ptype_str = str ''close'' then set_to RqClose (close_parse oc root)
      else if ptype_str = str ''ping'' then set_to RqPing (parse_ping_or_pong oc root)
      else if ptype_str = str ''pong'' then set_to RqPong (parse_ping_or_pong oc root)
      else Some (Inr RqUnknown))"

definition response_body_parse :: "bool \<Rightarrow> bytes \<Rightarrow> iter \<Rightarrow> pkt_header list \<Rightarrow> response_packet packet" where
  "response_body_parse oc ptype_str root scratch =
     (if ptype_str = [] then set_to RsData (response_data_parse oc root scratch)
      else if ptype_str = str ''error'' then set_to RsError (response_error_parse oc root scratch)
      else if ptype_str = str ''credit'' then set_to RsCredit (credit_parse oc root)
      else if ptype_str = str ''keep-alive'' then Some (Inr RsKeepAlive)
      else if ptype_str = str ''cancel'' then Some (Inr RsCancel)
      else if ptype_str = str ''handoff-start'' then Some (Inr RsHandoffStart)
      else if ptype_str = str ''handoff-proceed'' then Some (Inr RsHandoffProceed)
      else if ptype_str = str ''close'' then set_to RsClose (close_parse oc root)
      else if ptype_str = str ''ping'' then set_to RsPing (parse_ping_or_pong oc root)
      else if ptype_str = str ''pong'' then set_to RsPong (parse_ping_or_pong oc root)
      else Some (Inr RsUnknown))"

text \<open>
  \<open>PacketParse::parse\<close> for requests and for responses: the common fields, and then the same map again for
  the fields of the packet type. The arguments \<open>ids\<close> and \<open>headers\<close> are the contents of the scratch vectors.
\<close>

definition packet_parse ::
  "(bool \<Rightarrow> bytes \<Rightarrow> iter \<Rightarrow> pkt_header list \<Rightarrow> 'p packet) \<Rightarrow> bool \<Rightarrow> bytes \<Rightarrow> pkt_id list \<Rightarrow> pkt_header list \<Rightarrow> 'p zpacket packet" where
  "packet_parse body oc src ids headers =
     pk_bind (parse_root oc src) (\<lambda>root.
       pk_bind (common_parse oc root ids) (\<lambda>c.
         set_to (\<lambda>ptype. \<lparr>zp_from = cd_from c, zp_ids = cd_ids c, zp_multi = cd_multi c, zp_ptype = ptype,
             zp_ptype_str = cd_ptype_str c\<rparr>)
           (body oc (cd_ptype_str c) root headers)))"

definition request_parse :: "bool \<Rightarrow> bytes \<Rightarrow> pkt_id list \<Rightarrow> pkt_header list \<Rightarrow> request packet" where
  "request_parse = packet_parse request_body_parse"

definition response_parse :: "bool \<Rightarrow> bytes \<Rightarrow> pkt_id list \<Rightarrow> pkt_header list \<Rightarrow> response packet" where
  "response_parse = packet_parse response_body_parse"

text \<open>\<open>OwnedPacket::parse\<close>: the message from an offset, which must lie within it.\<close>

definition owned_parse ::
  "(bool \<Rightarrow> bytes \<Rightarrow> pkt_id list \<Rightarrow> pkt_header list \<Rightarrow> 'p zpacket packet) \<Rightarrow>
   bool \<Rightarrow> bytes \<Rightarrow> nat \<Rightarrow> pkt_id list \<Rightarrow> pkt_header list \<Rightarrow> 'p zpacket packet" where
  "owned_parse parse oc src offset ids headers = do {
     src_ref \<leftarrow> subslice src offset (length src);
     parse oc src_ref ids headers
   }"

end
