(* ===== verification/ZhttpRoundtrip.thy ===== *)
theory ZhttpRoundtrip
  imports ZhttpPacket
begin

text \<open>
  What parsing gives back for a serialized packet. A packet denotes a tnetstring map (\<open>request_tnet\<close>,
  \<open>response_tnet\<close>); the serializers make the writer produce its encoding, and on an encoding the loops of
  the parsers are folds over the entries of the map.
\<close>

declare str_simps [simp del]

section \<open>Loops over encoded maps and arrays\<close>

lemma chr_eq [simp]: "chr a = chr b \<longleftrightarrow> a = b"
proof
  assume "chr a = chr b"
  then have "unat (of_nat (of_char a) :: u8) = unat (of_nat (of_char b) :: u8)" by (simp add: chr_def of_nat_of_char)
  then have "(of_char a :: nat) = of_char b" unfolding unat_of_nat by simp
  then show "a = b" by simp
qed simp

lemma str_eq [simp]: "str a = str b \<longleftrightarrow> a = b" "str a = [] \<longleftrightarrow> a = []" "[] = str a \<longleftrightarrow> a = []"
proof -
  have "inj chr" by (intro injI) simp
  then show "str a = str b \<longleftrightarrow> a = b" by (simp add: str_def inj_map_eq_map)
qed (auto simp: str_def)

lemma pk_bind_simps [simp]:
  "pk_bind None f = None"
  "pk_bind (Some (Inl e)) f = Some (Inl e)"
  "pk_bind (Some (Inr x)) f = f x"
  by (simp_all add: pk_bind_def)

lemma set_to_simps [simp]:
  "set_to u None = None"
  "set_to u (Some (Inl e)) = Some (Inl e)"
  "set_to u (Some (Inr x)) = Some (Inr (u x))"
  by (simp_all add: set_to_def)

lemma field_of_Inr [simp]: "field_of f (Some (Inr x)) = Some (Inr x)" "tnet_result (Some (Inr x)) = Some (Inr x)"
  by (simp_all add: field_of_def tnet_result_def)

fun fold_packet :: "('i \<Rightarrow> 's \<Rightarrow> 's packet) \<Rightarrow> 'i list \<Rightarrow> 's \<Rightarrow> 's packet" where
  "fold_packet body [] s = Some (Inr s)"
| "fold_packet body (i # is) s = pk_bind (body i s) (fold_packet body is)"

lemma fold_packet_append: "fold_packet body (xs @ ys) s = pk_bind (fold_packet body xs s) (fold_packet body ys)"
proof (induction xs arbitrary: s)
  case (Cons x xs)
  then show ?case by (cases "body x s") (auto simp: pk_bind_def split: sum.split)
qed simp

lemma fold_packet_skip: "(\<And>i s. i \<in> set is \<Longrightarrow> body i s = Some (Inr s)) \<Longrightarrow> fold_packet body is s = Some (Inr s)"
  by (induction "is") auto

lemma for_items_step:
  "nx it = Some (Some (Inr i), it') \<Longrightarrow> for_items nx body it s = pk_bind (body i s) (for_items nx body it')"
  by (subst for_items.simps) (auto simp: pk_bind_def split: option.split sum.split)

lemma for_items_end: "nx it = Some (None, it') \<Longrightarrow> for_items nx body it s = Some (Inr s)"
  by (subst for_items.simps) simp

definition encoded_item :: "('f \<Rightarrow> bytes) \<Rightarrow> bytes \<times> 'f tnet \<Rightarrow> map_item" where
  "encoded_item fmt = (\<lambda>(k, v). \<lparr>mi_key = k, mi_type = tnet_type v, mi_data = tnet_encode fmt v\<rparr>)"

definition encoded_elem :: "('f \<Rightarrow> bytes) \<Rightarrow> 'f tnet \<Rightarrow> seq_item" where
  "encoded_elem fmt v = \<lparr>si_type = tnet_type v, si_data = tnet_encode fmt v\<rparr>"

lemma for_map_from:
  assumes "length (pre @ concat (map (\<lambda>(k, v). frame_bytes k FString @ tnet_encode fmt v) kvs)) < 2 ^ 63"
    and "\<forall>(k, v) \<in> set kvs. utf8_valid k"
  shows "for_items (map_next oc) body
      \<lparr>it_src = pre @ concat (map (\<lambda>(k, v). frame_bytes k FString @ tnet_encode fmt v) kvs), it_pos = length pre\<rparr> s
    = fold_packet body (map (encoded_item fmt) kvs) s"
  using assms
proof (induction kvs arbitrary: pre s)
  case Nil
  then show ?case by (simp add: for_items_end map_next_def)
next
  case (Cons x kvs)
  obtain k v where x: "x = (k, v)" by force
  let ?post = "concat (map (\<lambda>(k, v). frame_bytes k FString @ tnet_encode fmt v) kvs)"
  let ?pre = "pre @ frame_bytes k FString @ tnet_encode fmt v"
  have IH: "for_items (map_next oc) body \<lparr>it_src = ?pre @ ?post, it_pos = length ?pre\<rparr>
      = fold_packet body (map (encoded_item fmt) kvs)"
    using Cons.IH [of ?pre] Cons.prems x by fastforce
  moreover have "map_next oc \<lparr>it_src = ?pre @ ?post, it_pos = length pre\<rparr> =
      Some (Some (Inr (encoded_item fmt x)), \<lparr>it_src = ?pre @ ?post, it_pos = length ?pre\<rparr>)"
    using map_next_frame [of pre k "payload fmt v" "tnet_type v" ?post oc, folded tnet_encode_def] Cons.prems x
    by (simp add: encoded_item_def)
  ultimately show ?case using x by (simp add: for_items_step [where i = "encoded_item fmt x"])
qed

lemma for_seq_from:
  assumes "length (pre @ concat (map (tnet_encode fmt) vs)) < 2 ^ 63"
  shows "for_items (seq_next oc) body \<lparr>it_src = pre @ concat (map (tnet_encode fmt) vs), it_pos = length pre\<rparr> s
    = fold_packet body (map (encoded_elem fmt) vs) s"
  using assms
proof (induction vs arbitrary: pre s)
  case Nil
  then show ?case by (simp add: for_items_end seq_next_def)
next
  case (Cons v vs)
  let ?post = "concat (map (tnet_encode fmt) vs)" and ?pre = "pre @ tnet_encode fmt v"
  have IH: "for_items (seq_next oc) body \<lparr>it_src = ?pre @ ?post, it_pos = length ?pre\<rparr>
      = fold_packet body (map (encoded_elem fmt) vs)"
    using Cons.IH [of ?pre] Cons.prems by fastforce
  moreover have "seq_next oc \<lparr>it_src = ?pre @ ?post, it_pos = length pre\<rparr> =
      Some (Some (Inr (encoded_elem fmt v)), \<lparr>it_src = ?pre @ ?post, it_pos = length ?pre\<rparr>)"
    using seq_next_frame [of pre "payload fmt v" "tnet_type v" ?post oc, folded tnet_encode_def] Cons.prems
    by (simp add: encoded_elem_def)
  ultimately show ?case by (simp add: for_items_step [where i = "encoded_elem fmt v"])
qed

text \<open>Encodings that a slice can hold, and all parts of which it then holds as well.\<close>

definition fits :: "('f \<Rightarrow> bytes) \<Rightarrow> 'f tnet \<Rightarrow> bool" where
  "fits fmt v \<longleftrightarrow> length (tnet_encode fmt v) < 2 ^ 63"

lemma payload_fits: "fits fmt v \<Longrightarrow> length (payload fmt v) < 2 ^ 63"
  using length_data_frame [of "payload fmt v" "tnet_type v"] by (simp add: fits_def tnet_encode_def)

lemma payload_map: "payload fmt (TMap kvs) = concat (map (\<lambda>(k, v). frame_bytes k FString @ tnet_encode fmt v) kvs)"
  by (simp add: tnet_encode_def)

lemma payload_array: "payload fmt (TArray vs) = concat (map (tnet_encode fmt) vs)"
  by (induction vs) (simp_all add: tnet_encode_def)

lemma length_concat_ge: "x \<in> set xs \<Longrightarrow> length (f x) \<le> length (concat (map f xs))"
  by (induction xs) auto

lemma fits_map: "fits fmt (TMap kvs) \<Longrightarrow> (k, v) \<in> set kvs \<Longrightarrow> fits fmt v"
  using payload_fits [of fmt "TMap kvs"] length_concat_ge [of "(k, v)" kvs "\<lambda>(k, v). frame_bytes k FString @ tnet_encode fmt v"]
  unfolding payload_map by (auto simp: fits_def)

lemma fits_array: "fits fmt (TArray vs) \<Longrightarrow> v \<in> set vs \<Longrightarrow> fits fmt v"
  using payload_fits [of fmt "TArray vs"] length_concat_ge [of v vs "tnet_encode fmt"]
  unfolding payload_array by (auto simp: fits_def)

lemma parse_frame_encode:
  "fits fmt v \<Longrightarrow> parse_frame oc (tnet_encode fmt v) = Some (Inr (\<lparr>fr_type = tnet_type v, fr_data = payload fmt v\<rparr>, length (tnet_encode fmt v)))"
  using parse_frame_bytes [of "payload fmt v" "tnet_type v" "[]" oc] by (simp add: tnet_encode_def fits_def)

lemma parse_encoded:
  "fits fmt (TMap kvs) \<Longrightarrow> parse_map oc (tnet_encode fmt (TMap kvs)) = Some (Inr (iter_new (payload fmt (TMap kvs))))"
  "fits fmt (TArray vs) \<Longrightarrow> parse_array oc (tnet_encode fmt (TArray vs)) = Some (Inr (iter_new (payload fmt (TArray vs))))"
  "fits fmt (TString s) \<Longrightarrow> parse_string oc (tnet_encode fmt (TString s)) = Some (Inr s)"
  "fits fmt (TBool b) \<Longrightarrow> parse_bool oc (tnet_encode fmt (TBool b)) = Some (Inr b)"
  "fits fmt (TInt x) \<Longrightarrow> isize_min \<le> x \<Longrightarrow> x \<le> isize_max \<Longrightarrow> parse_int oc (tnet_encode fmt (TInt x)) = Some (Inr x)"
  by (simp_all add: parse_map_def parse_array_def parse_string_def parse_bool_def parse_int_def and_then_def
      parse_frame_encode parse_isize_dec bool_bytes_def del: payload.simps(6,7))

lemma for_encoded_map:
  "fits fmt (TMap kvs) \<Longrightarrow> \<forall>(k, v) \<in> set kvs. utf8_valid k \<Longrightarrow>
    for_items (map_next oc) body (iter_new (payload fmt (TMap kvs))) s = fold_packet body (map (encoded_item fmt) kvs) s"
  using for_map_from [of "[]" fmt kvs oc body s] payload_fits [of fmt "TMap kvs"] unfolding payload_map by (simp add: iter_new_def)

lemma for_encoded_array:
  "fits fmt (TArray vs) \<Longrightarrow>
    for_items (seq_next oc) body (iter_new (payload fmt (TArray vs))) s = fold_packet body (map (encoded_elem fmt) vs) s"
  using for_seq_from [of "[]" fmt vs oc body s] payload_fits [of fmt "TArray vs"] unfolding payload_array by (simp add: iter_new_def)

lemma fields_encoded:
  fixes x32 :: u32 and x16 :: u16
  shows "fits fmt (TString s) \<Longrightarrow> bytes_field oc f (tnet_encode fmt (TString s)) = Some (Inr s)"
  "fits fmt (TString s) \<Longrightarrow> utf8_valid s \<Longrightarrow> str_field oc f (tnet_encode fmt (TString s)) = Some (Inr s)"
  "fits fmt (TBool b) \<Longrightarrow> bool_field oc f (tnet_encode fmt (TBool b)) = Some (Inr b)"
  "fits fmt (TInt (uint x32)) \<Longrightarrow> int_field oc f (tnet_encode fmt (TInt (uint x32))) = Some (Inr (uint x32))"
  "fits fmt (TInt (uint x16)) \<Longrightarrow> int_field oc f (tnet_encode fmt (TInt (uint x16))) = Some (Inr (uint x16))"
proof -
  have "uint x32 \<le> isize_max" "uint x16 \<le> isize_max"
    using uint_lt2p [of x32] uint_lt2p [of x16] by (simp_all add: isize_max_def)
  moreover have "isize_min \<le> uint x32" "isize_min \<le> uint x16"
    by (rule order_trans [OF _ uint_ge_0], simp add: isize_min_def)+
  ultimately show "fits fmt (TInt (uint x32)) \<Longrightarrow> int_field oc f (tnet_encode fmt (TInt (uint x32))) = Some (Inr (uint x32))"
    "fits fmt (TInt (uint x16)) \<Longrightarrow> int_field oc f (tnet_encode fmt (TInt (uint x16))) = Some (Inr (uint x16))"
    by (simp_all add: int_field_def parse_encoded not_less)
qed (simp_all add: bytes_field_def str_field_def bool_field_def utf8_field_def parse_encoded)

section \<open>What the serializers write\<close>

definition writes :: "('f tnet_writer \<Rightarrow> (io_error + unit) \<times> 'f tnet_writer) \<Rightarrow> 'f op list \<Rightarrow> bool" where
  "writes a ops \<longleftrightarrow> (\<forall>w. a w = tn_calls w ops)"

lemma tn_calls_append: "tn_calls w (ps @ qs) = (case tn_calls w ps of (Inl e, w) \<Rightarrow> (Inl e, w) | (Inr _, w) \<Rightarrow> tn_calls w qs)"
  by (induction w ps rule: tn_calls.induct) (auto split: prod.split sum.split)

lemma writes_calls [intro]:
  "writes (w_str s) [OpString s]" "writes (w_int x) [OpInt x]" "writes (w_bool b) [OpBool b]"
  "writes start_map [OpStartMap]" "writes end_map [OpEndMap]" "writes start_array [OpStartArray]" "writes end_array [OpEndArray]"
  by (auto simp: writes_def w_str_def w_int_def w_bool_def split: prod.split sum.split)

lemma writes_all [intro]:
  "writes (w_all []) []"
  "writes a p \<Longrightarrow> writes (w_all as) ps \<Longrightarrow> writes (w_all (a # as)) (p @ ps)"
  by (auto simp: writes_def tn_calls_append split: prod.split sum.split)

lemma writes_map: "(\<And>x. x \<in> set xs \<Longrightarrow> writes (f x) (g x)) \<Longrightarrow> writes (w_all (map f xs)) (concat (map g xs))"
  by (induction xs) auto

lemma writes_if: "writes (w_all as) ps \<Longrightarrow> writes (w_if c as) (if c then ps else [])"
  by (auto simp: w_if_def)

text \<open>The entries of a map as operations.\<close>

definition entry_ops :: "(bytes \<times> 'f tnet) list \<Rightarrow> 'f op list" where
  "entry_ops kvs = concat (map (\<lambda>(k, v). OpString k # ops_of v) kvs)"

definition entry_if :: "bool \<Rightarrow> string \<Rightarrow> 'f tnet \<Rightarrow> (bytes \<times> 'f tnet) list" where
  "entry_if c k v = (if c then [(str k, v)] else [])"

lemma entry_ops_simps [simp]:
  "entry_ops [] = []" "entry_ops ((k, v) # kvs) = OpString k # ops_of v @ entry_ops kvs"
  "entry_ops (xs @ ys) = entry_ops xs @ entry_ops ys"
  "entry_ops (entry_if c f v) = (if c then OpString (str f) # ops_of v else [])"
  by (simp_all add: entry_ops_def entry_if_def)

lemma writes_entry: "writes a (ops_of v) \<Longrightarrow> writes (w_if c [w_str (str k), a]) (entry_ops (entry_if c k v))"
  using writes_if [OF writes_all(2) [OF writes_calls(1) writes_all(2) [OF _ writes_all(1)]], of a "ops_of v" c "str k"]
  by (cases c) simp_all

lemma writes_scalar:
  "writes (w_str s) (ops_of (TString s))" "writes (w_int x) (ops_of (TInt x))" "writes (w_bool b) (ops_of (TBool b))"
  using writes_calls by simp_all

text \<open>The values of the fields.\<close>

definition seq_entry :: "u32 option \<Rightarrow> (bytes \<times> 'f tnet) list" where
  "seq_entry q = (case q of None \<Rightarrow> [] | Some seq \<Rightarrow> [(str ''seq'', TInt (uint seq))])"

definition id_tnet :: "pkt_id \<Rightarrow> 'f tnet" where
  "id_tnet i = TMap ((str ''id'', TString (id_id i)) # seq_entry (id_seq i))"

definition common_entries :: "common_data \<Rightarrow> (bytes \<times> 'f tnet) list" where
  "common_entries d = entry_if (cd_from d \<noteq> []) ''from'' (TString (cd_from d))
     @ (if length (cd_ids d) = 1 then (str ''id'', TString (id_id (cd_ids d ! 0))) # seq_entry (id_seq (cd_ids d ! 0))
        else entry_if (length (cd_ids d) > 1) ''id'' (TArray (map id_tnet (cd_ids d))))
     @ entry_if (cd_multi d) ''ext'' (TMap [(str ''multi'', TBool True)])
     @ entry_if (cd_ptype_str d \<noteq> []) ''type'' (TString (cd_ptype_str d))"

definition header_tnet :: "pkt_header \<Rightarrow> 'f tnet" where
  "header_tnet h = TArray [TString (ph_name h), TString (ph_value h)]"

definition headers_entry :: "pkt_header list \<Rightarrow> (bytes \<times> 'f tnet) list" where
  "headers_entry hs = entry_if (hs \<noteq> []) ''headers'' (TArray (map header_tnet hs))"

definition content_type_entry :: "content_type option \<Rightarrow> (bytes \<times> 'f tnet) list" where
  "content_type_entry ct = (case ct of None \<Rightarrow> [] | Some c \<Rightarrow> [(str ''content-type'', TString (content_type_bytes c))])"

lemma writes_seq: "writes (seq_serialize q) (entry_ops (seq_entry q))"
proof (cases q)
  case (Some x)
  have "writes (w_all [w_str (str ''seq''), w_int (uint x)]) ([OpString (str ''seq'')] @ [OpInt (uint x)] @ [])" by blast
  then show ?thesis using Some by (simp add: seq_serialize_def seq_entry_def)
qed (auto simp: seq_serialize_def seq_entry_def)

lemma writes_id: "writes (id_serialize i) (ops_of (id_tnet i))"
proof -
  have "writes (id_serialize i) ([OpStartMap] @ [OpString (str ''id'')] @ [OpString (id_id i)] @ entry_ops (seq_entry (id_seq i)) @ [OpEndMap] @ [])"
    unfolding id_serialize_def by (intro writes_all writes_calls writes_seq)
  then show ?thesis by (simp add: id_tnet_def entry_ops_def)
qed

lemma writes_array:
  assumes "\<And>x. writes (f x) (ops_of (g x))"
  shows "writes (w_if c [w_str (str k), start_array, w_all (map f xs), end_array]) (entry_ops (entry_if c k (TArray (map g xs))))"
proof -
  have "writes (w_all [w_str (str k), start_array, w_all (map f xs), end_array])
      ([OpString (str k)] @ [OpStartArray] @ concat (map (\<lambda>x. ops_of (g x)) xs) @ [OpEndArray] @ [])"
    by (intro writes_all writes_calls writes_map assms)
  then have "writes (w_if c [w_str (str k), start_array, w_all (map f xs), end_array])
      (if c then [OpString (str k)] @ [OpStartArray] @ concat (map (\<lambda>x. ops_of (g x)) xs) @ [OpEndArray] @ [] else [])"
    by (rule writes_if)
  then show ?thesis by (cases c) (simp_all add: comp_def)
qed

lemma writes_header: "writes (header_serialize h) (ops_of (header_tnet h))"
proof -
  have "writes (header_serialize h) ([OpStartArray] @ [OpString (ph_name h)] @ [OpString (ph_value h)] @ [OpEndArray] @ [])"
    unfolding header_serialize_def by (intro writes_all writes_calls)
  then show ?thesis by (simp add: header_tnet_def)
qed

lemma writes_headers: "writes (headers_serialize hs) (entry_ops (headers_entry hs))"
  unfolding headers_serialize_def headers_entry_def by (intro writes_array writes_header)

lemma writes_content_type: "writes (content_type_serialize ct) (entry_ops (content_type_entry ct))"
proof (cases ct)
  case (Some c)
  have "writes (w_all [w_str (str ''content-type''), w_str (content_type_bytes c)])
      ([OpString (str ''content-type'')] @ [OpString (content_type_bytes c)] @ [])" by blast
  then show ?thesis using Some by (simp add: content_type_serialize_def content_type_entry_def)
qed (auto simp: content_type_serialize_def content_type_entry_def)

lemma writes_common: "writes (common_serialize d) (entry_ops (common_entries d))"
proof -
  let ?one = "w_all [w_str (str ''id''), w_str (id_id (cd_ids d ! 0)), seq_serialize (id_seq (cd_ids d ! 0))]"
  let ?many = "w_all [w_str (str ''id''), start_array, w_all (map id_serialize (cd_ids d)), end_array]"
  have one: "writes ?one (entry_ops ((str ''id'', TString (id_id (cd_ids d ! 0))) # seq_entry (id_seq (cd_ids d ! 0))))"
    using writes_all(2) [OF writes_calls(1) writes_all(2) [OF writes_calls(1) writes_all(2) [OF writes_seq writes_all(1)]]] by simp
  have many: "writes (if 1 < length (cd_ids d) then ?many else w_all [])
      (entry_ops (entry_if (length (cd_ids d) > 1) ''id'' (TArray (map id_tnet (cd_ids d)))))"
    using writes_array [OF writes_id] unfolding w_if_def .
  have ids: "writes (if length (cd_ids d) = 1 then ?one else if 1 < length (cd_ids d) then ?many else w_all [])
      (entry_ops (if length (cd_ids d) = 1 then (str ''id'', TString (id_id (cd_ids d ! 0))) # seq_entry (id_seq (cd_ids d ! 0))
        else entry_if (length (cd_ids d) > 1) ''id'' (TArray (map id_tnet (cd_ids d)))))"
    using one many by (cases "length (cd_ids d) = 1") (simp_all only: if_True if_False simp_thms)
  have "writes (w_all [w_str (str ''ext''), start_map, w_str (str ''multi''), w_bool True, end_map])
      ([OpString (str ''ext'')] @ [OpStartMap] @ [OpString (str ''multi'')] @ [OpBool True] @ [OpEndMap] @ [])"
    by (intro writes_all writes_calls)
  from writes_if [OF this, of "cd_multi d"] have ext: "writes (w_if (cd_multi d) [w_str (str ''ext''), start_map, w_str (str ''multi''), w_bool True, end_map])
      (entry_ops (entry_if (cd_multi d) ''ext'' (TMap [(str ''multi'', TBool True)])))"
    by (cases "cd_multi d") simp_all
  have "writes (common_serialize d)
     (entry_ops (entry_if (cd_from d \<noteq> []) ''from'' (TString (cd_from d)))
     @ entry_ops (if length (cd_ids d) = 1 then (str ''id'', TString (id_id (cd_ids d ! 0))) # seq_entry (id_seq (cd_ids d ! 0))
        else entry_if (length (cd_ids d) > 1) ''id'' (TArray (map id_tnet (cd_ids d))))
     @ entry_ops (entry_if (cd_multi d) ''ext'' (TMap [(str ''multi'', TBool True)]))
     @ entry_ops (entry_if (cd_ptype_str d \<noteq> []) ''type'' (TString (cd_ptype_str d))) @ [])"
    unfolding common_serialize_def by (intro writes_all writes_entry writes_scalar ids ext)
  then show ?thesis by (simp only: common_entries_def entry_ops_simps append_Nil2)
qed

definition request_data_entries :: "request_data \<Rightarrow> (bytes \<times> 'f tnet) list" where
  "request_data_entries d = entry_if (rq_method d \<noteq> []) ''method'' (TString (rq_method d))
     @ entry_if (rq_uri d \<noteq> []) ''uri'' (TString (rq_uri d))
     @ headers_entry (rq_headers d)
     @ content_type_entry (rq_content_type d)
     @ entry_if (rq_body d \<noteq> []) ''body'' (TString (rq_body d))
     @ entry_if (rq_credits d > 0) ''credits'' (TInt (uint (rq_credits d)))
     @ entry_if (rq_more d) ''more'' (TBool True)
     @ entry_if (rq_stream d) ''stream'' (TBool True)
     @ entry_if (rq_router_resp d) ''router-resp'' (TBool True)
     @ entry_if (rq_max_size d > 0) ''max-size'' (TInt (uint (rq_max_size d)))
     @ entry_if (rq_timeout d > 0) ''timeout'' (TInt (uint (rq_timeout d)))
     @ entry_if (rq_peer_address d \<noteq> []) ''peer-address'' (TString (rq_peer_address d))
     @ entry_if (rq_peer_address d \<noteq> []) ''peer-port'' (TInt (uint (rq_peer_port d)))"

definition response_data_entries :: "response_data \<Rightarrow> (bytes \<times> 'f tnet) list" where
  "response_data_entries d = entry_if (rs_code d > 0) ''code'' (TInt (uint (rs_code d)))
     @ entry_if (rs_reason d \<noteq> []) ''reason'' (TString (rs_reason d))
     @ headers_entry (rs_headers d)
     @ content_type_entry (rs_content_type d)
     @ entry_if (rs_body d \<noteq> []) ''body'' (TString (rs_body d))
     @ entry_if (rs_credits d > 0) ''credits'' (TInt (uint (rs_credits d)))
     @ entry_if (rs_more d) ''more'' (TBool True)"

definition response_error_entries :: "response_error_data \<Rightarrow> (bytes \<times> 'f tnet) list" where
  "response_error_entries d = (str ''condition'', TString (re_condition d)) #
     (case re_rejected_info d of None \<Rightarrow> [] | Some ri \<Rightarrow>
        [(str ''code'', TInt (uint (ri_code ri))), (str ''reason'', TString (ri_reason ri))]
        @ headers_entry (ri_headers ri) @ [(str ''body'', TString (ri_body ri))])"

definition close_entries :: "(u16 \<times> bytes) option \<Rightarrow> (bytes \<times> 'f tnet) list" where
  "close_entries status = (case status of None \<Rightarrow> [] | Some (code, reason) \<Rightarrow>
     (str ''code'', TInt (uint code)) # entry_if (reason \<noteq> []) ''body'' (TString reason))"

definition ping_entries :: "ping_data \<Rightarrow> (bytes \<times> 'f tnet) list" where
  "ping_entries d = entry_if (pg_body d \<noteq> []) ''body'' (TString (pg_body d))"

fun request_entries :: "request_packet \<Rightarrow> (bytes \<times> 'f tnet) list" where
  "request_entries (RqData d) = request_data_entries d"
| "request_entries (RqError c) = [(str ''condition'', TString c)]"
| "request_entries (RqCredit n) = [(str ''credits'', TInt (uint n))]"
| "request_entries (RqClose s) = close_entries s"
| "request_entries (RqPing d) = ping_entries d"
| "request_entries (RqPong d) = ping_entries d"
| "request_entries _ = []"

fun response_entries :: "response_packet \<Rightarrow> (bytes \<times> 'f tnet) list" where
  "response_entries (RsData d) = response_data_entries d"
| "response_entries (RsError d) = response_error_entries d"
| "response_entries (RsCredit n) = [(str ''credits'', TInt (uint n))]"
| "response_entries (RsClose s) = close_entries s"
| "response_entries (RsPing d) = ping_entries d"
| "response_entries (RsPong d) = ping_entries d"
| "response_entries _ = []"

lemma writes_pair: "writes a p \<Longrightarrow> writes (w_all as) ps \<Longrightarrow> writes (w_all (w_str s # a # as)) ([OpString s] @ p @ ps)"
  by (intro writes_all writes_calls)

lemma writes_request_data: "writes (request_data_serialize d) (entry_ops (request_data_entries d))"
proof -
  have "writes (w_if (rq_peer_address d \<noteq> [])
        [w_str (str ''peer-address''), w_str (rq_peer_address d), w_str (str ''peer-port''), w_int (uint (rq_peer_port d))])
      (if rq_peer_address d \<noteq> [] then [OpString (str ''peer-address'')] @ [OpString (rq_peer_address d)]
         @ [OpString (str ''peer-port'')] @ [OpInt (uint (rq_peer_port d))] @ [] else [])"
    by (intro writes_if writes_all writes_calls)
  then have peer: "writes (w_if (rq_peer_address d \<noteq> [])
        [w_str (str ''peer-address''), w_str (rq_peer_address d), w_str (str ''peer-port''), w_int (uint (rq_peer_port d))])
      (entry_ops (entry_if (rq_peer_address d \<noteq> []) ''peer-address'' (TString (rq_peer_address d))
        @ entry_if (rq_peer_address d \<noteq> []) ''peer-port'' (TInt (uint (rq_peer_port d)))))"
    by (cases "rq_peer_address d = []") simp_all
  show ?thesis
    unfolding request_data_serialize_def request_data_entries_def
    by (rule back_subst [of "writes _"])
      ((rule writes_all(2) writes_all(1) writes_entry writes_scalar writes_headers writes_content_type peer)+, simp del: entry_ops_simps(4))
qed

lemma writes_response_data: "writes (response_data_serialize d) (entry_ops (response_data_entries d))"
  unfolding response_data_serialize_def response_data_entries_def
  by (rule back_subst [of "writes _"])
    ((rule writes_all(2) writes_all(1) writes_entry writes_scalar writes_headers writes_content_type)+, simp del: entry_ops_simps(4))

lemma writes_response_error: "writes (response_error_serialize d) (entry_ops (response_error_entries d))"
proof -
  have ri: "writes (w_all [w_str (str ''code''), w_int (uint (ri_code ri)), w_str (str ''reason''), w_str (ri_reason ri),
          headers_serialize (ri_headers ri), w_str (str ''body''), w_str (ri_body ri)])
      (entry_ops ([(str ''code'', TInt (uint (ri_code ri))), (str ''reason'', TString (ri_reason ri))]
        @ headers_entry (ri_headers ri) @ [(str ''body'', TString (ri_body ri))]))" for ri
    by (rule back_subst [of "writes _"]) ((rule writes_all(2) writes_all(1) writes_calls writes_headers)+, simp)
  have "writes (case re_rejected_info d of None \<Rightarrow> w_all [] | Some ri \<Rightarrow> w_all
           [w_str (str ''code''), w_int (uint (ri_code ri)), w_str (str ''reason''), w_str (ri_reason ri),
            headers_serialize (ri_headers ri), w_str (str ''body''), w_str (ri_body ri)])
      (entry_ops (tl (response_error_entries d)))"
    using ri by (cases "re_rejected_info d") (auto simp: response_error_entries_def simp del: w_all.simps)
  from writes_pair [OF writes_calls(1) writes_all(2) [OF this writes_all(1)]]
  have "writes (response_error_serialize d)
      ([OpString (str ''condition'')] @ [OpString (re_condition d)] @ entry_ops (tl (response_error_entries d)) @ [])"
    unfolding response_error_serialize_def .
  moreover have "response_error_entries d = (str ''condition'', TString (re_condition d)) # tl (response_error_entries d)"
    by (simp add: response_error_entries_def)
  ultimately show ?thesis by (metis append.right_neutral append_Cons append_Nil entry_ops_simps(2) ops_of.simps(5))
qed

lemma writes_close: "writes (close_serialize s) (entry_ops (close_entries s))"
proof (cases s)
  case (Some cr)
  obtain c r where cr: "cr = (c, r)" by force
  show ?thesis unfolding Some cr close_serialize_def close_entries_def option.case prod.case
    by (rule back_subst [of "writes _"]) ((rule writes_all(2) writes_all(1) writes_calls writes_entry writes_scalar)+, simp)
qed (auto simp: close_serialize_def close_entries_def)

lemma writes_ping: "writes (ping_serialize d) (entry_ops (ping_entries d))" "writes (pong_serialize d) (entry_ops (ping_entries d))"
  unfolding ping_serialize_def pong_serialize_def ping_entries_def by (rule writes_entry writes_scalar)+

lemma writes_request_body: "writes (request_body_serialize p) (entry_ops (request_entries p))"
  using writes_pair [OF writes_calls(1) writes_all(1)] writes_pair [OF writes_calls(2) writes_all(1)]
  by (cases p) (simp_all add: writes_request_data writes_close writes_ping request_error_serialize_def credit_serialize_def writes_all(1) del: w_all.simps)

lemma writes_response_body: "writes (response_body_serialize p) (entry_ops (response_entries p))"
  using writes_pair [OF writes_calls(2) writes_all(1)]
  by (cases p) (simp_all add: writes_response_data writes_response_error writes_close writes_ping credit_serialize_def writes_all(1) del: w_all.simps)

section \<open>What the parsers read from an encoded map\<close>

lemma utf8_valid_str [simp]: "\<forall>c \<in> set s. of_char c < (128 :: nat) \<Longrightarrow> utf8_valid (str s)"
proof (rule utf8_valid_ascii)
  assume a: "\<forall>c \<in> set s. of_char c < (128 :: nat)"
  have "unat (chr c) < 128" if "c \<in> set s" for c
  proof -
    have "unat (of_nat (of_char c) :: u8) < 128" using a that unfolding unat_of_nat by simp
    then show ?thesis by (simp add: chr_def of_nat_of_char)
  qed
  then show "\<forall>b \<in> set (str s). unat b < 128" by (auto simp: str_def)
qed

lemma fold_packet_map_Nil [simp]: "fold_packet body (map f []) s = Some (Inr s)"
  by simp

lemma next_encoded:
  assumes "fits fmt (TArray (us @ v # vs))"
  shows "next_or_invalid oc \<lparr>it_src = payload fmt (TArray (us @ v # vs)), it_pos = length (payload fmt (TArray us))\<rparr>
    = Some (Inr (encoded_elem fmt v, \<lparr>it_src = payload fmt (TArray (us @ v # vs)), it_pos = length (payload fmt (TArray (us @ [v])))\<rparr>))"
proof -
  have p: "payload fmt (TArray (us @ v # vs)) = payload fmt (TArray us) @ tnet_encode fmt v @ payload fmt (TArray vs)"
    "payload fmt (TArray (us @ [v])) = payload fmt (TArray us) @ tnet_encode fmt v"
    unfolding payload_array by simp_all
  show ?thesis
    using seq_next_frame [of "payload fmt (TArray us)" "payload fmt v" "tnet_type v" "payload fmt (TArray vs)" oc, folded tnet_encode_def]
      payload_fits [OF assms] unfolding p next_or_invalid_def by (simp add: encoded_elem_def del: payload.simps)
qed

lemma header_item_encoded:
  assumes fits: "fits fmt (header_tnet h)" and name: "utf8_valid (ph_name h)" and cap: "length hs < HEADERS_MAX"
  shows "header_item oc (encoded_elem fmt (header_tnet h)) hs = Some (Inr (hs @ [h]))"
proof -
  let ?n = "TString (ph_name h)" and ?v = "TString (ph_value h)"
  have f: "fits fmt (TArray ([] @ [?n, ?v]))" "fits fmt (TArray ([?n] @ [?v]))" using fits by (simp_all add: header_tnet_def)
  have "fits fmt ?n" "fits fmt ?v" using fits_array [OF f(1)] by simp_all
  moreover note next_encoded [OF f(1), of oc] next_encoded [OF f(2), of oc]
  ultimately show ?thesis
    using parse_encoded(2) [OF f(1), of oc] name cap
    by (simp add: header_item_def header_tnet_def encoded_elem_def iter_new_def fields_encoded scratch_push_def del: payload.simps)
      (simp add: payload_array fields_encoded)
qed

lemma headers_fold:
  "\<forall>h \<in> set hs. fits fmt (header_tnet h) \<and> utf8_valid (ph_name h) \<Longrightarrow> length acc + length hs \<le> HEADERS_MAX \<Longrightarrow>
    fold_packet (header_item oc) (map (encoded_elem fmt) (map header_tnet hs)) acc = Some (Inr (acc @ hs))"
  by (induction hs arbitrary: acc) (simp_all add: header_item_encoded)

definition headers_ok :: "pkt_header list \<Rightarrow> bool" where
  "headers_ok hs \<longleftrightarrow> length hs \<le> HEADERS_MAX \<and> (\<forall>h \<in> set hs. utf8_valid (ph_name h))"

lemma headers_field_encoded:
  assumes "fits fmt (TArray (map header_tnet hs))" and "headers_ok hs"
  shows "headers_field oc (tnet_encode fmt (TArray (map header_tnet hs))) [] = Some (Inr hs)"
  using headers_fold [of hs fmt "[]" oc] assms fits_array [OF assms(1)]
  by (simp add: headers_field_def parse_encoded for_encoded_array headers_ok_def del: payload.simps map_map)

lemma content_type_encoded:
  "fits fmt (TString (content_type_bytes c)) \<Longrightarrow> content_type_field oc (tnet_encode fmt (TString (content_type_bytes c))) = Some (Inr (Some c))"
  by (cases c) (simp_all add: content_type_field_def fields_encoded)

lemma encoded_item_simps [simp]:
  "mi_key (encoded_item fmt (k, v)) = k" "mi_type (encoded_item fmt (k, v)) = tnet_type v" "mi_data (encoded_item fmt (k, v)) = tnet_encode fmt v"
  by (simp_all add: encoded_item_def)

lemma fold_entry_if:
  assumes "c \<Longrightarrow> body (encoded_item fmt (str k, v)) s = Some (Inr (u s))" and "\<not> c \<Longrightarrow> u s = s"
  shows "fold_packet body (map (encoded_item fmt) (entry_if c k v)) s = Some (Inr (u s))"
  using assms by (simp add: entry_if_def)

text \<open>One field after another: the entries of a data packet rebuild it from the initial values.\<close>

definition entries_fit :: "('f \<Rightarrow> bytes) \<Rightarrow> (bytes \<times> 'f tnet) list \<Rightarrow> bool" where
  "entries_fit fmt kvs \<longleftrightarrow> (\<forall>(k, v) \<in> set kvs. fits fmt v)"

lemma entries_fit_simps [simp]:
  "entries_fit fmt []" "entries_fit fmt ((k, v) # kvs) \<longleftrightarrow> fits fmt v \<and> entries_fit fmt kvs"
  "entries_fit fmt (xs @ ys) \<longleftrightarrow> entries_fit fmt xs \<and> entries_fit fmt ys"
  "entries_fit fmt (entry_if c f v) \<longleftrightarrow> (c \<longrightarrow> fits fmt v)"
  by (auto simp: entries_fit_def entry_if_def)

definition request_data_ok :: "request_data \<Rightarrow> bool" where
  "request_data_ok d \<longleftrightarrow> utf8_valid (rq_method d) \<and> utf8_valid (rq_uri d) \<and> utf8_valid (rq_peer_address d) \<and> headers_ok (rq_headers d)"

text \<open>What a receiver sees of a request: the fields that are not serialized are at their defaults.\<close>

definition request_data_sent :: "request_data \<Rightarrow> request_data" where
  "request_data_sent d = d\<lparr>rq_peer_port := (if rq_peer_address d = [] then 0 else rq_peer_port d),
     rq_connect_host := [], rq_connect_port := 0, rq_ignore_policies := False, rq_trust_connect_host := False,
     rq_ignore_tls_errors := False, rq_client_cert := [], rq_client_key := [], rq_follow_redirects := False\<rparr>"

lemma fold_content_type:
  assumes "ct \<noteq> None \<Longrightarrow> body (encoded_item fmt (str ''content-type'', TString (content_type_bytes (the ct)))) s = Some (Inr (u s))"
    and "ct = None \<Longrightarrow> u s = s"
  shows "fold_packet body (map (encoded_item fmt) (content_type_entry ct)) s = Some (Inr (u s))"
  using assms by (cases ct) (simp_all add: content_type_entry_def)

lemma request_segments:
  assumes fit: "entries_fit fmt (request_data_entries d)" and ok: "request_data_ok d"
  shows
  "fold_packet (request_field oc) (map (encoded_item fmt) (entry_if (rq_method d \<noteq> []) ''method'' (TString (rq_method d)))) s
    = Some (Inr (s\<lparr>rq_method := if rq_method d \<noteq> [] then rq_method d else rq_method s\<rparr>))"
  "fold_packet (request_field oc) (map (encoded_item fmt) (entry_if (rq_uri d \<noteq> []) ''uri'' (TString (rq_uri d)))) s
    = Some (Inr (s\<lparr>rq_uri := if rq_uri d \<noteq> [] then rq_uri d else rq_uri s\<rparr>))"
  "rq_headers s = [] \<Longrightarrow> fold_packet (request_field oc) (map (encoded_item fmt) (headers_entry (rq_headers d))) s
    = Some (Inr (s\<lparr>rq_headers := rq_headers d\<rparr>))"
  "fold_packet (request_field oc) (map (encoded_item fmt) (content_type_entry (rq_content_type d))) s
    = Some (Inr (s\<lparr>rq_content_type := if rq_content_type d \<noteq> None then rq_content_type d else rq_content_type s\<rparr>))"
  "fold_packet (request_field oc) (map (encoded_item fmt) (entry_if (rq_body d \<noteq> []) ''body'' (TString (rq_body d)))) s
    = Some (Inr (s\<lparr>rq_body := if rq_body d \<noteq> [] then rq_body d else rq_body s\<rparr>))"
  "fold_packet (request_field oc) (map (encoded_item fmt) (entry_if (rq_credits d > 0) ''credits'' (TInt (uint (rq_credits d))))) s
    = Some (Inr (s\<lparr>rq_credits := if rq_credits d > 0 then rq_credits d else rq_credits s\<rparr>))"
  "fold_packet (request_field oc) (map (encoded_item fmt) (entry_if (rq_more d) ''more'' (TBool True))) s
    = Some (Inr (s\<lparr>rq_more := rq_more d \<or> rq_more s\<rparr>))"
  "fold_packet (request_field oc) (map (encoded_item fmt) (entry_if (rq_stream d) ''stream'' (TBool True))) s
    = Some (Inr (s\<lparr>rq_stream := rq_stream d \<or> rq_stream s\<rparr>))"
  "fold_packet (request_field oc) (map (encoded_item fmt) (entry_if (rq_router_resp d) ''router-resp'' (TBool True))) s
    = Some (Inr (s\<lparr>rq_router_resp := rq_router_resp d \<or> rq_router_resp s\<rparr>))"
  "fold_packet (request_field oc) (map (encoded_item fmt) (entry_if (rq_max_size d > 0) ''max-size'' (TInt (uint (rq_max_size d))))) s
    = Some (Inr (s\<lparr>rq_max_size := if rq_max_size d > 0 then rq_max_size d else rq_max_size s\<rparr>))"
  "fold_packet (request_field oc) (map (encoded_item fmt) (entry_if (rq_timeout d > 0) ''timeout'' (TInt (uint (rq_timeout d))))) s
    = Some (Inr (s\<lparr>rq_timeout := if rq_timeout d > 0 then rq_timeout d else rq_timeout s\<rparr>))"
  "fold_packet (request_field oc) (map (encoded_item fmt) (entry_if (rq_peer_address d \<noteq> []) ''peer-address'' (TString (rq_peer_address d)))) s
    = Some (Inr (s\<lparr>rq_peer_address := if rq_peer_address d \<noteq> [] then rq_peer_address d else rq_peer_address s\<rparr>))"
  "fold_packet (request_field oc) (map (encoded_item fmt) (entry_if (rq_peer_address d \<noteq> []) ''peer-port'' (TInt (uint (rq_peer_port d))))) s
    = Some (Inr (s\<lparr>rq_peer_port := if rq_peer_address d \<noteq> [] then rq_peer_port d else rq_peer_port s\<rparr>))"
proof -
  show "rq_headers s = [] \<Longrightarrow> fold_packet (request_field oc) (map (encoded_item fmt) (headers_entry (rq_headers d))) s
    = Some (Inr (s\<lparr>rq_headers := rq_headers d\<rparr>))"
    unfolding headers_entry_def
    by (rule fold_entry_if) (use fit ok in \<open>simp_all add: request_field_def headers_field_encoded request_data_entries_def
        headers_entry_def request_data_ok_def del: map_map\<close>)
  show "fold_packet (request_field oc) (map (encoded_item fmt) (content_type_entry (rq_content_type d))) s
    = Some (Inr (s\<lparr>rq_content_type := if rq_content_type d \<noteq> None then rq_content_type d else rq_content_type s\<rparr>))"
    using fit by (intro fold_content_type; cases "rq_content_type d")
      (simp_all add: request_field_def content_type_encoded request_data_entries_def content_type_entry_def)
qed (rule fold_entry_if; use fit ok in \<open>simp add: request_field_def fields_encoded request_data_entries_def request_data_ok_def\<close>)+

lemma word_gt_0_or: "(if x > 0 then x else 0) = (x :: 'a :: len word)"
  by (auto simp: word_gt_0)

lemma request_fold:
  assumes "entries_fit fmt (request_data_entries d)" and "request_data_ok d"
  shows "fold_packet (request_field oc) (map (encoded_item fmt) (request_data_entries d)) request_data_new
    = Some (Inr (request_data_sent d))"
  unfolding request_data_entries_def map_append fold_packet_append
  by (simp only: request_segments [OF assms] pk_bind_simps request_data_new_def request_data.simps)
    (simp add: request_data_sent_def word_gt_0_or)

definition response_data_ok :: "response_data \<Rightarrow> bool" where
  "response_data_ok d \<longleftrightarrow> utf8_valid (rs_reason d) \<and> headers_ok (rs_headers d)"

lemma response_segments:
  assumes fit: "entries_fit fmt (response_data_entries d)" and ok: "response_data_ok d"
  shows
  "fold_packet (response_field oc) (map (encoded_item fmt) (entry_if (rs_code d > 0) ''code'' (TInt (uint (rs_code d))))) s
    = Some (Inr (s\<lparr>rs_code := if rs_code d > 0 then rs_code d else rs_code s\<rparr>))"
  "fold_packet (response_field oc) (map (encoded_item fmt) (entry_if (rs_reason d \<noteq> []) ''reason'' (TString (rs_reason d)))) s
    = Some (Inr (s\<lparr>rs_reason := if rs_reason d \<noteq> [] then rs_reason d else rs_reason s\<rparr>))"
  "rs_headers s = [] \<Longrightarrow> fold_packet (response_field oc) (map (encoded_item fmt) (headers_entry (rs_headers d))) s
    = Some (Inr (s\<lparr>rs_headers := rs_headers d\<rparr>))"
  "fold_packet (response_field oc) (map (encoded_item fmt) (content_type_entry (rs_content_type d))) s
    = Some (Inr (s\<lparr>rs_content_type := if rs_content_type d \<noteq> None then rs_content_type d else rs_content_type s\<rparr>))"
  "fold_packet (response_field oc) (map (encoded_item fmt) (entry_if (rs_body d \<noteq> []) ''body'' (TString (rs_body d)))) s
    = Some (Inr (s\<lparr>rs_body := if rs_body d \<noteq> [] then rs_body d else rs_body s\<rparr>))"
  "fold_packet (response_field oc) (map (encoded_item fmt) (entry_if (rs_credits d > 0) ''credits'' (TInt (uint (rs_credits d))))) s
    = Some (Inr (s\<lparr>rs_credits := if rs_credits d > 0 then rs_credits d else rs_credits s\<rparr>))"
  "fold_packet (response_field oc) (map (encoded_item fmt) (entry_if (rs_more d) ''more'' (TBool True))) s
    = Some (Inr (s\<lparr>rs_more := rs_more d \<or> rs_more s\<rparr>))"
proof -
  show "rs_headers s = [] \<Longrightarrow> fold_packet (response_field oc) (map (encoded_item fmt) (headers_entry (rs_headers d))) s
    = Some (Inr (s\<lparr>rs_headers := rs_headers d\<rparr>))"
    unfolding headers_entry_def
    by (rule fold_entry_if) (use fit ok in \<open>simp_all add: response_field_def headers_field_encoded response_data_entries_def
        headers_entry_def response_data_ok_def del: map_map\<close>)
  show "fold_packet (response_field oc) (map (encoded_item fmt) (content_type_entry (rs_content_type d))) s
    = Some (Inr (s\<lparr>rs_content_type := if rs_content_type d \<noteq> None then rs_content_type d else rs_content_type s\<rparr>))"
    using fit by (intro fold_content_type; cases "rs_content_type d")
      (simp_all add: response_field_def content_type_encoded response_data_entries_def content_type_entry_def)
qed (rule fold_entry_if; use fit ok in \<open>simp add: response_field_def fields_encoded response_data_entries_def response_data_ok_def\<close>)+

lemma response_fold:
  assumes "entries_fit fmt (response_data_entries d)" and "response_data_ok d"
  shows "fold_packet (response_field oc) (map (encoded_item fmt) (response_data_entries d)) response_data_new = Some (Inr d)"
  unfolding response_data_entries_def map_append fold_packet_append
  by (simp only: response_segments [OF assms] pk_bind_simps response_data_new_def response_data.simps)
    (simp add: word_gt_0_or)

text \<open>
  A rejection is read back only under the condition \<open>rejected\<close>, and always under it: information under another condition is lost, and
  under this condition a packet without information arrives with empty information.
\<close>

definition no_rejection :: rejected_info where
  "no_rejection = \<lparr>ri_code = 0, ri_reason = [], ri_headers = [], ri_body = []\<rparr>"

definition response_error_sent :: "response_error_data \<Rightarrow> response_error_data" where
  "response_error_sent d = d\<lparr>re_rejected_info :=
     if re_condition d = str ''rejected'' then Some (case re_rejected_info d of None \<Rightarrow> no_rejection | Some ri \<Rightarrow> ri) else None\<rparr>"

definition response_error_ok :: "response_error_data \<Rightarrow> bool" where
  "response_error_ok d \<longleftrightarrow> utf8_valid (re_condition d)
     \<and> (case re_rejected_info d of None \<Rightarrow> True | Some ri \<Rightarrow> utf8_valid (ri_reason ri) \<and> headers_ok (ri_headers ri))"

lemma rejection_headers:
  assumes "entries_fit fmt (headers_entry hs)" and "headers_ok hs" and "ri_headers ri = []"
  shows "fold_packet (response_error_field oc) (map (encoded_item fmt) (headers_entry hs)) (c, ri) = Some (Inr (c, ri\<lparr>ri_headers := hs\<rparr>))"
  unfolding headers_entry_def
  by (rule fold_entry_if [where u = "\<lambda>_. (c, ri\<lparr>ri_headers := hs\<rparr>)"])
    (use assms in \<open>simp_all add: response_error_field_def headers_field_encoded headers_entry_def del: map_map\<close>)

lemma response_error_fold:
  assumes fit: "entries_fit fmt (response_error_entries d)" and ok: "response_error_ok d"
  shows "fold_packet (response_error_field oc) (map (encoded_item fmt) (response_error_entries d)) ([], no_rejection)
    = Some (Inr (re_condition d, case re_rejected_info d of None \<Rightarrow> no_rejection | Some ri \<Rightarrow> ri))"
proof (cases "re_rejected_info d")
  case None
  then show ?thesis using fit ok
    by (simp add: response_error_entries_def response_error_ok_def response_error_field_def fields_encoded)
next
  case (Some ri)
  then show ?thesis using fit ok
    by (simp add: response_error_entries_def response_error_ok_def fold_packet_append rejection_headers)
      (simp add: response_error_field_def fields_encoded fold_packet_append rejection_headers no_rejection_def)
qed

definition close_ok :: "(u16 \<times> bytes) option \<Rightarrow> bool" where
  "close_ok status \<longleftrightarrow> (case status of None \<Rightarrow> True | Some (code, reason) \<Rightarrow> utf8_valid reason)"

lemma close_fold:
  assumes "entries_fit fmt (close_entries status)" and "close_ok status"
  shows "fold_packet (close_field oc) (map (encoded_item fmt) (close_entries status)) (None, [])
    = Some (Inr (case status of None \<Rightarrow> (None, []) | Some (code, reason) \<Rightarrow> (Some code, reason)))"
  using assms by (auto simp: close_entries_def close_ok_def entry_if_def close_field_def fields_encoded utf8_field_def split: option.split)

lemma ping_fold:
  assumes "entries_fit fmt (ping_entries d)"
  shows "fold_packet (ping_field oc) (map (encoded_item fmt) (ping_entries d)) \<lparr>pg_credits = 0, pg_body = []\<rparr>
    = Some (Inr (d\<lparr>pg_credits := 0\<rparr>))"
  using assms by (cases d) (auto simp: ping_entries_def entry_if_def ping_field_def fields_encoded)

text \<open>The common fields.\<close>

lemma id_member_fold:
  assumes "fits fmt (id_tnet i)"
  shows "fold_packet (id_member oc) (map (encoded_item fmt) ((str ''id'', TString (id_id i)) # seq_entry (id_seq i))) EMPTY_ID = Some (Inr i)"
  using fits_map [OF assms [unfolded id_tnet_def]]
  by (cases "id_seq i") (simp_all add: seq_entry_def id_member_def fields_encoded EMPTY_ID_def)

lemma id_item_encoded:
  assumes "fits fmt (id_tnet i)" and "length ids < IDS_MAX"
  shows "id_item oc (encoded_elem fmt (id_tnet i)) ids = Some (Inr (ids @ [i]))"
proof -
  let ?kvs = "(str ''id'', TString (id_id i)) # seq_entry (id_seq i)"
  have fits: "fits fmt (TMap ?kvs)" using assms(1) by (simp add: id_tnet_def)
  have keys: "\<forall>(k, v) \<in> set ?kvs. utf8_valid k" by (auto simp: seq_entry_def split: option.splits)
  show ?thesis
    using parse_encoded(1) [OF fits, of oc] for_encoded_map [OF fits keys, of oc "id_member oc" EMPTY_ID] id_member_fold [OF assms(1), of oc] assms(2)
    by (simp add: id_item_def encoded_elem_def id_tnet_def scratch_push_def del: payload.simps)
qed

lemma ids_fold:
  "\<forall>i \<in> set ids. fits fmt (id_tnet i) \<Longrightarrow> length acc + length ids \<le> IDS_MAX \<Longrightarrow>
    fold_packet (id_item oc) (map (encoded_elem fmt) (map id_tnet ids)) acc = Some (Inr (acc @ ids))"
  by (induction ids arbitrary: acc) (simp_all add: id_item_encoded)

definition common_ok :: "common_data \<Rightarrow> bool" where
  "common_ok d \<longleftrightarrow> length (cd_ids d) \<le> IDS_MAX \<and> utf8_valid (cd_ptype_str d)"

lemma common_segments:
  assumes fit: "entries_fit fmt (common_entries d)" and ok: "common_ok d"
  shows
  "fold_packet (common_field oc) (map (encoded_item fmt) (entry_if (cd_from d \<noteq> []) ''from'' (TString (cd_from d)))) s
    = Some (Inr (s\<lparr>cd_from := if cd_from d \<noteq> [] then cd_from d else cd_from s\<rparr>))"
  "cd_ids s = [] \<Longrightarrow> fold_packet (common_field oc) (map (encoded_item fmt)
      (if length (cd_ids d) = 1 then (str ''id'', TString (id_id (cd_ids d ! 0))) # seq_entry (id_seq (cd_ids d ! 0))
        else entry_if (length (cd_ids d) > 1) ''id'' (TArray (map id_tnet (cd_ids d))))) s
    = Some (Inr (s\<lparr>cd_ids := cd_ids d\<rparr>))"
  "fold_packet (common_field oc) (map (encoded_item fmt) (entry_if (cd_multi d) ''ext'' (TMap [(str ''multi'', TBool True)]))) s
    = Some (Inr (s\<lparr>cd_multi := cd_multi d \<or> cd_multi s\<rparr>))"
  "fold_packet (common_field oc) (map (encoded_item fmt) (entry_if (cd_ptype_str d \<noteq> []) ''type'' (TString (cd_ptype_str d)))) s
    = Some (Inr (s\<lparr>cd_ptype_str := if cd_ptype_str d \<noteq> [] then cd_ptype_str d else cd_ptype_str s\<rparr>))"
proof -
  show "fold_packet (common_field oc) (map (encoded_item fmt) (entry_if (cd_multi d) ''ext'' (TMap [(str ''multi'', TBool True)]))) s
    = Some (Inr (s\<lparr>cd_multi := cd_multi d \<or> cd_multi s\<rparr>))"
  proof (rule fold_entry_if)
    assume "cd_multi d"
    then have f: "fits fmt (TMap [(str ''multi'', TBool True)])" using fit by (simp add: common_entries_def)
    then have "fits fmt (TBool True)" using fits_map by fastforce
    then show "common_field oc (encoded_item fmt (str ''ext'', TMap [(str ''multi'', TBool True)])) s = Some (Inr (s\<lparr>cd_multi := cd_multi d \<or> cd_multi s\<rparr>))"
      using f \<open>cd_multi d\<close> for_encoded_map [OF f, of oc "ext_member oc" "cd_multi s"]
      by (simp add: common_field_def parse_encoded ext_member_def fields_encoded del: payload.simps)
  qed simp
  assume s: "cd_ids s = []"
  show "fold_packet (common_field oc) (map (encoded_item fmt)
      (if length (cd_ids d) = 1 then (str ''id'', TString (id_id (cd_ids d ! 0))) # seq_entry (id_seq (cd_ids d ! 0))
        else entry_if (length (cd_ids d) > 1) ''id'' (TArray (map id_tnet (cd_ids d))))) s
    = Some (Inr (s\<lparr>cd_ids := cd_ids d\<rparr>))"
  proof (cases "length (cd_ids d) = 1")
    case True
    then obtain i where i: "cd_ids d = [i]" by (cases "cd_ids d") auto
    show ?thesis using fit s i
      by (cases "id_seq i") (simp_all add: common_entries_def seq_entry_def common_field_def parse_encoded fields_encoded with_first_def
          scratch_push_def IDS_MAX_def EMPTY_ID_def index_at_def)
  next
    case False
    show ?thesis unfolding if_not_P [OF False]
    proof (rule fold_entry_if)
      assume "length (cd_ids d) > 1"
      then have f: "fits fmt (TArray (map id_tnet (cd_ids d)))" using fit by (simp add: common_entries_def)
      have "fold_packet (id_item oc) (map (encoded_elem fmt) (map id_tnet (cd_ids d))) [] = Some (Inr ([] @ cd_ids d))"
        using fits_array [OF f] ok by (intro ids_fold) (simp_all add: common_ok_def)
      then show "common_field oc (encoded_item fmt (str ''id'', TArray (map id_tnet (cd_ids d)))) s = Some (Inr (s\<lparr>cd_ids := cd_ids d\<rparr>))"
        using s by (simp add: common_field_def parse_encoded f for_encoded_array del: payload.simps map_map)
    next
      assume "\<not> length (cd_ids d) > 1"
      then have "cd_ids d = []" using False by (cases "cd_ids d") auto
      then show "s\<lparr>cd_ids := cd_ids d\<rparr> = s" using s by simp
    qed
  qed
qed (rule fold_entry_if; use fit ok in \<open>simp add: common_field_def fields_encoded common_entries_def common_ok_def\<close>)+

lemma common_fold:
  assumes "entries_fit fmt (common_entries d)" and "common_ok d"
  shows "fold_packet (common_field oc) (map (encoded_item fmt) (common_entries d))
      \<lparr>cd_from = [], cd_ids = [], cd_multi = False, cd_ptype_str = []\<rparr> = Some (Inr d)"
  unfolding common_entries_def map_append fold_packet_append
  by (simp only: common_segments [OF assms] pk_bind_simps common_data.simps) simp

text \<open>The two passes over the map do not see each other's entries.\<close>

definition common_keys :: "bytes set" where
  "common_keys = str ` {''from'', ''id'', ''seq'', ''ext'', ''type''}"

lemma common_entries_keys: "(k, v) \<in> set (common_entries d) \<Longrightarrow> k \<in> common_keys"
  by (auto simp: common_entries_def common_keys_def entry_if_def seq_entry_def split: if_splits option.splits)

lemma fold_skip:
  assumes "\<And>k v s. (k, v) \<in> set kvs \<Longrightarrow> body (encoded_item fmt (k, v)) s = Some (Inr s)"
  shows "fold_packet body (map (encoded_item fmt) kvs) s = Some (Inr s)"
  by (rule fold_packet_skip) (use assms in auto)

lemma skip_body: "k \<notin> common_keys \<Longrightarrow> common_field oc (encoded_item fmt (k, v)) s = Some (Inr s)"
  by (simp add: common_keys_def common_field_def)

lemma skip_common:
  assumes "k \<in> common_keys"
  shows "request_field oc (encoded_item fmt (k, v)) d = Some (Inr d)"
    "response_field oc (encoded_item fmt (k, v)) d' = Some (Inr d')"
    "condition_field oc (encoded_item fmt (k, v)) c = Some (Inr c)"
    "response_error_field oc (encoded_item fmt (k, v)) e = Some (Inr e)"
    "credit_field oc (encoded_item fmt (k, v)) n = Some (Inr n)"
    "close_field oc (encoded_item fmt (k, v)) st = Some (Inr st)"
    "ping_field oc (encoded_item fmt (k, v)) p = Some (Inr p)"
  using assms by (auto simp: common_keys_def request_field_def response_field_def condition_field_def response_error_field_def
      credit_field_def close_field_def ping_field_def split: prod.split)

lemma body_entries_keys:
  "(k, v) \<in> set (request_entries p) \<Longrightarrow> k \<notin> common_keys \<and> utf8_valid k"
  "(k, v) \<in> set (response_entries q) \<Longrightarrow> k \<notin> common_keys \<and> utf8_valid k"
proof -
  have hs: "(k, v) \<in> set (headers_entry hs) \<Longrightarrow> k = str ''headers''"
    and ct: "(k, v) \<in> set (content_type_entry ct) \<Longrightarrow> k = str ''content-type''" for hs ct
    by (auto simp: headers_entry_def entry_if_def content_type_entry_def split: if_splits option.splits)
  show "(k, v) \<in> set (request_entries p) \<Longrightarrow> k \<notin> common_keys \<and> utf8_valid k"
    by (cases p) (auto simp: request_data_entries_def close_entries_def ping_entries_def entry_if_def common_keys_def
        dest!: hs ct split: if_splits option.splits)
  show "(k, v) \<in> set (response_entries q) \<Longrightarrow> k \<notin> common_keys \<and> utf8_valid k"
    by (cases q) (auto simp: response_data_entries_def response_error_entries_def close_entries_def ping_entries_def entry_if_def common_keys_def
        dest!: hs ct split: if_splits option.splits)
qed

section \<open>Whole packets\<close>

definition common_of :: "bytes \<Rightarrow> 'p zpacket \<Rightarrow> common_data" where
  "common_of ptype_str p = \<lparr>cd_from = zp_from p, cd_ids = zp_ids p, cd_multi = zp_multi p, cd_ptype_str = ptype_str\<rparr>"

definition request_tnet :: "request \<Rightarrow> 'f tnet" where
  "request_tnet p = TMap (common_entries (common_of (the (request_type (zp_ptype p))) p) @ request_entries (zp_ptype p))"

definition response_tnet :: "response \<Rightarrow> 'f tnet" where
  "response_tnet p = TMap (common_entries (common_of (the (response_type (zp_ptype p))) p) @ response_entries (zp_ptype p))"

lemma uint_tnet_ok: "tnet_ok fmt (TInt (uint (x :: u32)))" "tnet_ok fmt (TInt (uint (y :: u16)))"
proof -
  have "uint x \<le> isize_max" "uint y \<le> isize_max" using uint_lt2p [of x] uint_lt2p [of y] by (simp_all add: isize_max_def)
  moreover have "isize_min < uint x" "isize_min < uint y" by (rule less_le_trans [OF _ uint_ge_0], simp add: isize_min_def)+
  ultimately show "tnet_ok fmt (TInt (uint x))" "tnet_ok fmt (TInt (uint y))" by simp_all
qed

lemma entries_ok:
  "(k, v) \<in> set (common_entries d) \<Longrightarrow> tnet_ok fmt v"
  "(k, v) \<in> set (request_entries p) \<Longrightarrow> tnet_ok fmt v"
  "(k, v) \<in> set (response_entries q) \<Longrightarrow> tnet_ok fmt v"
proof -
  have hs: "(k, v) \<in> set (headers_entry hs) \<Longrightarrow> tnet_ok fmt v"
    and ct: "(k, v) \<in> set (content_type_entry ct) \<Longrightarrow> tnet_ok fmt v" for hs ct
    by (auto simp: headers_entry_def entry_if_def content_type_entry_def header_tnet_def split: if_splits option.splits)
  show "(k, v) \<in> set (common_entries d) \<Longrightarrow> tnet_ok fmt v"
    by (auto simp: common_entries_def entry_if_def seq_entry_def id_tnet_def uint_tnet_ok simp del: tnet_ok.simps(1) split: if_splits option.splits)
  show "(k, v) \<in> set (request_entries p) \<Longrightarrow> tnet_ok fmt v"
    by (cases p) (auto simp: request_data_entries_def close_entries_def ping_entries_def entry_if_def uint_tnet_ok simp del: tnet_ok.simps(1)
        dest: hs ct split: if_splits option.splits)
  show "(k, v) \<in> set (response_entries q) \<Longrightarrow> tnet_ok fmt v"
    by (cases q) (auto simp: response_data_entries_def response_error_entries_def close_entries_def ping_entries_def entry_if_def
        uint_tnet_ok simp del: tnet_ok.simps(1) dest: hs ct split: if_splits option.splits)
qed

lemma packet_tnet_ok: "tnet_ok fmt (request_tnet p)" "tnet_ok fmt (response_tnet q)"
  by (auto simp: request_tnet_def response_tnet_def dest: entries_ok)

text \<open>A packet that fits the writer and the destination is written as \<open>T\<close> and the encoding of its map.\<close>

lemma packet_serialize_encodes:
  assumes ptype: "ptype (zp_ptype p) = Some t" and body: "writes (body (zp_ptype p)) (entry_ops es)"
    and v: "v = TMap (common_entries (common_of t p) @ es)" and ok: "tnet_ok fmt v"
    and ops: "length (ops_of v) \<le> OPS_MAX" and room: "length (tnet_encode fmt v) < length dest"
  shows "packet_serialize ptype body oc fmt p dest
    = Some (Inr (length (tnet_encode fmt v) + 1), 84 # tnet_encode fmt v @ drop (length (tnet_encode fmt v)) (tl dest))"
proof -
  let ?c = "\<lparr>cur_buf = tl dest, cur_pos = 0\<rparr>" and ?e = "tnet_encode fmt v"
  have "writes (w_all [start_map, common_serialize (common_of t p), body (zp_ptype p), end_map])
      ([OpStartMap] @ entry_ops (common_entries (common_of t p)) @ entry_ops es @ [OpEndMap] @ [])"
    by (intro writes_all writes_calls writes_common body)
  then have w: "w_all [start_map, common_serialize (common_of t p), body (zp_ptype p), end_map] w = tn_calls w (ops_of v)" for w
    unfolding writes_def by (simp add: v entry_ops_def)
  have "write_exact ?c ?e = (Inr (), \<lparr>cur_buf = ?e @ drop (length ?e) (tl dest), cur_pos = length ?e\<rparr>)"
    using room by (simp add: write_exact_def cursor_write_def overwrite_def Let_def)
  then show ?thesis
    using writer_encodes [of "[v]" fmt ?c oc] ok ops room ptype w
    by (auto simp: packet_serialize_def common_of_def simp del: w_all.simps tnet_ok.simps ops_of.simps)
qed

lemma parse_root_encoded:
  "fits fmt (TMap kvs) \<Longrightarrow> parse_root oc (84 # tnet_encode fmt (TMap kvs)) = Some (Inr (iter_new (payload fmt (TMap kvs))))"
  by (simp add: parse_root_def parse_encoded del: payload.simps)

lemma loop_body:
  assumes fits: "fits fmt (TMap (common_entries d @ es))" and keys: "\<And>k v. (k, v) \<in> set es \<Longrightarrow> utf8_valid k"
    and skip: "\<And>k v s. k \<in> common_keys \<Longrightarrow> body (encoded_item fmt (k, v)) s = Some (Inr s)"
  shows "for_items (map_next oc) body (iter_new (payload fmt (TMap (common_entries d @ es)))) s = fold_packet body (map (encoded_item fmt) es) s"
proof -
  have "utf8_valid k" if "k \<in> common_keys" for k using that by (auto simp: common_keys_def)
  then have "\<forall>(k, v) \<in> set (common_entries d @ es). utf8_valid k" using keys common_entries_keys by fastforce
  from for_encoded_map [OF fits this, of oc body s] show ?thesis
    by (simp add: fold_packet_append fold_skip skip common_entries_keys del: payload.simps)
qed

lemma loop_common:
  assumes fits: "fits fmt (TMap (common_entries d @ es))" and keys: "\<And>k v. (k, v) \<in> set es \<Longrightarrow> k \<notin> common_keys \<and> utf8_valid k"
    and ok: "common_ok d"
  shows "common_parse oc (iter_new (payload fmt (TMap (common_entries d @ es)))) [] = Some (Inr d)"
proof -
  have "utf8_valid k" if "k \<in> common_keys" for k using that by (auto simp: common_keys_def)
  then have k: "\<forall>(k, v) \<in> set (common_entries d @ es). utf8_valid k" using keys common_entries_keys by fastforce
  have "entries_fit fmt (common_entries d)" using fits_map [OF fits] by (auto simp: entries_fit_def)
  from common_fold [OF this ok, of oc] for_encoded_map [OF fits k, of oc "common_field oc"] show ?thesis
    by (simp add: common_parse_def fold_packet_append fold_skip skip_body keys del: payload.simps)
qed

fun request_packet_ok :: "request_packet \<Rightarrow> bool" where
  "request_packet_ok RqUnknown \<longleftrightarrow> False"
| "request_packet_ok (RqData d) \<longleftrightarrow> request_data_ok d"
| "request_packet_ok (RqError c) \<longleftrightarrow> utf8_valid c"
| "request_packet_ok (RqClose s) \<longleftrightarrow> close_ok s"
| "request_packet_ok _ \<longleftrightarrow> True"

fun response_packet_ok :: "response_packet \<Rightarrow> bool" where
  "response_packet_ok RsUnknown \<longleftrightarrow> False"
| "response_packet_ok (RsData d) \<longleftrightarrow> response_data_ok d"
| "response_packet_ok (RsError d) \<longleftrightarrow> response_error_ok d"
| "response_packet_ok (RsClose s) \<longleftrightarrow> close_ok s"
| "response_packet_ok _ \<longleftrightarrow> True"

text \<open>
  What arrives of a packet: pings and pongs lose their credits, requests their unserialized fields, and errors are read as above.
\<close>

fun request_packet_sent :: "request_packet \<Rightarrow> request_packet" where
  "request_packet_sent (RqData d) = RqData (request_data_sent d)"
| "request_packet_sent (RqPing d) = RqPing (d\<lparr>pg_credits := 0\<rparr>)"
| "request_packet_sent (RqPong d) = RqPong (d\<lparr>pg_credits := 0\<rparr>)"
| "request_packet_sent p = p"

fun response_packet_sent :: "response_packet \<Rightarrow> response_packet" where
  "response_packet_sent (RsError d) = RsError (response_error_sent d)"
| "response_packet_sent (RsPing d) = RsPing (d\<lparr>pg_credits := 0\<rparr>)"
| "response_packet_sent (RsPong d) = RsPong (d\<lparr>pg_credits := 0\<rparr>)"
| "response_packet_sent p = p"

lemma close_ok_unfold: "(case case status of None \<Rightarrow> (None, []) | Some (code, reason) \<Rightarrow> (Some code, reason) of
    (code, reason) \<Rightarrow> case code of Some c \<Rightarrow> Some (c, reason) | None \<Rightarrow> None) = status"
  by (cases status) auto

lemma request_body_roundtrip:
  assumes fits: "fits fmt (TMap (common_entries d @ request_entries p))" and ok: "request_packet_ok p"
  shows "request_body_parse oc (the (request_type p)) (iter_new (payload fmt (TMap (common_entries d @ request_entries p)))) [] = Some (Inr (request_packet_sent p))"
proof -
  have fit: "entries_fit fmt (request_entries p)" using fits_map [OF fits] by (auto simp: entries_fit_def)
  have loop: "for_items (map_next oc) body (iter_new (payload fmt (TMap (common_entries d @ request_entries p)))) s
      = fold_packet body (map (encoded_item fmt) (request_entries p)) s"
    if "\<And>k v s. k \<in> common_keys \<Longrightarrow> body (encoded_item fmt (k, v)) s = Some (Inr s)" for body :: "map_item \<Rightarrow> 's \<Rightarrow> 's packet" and s
    using that body_entries_keys by (intro loop_body [OF fits]) blast+
  show ?thesis
  proof (cases p)
    case (RqData r)
    then show ?thesis using fit ok loop [of "request_field oc", OF skip_common(1)] request_fold [of fmt r oc]
      by (simp add: request_body_parse_def request_data_parse_def skip_common request_data_new_def del: payload.simps)
  next
    case (RqClose s)
    then show ?thesis using fit ok loop [of "close_field oc", OF skip_common(6)] close_fold [of fmt s oc]
      by (simp add: request_body_parse_def close_parse_def skip_common close_ok_unfold del: payload.simps)
  next
    case (RqPing r)
    then show ?thesis using fit ok loop [of "ping_field oc", OF skip_common(7)] ping_fold [of fmt r oc]
      by (simp add: request_body_parse_def parse_ping_or_pong_def skip_common del: payload.simps)
  next
    case (RqPong r)
    then show ?thesis using fit ok loop [of "ping_field oc", OF skip_common(7)] ping_fold [of fmt r oc]
      by (simp add: request_body_parse_def parse_ping_or_pong_def skip_common del: payload.simps)
  next
    case (RqError c)
    then show ?thesis using fit ok loop [of "condition_field oc", OF skip_common(3)]
      by (simp add: request_body_parse_def request_error_parse_def skip_common condition_field_def fields_encoded del: payload.simps)
  next
    case (RqCredit c)
    then show ?thesis using fit ok loop [of "credit_field oc", OF skip_common(5)]
      by (simp add: request_body_parse_def credit_parse_def skip_common credit_field_def fields_encoded del: payload.simps)
  qed (use ok in \<open>auto simp: request_body_parse_def\<close>)
qed

lemma response_body_roundtrip:
  assumes fits: "fits fmt (TMap (common_entries d @ response_entries p))" and ok: "response_packet_ok p"
  shows "response_body_parse oc (the (response_type p)) (iter_new (payload fmt (TMap (common_entries d @ response_entries p)))) [] = Some (Inr (response_packet_sent p))"
proof -
  have fit: "entries_fit fmt (response_entries p)" using fits_map [OF fits] by (auto simp: entries_fit_def)
  have loop: "for_items (map_next oc) body (iter_new (payload fmt (TMap (common_entries d @ response_entries p)))) s
      = fold_packet body (map (encoded_item fmt) (response_entries p)) s"
    if "\<And>k v s. k \<in> common_keys \<Longrightarrow> body (encoded_item fmt (k, v)) s = Some (Inr s)" for body :: "map_item \<Rightarrow> 's \<Rightarrow> 's packet" and s
    using that body_entries_keys by (intro loop_body [OF fits]) blast+
  show ?thesis
  proof (cases p)
    case (RsData r)
    then show ?thesis using fit ok loop [of "response_field oc", OF skip_common(2)] response_fold [of fmt r oc]
      by (simp add: response_body_parse_def response_data_parse_def skip_common response_data_new_def del: payload.simps)
  next
    case (RsError r)
    then have "fold_packet (response_error_field oc) (map (encoded_item fmt) (response_error_entries r)) ([], no_rejection)
        = Some (Inr (re_condition r, case re_rejected_info r of None \<Rightarrow> no_rejection | Some ri \<Rightarrow> ri))"
      using response_error_fold [of fmt r oc] fit ok by simp
    then show ?thesis using RsError ok loop [of "response_error_field oc", OF skip_common(4)]
      by (simp add: response_body_parse_def response_error_parse_def skip_common response_error_sent_def no_rejection_def [symmetric] del: payload.simps)
  next
    case (RsClose s)
    then show ?thesis using fit ok loop [of "close_field oc", OF skip_common(6)] close_fold [of fmt s oc]
      by (simp add: response_body_parse_def close_parse_def skip_common close_ok_unfold del: payload.simps)
  next
    case (RsPing r)
    then show ?thesis using fit ok loop [of "ping_field oc", OF skip_common(7)] ping_fold [of fmt r oc]
      by (simp add: response_body_parse_def parse_ping_or_pong_def skip_common del: payload.simps)
  next
    case (RsPong r)
    then show ?thesis using fit ok loop [of "ping_field oc", OF skip_common(7)] ping_fold [of fmt r oc]
      by (simp add: response_body_parse_def parse_ping_or_pong_def skip_common del: payload.simps)
  next
    case (RsCredit c)
    then show ?thesis using fit ok loop [of "credit_field oc", OF skip_common(5)]
      by (simp add: response_body_parse_def credit_parse_def skip_common credit_field_def fields_encoded del: payload.simps)
  qed (use ok in \<open>auto simp: response_body_parse_def\<close>)
qed

text \<open>The router reads the same ids from the same bytes, without their sequence numbers.\<close>

definition unsequenced :: "pkt_id \<Rightarrow> pkt_id" where
  "unsequenced i = i\<lparr>id_seq := None\<rparr>"

section \<open>Properties\<close>

lemma ids_item_encoded:
  assumes "fits fmt (id_tnet i)" and "length ids < IDS_MAX"
  shows "ids_item oc (encoded_elem fmt (id_tnet i)) ids = Some (Inr (ids @ [unsequenced i]))"
proof -
  let ?kvs = "(str ''id'', TString (id_id i)) # seq_entry (id_seq i)"
  have fits: "fits fmt (TMap ?kvs)" using assms(1) by (simp add: id_tnet_def)
  have keys: "\<forall>(k, v) \<in> set ?kvs. utf8_valid k" by (auto simp: seq_entry_def split: option.splits)
  have "fold_packet (ids_member oc) (map (encoded_item fmt) ?kvs) [] = Some (Inr (id_id i))"
    using fits_map [OF fits] by (cases "id_seq i") (simp_all add: seq_entry_def ids_member_def fields_encoded)
  then show ?thesis
    using parse_encoded(1) [OF fits, of oc] for_encoded_map [OF fits keys, of oc "ids_member oc" "[]"] assms(2)
    by (simp add: ids_item_def encoded_elem_def id_tnet_def scratch_push_def unsequenced_def del: payload.simps)
qed

lemma ids_items_fold:
  "\<forall>i \<in> set ids. fits fmt (id_tnet i) \<Longrightarrow> length acc + length ids \<le> IDS_MAX \<Longrightarrow>
    fold_packet (ids_item oc) (map (encoded_elem fmt) (map id_tnet ids)) acc = Some (Inr (acc @ map unsequenced ids))"
  by (induction ids arbitrary: acc) (simp_all add: ids_item_encoded)

text \<open>
  On any bytes: the fields of a message, and the order of them in which the two parsers agree. The
  serializers write \<open>from\<close>, then \<open>id\<close>, then \<open>seq\<close>.
\<close>

definition packet_fields :: "bool \<Rightarrow> bytes \<Rightarrow> (bytes \<times> frame_type) list packet" where
  "packet_fields oc src = pk_bind (parse_root oc src) (\<lambda>root.
     for_items (map_next oc) (\<lambda>e fs. Some (Inr (fs @ [(mi_key e, mi_type e)]))) root [])"

definition ids_first :: "(bytes \<times> frame_type) list \<Rightarrow> bool" where
  "ids_first fs \<longleftrightarrow>
     (case filter (\<lambda>(k, t). k = str ''id'' \<or> k = str ''seq'') fs of
        [] \<Rightarrow> True
      | (k, t) # rest \<Rightarrow> k = str ''id'' \<and> (\<forall>(k', t') \<in> set rest. k' = str ''seq'' \<and> t = FString))"

text \<open>A loop that ends goes through a list of items, and every other body would go through the same.\<close>

inductive item_list :: "(iter \<Rightarrow> ((parse_error + 'i) option \<times> iter) run) \<Rightarrow> iter \<Rightarrow> 'i list \<Rightarrow> bool" for nx where
  last: "nx it = Some (None, it') \<Longrightarrow> item_list nx it []"
| item: "nx it = Some (Some (Inr i), it') \<Longrightarrow> item_list nx it' is \<Longrightarrow> item_list nx it (i # is)"

lemma item_list_fold: "item_list nx it is \<Longrightarrow> for_items nx body it t = fold_packet body is t"
proof (induction arbitrary: t rule: item_list.induct)
  case (last it it')
  then show ?case by (simp add: for_items.simps [of nx _ it])
next
  case (item it i it' "is")
  then show ?case by (auto simp: for_items.simps [of nx _ it] pk_bind_def split: option.split sum.split)
qed

lemma for_items_list:
  assumes "for_items nx body it s = Some (Inr s')"
  shows "\<exists>is. item_list nx it is"
proof -
  have "isl r \<or> (\<exists>is. item_list nx it is)" if "for_items nx body it s = Some r" for r
  proof (rule for_items.raw_induct [where P = "\<lambda>nx body it s r. isl r \<or> (\<exists>is. item_list nx it is)", OF _ that])
    fix loop nx body it s r
    assume ih: "\<And>nx body it s r. loop nx body it s = Some r \<Longrightarrow> isl r \<or> (\<exists>is. item_list nx it is)"
      and step: "nx it \<bind> (\<lambda>(item, it). case item of None \<Rightarrow> Some (Inr s) | Some (Inl e) \<Rightarrow> Some (Inl (TnetParse e))
        | Some (Inr i) \<Rightarrow> body i s \<bind> (\<lambda>r. case r of Inl e \<Rightarrow> Some (Inl e) | Inr s \<Rightarrow> loop nx body it s)) = Some r"
    then show "isl r \<or> (\<exists>is. item_list nx it is)"
      by (auto split: option.splits sum.splits Option.bind_splits prod.splits intro: item_list.last) (blast dest: ih intro: item_list.item)
  qed
  then show ?thesis using assms by fastforce
qed

lemma fold_packet_sim:
  assumes "\<And>i s s'. body i s = Some (Inr s') \<Longrightarrow> body' i (h s) = Some (Inr (h s'))"
  shows "fold_packet body is s = Some (Inr s') \<Longrightarrow> fold_packet body' is (h s) = Some (Inr (h s'))"
  by (induction "is" arbitrary: s) (auto simp: pk_bind_def assms split: option.splits sum.splits)

lemma for_items_sim:
  assumes "\<And>i s s'. body i s = Some (Inr s') \<Longrightarrow> body' i (h s) = Some (Inr (h s'))" and "for_items nx body it s = Some (Inr s')"
  shows "for_items nx body' it (h s) = Some (Inr (h s'))"
proof -
  obtain "is" where l: "item_list nx it is" using for_items_list [OF assms(2)] by blast
  show ?thesis using fold_packet_sim [of body body' h, OF assms(1)] assms(2) unfolding item_list_fold [OF l] by blast
qed

lemma pk_bind_Inr: "pk_bind r f = Some (Inr y) \<longleftrightarrow> (\<exists>x. r = Some (Inr x) \<and> f x = Some (Inr y))"
  by (auto simp: pk_bind_def split: option.splits sum.splits)

lemma id_member_scan: "id_member oc m i = Some (Inr i') \<Longrightarrow> ids_member oc m (id_id i) = Some (Inr (id_id i'))"
  by (auto simp: id_member_def ids_member_def pk_bind_Inr split: if_splits)

lemma id_item_scan: "id_item oc e ids = Some (Inr ids') \<Longrightarrow> ids_item oc e (map unsequenced ids) = Some (Inr (map unsequenced ids'))"
  using for_items_sim [where h = id_id and body = "id_member oc" and body' = "ids_member oc", OF id_member_scan]
  by (fastforce simp: id_item_def ids_item_def pk_bind_Inr scratch_push_def EMPTY_ID_def unsequenced_def split: if_splits Option.bind_splits)

lemma ids_first_snoc: "ids_first (fs @ [f]) \<Longrightarrow> ids_first fs"
  by (cases "filter (\<lambda>(k, t). k = str ''id'' \<or> k = str ''seq'') fs") (auto simp: ids_first_def simp del: str_simps split: if_splits prod.splits)

lemma packet_field_names: "str ''id'' \<noteq> str ''seq''" "str ''from'' \<noteq> str ''id''" "str ''from'' \<noteq> str ''seq''"
  by code_simp+

definition id_fields :: "(bytes \<times> frame_type) list \<Rightarrow> (bytes \<times> frame_type) list" where
  "id_fields fs = filter (\<lambda>(k, t). k = str ''id'' \<or> k = str ''seq'') fs"

text \<open>One field in a message that puts its ids first.\<close>

lemma common_field_scan:
  assumes "common_field oc e d = Some (Inr d')" and "ids_first (fs @ [(mi_key e, mi_type e)])"
    and "id_fields fs = [] \<Longrightarrow> cd_ids d = []" and "\<And>t rest. id_fields fs = (str ''id'', FString) # rest \<Longrightarrow> length (cd_ids d) = 1"
  shows "ids_field oc e (cd_from d, map unsequenced (cd_ids d)) = Some (Inr (cd_from d', map unsequenced (cd_ids d')))
    \<and> (id_fields (fs @ [(mi_key e, mi_type e)]) = [] \<longrightarrow> cd_ids d' = [])
    \<and> (\<forall>rest. id_fields (fs @ [(mi_key e, mi_type e)]) = (str ''id'', FString) # rest \<longrightarrow> length (cd_ids d') = 1)"
proof -
  have f: "ids_first (fs @ [(mi_key e, mi_type e)]) \<longleftrightarrow>
     (case id_fields (fs @ [(mi_key e, mi_type e)]) of [] \<Rightarrow> True
      | (k, t) # rest \<Rightarrow> k = str ''id'' \<and> (\<forall>(k', t') \<in> set rest. k' = str ''seq'' \<and> t = FString))" by (simp add: ids_first_def id_fields_def)
  consider (sender) "mi_key e = str ''from''" | (id) "mi_key e = str ''id''" | (seq) "mi_key e = str ''seq''"
    | (other) "mi_key e \<notin> {str ''from'', str ''id'', str ''seq''}" by blast
  then show ?thesis
  proof cases
    case sender
    then have "id_fields (fs @ [(mi_key e, mi_type e)]) = id_fields fs" by (simp add: id_fields_def packet_field_names del: str_simps)
    then show ?thesis using sender assms(1,3,4) packet_field_names by (auto simp: common_field_def ids_field_def pk_bind_Inr set_to_def simp del: str_simps)
  next
    case id
    then have "id_fields (fs @ [(mi_key e, mi_type e)]) = id_fields fs @ [(str ''id'', mi_type e)]" by (simp add: id_fields_def del: str_simps)
    then have "id_fields fs = []" using assms(2) packet_field_names(1) unfolding f by (cases "id_fields fs") (auto simp del: str_simps)
    then have ids: "cd_ids d = []" "id_fields (fs @ [(mi_key e, mi_type e)]) = [(str ''id'', mi_type e)]"
      using assms(3) id by (simp_all add: id_fields_def del: str_simps)
    show ?thesis
    proof (cases "mi_type e")
      case FArray
      then obtain it where it: "tnet_result (parse_array oc (mi_data e)) = Some (Inr it)" "for_items (seq_next oc) (id_item oc) it [] = Some (Inr (cd_ids d'))" "cd_from d' = cd_from d"
        using assms(1) id ids(1) packet_field_names by (auto simp: common_field_def pk_bind_Inr simp del: str_simps)
      have "for_items (seq_next oc) (ids_item oc) it [] = Some (Inr (map unsequenced (cd_ids d')))"
        using for_items_sim [of "id_item oc" "ids_item oc" "map unsequenced", OF id_item_scan it(2)] by simp
      then show ?thesis using FArray it id ids packet_field_names by (simp add: ids_field_def pk_bind_def set_to_def del: str_simps)
    next
      case FString
      then show ?thesis using assms(1) id ids packet_field_names
        by (auto simp: common_field_def ids_field_def pk_bind_Inr with_first_def scratch_push_def index_at_def IDS_MAX_def EMPTY_ID_def unsequenced_def simp del: str_simps)
    qed (use assms(1) id packet_field_names in \<open>auto simp: common_field_def simp del: str_simps\<close>)
  next
    case seq
    then have g: "id_fields (fs @ [(mi_key e, mi_type e)]) = id_fields fs @ [(str ''seq'', mi_type e)]" by (simp add: id_fields_def del: str_simps)
    then obtain rest where rest: "id_fields fs = (str ''id'', FString) # rest"
      using assms(2) packet_field_names(1) unfolding f by (cases "id_fields fs") (auto simp del: str_simps)
    then obtain i where i: "cd_ids d = [i]" using assms(4) [OF rest] by (auto simp: length_Suc_conv)
    show ?thesis using assms(1) seq packet_field_names g rest i
      by (auto simp: common_field_def ids_field_def pk_bind_Inr with_first_def index_at_def unsequenced_def simp del: str_simps)
  next
    case other
    then have "id_fields (fs @ [(mi_key e, mi_type e)]) = id_fields fs" by (simp add: id_fields_def del: str_simps)
    then show ?thesis using other assms(1,3,4)
      by (auto simp: common_field_def ids_field_def pk_bind_Inr simp del: str_simps split: if_splits)
  qed
qed

lemma common_fold_scan:
  assumes "fold_packet (common_field oc) is \<lparr>cd_from = [], cd_ids = [], cd_multi = False, cd_ptype_str = []\<rparr> = Some (Inr d)"
    and "ids_first (map (\<lambda>e. (mi_key e, mi_type e)) is)"
  shows "fold_packet (ids_field oc) is ([], []) = Some (Inr (cd_from d, map unsequenced (cd_ids d)))
    \<and> (id_fields (map (\<lambda>e. (mi_key e, mi_type e)) is) = [] \<longrightarrow> cd_ids d = [])
    \<and> (\<forall>rest. id_fields (map (\<lambda>e. (mi_key e, mi_type e)) is) = (str ''id'', FString) # rest \<longrightarrow> length (cd_ids d) = 1)"
  using assms
proof (induction "is" arbitrary: d rule: rev_induct)
  case Nil
  then show ?case by (auto simp: id_fields_def)
next
  case (snoc e "is")
  obtain d0 where d0: "fold_packet (common_field oc) is \<lparr>cd_from = [], cd_ids = [], cd_multi = False, cd_ptype_str = []\<rparr> = Some (Inr d0)" "common_field oc e d0 = Some (Inr d)"
    using snoc.prems(1) by (auto simp: fold_packet_append pk_bind_Inr)
  have first: "ids_first (map (\<lambda>e. (mi_key e, mi_type e)) is @ [(mi_key e, mi_type e)])" using snoc.prems(2) by simp
  note ih = snoc.IH [OF d0(1) ids_first_snoc [OF first]]
  show ?case using common_field_scan [OF d0(2) first] ih by (simp add: fold_packet_append pk_bind_def del: str_simps)
qed

lemma collect_fields: "fold_packet (\<lambda>e fs. Some (Inr (fs @ [(mi_key e, mi_type e)]))) is fs = Some (Inr (fs @ map (\<lambda>e. (mi_key e, mi_type e)) is))"
  by (induction "is" arbitrary: fs) (simp_all add: pk_bind_def)

lemma unsequenced_eq: "unsequenced = id_seq_update (\<lambda>_. None)"
  by (rule ext) (simp add: unsequenced_def)

lemma parse_ids_scan:
  assumes "packet_parse body oc src [] headers = Some (Inr p)" and "packet_fields oc src = Some (Inr fs)" and "ids_first fs"
  shows "parse_ids oc src [] = Some (Inr (zp_from p, map unsequenced (zp_ids p)))"
proof -
  obtain root d where root: "parse_root oc src = Some (Inr root)" "common_parse oc root [] = Some (Inr d)" "zp_from p = cd_from d" "zp_ids p = cd_ids d"
    using assms(1) by (auto simp: packet_parse_def pk_bind_Inr set_to_def)
  let ?d0 = "\<lparr>cd_from = [], cd_ids = [], cd_multi = False, cd_ptype_str = []\<rparr>"
  have loop: "for_items (map_next oc) (common_field oc) root ?d0 = Some (Inr d)" using root(2) by (simp add: common_parse_def)
  obtain "is" where l: "item_list (map_next oc) root is" using for_items_list [OF loop] by blast
  have "fs = map (\<lambda>e. (mi_key e, mi_type e)) is"
    using assms(2) root(1) by (simp add: packet_fields_def pk_bind_def item_list_fold [OF l] collect_fields)
  then show ?thesis using common_fold_scan [OF loop [unfolded item_list_fold [OF l]]] assms(3) root
    by (simp add: parse_ids_def pk_bind_def item_list_fold [OF l] del: str_simps)
qed

lemma packet_parse_encoded:
  assumes fits: "fits fmt (TMap (common_entries (common_of t p) @ es))"
    and keys: "\<And>k v. (k, v) \<in> set es \<Longrightarrow> k \<notin> common_keys \<and> utf8_valid k" and ok: "common_ok (common_of t p)"
    and body: "body oc t (iter_new (payload fmt (TMap (common_entries (common_of t p) @ es)))) [] = Some (Inr q)"
  shows "packet_parse body oc (84 # tnet_encode fmt (TMap (common_entries (common_of t p) @ es))) [] []
    = Some (Inr (p\<lparr>zp_ptype := q, zp_ptype_str := t\<rparr>))"
proof -
  have f: "cd_from (common_of t p) = zp_from p" "cd_ids (common_of t p) = zp_ids p" "cd_multi (common_of t p) = zp_multi p"
    "cd_ptype_str (common_of t p) = t" by (simp_all add: common_of_def)
  have c: "common_parse oc (iter_new (payload fmt (TMap (common_entries (common_of t p) @ es)))) [] = Some (Inr (common_of t p))"
    using keys by (rule loop_common [OF fits _ ok])
  show ?thesis
    unfolding packet_parse_def parse_root_encoded [OF fits] pk_bind_simps c f body set_to_simps by simp
qed

lemma written_parses:
  assumes "ser = Some (Inr (length e + 1), 84 # e @ drop (length e) (tl dest))" and "length e < length dest" and "P (84 # e)"
  shows "\<exists>n dest'. ser = Some (Inr n, dest') \<and> n \<le> length dest' \<and> length dest' = length dest \<and> P (take n dest')"
  using assms by (cases dest) auto

lemma fits_dest: "length (tnet_encode fmt v) < length dest \<Longrightarrow> length dest < 2 ^ 63 \<Longrightarrow> fits fmt v"
  by (simp add: fits_def)

lemma utf8_valid_Nil [simp]: "utf8_valid []"
  by (rule utf8_valid_ascii) simp

lemma type_utf8: "request_type p = Some t \<Longrightarrow> utf8_valid t" "response_type q = Some t \<Longrightarrow> utf8_valid t"
  by (cases p; auto) (cases q; auto)

lemma response_written:
  fixes fmt :: "'f \<Rightarrow> bytes"
  assumes "response_packet_ok (zp_ptype p)" and "length (zp_ids p) \<le> IDS_MAX" and "length (ops_of (response_tnet p :: 'f tnet)) \<le> OPS_MAX"
    and "length (tnet_encode fmt (response_tnet p)) < length dest" and "length dest < 2 ^ 63"
  obtains t where "response_type (zp_ptype p) = Some t" and "common_ok (common_of t p)"
    and "response_tnet p = (TMap (common_entries (common_of t p) @ response_entries (zp_ptype p)) :: 'f tnet)"
    and "fits fmt (TMap (common_entries (common_of t p) @ response_entries (zp_ptype p)))"
    and "response_serialize oc fmt p dest = Some (Inr (length (tnet_encode fmt (response_tnet p)) + 1),
      84 # tnet_encode fmt (response_tnet p) @ drop (length (tnet_encode fmt (response_tnet p))) (tl dest))"
proof -
  obtain t where t: "response_type (zp_ptype p) = Some t" using assms(1) by (cases "zp_ptype p") auto
  let ?v = "TMap (common_entries (common_of t p) @ response_entries (zp_ptype p)) :: 'f tnet"
  have v: "response_tnet p = ?v" by (simp add: response_tnet_def t)
  have "fits fmt ?v" using fits_dest [OF assms(4,5)] unfolding v .
  moreover have "response_serialize oc fmt p dest
      = Some (Inr (length (tnet_encode fmt ?v) + 1), 84 # tnet_encode fmt ?v @ drop (length (tnet_encode fmt ?v)) (tl dest))"
    unfolding response_serialize_def
    by (rule packet_serialize_encodes [of response_type p t response_body_serialize, OF t writes_response_body refl])
      (use packet_tnet_ok(2) [of fmt p] assms(3,4) in \<open>simp_all only: v\<close>)
  moreover have "common_ok (common_of t p)" using assms(2) type_utf8(2) [OF t] by (simp add: common_ok_def common_of_def)
  ultimately show ?thesis using that [OF t _ v] v by simp
qed

lemma request_reads_back:
  fixes fmt :: "'f \<Rightarrow> bytes"
  assumes "request_packet_ok (zp_ptype p)" and "length (zp_ids p) \<le> IDS_MAX" and "length (ops_of (request_tnet p :: 'f tnet)) \<le> OPS_MAX"
    and "length (tnet_encode fmt (request_tnet p)) < length dest" and "length dest < 2 ^ 63"
  shows "\<exists>n dest'. request_serialize oc fmt p dest = Some (Inr n, dest') \<and> n \<le> length dest' \<and> length dest' = length dest
    \<and> (\<forall>oc'. request_parse oc' (take n dest') [] []
      = Some (Inr (p\<lparr>zp_ptype := request_packet_sent (zp_ptype p), zp_ptype_str := the (request_type (zp_ptype p))\<rparr>)))"
proof -
  obtain t where t: "request_type (zp_ptype p) = Some t" using assms(1) by (cases "zp_ptype p") auto
  let ?d = "common_of t p" and ?es = "request_entries (zp_ptype p)"
  let ?v = "TMap (common_entries ?d @ ?es) :: 'f tnet"
  have v: "request_tnet p = ?v" by (simp add: request_tnet_def t)
  have fits: "fits fmt ?v" using fits_dest [OF assms(4,5)] unfolding v .
  have ser: "request_serialize oc fmt p dest
      = Some (Inr (length (tnet_encode fmt ?v) + 1), 84 # tnet_encode fmt ?v @ drop (length (tnet_encode fmt ?v)) (tl dest))"
    unfolding request_serialize_def
    by (rule packet_serialize_encodes [of request_type p t request_body_serialize, OF t writes_request_body refl])
      (use packet_tnet_ok(1) [of fmt p] assms(3,4) in \<open>simp_all only: v\<close>)
  have "common_ok ?d" using assms(2) type_utf8(1) [OF t] by (simp add: common_ok_def common_of_def)
  then have "request_parse oc' (84 # tnet_encode fmt ?v) [] [] = Some (Inr (p\<lparr>zp_ptype := request_packet_sent (zp_ptype p), zp_ptype_str := t\<rparr>))" for oc'
    using body_entries_keys(1) request_body_roundtrip [OF fits assms(1), of oc'] t
    unfolding request_parse_def by (intro packet_parse_encoded [OF fits]) (simp_all del: payload.simps)
  then show ?thesis using assms(4) unfolding v t option.sel by (intro written_parses [OF ser]) simp_all
qed

lemma response_parse_written:
  fixes fmt :: "'f \<Rightarrow> bytes" and dest :: bytes
  assumes "response_packet_ok (zp_ptype p)" and "length (zp_ids p) \<le> IDS_MAX" and "length (ops_of (response_tnet p :: 'f tnet)) \<le> OPS_MAX"
    and "length (tnet_encode fmt (response_tnet p)) < length dest" and "length dest < 2 ^ 63"
  shows "response_parse oc (84 # tnet_encode fmt (response_tnet p)) [] []
      = Some (Inr (p\<lparr>zp_ptype := response_packet_sent (zp_ptype p), zp_ptype_str := the (response_type (zp_ptype p))\<rparr>))"
proof -
  obtain t where t: "response_type (zp_ptype p) = Some t" "common_ok (common_of t p)"
    "response_tnet p = (TMap (common_entries (common_of t p) @ response_entries (zp_ptype p)) :: 'f tnet)"
    "fits fmt (TMap (common_entries (common_of t p) @ response_entries (zp_ptype p)))"
    by (rule response_written [OF assms, of oc])
  then show ?thesis
    using body_entries_keys(2) response_body_roundtrip [OF t(4) assms(1), of oc]
    unfolding response_parse_def t(1,3) option.sel by (intro packet_parse_encoded [OF t(4)]) (simp_all del: payload.simps)
qed

lemma response_reads_back:
  fixes fmt :: "'f \<Rightarrow> bytes"
  assumes "response_packet_ok (zp_ptype p)" and "length (zp_ids p) \<le> IDS_MAX" and "length (ops_of (response_tnet p :: 'f tnet)) \<le> OPS_MAX"
    and "length (tnet_encode fmt (response_tnet p)) < length dest" and "length dest < 2 ^ 63"
  shows "\<exists>n dest'. response_serialize oc fmt p dest = Some (Inr n, dest') \<and> n \<le> length dest' \<and> length dest' = length dest
    \<and> (\<forall>oc'. response_parse oc' (take n dest') [] []
      = Some (Inr (p\<lparr>zp_ptype := response_packet_sent (zp_ptype p), zp_ptype_str := the (response_type (zp_ptype p))\<rparr>)))"
proof -
  have ser: "response_serialize oc fmt p dest = Some (Inr (length (tnet_encode fmt (response_tnet p)) + 1),
      84 # tnet_encode fmt (response_tnet p) @ drop (length (tnet_encode fmt (response_tnet p))) (tl dest))"
    by (rule response_written [OF assms, of oc])
  then show ?thesis using assms(4) response_parse_written [OF assms] by (intro written_parses [OF ser]) simp_all
qed

text \<open>What the serializers write has its ids first.\<close>

lemma written_ids_first:
  assumes fits: "fits fmt (TMap (common_entries d @ es))" and keys: "\<And>k v. (k, v) \<in> set es \<Longrightarrow> k \<notin> common_keys \<and> utf8_valid k"
  shows "\<exists>fs. packet_fields oc (84 # tnet_encode fmt (TMap (common_entries d @ es))) = Some (Inr fs) \<and> ids_first fs"
proof -
  have "utf8_valid k" if "k \<in> common_keys" for k using that by (auto simp: common_keys_def)
  then have k: "\<forall>(k, v) \<in> set (common_entries d @ es). utf8_valid k" using keys common_entries_keys by fastforce
  let ?fs = "map (\<lambda>(k, v). (k, tnet_type v)) (common_entries d @ es)"
  have "packet_fields oc (84 # tnet_encode fmt (TMap (common_entries d @ es))) = Some (Inr ?fs)"
    using for_encoded_map [OF fits k, of oc "\<lambda>e fs. Some (Inr (fs @ [(mi_key e, mi_type e)]))"]
    by (simp add: packet_fields_def parse_root_encoded fits collect_fields encoded_item_def case_prod_beta comp_def del: payload.simps map_append)
  moreover have "filter (\<lambda>(k, t). k = str ''id'' \<or> k = str ''seq'') (map (\<lambda>(k, v). (k, tnet_type v)) es) = []"
    using keys by (fastforce simp: filter_empty_conv common_keys_def simp del: str_simps)
  then have "ids_first ?fs"
    by (auto simp: ids_first_def common_entries_def entry_if_def seq_entry_def packet_field_names split: list.split option.split)
  ultimately show ?thesis by blast
qed

text \<open>
  Property C5. A request packet with at most 128 ids that the writer and the destination can hold is
  serialized without a panic, and parsing the written bytes gives the packet back: every id with its
  sequence number, the multi flag, the type, and all data of the type. Exceptions are the fields that the
  serializer never writes, which arrive as defaults (\<open>request_packet_sent\<close>).
\<close>

theorem request_roundtrip:
  fixes fmt :: "'f \<Rightarrow> bytes"
  assumes "request_packet_ok (zp_ptype p)" and "length (zp_ids p) \<le> IDS_MAX" and "length (ops_of (request_tnet p :: 'f tnet)) \<le> OPS_MAX"
    and "length (tnet_encode fmt (request_tnet p)) < length dest" and "length dest < 2 ^ 63"
  shows "\<exists>n dest'. request_serialize oc fmt p dest = Some (Inr n, dest') \<and> n \<le> length dest' \<and> length dest' = length dest
    \<and> request_parse oc' (take n dest') [] []
      = Some (Inr (p\<lparr>zp_ptype := request_packet_sent (zp_ptype p), zp_ptype_str := the (request_type (zp_ptype p))\<rparr>))"
  using request_reads_back [OF assms, of oc] by blast


text \<open>
  Property C8. \<open>parse_ids\<close>, by which the socket code routes a message without parsing it, finds in every message the sender and the
  ids that the full parser finds, in order and without the sequence numbers: for any bytes that the full parser of responses, or
  of requests, accepts, provided that the message has at most one \<open>id\<close> field and a \<open>seq\<close> field only after an \<open>id\<close> that is
  a string, as in everything that the serializers write.
\<close>

theorem parse_ids_agrees:
  assumes "packet_fields oc src = Some (Inr fs)" and "ids_first fs"
  shows "(response_parse oc src [] [] = Some (Inr p) \<longrightarrow> parse_ids oc src [] = Some (Inr (zp_from p, map (id_seq_update (\<lambda>_. None)) (zp_ids p))))
    \<and> (request_parse oc src [] [] = Some (Inr q) \<longrightarrow> parse_ids oc src [] = Some (Inr (zp_from q, map (id_seq_update (\<lambda>_. None)) (zp_ids q))))"
  using parse_ids_scan [OF _ assms, of response_body_parse "[]" p] parse_ids_scan [OF _ assms, of request_body_parse "[]" q]
  unfolding response_parse_def request_parse_def unsequenced_eq [symmetric] by blast

definition sample_request :: request where
  "sample_request = request_new_data (str ''client'') [\<lparr>id_id = str ''1'', id_seq = Some 0\<rparr>]
     (request_data_new\<lparr>rq_method := str ''GET'', rq_uri := str ''/'', rq_headers := [\<lparr>ph_name = str ''Host'', ph_value = str ''a''\<rparr>],
        rq_stream := True, rq_credits := 100\<rparr>)"

definition sample_response :: response where
  "sample_response = response_new_error (str ''server'')
     [\<lparr>id_id = str ''1'', id_seq = Some 0\<rparr>, \<lparr>id_id = str ''2'', id_seq = None\<rparr>]
     \<lparr>re_condition = str ''rejected'', re_rejected_info = Some \<lparr>ri_code = 404, ri_reason = str ''No'', ri_headers = [], ri_body = [255]\<rparr>\<rparr>"

lemmas encode_eval = tnet_encode_def frame_bytes_def dec_digits.simps dec_of_int_def bool_bytes_def

lemma sample_request_tnet:
  "request_tnet sample_request = TMap [(str ''from'', TString (str ''client'')), (str ''id'', TString (str ''1'')), (str ''seq'', TInt 0),
     (str ''method'', TString (str ''GET'')), (str ''uri'', TString (str ''/'')),
     (str ''headers'', TArray [TArray [TString (str ''Host''), TString (str ''a'')]]),
     (str ''credits'', TInt 100), (str ''stream'', TBool True)]"
  by (simp add: sample_request_def request_tnet_def common_of_def request_new_data_def packet_new_def common_entries_def entry_if_def
      seq_entry_def request_data_entries_def headers_entry_def header_tnet_def content_type_entry_def request_data_new_def)

lemma sample_response_tnet:
  "response_tnet sample_response = TMap [(str ''from'', TString (str ''server'')),
     (str ''id'', TArray [TMap [(str ''id'', TString (str ''1'')), (str ''seq'', TInt 0)], TMap [(str ''id'', TString (str ''2''))]]),
     (str ''type'', TString (str ''error'')), (str ''condition'', TString (str ''rejected'')), (str ''code'', TInt 404),
     (str ''reason'', TString (str ''No'')), (str ''body'', TString [255])]"
  by (simp add: sample_response_def response_tnet_def common_of_def response_new_error_def packet_new_def common_entries_def entry_if_def
      seq_entry_def id_tnet_def response_error_entries_def headers_entry_def)

lemma sample_response_fits:
  "length (ops_of (response_tnet sample_response :: unit tnet)) \<le> OPS_MAX"
  "length (tnet_encode (\<lambda>_. []) (response_tnet sample_response :: unit tnet)) < length (replicate 300 0 :: bytes)"
  "response_packet_ok (zp_ptype sample_response)" "length (zp_ids sample_response) \<le> IDS_MAX"
proof -
  show "length (ops_of (response_tnet sample_response :: unit tnet)) \<le> OPS_MAX" by (simp add: sample_response_tnet OPS_MAX_def)
  show "length (tnet_encode (\<lambda>_. []) (response_tnet sample_response :: unit tnet)) < length (replicate 300 0 :: bytes)"
    unfolding sample_response_tnet by (simp add: encode_eval)
qed (simp_all add: sample_response_def response_new_error_def packet_new_def response_error_ok_def headers_ok_def IDS_MAX_def HEADERS_MAX_def)

theorem request_roundtrip_witness:
  "\<exists>n dest'. request_serialize True (\<lambda>_::unit. []) sample_request (replicate 300 0) = Some (Inr n, dest')
    \<and> request_parse False (take n dest') [] [] = Some (Inr sample_request)"
proof -
  have ops: "length (ops_of (request_tnet sample_request :: unit tnet)) \<le> OPS_MAX" by (simp add: sample_request_tnet OPS_MAX_def)
  have len: "length (tnet_encode (\<lambda>_. []) (request_tnet sample_request :: unit tnet)) < length (replicate 300 0 :: bytes)"
    unfolding sample_request_tnet by (simp add: encode_eval)
  have ok: "request_packet_ok (zp_ptype sample_request)" "length (zp_ids sample_request) \<le> IDS_MAX"
    by (simp_all add: sample_request_def request_new_data_def packet_new_def request_data_ok_def headers_ok_def request_data_new_def IDS_MAX_def HEADERS_MAX_def)
  have "sample_request\<lparr>zp_ptype := request_packet_sent (zp_ptype sample_request), zp_ptype_str := the (request_type (zp_ptype sample_request))\<rparr> = sample_request"
    by (simp add: sample_request_def request_new_data_def packet_new_def request_data_sent_def request_data_new_def)
  then show ?thesis using request_roundtrip [OF ok ops len, of True False] by auto
qed


theorem parse_ids_agrees_witness:
  "\<exists>src p. response_parse True src [] [] = Some (Inr p) \<and> zp_from p = str ''server''
    \<and> parse_ids True src [] = Some (Inr (str ''server'', [\<lparr>id_id = str ''1'', id_seq = None\<rparr>, \<lparr>id_id = str ''2'', id_seq = None\<rparr>]))"
proof -
  obtain t where t: "response_tnet sample_response = (TMap (common_entries (common_of t sample_response) @ response_entries (zp_ptype sample_response)) :: unit tnet)"
    "fits (\<lambda>_. []) (TMap (common_entries (common_of t sample_response) @ response_entries (zp_ptype sample_response)) :: unit tnet)"
    using response_written [OF sample_response_fits(3,4,1,2), of True] by auto
  let ?src = "84 # tnet_encode (\<lambda>_ :: unit. []) (response_tnet sample_response)"
  obtain fs where fs: "packet_fields True ?src = Some (Inr fs)" "ids_first fs" using written_ids_first [OF t(2), where oc = True] body_entries_keys(2) unfolding t(1) by blast
  obtain p where p: "response_parse True ?src [] [] = Some (Inr p)" "zp_from p = zp_from sample_response" "zp_ids p = zp_ids sample_response"
    using response_parse_written [OF sample_response_fits(3,4,1,2), of True] by auto
  show ?thesis using parse_ids_agrees [OF fs, of p] p
    by (intro exI [of _ ?src] exI [of _ p]) (simp add: sample_response_def response_new_error_def packet_new_def)
qed

end
