(* ===== verification/ZhttpTotal.thy ===== *)
theory ZhttpTotal
  imports ZhttpRoundtrip
begin

text \<open>
  What the packet parsers do with arbitrary bytes: the loops end, nothing panics unless the size of some
  tnetstring overflows, and what is accepted is well-formed. The iterators are used through a locale
  that states what a loop may rely on.
\<close>

section \<open>Inputs without overflowing sizes\<close>

definition size_safe :: "bool \<Rightarrow> bytes \<Rightarrow> bool" where
  "size_safe oc src \<longleftrightarrow> length src < 2 ^ 63 \<and> (\<forall>i. \<not> size_panics oc (drop i src))"

lemma find_colon_take: "find_colon i (take j s) = Inr k \<Longrightarrow> find_colon i s = Inr k \<and> k < i + j"
proof (induction i s arbitrary: j rule: find_colon.induct)
  case (2 i c cs)
  then show ?case by (cases j) (auto split: if_splits)
qed simp

lemma size_panics_take: "size_panics oc (take j s) \<Longrightarrow> size_panics oc s"
proof -
  assume a: "size_panics oc (take j s)"
  then obtain k where k: "find_colon 0 (take j s) = Inr k" by (auto simp: size_panics_def split: sum.splits)
  then have "find_colon 0 s = Inr k" "take k (take j s) = take k s" using find_colon_take [of 0 j s k] by (simp_all add: min_def)
  then show ?thesis using a k by (simp add: size_panics_def)
qed

lemma size_safe_slice: "size_safe oc src \<Longrightarrow> size_safe oc (take j (drop i src))"
  unfolding size_safe_def drop_take drop_drop by (auto dest: size_panics_take)

lemma size_safe_drop: "size_safe oc src \<Longrightarrow> size_safe oc (drop i src)"
  using size_safe_slice [of oc src "length src" i] by simp

lemma parse_frame_safe:
  assumes "size_safe oc src"
  obtains (error) e where "parse_frame oc src = Some (Inl e)"
  | (frame) f e where "parse_frame oc src = Some (Inr (f, e))" and "0 < e" and "e \<le> length src" and "size_safe oc (fr_data f)"
proof -
  have len: "length src < 2 ^ 63" and no: "\<not> size_panics oc src" using assms by (simp_all add: size_safe_def, metis drop0)
  then obtain r where r: "parse_frame oc src = Some r" using parse_frame_panic_iff [OF len, of oc] by auto
  show ?thesis
  proof (cases r)
    case (Inr fe)
    obtain f e where fe: "fe = (f, e)" by force
    have p: "parse_frame oc src = Some (Inr (f, e))" using r Inr fe by simp
    obtain ds rest where s: "src = ds @ 58 # fr_data f @ type_byte (fr_type f) # rest" using parse_frame_InrD [OF p len] by blast
    have "fr_data f = take (length (fr_data f)) (drop (length ds + 1) src)" unfolding s by simp
    then have "size_safe oc (fr_data f)" using size_safe_slice [OF assms] by metis
    then show ?thesis using parse_frame_reparse [OF p len] p frame by blast
  qed (use r error in simp)
qed

lemma safe_add: "size_safe oc src \<Longrightarrow> n \<le> length src \<Longrightarrow> n \<le> usize_max"
  by (simp add: size_safe_def usize_max_def)

definition iter_safe :: "bool \<Rightarrow> iter \<Rightarrow> bool" where
  "iter_safe oc it \<longleftrightarrow> size_safe oc (it_src it) \<and> it_pos it \<le> length (it_src it)"

definition iter_left :: "iter \<Rightarrow> nat" where
  "iter_left it = length (it_src it) - it_pos it"

section \<open>The iterators as an interface\<close>

text \<open>
  What a loop over an iterator relies on: a call of \<open>next\<close> on a good iterator returns, leaves a good
  iterator, and when it yields an item there is less left to read and the item is safe to parse further.
\<close>

locale safe_iterator =
  fixes nx :: "iter \<Rightarrow> ((parse_error + 'i) option \<times> iter) run"
    and good :: "iter \<Rightarrow> bool"
    and left :: "iter \<Rightarrow> nat"
    and item_safe :: "'i \<Rightarrow> bool"
  assumes next_returns: "good it \<Longrightarrow> \<exists>item it'. nx it = Some (item, it') \<and> good it'
      \<and> (\<forall>i. item = Some (Inr i) \<longrightarrow> left it' < left it \<and> item_safe i)"
begin

lemma loop_returns:
  assumes body: "\<And>i s. item_safe i \<Longrightarrow> P s \<Longrightarrow> \<exists>r. body i s = Some r \<and> (\<forall>s'. r = Inr s' \<longrightarrow> P s')"
  shows "good it \<Longrightarrow> P s \<Longrightarrow> \<exists>r. for_items nx body it s = Some r \<and> (\<forall>s'. r = Inr s' \<longrightarrow> P s')"
proof (induction "left it" arbitrary: it s rule: less_induct)
  case less
  obtain item it' where n: "nx it = Some (item, it')" "good it'" "\<And>i. item = Some (Inr i) \<Longrightarrow> left it' < left it \<and> item_safe i"
    using next_returns [OF less.prems(1)] by blast
  show ?case
  proof (cases item)
    case None
    then show ?thesis using n(1) less.prems(2) by (simp add: for_items_end)
  next
    case (Some ei)
    show ?thesis
    proof (cases ei)
      case (Inl e)
      then show ?thesis using n(1) Some by (subst for_items.simps) simp
    next
      case (Inr i)
      obtain r where r: "body i s = Some r" "\<And>s'. r = Inr s' \<Longrightarrow> P s'" using body [of i s] n(3) Some Inr less.prems(2) by blast
      have "for_items nx body it s = pk_bind (Some r) (for_items nx body it')"
        using n(1) Some Inr r(1) by (simp add: for_items_step)
      then show ?thesis using r(2) less.hyps [of it'] n(2,3) Some Inr by (cases r) auto
    qed
  qed
qed

end

lemma iter_end_safe: "iter_safe oc it \<Longrightarrow> iter_safe oc (iter_end it)"
  by (simp add: iter_safe_def iter_end_def)

interpretation seq_iter: safe_iterator "seq_next oc" "iter_safe oc" iter_left "\<lambda>i. size_safe oc (si_data i)" for oc
proof
  fix it
  assume it: "iter_safe oc it"
  let ?s = "it_src it" and ?p = "it_pos it"
  show "\<exists>item it'. seq_next oc it = Some (item, it') \<and> iter_safe oc it'
      \<and> (\<forall>i. item = Some (Inr i) \<longrightarrow> iter_left it' < iter_left it \<and> size_safe oc (si_data i))"
  proof (cases "?p < length ?s")
    case False
    then show ?thesis using it by (simp add: seq_next_def)
  next
    case True
    have "size_safe oc (drop ?p ?s)" using it by (simp add: iter_safe_def size_safe_drop)
    then show ?thesis
    proof (cases rule: parse_frame_safe)
      case (error e)
      then show ?thesis using True iter_end_safe [OF it] by (simp add: seq_next_def)
    next
      case (frame f e)
      then have "usize_add oc ?p e = Some (?p + e)" "?p + e \<le> length ?s" using it True safe_add [of oc ?s "?p + e"] by (auto simp: iter_safe_def)
      then show ?thesis using frame True it size_safe_slice [of oc ?s e ?p] by (simp add: seq_next_def iter_safe_def iter_left_def)
    qed
  qed
qed

interpretation map_iter: safe_iterator "map_next oc" "iter_safe oc" iter_left "\<lambda>i. size_safe oc (mi_data i) \<and> utf8_valid (mi_key i)" for oc
proof
  fix it
  assume it: "iter_safe oc it"
  let ?s = "it_src it" and ?p = "it_pos it"
  note ends = iter_end_safe [OF it]
  show "\<exists>item it'. map_next oc it = Some (item, it') \<and> iter_safe oc it'
      \<and> (\<forall>i. item = Some (Inr i) \<longrightarrow> iter_left it' < iter_left it \<and> size_safe oc (mi_data i) \<and> utf8_valid (mi_key i))"
  proof (cases "?p < length ?s")
    case False
    then show ?thesis using it by (simp add: map_next_def)
  next
    case True
    have "size_safe oc (drop ?p ?s)" using it by (simp add: iter_safe_def size_safe_drop)
    then show ?thesis
    proof (cases rule: parse_frame_safe)
      case (error e)
      then show ?thesis using True ends by (simp add: map_next_def)
    next
      case (frame k e)
      have a: "usize_add oc ?p e = Some (?p + e)" "?p + e \<le> length ?s" using frame it True safe_add [of oc ?s "?p + e"] by (auto simp: iter_safe_def)
      have "size_safe oc (drop (?p + e) ?s)" using it by (simp add: iter_safe_def size_safe_drop)
      then show ?thesis
      proof (cases rule: parse_frame_safe)
        case (error e')
        then show ?thesis using True a frame ends by (simp add: map_next_def)
      next
        case v: (frame f n)
        then have "usize_add oc (?p + e) n = Some (?p + e + n)" "?p + e + n \<le> length ?s"
          using it a safe_add [of oc ?s "?p + e + n"] by (auto simp: iter_safe_def)
        moreover have "length ?s - (?p + e + n) < length ?s - ?p" using True v(2) by linarith
        ultimately show ?thesis using frame v a True it ends size_safe_slice [of oc ?s n "?p + e"]
          by (simp add: map_next_def iter_safe_def iter_left_def)
      qed
    qed
  qed
qed

section \<open>Parsers that return\<close>

definition returns :: "('a \<Rightarrow> bool) \<Rightarrow> 'a packet \<Rightarrow> bool" where
  "returns P r \<longleftrightarrow> (\<exists>x. r = Some x \<and> (\<forall>v. x = Inr v \<longrightarrow> P v))"

named_theorems returns_intros

lemma returns_value [returns_intros]: "P x \<Longrightarrow> returns P (Some (Inr x))" "returns P (Some (Inl e))"
  by (simp_all add: returns_def)

lemma returns_bind: "returns P r \<Longrightarrow> (\<And>x. P x \<Longrightarrow> returns Q (f x)) \<Longrightarrow> returns Q (pk_bind r f)"
  by (auto simp: returns_def pk_bind_def split: sum.split)

lemma returns_set_to: "returns P r \<Longrightarrow> (\<And>x. P x \<Longrightarrow> Q (u x)) \<Longrightarrow> returns Q (set_to u r)"
  unfolding set_to_def by (erule returns_bind) (simp add: returns_value)

lemma returns_mono: "returns P r \<Longrightarrow> (\<And>x. P x \<Longrightarrow> Q x) \<Longrightarrow> returns Q r"
  by (auto simp: returns_def)

lemma returns_if: "(c \<Longrightarrow> returns P a) \<Longrightarrow> (\<not> c \<Longrightarrow> returns P b) \<Longrightarrow> returns P (if c then a else b)"
  by simp

lemma returns_field: "returns P (tnet_result r) \<Longrightarrow> returns P (field_of f r)"
  by (auto simp: returns_def tnet_result_def field_of_def split: option.splits sum.splits)

lemma iter_new_safe: "size_safe oc data \<Longrightarrow> iter_safe oc (iter_new data)"
  by (simp add: iter_safe_def iter_new_def)

text \<open>The typed parsers on safe input.\<close>

lemma typed_return:
  assumes "size_safe oc data"
  shows "returns (iter_safe oc) (tnet_result (parse_map oc data))" "returns (iter_safe oc) (tnet_result (parse_array oc data))"
    "returns (\<lambda>_. True) (tnet_result (parse_string oc data))" "returns (\<lambda>_. True) (tnet_result (parse_int oc data))"
    "returns (\<lambda>_. True) (tnet_result (parse_bool oc data))"
  using assms by (cases rule: parse_frame_safe; simp add: parse_map_def parse_array_def parse_string_def parse_int_def parse_bool_def
      and_then_def tnet_result_def returns_value iter_new_safe split: option.split)+

lemma fields_return [returns_intros]:
  assumes "size_safe oc data"
  shows "returns (\<lambda>_. True) (bytes_field oc f data)" "returns utf8_valid (str_field oc f data)"
    "returns (\<lambda>x. 0 \<le> x) (int_field oc f data)" "returns (\<lambda>_. True) (bool_field oc f data)"
proof -
  show b: "returns (\<lambda>_. True) (bytes_field oc f data)" unfolding bytes_field_def by (intro returns_field typed_return assms)
  show "returns (\<lambda>_. True) (bool_field oc f data)" unfolding bool_field_def by (intro returns_field typed_return assms)
  show "returns utf8_valid (str_field oc f data)" unfolding str_field_def
    by (rule returns_bind [OF b]) (simp add: utf8_field_def returns_def)
  show "returns (\<lambda>x. 0 \<le> x) (int_field oc f data)" unfolding int_field_def
    by (rule returns_bind [OF returns_field [OF typed_return(4) [OF assms]]]) (simp add: returns_def)
qed

lemma loops_return:
  "iter_safe oc it \<Longrightarrow> P s \<Longrightarrow> (\<And>i s. size_safe oc (mi_data i) \<Longrightarrow> P s \<Longrightarrow> returns P (body i s)) \<Longrightarrow> returns P (for_items (map_next oc) body it s)"
  "iter_safe oc it \<Longrightarrow> P s' \<Longrightarrow> (\<And>i s. size_safe oc (si_data i) \<Longrightarrow> P s \<Longrightarrow> returns P (body' i s)) \<Longrightarrow> returns P (for_items (seq_next oc) body' it s')"
  using map_iter.loop_returns [of oc P body it s] seq_iter.loop_returns [of oc P body' it s'] unfolding returns_def by blast+

lemma push_returns: "length xs < cap \<Longrightarrow> returns (\<lambda>ys. ys = xs @ [x]) (do { ys \<leftarrow> scratch_push cap xs x; Some (Inr ys) })"
  by (simp add: scratch_push_def returns_def)

section \<open>What the parsers accept\<close>

definition ids_ok :: "pkt_id list \<Rightarrow> bool" where
  "ids_ok ids \<longleftrightarrow> length ids \<le> IDS_MAX"

lemmas field_returns = returns_value fields_return [THEN returns_bind] fields_return [THEN returns_set_to]

lemma id_member_returns: "size_safe oc (mi_data m) \<Longrightarrow> returns (\<lambda>_. True) (id_member oc m i)"
  unfolding id_member_def by (intro returns_if field_returns) auto

lemma id_item_returns: "size_safe oc (si_data e) \<Longrightarrow> ids_ok ids \<Longrightarrow> returns ids_ok (id_item oc e ids)"
  unfolding id_item_def
proof (intro returns_if returns_bind [OF typed_return(1)] returns_value)
  fix it
  assume ids: "ids_ok ids" "length ids \<noteq> IDS_MAX" and it: "iter_safe oc it"
  have "returns (\<lambda>_. True) (for_items (map_next oc) (id_member oc) it EMPTY_ID)"
    by (rule loops_return(1) [OF it]) (simp_all add: id_member_returns)
  then show "returns ids_ok (pk_bind (for_items (map_next oc) (id_member oc) it EMPTY_ID) (\<lambda>i. do { ids \<leftarrow> scratch_push IDS_MAX ids i; Some (Inr ids) }))"
    by (rule returns_bind) (use ids in \<open>auto simp: scratch_push_def returns_def ids_ok_def\<close>)
qed

lemma with_first_returns: "ids_ok ids \<Longrightarrow> returns ids_ok (with_first f ids)"
  by (cases ids) (simp_all add: with_first_def scratch_push_def IDS_MAX_def returns_def ids_ok_def index_at_def)

lemma ext_member_returns: "size_safe oc (mi_data m) \<Longrightarrow> returns (\<lambda>_. True) (ext_member oc m b)"
  unfolding ext_member_def by (intro returns_if returns_intros) auto

lemma common_field_returns:
  assumes "size_safe oc (mi_data e)" and "common_ok d"
  shows "returns common_ok (common_field oc e d)"
proof -
  have arr: "returns common_ok (pk_bind (tnet_result (parse_array oc (mi_data e))) (\<lambda>it.
      pk_bind (for_items (seq_next oc) (id_item oc) it (cd_ids d)) (\<lambda>ids. Some (Inr (d\<lparr>cd_ids := ids\<rparr>)))))"
    by (rule returns_bind [OF typed_return(2) [OF assms(1)]], rule returns_bind [OF loops_return(2) [where P = ids_ok]])
      (use assms(2) id_item_returns in \<open>auto simp: ids_ok_def common_ok_def returns_value\<close>)
  have ext: "returns common_ok (pk_bind (field_of ''ext'' (parse_map oc (mi_data e))) (\<lambda>it.
          pk_bind (for_items (map_next oc) (ext_member oc) it (cd_multi d)) (\<lambda>b. Some (Inr (d\<lparr>cd_multi := b\<rparr>)))))"
    by (rule returns_bind [OF returns_field [OF typed_return(1) [OF assms(1)]]], rule returns_bind [OF loops_return(1) [where P = "\<lambda>_. True"]])
      (use assms(2) ext_member_returns in \<open>auto simp: common_ok_def returns_value\<close>)
  have first: "returns common_ok (pk_bind (with_first f (cd_ids d)) (\<lambda>ids. Some (Inr (d\<lparr>cd_ids := ids\<rparr>))))" for f
    by (rule returns_bind [OF with_first_returns]) (use assms(2) in \<open>auto simp: ids_ok_def common_ok_def returns_value\<close>)
  have id: "returns common_ok (case mi_type e of
           FArray \<Rightarrow> pk_bind (tnet_result (parse_array oc (mi_data e))) (\<lambda>it.
             pk_bind (for_items (seq_next oc) (id_item oc) it (cd_ids d)) (\<lambda>ids. Some (Inr (d\<lparr>cd_ids := ids\<rparr>))))
         | FString \<Rightarrow> pk_bind (tnet_result (parse_string oc (mi_data e))) (\<lambda>s.
             pk_bind (with_first (\<lambda>i. i\<lparr>id_id := s\<rparr>) (cd_ids d)) (\<lambda>ids. Some (Inr (d\<lparr>cd_ids := ids\<rparr>))))
         | _ \<Rightarrow> Some (Inl (NotMapOrString ''id'')))"
    using arr returns_bind [OF typed_return(3) [OF assms(1)] first] by (cases "mi_type e") (simp_all add: returns_value)
  show ?thesis unfolding common_field_def
    by (intro returns_if field_returns id ext first) (use assms in \<open>auto simp: common_ok_def\<close>)
qed

lemma next_item_returns: "iter_safe oc it \<Longrightarrow> returns (\<lambda>(i, it'). size_safe oc (si_data i) \<and> iter_safe oc it') (next_or_invalid oc it)"
  using seq_iter.next_returns [of oc it] by (auto simp: next_or_invalid_def returns_def split: option.splits sum.splits)

lemma header_item_returns:
  assumes "size_safe oc (si_data ha)" and "headers_ok hs"
  shows "returns headers_ok (header_item oc ha hs)"
  unfolding header_item_def
proof (intro returns_if returns_value)
  assume n: "length hs \<noteq> HEADERS_MAX"
  have push: "returns headers_ok (do { hs \<leftarrow> scratch_push HEADERS_MAX hs \<lparr>ph_name = name, ph_value = val\<rparr>; Some (Inr hs) })"
    if "utf8_valid name" for name val
    using that assms(2) n by (auto simp: scratch_push_def headers_ok_def returns_def)
  show "returns headers_ok (pk_bind (field_of ''header item'' (parse_array oc (si_data ha))) (\<lambda>hi.
        pk_bind (next_or_invalid oc hi) (\<lambda>(ni, hi).
          pk_bind (str_field oc ''header name'' (si_data ni)) (\<lambda>name.
            pk_bind (next_or_invalid oc hi) (\<lambda>(vi, hi).
              pk_bind (bytes_field oc ''header value'' (si_data vi)) (\<lambda>value. do {
                hs \<leftarrow> scratch_push HEADERS_MAX hs \<lparr>ph_name = name, ph_value = value\<rparr>;
                Some (Inr hs)
              }))))))"
    by (rule returns_bind [OF returns_field [OF typed_return(2) [OF assms(1)]]], rule returns_bind [OF next_item_returns], assumption, clarify,
        rule returns_bind [OF fields_return(2)], assumption, rule returns_bind [OF next_item_returns], assumption, clarify,
        rule returns_bind [OF fields_return(1)], assumption, rule push)
qed

lemma headers_field_returns:
  assumes "size_safe oc data" and "headers_ok hs"
  shows "returns headers_ok (headers_field oc data hs)"
  unfolding headers_field_def
  by (rule returns_bind [OF returns_field [OF typed_return(2) [OF assms(1)]]], rule loops_return(2)) (use assms header_item_returns in auto)

lemma content_type_field_returns: "size_safe oc data \<Longrightarrow> returns (\<lambda>_. True) (content_type_field oc data)"
  unfolding content_type_field_def by (intro field_returns) auto

definition request_data_wf :: "request_data \<Rightarrow> bool" where
  "request_data_wf d \<longleftrightarrow> request_data_ok d \<and> utf8_valid (rq_connect_host d) \<and> utf8_valid (rq_client_cert d) \<and> utf8_valid (rq_client_key d)"

lemma request_field_returns:
  assumes "size_safe oc (mi_data e)" and "request_data_wf d"
  shows "returns request_data_wf (request_field oc e d)"
proof -
  have "headers_ok (rq_headers d)" using assms(2) by (simp add: request_data_wf_def request_data_ok_def)
  note hs = headers_field_returns [OF assms(1) this, THEN returns_set_to] content_type_field_returns [OF assms(1), THEN returns_set_to]
  show ?thesis unfolding request_field_def Let_def
    by (intro returns_if field_returns hs) (use assms in \<open>auto simp: request_data_wf_def request_data_ok_def\<close>)
qed

lemma response_field_returns:
  assumes "size_safe oc (mi_data e)" and "response_data_ok d"
  shows "returns response_data_ok (response_field oc e d)"
proof -
  have "headers_ok (rs_headers d)" using assms(2) by (simp add: response_data_ok_def)
  note hs = headers_field_returns [OF assms(1) this, THEN returns_set_to] content_type_field_returns [OF assms(1), THEN returns_set_to]
  show ?thesis unfolding response_field_def Let_def
    by (intro returns_if field_returns hs) (use assms in \<open>auto simp: response_data_ok_def\<close>)
qed

definition rejection_ok :: "bytes \<times> rejected_info \<Rightarrow> bool" where
  "rejection_ok = (\<lambda>(condition, ri). utf8_valid condition \<and> utf8_valid (ri_reason ri) \<and> headers_ok (ri_headers ri))"

lemma response_error_field_returns:
  assumes "size_safe oc (mi_data e)" and "rejection_ok cr"
  shows "returns rejection_ok (response_error_field oc e cr)"
proof -
  obtain c ri where cr: "cr = (c, ri)" by force
  then have "headers_ok (ri_headers ri)" using assms(2) by (simp add: rejection_ok_def)
  note hs = headers_field_returns [OF assms(1) this, THEN returns_set_to]
  show ?thesis unfolding response_error_field_def Let_def cr prod.case
    by (intro returns_if field_returns hs) (use assms cr in \<open>auto simp: rejection_ok_def\<close>)
qed

lemma response_error_parse_returns:
  assumes "iter_safe oc it" and "headers_ok hs"
  shows "returns response_error_ok (response_error_parse oc it hs)"
  unfolding response_error_parse_def
  by (rule returns_set_to [OF loops_return(1) [where P = rejection_ok]])
    (use assms response_error_field_returns in \<open>auto simp: rejection_ok_def response_error_ok_def split: if_splits\<close>)

lemma small_fields_return:
  assumes "size_safe oc (mi_data e)"
  shows "utf8_valid c \<Longrightarrow> returns utf8_valid (condition_field oc e c)"
    "returns (\<lambda>_. True) (credit_field oc e n)"
    "utf8_valid (snd st) \<Longrightarrow> returns (\<lambda>st. utf8_valid (snd st)) (close_field oc e st)"
    "returns (\<lambda>_. True) (ping_field oc e d)"
proof -
  show "utf8_valid c \<Longrightarrow> returns utf8_valid (condition_field oc e c)" unfolding condition_field_def
    by (intro returns_if returns_intros assms)
  show "returns (\<lambda>_. True) (credit_field oc e n)" unfolding credit_field_def
    by (intro returns_if field_returns assms) auto
  show "returns (\<lambda>_. True) (ping_field oc e d)" unfolding ping_field_def
    by (intro returns_if field_returns assms) auto
  assume "utf8_valid (snd st)"
  then obtain code reason where st: "st = (code, reason)" "utf8_valid reason" by (cases st) auto
  have "returns utf8_valid (utf8_field f s)" for f s by (simp add: utf8_field_def returns_def)
  then have body: "returns utf8_valid (pk_bind (bytes_field oc ''body'' (mi_data e)) (utf8_field ''condition''))"
    by (intro returns_bind [OF fields_return(1)] assms)
  show "returns (\<lambda>st. utf8_valid (snd st)) (close_field oc e st)" unfolding close_field_def st(1) prod.case
    by (intro returns_if field_returns returns_set_to [OF body] assms) (use st(2) in auto)
qed

lemma close_parse_returns: "iter_safe oc it \<Longrightarrow> returns close_ok (close_parse oc it)"
  unfolding close_parse_def
  by (rule returns_set_to [OF loops_return(1) [where P = "\<lambda>st. utf8_valid (snd st)"]])
    (auto simp: close_ok_def small_fields_return split: option.splits)

fun request_packet_wf :: "request_packet \<Rightarrow> bool" where
  "request_packet_wf (RqData d) \<longleftrightarrow> request_data_wf d"
| "request_packet_wf (RqError c) \<longleftrightarrow> utf8_valid c"
| "request_packet_wf (RqClose s) \<longleftrightarrow> close_ok s"
| "request_packet_wf _ \<longleftrightarrow> True"

fun response_packet_wf :: "response_packet \<Rightarrow> bool" where
  "response_packet_wf (RsData d) \<longleftrightarrow> response_data_ok d"
| "response_packet_wf (RsError d) \<longleftrightarrow> response_error_ok d"
| "response_packet_wf (RsClose s) \<longleftrightarrow> close_ok s"
| "response_packet_wf _ \<longleftrightarrow> True"

lemma headers_ok_Nil [simp]: "headers_ok []"
  by (simp add: headers_ok_def)

lemma small_parsers_return:
  assumes "iter_safe oc it"
  shows "returns utf8_valid (request_error_parse oc it)" "returns (\<lambda>_. True) (credit_parse oc it)" "returns (\<lambda>_. True) (parse_ping_or_pong oc it)"
  unfolding request_error_parse_def credit_parse_def parse_ping_or_pong_def
  by (rule loops_return(1) [OF assms]; simp add: small_fields_return)+

lemma request_body_returns:
  assumes "iter_safe oc it"
  shows "returns (\<lambda>q. request_packet_wf q \<and> (q = RqUnknown \<or> request_type q = Some t)) (request_body_parse oc t it [])"
proof -
  have "returns request_data_wf (request_data_parse oc it [])" unfolding request_data_parse_def
    by (rule loops_return(1) [OF assms]) (simp_all add: request_field_returns request_data_wf_def request_data_ok_def request_data_new_def)
  note parts = this [THEN returns_set_to] small_parsers_return [OF assms, THEN returns_set_to] close_parse_returns [OF assms, THEN returns_set_to]
  show ?thesis unfolding request_body_parse_def by (intro returns_if returns_value parts) auto
qed

lemma response_body_returns:
  assumes "iter_safe oc it"
  shows "returns (\<lambda>q. response_packet_wf q \<and> (q = RsUnknown \<or> response_type q = Some t)) (response_body_parse oc t it [])"
proof -
  have "returns response_data_ok (response_data_parse oc it [])" unfolding response_data_parse_def
    by (rule loops_return(1) [OF assms]) (simp_all add: response_field_returns response_data_ok_def response_data_new_def)
  note parts = this [THEN returns_set_to] small_parsers_return [OF assms, THEN returns_set_to] close_parse_returns [OF assms, THEN returns_set_to]
    response_error_parse_returns [OF assms headers_ok_Nil, THEN returns_set_to]
  show ?thesis unfolding response_body_parse_def by (intro returns_if returns_value parts) auto
qed

lemma packet_parse_returns:
  assumes src: "size_safe oc src" and body: "\<And>t it. iter_safe oc it \<Longrightarrow> returns (Q t) (body oc t it [])"
  shows "returns (\<lambda>p. ids_ok (zp_ids p) \<and> utf8_valid (zp_ptype_str p) \<and> Q (zp_ptype_str p) (zp_ptype p)) (packet_parse body oc src [] [])"
proof -
  have root: "returns (iter_safe oc) (parse_root oc src)" unfolding parse_root_def
    using returns_field [OF typed_return(1) [OF size_safe_drop [OF src, of 1]]] by (auto simp: drop_Suc returns_value)
  have common: "returns common_ok (common_parse oc it [])" if "iter_safe oc it" for it
    unfolding common_parse_def by (rule loops_return(1) [OF that]) (simp_all add: common_field_returns common_ok_def)
  show ?thesis unfolding packet_parse_def
    by (rule returns_bind [OF root], rule returns_bind [OF common], assumption, rule returns_set_to [OF body], assumption)
      (simp add: ids_ok_def common_ok_def)
qed

section \<open>Properties\<close>

text \<open>
  Property C7. Whatever bytes arrive, as long as no size in them overflows, the parsers of requests and
  of responses end and do not panic; a packet that they return has at most 128 ids and 64 headers, valid
  UTF-8 in every field that Rust types as a string, and the type that its type string names.
\<close>

theorem packet_parsers_total:
  assumes "size_safe oc src"
  shows "(\<exists>r. request_parse oc src [] [] = Some r \<and> (\<forall>p. r = Inr p \<longrightarrow> length (zp_ids p) \<le> IDS_MAX \<and> utf8_valid (zp_ptype_str p)
      \<and> request_packet_wf (zp_ptype p) \<and> (zp_ptype p = RqUnknown \<or> request_type (zp_ptype p) = Some (zp_ptype_str p))))
    \<and> (\<exists>r. response_parse oc src [] [] = Some r \<and> (\<forall>p. r = Inr p \<longrightarrow> length (zp_ids p) \<le> IDS_MAX \<and> utf8_valid (zp_ptype_str p)
      \<and> response_packet_wf (zp_ptype p) \<and> (zp_ptype p = RsUnknown \<or> response_type (zp_ptype p) = Some (zp_ptype_str p))))"
  using packet_parse_returns [OF assms, where body = request_body_parse and Q = "\<lambda>t q. request_packet_wf q \<and> (q = RqUnknown \<or> request_type q = Some t)", OF request_body_returns]
    packet_parse_returns [OF assms, where body = response_body_parse and Q = "\<lambda>t q. response_packet_wf q \<and> (q = RsUnknown \<or> response_type q = Some t)", OF response_body_returns]
  unfolding request_parse_def response_parse_def returns_def ids_ok_def by blast

text \<open>Messages of fewer than 20 bytes have no room for an overflowing size.\<close>

lemma parse_digits_less: "parse_digits limit acc bs = Some n \<Longrightarrow> n < (acc + 1) * 10 ^ length bs"
proof (induction limit acc bs rule: parse_digits.induct)
  case (2 limit acc b bs)
  let ?v = "acc * 10 + (unat b - 48)"
  have d: "is_digit b" and n: "n < (?v + 1) * 10 ^ length bs" using 2 by (auto simp: Let_def split: if_splits)
  have "unat b - 48 \<le> 9" using d diff_le_mono [of "unat b" 57 48] by (simp add: is_digit_def)
  then have "?v + 1 \<le> (acc + 1) * 10" by simp
  then have "(?v + 1) * 10 ^ length bs \<le> (acc + 1) * 10 * 10 ^ length bs" by (rule mult_right_mono) simp
  then show ?case using n by (simp add: algebra_simps)
qed simp

lemma parse_usize_less: "parse_usize bs = Some n \<Longrightarrow> n < 10 ^ length bs"
proof -
  assume a: "parse_usize bs = Some n"
  have "(10::nat) ^ length (tl bs) \<le> 10 ^ length bs" by (intro power_increasing) simp_all
  then show ?thesis using a parse_digits_less [of usize_max 0 bs n] parse_digits_less [of usize_max 0 "tl bs" n]
    by (auto simp: parse_usize_def split: list.splits if_splits)
qed

lemma short_size_safe:
  assumes "length src < 20"
  shows "size_safe oc src"
proof -
  have "\<not> size_panics oc s" if l: "length s < 20" for s
  proof
    assume "size_panics oc s"
    then obtain k sz where k: "find_colon 0 s = Inr k" "parse_usize (take k s) = Some sz" "usize_max < k + sz + 2"
      by (auto simp: size_panics_def usize_max_def split: sum.splits option.splits if_splits)
    have "k < length s" using find_colon_InrD [OF k(1)] by auto
    then have "sz < 10 ^ k" "k \<le> 18" using parse_usize_less [OF k(2)] l by (simp_all add: min_def)
    then have "sz < 10 ^ 18" "k \<le> 18" using power_increasing [of k 18 "10::nat"] by (linarith, simp)
    then show False using k(3) by (simp add: usize_max_def)
  qed
  then show ?thesis using assms by (simp add: size_safe_def)
qed

theorem packet_parsers_total_witness:
  "\<exists>r r'. request_parse True (str ''T8:4:type,0:,}'') [] [] = Some r \<and> response_parse True (str ''T8:4:type,0:,}'') [] [] = Some r'"
proof -
  have "size_safe True (str ''T8:4:type,0:,}'')"
    by (rule short_size_safe) simp
  from packet_parsers_total [OF this] show ?thesis by auto
qed

text \<open>
  Property C37. The router's parser is not as robust: a second \<open>id\<close> entry, a string, after an array of 128
  ids is pushed without a check of the capacity, and \<open>parse_ids\<close> panics on a message that the full parser
  of responses accepts.
\<close>

definition overfull_ids :: "pkt_id list \<Rightarrow> bytes \<Rightarrow> 'f tnet" where
  "overfull_ids ids s = TMap [(str ''id'', TArray (map id_tnet ids)), (str ''id'', TString s), (str ''type'', TString (str ''cancel''))]"

theorem parse_ids_overfull:
  assumes "length ids = IDS_MAX" and "length (tnet_encode fmt (overfull_ids ids s)) < 2 ^ 63"
  shows "parse_ids oc (84 # tnet_encode fmt (overfull_ids ids s)) [] = panic
    \<and> (\<exists>p. response_parse oc (84 # tnet_encode fmt (overfull_ids ids s)) [] [] = Some (Inr p) \<and> zp_ptype p = RsCancel \<and> length (zp_ids p) = IDS_MAX)"
proof -
  let ?kvs = "[(str ''id'', TArray (map id_tnet ids)), (str ''id'', TString s), (str ''type'', TString (str ''cancel''))]"
  have fits: "fits fmt (TMap ?kvs)" using assms(2) by (simp add: fits_def overfull_ids_def)
  have f: "fits fmt (TArray (map id_tnet ids))" "fits fmt (TString s)" "fits fmt (TString (str ''cancel''))"
    using fits_map [OF fits, of "str ''id''"] fits_map [OF fits, of "str ''type''"] by simp_all
  have keys: "\<forall>(k, v) \<in> set ?kvs. utf8_valid k" by auto
  have i: "fold_packet (ids_item oc) (map (encoded_elem fmt) (map id_tnet ids)) [] = Some (Inr ([] @ map unsequenced ids))"
    "fold_packet (id_item oc) (map (encoded_elem fmt) (map id_tnet ids)) [] = Some (Inr ([] @ ids))"
    using fits_array [OF f(1)] assms(1) by (intro ids_items_fold ids_fold; simp)+
  have "parse_ids oc (84 # tnet_encode fmt (TMap ?kvs)) [] = panic"
    using i(1) assms(1) for_encoded_map [OF fits keys, of oc "ids_field oc"]
    by (simp add: parse_ids_def parse_root_encoded fits ids_field_def parse_encoded f for_encoded_array scratch_push_def del: payload.simps map_map)
  moreover have "ids \<noteq> []" using assms(1) by (auto simp: IDS_MAX_def)
  then have "common_parse oc (iter_new (payload fmt (TMap ?kvs))) []
      = Some (Inr \<lparr>cd_from = [], cd_ids = ids[0 := (ids ! 0)\<lparr>id_id := s\<rparr>], cd_multi = False, cd_ptype_str = str ''cancel''\<rparr>)"
    using i(2) assms(1) for_encoded_map [OF fits keys, of oc "common_field oc"]
    by (simp add: common_parse_def common_field_def parse_encoded f for_encoded_array with_first_def index_at_def IDS_MAX_def fields_encoded del: payload.simps map_map)
  ultimately show ?thesis using assms(1)
    by (auto simp: overfull_ids_def response_parse_def packet_parse_def parse_root_encoded fits response_body_parse_def simp del: payload.simps)
qed

theorem parse_ids_overfull_witness:
  "parse_ids True (84 # tnet_encode (\<lambda>_::unit. []) (overfull_ids (replicate 128 EMPTY_ID) [])) [] = panic"
proof -
  have "length (tnet_encode (\<lambda>_::unit. []) (overfull_ids (replicate 128 EMPTY_ID) [])) < 2 ^ 63"
    by (simp add: overfull_ids_def encode_eval id_tnet_def EMPTY_ID_def seq_entry_def length_concat sum_list_replicate)
  moreover have "length (replicate 128 EMPTY_ID) = IDS_MAX" by (simp add: IDS_MAX_def)
  ultimately show ?thesis using parse_ids_overfull by blast
qed

end
