(* ===== verification/ZhttpSession.thy ===== *)
theory ZhttpSession
  imports WsHandshake ZhttpTotal LocalChannel
begin

text \<open>
  The sessions by which a connection talks to its handler over zhttp, \<open>src/connmgr/connection.rs\<close>: the
  errors, the tracker of websocket messages, the state shared by the two directions of a session, the
  packets that are built from requests and responses, and the two ends of a session in both roles. A
  server connection sends requests and receives responses (\<open>ZhttpStreamSessionOut\<close>,
  \<open>ZhttpStreamSessionIn\<close>), a client connection the reverse (\<open>ZhttpServerStreamSessionOut\<close>,
  \<open>ZhttpServerStreamSessionIn\<close>). The sender half of a channel is a parameter; the callbacks that refresh
  timeouts and the log are left out. Overflow of the 32-bit counters panics or wraps as the build profile
  says (the flag \<open>oc\<close>).
\<close>

section \<open>Errors\<close>

definition is_logical :: "conn_error \<Rightarrow> bool" where
  "is_logical e \<longleftrightarrow> e = ValueActive"

fun to_condition :: "conn_error \<Rightarrow> bytes" where
  "to_condition (ConnIo e) =
     (if e = ConnectionRefused then str ''remote-connection-failed''
      else if e = TimedOut then str ''connection-timeout''
      else str ''undefined-condition'')"
| "to_condition BadRequest = str ''bad-request''"
| "to_condition StreamTimeout = str ''connection-timeout''"
| "to_condition Tls = str ''tls-error''"
| "to_condition PolicyViolation = str ''policy-violation''"
| "to_condition TooManyRedirects = str ''too-many-redirects''"
| "to_condition (WebSocketRejectionTooLarge _) = str ''rejection-too-large''"
| "to_condition _ = str ''undefined-condition''"

fun send_conn_error :: "send_error \<Rightarrow> conn_error" where
  "send_conn_error SendFull = ConnIo WriteZero"
| "send_conn_error SendDisconnected = ConnIo BrokenPipe"

section \<open>Message tracker\<close>

record message_item =
  mt_type :: u8
  mt_avail :: nat

record tracker =
  tk_items :: "message_item list"
  tk_cap :: nat
  tk_last_partial :: bool

text \<open>\<open>VecDeque::with_capacity\<close> is taken to have the capacity it is asked for.\<close>

definition tracker_new :: "nat \<Rightarrow> tracker" where
  "tracker_new max_messages = \<lparr>tk_items = [], tk_cap = max_messages, tk_last_partial = False\<rparr>"

definition tracker_in_progress :: "tracker \<Rightarrow> bool" where
  "tracker_in_progress t = tk_last_partial t"

definition tracker_start :: "tracker \<Rightarrow> u8 \<Rightarrow> (unit + unit) \<times> tracker" where
  "tracker_start t mtype =
     (if tk_last_partial t \<or> length (tk_items t) = tk_cap t then (Inl (), t)
      else (Inr (), t\<lparr>tk_items := tk_items t @ [\<lparr>mt_type = mtype, mt_avail = 0\<rparr>], tk_last_partial := True\<rparr>))"

definition tracker_extend :: "bool \<Rightarrow> tracker \<Rightarrow> nat \<Rightarrow> tracker run" where
  "tracker_extend oc t amt = do {
     _ \<leftarrow> assert_that (tk_last_partial t);
     m \<leftarrow> option_last (tk_items t);
     avail \<leftarrow> usize_add oc (mt_avail m) amt;
     Some (t\<lparr>tk_items := butlast (tk_items t) @ [m\<lparr>mt_avail := avail\<rparr>]\<rparr>)
   }"

definition tracker_done :: "tracker \<Rightarrow> tracker" where
  "tracker_done t = t\<lparr>tk_last_partial := False\<rparr>"

definition tracker_current :: "tracker \<Rightarrow> (u8 \<times> nat \<times> bool) option" where
  "tracker_current t =
     (case tk_items t of
        [] \<Rightarrow> None
      | [m] \<Rightarrow> Some (mt_type m, mt_avail m, \<not> tk_last_partial t)
      | m # _ \<Rightarrow> Some (mt_type m, mt_avail m, True))"

definition tracker_consumed :: "tracker \<Rightarrow> nat \<Rightarrow> bool \<Rightarrow> tracker run" where
  "tracker_consumed t amt done = do {
     m \<leftarrow> index_at (tk_items t) 0;
     _ \<leftarrow> assert_that (amt \<le> mt_avail m);
     let m = m\<lparr>mt_avail := mt_avail m - amt\<rparr>;
     if done then do {
       _ \<leftarrow> assert_that (mt_avail m = 0);
       Some (t\<lparr>tk_items := tl (tk_items t)\<rparr>)
     } else Some (t\<lparr>tk_items := (tk_items t)[0 := m]\<rparr>)
   }"

section \<open>Shared state of a session\<close>

definition u32_add :: "bool \<Rightarrow> u32 \<Rightarrow> u32 \<Rightarrow> u32 run" where
  "u32_add oc a b = (if oc \<and> unat a + unat b \<ge> 2 ^ 32 then panic else Some (a + b))"

definition u32_sub :: "bool \<Rightarrow> u32 \<Rightarrow> u32 \<Rightarrow> u32 run" where
  "u32_sub oc a b = (if oc \<and> unat a < unat b then panic else Some (a - b))"

definition ADDR_MAX :: nat where "ADDR_MAX = 64"

record shared =
  sh_to_addr :: "bytes option"
  sh_out_seq :: u32
  sh_router_resp :: bool

definition shared_new :: shared where
  "shared_new = \<lparr>sh_to_addr = None, sh_out_seq = 0, sh_router_resp = False\<rparr>"

definition shared_reset :: "shared \<Rightarrow> shared" where
  "shared_reset s = s\<lparr>sh_to_addr := None, sh_out_seq := 0, sh_router_resp := False\<rparr>"

definition set_to_addr :: "shared \<Rightarrow> bytes option \<Rightarrow> shared" where
  "set_to_addr s addr = s\<lparr>sh_to_addr := addr\<rparr>"

definition inc_out_seq :: "bool \<Rightarrow> shared \<Rightarrow> shared run" where
  "inc_out_seq oc s = do { n \<leftarrow> u32_add oc (sh_out_seq s) 1; Some (s\<lparr>sh_out_seq := n\<rparr>) }"

definition set_router_resp :: "shared \<Rightarrow> bool \<Rightarrow> shared" where
  "set_router_resp s b = s\<lparr>sh_router_resp := b\<rparr>"

section \<open>Messages\<close>

text \<open>The result and the scratch buffer after serializing into it.\<close>

definition make_zhttp_req_response ::
  "bool \<Rightarrow> ('f \<Rightarrow> bytes) \<Rightarrow> bytes option \<Rightarrow> response_packet \<Rightarrow> bytes \<Rightarrow> ((io_error + bytes) \<times> bytes) run" where
  "make_zhttp_req_response oc fmt i ptype scratch = do {
     let ids = (case i of Some i \<Rightarrow> [\<lparr>id_id = i, id_seq = None\<rparr>] | None \<Rightarrow> []);
     let zresp = \<lparr>zp_from = [], zp_ids = ids, zp_multi = False, zp_ptype = ptype, zp_ptype_str = []\<rparr>;
     (r, scratch) \<leftarrow> response_serialize oc fmt zresp scratch;
     case r of
       Inl e \<Rightarrow> Some (Inl e, scratch)
     | Inr n \<Rightarrow> do { payload \<leftarrow> subslice scratch 0 n; Some (Inr payload, scratch) }
   }"

definition make_zhttp_response ::
  "bool \<Rightarrow> ('f \<Rightarrow> bytes) \<Rightarrow> bytes \<Rightarrow> bool \<Rightarrow> response \<Rightarrow> bytes \<Rightarrow> ((io_error + bytes option \<times> bytes) \<times> bytes) run" where
  "make_zhttp_response oc fmt addr use_router zresp scratch = do {
     (r, scratch) \<leftarrow> response_serialize oc fmt zresp scratch;
     case r of
       Inl e \<Rightarrow> Some (Inl e, scratch)
     | Inr n \<Rightarrow> do {
         payload \<leftarrow> subslice scratch 0 n;
         if use_router then do {
           _ \<leftarrow> assert_that (length addr \<le> ADDR_MAX);
           Some (Inr (Some addr, payload), scratch)
         } else Some (Inr (None, addr @ [32] @ payload), scratch)
       }
   }"

section \<open>Outgoing halves\<close>

type_synonym ('c, 'm) sender = "'c \<Rightarrow> 'm \<Rightarrow> ((send_error + unit) \<times> 'c) run"

record session_out =
  so_instance_id :: bytes
  so_id :: bytes
  so_packet_buf :: bytes

definition session_out_new :: "bytes \<Rightarrow> bytes \<Rightarrow> bytes \<Rightarrow> session_out" where
  "session_out_new instance_id i packet_buf = \<lparr>so_instance_id = instance_id, so_id = i, so_packet_buf = packet_buf\<rparr>"

text \<open>The addressing of an outgoing packet.\<close>

definition addressed :: "session_out \<Rightarrow> shared \<Rightarrow> 'p zpacket \<Rightarrow> 'p zpacket" where
  "addressed so sh z =
     z\<lparr>zp_from := so_instance_id so, zp_ids := [\<lparr>id_id = so_id so, id_seq = Some (sh_out_seq sh)\<rparr>], zp_multi := True\<rparr>"

definition stream_try_send_msg ::
  "bool \<Rightarrow> ('f \<Rightarrow> bytes) \<Rightarrow> ('c, bytes \<times> bytes) sender \<Rightarrow> session_out \<Rightarrow> shared \<Rightarrow> 'c \<Rightarrow> request \<Rightarrow>
   ((conn_error + unit) \<times> session_out \<times> shared \<times> 'c) run" where
  "stream_try_send_msg oc fmt send so sh c zreq = do {
     (r, buf) \<leftarrow> request_serialize oc fmt (addressed so sh zreq) (so_packet_buf so);
     let so = so\<lparr>so_packet_buf := buf\<rparr>;
     case r of
       Inl e \<Rightarrow> Some (Inl (ConnIo e), so, sh, c)
     | Inr n \<Rightarrow> do {
         msg \<leftarrow> subslice buf 0 n;
         addr \<leftarrow> sh_to_addr sh;
         if length addr > ADDR_MAX then Some (Inl (ConnIo InvalidInput), so, sh, c)
         else do {
           (r, c) \<leftarrow> send c (addr, msg);
           case r of
             Inl e \<Rightarrow> Some (Inl (send_conn_error e), so, sh, c)
           | Inr _ \<Rightarrow> do { sh \<leftarrow> inc_out_seq oc sh; Some (Inr (), so, sh, c) }
         }
       }
   }"

definition server_stream_try_send_msg ::
  "bool \<Rightarrow> ('f \<Rightarrow> bytes) \<Rightarrow> ('c, bytes option \<times> bytes) sender \<Rightarrow> session_out \<Rightarrow> shared \<Rightarrow> 'c \<Rightarrow> response \<Rightarrow>
   ((conn_error + unit) \<times> session_out \<times> shared \<times> 'c) run" where
  "server_stream_try_send_msg oc fmt send so sh c zresp = do {
     addr \<leftarrow> sh_to_addr sh;
     (r, buf) \<leftarrow> make_zhttp_response oc fmt addr (sh_router_resp sh) (addressed so sh zresp) (so_packet_buf so);
     let so = so\<lparr>so_packet_buf := buf\<rparr>;
     case r of
       Inl e \<Rightarrow> Some (Inl (ConnIo e), so, sh, c)
     | Inr m \<Rightarrow> do {
         (r, c) \<leftarrow> send c m;
         case r of
           Inl e \<Rightarrow> Some (Inl (send_conn_error e), so, sh, c)
         | Inr _ \<Rightarrow> do { sh \<leftarrow> inc_out_seq oc sh; Some (Inr (), so, sh, c) }
       }
   }"

section \<open>Incoming halves\<close>

text \<open>What \<open>recv\<close> on the tracked receiver gives: a packet with the index of the id it is for, or an error.\<close>

datatype 'p recv_item = RcvMsg "'p zpacket" nat | RcvGone | RcvActive

text \<open>The loop that skips packets for old ids. No item is left: the call is pending.\<close>

fun next_for :: "bytes \<Rightarrow> 'p recv_item list \<Rightarrow> ((conn_error + 'p zpacket \<times> nat) option \<times> 'p recv_item list) run" where
  "next_for i [] = Some (None, [])"
| "next_for i (RcvGone # q) = Some (Some (Inl (ConnIo UnexpectedEof)), q)"
| "next_for i (RcvActive # q) = Some (Some (Inl ValueActive), q)"
| "next_for i (RcvMsg p n # q) = do {
     d \<leftarrow> index_at (zp_ids p) n;
     if id_id d \<noteq> i then next_for i q else Some (Some (Inr (p, n)), q)
   }"

record 'p session_in =
  si_id :: bytes
  si_next :: "('p zpacket \<times> nat) option"
  si_seq :: u32
  si_credits :: u32

record 'p stream_in = "'p session_in" +
  si_send_buf_size :: nat
  si_websocket :: bool
  si_first_data :: bool

definition stream_in_new :: "bytes \<Rightarrow> nat \<Rightarrow> bool \<Rightarrow> response_packet stream_in" where
  "stream_in_new i send_buf_size websocket =
     \<lparr>si_id = i, si_next = None, si_seq = 0, si_credits = 0, si_send_buf_size = send_buf_size, si_websocket = websocket, si_first_data = True\<rparr>"

definition server_stream_in_new :: "bytes \<Rightarrow> u32 \<Rightarrow> request_packet session_in" where
  "server_stream_in_new i credits = \<lparr>si_id = i, si_next = None, si_seq = 1, si_credits = credits\<rparr>"

definition subtract_credits :: "bool \<Rightarrow> ('p, 'm) session_in_scheme \<Rightarrow> u32 \<Rightarrow> ('p, 'm) session_in_scheme run" where
  "subtract_credits oc si amount = do { n \<leftarrow> u32_sub oc (si_credits si) amount; Some (si\<lparr>si_credits := n\<rparr>) }"

definition add_credits :: "bool \<Rightarrow> ('p, 'm) session_in_scheme \<Rightarrow> u32 \<Rightarrow> ('p, 'm) session_in_scheme run" where
  "add_credits oc si amount = do { n \<leftarrow> u32_add oc (si_credits si) amount; Some (si\<lparr>si_credits := n\<rparr>) }"

text \<open>The check of the sequence number and of the sender's address, the same for both roles.\<close>

definition check_msg ::
  "bool \<Rightarrow> shared \<Rightarrow> ('p, 'm) session_in_scheme \<Rightarrow> 'p zpacket \<Rightarrow> nat \<Rightarrow> ((conn_error + unit) \<times> shared \<times> ('p, 'm) session_in_scheme) run" where
  "check_msg oc sh si p n =
     (if zp_ids p = [] then Some (Inl BadMessage, sh, si)
      else do {
        d \<leftarrow> index_at (zp_ids p) n;
        let bad = (case id_seq d of Some seq \<Rightarrow> seq \<noteq> si_seq si | None \<Rightarrow> False);
        if bad then Some (Inl BadMessage, sh, si)
        else do {
          seq \<leftarrow> (case id_seq d of Some _ \<Rightarrow> u32_add oc (si_seq si) 1 | None \<Rightarrow> Some (si_seq si));
          let si = si\<lparr>si_seq := seq\<rparr>;
          if length (zp_from p) > ADDR_MAX then Some (Inl BadMessage, sh, si)
          else Some (Inr (), set_to_addr sh (Some (zp_from p)), si)
        }
      })"

definition stream_credit_msg :: "bool \<Rightarrow> response_packet stream_in \<Rightarrow> response_packet \<Rightarrow> response_packet stream_in run" where
  "stream_credit_msg oc si ptype =
     (case ptype of
        RsData d \<Rightarrow>
          if si_first_data si then
            add_credits oc (si\<lparr>si_first_data := False\<rparr>)
              (if si_websocket si \<and> rs_credits d = 0 then word_of_nat (si_send_buf_size si) else rs_credits d)
          else add_credits oc si (rs_credits d)
      | RsCredit n \<Rightarrow> add_credits oc si n
      | RsPing d \<Rightarrow> add_credits oc si (pg_credits d)
      | RsPong d \<Rightarrow> add_credits oc si (pg_credits d)
      | _ \<Rightarrow> Some si)"

definition server_credit_msg :: "bool \<Rightarrow> request_packet session_in \<Rightarrow> request_packet \<Rightarrow> request_packet session_in run" where
  "server_credit_msg oc si ptype =
     (case ptype of
        RqData d \<Rightarrow> add_credits oc si (rq_credits d)
      | RqCredit n \<Rightarrow> add_credits oc si n
      | RqPing d \<Rightarrow> add_credits oc si (pg_credits d)
      | RqPong d \<Rightarrow> add_credits oc si (pg_credits d)
      | _ \<Rightarrow> Some si)"

text \<open>
  One poll of \<open>peek_msg\<close> with the items that have arrived: pending, an error, or a packet that is kept in
  \<open>next\<close> and whose credits are counted.
\<close>

definition peek_msg ::
  "(('p, 'm) session_in_scheme \<Rightarrow> 'p \<Rightarrow> ('p, 'm) session_in_scheme run) \<Rightarrow> bool \<Rightarrow> shared \<Rightarrow> ('p, 'm) session_in_scheme \<Rightarrow> 'p recv_item list \<Rightarrow>
   ((conn_error + 'p zpacket) option \<times> shared \<times> ('p, 'm) session_in_scheme \<times> 'p recv_item list) run" where
  "peek_msg credit oc sh si q =
     (case si_next si of
        Some (p, _) \<Rightarrow> Some (Some (Inr p), sh, si, q)
      | None \<Rightarrow> do {
          (r, q) \<leftarrow> next_for (si_id si) q;
          case r of
            None \<Rightarrow> Some (None, sh, si, q)
          | Some (Inl e) \<Rightarrow> Some (Some (Inl e), sh, si, q)
          | Some (Inr (p, n)) \<Rightarrow> do {
              (ok, sh, si) \<leftarrow> check_msg oc sh si p n;
              case ok of
                Inl e \<Rightarrow> Some (Some (Inl e), sh, si, q)
              | Inr _ \<Rightarrow> do {
                  si \<leftarrow> credit si (zp_ptype p);
                  Some (Some (Inr p), sh, si\<lparr>si_next := Some (p, n)\<rparr>, q)
                }
            }
        })"

definition stream_peek_msg ::
  "bool \<Rightarrow> shared \<Rightarrow> response_packet stream_in \<Rightarrow> response_packet recv_item list \<Rightarrow>
   ((conn_error + response) option \<times> shared \<times> response_packet stream_in \<times> response_packet recv_item list) run" where
  "stream_peek_msg oc = peek_msg (stream_credit_msg oc) oc"

definition server_stream_peek_msg ::
  "bool \<Rightarrow> shared \<Rightarrow> request_packet session_in \<Rightarrow> request_packet recv_item list \<Rightarrow>
   ((conn_error + request) option \<times> shared \<times> request_packet session_in \<times> request_packet recv_item list) run" where
  "server_stream_peek_msg oc = peek_msg (server_credit_msg oc) oc"

text \<open>\<open>recv_msg\<close>: the packet is taken out of \<open>next\<close>.\<close>

definition recv_msg ::
  "(('p, 'm) session_in_scheme \<Rightarrow> 'p \<Rightarrow> ('p, 'm) session_in_scheme run) \<Rightarrow> bool \<Rightarrow> shared \<Rightarrow> ('p, 'm) session_in_scheme \<Rightarrow> 'p recv_item list \<Rightarrow>
   ((conn_error + 'p zpacket) option \<times> shared \<times> ('p, 'm) session_in_scheme \<times> 'p recv_item list) run" where
  "recv_msg credit oc sh si q = do {
     (r, sh, si, q) \<leftarrow> peek_msg credit oc sh si q;
     case r of
       Some (Inr _) \<Rightarrow> do { (p, _) \<leftarrow> si_next si; Some (Some (Inr p), sh, si\<lparr>si_next := None\<rparr>, q) }
     | _ \<Rightarrow> Some (r, sh, si, q)
   }"

definition stream_recv_msg ::
  "bool \<Rightarrow> shared \<Rightarrow> response_packet stream_in \<Rightarrow> response_packet recv_item list \<Rightarrow>
   ((conn_error + response) option \<times> shared \<times> response_packet stream_in \<times> response_packet recv_item list) run" where
  "stream_recv_msg oc = recv_msg (stream_credit_msg oc) oc"

definition server_stream_recv_msg ::
  "bool \<Rightarrow> shared \<Rightarrow> request_packet session_in \<Rightarrow> request_packet recv_item list \<Rightarrow>
   ((conn_error + request) option \<times> shared \<times> request_packet session_in \<times> request_packet recv_item list) run" where
  "server_stream_recv_msg oc = recv_msg (server_credit_msg oc) oc"

end
