(* ===== verification/SessionLink.thy ===== *)
theory SessionLink
  imports ZhttpSession
begin

text \<open>
  A session between its two ends. One end sends packets with \<open>try_send_msg\<close> into a bounded local channel, the other
  end receives them with \<open>peek_msg\<close> and \<open>recv_msg\<close>; between them the messages are taken out of the channel,
  parsed and routed to the receiver, among packets that were meant for earlier ids. The locale \<open>message_channel\<close> is
  what a session relies on of a channel, \<open>session_link\<close> what the two ends rely on of each other; both directions
  of a session are interpreted on the local channel of \<open>LocalChannel\<close>.
\<close>

section \<open>Packets that are refused\<close>

text \<open>A packet that does not fit the writer or the destination is refused, and nothing panics.\<close>

lemma tn_calls_overfull:
  "\<forall>p \<in> set ps. p \<noteq> OpInvalid \<Longrightarrow> length (tn_ops w) \<le> OPS_MAX \<Longrightarrow> OPS_MAX < length (tn_ops w) + length ps \<Longrightarrow>
    \<exists>w'. tn_calls w ps = (Inl WriteZero, w') \<and> tn_dest w' = tn_dest w"
proof (induction ps arbitrary: w)
  case (Cons p ps)
  show ?case
  proof (cases "length (tn_ops w) = OPS_MAX")
    case True
    then show ?thesis using Cons.prems by (simp add: tn_call_append tn_append_def)
  next
    case False
    then have "tn_call w p = (Inr (), w\<lparr>tn_ops := tn_ops w @ [p]\<rparr>)" using Cons.prems by (simp add: tn_call_append tn_append_def)
    then show ?thesis using Cons.IH [of "w\<lparr>tn_ops := tn_ops w @ [p]\<rparr>"] Cons.prems False by auto
  qed
qed simp

lemma write_exact_short:
  assumes "length buf < length e"
  shows "\<exists>c. write_exact \<lparr>cur_buf = buf, cur_pos = 0\<rparr> e = (Inl WriteZero, c) \<and> length (cur_buf c) = length buf"
  using assms by (simp add: write_exact_def cursor_write_def Let_def)

lemma packet_serialize_refused:
  assumes ptype: "ptype (zp_ptype p) = Some t" and body: "writes (body (zp_ptype p)) (entry_ops es)"
    and v: "v = TMap (common_entries (common_of t p) @ es)" and ok: "tnet_ok fmt v"
    and over: "OPS_MAX < length (ops_of v) \<or> length dest \<le> length (tnet_encode fmt v)"
  shows "\<exists>dest'. packet_serialize ptype body oc fmt p dest = Some (Inl WriteZero, dest') \<and> length dest' = length dest"
proof (cases dest)
  case (Cons d ds)
  let ?c = "\<lparr>cur_buf = ds, cur_pos = 0\<rparr>" and ?e = "tnet_encode fmt v"
  have "writes (w_all [start_map, common_serialize (common_of t p), body (zp_ptype p), end_map])
      ([OpStartMap] @ entry_ops (common_entries (common_of t p)) @ entry_ops es @ [OpEndMap] @ [])"
    by (intro writes_all writes_calls writes_common body)
  then have w: "w_all [start_map, common_serialize (common_of t p), body (zp_ptype p), end_map] w = tn_calls w (ops_of v)" for w
    unfolding writes_def by (simp add: v entry_ops_def)
  show ?thesis
  proof (cases "length (ops_of v) \<le> OPS_MAX")
    case True
    with over Cons obtain c where "write_exact ?c ?e = (Inl WriteZero, c)" "length (cur_buf c) = length ds"
      using write_exact_short [of ds ?e] by auto
    then show ?thesis using writer_encodes [of "[v]" fmt ?c oc] ok True ptype w Cons
      by (auto simp: packet_serialize_def common_of_def simp del: w_all.simps tnet_ok.simps ops_of.simps)
  next
    case False
    then obtain w' where "tn_calls (tn_new ?c) (ops_of v) = (Inl WriteZero, w')" "tn_dest w' = ?c"
      using tn_calls_overfull [of "ops_of v" "tn_new ?c"] ops_of_valid [of v] by (auto simp: tn_new_def)
    then show ?thesis using ptype w [of "tn_new ?c"] Cons
      by (simp add: packet_serialize_def common_of_def del: w_all.simps)
  qed
qed (simp add: packet_serialize_def)

lemma request_outcome:
  fixes fmt :: "'f \<Rightarrow> bytes"
  assumes ok: "request_packet_ok (zp_ptype p)" "length (zp_ids p) \<le> IDS_MAX" and dest: "length dest < 2 ^ 63"
  shows "\<exists>r dest'. request_serialize oc fmt p dest = Some (r, dest') \<and> length dest' = length dest
    \<and> (case r of Inl e \<Rightarrow> e = WriteZero
       | Inr n \<Rightarrow> n \<le> length dest' \<and> (\<forall>oc'. request_parse oc' (take n dest') [] []
           = Some (Inr (p\<lparr>zp_ptype := request_packet_sent (zp_ptype p), zp_ptype_str := the (request_type (zp_ptype p))\<rparr>))))"
proof (cases "length (ops_of (request_tnet p :: 'f tnet)) \<le> OPS_MAX \<and> length (tnet_encode fmt (request_tnet p)) < length dest")
  case True
  then show ?thesis using request_reads_back [OF ok, of fmt dest oc] dest by fastforce
next
  case False
  obtain t where t: "request_type (zp_ptype p) = Some t" using ok(1) by (cases "zp_ptype p") auto
  have "request_tnet p = (TMap (common_entries (common_of t p) @ request_entries (zp_ptype p)) :: 'f tnet)"
    by (simp add: request_tnet_def t)
  then obtain dest' where "request_serialize oc fmt p dest = Some (Inl WriteZero, dest')" "length dest' = length dest"
    using packet_serialize_refused [of request_type p t request_body_serialize, OF t writes_request_body _ packet_tnet_ok(1) [of fmt]] False
    unfolding request_serialize_def by (metis linorder_not_less)
  then show ?thesis by auto
qed

lemma response_outcome:
  fixes fmt :: "'f \<Rightarrow> bytes"
  assumes ok: "response_packet_ok (zp_ptype p)" "length (zp_ids p) \<le> IDS_MAX" and dest: "length dest < 2 ^ 63"
  shows "\<exists>r dest'. response_serialize oc fmt p dest = Some (r, dest') \<and> length dest' = length dest
    \<and> (case r of Inl e \<Rightarrow> e = WriteZero
       | Inr n \<Rightarrow> n \<le> length dest' \<and> (\<forall>oc'. response_parse oc' (take n dest') [] []
           = Some (Inr (p\<lparr>zp_ptype := response_packet_sent (zp_ptype p), zp_ptype_str := the (response_type (zp_ptype p))\<rparr>))))"
proof (cases "length (ops_of (response_tnet p :: 'f tnet)) \<le> OPS_MAX \<and> length (tnet_encode fmt (response_tnet p)) < length dest")
  case True
  then show ?thesis using response_reads_back [OF ok, of fmt dest oc] dest by fastforce
next
  case False
  obtain t where t: "response_type (zp_ptype p) = Some t" using ok(1) by (cases "zp_ptype p") auto
  have "response_tnet p = (TMap (common_entries (common_of t p) @ response_entries (zp_ptype p)) :: 'f tnet)"
    by (simp add: response_tnet_def t)
  then obtain dest' where "response_serialize oc fmt p dest = Some (Inl WriteZero, dest')" "length dest' = length dest"
    using packet_serialize_refused [of response_type p t response_body_serialize, OF t writes_response_body _ packet_tnet_ok(2) [of fmt]] False
    unfolding response_serialize_def by (metis linorder_not_less)
  then show ?thesis by auto
qed

section \<open>Channels\<close>

record ('c, 'm) chan_if =
  ci_check :: "'c \<Rightarrow> (bool \<times> 'c) run"
  ci_send :: "('c, 'm) sender"
  ci_cancel :: "'c \<Rightarrow> 'c run"
  ci_take :: "'c \<Rightarrow> ((recv_error + 'm) \<times> 'c) run"

text \<open>One sender and the receiver of a local channel.\<close>

definition local_chan :: "'s sender_slab \<Rightarrow> nat \<Rightarrow> (('s, 'm) local_channel, 'm) chan_if" where
  "local_chan S k = \<lparr>ci_check = \<lambda>c. check_send S c k, ci_send = \<lambda>c m. try_send S c k m, ci_cancel = \<lambda>c. cancel S c k, ci_take = try_recv S\<rparr>"

text \<open>The channel works for the sender \<open>k\<close>.\<close>

definition usable :: "'s sender_slab \<Rightarrow> nat \<Rightarrow> ('s, 'm) local_channel \<Rightarrow> bool" where
  "usable S k c \<longleftrightarrow> (\<exists>a. chan_rel S c a \<and> sp_ok a \<and> k \<in> sp_senders a)"

locale message_channel =
  fixes C :: "('c, 'm) chan_if" and good :: "'c \<Rightarrow> bool" and queue :: "'c \<Rightarrow> 'm list"
  assumes check_law: "good c \<Longrightarrow> \<exists>b c'. ci_check C c = Some (b, c') \<and> good c' \<and> queue c' = queue c"
    and send_law: "good c \<Longrightarrow> \<exists>r c'. ci_send C c m = Some (r, c') \<and> good c' \<and> queue c' = (case r of Inl _ \<Rightarrow> queue c | Inr _ \<Rightarrow> queue c @ [m])"
    and cancel_law: "good c \<Longrightarrow> \<exists>c'. ci_cancel C c = Some c' \<and> good c' \<and> queue c' = queue c"
    and take_law: "good c \<Longrightarrow> \<exists>r c'. ci_take C c = Some (r, c') \<and> good c'
      \<and> (case r of Inl _ \<Rightarrow> queue c = [] \<and> queue c' = [] | Inr m \<Rightarrow> queue c = m # queue c')"

context sender_nodes
begin

lemma channel_laws: "message_channel (local_chan S k) (usable S k) lc_queue"
proof
  fix c :: "('s, 'm) local_channel" and m
  assume "usable S k c"
  then obtain a where rel: "chan_rel S c a" and ok: "sp_ok a" and k: "k \<in> sp_senders a" by (auto simp: usable_def)
  note q = rel_queue [OF rel]
  have at_cap: "length (sp_queue a) = sp_cap a" if "\<not> length (sp_queue a) < sp_cap a" using ok that by (simp add: sp_ok_def sp_inv_def)
  have waits: "sp_ok (sp_wait k a')" if "sp_ok a'" "length (sp_queue a') = sp_cap a'" "k \<in> sp_senders a'" for a' :: "'m chan_spec"
    using sp_wait_inv [of a' k] that by (auto simp: sp_ok_def sp_wait_def)
  show "\<exists>b c'. ci_check (local_chan S k) c = Some (b, c') \<and> usable S k c' \<and> lc_queue c' = lc_queue c"
  proof (cases "length (sp_queue a) < sp_cap a")
    case True
    then show ?thesis using \<open>usable S k c\<close> q by (auto simp: local_chan_def check_send_def)
  next
    case False
    obtain c' where c': "set_sender_waiting S c k = Some c'" "chan_rel S c' (sp_wait k a)" using wait_refines [OF rel k] by blast
    then show ?thesis using False q waits [OF ok at_cap k] rel_queue [OF c'(2)] k
      by (auto simp: local_chan_def check_send_def usable_def sp_wait_def)
  qed
  obtain c1 where c1: "clear_sender_notified S c k = Some c1" "chan_rel S c1 (sp_clear k a)" using clear_refines [OF rel k] by blast
  have q1: "lc_queue c1 = lc_queue c" "lc_cap c1 = sp_cap a" "lc_receiver c1 = sp_receiver a"
    using rel_queue [OF c1(2)] q by (simp_all add: sp_clear_def)
  have k1: "k \<in> sp_senders (sp_clear k a)" using k by (simp add: sp_clear_def)
  show "\<exists>r c'. ci_send (local_chan S k) c m = Some (r, c') \<and> usable S k c'
      \<and> lc_queue c' = (case r of Inl _ \<Rightarrow> lc_queue c | Inr _ \<Rightarrow> lc_queue c @ [m])"
  proof -
    consider (gone) "\<not> sp_receiver a" | (room) "sp_receiver a" "length (sp_queue a) < sp_cap a" | (full) "sp_receiver a" "length (sp_queue a) = sp_cap a"
      using at_cap by blast
    then show ?thesis
    proof cases
      case gone
      then have "sp_ok ((sp_clear k a)\<lparr>sp_fair := False\<rparr>)" using ok by (auto simp: sp_ok_def sp_inv_def sp_clear_def)
      then have "usable S k c1" using rel_fair [OF c1(2), of False] k1 by (auto simp: usable_def)
      then show ?thesis using gone c1 q1 by (simp add: local_chan_def try_send_def)
    next
      case room
      have "sp_ok ((sp_clear k a)\<lparr>sp_queue := sp_queue a @ [m]\<rparr>)"
        using ok sp_send_inv [OF _ room(2), where k = k and t = m] by (simp add: sp_ok_def sp_clear_def)
      then have "usable S k (c1\<lparr>lc_queue := sp_queue a @ [m]\<rparr>)"
        using rel_set_queue [OF c1(2), of "sp_queue a @ [m]"] k1 unfolding usable_def by (intro exI) auto
      then show ?thesis using room c1 q1 q by (simp add: local_chan_def try_send_def)
    next
      case full
      obtain c2 where c2: "set_sender_waiting S c1 k = Some c2" "chan_rel S c2 (sp_wait k (sp_clear k a))"
        using wait_refines [OF c1(2) k1] by blast
      have "sp_ok (sp_clear k a)" using ok sp_clear_inv_full [OF _ full(2), of k] by (simp add: sp_ok_def sp_clear_def)
      then have "sp_ok (sp_wait k (sp_clear k a))" using waits [OF _ _ k1] full by (simp add: sp_clear_def)
      then have "usable S k c2" using c2(2) k1 by (auto simp: usable_def sp_wait_def)
      then show ?thesis using full c1 c2 q1 q rel_queue [OF c2(2)] by (auto simp: local_chan_def try_send_def sp_wait_def sp_clear_def)
    qed
  qed
  show "\<exists>c'. ci_cancel (local_chan S k) c = Some c' \<and> usable S k c' \<and> lc_queue c' = lc_queue c"
  proof -
    obtain c' where c': "cancel S c k = Some c'" "chan_rel S c' (sp_cancel k a)" using cancel_refines [OF rel k] by blast
    have "sp_queue (sp_cancel k a) = sp_queue a" "sp_senders (sp_cancel k a) = sp_senders a"
      by (simp_all add: sp_cancel_def sp_notify_def sp_clear_def split: list.split)
    then show ?thesis using c' sp_cancel_ok [OF ok, of k] k q rel_queue [OF c'(2)] by (auto simp: local_chan_def usable_def)
  qed
  show "\<exists>r c'. ci_take (local_chan S k) c = Some (r, c') \<and> usable S k c'
      \<and> (case r of Inl _ \<Rightarrow> lc_queue c = [] \<and> lc_queue c' = [] | Inr m \<Rightarrow> lc_queue c = m # lc_queue c')"
  proof (cases "lc_queue c")
    case Nil
    then show ?thesis using \<open>usable S k c\<close> by (simp add: local_chan_def try_recv_def)
  next
    case (Cons v rest)
    have qa: "sp_queue a = v # rest" using q Cons by simp
    obtain c' where c': "notify_one_sender S (c\<lparr>lc_queue := rest\<rparr>) = Some c'" "chan_rel S c' (sp_pop a)"
      using notify_refines [OF rel_set_queue [OF rel, of rest]] qa by (auto simp: sp_pop_def)
    have "sp_queue (sp_pop a) = rest" "sp_senders (sp_pop a) = sp_senders a"
      using qa by (simp_all add: sp_pop_def sp_notify_def split: list.split)
    then show ?thesis using Cons c' sp_pop_ok [OF ok] qa k rel_queue [OF c'(2)] by (auto simp: local_chan_def try_recv_def usable_def)
  qed
qed

end

lemma local_channel_laws: "slab_spec S \<Longrightarrow> message_channel (local_chan S k) (usable S k) lc_queue"
  by (rule sender_nodes.channel_laws [OF sender_nodesI])

interpretation vec_channel: message_channel "local_chan vec_slab_ops k" "usable vec_slab_ops k" lc_queue for k
  by (rule vec_senders.channel_laws)

section \<open>The two ends\<close>

record ('c, 'm, 'p) link =
  lk_chan :: "('c, 'm) chan_if"
  lk_tx :: "session_out \<Rightarrow> shared \<Rightarrow> 'c \<Rightarrow> 'p zpacket \<Rightarrow> ((conn_error + unit) \<times> session_out \<times> shared \<times> 'c) run"
  lk_open :: "'m \<Rightarrow> bytes"
  lk_parse :: "bytes \<Rightarrow> 'p zpacket packet"
  lk_sendable :: "'p \<Rightarrow> bool"
  lk_arrives :: "session_out \<Rightarrow> shared \<Rightarrow> 'p zpacket \<Rightarrow> 'p zpacket"

text \<open>
  What a packet is when it arrives: addressed, with the name of its type, and without the fields that are
  never written. A message to a subscriber begins with the address and a space.
\<close>

definition request_link :: "bool \<Rightarrow> ('f \<Rightarrow> bytes) \<Rightarrow> 's sender_slab \<Rightarrow> nat \<Rightarrow> (('s, bytes \<times> bytes) local_channel, bytes \<times> bytes, request_packet) link" where
  "request_link oc fmt S k =
     \<lparr>lk_chan = local_chan S k, lk_tx = stream_try_send_msg oc fmt (ci_send (local_chan S k)), lk_open = snd,
      lk_parse = \<lambda>b. request_parse oc b [] [], lk_sendable = request_packet_ok,
      lk_arrives = \<lambda>so sh z. (addressed so sh z)\<lparr>zp_ptype := request_packet_sent (zp_ptype z), zp_ptype_str := the (request_type (zp_ptype z))\<rparr>\<rparr>"

definition strip_addr :: "bytes option \<times> bytes \<Rightarrow> bytes" where
  "strip_addr m = (case m of (Some _, b) \<Rightarrow> b | (None, b) \<Rightarrow> tl (dropWhile (\<lambda>x. x \<noteq> 32) b))"

definition response_link :: "bool \<Rightarrow> ('f \<Rightarrow> bytes) \<Rightarrow> 's sender_slab \<Rightarrow> nat \<Rightarrow> (('s, bytes option \<times> bytes) local_channel, bytes option \<times> bytes, response_packet) link" where
  "response_link oc fmt S k =
     \<lparr>lk_chan = local_chan S k, lk_tx = server_stream_try_send_msg oc fmt (ci_send (local_chan S k)), lk_open = strip_addr,
      lk_parse = \<lambda>b. response_parse oc b [] [], lk_sendable = response_packet_ok,
      lk_arrives = \<lambda>so sh z. (addressed so sh z)\<lparr>zp_ptype := response_packet_sent (zp_ptype z), zp_ptype_str := the (response_type (zp_ptype z))\<rparr>\<rparr>"

definition peer_addr_ok :: "shared \<Rightarrow> bool" where
  "peer_addr_ok sh \<longleftrightarrow> (\<exists>a. sh_to_addr sh = Some a \<and> length a \<le> ADDR_MAX \<and> (\<not> sh_router_resp sh \<longrightarrow> 32 \<notin> set a))"

definition seq_left :: "bool \<Rightarrow> u32 \<Rightarrow> bool" where
  "seq_left oc n \<longleftrightarrow> (oc \<longrightarrow> unat n + 1 < 2 ^ 32)"

lemma u32_inc: "seq_left oc n \<Longrightarrow> u32_add oc n 1 = Some (n + 1)"
  by (auto simp: u32_add_def seq_left_def)

locale session_link = message_channel "lk_chan L" good queue
  for L :: "('c, 'm, 'p) link" and good :: "'c \<Rightarrow> bool" and queue :: "'c \<Rightarrow> 'm list" +
  fixes oc :: bool
  assumes tx_law: "good c \<Longrightarrow> lk_sendable L (zp_ptype z) \<Longrightarrow> peer_addr_ok sh \<Longrightarrow> length (so_packet_buf so) < 2 ^ 63 \<Longrightarrow>
      seq_left oc (sh_out_seq sh) \<Longrightarrow>
      \<exists>r buf sh' c'. lk_tx L so sh c z = Some (r, so\<lparr>so_packet_buf := buf\<rparr>, sh', c') \<and> length buf = length (so_packet_buf so) \<and> good c'
        \<and> (case r of
             Inl _ \<Rightarrow> sh' = sh \<and> queue c' = queue c
           | Inr _ \<Rightarrow> sh' = sh\<lparr>sh_out_seq := sh_out_seq sh + 1\<rparr>
               \<and> (\<exists>m. queue c' = queue c @ [m] \<and> lk_parse L (lk_open L m) = Some (Inr (lk_arrives L so sh z))))"
    and arrives_law: "zp_ids (lk_arrives L so sh z) = [\<lparr>id_id = so_id so, id_seq = Some (sh_out_seq sh)\<rparr>]"
      "zp_from (lk_arrives L so sh z) = so_instance_id so"

lemma addressed_ptype [simp]: "zp_ptype (addressed so sh z) = zp_ptype z"
  by (simp add: addressed_def)

lemma stream_tx:
  assumes C: "message_channel C good queue" and c: "good c" and ok: "request_packet_ok (zp_ptype z)" and addr: "peer_addr_ok sh"
    and buf: "length (so_packet_buf so) < 2 ^ 63" and left: "seq_left oc (sh_out_seq sh)"
  shows "\<exists>r buf sh' c'. stream_try_send_msg oc fmt (ci_send C) so sh c z = Some (r, so\<lparr>so_packet_buf := buf\<rparr>, sh', c')
    \<and> length buf = length (so_packet_buf so) \<and> good c'
    \<and> (case r of
         Inl _ \<Rightarrow> sh' = sh \<and> queue c' = queue c
       | Inr _ \<Rightarrow> sh' = sh\<lparr>sh_out_seq := sh_out_seq sh + 1\<rparr>
           \<and> (\<exists>m. queue c' = queue c @ [m] \<and> request_parse oc (snd m) [] []
               = Some (Inr ((addressed so sh z)\<lparr>zp_ptype := request_packet_sent (zp_ptype z), zp_ptype_str := the (request_type (zp_ptype z))\<rparr>))))"
proof -
  obtain a where a: "sh_to_addr sh = Some a" "length a \<le> ADDR_MAX" using addr by (auto simp: peer_addr_ok_def)
  have "request_packet_ok (zp_ptype (addressed so sh z))" "length (zp_ids (addressed so sh z)) \<le> IDS_MAX"
    using ok by (simp_all add: addressed_def IDS_MAX_def)
  from request_outcome [OF this buf, of oc fmt, unfolded addressed_ptype] obtain r buf' where
    r: "request_serialize oc fmt (addressed so sh z) (so_packet_buf so) = Some (r, buf')" "length buf' = length (so_packet_buf so)"
      "case r of Inl e \<Rightarrow> e = WriteZero | Inr n \<Rightarrow> n \<le> length buf' \<and> (\<forall>oc'. request_parse oc' (take n buf') [] []
        = Some (Inr ((addressed so sh z)\<lparr>zp_ptype := request_packet_sent (zp_ptype z), zp_ptype_str := the (request_type (zp_ptype z))\<rparr>)))"
    by blast
  show ?thesis
  proof (cases r)
    case (Inl e)
    then show ?thesis using r c by (auto simp: stream_try_send_msg_def)
  next
    case (Inr n)
    obtain r' c' where s: "ci_send C c (a, take n buf') = Some (r', c')" "good c'"
        "queue c' = (case r' of Inl _ \<Rightarrow> queue c | Inr _ \<Rightarrow> queue c @ [(a, take n buf')])"
      using message_channel.send_law [OF C c] by blast
    then show ?thesis using r Inr a u32_inc [OF left]
      by (cases r') (auto simp: stream_try_send_msg_def inc_out_seq_def)
  qed
qed

lemma server_stream_tx:
  assumes C: "message_channel C good queue" and c: "good c" and ok: "response_packet_ok (zp_ptype z)" and addr: "peer_addr_ok sh"
    and buf: "length (so_packet_buf so) < 2 ^ 63" and left: "seq_left oc (sh_out_seq sh)"
  shows "\<exists>r buf sh' c'. server_stream_try_send_msg oc fmt (ci_send C) so sh c z = Some (r, so\<lparr>so_packet_buf := buf\<rparr>, sh', c')
    \<and> length buf = length (so_packet_buf so) \<and> good c'
    \<and> (case r of
         Inl _ \<Rightarrow> sh' = sh \<and> queue c' = queue c
       | Inr _ \<Rightarrow> sh' = sh\<lparr>sh_out_seq := sh_out_seq sh + 1\<rparr>
           \<and> (\<exists>m. queue c' = queue c @ [m] \<and> response_parse oc (strip_addr m) [] []
               = Some (Inr ((addressed so sh z)\<lparr>zp_ptype := response_packet_sent (zp_ptype z), zp_ptype_str := the (response_type (zp_ptype z))\<rparr>))))"
proof -
  obtain a where a: "sh_to_addr sh = Some a" "length a \<le> ADDR_MAX" "\<not> sh_router_resp sh \<Longrightarrow> 32 \<notin> set a"
    using addr by (auto simp: peer_addr_ok_def)
  have "response_packet_ok (zp_ptype (addressed so sh z))" "length (zp_ids (addressed so sh z)) \<le> IDS_MAX"
    using ok by (simp_all add: addressed_def IDS_MAX_def)
  from response_outcome [OF this buf, of oc fmt, unfolded addressed_ptype] obtain r buf' where
    r: "response_serialize oc fmt (addressed so sh z) (so_packet_buf so) = Some (r, buf')" "length buf' = length (so_packet_buf so)"
      "case r of Inl e \<Rightarrow> e = WriteZero | Inr n \<Rightarrow> n \<le> length buf' \<and> (\<forall>oc'. response_parse oc' (take n buf') [] []
        = Some (Inr ((addressed so sh z)\<lparr>zp_ptype := response_packet_sent (zp_ptype z), zp_ptype_str := the (response_type (zp_ptype z))\<rparr>)))"
    by blast
  show ?thesis
  proof (cases r)
    case (Inl e)
    then show ?thesis using r a c by (auto simp: server_stream_try_send_msg_def make_zhttp_response_def)
  next
    case (Inr n)
    let ?m = "if sh_router_resp sh then (Some a, take n buf') else (None, a @ [32] @ take n buf')"
    have "make_zhttp_response oc fmt a (sh_router_resp sh) (addressed so sh z) (so_packet_buf so) = Some (Inr ?m, buf')"
      using r Inr a(2) by (simp add: make_zhttp_response_def)
    moreover have "dropWhile (\<lambda>x. x \<noteq> 32) (a @ 32 # take n buf') = 32 # take n buf'" if "\<not> sh_router_resp sh"
      using a(3) [OF that] by (subst dropWhile_append2) auto
    then have "strip_addr ?m = take n buf'" by (auto simp: strip_addr_def)
    moreover obtain r' c' where "ci_send C c ?m = Some (r', c')" "good c'"
        "queue c' = (case r' of Inl _ \<Rightarrow> queue c | Inr _ \<Rightarrow> queue c @ [?m])"
      using message_channel.send_law [OF C c] by blast
    ultimately show ?thesis using r Inr a(1) u32_inc [OF left]
      by (cases r') (auto simp: server_stream_try_send_msg_def inc_out_seq_def)
  qed
qed

lemma request_link_simps:
  "lk_chan (request_link oc fmt S k) = local_chan S k"
  "lk_tx (request_link oc fmt S k) = stream_try_send_msg oc fmt (ci_send (local_chan S k))"
  "lk_open (request_link oc fmt S k) = snd"
  "lk_parse (request_link oc fmt S k) b = request_parse oc b [] []"
  "lk_sendable (request_link oc fmt S k) = request_packet_ok"
  "lk_arrives (request_link oc fmt S k) so sh z
    = (addressed so sh z)\<lparr>zp_ptype := request_packet_sent (zp_ptype z), zp_ptype_str := the (request_type (zp_ptype z))\<rparr>"
  by (simp_all add: request_link_def)

lemma response_link_simps:
  "lk_chan (response_link oc fmt S k) = local_chan S k"
  "lk_tx (response_link oc fmt S k) = server_stream_try_send_msg oc fmt (ci_send (local_chan S k))"
  "lk_open (response_link oc fmt S k) = strip_addr"
  "lk_parse (response_link oc fmt S k) b = response_parse oc b [] []"
  "lk_sendable (response_link oc fmt S k) = response_packet_ok"
  "lk_arrives (response_link oc fmt S k) so sh z
    = (addressed so sh z)\<lparr>zp_ptype := response_packet_sent (zp_ptype z), zp_ptype_str := the (response_type (zp_ptype z))\<rparr>"
  by (simp_all add: response_link_def)

lemma request_link_laws:
  assumes "slab_spec S"
  shows "session_link (request_link oc fmt S k) (usable S k) lc_queue oc"
  using stream_tx [OF local_channel_laws [OF assms, of k], where oc = oc and fmt = fmt] local_channel_laws [OF assms, of k]
  by (intro session_link.intro session_link_axioms.intro; unfold request_link_simps) (auto simp: addressed_def)

lemma response_link_laws:
  assumes "slab_spec S"
  shows "session_link (response_link oc fmt S k) (usable S k) lc_queue oc"
  using server_stream_tx [OF local_channel_laws [OF assms, of k], where oc = oc and fmt = fmt] local_channel_laws [OF assms, of k]
  by (intro session_link.intro session_link_axioms.intro; unfold response_link_simps) (auto simp: addressed_def)

interpretation request_channel: session_link "request_link oc fmt vec_slab_ops k" "usable vec_slab_ops k" lc_queue oc for oc fmt k
  by (rule request_link_laws) (rule vec.slab_spec_axioms)

interpretation response_channel: session_link "response_link oc fmt vec_slab_ops k" "usable vec_slab_ops k" lc_queue oc for oc fmt k
  by (rule response_link_laws) (rule vec.slab_spec_axioms)

section \<open>Receiving\<close>

text \<open>The packets for the id \<open>i\<close> among the items that have arrived.\<close>

fun ours :: "bytes \<Rightarrow> 'p recv_item list \<Rightarrow> 'p zpacket list" where
  "ours i [] = []"
| "ours i (RcvMsg p n # q) = (if id_id (zp_ids p ! n) = i then p # ours i q else ours i q)"
| "ours i (_ # q) = ours i q"

definition delivered_item :: "bytes \<Rightarrow> 'p recv_item \<Rightarrow> bool" where
  "delivered_item i x \<longleftrightarrow> (\<exists>p n. x = RcvMsg p n \<and> n < length (zp_ids p) \<and> (id_id (zp_ids p ! n) = i \<longrightarrow> n = 0))"

lemma ours_append: "ours i (q @ r) = ours i q @ ours i r"
  by (induction q rule: ours.induct) auto

lemma next_for_items:
  assumes "\<forall>x \<in> set q. delivered_item i x"
  shows "case ours i q of
      [] \<Rightarrow> next_for i q = Some (None, [])
    | p # ps \<Rightarrow> \<exists>q'. next_for i q = Some (Some (Inr (p, 0)), q') \<and> ours i q' = ps \<and> set q' \<subseteq> set q"
  using assms by (induction i q rule: next_for.induct) (force simp: delivered_item_def split: list.splits)+

text \<open>Counting the credits of packets, and that this is all that counting does.\<close>

fun credit_all :: "('s \<Rightarrow> 'p \<Rightarrow> 's run) \<Rightarrow> 's \<Rightarrow> 'p list \<Rightarrow> 's run" where
  "credit_all cr s [] = Some s"
| "credit_all cr s (p # ps) = do { s \<leftarrow> cr s p; credit_all cr s ps }"

lemma credit_all_append: "credit_all cr s (ps @ qs) = do { s \<leftarrow> credit_all cr s ps; credit_all cr s qs }"
  by (induction ps arbitrary: s) (auto split: bind_splits)

locale credit_counter =
  fixes cr :: "('p, 'x) session_in_scheme \<Rightarrow> 'p \<Rightarrow> ('p, 'x) session_in_scheme run"
  assumes cr_frame: "cr (si\<lparr>si_next := n, si_seq := q\<rparr>) p = map_option (\<lambda>s. s\<lparr>si_next := n, si_seq := q\<rparr>) (cr si p)"
    and cr_same: "cr si p = Some si' \<Longrightarrow> si_id si' = si_id si"
begin

lemma all_id: "credit_all cr si ps = Some si' \<Longrightarrow> si_id si' = si_id si"
  by (induction ps arbitrary: si) (auto split: bind_splits dest: cr_same)

text \<open>One poll of \<open>peek_msg\<close> when nothing but packets has arrived and the next one has the expected number.\<close>

lemma peek_next:
  assumes "\<forall>x \<in> set q. delivered_item (si_id si) x" and "ours (si_id si) q = p # ps"
    and p: "zp_ids p = [\<lparr>id_id = i, id_seq = Some n\<rparr>]" "length (zp_from p) \<le> ADDR_MAX"
    and si: "si = s1\<lparr>si_next := None, si_seq := n\<rparr>" and cr: "cr s1 (zp_ptype p) = Some s2" and left: "seq_left oc n"
  shows "\<exists>q'. peek_msg cr oc sh si q
      = Some (Some (Inr p), set_to_addr sh (Some (zp_from p)), s2\<lparr>si_next := Some (p, 0), si_seq := n + 1\<rparr>, q')
    \<and> ours (si_id si) q' = ps \<and> set q' \<subseteq> set q"
proof -
  obtain q' where q': "next_for (si_id si) q = Some (Some (Inr (p, 0)), q')" "ours (si_id si) q' = ps" "set q' \<subseteq> set q"
    using next_for_items [OF assms(1)] assms(2) by auto
  have "check_msg oc sh si p 0 = Some (Inr (), set_to_addr sh (Some (zp_from p)), s1\<lparr>si_next := None, si_seq := n + 1\<rparr>)"
    using p si u32_inc [OF left] by (simp add: check_msg_def)
  then show ?thesis using q' cr cr_frame [where si = s1 and n = None and q = "n + 1"] si by (simp add: peek_msg_def)
qed

lemma peek_none:
  assumes "\<forall>x \<in> set q. delivered_item (si_id si) x" and "ours (si_id si) q = []" and "si_next si = None"
  shows "peek_msg cr oc sh si q = Some (None, sh, si, [])"
  using next_for_items [OF assms(1)] assms(2,3) by (simp add: peek_msg_def)

end

lemma add_credits_frame: "add_credits oc (si\<lparr>si_next := n, si_seq := q\<rparr>) x = map_option (\<lambda>s. s\<lparr>si_next := n, si_seq := q\<rparr>) (add_credits oc si x)"
  by (simp add: add_credits_def u32_add_def)

lemma add_credits_id: "add_credits oc si x = Some si' \<Longrightarrow> si_id si' = si_id si"
  by (auto simp: add_credits_def split: bind_splits)

interpretation request_credits: credit_counter "server_credit_msg oc" for oc
  by unfold_locales (auto simp: server_credit_msg_def add_credits_frame split: request_packet.splits dest: add_credits_id)

interpretation response_credits: credit_counter "stream_credit_msg oc" for oc
proof
  fix si :: "response_packet stream_in" and n q p si'
  show "stream_credit_msg oc (si\<lparr>si_next := n, si_seq := q\<rparr>) p = map_option (\<lambda>s. s\<lparr>si_next := n, si_seq := q\<rparr>) (stream_credit_msg oc si p)"
    by (cases p) (simp_all add: stream_credit_msg_def add_credits_def u32_add_def)
  show "stream_credit_msg oc si p = Some si' \<Longrightarrow> si_id si' = si_id si"
    by (cases p) (auto simp: stream_credit_msg_def dest!: add_credits_id split: if_splits)
qed

section \<open>Conversations\<close>

record ('c, 'p, 'x) conversation =
  cv_out :: session_out
  cv_out_sh :: shared
  cv_chan :: 'c
  cv_inbox :: "'p recv_item list"
  cv_in :: "('p, 'x) session_in_scheme"
  cv_in_sh :: shared
  cv_accepted :: "'p zpacket list"
  cv_received :: "'p zpacket list"

text \<open>
  \<open>Transport\<close> takes a message out of the channel, parses it and hands it to the receiver; \<open>Stray\<close> is a packet for
  an id that the connection had before. A step in which a call fails with an error of the protocol, or
  panics, has no result.
\<close>

datatype 'p conv_op = SendMsg "'p zpacket" | CheckSend | CancelSend | Transport | Stray "'p zpacket" nat | PeekMsg | RecvNext

fun conv_step ::
  "('c, 'm, 'p) link \<Rightarrow> (('p, 'x) session_in_scheme \<Rightarrow> 'p \<Rightarrow> ('p, 'x) session_in_scheme run) \<Rightarrow> bool \<Rightarrow> 'p conv_op \<Rightarrow>
   ('c, 'p, 'x) conversation \<Rightarrow> ('c, 'p, 'x) conversation run" where
  "conv_step L cr oc (SendMsg z) s = do {
     (r, so, sh, c) \<leftarrow> lk_tx L (cv_out s) (cv_out_sh s) (cv_chan s) z;
     Some (s\<lparr>cv_out := so, cv_out_sh := sh, cv_chan := c,
       cv_accepted := cv_accepted s @ (case r of Inl _ \<Rightarrow> [] | Inr _ \<Rightarrow> [lk_arrives L (cv_out s) (cv_out_sh s) z])\<rparr>)
   }"
| "conv_step L cr oc CheckSend s = do { (_, c) \<leftarrow> ci_check (lk_chan L) (cv_chan s); Some (s\<lparr>cv_chan := c\<rparr>) }"
| "conv_step L cr oc CancelSend s = do { c \<leftarrow> ci_cancel (lk_chan L) (cv_chan s); Some (s\<lparr>cv_chan := c\<rparr>) }"
| "conv_step L cr oc Transport s = do {
     (r, c) \<leftarrow> ci_take (lk_chan L) (cv_chan s);
     case r of
       Inl _ \<Rightarrow> Some (s\<lparr>cv_chan := c\<rparr>)
     | Inr m \<Rightarrow> do {
         p \<leftarrow> lk_parse L (lk_open L m);
         case p of Inl _ \<Rightarrow> None | Inr p \<Rightarrow> Some (s\<lparr>cv_chan := c, cv_inbox := cv_inbox s @ [RcvMsg p 0]\<rparr>)
       }
   }"
| "conv_step L cr oc (Stray p n) s = Some (s\<lparr>cv_inbox := cv_inbox s @ [RcvMsg p n]\<rparr>)"
| "conv_step L cr oc PeekMsg s = do {
     (r, sh, si, q) \<leftarrow> peek_msg cr oc (cv_in_sh s) (cv_in s) (cv_inbox s);
     case r of
       Some (Inl _) \<Rightarrow> None
     | _ \<Rightarrow> Some (s\<lparr>cv_in_sh := sh, cv_in := si, cv_inbox := q\<rparr>)
   }"
| "conv_step L cr oc RecvNext s = do {
     (r, sh, si, q) \<leftarrow> recv_msg cr oc (cv_in_sh s) (cv_in s) (cv_inbox s);
     case r of
       Some (Inl _) \<Rightarrow> None
     | Some (Inr p) \<Rightarrow> Some (s\<lparr>cv_in_sh := sh, cv_in := si, cv_inbox := q, cv_received := cv_received s @ [p]\<rparr>)
     | None \<Rightarrow> Some (s\<lparr>cv_in_sh := sh, cv_in := si, cv_inbox := q\<rparr>)
   }"

text \<open>
  The conditions on a step. With overflow checks the numbers and the credits must not run out; without
  them they may wrap.
\<close>

fun conv_legal ::
  "('c, 'm, 'p) link \<Rightarrow> (('p, 'x) session_in_scheme \<Rightarrow> 'p \<Rightarrow> ('p, 'x) session_in_scheme run) \<Rightarrow> bool \<Rightarrow> ('p, 'x) session_in_scheme \<Rightarrow>
   'p conv_op \<Rightarrow> ('c, 'p, 'x) conversation \<Rightarrow> bool" where
  "conv_legal L cr oc si0 (SendMsg z) s \<longleftrightarrow> lk_sendable L (zp_ptype z) \<and> seq_left oc (sh_out_seq (cv_out_sh s))
     \<and> credit_all cr si0 (map zp_ptype (cv_accepted s) @ [zp_ptype (lk_arrives L (cv_out s) (cv_out_sh s) z)]) \<noteq> None"
| "conv_legal L cr oc si0 (Stray p n) s \<longleftrightarrow> n < length (zp_ids p) \<and> id_id (zp_ids p ! n) \<noteq> si_id si0"
| "conv_legal L cr oc si0 _ s \<longleftrightarrow> True"

definition conv_start :: "session_out \<Rightarrow> shared \<Rightarrow> 'c \<Rightarrow> ('p, 'x) session_in_scheme \<Rightarrow> shared \<Rightarrow> ('c, 'p, 'x) conversation" where
  "conv_start so sh c si sh' = \<lparr>cv_out = so, cv_out_sh = sh, cv_chan = c, cv_inbox = [], cv_in = si, cv_in_sh = sh',
     cv_accepted = [], cv_received = []\<rparr>"

definition paired :: "session_out \<Rightarrow> shared \<Rightarrow> ('p, 'x) session_in_scheme \<Rightarrow> bool" where
  "paired so sh si \<longleftrightarrow> so_id so = si_id si \<and> sh_out_seq sh = si_seq si \<and> si_next si = None \<and> peer_addr_ok sh
     \<and> length (so_instance_id so) \<le> ADDR_MAX \<and> length (so_packet_buf so) < 2 ^ 63"

inductive conv_reach for L cr oc si0 s0 where
  start: "conv_reach L cr oc si0 s0 s0"
| step: "conv_reach L cr oc si0 s0 s \<Longrightarrow> conv_legal L cr oc si0 x s \<Longrightarrow> conv_step L cr oc x s = Some s' \<Longrightarrow> conv_reach L cr oc si0 s0 s'"

definition peeked :: "('p, 'x) session_in_scheme \<Rightarrow> 'p zpacket list" where
  "peeked si = (case si_next si of None \<Rightarrow> [] | Some (p, _) \<Rightarrow> [p])"

definition taken_all :: "('c, 'p, 'x) conversation \<Rightarrow> 'p zpacket list" where
  "taken_all s = cv_received s @ peeked (cv_in s)"

lemma taken_all_frame [simp]:
  "taken_all (s\<lparr>cv_out := so, cv_out_sh := sh, cv_chan := c, cv_accepted := as\<rparr>) = taken_all s"
  "taken_all (s\<lparr>cv_out := so, cv_chan := c, cv_accepted := as\<rparr>) = taken_all s"
  "taken_all (s\<lparr>cv_out := so, cv_chan := c\<rparr>) = taken_all s"
  "taken_all (s\<lparr>cv_chan := c\<rparr>) = taken_all s"
  "taken_all (s\<lparr>cv_inbox := q\<rparr>) = taken_all s"
  "taken_all (s\<lparr>cv_chan := c, cv_inbox := q\<rparr>) = taken_all s"
  by (simp_all add: taken_all_def)

definition numbered :: "bool \<Rightarrow> bytes \<Rightarrow> bytes \<Rightarrow> u32 \<Rightarrow> 'p zpacket list \<Rightarrow> bool" where
  "numbered oc i inst n0 ps \<longleftrightarrow> (\<forall>j < length ps. zp_ids (ps ! j) = [\<lparr>id_id = i, id_seq = Some (n0 + of_nat j)\<rparr>]
     \<and> zp_from (ps ! j) = inst \<and> seq_left oc (n0 + of_nat j))"

lemma numbered_snoc:
  "numbered oc i inst n0 ps \<Longrightarrow> zp_ids p = [\<lparr>id_id = i, id_seq = Some (n0 + of_nat (length ps))\<rparr>] \<Longrightarrow> zp_from p = inst \<Longrightarrow>
    seq_left oc (n0 + of_nat (length ps)) \<Longrightarrow> numbered oc i inst n0 (ps @ [p])"
  by (auto simp: numbered_def nth_append less_Suc_eq)

lemma numbered_middle:
  assumes "numbered oc i inst n0 (us @ p # vs)"
  shows "zp_ids p = [\<lparr>id_id = i, id_seq = Some (n0 + of_nat (length us))\<rparr>] \<and> zp_from p = inst \<and> seq_left oc (n0 + of_nat (length us))"
  using assms [unfolded numbered_def, rule_format, of "length us"] by simp

locale session_pair = session_link L good queue oc + credit_counter cr
  for L :: "('c, 'm, 'p) link" and good queue oc and cr :: "('p, 'x) session_in_scheme \<Rightarrow> 'p \<Rightarrow> ('p, 'x) session_in_scheme run" +
  fixes so0 :: session_out and si0 :: "('p, 'x) session_in_scheme"
begin

definition conv_inv :: "('c, 'p, 'x) conversation \<Rightarrow> bool" where
  "conv_inv s \<longleftrightarrow> so_id so0 = si_id si0 \<and> length (so_instance_id so0) \<le> ADDR_MAX \<and> good (cv_chan s) \<and> peer_addr_ok (cv_out_sh s)
     \<and> (\<exists>buf. cv_out s = so0\<lparr>so_packet_buf := buf\<rparr> \<and> length buf < 2 ^ 63)
     \<and> sh_out_seq (cv_out_sh s) = si_seq si0 + of_nat (length (cv_accepted s))
     \<and> numbered oc (si_id si0) (so_instance_id so0) (si_seq si0) (cv_accepted s)
     \<and> credit_all cr si0 (map zp_ptype (cv_accepted s)) \<noteq> None
     \<and> (\<forall>x \<in> set (cv_inbox s). delivered_item (si_id si0) x)
     \<and> (\<exists>ps. list_all2 (\<lambda>m p. lk_parse L (lk_open L m) = Some (Inr p)) (queue (cv_chan s)) ps
         \<and> cv_accepted s = taken_all s @ ours (si_id si0) (cv_inbox s) @ ps)
     \<and> (\<exists>s1. credit_all cr si0 (map zp_ptype (taken_all s)) = Some s1
         \<and> cv_in s = s1\<lparr>si_next := si_next (cv_in s), si_seq := si_seq si0 + of_nat (length (taken_all s))\<rparr>)"

lemma inv_start:
  assumes "paired so0 sh si0" and "good c"
    and empty: "queue c = []"
  shows "conv_inv (conv_start so0 sh c si0 sh')"
proof -
  have "\<exists>buf. so0 = so0\<lparr>so_packet_buf := buf\<rparr> \<and> length buf < 2 ^ 63"
    using assms(1) by (intro exI [of _ "so_packet_buf so0"]) (simp add: paired_def)
  moreover have "si0 = si0\<lparr>si_next := si_next si0, si_seq := si_seq si0\<rparr>" by simp
  ultimately show ?thesis
    using assms unfolding conv_inv_def conv_start_def paired_def numbered_def taken_all_def peeked_def by auto
qed

lemma send_step:
  assumes inv: "conv_inv s" and legal: "conv_legal L cr oc si0 (SendMsg z) s"
  shows "\<exists>s'. conv_step L cr oc (SendMsg z) s = Some s' \<and> conv_inv s'"
proof -
  obtain buf where buf: "cv_out s = so0\<lparr>so_packet_buf := buf\<rparr>" "length buf < 2 ^ 63" using inv by (auto simp: conv_inv_def)
  obtain r buf' sh' c' where tx: "lk_tx L (cv_out s) (cv_out_sh s) (cv_chan s) z = Some (r, (cv_out s)\<lparr>so_packet_buf := buf'\<rparr>, sh', c')"
      "length buf' = length (so_packet_buf (cv_out s))" "good c'"
      "case r of Inl _ \<Rightarrow> sh' = cv_out_sh s \<and> queue c' = queue (cv_chan s)
       | Inr _ \<Rightarrow> sh' = (cv_out_sh s)\<lparr>sh_out_seq := sh_out_seq (cv_out_sh s) + 1\<rparr>
           \<and> (\<exists>m. queue c' = queue (cv_chan s) @ [m] \<and> lk_parse L (lk_open L m) = Some (Inr (lk_arrives L (cv_out s) (cv_out_sh s) z)))"
    using tx_law [of "cv_chan s" z "cv_out_sh s" "cv_out s"] inv legal buf by (auto simp: conv_inv_def)
  obtain ps where ps: "list_all2 (\<lambda>m p. lk_parse L (lk_open L m) = Some (Inr p)) (queue (cv_chan s)) ps"
    "cv_accepted s = taken_all s @ ours (si_id si0) (cv_inbox s) @ ps" using inv by (auto simp: conv_inv_def)
  have out: "\<exists>b. (cv_out s)\<lparr>so_packet_buf := buf'\<rparr> = so0\<lparr>so_packet_buf := b\<rparr> \<and> length b < 2 ^ 63" using buf tx(2) by auto
  show ?thesis
  proof (cases r)
    case (Inl e)
    then show ?thesis using inv tx ps out unfolding conv_inv_def by auto
  next
    case (Inr u)
    let ?p = "lk_arrives L (cv_out s) (cv_out_sh s) z"
    obtain m where m: "queue c' = queue (cv_chan s) @ [m]" "lk_parse L (lk_open L m) = Some (Inr ?p)" using tx(4) Inr by auto
    have "list_all2 (\<lambda>m p. lk_parse L (lk_open L m) = Some (Inr p)) (queue c') (ps @ [?p])"
      using ps(1) m by (simp add: list_all2_appendI)
    moreover have "numbered oc (si_id si0) (so_instance_id so0) (si_seq si0) (cv_accepted s @ [?p])"
      using inv legal buf arrives_law [of "cv_out s" "cv_out_sh s" z] by (intro numbered_snoc) (auto simp: conv_inv_def)
    moreover have "peer_addr_ok (cv_out_sh s\<lparr>sh_out_seq := sh_out_seq (cv_out_sh s) + 1\<rparr>)"
      using inv by (simp add: conv_inv_def peer_addr_ok_def)
    ultimately show ?thesis using inv tx Inr ps(2) out legal unfolding conv_inv_def by auto
  qed
qed

lemma chan_steps:
  assumes inv: "conv_inv s" and x: "x = CheckSend \<or> x = CancelSend"
  shows "\<exists>s'. conv_step L cr oc x s = Some s' \<and> conv_inv s'"
proof -
  have good: "good (cv_chan s)" using inv by (simp add: conv_inv_def)
  have keep: "conv_inv (s\<lparr>cv_chan := c\<rparr>)" if "good c" "queue c = queue (cv_chan s)" for c
    using inv that unfolding conv_inv_def by auto
  show ?thesis using x check_law [OF good] cancel_law [OF good] keep by auto
qed

lemma transport_step:
  assumes inv: "conv_inv s"
  shows "\<exists>s'. conv_step L cr oc Transport s = Some s' \<and> conv_inv s'"
proof -
  obtain r c' where t: "ci_take (lk_chan L) (cv_chan s) = Some (r, c')" "good c'"
      "case r of Inl _ \<Rightarrow> queue (cv_chan s) = [] \<and> queue c' = [] | Inr m \<Rightarrow> queue (cv_chan s) = m # queue c'"
    using take_law [of "cv_chan s"] inv by (auto simp: conv_inv_def)
  obtain ps where ps: "list_all2 (\<lambda>m p. lk_parse L (lk_open L m) = Some (Inr p)) (queue (cv_chan s)) ps"
    "cv_accepted s = taken_all s @ ours (si_id si0) (cv_inbox s) @ ps" using inv by (auto simp: conv_inv_def)
  show ?thesis
  proof (cases r)
    case (Inl e)
    then show ?thesis using inv t unfolding conv_inv_def by auto
  next
    case (Inr m)
    then obtain p ps' where p: "ps = p # ps'" "lk_parse L (lk_open L m) = Some (Inr p)"
        "list_all2 (\<lambda>m p. lk_parse L (lk_open L m) = Some (Inr p)) (queue c') ps'"
      using ps(1) t(3) by (auto simp: list_all2_Cons1)
    have "zp_ids p ! 0 = \<lparr>id_id = si_id si0, id_seq = Some (si_seq si0 + of_nat (length (taken_all s @ ours (si_id si0) (cv_inbox s))))\<rparr>"
        "zp_ids p \<noteq> []"
      using inv ps(2) p(1) numbered_middle [of oc "si_id si0" "so_instance_id so0" "si_seq si0" "taken_all s @ ours (si_id si0) (cv_inbox s)" p ps']
      by (auto simp: conv_inv_def)
    then show ?thesis using inv t Inr p ps(2) unfolding conv_inv_def by (auto simp: ours_append delivered_item_def)
  qed
qed

lemma stray_step:
  assumes inv: "conv_inv s" and legal: "conv_legal L cr oc si0 (Stray p n) s"
  shows "\<exists>s'. conv_step L cr oc (Stray p n) s = Some s' \<and> conv_inv s'"
  using assms unfolding conv_inv_def by (auto simp: ours_append delivered_item_def)

lemma inv_in_id: "conv_inv s \<Longrightarrow> si_id (cv_in s) = si_id si0"
  unfolding conv_inv_def by (metis all_id session_in.select_convs(1) session_in.surjective session_in.update_convs(2,3))

text \<open>A poll of \<open>peek_msg\<close>: the packet already peeked at, or the next of ours, or nothing.\<close>

lemma peek_outcome:
  assumes inv: "conv_inv s"
  shows "case peeked (cv_in s) @ ours (si_id si0) (cv_inbox s) of
      [] \<Rightarrow> peek_msg cr oc (cv_in_sh s) (cv_in s) (cv_inbox s) = Some (None, cv_in_sh s, cv_in s, [])
    | p # ps \<Rightarrow> \<exists>sh si q n. peek_msg cr oc (cv_in_sh s) (cv_in s) (cv_inbox s) = Some (Some (Inr p), sh, si, q)
        \<and> si_next si = Some (p, n) \<and> conv_inv (s\<lparr>cv_in_sh := sh, cv_in := si, cv_inbox := q\<rparr>)"
proof -
  let ?i = "si_id si0"
  have items: "\<forall>x \<in> set (cv_inbox s). delivered_item (si_id (cv_in s)) x" using inv inv_in_id [OF inv] by (simp add: conv_inv_def)
  show ?thesis
  proof (cases "si_next (cv_in s)")
    case (Some pn)
    then obtain p n where "si_next (cv_in s) = Some (p, n)" by (cases pn) auto
    moreover have "s\<lparr>cv_in_sh := cv_in_sh s, cv_in := cv_in s, cv_inbox := cv_inbox s\<rparr> = s" by simp
    ultimately show ?thesis using inv by (simp add: peeked_def peek_msg_def)
  next
    case None
    show ?thesis
    proof (cases "ours ?i (cv_inbox s)")
      case Nil
      then show ?thesis using peek_none [OF items] None inv_in_id [OF inv] by (simp add: peeked_def)
    next
      case (Cons p ps)
      have taken: "taken_all s = cv_received s" using None by (simp add: taken_all_def peeked_def)
      obtain qs where qs: "list_all2 (\<lambda>m p. lk_parse L (lk_open L m) = Some (Inr p)) (queue (cv_chan s)) qs"
        "cv_accepted s = cv_received s @ p # ps @ qs" using inv Cons taken by (auto simp: conv_inv_def)
      let ?n = "si_seq si0 + of_nat (length (cv_received s))"
      have p: "zp_ids p = [\<lparr>id_id = ?i, id_seq = Some ?n\<rparr>]" "zp_from p = so_instance_id so0" "seq_left oc ?n" "length (so_instance_id so0) \<le> ADDR_MAX"
        using inv qs(2) numbered_middle [of oc ?i "so_instance_id so0" "si_seq si0" "cv_received s" p "ps @ qs"] by (simp_all add: conv_inv_def)
      obtain s1 where s1: "credit_all cr si0 (map zp_ptype (cv_received s)) = Some s1" "cv_in s = s1\<lparr>si_next := None, si_seq := ?n\<rparr>"
        using inv taken None by (auto simp: conv_inv_def)
      have "credit_all cr si0 (map zp_ptype (cv_received s) @ zp_ptype p # map zp_ptype (ps @ qs)) \<noteq> None"
        using inv qs(2) by (simp add: conv_inv_def)
      then obtain s2 where s2: "cr s1 (zp_ptype p) = Some s2" by (auto simp: credit_all_append s1 split: bind_splits)
      obtain q' where q': "peek_msg cr oc (cv_in_sh s) (cv_in s) (cv_inbox s)
          = Some (Some (Inr p), set_to_addr (cv_in_sh s) (Some (zp_from p)), s2\<lparr>si_next := Some (p, 0), si_seq := ?n + 1\<rparr>, q')"
          "ours ?i q' = ps" "set q' \<subseteq> set (cv_inbox s)"
        using peek_next [OF items _ p(1) _ s1(2) s2 p(3), of ps "cv_in_sh s"] Cons p(2,4) inv_in_id [OF inv] by auto
      let ?s = "s\<lparr>cv_in_sh := set_to_addr (cv_in_sh s) (Some (zp_from p)), cv_in := s2\<lparr>si_next := Some (p, 0), si_seq := ?n + 1\<rparr>, cv_inbox := q'\<rparr>"
      have taken': "taken_all ?s = cv_received s @ [p]" by (simp add: taken_all_def peeked_def)
      have "credit_all cr si0 (map zp_ptype (taken_all ?s)) = Some s2" unfolding taken' by (simp add: credit_all_append s1 s2)
      moreover have "cv_in ?s = s2\<lparr>si_next := si_next (cv_in ?s), si_seq := si_seq si0 + of_nat (length (taken_all ?s))\<rparr>"
        unfolding taken' by (simp add: ac_simps)
      moreover have "cv_accepted ?s = taken_all ?s @ ours ?i (cv_inbox ?s) @ qs" unfolding taken' by (simp add: qs q')
      moreover have "\<forall>x \<in> set (cv_inbox ?s). delivered_item ?i x" using q'(3) items inv_in_id [OF inv] by auto
      ultimately have "conv_inv ?s" using inv qs(1) unfolding conv_inv_def by auto
      then show ?thesis using q' None Cons by (auto simp: peeked_def)
    qed
  qed
qed

lemma peek_step:
  assumes inv: "conv_inv s"
  shows "\<exists>s'. conv_step L cr oc PeekMsg s = Some s' \<and> conv_inv s'"
proof (cases "peeked (cv_in s) @ ours (si_id si0) (cv_inbox s)")
  case Nil
  have "conv_inv (s\<lparr>cv_inbox := []\<rparr>)" using inv Nil unfolding conv_inv_def by auto
  then show ?thesis using peek_outcome [OF inv] Nil by auto
next
  case (Cons p ps)
  then show ?thesis using peek_outcome [OF inv] by auto
qed

lemma recv_step:
  assumes inv: "conv_inv s"
  shows "\<exists>s'. conv_step L cr oc RecvNext s = Some s' \<and> conv_inv s'
    \<and> cv_received s' = cv_received s @ take 1 (peeked (cv_in s) @ ours (si_id si0) (cv_inbox s))"
proof (cases "peeked (cv_in s) @ ours (si_id si0) (cv_inbox s)")
  case Nil
  have "conv_inv (s\<lparr>cv_inbox := []\<rparr>)" using inv Nil unfolding conv_inv_def by auto
  then show ?thesis using peek_outcome [OF inv] Nil by (auto simp: recv_msg_def)
next
  case (Cons p ps)
  then obtain sh si q n where p: "peek_msg cr oc (cv_in_sh s) (cv_in s) (cv_inbox s) = Some (Some (Inr p), sh, si, q)"
      "si_next si = Some (p, n)" "conv_inv (s\<lparr>cv_in_sh := sh, cv_in := si, cv_inbox := q\<rparr>)"
    using peek_outcome [OF inv] by auto
  let ?s = "s\<lparr>cv_in_sh := sh, cv_in := si, cv_inbox := q\<rparr>" and ?t = "s\<lparr>cv_in_sh := sh, cv_in := si\<lparr>si_next := None\<rparr>, cv_inbox := q, cv_received := cv_received s @ [p]\<rparr>"
  have taken: "taken_all ?t = taken_all ?s" using p(2) by (simp add: taken_all_def peeked_def)
  obtain s1 where s1: "credit_all cr si0 (map zp_ptype (taken_all ?s)) = Some s1"
      "si = s1\<lparr>si_next := si_next si, si_seq := si_seq si0 + of_nat (length (taken_all ?s))\<rparr>"
    using p(3) unfolding conv_inv_def by auto
  have "cv_in ?t = s1\<lparr>si_next := si_next (cv_in ?t), si_seq := si_seq si0 + of_nat (length (taken_all ?t))\<rparr>"
    unfolding taken by (subst s1(2)) simp
  then have "conv_inv ?t" using p(3) s1(1) unfolding conv_inv_def taken by auto
  then show ?thesis using p Cons by (simp add: recv_msg_def)
qed

lemma step_ok:
  assumes "conv_inv s" and "conv_legal L cr oc si0 x s"
  shows "\<exists>s'. conv_step L cr oc x s = Some s' \<and> conv_inv s'"
  using assms
proof (cases x)
  case (SendMsg z)
  then show ?thesis using send_step assms by blast
next
  case (Stray p n)
  then show ?thesis using stray_step assms by blast
next
  case RecvNext
  then show ?thesis using recv_step [OF assms(1)] by blast
qed (use assms chan_steps transport_step peek_step in blast)+

lemma reach_inv:
  assumes "conv_reach L cr oc si0 s0 s" and "conv_inv s0"
  shows "conv_inv s"
  using assms
proof (induction rule: conv_reach.induct)
  case (step s x s')
  then show ?case using step_ok [of s x] by auto
qed

lemma conversation_delivers:
  assumes reach: "conv_reach L cr oc si0 (conv_start so0 sh c si0 sh') s" and start: "paired so0 sh si0" "good c" "queue c = []"
  shows "(\<exists>ps. cv_accepted s = cv_received s @ peeked (cv_in s) @ ours (si_id si0) (cv_inbox s) @ ps \<and> length ps = length (queue (cv_chan s)))
    \<and> (\<forall>x. conv_legal L cr oc si0 x s \<longrightarrow> conv_step L cr oc x s \<noteq> None)
    \<and> (\<exists>s'. conv_step L cr oc RecvNext s = Some s'
         \<and> cv_received s' = cv_received s @ take 1 (peeked (cv_in s) @ ours (si_id si0) (cv_inbox s)))
    \<and> map_option si_credits (credit_all cr si0 (map zp_ptype (cv_received s @ peeked (cv_in s)))) = Some (si_credits (cv_in s))"
proof -
  have inv: "conv_inv s" using reach_inv [OF reach inv_start [OF start]] .
  have "\<exists>ps. cv_accepted s = cv_received s @ peeked (cv_in s) @ ours (si_id si0) (cv_inbox s) @ ps \<and> length ps = length (queue (cv_chan s))"
    using inv unfolding conv_inv_def taken_all_def by (auto dest: list_all2_lengthD)
  moreover have "\<forall>x. conv_legal L cr oc si0 x s \<longrightarrow> conv_step L cr oc x s \<noteq> None" using step_ok [OF inv] by auto
  moreover obtain s1 where "credit_all cr si0 (map zp_ptype (taken_all s)) = Some s1"
      "cv_in s = s1\<lparr>si_next := si_next (cv_in s), si_seq := si_seq si0 + of_nat (length (taken_all s))\<rparr>"
    using inv by (auto simp: conv_inv_def)
  then have "map_option si_credits (credit_all cr si0 (map zp_ptype (cv_received s @ peeked (cv_in s)))) = Some (si_credits (cv_in s))"
    unfolding taken_all_def by (metis (no_types, lifting) option.map(2) session_in.select_convs(4) session_in.surjective session_in.update_convs(2,3))
  ultimately show ?thesis using recv_step [OF inv] by blast
qed

end

lemma new_channel_usable:
  "slab_spec S \<Longrightarrow> local_channel_new S bound senders = Some (k, c) \<Longrightarrow> usable S k c \<and> lc_queue c = []"
  using sender_nodes.new_refines [OF sender_nodesI, of S bound senders k c] by (auto simp: usable_def)

lemma request_pairI: "slab_spec S \<Longrightarrow> session_pair (request_link oc fmt S k) (usable S k) lc_queue oc (server_credit_msg oc)"
  by (intro session_pair.intro request_link_laws request_credits.credit_counter_axioms)

lemma response_pairI: "slab_spec S \<Longrightarrow> session_pair (response_link oc fmt S k) (usable S k) lc_queue oc (stream_credit_msg oc)"
  by (intro session_pair.intro response_link_laws response_credits.credit_counter_axioms)

interpretation request_pair: session_pair "request_link oc fmt vec_slab_ops k" "usable vec_slab_ops k" lc_queue oc "server_credit_msg oc" so0 si0
  for oc fmt k so0 si0
  by (rule request_pairI) (rule vec.slab_spec_axioms)

section \<open>Properties\<close>

text \<open>
  Property C10. A session delivers its requests. Over any interleaving of sends (accepted, refused for lack of
  room or because the packet is too large), availability checks and cancellations by the server connection,
  transports, packets for earlier ids, and peeks and receives by the client connection: the packets accepted
  for sending are exactly those received, followed by the one peeked at, those waiting, and those still in the
  channel, in order; no call panics, and no packet is refused by the receiver (the sequence numbers never get out of
  step, also not after failed sends). A receive gives the next packet if one has arrived, and the credits counted by the
  receiver are those of the packets received.
\<close>

theorem session_delivers_requests:
  fixes S :: "'s sender_slab"
  assumes "slab_spec S" and "local_channel_new S bound senders = Some (k, c)" and "paired so sh si"
    and "conv_reach (request_link oc fmt S k) (server_credit_msg oc) oc si (conv_start so sh c si sh') s"
  shows "(\<exists>ps. cv_accepted s = cv_received s @ peeked (cv_in s) @ ours (si_id si) (cv_inbox s) @ ps \<and> length ps = length (lc_queue (cv_chan s)))
    \<and> (\<forall>x. conv_legal (request_link oc fmt S k) (server_credit_msg oc) oc si x s \<longrightarrow> conv_step (request_link oc fmt S k) (server_credit_msg oc) oc x s \<noteq> None)
    \<and> (\<exists>s'. conv_step (request_link oc fmt S k) (server_credit_msg oc) oc RecvNext s = Some s'
         \<and> cv_received s' = cv_received s @ take 1 (peeked (cv_in s) @ ours (si_id si) (cv_inbox s)))
    \<and> map_option si_credits (credit_all (server_credit_msg oc) si (map zp_ptype (cv_received s @ peeked (cv_in s)))) = Some (si_credits (cv_in s))"
  using session_pair.conversation_delivers [OF request_pairI [OF assms(1)] assms(4,3)] new_channel_usable [OF assms(1,2)] by blast

text \<open>
  Property C11. The same for the responses that a client connection sends and a server connection receives, both when
  they go through the router and when they are published with the address in front of the message.
\<close>

theorem session_delivers_responses:
  fixes S :: "'s sender_slab"
  assumes "slab_spec S" and "local_channel_new S bound senders = Some (k, c)" and "paired so sh si"
    and "conv_reach (response_link oc fmt S k) (stream_credit_msg oc) oc si (conv_start so sh c si sh') s"
  shows "(\<exists>ps. cv_accepted s = cv_received s @ peeked (cv_in s) @ ours (si_id si) (cv_inbox s) @ ps \<and> length ps = length (lc_queue (cv_chan s)))
    \<and> (\<forall>x. conv_legal (response_link oc fmt S k) (stream_credit_msg oc) oc si x s \<longrightarrow> conv_step (response_link oc fmt S k) (stream_credit_msg oc) oc x s \<noteq> None)
    \<and> (\<exists>s'. conv_step (response_link oc fmt S k) (stream_credit_msg oc) oc RecvNext s = Some s'
         \<and> cv_received s' = cv_received s @ take 1 (peeked (cv_in s) @ ours (si_id si) (cv_inbox s)))
    \<and> map_option si_credits (credit_all (stream_credit_msg oc) si (map zp_ptype (cv_received s @ peeked (cv_in s)))) = Some (si_credits (cv_in s))"
  using session_pair.conversation_delivers [OF response_pairI [OF assms(1)] assms(4,3)] new_channel_usable [OF assms(1,2)] by blast

text \<open>A session over a channel with room for two messages, on which a packet is sent.\<close>

abbreviation sample_out :: session_out where
  "sample_out \<equiv> session_out_new (str ''srv'') (str ''7'') (replicate 300 0)"

abbreviation sample_shared :: shared where
  "sample_shared \<equiv> \<lparr>sh_to_addr = Some (str ''peer''), sh_out_seq = 1, sh_router_resp = True\<rparr>"

lemma sample_channel: "\<exists>c. local_channel_new (vec_slab_ops :: (sender_data slab_node vec_slab, sender_data slab_node) slab_ops) 2 1 = Some (0, c)"
  by (simp add: local_channel_new_def add_sender_def vec_slab_ops_def vec_insert_def)

lemma sample_paired:
  "paired sample_out sample_shared (server_stream_in_new (str ''7'') 5)"
  "paired sample_out (sample_shared\<lparr>sh_out_seq := 0\<rparr>) (stream_in_new (str ''7'') 100 True)"
  by (simp_all add: paired_def session_out_new_def server_stream_in_new_def stream_in_new_def peer_addr_ok_def ADDR_MAX_def)

theorem session_delivers_requests_witness:
  "\<exists>c s. local_channel_new vec_slab_ops 2 1 = Some (0, c)
    \<and> conv_step (request_link True (\<lambda>_::unit. []) vec_slab_ops 0) (server_credit_msg True) True (SendMsg sample_request)
        (conv_start sample_out sample_shared c (server_stream_in_new (str ''7'') 5) shared_new) = Some s
    \<and> (\<exists>s'. conv_step (request_link True (\<lambda>_::unit. []) vec_slab_ops 0) (server_credit_msg True) True RecvNext s = Some s'
        \<and> cv_received s' = cv_received s @ take 1 (peeked (cv_in s) @ ours (str ''7'') (cv_inbox s)))"
proof -
  let ?L = "request_link True (\<lambda>_::unit. []) (vec_slab_ops :: (sender_data slab_node vec_slab, sender_data slab_node) slab_ops) 0"
  let ?si = "server_stream_in_new (str ''7'') 5"
  obtain c :: "(sender_data slab_node vec_slab, bytes \<times> bytes) local_channel" where c: "local_channel_new (vec_slab_ops :: (sender_data slab_node vec_slab, sender_data slab_node) slab_ops) 2 1 = Some (0, c)"
    using sample_channel by blast
  let ?s = "conv_start sample_out sample_shared c ?si shared_new"
  note deliver = session_delivers_requests [OF vec.slab_spec_axioms c sample_paired(1)]
  have legal: "conv_legal ?L (server_credit_msg True) True ?si (SendMsg sample_request) ?s"
    by (simp add: request_link_simps conv_start_def seq_left_def sample_request_def request_new_data_def packet_new_def request_data_ok_def
        headers_ok_def request_data_new_def request_data_sent_def HEADERS_MAX_def server_credit_msg_def add_credits_def u32_add_def server_stream_in_new_def del: str_simps)
  obtain s where s: "conv_step ?L (server_credit_msg True) True (SendMsg sample_request) ?s = Some s"
    using deliver [OF conv_reach.start] legal by blast
  have "conv_reach ?L (server_credit_msg True) True ?si ?s s" by (rule conv_reach.step [OF conv_reach.start legal s])
  from deliver [OF this] show ?thesis using c s by (auto simp: server_stream_in_new_def)
qed

theorem session_delivers_responses_witness:
  "\<exists>c s. local_channel_new vec_slab_ops 2 1 = Some (0, c)
    \<and> conv_step (response_link True (\<lambda>_::unit. []) vec_slab_ops 0) (stream_credit_msg True) True (SendMsg sample_response)
        (conv_start sample_out (sample_shared\<lparr>sh_out_seq := 0\<rparr>) c (stream_in_new (str ''7'') 100 True) shared_new) = Some s
    \<and> (\<exists>s'. conv_step (response_link True (\<lambda>_::unit. []) vec_slab_ops 0) (stream_credit_msg True) True RecvNext s = Some s'
        \<and> cv_received s' = cv_received s @ take 1 (peeked (cv_in s) @ ours (str ''7'') (cv_inbox s)))"
proof -
  let ?L = "response_link True (\<lambda>_::unit. []) (vec_slab_ops :: (sender_data slab_node vec_slab, sender_data slab_node) slab_ops) 0"
  let ?si = "stream_in_new (str ''7'') 100 True"
  obtain c :: "(sender_data slab_node vec_slab, bytes option \<times> bytes) local_channel" where c: "local_channel_new (vec_slab_ops :: (sender_data slab_node vec_slab, sender_data slab_node) slab_ops) 2 1 = Some (0, c)"
    using sample_channel by blast
  let ?s = "conv_start sample_out (sample_shared\<lparr>sh_out_seq := 0\<rparr>) c ?si shared_new"
  note deliver = session_delivers_responses [OF vec.slab_spec_axioms c sample_paired(2)]
  have legal: "conv_legal ?L (stream_credit_msg True) True ?si (SendMsg sample_response) ?s"
    using sample_response_fits(3)
    by (simp add: response_link_simps conv_start_def seq_left_def sample_response_def response_new_error_def packet_new_def
        stream_credit_msg_def stream_in_new_def)
  obtain s where s: "conv_step ?L (stream_credit_msg True) True (SendMsg sample_response) ?s = Some s"
    using deliver [OF conv_reach.start] legal by blast
  have "conv_reach ?L (stream_credit_msg True) True ?si ?s s" by (rule conv_reach.step [OF conv_reach.start legal s])
  from deliver [OF this] show ?thesis using c s by (auto simp: stream_in_new_def)
qed

end
