(* ===== verification/Http1Stream.thy ===== *)
theory Http1Stream
  imports Http1Body BufferBudget
begin

text \<open>
  The HTTP/1 protocol over the buffers of a connection, \<open>src/core/http1/server.rs\<close> and \<open>client.rs\<close>: reading a body
  out of the receive buffer (\<open>RequestBody::try_recv\<close>, \<open>ResponseBody::try_recv\<close>), putting body bytes into the send buffer
  (\<open>prepare\<close>, \<open>expand_write_buffer\<close>) and sending from it (\<open>send\<close>). An asynchronous operation is one poll of it: the
  attempt to write that \<open>AsyncOperation\<close> makes, or the bytes that have arrived. The \<open>Option\<close> that the code takes a
  body out of while it works, and leaves empty when the body has ended or failed, is an option here.
\<close>

section \<open>Errors and results\<close>

datatype 'e wrap_error = WIo io_error | WProtocol "'e http_error" | RequestTooLarge nat | ResponseTooManyHeaders nat
  | ResponseDuringContinue | FurtherInputNotAllowed | WBufferExceeded | Unusable

datatype 'c body_status = BodyNeedBytes | BodyRead bytes | BodyComplete 'c bytes

datatype ('c, 'e) body_sent = SentComplete 'c | SentEarly 'c | SentPartial nat | SentError "'e wrap_error"

section \<open>Reading a request body\<close>

record req_body =
  qb_buf :: ring_buffer
  qb_proto :: server_protocol
  qb_usable :: bool

partial_function (option) req_try_recv ::
  "'e httparse \<Rightarrow> req_body \<Rightarrow> nat \<Rightarrow> (('e wrap_error + unit body_status) \<times> req_body) option" where
  "req_try_recv HT b dest_len =
     (if \<not> qb_usable b then Some (Inl Unusable, b)
      else do {
        (r, read, p) \<leftarrow>
          (if sp_state (qb_proto b) = ReceivingBody then do {
             src \<leftarrow> rb_read_buf (qb_buf b);
             recv_body HT HTTP_HEADERS_MAX (qb_proto b) src dest_len
           } else Some (Inr (Some ([], None)), 0, qb_proto b));
        case r of
          Inl e \<Rightarrow> Some (Inl (WProtocol e), b\<lparr>qb_proto := p, qb_usable := False\<rparr>)
        | Inr got \<Rightarrow> do {
            let written = (case got of Some (data, _) \<Rightarrow> data | None \<Rightarrow> []);
            let fin = (sp_state (qb_proto b) \<noteq> ReceivingBody \<or> sp_state p = AwaitingResponse);
            if fin then do {
              rb \<leftarrow> rb_read_commit (qb_buf b) read;
              _ \<leftarrow> assert_that (sp_state p = AwaitingResponse);
              Some (Inr (BodyComplete () written), \<lparr>qb_buf = rb, qb_proto = p, qb_usable = False\<rparr>)
            }
            else if got = None then
              (if read = 0 \<and> \<not> is_readable_contiguous (qb_buf b) then do {
                 (_, rb) \<leftarrow> align (qb_buf b);
                 req_try_recv HT (b\<lparr>qb_buf := rb, qb_proto := p\<rparr>) dest_len
               } else Some (Inr BodyNeedBytes, b\<lparr>qb_proto := p\<rparr>))
            else do {
              rb \<leftarrow> rb_read_commit (qb_buf b) read;
              let b = b\<lparr>qb_buf := rb, qb_proto := p\<rparr>;
              if read > 0 \<and> written = [] then req_try_recv HT b dest_len
              else do {
                _ \<leftarrow> assert_that (written \<noteq> [] \<or> read = 0);
                Some (Inr (BodyRead written), b)
              }
            }
          }
      })"

text \<open>
  What arrives on the socket while a body is read: \<open>add_to_buffer\<close>, from its read on. The bytes go to the slice
  that \<open>write_buf\<close> gives; a full buffer is the error \<open>WriteZero\<close>, the end of the stream \<open>UnexpectedEof\<close>.
\<close>

definition req_add :: "req_body \<Rightarrow> io_error + bytes \<Rightarrow> (('e wrap_error + unit) \<times> req_body) run" where
  "req_add b arrived =
     (if \<not> qb_usable b then Some (Inl Unusable, b)
      else case arrived of
        Inr data \<Rightarrow> do { rb \<leftarrow> rb_fill (qb_buf b) data; rb \<leftarrow> rb_write_commit rb (length data); Some (Inr (), b\<lparr>qb_buf := rb\<rparr>) }
      | Inl e \<Rightarrow> Some (Inl (if e = WriteZero then WBufferExceeded else WIo e), b\<lparr>qb_usable := False\<rparr>))"

section \<open>Reading a response body\<close>

record resp_in =
  ri_closed :: bool
  ri_buf :: ring_buffer
  ri_state :: client_state
  ri_usable :: bool

partial_function (option) resp_try_recv ::
  "'e httparse \<Rightarrow> resp_in \<Rightarrow> nat \<Rightarrow> (('e wrap_error + client_finished body_status) \<times> resp_in) option" where
  "resp_try_recv HT b dest_len =
     (if \<not> ri_usable b then Some (Inl Unusable, b)
      else do {
        src \<leftarrow> rb_read_buf (ri_buf b);
        let fin = (length src = rb_len (ri_buf b) \<and> ri_closed b);
        r \<leftarrow> client_recv HT HTTP_HEADERS_MAX (ri_state b) src dest_len fin;
        case r of
          Inl e \<Rightarrow> Some (Inl (WProtocol e), b\<lparr>ri_usable := False\<rparr>)
        | Inr (NeedBytes s) \<Rightarrow>
            (if \<not> is_readable_contiguous (ri_buf b) then do {
               (_, rb) \<leftarrow> align (ri_buf b);
               resp_try_recv HT (b\<lparr>ri_buf := rb, ri_state := s\<rparr>) dest_len
             } else Some (Inr BodyNeedBytes, b\<lparr>ri_state := s\<rparr>))
        | Inr (RecvComplete finished read data) \<Rightarrow> do {
            rb \<leftarrow> rb_read_commit (ri_buf b) read;
            Some (Inr (BodyComplete finished data), b\<lparr>ri_buf := rb, ri_usable := False\<rparr>)
          }
        | Inr (Read s read data) \<Rightarrow> do {
            rb \<leftarrow> rb_read_commit (ri_buf b) read;
            let b = b\<lparr>ri_buf := rb, ri_state := s\<rparr>;
            if read > 0 \<and> data = [] then resp_try_recv HT b dest_len
            else do {
              _ \<leftarrow> assert_that (data \<noteq> [] \<or> read = 0);
              Some (Inr (BodyRead data), b)
            }
          }
      })"

definition resp_add :: "resp_in \<Rightarrow> io_error + bytes \<Rightarrow> (('e wrap_error + unit) \<times> resp_in) run" where
  "resp_add b arrived =
     (if \<not> ri_usable b then Some (Inl Unusable, b)
      else if ri_closed b then Some (Inr (), b)
      else case arrived of
        Inr data \<Rightarrow> do { rb \<leftarrow> rb_fill (ri_buf b) data; rb \<leftarrow> rb_write_commit rb (length data); Some (Inr (), b\<lparr>ri_buf := rb\<rparr>) }
      | Inl e \<Rightarrow>
          Some (if e = WriteZero then (Inl WBufferExceeded, b)
                else if e = UnexpectedEof then (Inr (), b\<lparr>ri_closed := True\<rparr>)
                else (Inl (WIo e), b)))"

section \<open>Sending a body\<close>

record 'p body_out =
  bo_buf :: ring_buffer
  bo_proto :: 'p
  bo_end :: bool
  bo_usable :: bool
  bo_broken :: bool

definition body_prepare :: "'p body_out \<Rightarrow> bytes \<Rightarrow> bool \<Rightarrow> (('e wrap_error + nat) \<times> 'p body_out) run" where
  "body_prepare b src fin =
     (if \<not> bo_usable b then Some (Inl Unusable, b)
      else if bo_end b then Some (Inl FurtherInputNotAllowed, b)
      else do {
        (r, rb) \<leftarrow> rb_write (bo_buf b) src;
        n \<leftarrow> (case r of Inr n \<Rightarrow> Some n | Inl e \<Rightarrow> if e = WriteZero then Some 0 else panic);
        _ \<leftarrow> assert_that (n \<le> length src);
        Some (Inr n, b\<lparr>bo_buf := rb, bo_end := (n = length src \<and> fin)\<rparr>)
      })"

definition body_expand ::
  "'p body_out \<Rightarrow> buffer_budget \<Rightarrow> nat \<Rightarrow> (('e wrap_error + nat) \<times> 'p body_out \<times> buffer_budget \<times> nat) run" where
  "body_expand b budget avail =
     (if \<not> bo_usable b then Some (Inl Unusable, b, budget, avail)
      else do {
        (n, budget, avail, rb) \<leftarrow> expand_buffer_if_needed budget avail (bo_buf b);
        Some (Inr n, b\<lparr>bo_buf := rb\<rparr>, budget, avail)
      })"

definition can_send :: "'p body_out \<Rightarrow> bool" where
  "can_send b \<longleftrightarrow> bo_usable b \<and> (rb_len (bo_buf b) > 0 \<or> bo_end b)"

text \<open>
  One poll of \<open>send\<close> with a write half that is ready for writing, the writer \<open>w\<close>: \<open>None\<close> is pending.
  \<open>BUFFER_BUFS_MAX\<close> is 2.
\<close>

definition resp_send_poll ::
  "'w writer \<Rightarrow> 'w \<Rightarrow> server_protocol body_out \<Rightarrow> ((server_protocol, 'e) body_sent option \<times> server_protocol body_out \<times> 'w) run" where
  "resp_send_poll W w b =
     (if \<not> bo_usable b then Some (Some (SentError Unusable), b, w)
      else do {
        _ \<leftarrow> assert_that (sp_state (bo_proto b) = SendingBody);
        (r, p, w) \<leftarrow>
          (if rb_len (bo_buf b) = 0 \<and> \<not> bo_end b then Some (Inr 0, bo_proto b, w)
           else do {
             bufs \<leftarrow> rb_read_bufs (bo_buf b) 2;
             send_body W w (bo_proto b) bufs (bo_end b) None
           });
        let b = b\<lparr>bo_proto := p\<rparr>;
        case r of
          Inl e \<Rightarrow> Some (if e = Io WouldBlock then None else Some (SentError (WProtocol e)), b, w)
        | Inr n \<Rightarrow> do {
            rb \<leftarrow> rb_read_commit (bo_buf b) n;
            if sp_state p = Finished then do {
              _ \<leftarrow> assert_that (rb_len rb = 0);
              Some (Some (SentComplete p), b\<lparr>bo_buf := rb, bo_usable := False\<rparr>, w)
            } else Some (Some (SentPartial n), b\<lparr>bo_buf := rb\<rparr>, w)
          }
      })"

text \<open>
  On the client side, bytes that have arrived before the body is sent are an early response, which ends the
  sending; \<open>inbuf\<close> is the number of bytes in the receive buffer. After a broken pipe nothing more is written, and the call
  waits for such bytes (\<open>bo_broken\<close>, the second half of \<open>process\<close>).
\<close>

definition req_send_poll ::
  "'w writer \<Rightarrow> nat \<Rightarrow> 'w \<Rightarrow> client_state body_out \<Rightarrow> ((client_state, 'e) body_sent option \<times> client_state body_out \<times> 'w) run" where
  "req_send_poll W inbuf w b =
     (if \<not> bo_usable b then Some (Some (SentError Unusable), b, w)
      else if inbuf > 0 then
        Some (Some (SentEarly (into_early_response (bo_proto b))), b\<lparr>bo_buf := rb_clear (bo_buf b), bo_usable := False\<rparr>, w)
      else if bo_broken b then Some (None, b, w)
      else do {
        bufs \<leftarrow> rb_read_bufs (bo_buf b) 2;
        (r, w) \<leftarrow> client_send W w (bo_proto b) bufs (bo_end b) None;
        case r of
          SendError s e \<Rightarrow>
            Some (if e = Io WouldBlock \<or> e = Io BrokenPipe then None else Some (SentError (WProtocol e)),
              b\<lparr>bo_proto := s, bo_broken := (e = Io BrokenPipe)\<rparr>, w)
        | SendComplete s n \<Rightarrow> do {
            rb \<leftarrow> rb_read_commit (bo_buf b) n;
            _ \<leftarrow> assert_that (rb_len rb = 0);
            Some (Some (SentComplete s), b\<lparr>bo_buf := rb, bo_proto := s, bo_usable := False\<rparr>, w)
          }
        | SendPartial s n \<Rightarrow> do {
            rb \<leftarrow> rb_read_commit (bo_buf b) n;
            Some (Some (SentPartial n), b\<lparr>bo_buf := rb, bo_proto := s\<rparr>, w)
          }
      })"

section \<open>The readers return\<close>

text \<open>The bytes a call finds in front of it are a prefix of the contents, all of them when the buffer does not wrap.\<close>

lemma read_buf_prefix:
  assumes "rb_inv rb"
  obtains src where "rb_read_buf rb = Some src" and "src = take (length src) (rb_contents rb)" and "length src \<le> length (rb_contents rb)"
    and "is_readable_contiguous rb \<Longrightarrow> src = rb_contents rb"
proof -
  let ?src = "take (length (rb_buf rb) - rb_start rb) (rb_contents rb)"
  have "length (rb_contents rb) \<le> length (rb_buf rb) - rb_start rb" if "is_readable_contiguous rb"
    using that assms by (auto simp: is_readable_contiguous_def rb_inv_def)
  then show ?thesis using that [of ?src] rb_read_buf_contents [OF assms] by (auto simp: min_def)
qed

definition stream_buf :: "ring_buffer \<Rightarrow> bool" where
  "stream_buf rb \<longleftrightarrow> rb_inv rb \<and> rb_tmp_ok rb"

lemma stream_buf_commit:
  assumes "stream_buf rb" and "n \<le> length (rb_contents rb)"
  obtains rb' where "rb_read_commit rb n = Some rb'" and "stream_buf rb'" and "rb_contents rb' = drop n (rb_contents rb)"
    and "is_readable_contiguous rb \<Longrightarrow> is_readable_contiguous rb'"
proof -
  obtain rb' where rb': "rb_read_commit rb n = Some rb'" "rb_inv rb'" "rb_contents rb' = drop n (rb_contents rb)"
    "rb_buf rb' = rb_buf rb" "rb_tmp_len rb' = rb_tmp_len rb"
    using rb_read_commit_contents assms unfolding stream_buf_def by blast
  moreover have "is_readable_contiguous rb'" if "is_readable_contiguous rb"
    using rb'(1,4) that by (auto simp: rb_read_commit_def is_readable_contiguous_def assert_that_bind Let_def split: if_splits)
  ultimately show ?thesis using that assms by (auto simp: stream_buf_def rb_tmp_ok_def)
qed

lemma stream_buf_align:
  assumes "stream_buf rb"
  obtains n rb' where "align rb = Some (n, rb')" and "stream_buf rb'" and "rb_contents rb' = rb_contents rb" and "is_readable_contiguous rb'"
  using align_result [of rb] assms that by (fastforce simp: stream_buf_def rb_tmp_ok_def is_readable_contiguous_def rb_inv_def)

definition read_measure :: "ring_buffer \<Rightarrow> nat" where
  "read_measure rb = 2 * length (rb_contents rb) + (if is_readable_contiguous rb then 0 else 1)"

lemma read_measure_commit:
  assumes "stream_buf rb" and "rb_read_commit rb n = Some rb'" and "0 < n" and "n \<le> length (rb_contents rb)"
    and "rb_contents rb' = drop n (rb_contents rb)"
  shows "read_measure rb' < read_measure rb"
  using assms by (auto simp: read_measure_def)

text \<open>What the calls on a request body give: at most the room of the destination, and never more input than there is.\<close>

lemma recv_body_data:
  assumes "recv_body HT slots p src n = Some (Inr (Some (data, tr)), k, p')"
  shows "length data \<le> n \<and> (data \<noteq> [] \<longrightarrow> k > 0)"
  using assms
  by (auto simp: recv_body_def recv_known_def recv_chunked_def recv_content_def recv_footer_def assert_that_bind Let_def subslice_Some_iff
      split: body_size.splits bind_splits if_splits option.splits sum.splits prod.splits)

definition req_ready :: "req_body \<Rightarrow> bool" where
  "req_ready b \<longleftrightarrow> stream_buf (qb_buf b) \<and> server_inv (qb_proto b) \<and> (qb_usable b \<longrightarrow> sp_state (qb_proto b) \<in> {ReceivingBody, AwaitingResponse})"

fun status_bytes :: "'c body_status \<Rightarrow> bytes" where
  "status_bytes BodyNeedBytes = []"
| "status_bytes (BodyRead d) = d"
| "status_bytes (BodyComplete _ d) = d"

lemma req_try_recv_returns:
  assumes "httparse_bounded HT" and "req_ready b"
  shows "\<exists>r b'. req_try_recv HT b n = Some (r, b') \<and> req_ready b'
    \<and> (\<forall>st. r = Inr st \<longrightarrow> length (status_bytes st) \<le> n)"
  using assms(2)
proof (induction "read_measure (qb_buf b)" arbitrary: b rule: less_induct)
  case less
  note prem = less.prems
  show ?case
  proof (cases "qb_usable b \<and> sp_state (qb_proto b) = ReceivingBody")
    case False
    then show ?thesis
    proof (cases "qb_usable b")
      case True
      with False prem have "sp_state (qb_proto b) = AwaitingResponse" by (auto simp: req_ready_def)
      moreover obtain rb' where "rb_read_commit (qb_buf b) 0 = Some rb'" "stream_buf rb'"
        using stream_buf_commit [of "qb_buf b" 0] prem by (auto simp: req_ready_def)
      ultimately show ?thesis using True prem by (subst req_try_recv.simps) (auto simp: req_ready_def)
    qed (use prem in \<open>subst req_try_recv.simps, simp\<close>)
  next
    case True
    have buf: "stream_buf (qb_buf b)" and inv: "server_inv (qb_proto b)" using prem by (auto simp: req_ready_def)
    obtain src where src: "rb_read_buf (qb_buf b) = Some src" "length src \<le> length (rb_contents (qb_buf b))"
      using read_buf_prefix buf unfolding stream_buf_def by metis
    obtain x k p where r: "recv_body HT HTTP_HEADERS_MAX (qb_proto b) src n = Some (x, k, p)" "server_inv p" "k \<le> length src"
        "sp_state p = ReceivingBody \<or> sp_state p = AwaitingResponse"
      using recv_body_ok [OF inv assms(1)] True unfolding recv_ok_def by blast
    obtain rb' where rb': "rb_read_commit (qb_buf b) k = Some rb'" "stream_buf rb'" "rb_contents rb' = drop k (rb_contents (qb_buf b))"
      using stream_buf_commit [OF buf, of k] src(2) r(3) by auto
    note eq = req_try_recv.simps [of HT b n]
    show ?thesis
    proof (cases x)
      case (Inl e)
      then show ?thesis using True src r buf by (subst eq) (auto simp: req_ready_def)
    next
      case (Inr got)
      have len: "length (case got of None \<Rightarrow> [] | Some (data, _) \<Rightarrow> data) \<le> n" "got = Some (data, tr) \<Longrightarrow> data \<noteq> [] \<Longrightarrow> k > 0" for data tr
        using recv_body_data [of HT HTTP_HEADERS_MAX "qb_proto b" src n] r(1) Inr by (auto split: option.split)
      consider (fin) "sp_state p = AwaitingResponse"
        | (align) "sp_state p = ReceivingBody" "got = None" "k = 0" "\<not> is_readable_contiguous (qb_buf b)"
        | (need) "sp_state p = ReceivingBody" "got = None" "\<not> (k = 0 \<and> \<not> is_readable_contiguous (qb_buf b))"
        | (again) tr where "sp_state p = ReceivingBody" "got = Some ([], tr)" "k > 0"
        | (read) data tr where "sp_state p = ReceivingBody" "got = Some (data, tr)" "\<not> (k > 0 \<and> data = [])"
        using r(4) by (cases got) auto
      then show ?thesis
      proof cases
        case fin
        then show ?thesis using True src r rb' Inr len(1) by (subst eq) (auto simp: req_ready_def)
      next
        case align
        obtain m rb2 where a: "Buffer.align (qb_buf b) = Some (m, rb2)" "stream_buf rb2" "rb_contents rb2 = rb_contents (qb_buf b)" "is_readable_contiguous rb2"
          using stream_buf_align [OF buf] .
        have "read_measure rb2 < read_measure (qb_buf b)" using a align by (simp add: read_measure_def)
        then show ?thesis using less.hyps [of "b\<lparr>qb_buf := rb2, qb_proto := p\<rparr>"] True src r Inr align a
          by (subst eq) (simp add: req_ready_def)
      next
        case need
        then show ?thesis using True src r Inr buf by (subst eq) (auto simp: req_ready_def)
      next
        case again
        have "read_measure rb' < read_measure (qb_buf b)" using read_measure_commit [OF buf rb'(1) again(3) _ rb'(3)] src(2) r(3) by simp
        then show ?thesis using less.hyps [of "b\<lparr>qb_buf := rb', qb_proto := p\<rparr>"] True src r Inr again rb'
          by (subst eq) (simp add: req_ready_def)
      next
        case read
        then show ?thesis using True src r Inr rb' len by (subst eq) (auto simp: req_ready_def assert_that_bind)
      qed
    qed
  qed
qed

section \<open>Properties\<close>

lemma whole_read_buf: "stream_buf rb \<Longrightarrow> is_readable_contiguous rb \<Longrightarrow> rb_read_buf rb = Some (rb_contents rb)"
  using read_buf_prefix [of rb] unfolding stream_buf_def by metis

text \<open>
  Property C16. Reading a request body always returns: for any bytes in the receive buffer, wrapped or not, \<open>try_recv\<close> ends its
  loop without a panic, leaves the buffer and the protocol in a valid state, and gives at most as many bytes as it was
  asked for, provided that \<open>httparse\<close> does not report more bytes than it was given.
\<close>

theorem request_body_read_returns:
  assumes "httparse_bounded HT" and "req_ready b"
  shows "\<exists>r b'. req_try_recv HT b n = Some (r, b') \<and> req_ready b' \<and> (\<forall>st. r = Inr st \<longrightarrow> length (status_bytes st) \<le> n)"
  by (rule req_try_recv_returns [OF assms])

text \<open>
  Property C33. A size line that arrives before its chunk is read twice. When the receive buffer ends right after the size line
  of a chunk, \<open>recv_body\<close> takes in the line and asks for more bytes; \<open>try_recv\<close> then returns without removing the line from the
  buffer. Once bytes of the chunk follow, the line is handed to the caller as the beginning of the chunk's data.
\<close>

theorem request_chunk_line_reread:
  assumes HT: "chunk_parser HT" and n: "0 < n" "n \<le> CHUNK_SIZE_MAX" and d: "0 < d"
    and b: "qb_usable b" "sp_state (qb_proto b) = ReceivingBody" "sp_body_size (qb_proto b) = Unknown" "sp_chunk_left (qb_proto b) = None"
    and buf: "stream_buf (qb_buf b)" "is_readable_contiguous (qb_buf b)" "rb_contents (qb_buf b) = size_line n"
    and rb: "stream_buf rb" "is_readable_contiguous rb" "rb_contents rb = size_line n @ data"
  shows "\<exists>b1 b2. req_try_recv HT b d = Some (Inr BodyNeedBytes, b1) \<and> rb_contents (qb_buf b1) = size_line n
    \<and> req_try_recv HT (b1\<lparr>qb_buf := rb\<rparr>) d = Some (Inr (BodyRead (take (min n d) (size_line n @ data))), b2)"
proof -
  let ?p = "(qb_proto b)\<lparr>sp_chunk_left := Some n, sp_chunk_size := n\<rparr>"
  have line: "ht_chunk_size HT (size_line n) = Inr (Some (length (size_line n), n))"
    using HT n(2) unfolding chunk_parser_def by (metis append_Nil2)
  have small: "n < 2 ^ 32" using n(2) by (simp add: CHUNK_SIZE_MAX_def)
  have "recv_body HT HTTP_HEADERS_MAX (qb_proto b) (size_line n) d = Some (Inr None, length (size_line n), ?p)"
    using b n line small by (simp add: recv_body_def recv_chunked_def recv_content_def Let_def)
  then have first: "req_try_recv HT b d = Some (Inr BodyNeedBytes, b\<lparr>qb_proto := ?p\<rparr>)"
    using b buf whole_read_buf [OF buf(1,2)] by (subst req_try_recv.simps) simp
  let ?k = "min n d" and ?src = "size_line n @ data"
  let ?k = "min (min n (length ?src)) d"
  have pos: "0 < ?k" "?k \<le> length (rb_contents rb)" "take ?k ?src = take (min n d) ?src" using n d rb(3) by (auto simp: size_line_def min_def)
  have r: "recv_body HT HTTP_HEADERS_MAX ?p ?src d = Some (Inr (Some (take ?k ?src, None)), ?k, ?p\<lparr>sp_chunk_left := Some (n - ?k)\<rparr>)"
    using b n by (simp add: recv_body_def recv_chunked_def recv_content_def Let_def size_line_def)
  obtain rb' where rb': "rb_read_commit rb ?k = Some rb'" using stream_buf_commit [OF rb(1) pos(2)] .
  have ne: "take ?k ?src \<noteq> []" using pos(1) by (simp add: size_line_def)
  have "\<exists>b2. req_try_recv HT (b\<lparr>qb_proto := ?p, qb_buf := rb\<rparr>) d = Some (Inr (BodyRead (take ?k ?src)), b2)"
    using b rb whole_read_buf [OF rb(1,2)] r rb' ne by (subst req_try_recv.simps) (simp del: take_append take_eq_Nil)
  then show ?thesis using first buf(3) pos(3) by auto
qed

text \<open>A buffer of 16 bytes that holds the size line \<open>5\<close>, and then also the chunk \<open>hello\<close>.\<close>

definition line_buf :: ring_buffer where
  "line_buf = \<lparr>rb_buf = [53, 13, 10] @ replicate 13 0, rb_start = 0, rb_end = 3, rb_tmp_len = 16\<rparr>"

definition chunk_buf :: ring_buffer where
  "chunk_buf = \<lparr>rb_buf = [53, 13, 10, 104, 101, 108, 108, 111] @ replicate 8 0, rb_start = 0, rb_end = 8, rb_tmp_len = 16\<rparr>"

definition line_body :: req_body where
  "line_body = \<lparr>qb_buf = line_buf, qb_proto = server_new\<lparr>sp_state := ReceivingBody, sp_body_size := Unknown\<rparr>, qb_usable = True\<rparr>"

lemma size_line_5: "size_line 5 = [53, 13, 10]"
  by (simp add: size_line_def hex_digits.simps [of 5] hex_digit_def)

lemma line_buf_ok:
  "stream_buf line_buf" "is_readable_contiguous line_buf" "rb_contents line_buf = size_line 5"
  "stream_buf chunk_buf" "is_readable_contiguous chunk_buf" "rb_contents chunk_buf = size_line 5 @ [104, 101, 108, 108, 111]"
  unfolding size_line_5
  by (simp_all add: line_buf_def chunk_buf_def stream_buf_def rb_inv_def rb_tmp_ok_def is_readable_contiguous_def rb_contents_def numeral_eq_Suc)

theorem request_chunk_line_reread_witness:
  "\<exists>b1 b2. req_try_recv plain_parser line_body 100 = Some (Inr BodyNeedBytes, b1)
    \<and> req_try_recv plain_parser (b1\<lparr>qb_buf := chunk_buf\<rparr>) 100 = Some (Inr (BodyRead [53, 13, 10, 104, 101]), b2)"
proof -
  have b: "qb_usable line_body" "sp_state (qb_proto line_body) = ReceivingBody" "sp_body_size (qb_proto line_body) = Unknown"
    "sp_chunk_left (qb_proto line_body) = None" "qb_buf line_body = line_buf"
    by (simp_all add: line_body_def server_new_def)
  have "(0 :: nat) < 5" "5 \<le> CHUNK_SIZE_MAX" "(0 :: nat) < 100" by (simp_all add: CHUNK_SIZE_MAX_def)
  from request_chunk_line_reread [OF plain_chunk_parser this b(1-4), unfolded b(5), OF line_buf_ok(1-6)]
  show ?thesis by (simp add: size_line_5) blast
qed

lemma plain_bounded: "httparse_bounded plain_parser"
proof -
  have "length (takeWhile is_hex buf) + 2 \<le> length buf" if "take 2 (drop (length (takeWhile is_hex buf)) buf) = [13, 10]" for buf
  proof -
    have "length (take 2 (drop (length (takeWhile is_hex buf)) buf)) = 2" using that by simp
    then show ?thesis by simp
  qed
  moreover have "2 \<le> length buf" if "take 2 buf = [13, 10 :: u8]" for buf
  proof -
    have "length (take 2 buf) = 2" using that by simp
    then show ?thesis by simp
  qed
  ultimately show ?thesis by (auto simp: httparse_bounded_def plain_parser_def Let_def split: if_splits)
qed

theorem request_body_read_returns_witness:
  "\<exists>r b'. req_try_recv plain_parser line_body 100 = Some (r, b') \<and> req_ready b'"
proof -
  have "req_ready line_body" using line_buf_ok(1) by (simp add: req_ready_def line_body_def server_inv_def server_new_def pending_ok_def)
  from request_body_read_returns [OF plain_bounded this, of 100] show ?thesis by blast
qed

end
