(* ===== verification/ZhttpFlow.thy ===== *)
theory ZhttpFlow
  imports SessionLink Http1Stream
begin

text \<open>
  The transfer of bodies between a connection and its handler, \<open>src/connmgr/connection.rs\<close>: \<open>stream_recv_body\<close> and
  \<open>server_stream_recv_body\<close> read a body from the socket and send it in data packets, as far as the handler has given credits;
  \<open>stream_send_body\<close> and \<open>server_stream_send_body\<close> take data packets, put them into the send buffer, and give the handler
  credits for the room that sending frees. Both handle the other packets of a session, with the handoff of a session
  to another handler (\<open>accept_handoff\<close>).

  The code is a loop around a select over futures. Here the futures that are under way are flags of the state, and a step
  is one poll of one of them: the step function is given which one, and does nothing when that future is not under way
  or is pending. The futures of the handoff have phases of their own. What a step hands to \<open>try_send_msg\<close>, and
  the data it takes from a packet, is recorded with the next state. The two roles differ in the types of the packets
  and in the body on the socket, which are arguments (\<open>role\<close>, and the operations of \<open>Http1Stream\<close>).
\<close>

section \<open>Roles\<close>

datatype packet_view = ViewData bytes bool | ViewKeepAlive | ViewCredit | ViewHandoff | ViewError | ViewCancel | ViewOther

fun response_view :: "response_packet \<Rightarrow> packet_view" where
  "response_view (RsData d) = ViewData (rs_body d) (rs_more d)"
| "response_view RsKeepAlive = ViewKeepAlive"
| "response_view (RsCredit _) = ViewCredit"
| "response_view RsHandoffStart = ViewHandoff"
| "response_view (RsError _) = ViewError"
| "response_view RsCancel = ViewCancel"
| "response_view _ = ViewOther"

fun request_view :: "request_packet \<Rightarrow> packet_view" where
  "request_view (RqData d) = ViewData (rq_body d) (rq_more d)"
| "request_view RqKeepAlive = ViewKeepAlive"
| "request_view (RqCredit _) = ViewCredit"
| "request_view RqHandoffStart = ViewHandoff"
| "request_view (RqError _) = ViewError"
| "request_view RqCancel = ViewCancel"
| "request_view _ = ViewOther"

text \<open>
  A role: the outgoing half over a channel, the incoming half, and the packets to send. \<open>ro_unexpected\<close> is the
  error for a message that arrives while a handoff is answered, where it is not expected: the error of
  \<open>discard_while\<close> is that of the receiver, if it has one; \<open>server_discard_while\<close> does not look at it.
\<close>

record ('c, 'o, 'p, 'x) role =
  ro_check :: "'c \<Rightarrow> (bool \<times> 'c) run"
  ro_cancel :: "'c \<Rightarrow> 'c run"
  ro_tx :: "session_out \<Rightarrow> shared \<Rightarrow> 'c \<Rightarrow> 'o zpacket \<Rightarrow> ((conn_error + unit) \<times> session_out \<times> shared \<times> 'c) run"
  ro_peek :: "shared \<Rightarrow> ('p, 'x) session_in_scheme \<Rightarrow> 'p recv_item list \<Rightarrow>
    ((conn_error + 'p zpacket) option \<times> shared \<times> ('p, 'x) session_in_scheme \<times> 'p recv_item list) run"
  ro_recv :: "shared \<Rightarrow> ('p, 'x) session_in_scheme \<Rightarrow> 'p recv_item list \<Rightarrow>
    ((conn_error + 'p zpacket) option \<times> shared \<times> ('p, 'x) session_in_scheme \<times> 'p recv_item list) run"
  ro_view :: "'p \<Rightarrow> packet_view"
  ro_data :: "bytes \<Rightarrow> bool \<Rightarrow> 'o zpacket"
  ro_credit :: "u32 \<Rightarrow> 'o zpacket"
  ro_proceed :: "'o zpacket"
  ro_unexpected :: "'p recv_item \<Rightarrow> conn_error"

definition stream_role ::
  "bool \<Rightarrow> ('f \<Rightarrow> bytes) \<Rightarrow> ('c, bytes \<times> bytes) chan_if \<Rightarrow>
   ('c, request_packet, response_packet, \<lparr>si_send_buf_size :: nat, si_websocket :: bool, si_first_data :: bool\<rparr>) role" where
  "stream_role oc fmt C =
     \<lparr>ro_check = ci_check C, ro_cancel = ci_cancel C, ro_tx = stream_try_send_msg oc fmt (ci_send C),
      ro_peek = stream_peek_msg oc, ro_recv = stream_recv_msg oc, ro_view = response_view,
      ro_data = \<lambda>body more. request_new_data [] [] (request_data_new\<lparr>rq_body := body, rq_more := more\<rparr>),
      ro_credit = request_new_credit [] [], ro_proceed = request_new_handoff_proceed [] [],
      ro_unexpected = \<lambda>i. case i of RcvMsg _ _ \<Rightarrow> BadMessage | RcvGone \<Rightarrow> ConnIo UnexpectedEof | RcvActive \<Rightarrow> ValueActive\<rparr>"

definition server_stream_role ::
  "bool \<Rightarrow> ('f \<Rightarrow> bytes) \<Rightarrow> ('c, bytes option \<times> bytes) chan_if \<Rightarrow> ('c, response_packet, request_packet, unit) role" where
  "server_stream_role oc fmt C =
     \<lparr>ro_check = ci_check C, ro_cancel = ci_cancel C, ro_tx = server_stream_try_send_msg oc fmt (ci_send C),
      ro_peek = server_stream_peek_msg oc, ro_recv = server_stream_recv_msg oc, ro_view = request_view,
      ro_data = \<lambda>body more. response_new_data [] [] (response_data_new\<lparr>rs_body := body, rs_more := more\<rparr>),
      ro_credit = response_new_credit [] [], ro_proceed = response_new_handoff_proceed [] [],
      ro_unexpected = \<lambda>_. BadMessage\<rparr>"

text \<open>Both halves of a session share the address and the sequence number; \<open>ss_items\<close> is what has arrived.\<close>

record ('c, 'p, 'x) session =
  ss_out :: session_out
  ss_sh :: shared
  ss_chan :: 'c
  ss_in :: "('p, 'x) session_in_scheme"
  ss_items :: "'p recv_item list"

definition session_tx ::
  "('c, 'o, 'p, 'x) role \<Rightarrow> ('c, 'p, 'x) session \<Rightarrow> 'o zpacket \<Rightarrow> ((conn_error + unit) \<times> ('c, 'p, 'x) session) run" where
  "session_tx R s z = do {
     (r, so, sh, c) \<leftarrow> ro_tx R (ss_out s) (ss_sh s) (ss_chan s) z;
     Some (r, s\<lparr>ss_out := so, ss_sh := sh, ss_chan := c\<rparr>)
   }"

definition session_poll ::
  "(shared \<Rightarrow> ('p, 'x) session_in_scheme \<Rightarrow> 'p recv_item list \<Rightarrow>
     ((conn_error + 'p zpacket) option \<times> shared \<times> ('p, 'x) session_in_scheme \<times> 'p recv_item list) run) \<Rightarrow>
   ('c, 'p, 'x) session \<Rightarrow> ((conn_error + 'p zpacket) option \<times> ('c, 'p, 'x) session) run" where
  "session_poll rx s = do {
     (r, sh, si, q) \<leftarrow> rx (ss_sh s) (ss_in s) (ss_items s);
     Some (r, s\<lparr>ss_sh := sh, ss_in := si, ss_items := q\<rparr>)
   }"

section \<open>Other packets and handoff\<close>

datatype other_result = OtherOk | OtherHandoff | OtherErr conn_error

fun handle_other :: "packet_view \<Rightarrow> other_result" where
  "handle_other ViewKeepAlive = OtherOk"
| "handle_other ViewCredit = OtherOk"
| "handle_other ViewHandoff = OtherHandoff"
| "handle_other ViewError = OtherErr Handler"
| "handle_other ViewCancel = OtherErr HandlerCancel"
| "handle_other _ = OtherErr BadMessage"

datatype handoff = NoHandoff | HandoffSend | HandoffWait

datatype flow_event = SentData bytes bool | SentCredit u32 | SentProceed | TookData bytes bool

text \<open>
  \<open>accept_handoff\<close>: wait until a message can be sent, answer, drop the address so that no keep-alives are sent, and wait
  for the next packet. A poll of it is of the channel or of the receiver.
\<close>

definition handoff_check ::
  "('c, 'o, 'p, 'x) role \<Rightarrow> ('c, 'p, 'x) session \<Rightarrow> ((conn_error + handoff) \<times> flow_event list \<times> ('c, 'p, 'x) session) run" where
  "handoff_check R s = do {
     (ready, c) \<leftarrow> ro_check R (ss_chan s);
     let s = s\<lparr>ss_chan := c\<rparr>;
     if \<not> ready then Some (Inr HandoffSend, [], s)
     else do {
       (r, s) \<leftarrow> session_tx R s (ro_proceed R);
       case r of
         Inl e \<Rightarrow> Some (Inl e, [], s)
       | Inr _ \<Rightarrow> Some (Inr HandoffWait, [SentProceed], s\<lparr>ss_sh := set_to_addr (ss_sh s) None\<rparr>)
     }
   }"

definition handoff_msg ::
  "('c, 'o, 'p, 'x) role \<Rightarrow> handoff \<Rightarrow> ('c, 'p, 'x) session \<Rightarrow> ((conn_error + handoff) \<times> ('c, 'p, 'x) session) run" where
  "handoff_msg R h s =
     (if h = HandoffSend then
        Some (case ss_items s of [] \<Rightarrow> (Inr HandoffSend, s) | i # q \<Rightarrow> (Inl (ro_unexpected R i), s\<lparr>ss_items := q\<rparr>))
      else do {
        (r, s) \<leftarrow> session_poll (ro_peek R) s;
        Some (case r of None \<Rightarrow> Inr h | Some (Inl e) \<Rightarrow> Inl e | Some (Inr _) \<Rightarrow> Inr NoHandoff, s)
      })"

section \<open>Sending a received body to the handler\<close>

record ('b, 'fin) body_source =
  bs_try :: "'b \<Rightarrow> nat \<Rightarrow> ((conn_error + 'fin body_status) \<times> 'b) run"
  bs_add :: "'b \<Rightarrow> io_error + bytes \<Rightarrow> ((conn_error + unit) \<times> 'b) run"

definition core_http :: "(('e wrap_error + 'a) \<times> 'b) run \<Rightarrow> ((conn_error + 'a) \<times> 'b) run" where
  "core_http r = map_option (\<lambda>(x, b). (case x of Inl _ \<Rightarrow> Inl CoreHttp | Inr v \<Rightarrow> Inr v, b)) r"

record ('c, 'p, 'x, 'b, 'fin) recv_loop =
  rl_sess :: "('c, 'p, 'x) session"
  rl_body :: 'b
  rl_check :: bool
  rl_add :: bool
  rl_handoff :: handoff
  rl_result :: "(conn_error + 'fin option) option"

definition recv_loop_new :: "('c, 'p, 'x) session \<Rightarrow> 'b \<Rightarrow> ('c, 'p, 'x, 'b, 'fin) recv_loop" where
  "recv_loop_new s b = \<lparr>rl_sess = s, rl_body = b, rl_check = False, rl_add = False, rl_handoff = NoHandoff, rl_result = None\<rparr>"

datatype recv_event = RvCheck | RvArrived "io_error + bytes" | RvMsg

text \<open>The head of the loop, before the select.\<close>

definition recv_enter :: "('c, 'p, 'x, 'b, 'fin) recv_loop \<Rightarrow> ('c, 'p, 'x, 'b, 'fin) recv_loop" where
  "recv_enter l = (if si_credits (ss_in (rl_sess l)) > 0 \<and> \<not> rl_add l \<and> \<not> rl_check l then l\<lparr>rl_check := True\<rparr> else l)"

text \<open>The branch taken when a message can be sent. \<open>Defer\<close> cancels the reservation of the channel at its end.\<close>

definition recv_forward ::
  "bool \<Rightarrow> ('c, 'o, 'p, 'x) role \<Rightarrow> ('b, 'fin) body_source \<Rightarrow> nat \<Rightarrow> ('c, 'p, 'x, 'b, 'fin) recv_loop \<Rightarrow>
   (flow_event list \<times> ('c, 'p, 'x, 'b, 'fin) recv_loop) run" where
  "recv_forward oc R B tmp_len l = do {
     let l = l\<lparr>rl_check := False\<rparr>;
     let s = rl_sess l;
     _ \<leftarrow> assert_that (si_credits (ss_in s) > 0);
     _ \<leftarrow> assert_that (\<not> rl_add l);
     let max_read = min tmp_len (unat (si_credits (ss_in s)));
     (r, b) \<leftarrow> bs_try B (rl_body l) max_read;
     (tr, l) \<leftarrow>
       (case r of
          Inl e \<Rightarrow> Some ([], l\<lparr>rl_body := b, rl_result := Some (Inl e)\<rparr>)
        | Inr BodyNeedBytes \<Rightarrow> Some ([], l\<lparr>rl_body := b, rl_add := True\<rparr>)
        | Inr st \<Rightarrow> do {
            let (body, fin) = (case st of BodyComplete f d \<Rightarrow> (d, Some f) | BodyRead d \<Rightarrow> (d, None) | BodyNeedBytes \<Rightarrow> ([], None));
            si \<leftarrow> subtract_credits oc (ss_in s) (word_of_nat (length body));
            (sent, s) \<leftarrow> session_tx R (s\<lparr>ss_in := si\<rparr>) (ro_data R body (fin = None));
            let l = l\<lparr>rl_body := b, rl_sess := s\<rparr>;
            Some (case sent of
                Inl e \<Rightarrow> ([], l\<lparr>rl_result := Some (Inl e)\<rparr>)
              | Inr _ \<Rightarrow> ([SentData body (fin = None)], if fin = None then l else l\<lparr>rl_result := Some (Inr fin)\<rparr>))
          });
     c \<leftarrow> ro_cancel R (ss_chan (rl_sess l));
     Some (tr, l\<lparr>rl_sess := (rl_sess l)\<lparr>ss_chan := c\<rparr>\<rparr>)
   }"

definition recv_other :: "('c, 'p, 'x, 'b, 'fin) recv_loop \<Rightarrow> packet_view \<Rightarrow> ('c, 'p, 'x, 'b, 'fin) recv_loop" where
  "recv_other l v =
     (case handle_other v of
        OtherOk \<Rightarrow> l
      | OtherHandoff \<Rightarrow> l\<lparr>rl_handoff := HandoffSend\<rparr>
      | OtherErr e \<Rightarrow> l\<lparr>rl_result := Some (Inl e)\<rparr>)"

text \<open>
  The branch for a packet. A server connection peeks, and leaves the loop when the response begins (\<open>peeks\<close>);
  a client connection receives.
\<close>

definition recv_packet ::
  "('c, 'o, 'p, 'x) role \<Rightarrow> bool \<Rightarrow> ('c, 'p, 'x, 'b, 'fin) recv_loop \<Rightarrow> ('c, 'p, 'x, 'b, 'fin) recv_loop run" where
  "recv_packet R peeks l = do {
     (r, s) \<leftarrow> session_poll (if peeks then ro_peek R else ro_recv R) (rl_sess l);
     let l = l\<lparr>rl_sess := s\<rparr>;
     case r of
       None \<Rightarrow> Some l
     | Some (Inl e) \<Rightarrow> Some (l\<lparr>rl_result := Some (Inl e)\<rparr>)
     | Some (Inr p) \<Rightarrow>
         if peeks then
           (case ro_view R (zp_ptype p) of
              ViewData _ _ \<Rightarrow> Some (l\<lparr>rl_result := Some (Inr None)\<rparr>)
            | v \<Rightarrow> do {
                (r, s) \<leftarrow> session_poll (ro_recv R) (rl_sess l);
                let l = l\<lparr>rl_sess := s\<rparr>;
                Some (case r of None \<Rightarrow> l | Some (Inl e) \<Rightarrow> l\<lparr>rl_result := Some (Inl e)\<rparr> | Some (Inr _) \<Rightarrow> recv_other l v)
              })
         else Some (recv_other l (ro_view R (zp_ptype p)))
   }"

definition recv_loop_step ::
  "bool \<Rightarrow> ('c, 'o, 'p, 'x) role \<Rightarrow> bool \<Rightarrow> ('b, 'fin) body_source \<Rightarrow> nat \<Rightarrow> recv_event \<Rightarrow> ('c, 'p, 'x, 'b, 'fin) recv_loop \<Rightarrow>
   (flow_event list \<times> ('c, 'p, 'x, 'b, 'fin) recv_loop) run" where
  "recv_loop_step oc R peeks B tmp_len ev l =
     (if rl_result l \<noteq> None then Some ([], l)
      else if rl_handoff l \<noteq> NoHandoff then
        (case ev of
           RvCheck \<Rightarrow>
             if rl_handoff l = HandoffSend then do {
               (h, tr, s) \<leftarrow> handoff_check R (rl_sess l);
               Some (tr, case h of Inl e \<Rightarrow> l\<lparr>rl_sess := s, rl_result := Some (Inl e)\<rparr> | Inr h \<Rightarrow> l\<lparr>rl_sess := s, rl_handoff := h\<rparr>)
             } else Some ([], l)
         | RvArrived _ \<Rightarrow> Some ([], l)
         | RvMsg \<Rightarrow> do {
             (h, s) \<leftarrow> handoff_msg R (rl_handoff l) (rl_sess l);
             Some ([], case h of Inl e \<Rightarrow> l\<lparr>rl_sess := s, rl_result := Some (Inl e)\<rparr> | Inr h \<Rightarrow> l\<lparr>rl_sess := s, rl_handoff := h\<rparr>)
           })
      else
        (let l = recv_enter l in
         case ev of
           RvCheck \<Rightarrow>
             if \<not> rl_check l then Some ([], l)
             else do {
               (ready, c) \<leftarrow> ro_check R (ss_chan (rl_sess l));
               let l = l\<lparr>rl_sess := (rl_sess l)\<lparr>ss_chan := c\<rparr>\<rparr>;
               if ready then recv_forward oc R B tmp_len l else Some ([], l)
             }
         | RvArrived x \<Rightarrow>
             if \<not> rl_add l then Some ([], l)
             else do {
               (r, b) \<leftarrow> bs_add B (rl_body l) x;
               let l = l\<lparr>rl_body := b\<rparr>;
               Some ([], case r of Inl e \<Rightarrow> l\<lparr>rl_result := Some (Inl e)\<rparr> | Inr _ \<Rightarrow> l\<lparr>rl_add := False\<rparr>)
             }
         | RvMsg \<Rightarrow> do { l \<leftarrow> recv_packet R peeks l; Some ([], l) }))"

definition stream_recv_body_step where
  "stream_recv_body_step oc fmt C HT =
     recv_loop_step oc (stream_role oc fmt C) True
       \<lparr>bs_try = \<lambda>b n. core_http (req_try_recv HT b n), bs_add = \<lambda>b x. core_http (req_add b x :: ((unit wrap_error + unit) \<times> req_body) run)\<rparr>"

definition server_stream_recv_body_step where
  "server_stream_recv_body_step oc fmt C HT =
     recv_loop_step oc (server_stream_role oc fmt C) False
       \<lparr>bs_try = \<lambda>b n. core_http (resp_try_recv HT b n), bs_add = \<lambda>b x. core_http (resp_add b x :: ((unit wrap_error + unit) \<times> resp_in) run)\<rparr>"

section \<open>Sending a body from the handler to the socket\<close>

text \<open>
  \<open>SlInitial\<close> is the first loop of \<open>server_stream_send_body\<close>, which sends the body that came with the request, and what did
  not fit the buffer (\<open>overflow\<close>), before it offers credits. \<open>SlFlush\<close> is the loop that sends what it can before a handoff.
\<close>

datatype send_phase = SlInitial | SlMain | SlFlush

record ('c, 'p, 'x, 'b, 'w, 'fin) send_loop =
  sl_sess :: "('c, 'p, 'x) session"
  sl_body :: "'b body_out"
  sl_writer :: 'w
  sl_budget :: buffer_budget
  sl_avail :: nat
  sl_overflow :: "(contiguous_buffer \<times> bool) option"
  sl_out_credits :: u32
  sl_send :: bool
  sl_check :: bool
  sl_prepare_done :: bool
  sl_phase :: send_phase
  sl_handoff :: handoff
  sl_result :: "(conn_error + 'fin) option"

definition send_loop_new ::
  "('c, 'p, 'x) session \<Rightarrow> 'b body_out \<Rightarrow> 'w \<Rightarrow> buffer_budget \<Rightarrow> nat \<Rightarrow> ('c, 'p, 'x, 'b, 'w, 'fin) send_loop" where
  "send_loop_new s b w budget avail =
     \<lparr>sl_sess = s, sl_body = b, sl_writer = w, sl_budget = budget, sl_avail = avail, sl_overflow = None, sl_out_credits = 0,
      sl_send = False, sl_check = False, sl_prepare_done = False, sl_phase = SlMain, sl_handoff = NoHandoff, sl_result = None\<rparr>"

definition server_send_loop_new ::
  "('c, 'p, 'x) session \<Rightarrow> 'b body_out \<Rightarrow> 'w \<Rightarrow> buffer_budget \<Rightarrow> nat \<Rightarrow> (contiguous_buffer \<times> bool) option \<Rightarrow> ('c, 'p, 'x, 'b, 'w, 'fin) send_loop" where
  "server_send_loop_new s b w budget avail overflow = (send_loop_new s b w budget avail)\<lparr>sl_overflow := overflow, sl_phase := SlInitial\<rparr>"

text \<open>The events: polls of the send (which may find that reading from the socket has failed), of the channel, of the session, and of the receive buffer.\<close>

datatype send_event = SvSend | SvSendFailed | SvCheck | SvMsg | SvFillFailed

type_synonym ('b, 'w, 'fin, 'e) send_poll = "'w \<Rightarrow> 'b body_out \<Rightarrow> (('fin, 'e) body_sent option \<times> 'b body_out \<times> 'w) run"

definition add_out_credits :: "bool \<Rightarrow> nat \<Rightarrow> ('c, 'p, 'x, 'b, 'w, 'fin) send_loop \<Rightarrow> ('c, 'p, 'x, 'b, 'w, 'fin) send_loop run" where
  "add_out_credits oc n l = do { c \<leftarrow> u32_add oc (sl_out_credits l) (word_of_nat n); Some (l\<lparr>sl_out_credits := c\<rparr>) }"

definition start_send :: "('c, 'p, 'x, 'b, 'w, 'fin) send_loop \<Rightarrow> ('c, 'p, 'x, 'b, 'w, 'fin) send_loop" where
  "start_send l = (if \<not> sl_send l \<and> can_send (sl_body l) then l\<lparr>sl_send := True\<rparr> else l)"

text \<open>
  The head of the loop. The first loop ends when nothing is left to send; then the credits for the whole
  receive buffer are offered.
\<close>

definition send_enter :: "nat \<Rightarrow> ('c, 'p, 'x, 'b, 'w, 'fin) send_loop \<Rightarrow> ('c, 'p, 'x, 'b, 'w, 'fin) send_loop" where
  "send_enter recv_buf_size l =
     (let l = (if sl_phase l = SlInitial \<and> \<not> sl_send l \<and> \<not> can_send (sl_body l)
               then l\<lparr>sl_phase := SlMain, sl_out_credits := word_of_nat recv_buf_size\<rparr> else l);
          l = start_send l
      in if sl_phase l = SlMain \<and> \<not> sl_prepare_done l \<and> sl_out_credits l > 0 \<and> \<not> sl_check l then l\<lparr>sl_check := True\<rparr> else l)"

text \<open>The rest of the overflow goes to the buffer when the buffer has been sent.\<close>

definition refill_overflow :: "('c, 'p, 'x, 'b, 'w, 'fin) send_loop \<Rightarrow> ('c, 'p, 'x, 'b, 'w, 'fin) send_loop run" where
  "refill_overflow l =
     (case sl_overflow l of
        None \<Rightarrow> Some l
      | Some (buf, fin) \<Rightarrow>
          if can_send (sl_body l) then Some l
          else do {
            src \<leftarrow> cb_read_buf buf;
            (r, b) \<leftarrow> (body_prepare (sl_body l) src fin :: ((unit wrap_error + nat) \<times> 'b body_out) run);
            case r of
              Inl _ \<Rightarrow> Some (l\<lparr>sl_body := b, sl_result := Some (Inl CoreHttp)\<rparr>)
            | Inr n \<Rightarrow> do { buf \<leftarrow> cb_read_commit buf n; Some (l\<lparr>sl_body := b, sl_overflow := Some (buf, fin)\<rparr>) }
          })"

text \<open>
  The end of a send. An early response ends the sending of a request; for a response it is \<open>unreachable!\<close>
  (\<open>early\<close> tells the two apart). In the first loop no credits are counted.
\<close>

definition send_finished ::
  "bool \<Rightarrow> bool \<Rightarrow> ('fin, 'e) body_sent \<Rightarrow> ('c, 'p, 'x, 'b, 'w, 'fin) send_loop \<Rightarrow> ('c, 'p, 'x, 'b, 'w, 'fin) send_loop run" where
  "send_finished oc early r l =
     (let l = l\<lparr>sl_send := False\<rparr> in
      case r of
        SentComplete f \<Rightarrow> Some (l\<lparr>sl_result := Some (Inr f)\<rparr>)
      | SentEarly f \<Rightarrow> if early then Some (l\<lparr>sl_result := Some (Inr f)\<rparr>) else panic
      | SentPartial n \<Rightarrow> if sl_phase l = SlInitial then refill_overflow l else add_out_credits oc n l
      | SentError _ \<Rightarrow> Some (l\<lparr>sl_result := Some (Inl CoreHttp)\<rparr>))"

definition send_polled ::
  "bool \<Rightarrow> bool \<Rightarrow> ('b, 'w, 'fin, 'e) send_poll \<Rightarrow> ('c, 'p, 'x, 'b, 'w, 'fin) send_loop \<Rightarrow> ('c, 'p, 'x, 'b, 'w, 'fin) send_loop run" where
  "send_polled oc early poll l = do {
     (r, b, w) \<leftarrow> poll (sl_writer l) (sl_body l);
     let l = l\<lparr>sl_body := b, sl_writer := w\<rparr>;
     case r of
       None \<Rightarrow> Some (if sl_phase l = SlFlush then l\<lparr>sl_phase := SlMain, sl_handoff := HandoffSend\<rparr> else l)
     | Some r \<Rightarrow> do {
         l \<leftarrow> send_finished oc early r l;
         Some (if sl_phase l = SlFlush \<and> sl_result l = None then start_send l else l)
       }
   }"

definition send_credits ::
  "('c, 'o, 'p, 'x) role \<Rightarrow> ('c, 'p, 'x, 'b, 'w, 'fin) send_loop \<Rightarrow> (flow_event list \<times> ('c, 'p, 'x, 'b, 'w, 'fin) send_loop) run" where
  "send_credits R l = do {
     let n = sl_out_credits l;
     (r, s) \<leftarrow> session_tx R (sl_sess l) (ro_credit R n);
     let l = l\<lparr>sl_check := False, sl_out_credits := 0, sl_sess := s\<rparr>;
     Some (case r of Inl e \<Rightarrow> ([], l\<lparr>sl_result := Some (Inl e)\<rparr>) | Inr _ \<Rightarrow> ([SentCredit n], l))
   }"

definition take_data :: "bool \<Rightarrow> bytes \<Rightarrow> bool \<Rightarrow> ('c, 'p, 'x, 'b, 'w, 'fin) send_loop \<Rightarrow> ('c, 'p, 'x, 'b, 'w, 'fin) send_loop run" where
  "take_data oc body mr l = do {
     (r, b) \<leftarrow> (body_prepare (sl_body l) body (\<not> mr) :: ((unit wrap_error + nat) \<times> 'b body_out) run);
     let l = l\<lparr>sl_body := b\<rparr>;
     case r of
       Inl _ \<Rightarrow> Some (l\<lparr>sl_result := Some (Inl CoreHttp)\<rparr>)
     | Inr n \<Rightarrow>
         if n < length body then Some (l\<lparr>sl_result := Some (Inl BufferExceeded)\<rparr>)
         else if mr then do {
           (r, b, budget, avail) \<leftarrow> (body_expand (sl_body l) (sl_budget l) (sl_avail l) :: ((unit wrap_error + nat) \<times> 'b body_out \<times> buffer_budget \<times> nat) run);
           let l = l\<lparr>sl_body := b, sl_budget := budget, sl_avail := avail\<rparr>;
           case r of Inl _ \<Rightarrow> Some (l\<lparr>sl_result := Some (Inl CoreHttp)\<rparr>) | Inr n \<Rightarrow> add_out_credits oc n l
         }
         else Some (l\<lparr>sl_prepare_done := True\<rparr>)
   }"

definition send_other :: "('c, 'p, 'x, 'b, 'w, 'fin) send_loop \<Rightarrow> packet_view \<Rightarrow> ('c, 'p, 'x, 'b, 'w, 'fin) send_loop" where
  "send_other l v =
     (case handle_other v of
        OtherOk \<Rightarrow> l
      | OtherHandoff \<Rightarrow> l\<lparr>sl_handoff := HandoffSend\<rparr>
      | OtherErr e \<Rightarrow> l\<lparr>sl_result := Some (Inl e)\<rparr>)"

definition send_packet ::
  "bool \<Rightarrow> ('c, 'o, 'p, 'x) role \<Rightarrow> ('c, 'p, 'x, 'b, 'w, 'fin) send_loop \<Rightarrow> (flow_event list \<times> ('c, 'p, 'x, 'b, 'w, 'fin) send_loop) run" where
  "send_packet oc R l = do {
     (r, s) \<leftarrow> session_poll (ro_recv R) (sl_sess l);
     let l = l\<lparr>sl_sess := s\<rparr>;
     case r of
       None \<Rightarrow> Some ([], l)
     | Some (Inl e) \<Rightarrow> Some ([], l\<lparr>sl_result := Some (Inl e)\<rparr>)
     | Some (Inr p) \<Rightarrow>
         if sl_phase l = SlInitial then Some ([], send_other l (ro_view R (zp_ptype p)))
         else
           (case ro_view R (zp_ptype p) of
              ViewData body mr \<Rightarrow> do { l \<leftarrow> take_data oc body mr l; Some ([TookData body mr], l) }
            | ViewHandoff \<Rightarrow> Some ([], (start_send l)\<lparr>sl_phase := SlFlush\<rparr>)
            | v \<Rightarrow> Some ([], send_other l v))
   }"

definition send_loop_step ::
  "bool \<Rightarrow> ('c, 'o, 'p, 'x) role \<Rightarrow> bool \<Rightarrow> ('b, 'w, 'fin, 'e) send_poll \<Rightarrow> nat \<Rightarrow> send_event \<Rightarrow> ('c, 'p, 'x, 'b, 'w, 'fin) send_loop \<Rightarrow>
   (flow_event list \<times> ('c, 'p, 'x, 'b, 'w, 'fin) send_loop) run" where
  "send_loop_step oc R early poll recv_buf_size ev l =
     (if sl_result l \<noteq> None then Some ([], l)
      else if sl_handoff l \<noteq> NoHandoff then
        (case ev of
           SvCheck \<Rightarrow>
             if sl_handoff l = HandoffSend then do {
               (h, tr, s) \<leftarrow> handoff_check R (sl_sess l);
               Some (tr, case h of Inl e \<Rightarrow> l\<lparr>sl_sess := s, sl_result := Some (Inl e)\<rparr> | Inr h \<Rightarrow> l\<lparr>sl_sess := s, sl_handoff := h\<rparr>)
             } else Some ([], l)
         | SvMsg \<Rightarrow> do {
             (h, s) \<leftarrow> handoff_msg R (sl_handoff l) (sl_sess l);
             Some ([], case h of Inl e \<Rightarrow> l\<lparr>sl_sess := s, sl_result := Some (Inl e)\<rparr> | Inr h \<Rightarrow> l\<lparr>sl_sess := s, sl_handoff := h\<rparr>)
           }
         | _ \<Rightarrow> Some ([], l))
      else if sl_phase l = SlFlush then
        (if \<not> sl_send l then Some ([], l\<lparr>sl_phase := SlMain, sl_handoff := HandoffSend\<rparr>)
         else case ev of
           SvSend \<Rightarrow> do { l \<leftarrow> send_polled oc early poll l; Some ([], l) }
         | SvSendFailed \<Rightarrow> Some ([], l\<lparr>sl_send := False, sl_result := Some (Inl CoreHttp)\<rparr>)
         | _ \<Rightarrow> Some ([], l))
      else
        (let l = send_enter recv_buf_size l in
         case ev of
           SvSend \<Rightarrow> if sl_send l then do { l \<leftarrow> send_polled oc early poll l; Some ([], l) } else Some ([], l)
         | SvSendFailed \<Rightarrow> Some ([], if sl_send l then l\<lparr>sl_send := False, sl_result := Some (Inl CoreHttp)\<rparr> else l)
         | SvCheck \<Rightarrow>
             if \<not> sl_check l then Some ([], l)
             else do {
               (ready, c) \<leftarrow> ro_check R (ss_chan (sl_sess l));
               let l = l\<lparr>sl_sess := (sl_sess l)\<lparr>ss_chan := c\<rparr>\<rparr>;
               if ready then send_credits R l else Some ([], l)
             }
         | SvMsg \<Rightarrow> send_packet oc R l
         | SvFillFailed \<Rightarrow> Some ([], if sl_phase l = SlMain \<and> \<not> sl_send l then l\<lparr>sl_result := Some (Inl CoreHttp)\<rparr> else l)))"

definition stream_send_body_step where
  "stream_send_body_step oc fmt C W = send_loop_step oc (stream_role oc fmt C) False (resp_send_poll W :: (server_protocol, 'w, server_protocol, unit) send_poll) 0"

definition server_stream_send_body_step where
  "server_stream_send_body_step oc fmt C W inbuf = send_loop_step oc (server_stream_role oc fmt C) True (req_send_poll W inbuf :: (client_state, 'w, client_state, unit) send_poll)"

end
