(* ===== verification/FlowCredits.thy ===== *)
theory FlowCredits
  imports ZhttpFlow
begin

text \<open>
  The credits of a body that a handler sends, through the loops of \<open>ZhttpFlow\<close>: what a connection has offered
  and not yet been sent is never more than the room of its send buffer, so data within the credits is always taken.
  The two send operations of \<open>Http1Stream\<close> are used through the contract \<open>body_sender\<close>.
\<close>

section \<open>Room of the buffer\<close>

lemma rb_fill_size: "rb_fill rb data = Some rb' \<Longrightarrow> length (rb_buf rb') = length (rb_buf rb) \<and> rb_tmp_len rb' = rb_tmp_len rb"
  by (auto simp: rb_fill_def copy_from_slice_def assert_that_bind split: if_splits bind_splits)

lemma rb_write_commit_size: "rb_write_commit rb n = Some rb' \<Longrightarrow> rb_buf rb' = rb_buf rb \<and> rb_tmp_len rb' = rb_tmp_len rb"
  by (auto simp: rb_write_commit_def assert_that_bind split: if_splits)

lemma rb_write_loop_size:
  assumes "rb_write_loop rb data pos = Some r"
  shows "length (rb_buf (snd r)) = length (rb_buf rb) \<and> rb_tmp_len (snd r) = rb_tmp_len rb"
proof (rule rb_write_loop.raw_induct [where P = "\<lambda>rb data pos r. length (rb_buf (snd r)) = length (rb_buf rb) \<and> rb_tmp_len (snd r) = rb_tmp_len rb",
    OF _ assms], goal_cases)
  case (1 loop rb data pos r)
  show ?case
  proof (cases "pos < length data \<and> rb_remaining_capacity rb > 0")
    case True
    have "\<exists>s e rb1 rb2. rb_fill rb (take (min (e - s) (length data - pos)) (drop pos data)) = Some rb1
        \<and> rb_write_commit rb1 (min (e - s) (length data - pos)) = Some rb2 \<and> loop rb2 data (pos + min (e - s) (length data - pos)) = Some r"
      using 1(2) unfolding if_P [OF True] Let_def by (clarsimp simp only: bind_eq_Some_conv case_prod_beta) blast
    then show ?thesis by (elim exE conjE) (frule 1(1), drule rb_fill_size, drule rb_write_commit_size, simp)
  qed (use 1(2) in auto)
qed

lemma body_prepare_result:
  fixes b :: "'p body_out" and src :: bytes
  assumes "stream_buf (bo_buf b)" and "bo_usable b" and "\<not> bo_end b"
  defines "k \<equiv> min (length src) (rb_remaining_capacity (bo_buf b))"
  obtains rb where "body_prepare b src fin = Some (Inr k, b\<lparr>bo_buf := rb, bo_end := (k = length src \<and> fin)\<rparr>)"
    and "stream_buf rb" and "rb_contents rb = rb_contents (bo_buf b) @ take k src"
    and "rb_capacity rb = rb_capacity (bo_buf b)" and "rb_tmp_len rb = rb_tmp_len (bo_buf b)"
    and "rb_remaining_capacity rb = rb_remaining_capacity (bo_buf b) - k"
proof -
  let ?rb = "bo_buf b"
  have inv: "rb_inv ?rb" using assms(1) by (simp add: stream_buf_def)
  obtain rb where w: "rb_write ?rb src = Some (if src \<noteq> [] \<and> rb_remaining_capacity ?rb = 0 then Inl WriteZero else Inr k, rb)"
    "rb_inv rb" "rb_contents rb = rb_contents ?rb @ take (rb_remaining_capacity ?rb) src"
    using rb_write_result [OF inv] unfolding k_def by blast
  have keep: "length (rb_buf rb) = length (rb_buf ?rb)" "rb_tmp_len rb = rb_tmp_len ?rb"
    using w(1) by (auto simp: rb_write_def dest!: rb_write_loop_size split: if_splits bind_splits)
  have c: "rb_contents rb = rb_contents ?rb @ take k src" using w(3) by (auto simp: k_def min_def)
  have "rb_end rb - rb_start rb = rb_end ?rb - rb_start ?rb + k"
    using arg_cong [OF c, of length] w(2) inv by (simp add: k_def)
  then have "rb_remaining_capacity rb = rb_remaining_capacity ?rb - k"
    using keep by (simp add: rb_remaining_capacity_def)
  moreover have "body_prepare b src fin = Some (Inr k, b\<lparr>bo_buf := rb, bo_end := (k = length src \<and> fin)\<rparr>)"
    using assms(2,3) w(1) by (auto simp: body_prepare_def k_def assert_that_bind)
  ultimately show ?thesis using that c w(2) keep assms(1) by (auto simp: stream_buf_def rb_tmp_ok_def rb_capacity_def)
qed

text \<open>
  The budget of the connection leaves room in the scratch vector for every block that it may still add,
  as the vector has the size of all blocks a connection may use.
\<close>

definition sized :: "buffer_budget \<Rightarrow> ring_buffer \<Rightarrow> bool" where
  "sized bb rb \<longleftrightarrow> stream_buf rb \<and> rb_tmp_len rb < 2 ^ 32
     \<and> (case bb_blocks_max bb of None \<Rightarrow> False
        | Some m \<Rightarrow> bb_blocks_used bb \<le> m \<and> rb_capacity rb + (m - bb_blocks_used bb) * bb_block_size bb \<le> rb_tmp_len rb)"

lemma sized_capacity: "sized bb rb \<Longrightarrow> rb_capacity rb < 2 ^ 32"
  by (auto simp: sized_def split: option.splits)

lemma sized_mono: "sized bb rb \<Longrightarrow> stream_buf rb' \<Longrightarrow> rb_capacity rb' = rb_capacity rb \<Longrightarrow> rb_tmp_len rb' = rb_tmp_len rb \<Longrightarrow> sized bb rb'"
  unfolding sized_def by (simp split: option.splits)

lemma room_capacity: "rb_remaining_capacity rb \<le> rb_capacity rb"
  by (simp add: rb_remaining_capacity_def rb_capacity_def)

lemma room_contents: "rb_inv rb \<Longrightarrow> rb_remaining_capacity rb = rb_capacity rb - length (rb_contents rb)"
  by (simp add: rb_remaining_capacity_def rb_capacity_def)

lemma contents_capacity: "rb_inv rb \<Longrightarrow> length (rb_contents rb) \<le> rb_capacity rb"
  by (simp add: rb_inv_def rb_capacity_def)

lemma body_expand_result:
  fixes b :: "'p body_out"
  assumes "sized bb (bo_buf b)" and "bo_usable b"
  obtains n bb' avail' rb where "body_expand b bb avail = Some (Inr n, b\<lparr>bo_buf := rb\<rparr>, bb', avail')" and "sized bb' rb"
    and "rb_contents rb = rb_contents (bo_buf b)"
    and "rb_remaining_capacity rb = rb_remaining_capacity (bo_buf b) + n"
proof -
  let ?rb = "bo_buf b"
  have ok: "rb_inv ?rb" "rb_tmp_ok ?rb" using assms(1) by (auto simp: sized_def stream_buf_def)
  show ?thesis
  proof (cases "rb_remaining_capacity ?rb = 0 \<and> local_limit_ok bb \<and> 0 < avail")
    case False
    then have "expand_buffer_if_needed bb avail ?rb = Some (0, bb, avail, ?rb)" using expand_buffer_effect [OF ok, of bb avail] by (simp only: if_False)
    then show ?thesis using that [of 0 ?rb bb avail] assms by (simp add: body_expand_def)
  next
    case True
    then obtain rb where e: "expand_buffer_if_needed bb avail ?rb = Some (bb_block_size bb, bb\<lparr>bb_blocks_used := bb_blocks_used bb + 1\<rparr>, avail - 1, rb)"
      "rb_inv rb" "rb_contents rb = rb_contents ?rb" "rb_capacity rb = rb_capacity ?rb + bb_block_size bb"
      using expand_buffer_effect [OF ok, of bb avail] unfolding if_P [OF True] by blast
    have t: "rb_tmp_len rb = rb_tmp_len ?rb"
      using e(1) rb_resize_result [OF ok, of "rb_capacity ?rb + bb_block_size bb"]
      by (auto simp: expand_buffer_if_needed_def Let_def split: if_splits prod.splits sum.splits)
    obtain m where m: "bb_blocks_max bb = Some m" "bb_blocks_used bb < m" "rb_capacity ?rb + (m - bb_blocks_used bb) * bb_block_size bb \<le> rb_tmp_len ?rb"
      using assms(1) True by (auto simp: sized_def local_limit_ok_def split: option.splits)
    have "(m - bb_blocks_used bb) * bb_block_size bb = bb_block_size bb + (m - (bb_blocks_used bb + 1)) * bb_block_size bb"
      using m(2) by (metis Suc_diff_Suc Suc_eq_plus1 mult_Suc)
    then have "rb_capacity rb + (m - (bb_blocks_used bb + 1)) * bb_block_size bb \<le> rb_tmp_len rb"
      using m(3) e(4) t by simp
    then have "sized (bb\<lparr>bb_blocks_used := bb_blocks_used bb + 1\<rparr>) rb"
      using assms(1) e m(1,2) t by (auto simp: sized_def stream_buf_def rb_tmp_ok_def rb_capacity_def)
    moreover have "rb_remaining_capacity rb = rb_remaining_capacity ?rb + bb_block_size bb"
      using e(3,4) room_contents [OF e(2)] room_contents [OF ok(1)] contents_capacity [OF ok(1)] by simp
    ultimately show ?thesis using that e assms(2) by (simp add: body_expand_def)
  qed
qed

lemma add_out_credits_bound:
  assumes "add_out_credits oc n l = Some l'"
  obtains w where "l' = l\<lparr>sl_out_credits := w\<rparr>" and "unat w \<le> unat (sl_out_credits l) + n"
proof -
  have "unat (sl_out_credits l + word_of_nat n) \<le> unat (sl_out_credits l) + unat (word_of_nat n :: u32)"
    by (metis unat_word_ariths(1) mod_less_eq_dividend)
  moreover have "unat (word_of_nat n :: u32) \<le> n" by (simp add: unat_of_nat)
  ultimately show ?thesis using assms that by (auto simp: add_out_credits_def u32_add_def split: if_splits)
qed

lemma add_out_credits_returns:
  assumes "unat (sl_out_credits l) + n < 2 ^ 32"
  shows "add_out_credits oc n l = Some (l\<lparr>sl_out_credits := sl_out_credits l + word_of_nat n\<rparr>)"
  using assms by (simp add: add_out_credits_def u32_add_def unat_of_nat)

section \<open>Credits offered and used\<close>

fun granted :: "flow_event list \<Rightarrow> nat" where
  "granted [] = 0"
| "granted (SentCredit n # tr) = unat n + granted tr"
| "granted (_ # tr) = granted tr"

fun taken :: "flow_event list \<Rightarrow> nat" where
  "taken [] = 0"
| "taken (TookData body _ # tr) = length body + taken tr"
| "taken (_ # tr) = taken tr"

definition send_room :: "('c, 'p, 'x, 'b, 'w, 'fin) send_loop \<Rightarrow> nat" where
  "send_room l = rb_remaining_capacity (bo_buf (sl_body l))"

text \<open>
  While the loop runs: the body is usable, its buffer fits the budget, and the credits offered so far (\<open>g\<close>) with
  those still to be offered are at most the bytes taken (\<open>u\<close>) and the room. In the first loop of a client
  connection the credits for the whole buffer are still to be offered.
\<close>

definition flow_ok :: "nat \<Rightarrow> nat \<Rightarrow> nat \<Rightarrow> ('c, 'p, 'x, 'b, 'w, 'fin) send_loop \<Rightarrow> bool" where
  "flow_ok recv_buf_size g u l \<longleftrightarrow> sl_result l = None \<longrightarrow>
     bo_usable (sl_body l) \<and> sized (sl_budget l) (bo_buf (sl_body l))
     \<and> (if sl_phase l = SlInitial then g \<le> u \<and> recv_buf_size \<le> rb_capacity (bo_buf (sl_body l)) \<and> \<not> sl_check l
        else g + unat (sl_out_credits l) \<le> u + send_room l \<and> (bo_end (sl_body l) \<longrightarrow> sl_prepare_done l))"

lemma flow_ok_sess [simp]:
  "flow_ok k g u (l\<lparr>sl_sess := s\<rparr>) = flow_ok k g u l"
  "sl_phase l = SlMain \<Longrightarrow> flow_ok k g u (l\<lparr>sl_check := c\<rparr>) = flow_ok k g u l"
  "flow_ok k g u (l\<lparr>sl_send := b\<rparr>) = flow_ok k g u l" "flow_ok k g u (l\<lparr>sl_handoff := h\<rparr>) = flow_ok k g u l"
  "flow_ok k g u (l\<lparr>sl_writer := w\<rparr>) = flow_ok k g u l" "flow_ok k g u (l\<lparr>sl_avail := a\<rparr>) = flow_ok k g u l"
  "flow_ok k g u (l\<lparr>sl_result := Some r\<rparr>)"
  by (simp_all add: flow_ok_def send_room_def)

lemma flow_ok_start [simp]: "flow_ok k g u (start_send l) = flow_ok k g u l"
  by (simp add: start_send_def)

lemma start_send_keeps [simp]:
  "sl_result (start_send l) = sl_result l" "sl_phase (start_send l) = sl_phase l" "sl_handoff (start_send l) = sl_handoff l"
  "sl_body (start_send l) = sl_body l" "sl_sess (start_send l) = sl_sess l" "sl_prepare_done (start_send l) = sl_prepare_done l"
  "sl_out_credits (start_send l) = sl_out_credits l" "sl_budget (start_send l) = sl_budget l"
  by (simp_all add: start_send_def)

lemma flow_ok_enter: "flow_ok k g u l \<Longrightarrow> flow_ok k g u (send_enter k l)"
proof -
  assume ok: "flow_ok k g u l"
  let ?l = "if sl_phase l = SlInitial \<and> \<not> sl_send l \<and> \<not> can_send (sl_body l) then l\<lparr>sl_phase := SlMain, sl_out_credits := word_of_nat k\<rparr> else l"
  have "unat (word_of_nat k :: u32) \<le> k" by (simp add: unat_of_nat)
  then have "flow_ok k g u ?l" using ok by (auto simp: flow_ok_def can_send_def send_room_def rb_remaining_capacity_def rb_capacity_def rb_len_def)
  then show ?thesis by (simp add: send_enter_def Let_def)
qed

lemma flow_ok_other: "flow_ok k g u l \<Longrightarrow> flow_ok k g u (send_other l v)"
  by (simp add: send_other_def split: other_result.split)

text \<open>A packet of data takes its length from the room; data within the credits is taken whole.\<close>

lemma take_data_ok:
  assumes ok: "flow_ok k g u l" and l: "sl_phase l \<noteq> SlInitial" "sl_result l = None" and t: "take_data oc body mr l = Some l'"
  shows "flow_ok k g (u + length body) l'"
proof (cases "bo_end (sl_body l)")
  case True
  then show ?thesis using t l ok by (auto simp: take_data_def body_prepare_def flow_ok_def split: if_splits bind_splits)
next
  case False
  let ?b = "sl_body l"
  have b: "bo_usable ?b" "sized (sl_budget l) (bo_buf ?b)" "g + unat (sl_out_credits l) \<le> u + send_room l" "stream_buf (bo_buf ?b)"
    using ok l by (auto simp: flow_ok_def sized_def)
  let ?n = "min (length body) (rb_remaining_capacity (bo_buf ?b))"
  obtain rb where p: "body_prepare ?b body (\<not> mr) = Some (Inr ?n :: unit wrap_error + nat, ?b\<lparr>bo_buf := rb, bo_end := (?n = length body \<and> \<not> mr)\<rparr>)"
      "stream_buf rb" "rb_capacity rb = rb_capacity (bo_buf ?b)" "rb_tmp_len rb = rb_tmp_len (bo_buf ?b)"
      "rb_remaining_capacity rb = rb_remaining_capacity (bo_buf ?b) - ?n"
    using body_prepare_result [OF b(4,1) False] by metis
  have sz: "sized (sl_budget l) rb" using sized_mono [OF b(2) p(2,3,4)] .
  show ?thesis
  proof (cases "?n < length body")
    case True
    then have "rb_remaining_capacity (bo_buf ?b) < length body" "?n = rb_remaining_capacity (bo_buf ?b)" by auto
    then show ?thesis using t p(1) by (auto simp: take_data_def Let_def)
  next
    case whole: False
    let ?b2 = "?b\<lparr>bo_buf := rb, bo_end := (\<not> mr)\<rparr>"
    have n: "?n = length body" using whole by simp
    have room: "g + unat (sl_out_credits l) \<le> u + length body + rb_remaining_capacity rb"
      using b(3) p(5) n by (simp add: send_room_def min_def split: if_splits)
    have b2: "sized (sl_budget l) (bo_buf ?b2)" "bo_usable ?b2" using sz b(1) by simp_all
    obtain n' bb a rb2 where e: "body_expand ?b2 (sl_budget l) (sl_avail l) = Some (Inr n' :: unit wrap_error + nat, ?b2\<lparr>bo_buf := rb2\<rparr>, bb, a)"
        "sized bb rb2" "rb_remaining_capacity rb2 = rb_remaining_capacity rb + n'"
      by (rule body_expand_result [OF b2, of "sl_avail l"]) (rule that, simp_all)
    show ?thesis
    proof (cases mr)
      case False
      then show ?thesis using t p(1) n room sz b(1) l by (auto simp: take_data_def flow_ok_def send_room_def)
    next
      case True
      let ?l = "l\<lparr>sl_body := ?b2\<lparr>bo_buf := rb2\<rparr>, sl_budget := bb, sl_avail := a\<rparr>"
      have "add_out_credits oc n' ?l = Some l'" using t p(1) n e(1) True by (simp add: take_data_def)
      then obtain w where "l' = ?l\<lparr>sl_out_credits := w\<rparr>" "unat w \<le> unat (sl_out_credits ?l) + n'" by (rule add_out_credits_bound)
      then show ?thesis using room e(2,3) b(1) l True by (simp add: flow_ok_def send_room_def)
    qed
  qed
qed

lemma take_data_within:
  assumes ok: "flow_ok k g u l" and l: "sl_phase l = SlMain" "sl_result l = None" "\<not> sl_prepare_done l" and c: "u + length body \<le> g"
  obtains l' where "take_data oc body mr l = Some l'" and "sl_result l' = None"
    and "rb_contents (bo_buf (sl_body l')) = rb_contents (bo_buf (sl_body l)) @ body"
proof -
  let ?b = "sl_body l"
  have b: "bo_usable ?b" "sized (sl_budget l) (bo_buf ?b)" "g + unat (sl_out_credits l) \<le> u + send_room l" "stream_buf (bo_buf ?b)" "\<not> bo_end ?b"
    using ok l by (auto simp: flow_ok_def sized_def)
  have room: "length body + unat (sl_out_credits l) \<le> rb_remaining_capacity (bo_buf ?b)" using b(3) c by (simp add: send_room_def)
  then have n: "min (length body) (rb_remaining_capacity (bo_buf ?b)) = length body" by simp
  obtain rb where p: "body_prepare ?b body (\<not> mr) = Some (Inr (length body) :: unit wrap_error + nat, ?b\<lparr>bo_buf := rb, bo_end := (\<not> mr)\<rparr>)"
      "stream_buf rb" "rb_contents rb = rb_contents (bo_buf ?b) @ body" "rb_capacity rb = rb_capacity (bo_buf ?b)" "rb_tmp_len rb = rb_tmp_len (bo_buf ?b)"
      "rb_remaining_capacity rb = rb_remaining_capacity (bo_buf ?b) - length body"
    by (rule body_prepare_result [OF b(4,1,5), of body "\<not> mr", unfolded n]) (rule that, simp_all)
  let ?b2 = "?b\<lparr>bo_buf := rb, bo_end := (\<not> mr)\<rparr>"
  have b2: "sized (sl_budget l) (bo_buf ?b2)" "bo_usable ?b2" using sized_mono [OF b(2) p(2,4,5)] b(1) by simp_all
  obtain n' bb a rb2 where e: "body_expand ?b2 (sl_budget l) (sl_avail l) = Some (Inr n' :: unit wrap_error + nat, ?b2\<lparr>bo_buf := rb2\<rparr>, bb, a)"
      "sized bb rb2" "rb_contents rb2 = rb_contents rb" "rb_remaining_capacity rb2 = rb_remaining_capacity rb + n'"
    by (rule body_expand_result [OF b2, of "sl_avail l"]) (rule that, simp_all)
  have "unat (sl_out_credits l) + n' < 2 ^ 32"
    using room p(6) e(4) sized_capacity [OF e(2)] room_capacity [of rb2] by simp
  then show ?thesis using that p(1,3) e(1,3) l by (cases mr) (auto simp: take_data_def Let_def add_out_credits_returns)
qed

lemma refill_ok:
  assumes ok: "flow_ok k g u l" and l: "sl_phase l = SlInitial" "sl_result l = None" and r: "refill_overflow l = Some l'"
  shows "flow_ok k g u l'"
proof (cases "sl_overflow l = None \<or> can_send (sl_body l)")
  case True
  then show ?thesis using r ok by (auto simp: refill_overflow_def split: option.splits)
next
  case False
  then obtain buf fin where o: "sl_overflow l = Some (buf, fin)" "\<not> can_send (sl_body l)" by auto
  let ?b = "sl_body l"
  have b: "bo_usable ?b" "sized (sl_budget l) (bo_buf ?b)" "stream_buf (bo_buf ?b)" "\<not> bo_end ?b"
    using ok l o(2) by (auto simp: flow_ok_def sized_def can_send_def)
  obtain src where src: "cb_read_buf buf = Some src" using r o by (auto simp: refill_overflow_def split: bind_splits)
  let ?n = "min (length src) (rb_remaining_capacity (bo_buf ?b))"
  obtain rb where p: "body_prepare ?b src fin = Some (Inr ?n :: unit wrap_error + nat, ?b\<lparr>bo_buf := rb, bo_end := (?n = length src \<and> fin)\<rparr>)"
      "stream_buf rb" "rb_capacity rb = rb_capacity (bo_buf ?b)" "rb_tmp_len rb = rb_tmp_len (bo_buf ?b)"
    using body_prepare_result [OF b(3,1,4)] by metis
  have "sized (sl_budget l) rb" using sized_mono [OF b(2) p(2,3,4)] .
  then show ?thesis using r o src p(1,3) b(1) ok l by (auto simp: refill_overflow_def flow_ok_def split: bind_splits)
qed

lemma credits_ok:
  assumes ok: "flow_ok k g u l" and l: "sl_result l = None" "sl_phase l = SlMain" and s: "send_credits R l = Some (tr, l')"
  shows "flow_ok k (g + granted tr) (u + taken tr) l'"
  using s ok l by (auto simp: send_credits_def flow_ok_def send_room_def Let_def split: bind_splits sum.splits)

lemma packet_ok:
  assumes ok: "flow_ok k g u l" and l: "sl_result l = None" and s: "send_packet oc R l = Some (tr, l')"
  shows "flow_ok k (g + granted tr) (u + taken tr) l'"
proof -
  obtain r se where p: "session_poll (ro_recv R) (sl_sess l) = Some (r, se)" using s by (auto simp: send_packet_def split: bind_splits)
  have flush: "flow_ok k g u ((start_send (l\<lparr>sl_sess := se\<rparr>))\<lparr>sl_phase := SlFlush\<rparr>)" if "sl_phase l \<noteq> SlInitial"
    using that ok by (simp add: flow_ok_def send_room_def)
  have ok1: "flow_ok k g u (l\<lparr>sl_sess := se\<rparr>)" using ok by simp
  consider "r = None" | e where "r = Some (Inl e)" | z where "r = Some (Inr z)" by (metis option.exhaust sum.exhaust)
  then show ?thesis
  proof cases
    case (3 z)
    show ?thesis
    proof (cases "sl_phase l = SlInitial")
      case True
      then show ?thesis using 3 p s flow_ok_other [OF ok1] by (auto simp: send_packet_def Let_def)
    next
      case False
      have data: "flow_ok k g (u + length body) l'" if "take_data oc body mr (l\<lparr>sl_sess := se\<rparr>) = Some l'" for body mr l'
        using take_data_ok [OF ok1 _ _ that] False l by simp
      show ?thesis using 3 p s False flush flow_ok_other [OF ok1] data
        by (cases "ro_view R (zp_ptype z)") (auto simp: send_packet_def Let_def split: bind_splits)
    qed
  qed (use p s ok in \<open>auto simp: send_packet_def\<close>)
qed

lemma handoff_trace: "handoff_check R s = Some (h, tr, s') \<Longrightarrow> granted tr = 0 \<and> taken tr = 0"
  by (auto simp: handoff_check_def Let_def split: if_splits bind_splits sum.splits)

section \<open>The contract of sending\<close>

text \<open>
  A poll that does not finish the body leaves the buffer as it is, or has committed the bytes it reports.
\<close>

locale body_sender =
  fixes poll :: "('b, 'w, 'fin, 'e) send_poll"
  assumes pending: "poll w b = Some (None, b', w') \<Longrightarrow> bo_buf b' = bo_buf b \<and> bo_usable b' = bo_usable b \<and> bo_end b' = bo_end b"
    and partial: "poll w b = Some (Some (SentPartial n), b', w') \<Longrightarrow>
      rb_read_commit (bo_buf b) n = Some (bo_buf b') \<and> bo_usable b' = bo_usable b \<and> bo_end b' = bo_end b"
begin

lemma partial_room:
  assumes p: "poll w b = Some (Some (SentPartial n), b', w')" and s: "sized bb (bo_buf b)"
  shows "sized bb (bo_buf b') \<and> rb_remaining_capacity (bo_buf b') = rb_remaining_capacity (bo_buf b) + n \<and> rb_capacity (bo_buf b') = rb_capacity (bo_buf b)"
proof -
  have c: "rb_read_commit (bo_buf b) n = Some (bo_buf b')" using partial [OF p] by simp
  have inv: "rb_inv (bo_buf b)" and sb: "stream_buf (bo_buf b)" using s by (auto simp: sized_def stream_buf_def)
  have n: "n \<le> length (rb_contents (bo_buf b))" using c inv by (auto simp: rb_read_commit_def assert_that_bind split: if_splits)
  obtain rb where rb: "rb_read_commit (bo_buf b) n = Some rb" "rb_inv rb" "rb_contents rb = drop n (rb_contents (bo_buf b))" "rb_buf rb = rb_buf (bo_buf b)"
    "rb_tmp_len rb = rb_tmp_len (bo_buf b)" using rb_read_commit_contents [OF inv n] by blast
  have cap: "rb_capacity rb = rb_capacity (bo_buf b)" using rb(4) by (simp add: rb_capacity_def)
  have "stream_buf rb" using rb sb by (simp add: stream_buf_def rb_tmp_ok_def)
  then have "sized bb rb" using sized_mono [OF s] cap rb(5) by simp
  moreover have "rb_remaining_capacity rb = rb_remaining_capacity (bo_buf b) + n"
    using room_contents [OF rb(2)] room_contents [OF inv] contents_capacity [OF inv] cap rb(3) n by simp
  ultimately show ?thesis using rb(1) c cap by simp
qed

lemma finished_ok:
  assumes ok: "flow_ok k g u l" and l: "sl_result l = None" and p: "poll (sl_writer l) (sl_body l) = Some (Some r, b, w)"
    and f: "send_finished oc early r (l\<lparr>sl_body := b, sl_writer := w\<rparr>) = Some l'"
  shows "flow_ok k g u l'"
proof (cases r)
  case (SentPartial n)
  have same: "bo_usable b = bo_usable (sl_body l)" "bo_end b = bo_end (sl_body l)" using partial p SentPartial by auto
  have b: "sized (sl_budget l) (bo_buf b)" "rb_remaining_capacity (bo_buf b) = send_room l + n" "rb_capacity (bo_buf b) = rb_capacity (bo_buf (sl_body l))"
    using partial_room [of "sl_writer l" "sl_body l" n b w "sl_budget l"] p SentPartial ok l by (auto simp: flow_ok_def send_room_def)
  let ?l = "l\<lparr>sl_body := b, sl_writer := w, sl_send := False\<rparr>"
  show ?thesis
  proof (cases "sl_phase l = SlInitial")
    case True
    have ok1: "flow_ok k g u ?l" using True ok l b same by (simp add: flow_ok_def)
    have "refill_overflow ?l = Some l'" using f SentPartial True by (simp add: send_finished_def)
    then show ?thesis using refill_ok [OF ok1] True l by simp
  next
    case False
    then have "add_out_credits oc n ?l = Some l'" using f SentPartial by (simp add: send_finished_def)
    then obtain c where "l' = ?l\<lparr>sl_out_credits := c\<rparr>" "unat c \<le> unat (sl_out_credits ?l) + n" by (rule add_out_credits_bound)
    then show ?thesis using False ok l b same by (simp add: flow_ok_def send_room_def)
  qed
qed (use f in \<open>auto simp: send_finished_def split: if_splits\<close>)

lemma polled_ok:
  assumes ok: "flow_ok k g u l" and l: "sl_result l = None" and s: "send_polled oc early poll l = Some l'"
  shows "flow_ok k g u l'"
proof -
  obtain r b w where p: "poll (sl_writer l) (sl_body l) = Some (r, b, w)" using s by (auto simp: send_polled_def split: bind_splits)
  show ?thesis
  proof (cases r)
    case None
    then have "flow_ok k g u (l\<lparr>sl_body := b, sl_writer := w\<rparr>)" "flow_ok k g u (l\<lparr>sl_body := b, sl_writer := w, sl_phase := SlMain, sl_handoff := HandoffSend\<rparr>) \<or> sl_phase l \<noteq> SlFlush"
      using pending [of "sl_writer l" "sl_body l" b w] p ok by (auto simp: flow_ok_def send_room_def)
    then show ?thesis using s p None by (auto simp: send_polled_def Let_def)
  next
    case (Some r')
    then obtain l1 where "send_finished oc early r' (l\<lparr>sl_body := b, sl_writer := w\<rparr>) = Some l1" "l' = l1 \<or> l' = start_send l1"
      using s p by (auto simp: send_polled_def split: bind_splits if_splits)
    then show ?thesis using finished_ok [OF ok l] p Some by auto
  qed
qed

lemma step_ok:
  assumes ok: "flow_ok k g u l" and s: "send_loop_step oc R early poll k ev l = Some (tr, l')"
  shows "flow_ok k (g + granted tr) (u + taken tr) l'"
proof -
  consider (over) "sl_result l \<noteq> None" | (handoff) "sl_result l = None" "sl_handoff l \<noteq> NoHandoff"
    | (flush) "sl_result l = None" "sl_handoff l = NoHandoff" "sl_phase l = SlFlush"
    | (main) "sl_result l = None" "sl_handoff l = NoHandoff" "sl_phase l \<noteq> SlFlush" by blast
  then show ?thesis
  proof cases
    case over
    then show ?thesis using s ok by (simp add: send_loop_step_def)
  next
    case handoff
    then show ?thesis using s ok
      by (cases ev) (auto simp: send_loop_step_def dest!: handoff_trace split: if_splits bind_splits sum.splits)
  next
    case flush
    have "flow_ok k g u (l\<lparr>sl_phase := SlMain, sl_handoff := HandoffSend\<rparr>)" using ok flush by (simp add: flow_ok_def send_room_def)
    then show ?thesis using s flush ok polled_ok [OF ok flush(1)]
      by (cases ev) (auto simp: send_loop_step_def split: if_splits bind_splits)
  next
    case main
    have ok1: "flow_ok k g u (send_enter k l)" using flow_ok_enter [OF ok] .
    have r1: "sl_result (send_enter k l) = None" "sl_phase (send_enter k l) \<noteq> SlFlush" using main by (auto simp: send_enter_def Let_def)
    have ph: "sl_phase (send_enter k l) = SlMain" if "sl_check (send_enter k l)"
      using that main ok1 r1 by (cases "sl_phase (send_enter k l)") (auto simp: flow_ok_def)
    have cred: "flow_ok k (g + granted tr) (u + taken tr) l'" if "sl_check (send_enter k l)" "send_credits R ((send_enter k l)\<lparr>sl_sess := se\<rparr>) = Some (tr, l')" for se
      using credits_ok [OF _ _ _ that(2)] ok1 r1 ph [OF that(1)] by simp
    show ?thesis using s main ok1 polled_ok [OF ok1 r1(1)] r1 packet_ok [OF ok1 r1(1)] cred
      by (cases ev) (auto simp: send_loop_step_def Let_def split: if_splits bind_splits)
  qed
qed

lemma data_taken:
  assumes ok: "flow_ok k g u l" and l: "sl_result l = None" "sl_handoff l = NoHandoff" "sl_phase l = SlMain" "\<not> sl_prepare_done l"
    and p: "session_poll (ro_recv R) (sl_sess l) = Some (Some (Inr z), s)" "ro_view R (zp_ptype z) = ViewData body mr" and c: "u + length body \<le> g"
  shows "\<exists>l'. send_loop_step oc R early poll k SvMsg l = Some ([TookData body mr], l') \<and> sl_result l' = None
    \<and> rb_contents (bo_buf (sl_body l')) = rb_contents (bo_buf (sl_body l)) @ body"
proof -
  let ?l = "(send_enter k l)\<lparr>sl_sess := s\<rparr>"
  have e: "sl_result ?l = None" "sl_phase ?l = SlMain" "sl_body ?l = sl_body l" "\<not> sl_prepare_done ?l" "sl_sess (send_enter k l) = sl_sess l"
    using l by (auto simp: send_enter_def Let_def)
  have ok1: "flow_ok k g u ?l" using flow_ok_enter [OF ok] by simp
  obtain l' where "take_data oc body mr ?l = Some l'" "sl_result l' = None" "rb_contents (bo_buf (sl_body l')) = rb_contents (bo_buf (sl_body l)) @ body"
    using take_data_within [OF ok1 e(2,1,4) c] e(3) by auto
  then show ?thesis using p l e by (simp add: send_loop_step_def send_packet_def)
qed

end

interpretation resp_sender: body_sender "resp_send_poll W" for W :: "'w writer"
  by unfold_locales (auto simp: resp_send_poll_def assert_that_bind Let_def split: if_splits bind_splits sum.splits)

interpretation req_sender: body_sender "req_send_poll W inbuf" for W :: "'w writer" and inbuf
  by unfold_locales (auto simp: req_send_poll_def assert_that_bind Let_def split: if_splits bind_splits send_status.splits)

section \<open>Runs of the loops\<close>

text \<open>
  The states that a send loop reaches, with the credits offered (from \<open>g0\<close>) and the bytes taken. Between steps the
  surroundings may change: the messages in the channel and those that have arrived, the socket, and the blocks that
  other connections leave in the shared counter.
\<close>

inductive send_run ::
  "('ev \<Rightarrow> ('c, 'p, 'x, 'b, 'w, 'fin) send_loop \<Rightarrow> (flow_event list \<times> ('c, 'p, 'x, 'b, 'w, 'fin) send_loop) run) \<Rightarrow> nat \<Rightarrow>
   ('c, 'p, 'x, 'b, 'w, 'fin) send_loop \<Rightarrow> nat \<Rightarrow> nat \<Rightarrow> ('c, 'p, 'x, 'b, 'w, 'fin) send_loop \<Rightarrow> bool"
  for stp g0 l0 where
  start: "send_run stp g0 l0 g0 0 l0"
| step: "send_run stp g0 l0 g u l \<Longrightarrow> stp ev l = Some (tr, l') \<Longrightarrow> send_run stp g0 l0 (g + granted tr) (u + taken tr) l'"
| env: "send_run stp g0 l0 g u l \<Longrightarrow>
    send_run stp g0 l0 g u (l\<lparr>sl_sess := (sl_sess l)\<lparr>ss_chan := c, ss_items := q\<rparr>, sl_writer := w, sl_avail := a\<rparr>)"

lemma send_run_ok:
  assumes "send_run stp g0 l0 g u l" and "flow_ok k g0 0 l0"
    and "\<And>ev g u l tr l'. flow_ok k g u l \<Longrightarrow> stp ev l = Some (tr, l') \<Longrightarrow> flow_ok k (g + granted tr) (u + taken tr) l'"
  shows "flow_ok k g u l"
  using assms by (induction rule: send_run.induct) auto

section \<open>Properties\<close>

text \<open>
  Property C12. Data within the credits is taken. Whatever the handler, the socket and the channel do while a server connection sends a
  response body: the credits it has offered are at most the bytes it has taken and the room of its send buffer;
  and while the body has not ended, a data packet within the credits is taken whole and appended to the buffer, with no
  \<open>BufferExceeded\<close> and no overflow of the credits still to be offered, also when the buffer is expanded for it.
\<close>

theorem response_credits_cover_data:
  assumes "send_run (stream_send_body_step oc fmt C W) g0 (send_loop_new s b w budget avail) g u l"
    and "bo_usable b" and "\<not> bo_end b" and "sized budget (bo_buf b)" and "g0 \<le> rb_remaining_capacity (bo_buf b)"
    and l: "sl_result l = None"
  shows "g \<le> u + rb_remaining_capacity (bo_buf (sl_body l))
    \<and> (sl_handoff l = NoHandoff \<and> sl_phase l = SlMain \<and> \<not> sl_prepare_done l
        \<and> session_poll (stream_recv_msg oc) (sl_sess l) = Some (Some (Inr z), s') \<and> zp_ptype z = RsData d \<and> u + length (rs_body d) \<le> g
       \<longrightarrow> (\<exists>l'. stream_send_body_step oc fmt C W SvMsg l = Some ([TookData (rs_body d) (rs_more d)], l') \<and> sl_result l' = None
            \<and> rb_contents (bo_buf (sl_body l')) = rb_contents (bo_buf (sl_body l)) @ rs_body d))"
proof -
  have "sl_phase (send_loop_new s b w budget avail) = SlMain" by (simp add: send_loop_new_def)
  then have "flow_ok 0 g0 0 (send_loop_new s b w budget avail)" using assms(2-5) by (simp add: flow_ok_def send_loop_new_def send_room_def)
  then have ok: "flow_ok 0 g u l"
    using send_run_ok [OF assms(1)] resp_sender.step_ok unfolding stream_send_body_step_def by blast
  show ?thesis
    using resp_sender.data_taken [OF ok l, of "stream_role oc fmt C" z s' "rs_body d" "rs_more d" oc False] ok l
    by (auto simp: stream_send_body_step_def stream_role_def flow_ok_def send_room_def split: if_splits)
qed

text \<open>
  Property C13. The same for the body of a request, which a client connection sends: it first sends what came with the request,
  and what did not fit the buffer, and then offers the capacity of its buffer as credits.
\<close>

theorem request_credits_cover_data:
  assumes "send_run (\<lambda>(inbuf, ev). server_stream_send_body_step oc fmt C W inbuf k ev) 0 (server_send_loop_new s b w budget avail overflow) g u l"
    and "bo_usable b" and "sized budget (bo_buf b)" and "k \<le> rb_capacity (bo_buf b)"
    and l: "sl_result l = None"
  shows "g \<le> u + rb_remaining_capacity (bo_buf (sl_body l))
    \<and> (sl_handoff l = NoHandoff \<and> sl_phase l = SlMain \<and> \<not> sl_prepare_done l
        \<and> session_poll (server_stream_recv_msg oc) (sl_sess l) = Some (Some (Inr z), s') \<and> zp_ptype z = RqData d \<and> u + length (rq_body d) \<le> g
       \<longrightarrow> (\<exists>l'. server_stream_send_body_step oc fmt C W inbuf k SvMsg l = Some ([TookData (rq_body d) (rq_more d)], l') \<and> sl_result l' = None
            \<and> rb_contents (bo_buf (sl_body l')) = rb_contents (bo_buf (sl_body l)) @ rq_body d))"
proof -
  have "flow_ok k 0 0 (server_send_loop_new s b w budget avail overflow)"
    using assms(2-4) by (simp add: flow_ok_def server_send_loop_new_def send_loop_new_def)
  moreover have "flow_ok k (g + granted tr) (u + taken tr) l'"
    if "flow_ok k g u l" "(case x of (inbuf, ev) \<Rightarrow> server_stream_send_body_step oc fmt C W inbuf k ev) l = Some (tr, l')" for x g u l tr l'
    using req_sender.step_ok [OF that(1)] that(2) unfolding server_stream_send_body_step_def by (auto split: prod.splits)
  ultimately have ok: "flow_ok k g u l" using send_run_ok [OF assms(1)] by blast
  show ?thesis
    using req_sender.data_taken [OF ok l, of "server_stream_role oc fmt C" z s' "rq_body d" "rq_more d" oc True W inbuf] ok l
    by (auto simp: server_stream_send_body_step_def server_stream_role_def flow_ok_def send_room_def split: if_splits)
qed

text \<open>Connections with an empty send buffer of 16 bytes. A handler sends three bytes to one, and the end of the body to the other.\<close>

definition empty_buf :: ring_buffer where
  "empty_buf = \<lparr>rb_buf = replicate 16 0, rb_start = 0, rb_end = 0, rb_tmp_len = 48\<rparr>"

definition two_blocks :: buffer_budget where
  "two_blocks = with_block_size (with_blocks_max budget_new 2) 16"

definition three_bytes :: response where
  "three_bytes = response_new_data (str ''h'') [\<lparr>id_id = [55], id_seq = Some 0\<rparr>] (response_data_new\<lparr>rs_body := [1, 2, 3], rs_more := True\<rparr>)"

definition last_bytes :: request where
  "last_bytes = request_new_data (str ''h'') [\<lparr>id_id = [55], id_seq = Some 1\<rparr>] request_data_new"

lemma empty_buf_sized:
  "sized two_blocks empty_buf" "rb_remaining_capacity empty_buf = 16" "rb_capacity empty_buf = 16" "rb_contents empty_buf = []"
  by (simp_all add: sized_def two_blocks_def with_block_size_def with_blocks_max_def budget_new_def empty_buf_def stream_buf_def rb_inv_def rb_tmp_ok_def
      rb_capacity_def rb_remaining_capacity_def rb_contents_def)

abbreviation sample_chan :: "((sender_data slab_node vec_slab, 'm) local_channel, 'm) chan_if" where
  "sample_chan \<equiv> local_chan vec_slab_ops 0"

abbreviation chan_state :: "(sender_data slab_node vec_slab, 'm) local_channel" where
  "chan_state \<equiv> snd (the (local_channel_new vec_slab_ops 2 1))"

abbreviation response_start where
  "response_start \<equiv> send_loop_new
     \<lparr>ss_out = sample_out, ss_sh = shared_new, ss_chan = chan_state :: (sender_data slab_node vec_slab, bytes \<times> bytes) local_channel, ss_in = stream_in_new [55] 100 False, ss_items = [RcvMsg three_bytes 0]\<rparr>
     \<lparr>bo_buf = empty_buf, bo_proto = server_new, bo_end = False, bo_usable = True, bo_broken = False\<rparr> (cb_new 8) two_blocks 5"

theorem response_credits_cover_data_witness:
  "\<exists>l'. stream_send_body_step True (\<lambda>_ :: unit. []) sample_chan cb_writer SvMsg response_start = Some ([TookData [1, 2, 3] True], l')
    \<and> sl_result l' = None \<and> rb_contents (bo_buf (sl_body l')) = [1, 2, 3]"
proof -
  have msg: "\<exists>s'. session_poll (stream_recv_msg True) (sl_sess response_start) = Some (Some (Inr three_bytes), s')"
    by (simp add: session_poll_def stream_recv_msg_def recv_msg_def peek_msg_def send_loop_new_def stream_in_new_def three_bytes_def
        response_new_data_def packet_new_def check_msg_def u32_add_def ADDR_MAX_def stream_credit_msg_def add_credits_def response_data_new_def index_at_def)
  then obtain s' where s': "session_poll (stream_recv_msg True) (sl_sess response_start) = Some (Some (Inr three_bytes), s')" ..
  have d: "zp_ptype three_bytes = RsData (response_data_new\<lparr>rs_body := [1, 2, 3], rs_more := True\<rparr>)"
    by (simp add: three_bytes_def response_new_data_def packet_new_def)
  have r: "sl_result response_start = None" "sl_handoff response_start = NoHandoff" "sl_phase response_start = SlMain" "\<not> sl_prepare_done response_start"
    by (simp_all add: send_loop_new_def)
  note run = send_run.start [of "stream_send_body_step True (\<lambda>_ :: unit. []) sample_chan cb_writer" 16 response_start]
  show ?thesis
    using response_credits_cover_data [OF run _ _ _ _ r(1), of three_bytes s' "response_data_new\<lparr>rs_body := [1, 2, 3], rs_more := True\<rparr>"] s' d r empty_buf_sized
    by (simp add: send_loop_new_def)
qed

abbreviation request_start where
  "request_start \<equiv> server_send_loop_new
     \<lparr>ss_out = sample_out, ss_sh = sample_shared, ss_chan = chan_state, ss_in = server_stream_in_new [55] 0, ss_items = [RcvMsg last_bytes 0]\<rparr>
     \<lparr>bo_buf = empty_buf, bo_proto = client_state_new\<lparr>cs_chunked := True\<rparr>, bo_end = False, bo_usable = True, bo_broken = False\<rparr> (cb_new 8) two_blocks 5 None"

lemma request_started:
  "\<exists>l. server_stream_send_body_step True (\<lambda>_ :: unit. []) sample_chan cb_writer 0 16 SvSend request_start = Some ([], l)
    \<and> sl_result l = None \<and> sl_handoff l = NoHandoff \<and> sl_phase l = SlMain \<and> \<not> sl_prepare_done l \<and> sl_sess l = sl_sess request_start
    \<and> sl_body l = sl_body request_start"
  by (simp add: server_stream_send_body_step_def send_loop_step_def server_send_loop_new_def send_loop_new_def send_enter_def can_send_def empty_buf_def rb_len_def
      start_send_def Let_def)

theorem request_credits_cover_data_witness:
  "\<exists>l l'. server_stream_send_body_step True (\<lambda>_ :: unit. []) sample_chan cb_writer 0 16 SvSend request_start = Some ([], l)
    \<and> server_stream_send_body_step True (\<lambda>_ :: unit. []) sample_chan cb_writer 0 16 SvMsg l = Some ([TookData [] False], l')
    \<and> sl_result l' = None \<and> rb_contents (bo_buf (sl_body l')) = []"
proof -
  let ?step = "\<lambda>(inbuf, ev). server_stream_send_body_step True (\<lambda>_ :: unit. []) sample_chan cb_writer inbuf 16 ev"
  obtain l where l: "server_stream_send_body_step True (\<lambda>_ :: unit. []) sample_chan cb_writer 0 16 SvSend request_start = Some ([], l)"
      "sl_result l = None" "sl_handoff l = NoHandoff" "sl_phase l = SlMain" "\<not> sl_prepare_done l" "sl_sess l = sl_sess request_start"
      "sl_body l = sl_body request_start"
    using request_started by blast
  have run: "send_run ?step 0 request_start 0 0 l" using send_run.step [OF send_run.start, of ?step "(0, SvSend)" request_start "[]" l 0] l(1) by simp
  have "\<exists>s'. session_poll (server_stream_recv_msg True) (sl_sess l) = Some (Some (Inr last_bytes), s')"
    unfolding l(6)
    by (simp add: session_poll_def server_stream_recv_msg_def recv_msg_def peek_msg_def server_send_loop_new_def send_loop_new_def server_stream_in_new_def last_bytes_def
        request_new_data_def packet_new_def check_msg_def u32_add_def ADDR_MAX_def server_credit_msg_def add_credits_def request_data_new_def index_at_def)
  then obtain s' where s': "session_poll (server_stream_recv_msg True) (sl_sess l) = Some (Some (Inr last_bytes), s')" ..
  have d: "zp_ptype last_bytes = RqData request_data_new" "rq_body request_data_new = []" "\<not> rq_more request_data_new"
    by (simp_all add: last_bytes_def request_new_data_def packet_new_def request_data_new_def)
  show ?thesis
    using request_credits_cover_data [OF run _ _ _ l(2), of last_bytes s' request_data_new 0] s' d l empty_buf_sized
    by (simp add: server_send_loop_new_def send_loop_new_def)
qed

end
