(* ===== verification/BodyForward.thy ===== *)
theory BodyForward
  imports FlowCredits
begin

text \<open>
  The flow of a request body from the socket to the handler, through the loop of \<open>stream_recv_body\<close> in \<open>ZhttpFlow\<close>, over any channel
  that keeps the contract \<open>message_channel\<close>: no assertion of the loop fails and no counter underflows, and never
  are more bytes sent than the handler has given credits for.
\<close>

section \<open>What a run keeps\<close>

fun sent :: "flow_event list \<Rightarrow> nat" where
  "sent [] = 0"
| "sent (SentData body _ # tr) = length body + sent tr"
| "sent (_ # tr) = sent tr"

abbreviation loop_credits :: "('c, 'p, 'x, 'b, 'fin) recv_loop \<Rightarrow> nat" where
  "loop_credits l \<equiv> unat (si_credits (ss_in (rl_sess l)))"

definition forward_ok :: "('c \<Rightarrow> bool) \<Rightarrow> ('c, 'p, 'x, req_body, 'fin) recv_loop \<Rightarrow> bool" where
  "forward_ok good l \<longleftrightarrow> rl_result l = None \<longrightarrow>
     good (ss_chan (rl_sess l)) \<and> length (so_packet_buf (ss_out (rl_sess l))) < 2 ^ 63 \<and> req_ready (rl_body l)
     \<and> (rl_check l \<longrightarrow> 0 < loop_credits l \<and> \<not> rl_add l)
     \<and> (rl_handoff l \<noteq> HandoffWait \<longrightarrow> sh_to_addr (ss_sh (rl_sess l)) \<noteq> None)
     \<and> (rl_handoff l \<noteq> NoHandoff \<longrightarrow> si_next (ss_in (rl_sess l)) = None)"

lemma forward_ok_result [simp]: "forward_ok good (l\<lparr>rl_result := Some r\<rparr>)"
  by (simp add: forward_ok_def)

lemma forward_ok_new:
  "good (ss_chan s) \<Longrightarrow> length (so_packet_buf (ss_out s)) < 2 ^ 63 \<Longrightarrow> sh_to_addr (ss_sh s) \<noteq> None \<Longrightarrow> req_ready b \<Longrightarrow> forward_ok good (recv_loop_new s b)"
  by (simp add: forward_ok_def recv_loop_new_def)

lemma recv_loop_new_sess [simp]: "rl_sess (recv_loop_new s b) = s" "rl_result (recv_loop_new s b) = None" "rl_handoff (recv_loop_new s b) = NoHandoff"
  by (simp_all add: recv_loop_new_def)

lemma forward_ok_enter: "forward_ok good l \<Longrightarrow> forward_ok good (recv_enter l)"
  by (simp add: forward_ok_def recv_enter_def word_greater_zero_iff unat_gt_0)

lemma recv_enter_keeps [simp]:
  "rl_sess (recv_enter l) = rl_sess l" "rl_result (recv_enter l) = rl_result l" "rl_handoff (recv_enter l) = rl_handoff l" "rl_body (recv_enter l) = rl_body l"
  "rl_add (recv_enter l) = rl_add l"
  by (simp_all add: recv_enter_def)

text \<open>Bytes that arrive while a body is read leave it readable.\<close>

lemma req_add_ready:
  assumes "req_ready b" and "req_add b x = Some (r, b')"
  shows "req_ready b'"
proof (cases "qb_usable b \<and> (\<exists>data. x = Inr data)")
  case True
  then obtain data rb rb2 where d: "rb_fill (qb_buf b) data = Some rb" "rb_write_commit rb (length data) = Some rb2" "b' = b\<lparr>qb_buf := rb2\<rparr>"
    using assms(2) by (auto simp: req_add_def split: bind_splits)
  have inv: "rb_inv (qb_buf b)" "stream_buf (qb_buf b)" using assms(1) by (auto simp: req_ready_def stream_buf_def)
  obtain s e where se: "rb_write_range (qb_buf b) = Some (s, e)" using rb_write_range_bounds [OF inv(1)] by blast
  have "length data \<le> e - s" using d(1) se by (auto simp: rb_fill_def assert_that_bind split: if_splits)
  from rb_fill_commit_contents [OF inv(1) se this] d inv(2) have "stream_buf rb2" by (auto simp: stream_buf_def rb_tmp_ok_def)
  then show ?thesis using assms(1) d(3) by (simp add: req_ready_def)
qed (use assms in \<open>auto simp: req_add_def req_ready_def split: if_splits sum.splits\<close>)

section \<open>Polls of the session\<close>

lemma check_msg_addr:
  "check_msg oc sh si p n = Some (r, sh', si') \<Longrightarrow> (sh' = sh \<or> sh_to_addr sh' \<noteq> None) \<and> (\<forall>u. r = Inr u \<longrightarrow> sh_to_addr sh' \<noteq> None)"
  by (auto simp: check_msg_def set_to_addr_def Let_def split: if_splits bind_splits)

lemma peek_addr:
  assumes "peek_msg cr oc sh si q = Some (r, sh', si', q')"
  shows "(sh' = sh \<or> sh_to_addr sh' \<noteq> None) \<and> (\<forall>p. r = Some (Inr p) \<longrightarrow> si_next si = None \<longrightarrow> sh_to_addr sh' \<noteq> None) \<and> (r = None \<longrightarrow> si' = si)"
  using assms by (auto simp: peek_msg_def split: option.splits bind_splits sum.splits prod.splits dest!: check_msg_addr)

lemma recv_addr:
  assumes "recv_msg cr oc sh si q = Some (r, sh', si', q')"
  shows "(sh' = sh \<or> sh_to_addr sh' \<noteq> None) \<and> (\<forall>p. r = Some (Inr p) \<longrightarrow> si_next si' = None)"
  using assms by (auto simp: recv_msg_def split: option.splits bind_splits sum.splits dest!: peek_addr)

lemma poll_keeps:
  assumes "session_poll rx s = Some (r, s')"
  shows "ss_out s' = ss_out s \<and> ss_chan s' = ss_chan s"
  using assms by (auto simp: session_poll_def split: bind_splits)

lemma stream_peek_keeps:
  assumes "session_poll (stream_peek_msg oc) s = Some (r, s')"
  shows "ss_out s' = ss_out s \<and> ss_chan s' = ss_chan s \<and> (sh_to_addr (ss_sh s) \<noteq> None \<longrightarrow> sh_to_addr (ss_sh s') \<noteq> None)
    \<and> (\<forall>p. r = Some (Inr p) \<longrightarrow> si_next (ss_in s) = None \<longrightarrow> sh_to_addr (ss_sh s') \<noteq> None) \<and> (r = None \<longrightarrow> ss_in s' = ss_in s)"
  using assms by (auto simp: session_poll_def stream_peek_msg_def split: bind_splits dest!: peek_addr)

lemma stream_recv_keeps:
  assumes "session_poll (stream_recv_msg oc) s = Some (r, s')"
  shows "ss_out s' = ss_out s \<and> ss_chan s' = ss_chan s \<and> (sh_to_addr (ss_sh s) \<noteq> None \<longrightarrow> sh_to_addr (ss_sh s') \<noteq> None)
    \<and> (\<forall>p. r = Some (Inr p) \<longrightarrow> si_next (ss_in s') = None)"
  using assms by (auto simp: session_poll_def stream_recv_msg_def split: bind_splits dest!: recv_addr)

section \<open>Sending\<close>

lemma u32_lt: "unat (w :: u32) < 2 ^ 32"
  using unsigned_less [of w, where ?'a = nat] by simp

lemma stream_tx_returns:
  assumes C: "message_channel C good queue" and c: "good c" and ok: "request_packet_ok (zp_ptype z)" and addr: "sh_to_addr sh \<noteq> None"
    and buf: "length (so_packet_buf so) < 2 ^ 63" and left: "seq_left oc (sh_out_seq sh)"
  shows "\<exists>r buf sh' c'. stream_try_send_msg oc fmt (ci_send C) so sh c z = Some (r, so\<lparr>so_packet_buf := buf\<rparr>, sh', c')
    \<and> length buf = length (so_packet_buf so) \<and> good c' \<and> sh_to_addr sh' = sh_to_addr sh"
proof -
  obtain a where a: "sh_to_addr sh = Some a" using addr by auto
  have "request_packet_ok (zp_ptype (addressed so sh z))" "length (zp_ids (addressed so sh z)) \<le> IDS_MAX"
    using ok by (simp_all add: addressed_def IDS_MAX_def)
  from request_outcome [OF this buf, of oc fmt] obtain r buf' where
    r: "request_serialize oc fmt (addressed so sh z) (so_packet_buf so) = Some (r, buf')" "length buf' = length (so_packet_buf so)"
      "case r of Inl _ \<Rightarrow> True | Inr n \<Rightarrow> n \<le> length buf'"
    by (metis (no_types, lifting) sum.case_eq_if)
  show ?thesis
  proof (cases r)
    case (Inl e)
    then show ?thesis using r c by (auto simp: stream_try_send_msg_def)
  next
    case (Inr n)
    obtain r' c' where "ci_send C c (a, take n buf') = Some (r', c')" "good c'"
      using message_channel.send_law [OF C c] by blast
    then show ?thesis using r Inr a c u32_inc [OF left]
      by (cases r') (auto simp: stream_try_send_msg_def subslice_def inc_out_seq_def Let_def)
  qed
qed

definition forward_source :: "'e httparse \<Rightarrow> (req_body, unit) body_source" where
  "forward_source HT = \<lparr>bs_try = \<lambda>b n. core_http (req_try_recv HT b n), bs_add = \<lambda>b x. core_http (req_add b x :: ((unit wrap_error + unit) \<times> req_body) run)\<rparr>"

locale request_forward = message_channel C good queue
  for C :: "('c, bytes \<times> bytes) chan_if" and good :: "'c \<Rightarrow> bool" and queue :: "'c \<Rightarrow> (bytes \<times> bytes) list"
begin

lemma data_sent:
  assumes "good (ss_chan s)" and "sh_to_addr (ss_sh s) \<noteq> None" and "length (so_packet_buf (ss_out s)) < 2 ^ 63" and "seq_left oc (sh_out_seq (ss_sh s))"
    and z: "(\<exists>body mr. z = ro_data (stream_role oc fmt C) body mr) \<or> z = ro_proceed (stream_role oc fmt C)"
  obtains r s' where "session_tx (stream_role oc fmt C) s z = Some (r, s')" and "good (ss_chan s')" and "sh_to_addr (ss_sh s') \<noteq> None"
    and "length (so_packet_buf (ss_out s')) < 2 ^ 63" and "ss_in s' = ss_in s"
proof -
  have "request_packet_ok (zp_ptype z)"
    using z by (auto simp: stream_role_def request_new_data_def request_new_handoff_proceed_def packet_new_def request_data_ok_def request_data_new_def headers_ok_def HEADERS_MAX_def)
  from stream_tx_returns [OF message_channel_axioms assms(1) this assms(2,3,4), of fmt]
  show ?thesis using assms(2,3) that by (auto simp: session_tx_def stream_role_def)
qed

lemma forward_returns:
  assumes HT: "httparse_bounded HT" and ok: "forward_ok good l" and l: "rl_result l = None" "rl_handoff l = NoHandoff" "rl_check l"
    and left: "seq_left oc (sh_out_seq (ss_sh (rl_sess l)))"
  shows "\<exists>tr l'. recv_forward oc (stream_role oc fmt C) (forward_source HT) tmp_len l = Some (tr, l') \<and> forward_ok good l'
    \<and> sent tr \<le> tmp_len \<and> sent tr + loop_credits l' \<le> loop_credits l"
proof -
  let ?s = "rl_sess l" and ?n = "min tmp_len (loop_credits l)"
  have k: "good (ss_chan ?s)" "length (so_packet_buf (ss_out ?s)) < 2 ^ 63" "req_ready (rl_body l)" "0 < loop_credits l" "\<not> rl_add l" "sh_to_addr (ss_sh ?s) \<noteq> None"
    using ok l by (auto simp: forward_ok_def)
  have pos: "0 < si_credits (ss_in ?s)" using k(4) by (simp add: word_greater_zero_iff unat_gt_0)
  obtain r b where r: "req_try_recv HT (rl_body l) ?n = Some (r, b)" "req_ready b" "\<And>st. r = Inr st \<Longrightarrow> length (status_bytes st) \<le> ?n"
    using req_try_recv_returns [OF HT k(3)] by blast
  obtain c where c: "ci_cancel C (ss_chan ?s) = Some c" "good c" using cancel_law [OF k(1)] by blast
  note defs = recv_forward_def forward_source_def core_http_def stream_role_def forward_ok_def
  consider (err) e where "r = Inl e" | (need) "r = Inr BodyNeedBytes" | (data) st body fin where "r = Inr st" "st \<noteq> BodyNeedBytes"
      "(case st of BodyComplete f d \<Rightarrow> (d, Some f) | BodyRead d \<Rightarrow> (d, None) | BodyNeedBytes \<Rightarrow> ([], None)) = (body, fin)" "length body \<le> ?n"
  proof (cases r)
    case (Inr st)
    then show ?thesis using that(2,3) r(3) by (cases st) auto
  qed (use that(1) in blast)
  then show ?thesis
  proof cases
    case err
    then show ?thesis using r k c pos l by (simp add: defs)
  next
    case need
    then show ?thesis using r k c pos l by (simp add: defs)
  next
    case data
    let ?si = "(ss_in ?s)\<lparr>si_credits := si_credits (ss_in ?s) - word_of_nat (length body)\<rparr>"
    have small: "length body < 2 ^ 32" "length body \<le> loop_credits l" using data(4) u32_lt [of "si_credits (ss_in ?s)"] by auto
    then have u: "unat (word_of_nat (length body) :: u32) = length body" by (simp add: unat_of_nat)
    have sub: "subtract_credits oc (ss_in ?s) (word_of_nat (length body)) = Some ?si" "unat (si_credits ?si) = loop_credits l - length body"
      using small u by (simp_all add: subtract_credits_def u32_sub_def unat_sub word_le_nat_alt)
    let ?s1 = "?s\<lparr>ss_in := ?si\<rparr>"
    let ?z = "ro_data (stream_role oc fmt C) body (fin = None)"
    have pre: "good (ss_chan ?s1)" "sh_to_addr (ss_sh ?s1) \<noteq> None" "length (so_packet_buf (ss_out ?s1)) < 2 ^ 63" "seq_left oc (sh_out_seq (ss_sh ?s1))"
      "(\<exists>body mr. ?z = ro_data (stream_role oc fmt C) body mr) \<or> ?z = ro_proceed (stream_role oc fmt C)"
      using k left by auto
    obtain x s2 where tx: "session_tx (stream_role oc fmt C) ?s1 ?z = Some (x, s2)"
        "good (ss_chan s2)" "sh_to_addr (ss_sh s2) \<noteq> None" "length (so_packet_buf (ss_out s2)) < 2 ^ 63" "ss_in s2 = ?si"
      by (rule data_sent [OF pre]) (rule that, simp_all)
    obtain c2 where c2: "ci_cancel C (ss_chan s2) = Some c2" "good c2" using cancel_law [OF tx(2)] by blast
    have canc: "ro_cancel (stream_role oc fmt C) = ci_cancel C" by (simp add: stream_role_def)
    have get: "bs_try (forward_source HT) (rl_body l) ?n = Some (Inr st, b)" using r(1) data(1) by (simp add: forward_source_def core_http_def)
    let ?l = "l\<lparr>rl_check := False, rl_body := b, rl_sess := s2\<lparr>ss_chan := c2\<rparr>\<rparr>"
    have "recv_forward oc (stream_role oc fmt C) (forward_source HT) tmp_len l =
        Some (case x of Inl e \<Rightarrow> ([], ?l\<lparr>rl_result := Some (Inl e)\<rparr>)
          | Inr _ \<Rightarrow> ([SentData body (fin = None)], if fin = None then ?l else ?l\<lparr>rl_result := Some (Inr fin)\<rparr>))"
      using get data(1,2,3) sub(1) tx(1) c2(1) canc pos k(5)
      by (cases st; cases x) (auto simp: recv_forward_def Let_def)
    moreover have "forward_ok good ?l" using tx c2 r(2) by (simp add: forward_ok_def l)
    ultimately show ?thesis using sub(2) small(2) data(4) tx(5) by (cases x) auto
  qed
qed

lemma packet_forward_ok:
  assumes ok: "forward_ok good l" and l: "rl_result l = None" "rl_handoff l = NoHandoff" and p: "recv_packet (stream_role oc fmt C) True l = Some l'"
    and mono: "loop_credits l \<le> loop_credits l'"
  shows "forward_ok good l'"
proof -
  obtain r s where s: "session_poll (stream_peek_msg oc) (rl_sess l) = Some (r, s)" using p by (auto simp: recv_packet_def stream_role_def split: bind_splits)
  note k = stream_peek_keeps [OF s]
  have same: "rl_result (recv_other l2 v) = None \<Longrightarrow> rl_sess (recv_other l2 v) = rl_sess l2 \<and> rl_check (recv_other l2 v) = rl_check l2 \<and> rl_add (recv_other l2 v) = rl_add l2
      \<and> rl_body (recv_other l2 v) = rl_body l2 \<and> rl_handoff (recv_other l2 v) \<in> {rl_handoff l2, HandoffSend}" for l2 :: "('c, response_packet, 'z, req_body, 'fin) recv_loop" and v
    by (auto simp: recv_other_def split: other_result.splits)
  note rp = p [unfolded recv_packet_def, simplified stream_role_def, simplified, unfolded s, simplified]
  consider (none) "r = None" | (err) e where "r = Some (Inl e)" | (data) z x y where "r = Some (Inr z)" "response_view (zp_ptype z) = ViewData x y"
    | (other) z where "r = Some (Inr z)" "\<forall>x y. response_view (zp_ptype z) \<noteq> ViewData x y"
    by (metis option.exhaust sum.exhaust)
  then show ?thesis
  proof cases
    case other
    obtain r2 s2 v where m: "session_poll (stream_recv_msg oc) s = Some (r2, s2)" "l' = (case r2 of None \<Rightarrow> l\<lparr>rl_sess := s, rl_sess := s2\<rparr>
        | Some (Inl e) \<Rightarrow> l\<lparr>rl_sess := s, rl_sess := s2, rl_result := Some (Inl e)\<rparr> | Some (Inr _) \<Rightarrow> recv_other (l\<lparr>rl_sess := s, rl_sess := s2\<rparr>) v)"
      using rp other by (cases "response_view (zp_ptype z)") (auto simp: Let_def split: bind_splits)
    note k2 = stream_recv_keeps [OF m(1)]
    show ?thesis
    proof (cases "\<exists>z. r2 = Some (Inr z)")
      case True
      then have l': "l' = recv_other (l\<lparr>rl_sess := s2\<rparr>) v" and n: "si_next (ss_in s2) = None" using m(2) k2 by auto
      show ?thesis using same [of "l\<lparr>rl_sess := s2\<rparr>" v, folded l'] n ok l k k2 mono by (auto simp: forward_ok_def)
    next
      case False
      then show ?thesis using ok l k k2 m(2) mono by (auto simp: forward_ok_def split: option.splits sum.splits)
    qed
  qed (use rp ok l k mono in \<open>auto simp: forward_ok_def Let_def\<close>)
qed

lemma handoff_check_forward:
  assumes ok: "forward_ok good l" and l: "rl_result l = None" "rl_handoff l = HandoffSend" and left: "seq_left oc (sh_out_seq (ss_sh (rl_sess l)))"
    and h: "handoff_check (stream_role oc fmt C) (rl_sess l) = Some (x, tr, s)"
  shows "sent tr = 0 \<and> ss_in s = ss_in (rl_sess l) \<and> (\<forall>h'. x = Inr h' \<longrightarrow> forward_ok good (l\<lparr>rl_sess := s, rl_handoff := h'\<rparr>))"
proof -
  let ?s = "rl_sess l"
  have k: "good (ss_chan ?s)" "length (so_packet_buf (ss_out ?s)) < 2 ^ 63" "sh_to_addr (ss_sh ?s) \<noteq> None" "si_next (ss_in ?s) = None"
    using ok l by (auto simp: forward_ok_def)
  obtain ready c where c: "ci_check C (ss_chan ?s) = Some (ready, c)" "good c" using check_law [OF k(1)] by blast
  let ?z = "ro_proceed (stream_role oc fmt C)"
  have pre: "good (ss_chan (?s\<lparr>ss_chan := c\<rparr>))" "sh_to_addr (ss_sh (?s\<lparr>ss_chan := c\<rparr>)) \<noteq> None" "length (so_packet_buf (ss_out (?s\<lparr>ss_chan := c\<rparr>))) < 2 ^ 63"
      "seq_left oc (sh_out_seq (ss_sh (?s\<lparr>ss_chan := c\<rparr>)))" "(\<exists>body mr. ?z = ro_data (stream_role oc fmt C) body mr) \<or> ?z = ro_proceed (stream_role oc fmt C)"
    using k c left by auto
  obtain r s2 where tx: "session_tx (stream_role oc fmt C) (?s\<lparr>ss_chan := c\<rparr>) ?z = Some (r, s2)" "good (ss_chan s2)"
      "length (so_packet_buf (ss_out s2)) < 2 ^ 63" "ss_in s2 = ss_in ?s"
    by (rule data_sent [OF pre]) (erule that, assumption+, simp)
  have ch: "ro_check (stream_role oc fmt C) = ci_check C" by (simp add: stream_role_def)
  show ?thesis using h ch c tx k ok l by (cases ready; cases r) (auto simp: handoff_check_def forward_ok_def Let_def set_to_addr_def)
qed

lemma handoff_msg_forward:
  assumes ok: "forward_ok good l" and l: "rl_result l = None" "rl_handoff l \<noteq> NoHandoff"
    and h: "handoff_msg (stream_role oc fmt C) (rl_handoff l) (rl_sess l) = Some (Inr h', s)" and mono: "loop_credits l \<le> unat (si_credits (ss_in s))"
  shows "forward_ok good (l\<lparr>rl_sess := s, rl_handoff := h'\<rparr>)"
proof (cases "rl_handoff l = HandoffSend")
  case True
  then show ?thesis using h ok l by (auto simp: handoff_msg_def forward_ok_def split: list.splits)
next
  case False
  then have w: "rl_handoff l = HandoffWait" using l(2) by (cases "rl_handoff l") auto
  obtain r where r: "session_poll (stream_peek_msg oc) (rl_sess l) = Some (r, s)" "(r = None \<and> h' = HandoffWait) \<or> (\<exists>z. r = Some (Inr z) \<and> h' = NoHandoff)"
    using h w by (auto simp: handoff_msg_def stream_role_def split: bind_splits option.splits sum.splits)
  then show ?thesis using stream_peek_keeps [OF r(1)] ok l w mono by (auto simp: forward_ok_def)
qed

lemma check_returns:
  assumes HT: "httparse_bounded HT" and ok: "forward_ok good l" and l: "rl_result l = None" "rl_handoff l = NoHandoff"
    and left: "seq_left oc (sh_out_seq (ss_sh (rl_sess l)))"
  shows "\<exists>tr l'. recv_loop_step oc (stream_role oc fmt C) True (forward_source HT) tmp_len RvCheck l = Some (tr, l') \<and> forward_ok good l'
    \<and> sent tr \<le> tmp_len \<and> sent tr + loop_credits l' \<le> loop_credits l"
proof -
  let ?l = "recv_enter l"
  have ok1: "forward_ok good ?l" using forward_ok_enter [OF ok] .
  have "good (ss_chan (rl_sess l))" using ok l by (simp add: forward_ok_def)
  then obtain ready c where c: "ci_check C (ss_chan (rl_sess l)) = Some (ready, c)" "good c" using check_law by blast
  let ?l2 = "?l\<lparr>rl_sess := (rl_sess l)\<lparr>ss_chan := c\<rparr>\<rparr>"
  have ok2: "forward_ok good ?l2" using ok1 l c(2) by (simp add: forward_ok_def)
  have "seq_left oc (sh_out_seq (ss_sh (rl_sess ?l2)))" using left by simp
  from forward_returns [OF HT ok2 _ _ _ this, of fmt tmp_len] show ?thesis
    using l c ok1 ok2 by (cases "rl_check ?l"; cases ready) (auto simp: recv_loop_step_def stream_role_def)
qed

lemma step_forward_ok:
  assumes HT: "httparse_bounded HT" and ok: "forward_ok good l" and left: "seq_left oc (sh_out_seq (ss_sh (rl_sess l)))"
    and s: "recv_loop_step oc (stream_role oc fmt C) True (forward_source HT) tmp_len ev l = Some (tr, l')"
    and mono: "ev = RvMsg \<longrightarrow> loop_credits l \<le> loop_credits l'"
  shows "forward_ok good l' \<and> sent tr + loop_credits l' \<le> loop_credits l + (if ev = RvMsg then loop_credits l' - loop_credits l else 0)"
proof -
  consider (over) "rl_result l \<noteq> None" | (handoff) "rl_result l = None" "rl_handoff l \<noteq> NoHandoff" | (main) "rl_result l = None" "rl_handoff l = NoHandoff" by blast
  then show ?thesis
  proof cases
    case over
    then show ?thesis using s ok by (simp add: recv_loop_step_def)
  next
    case handoff
    show ?thesis
    proof (cases ev)
      case RvCheck
      then show ?thesis using s handoff ok
        by (cases "rl_handoff l = HandoffSend") (auto simp: recv_loop_step_def split: bind_splits sum.splits dest!: handoff_check_forward [OF ok handoff(1) _ left])
    next
      case (RvArrived x)
      then show ?thesis using s handoff ok by (simp add: recv_loop_step_def)
    next
      case RvMsg
      then show ?thesis using s handoff ok mono handoff_msg_forward [OF ok handoff]
        by (auto simp: recv_loop_step_def split: bind_splits sum.splits)
    qed
  next
    case main
    let ?l = "recv_enter l"
    have ok1: "forward_ok good ?l" using forward_ok_enter [OF ok] .
    note stp = s [unfolded recv_loop_step_def Let_def]
    show ?thesis
    proof (cases ev)
      case RvCheck
      then show ?thesis using check_returns [OF HT ok main left, of fmt tmp_len] s by auto
    next
      case (RvArrived x)
      have "req_ready b" if "bs_add (forward_source HT) (rl_body l) x = Some (r, b)" for r b
        using that req_add_ready [of "rl_body l" x] ok main by (auto simp: forward_source_def core_http_def forward_ok_def)
      then show ?thesis using stp main RvArrived ok1 by (auto simp: forward_ok_def split: if_splits bind_splits sum.splits)
    next
      case RvMsg
      then show ?thesis using stp main mono packet_forward_ok [OF ok1, of oc fmt l'] by (auto split: bind_splits)
    qed
  qed
qed

end

interpretation vec_forward: request_forward "local_chan vec_slab_ops k" "usable vec_slab_ops k" lc_queue for k
  by (intro request_forward.intro local_channel_laws vec.slab_spec_axioms)

lemma recv_body_step_eq: "stream_recv_body_step oc fmt C HT = recv_loop_step oc (stream_role oc fmt C) True (forward_source HT)"
  by (simp add: stream_recv_body_step_def forward_source_def)

section \<open>Runs of the loop\<close>

text \<open>
  The states that the loop reaches from \<open>l0\<close>, with the credits received (\<open>g\<close>) and the bytes sent (\<open>n\<close>), as long as the
  credits of the handler do not exceed 32 bits and, where overflow panics, no more than 32 bits of messages are sent. Between steps the
  surroundings change: the messages in the channel (which remains usable) and those that have arrived.
\<close>

inductive recv_run ::
  "(recv_event \<Rightarrow> ('c, 'p, 'x, 'b, 'fin) recv_loop \<Rightarrow> (flow_event list \<times> ('c, 'p, 'x, 'b, 'fin) recv_loop) run) \<Rightarrow> ('c \<Rightarrow> bool) \<Rightarrow> bool \<Rightarrow>
   ('c, 'p, 'x, 'b, 'fin) recv_loop \<Rightarrow> nat \<Rightarrow> nat \<Rightarrow> ('c, 'p, 'x, 'b, 'fin) recv_loop \<Rightarrow> bool"
  for stp good oc l0 where
  start: "recv_run stp good oc l0 0 0 l0"
| step: "recv_run stp good oc l0 g n l \<Longrightarrow> seq_left oc (sh_out_seq (ss_sh (rl_sess l))) \<Longrightarrow> stp ev l = Some (tr, l') \<Longrightarrow>
    ev = RvMsg \<longrightarrow> loop_credits l \<le> loop_credits l' \<Longrightarrow>
    recv_run stp good oc l0 (g + (if ev = RvMsg then loop_credits l' - loop_credits l else 0)) (n + sent tr) l'"
| env: "recv_run stp good oc l0 g n l \<Longrightarrow> good c \<Longrightarrow> recv_run stp good oc l0 g n (l\<lparr>rl_sess := (rl_sess l)\<lparr>ss_chan := c, ss_items := q\<rparr>\<rparr>)"

lemma recv_run_ok:
  assumes "recv_run stp good oc l0 g n l" and "forward_ok good l0"
    and law: "\<And>ev l tr l'. forward_ok good l \<Longrightarrow> seq_left oc (sh_out_seq (ss_sh (rl_sess l))) \<Longrightarrow> stp ev l = Some (tr, l') \<Longrightarrow>
      ev = RvMsg \<longrightarrow> loop_credits l \<le> loop_credits l' \<Longrightarrow>
      forward_ok good l' \<and> sent tr + loop_credits l' \<le> loop_credits l + (if ev = RvMsg then loop_credits l' - loop_credits l else 0)"
  shows "forward_ok good l \<and> n + loop_credits l \<le> loop_credits l0 + g"
  using assms(1,2)
proof (induction rule: recv_run.induct)
  case (step g n l ev tr l')
  then show ?case using law [of l ev tr l'] by linarith
qed (auto simp: forward_ok_def)

section \<open>Properties\<close>

text \<open>
  Property C14. The body of a request is sent within the credits of the handler. Whatever arrives from the client and from the
  handler, handoffs included, while the body of a request is forwarded: the bytes sent so far and the credits left
  are at most the credits at the start and those received since. Whenever a message can be sent, no assertion fails and no counter
  underflows, and at most as many bytes are sent as there are credits and room in the scratch buffer.
\<close>

theorem request_body_within_credits:
  fixes S :: "'s sender_slab"
  assumes S: "slab_spec S" and HT: "httparse_bounded HT"
    and start: "usable S k (ss_chan s)" "length (so_packet_buf (ss_out s)) < 2 ^ 63" "sh_to_addr (ss_sh s) \<noteq> None" "req_ready b"
    and run: "recv_run (stream_recv_body_step oc fmt (local_chan S k) HT tmp_len) (usable S k) oc (recv_loop_new s b) g n l"
    and l: "rl_result l = None" "rl_handoff l = NoHandoff" and left: "seq_left oc (sh_out_seq (ss_sh (rl_sess l)))"
  shows "n + loop_credits l \<le> unat (si_credits (ss_in s)) + g
    \<and> (\<exists>tr l'. stream_recv_body_step oc fmt (local_chan S k) HT tmp_len RvCheck l = Some (tr, l')
         \<and> sent tr \<le> min tmp_len (loop_credits l) \<and> sent tr + loop_credits l' \<le> loop_credits l)"
proof -
  have F: "request_forward (local_chan S k) (usable S k) lc_queue" by (intro request_forward.intro local_channel_laws S)
  note inv = recv_run_ok [OF run [unfolded recv_body_step_eq] forward_ok_new [of "usable S k" s, OF start], unfolded recv_loop_new_sess]
  have ok: "forward_ok (usable S k) l \<and> n + loop_credits l \<le> unat (si_credits (ss_in s)) + g"
    by (rule inv) (erule (3) request_forward.step_forward_ok [OF F HT])
  then have "\<exists>tr l'. stream_recv_body_step oc fmt (local_chan S k) HT tmp_len RvCheck l = Some (tr, l')
      \<and> sent tr \<le> tmp_len \<and> sent tr + loop_credits l' \<le> loop_credits l"
    unfolding recv_body_step_eq using request_forward.check_returns [OF F HT _ l left] by blast
  then show ?thesis using ok by auto
qed

text \<open>A connection that has 16 bytes of credits and the beginning of a chunked body.\<close>

abbreviation forward_session where
  "forward_session \<equiv>
     \<lparr>ss_out = sample_out, ss_sh = sample_shared, ss_chan = chan_state :: (sender_data slab_node vec_slab, bytes \<times> bytes) local_channel,
      ss_in = (stream_in_new [55] 100 False)\<lparr>si_credits := 16\<rparr>, ss_items = []\<rparr>"

theorem request_body_within_credits_witness:
  "\<exists>tr l'. stream_recv_body_step True (\<lambda>_ :: unit. []) (local_chan vec_slab_ops 0) plain_parser 100 RvCheck (recv_loop_new forward_session (line_body\<lparr>qb_buf := chunk_buf\<rparr>)) = Some (tr, l')
    \<and> sent tr \<le> 16 \<and> sent tr + loop_credits l' \<le> 16"
proof -
  let ?s = forward_session
  obtain c :: "(sender_data slab_node vec_slab, bytes \<times> bytes) local_channel" where c: "local_channel_new vec_slab_ops 2 1 = Some (0, c)"
    using sample_channel by blast
  have u: "usable vec_slab_ops 0 (ss_chan ?s)" using new_channel_usable [OF vec.slab_spec_axioms c] c by simp
  have k: "length (so_packet_buf (ss_out ?s)) < 2 ^ 63" "sh_to_addr (ss_sh ?s) \<noteq> None" "seq_left True (sh_out_seq (ss_sh ?s))"
    by (simp_all add: session_out_new_def seq_left_def)
  have b: "req_ready (line_body\<lparr>qb_buf := chunk_buf\<rparr>)"
    using line_buf_ok(4) by (simp add: req_ready_def line_body_def server_inv_def server_new_def pending_ok_def)
  note run = recv_run.start [of "stream_recv_body_step True (\<lambda>_ :: unit. []) (local_chan vec_slab_ops 0) plain_parser 100" "usable vec_slab_ops 0" True "recv_loop_new forward_session (line_body\<lparr>qb_buf := chunk_buf\<rparr>)"]
  show ?thesis
    using request_body_within_credits [OF vec.slab_spec_axioms plain_bounded _ _ _ b run] u k by auto
qed

end
