(* ===== verification/Batch.thy ===== *)
theory Batch
  imports SlabList ZhttpPacket "HOL-Library.Multiset"
begin

text \<open>
  \<open>src/connmgr/batch.rs\<close>: the batch in which a server collects connections that are due for a keep-alive, grouped by the peer
  they talk to, so that one packet can be sent for many of them. Every peer address has a list of nodes, all lists
  share one slab. \<open>take_group\<close> empties the batch one group at a time.
\<close>

section \<open>Data\<close>

definition FROM_MAX :: nat where "FROM_MAX = 64"

record batch_key =
  bk_addr_index :: nat
  bk_nkey :: nat

record addr_item =
  ai_addr :: bytes
  ai_use_router :: bool
  ai_keys :: "nat llist"

text \<open>
  The vector of ids is new in every call, so that the pool it comes from is not a field. \<open>add\<close> never lets the vector of addresses grow
  beyond its capacity, which is then the one it was made with.
\<close>

record 's batch =
  ba_nodes :: 's
  ba_addrs :: "addr_item list"
  ba_addrs_cap :: nat
  ba_addr_index :: nat
  ba_removed :: "(nat \<times> bool) list"

record batch_group =
  bg_addr :: bytes
  bg_use_router :: bool
  bg_removed :: "(nat \<times> bool) list"
  bg_ids :: "pkt_id list"

type_synonym 's node_slab = "('s, nat slab_node) slab_ops"

section \<open>Operations\<close>

definition batch_new :: "'s node_slab \<Rightarrow> nat \<Rightarrow> 's batch" where
  "batch_new S capacity =
     \<lparr>ba_nodes = sl_with_capacity S capacity, ba_addrs = [], ba_addrs_cap = capacity, ba_addr_index = 0, ba_removed = []\<rparr>"

definition batch_len :: "'s node_slab \<Rightarrow> 's batch \<Rightarrow> nat" where
  "batch_len S b = sl_len S (ba_nodes b)"

definition batch_capacity :: "'s node_slab \<Rightarrow> 's batch \<Rightarrow> nat" where
  "batch_capacity S b = sl_capacity S (ba_nodes b)"

definition batch_is_empty :: "'s node_slab \<Rightarrow> 's batch \<Rightarrow> bool" where
  "batch_is_empty S b \<longleftrightarrow> sl_len S (ba_nodes b) = 0"

definition batch_clear :: "'s node_slab \<Rightarrow> 's batch \<Rightarrow> 's batch" where
  "batch_clear S b = b\<lparr>ba_addrs := [], ba_nodes := sl_clear S (ba_nodes b), ba_addr_index := 0\<rparr>"

text \<open>The search for the address, which goes on after a match.\<close>

fun find_addr :: "bytes \<Rightarrow> bool \<Rightarrow> nat \<Rightarrow> addr_item list \<Rightarrow> nat \<Rightarrow> nat" where
  "find_addr addr router n [] pos = pos"
| "find_addr addr router n (ai # ais) pos =
     find_addr addr router (n + 1) ais (if ai_addr ai = addr \<and> ai_use_router ai = router then n else pos)"

definition batch_push :: "'s node_slab \<Rightarrow> 's batch \<Rightarrow> nat \<Rightarrow> nat \<Rightarrow> (batch_key \<times> 's batch) run" where
  "batch_push S b pos ckey = do {
     let (nkey, nodes) = sl_insert S (ba_nodes b) (slab_node_new ckey);
     ai \<leftarrow> index_at (ba_addrs b) pos;
     (keys, nodes) \<leftarrow> ll_push_back (slab_backend S) (ai_keys ai) nodes nkey;
     Some (\<lparr>bk_addr_index = pos, bk_nkey = nkey\<rparr>, b\<lparr>ba_nodes := nodes, ba_addrs := (ba_addrs b)[pos := ai\<lparr>ai_keys := keys\<rparr>]\<rparr>)
   }"

definition batch_add :: "'s node_slab \<Rightarrow> 's batch \<Rightarrow> bytes \<Rightarrow> bool \<Rightarrow> nat \<Rightarrow> ((unit + batch_key) \<times> 's batch) run" where
  "batch_add S b to_addr use_router ckey =
     (if sl_len S (ba_nodes b) = sl_capacity S (ba_nodes b) then Some (Inl (), b)
      else do {
        let b = (if sl_len S (ba_nodes b) = 0 then b\<lparr>ba_addrs := [], ba_addr_index := 0\<rparr> else b);
        let pos = find_addr to_addr use_router 0 (ba_addrs b) (length (ba_addrs b));
        if pos = length (ba_addrs b) then
          if length (ba_addrs b) = ba_addrs_cap b then Some (Inl (), b)
          else do {
            _ \<leftarrow> assert_that (length to_addr \<le> FROM_MAX);
            let item = \<lparr>ai_addr = to_addr, ai_use_router = use_router, ai_keys = ll_empty\<rparr>;
            (key, b) \<leftarrow> batch_push S (b\<lparr>ba_addrs := ba_addrs b @ [item]\<rparr>) pos ckey;
            Some (Inr key, b)
          }
        else if pos < ba_addr_index b then Some (Inl (), b)
        else do { (key, b) \<leftarrow> batch_push S b pos ckey; Some (Inr key, b) }
      })"

definition batch_remove :: "'s node_slab \<Rightarrow> 's batch \<Rightarrow> batch_key \<Rightarrow> 's batch run" where
  "batch_remove S b key = do {
     ai \<leftarrow> index_at (ba_addrs b) (bk_addr_index key);
     (keys, nodes) \<leftarrow> ll_remove (slab_backend S) (ai_keys ai) (ba_nodes b) (bk_nkey key);
     (_, nodes) \<leftarrow> slab_take S nodes (bk_nkey key);
     Some (b\<lparr>ba_nodes := nodes, ba_addrs := (ba_addrs b)[bk_addr_index key := ai\<lparr>ai_keys := keys\<rparr>]\<rparr>)
   }"

text \<open>The next address with items, from \<open>i\<close> on.\<close>

fun next_addr :: "addr_item list \<Rightarrow> nat \<Rightarrow> nat" where
  "next_addr [] i = i"
| "next_addr (ai # ais) i = (if ll_is_empty (ai_keys ai) then next_addr ais (i + 1) else i)"

partial_function (option) take_ids ::
  "'s node_slab \<Rightarrow> (nat \<Rightarrow> (bytes \<times> u32) option) \<Rightarrow> nat llist \<Rightarrow> 's \<Rightarrow> pkt_id list \<Rightarrow> (nat \<times> bool) list \<Rightarrow>
   (nat llist \<times> 's \<times> pkt_id list \<times> (nat \<times> bool) list) option" where
  "take_ids S incl keys nodes ids removed =
     (if length ids < IDS_MAX then do {
        (nkey, keys, nodes) \<leftarrow> ll_pop_front (slab_backend S) keys nodes;
        case nkey of
          None \<Rightarrow> Some (keys, nodes, ids, removed)
        | Some nkey \<Rightarrow> do {
            n \<leftarrow> slab_index S nodes nkey;
            let ckey = sn_value n;
            let (ids, included) = (case incl ckey of Some (i, q) \<Rightarrow> (ids @ [\<lparr>id_id = i, id_seq = Some q\<rparr>], True) | None \<Rightarrow> (ids, False));
            (_, nodes) \<leftarrow> slab_take S nodes nkey;
            take_ids S incl keys nodes ids (removed @ [(ckey, included)])
          }
      } else Some (keys, nodes, ids, removed))"

partial_function (option) take_loop ::
  "'s node_slab \<Rightarrow> (nat \<Rightarrow> (bytes \<times> u32) option) \<Rightarrow> 's batch \<Rightarrow> pkt_id list \<Rightarrow> (pkt_id list \<times> 's batch) option" where
  "take_loop S incl b ids =
     (if ids \<noteq> [] then Some (ids, b)
      else do {
        let i = next_addr (drop (ba_addr_index b) (ba_addrs b)) (ba_addr_index b);
        let b = b\<lparr>ba_addr_index := i\<rparr>;
        if i = length (ba_addrs b) then do {
          _ \<leftarrow> assert_that (sl_len S (ba_nodes b) = 0);
          Some (ids, b)
        }
        else do {
          ai \<leftarrow> index_at (ba_addrs b) i;
          (keys, nodes, ids, removed) \<leftarrow> take_ids S incl (ai_keys ai) (ba_nodes b) ids (ba_removed b);
          take_loop S incl (b\<lparr>ba_nodes := nodes, ba_addrs := (ba_addrs b)[i := ai\<lparr>ai_keys := keys\<rparr>], ba_removed := removed\<rparr>) ids
        }
      })"

definition take_group :: "'s node_slab \<Rightarrow> (nat \<Rightarrow> (bytes \<times> u32) option) \<Rightarrow> 's batch \<Rightarrow> (batch_group option \<times> 's batch) run" where
  "take_group S incl b = do {
     (ids, b) \<leftarrow> take_loop S incl (b\<lparr>ba_removed := []\<rparr>) [];
     if ba_removed b = [] then do { _ \<leftarrow> assert_that (ids = []); Some (None, b) }
     else do {
       (addr, use_router) \<leftarrow>
         (if ids \<noteq> [] then do { ai \<leftarrow> index_at (ba_addrs b) (ba_addr_index b); Some (ai_addr ai, ai_use_router ai) } else Some ([], False));
       Some (Some \<lparr>bg_addr = addr, bg_use_router = use_router, bg_removed = ba_removed b, bg_ids = ids\<rparr>, b)
     }
   }"

section \<open>The entries of a batch\<close>

text \<open>
  The lists of the addresses hold the nodes \<open>kss\<close>, which are all the nodes of the slab; \<open>entries\<close> are the connections in the order in
  which they are taken, with their addresses.
\<close>

definition node_ckey :: "'s node_slab \<Rightarrow> 's \<Rightarrow> nat \<Rightarrow> nat" where
  "node_ckey S s k = sn_value (the (sl_get S s k))"

fun entries :: "'s node_slab \<Rightarrow> 's \<Rightarrow> addr_item list \<Rightarrow> nat list list \<Rightarrow> (bytes \<times> bool \<times> nat) list" where
  "entries S s (ai # ais) (ks # kss) = map (\<lambda>k. (ai_addr ai, ai_use_router ai, node_ckey S s k)) ks @ entries S s ais kss"
| "entries S s _ _ = []"

definition lists_ok :: "'s node_slab \<Rightarrow> 's \<Rightarrow> addr_item list \<Rightarrow> nat list list \<Rightarrow> bool" where
  "lists_ok S s ais kss \<longleftrightarrow> list_all2 (\<lambda>ai ks. represents (slab_link S s) (ai_keys ai) ks) ais kss
     \<and> distinct (concat kss) \<and> set (concat kss) = dom (sl_get S s)"

definition same_values :: "'s node_slab \<Rightarrow> nat set \<Rightarrow> 's \<Rightarrow> 's \<Rightarrow> bool" where
  "same_values S K s s' \<longleftrightarrow> (\<forall>k \<in> K. node_ckey S s' k = node_ckey S s k) \<and> sl_capacity S s' = sl_capacity S s"

lemma entries_cong: "same_values S (set (concat kss)) s s' \<Longrightarrow> entries S s' ais kss = entries S s ais kss"
  by (induction S s ais kss rule: entries.induct) (auto simp: same_values_def)

lemma entries_addrs: "list_all2 (\<lambda>ai ai'. ai_addr ai' = ai_addr ai \<and> ai_use_router ai' = ai_use_router ai) ais ais' \<Longrightarrow>
    entries S s ais' kss = entries S s ais kss"
  by (induction ais ais' arbitrary: kss rule: list_all2_induct) (case_tac kss; auto)+

lemma entries_append: "length ais = length kss \<Longrightarrow> entries S s (ais @ ais') (kss @ kss') = entries S s ais kss @ entries S s ais' kss'"
  by (induction ais kss rule: list_induct2) auto

lemma entries_skip: "length ais = length kss \<Longrightarrow> concat kss = [] \<Longrightarrow> entries S s ais kss = []"
  by (induction ais kss rule: list_induct2) auto

lemma entries_split:
  assumes "length ais = length kss" and "i < length kss"
  shows "entries S s ais kss = entries S s (take i ais) (take i kss)
    @ map (\<lambda>k. (ai_addr (ais ! i), ai_use_router (ais ! i), node_ckey S s k)) (kss ! i) @ entries S s (drop (Suc i) ais) (drop (Suc i) kss)"
proof -
  have "ais = take i ais @ ais ! i # drop (Suc i) ais" "kss = take i kss @ kss ! i # drop (Suc i) kss"
    using assms by (simp_all add: id_take_nth_drop)
  then show ?thesis using entries_append [of "take i ais" "take i kss" S s "ais ! i # drop (Suc i) ais" "kss ! i # drop (Suc i) kss"] assms by simp
qed

lemma concat_update:
  assumes "i < length kss"
  shows "concat (kss[i := ks]) = concat (take i kss) @ ks @ concat (drop (Suc i) kss)"
    "concat kss = concat (take i kss) @ kss ! i @ concat (drop (Suc i) kss)"
  using assms by (simp_all add: upd_conv_take_nth_drop) (metis concat.simps(2) concat_append id_take_nth_drop)

locale batch_nodes = slab_nodes S for S :: "('s, nat slab_node) slab_ops"
begin

text \<open>An operation on one list that keeps its nodes within \<open>U\<close> leaves the other lists as they are.\<close>

lemma other_lists:
  assumes "list_all2 (\<lambda>ai ks. represents (slab_link S s) (ai_keys ai) ks) ais kss" and "i < length kss"
    and "\<And>j. j < length kss \<Longrightarrow> j \<noteq> i \<Longrightarrow> \<forall>k \<in> set (kss ! j). \<forall>r. slab_link S s' r k = slab_link S s r k"
    and "represents (slab_link S s') l ks"
  shows "list_all2 (\<lambda>ai ks. represents (slab_link S s') (ai_keys ai) ks) (ais[i := (ais ! i)\<lparr>ai_keys := l\<rparr>]) (kss[i := ks])"
proof -
  have "represents (slab_link S s') (ai_keys (ais ! j)) (kss ! j)" if "j < length kss" "j \<noteq> i" for j
    using assms(1) that represents_cong [of "kss ! j" "slab_link S s'" "slab_link S s" "ai_keys (ais ! j)"] assms(3) [OF that] by (auto simp: list_all2_conv_all_nth)
  then show ?thesis using assms(1,2,4) by (auto simp: list_all2_conv_all_nth nth_list_update)
qed

lemma disjoint_lists: "distinct (concat kss) \<Longrightarrow> i < length kss \<Longrightarrow> j < length kss \<Longrightarrow> i \<noteq> j \<Longrightarrow> set (kss ! i) \<inter> set (kss ! j) = {}"
proof -
  assume d: "distinct (concat kss)" and ij: "i < length kss" "j < length kss" "i \<noteq> j"
  have *: "set (kss ! a) \<inter> set (kss ! b) = {}" if "a < b" "b < length kss" for a b
  proof -
    have "kss ! b = drop (Suc a) kss ! (b - Suc a)" "b - Suc a < length (drop (Suc a) kss)" using that by simp_all
    then have "kss ! b \<in> set (drop (Suc a) kss)" by (simp only: nth_mem)
    moreover have "distinct (concat (take a kss) @ kss ! a @ concat (drop (Suc a) kss))"
      using d concat_update(2) [of a kss] that by (simp only:)
    ultimately show ?thesis by auto
  qed
  show ?thesis using *[of i j] *[of j i] ij by (cases "i < j") auto
qed

end

context batch_nodes
begin

lemma frame_values:
  assumes "nodes.frame U s s1"
  shows "dom (sl_get S s1) = dom (sl_get S s) \<and> same_values S (dom (sl_get S s)) s s1"
proof -
  have h: "(sl_get S s1 k = None) = (sl_get S s k = None)" and v: "slab_value S s1 k = slab_value S s k" for k
    using assms unfolding nodes.frame_def by (metis slab_has_def, simp)
  have "node_ckey S s1 k = node_ckey S s k" if "k \<in> dom (sl_get S s)" for k
    using v [of k] h [of k] that by (auto simp: node_ckey_def slab_value_def)
  moreover have "dom (sl_get S s1) = dom (sl_get S s)" using h unfolding dom_def by simp
  ultimately show ?thesis using v [of 0] by (simp add: same_values_def slab_value_def)
qed

lemma same_values_trans: "same_values S K s s1 \<Longrightarrow> same_values S K' s1 s2 \<Longrightarrow> same_values S (K \<inter> K') s s2"
  by (auto simp: same_values_def)

lemma same_values_sub: "same_values S K s s1 \<Longrightarrow> K' \<subseteq> K \<Longrightarrow> same_values S K' s s1"
  by (auto simp: same_values_def)

text \<open>A node is taken out of its list and then out of the slab.\<close>

lemma detached:
  assumes ok: "lists_ok S s ais kss" and i: "i < length kss" "kss ! i = us @ x # vs"
    and fr: "nodes.frame (set (us @ x # vs)) s s1" and rep: "represents (slab_link S s1) l (us @ vs)"
  shows "\<exists>n. sl_get S s1 x = Some n \<and> sn_value n = node_ckey S s x
    \<and> lists_ok S (sl_remove S s1 x) (ais[i := (ais ! i)\<lparr>ai_keys := l\<rparr>]) (kss[i := us @ vs]) \<and> same_values S (dom (sl_get S s) - {x}) s (sl_remove S s1 x)"
proof -
  have d: "distinct (concat kss)" "set (concat kss) = dom (sl_get S s)" using ok by (simp_all add: lists_ok_def)
  note eq = concat_update(2) [OF i(1), unfolded i(2)]
  have x: "x \<in> dom (sl_get S s)" unfolding d(2) [symmetric] eq by simp
  note fv = frame_values [OF fr]
  obtain n where n: "sl_get S s1 x = Some n" using x fv by auto
  have val: "sn_value n = node_ckey S s x" using conjunct2 [OF fv] x n unfolding same_values_def node_ckey_def by (metis option.sel)
  have rem: "sl_get S (sl_remove S s1 x) = (sl_get S s1)(x := None)" using n by simp
  have lk: "slab_link S (sl_remove S s1 x) r k = slab_link S s1 r k" if "k \<noteq> x" for r k using that rem by (simp add: slab_link_def)
  have xs: "x \<notin> set (us @ vs)" using d(1) unfolding eq by auto
  have rep2: "represents (slab_link S (sl_remove S s1 x)) l (us @ vs)"
    using rep represents_cong [of "us @ vs" "slab_link S (sl_remove S s1 x)" "slab_link S s1" l] lk xs by metis
  have others: "\<forall>k \<in> set (kss ! j). \<forall>r. slab_link S (sl_remove S s1 x) r k = slab_link S s r k" if "j < length kss" "j \<noteq> i" for j
  proof -
    have "set (kss ! i) \<inter> set (kss ! j) = {}" using disjoint_lists [OF d(1) i(1) that(1)] that(2) by simp
    then show ?thesis using fr lk i(2) by (fastforce simp: nodes.frame_def)
  qed
  have all: "list_all2 (\<lambda>ai ks. represents (slab_link S (sl_remove S s1 x)) (ai_keys ai) ks) (ais[i := (ais ! i)\<lparr>ai_keys := l\<rparr>]) (kss[i := us @ vs])"
    by (rule other_lists [OF _ i(1) others rep2]) (use ok in \<open>simp_all add: lists_ok_def\<close>)
  have "distinct (concat (kss[i := us @ vs]))" "set (concat (kss[i := us @ vs])) = set (concat kss) - {x}"
    using d(1) unfolding concat_update(1) [OF i(1)] eq by auto
  then have "lists_ok S (sl_remove S s1 x) (ais[i := (ais ! i)\<lparr>ai_keys := l\<rparr>]) (kss[i := us @ vs])"
    using all d(2) fv rem by (auto simp: lists_ok_def)
  moreover have "same_values S (dom (sl_get S s) - {x}) s (sl_remove S s1 x)"
    using fv rem n by (auto simp: same_values_def node_ckey_def)
  ultimately show ?thesis using n val by blast
qed

lemma node_present: "lists_ok S s ais kss \<Longrightarrow> i < length kss \<Longrightarrow> k \<in> set (kss ! i) \<Longrightarrow> slab_has S s k"
  using concat_update(2) [of i kss] by (auto simp: lists_ok_def slab_has_def)

lemma pop_one:
  assumes ok: "lists_ok S s ais kss" and i: "i < length kss" "kss ! i = x # xs"
  shows "\<exists>l s1 n. ll_pop_front (slab_backend S) (ai_keys (ais ! i)) s = Some (Some x, l, s1) \<and> sl_get S s1 x = Some n \<and> sn_value n = node_ckey S s x
    \<and> lists_ok S (sl_remove S s1 x) (ais[i := (ais ! i)\<lparr>ai_keys := l\<rparr>]) (kss[i := xs]) \<and> same_values S (dom (sl_get S s) - {x}) s (sl_remove S s1 x)"
proof -
  have "represents (slab_link S s) (ai_keys (ais ! i)) (x # xs)" using ok i by (auto simp: lists_ok_def list_all2_conv_all_nth)
  moreover have "\<forall>k \<in> set (x # xs). slab_has S s k" using node_present [OF ok i(1)] i(2) by simp
  ultimately obtain l s1 where p: "ll_pop_front (slab_backend S) (ai_keys (ais ! i)) s = Some (Some x, l, s1)" "represents (slab_link S s1) l xs"
      "nodes.frame (set (x # xs)) s s1"
    using nodes.pop_front_ok by blast
  then show ?thesis using detached [OF ok i(1), of "[]" x xs s1 l] i(2) by auto
qed

end

text \<open>What \<open>include\<close> makes of connections.\<close>

definition flagged :: "(nat \<Rightarrow> (bytes \<times> u32) option) \<Rightarrow> nat list \<Rightarrow> (nat \<times> bool) list" where
  "flagged incl cs = map (\<lambda>c. (c, incl c \<noteq> None)) cs"

definition included_ids :: "(nat \<Rightarrow> (bytes \<times> u32) option) \<Rightarrow> nat list \<Rightarrow> pkt_id list" where
  "included_ids incl cs = map (\<lambda>(i, q). \<lparr>id_id = i, id_seq = Some q\<rparr>) (List.map_filter incl cs)"

lemma included_ids_simps [simp]:
  "included_ids incl [] = []"
  "included_ids incl (c # cs) = (case incl c of None \<Rightarrow> [] | Some (i, q) \<Rightarrow> [\<lparr>id_id = i, id_seq = Some q\<rparr>]) @ included_ids incl cs"
  by (simp_all add: included_ids_def List.map_filter_def split: option.split)

lemma included_none: "c \<in> set cs \<Longrightarrow> included_ids incl cs = [] \<Longrightarrow> incl c = None"
  by (cases "incl c") (fastforce simp: included_ids_def List.map_filter_def filter_empty_conv)+

lemma flagged_simps [simp]:
  "flagged incl [] = []" "flagged incl (c # cs) = (c, incl c \<noteq> None) # flagged incl cs" "flagged incl (cs @ ds) = flagged incl cs @ flagged incl ds"
  by (simp_all add: flagged_def)

lemma included_ids_append [simp]: "included_ids incl (cs @ ds) = included_ids incl cs @ included_ids incl ds"
  by (induction cs) auto

context batch_nodes
begin

lemma take_ids_ok:
  assumes "lists_ok S s ais kss" and "i < length kss" and "length ids \<le> IDS_MAX"
  shows "\<exists>j l s'. j \<le> length (kss ! i) \<and> (length ids < IDS_MAX \<longrightarrow> kss ! i \<noteq> [] \<longrightarrow> 0 < j)
    \<and> take_ids S incl (ai_keys (ais ! i)) s ids removed =
        Some (l, s', ids @ included_ids incl (map (node_ckey S s) (take j (kss ! i))), removed @ flagged incl (map (node_ckey S s) (take j (kss ! i))))
    \<and> length (ids @ included_ids incl (map (node_ckey S s) (take j (kss ! i)))) \<le> IDS_MAX
    \<and> (j < length (kss ! i) \<longrightarrow> length (ids @ included_ids incl (map (node_ckey S s) (take j (kss ! i)))) = IDS_MAX)
    \<and> lists_ok S s' (ais[i := (ais ! i)\<lparr>ai_keys := l\<rparr>]) (kss[i := drop j (kss ! i)]) \<and> same_values S (dom (sl_get S s')) s s'"
  using assms
proof (induction "kss ! i" arbitrary: s ais kss ids removed)
  case Nil
  have rep: "represents (slab_link S s) (ai_keys (ais ! i)) []" and len: "length ais = length kss"
    using Nil by (auto simp: lists_ok_def list_all2_conv_all_nth)
  have upd: "ais[i := (ais ! i)\<lparr>ai_keys := ai_keys (ais ! i)\<rparr>] = ais" "kss[i := []] = kss"
    using Nil.hyps by (simp_all add: list_update_id) (metis list_update_id)
  show ?case using Nil rep upd nodes.pop_front_empty [OF rep] by (subst take_ids.simps) (auto simp: same_values_def)
next
  case (Cons x xs)
  let ?c = "node_ckey S s x"
  show ?case
  proof (cases "length ids < IDS_MAX")
    case False
    then have full: "length ids = IDS_MAX" using Cons.prems(3) by simp
    have upd: "ais[i := (ais ! i)\<lparr>ai_keys := ai_keys (ais ! i)\<rparr>] = ais" by simp
    show ?thesis using full Cons.prems upd
      by (subst take_ids.simps, intro exI [of _ 0] exI [of _ "ai_keys (ais ! i)"] exI [of _ s]) (simp add: same_values_def)
  next
    case True
    obtain l s1 n where p: "ll_pop_front (slab_backend S) (ai_keys (ais ! i)) s = Some (Some x, l, s1)" "sl_get S s1 x = Some n" "sn_value n = ?c"
        "lists_ok S (sl_remove S s1 x) (ais[i := (ais ! i)\<lparr>ai_keys := l\<rparr>]) (kss[i := xs])" "same_values S (dom (sl_get S s) - {x}) s (sl_remove S s1 x)"
      using pop_one [OF Cons.prems(1,2), of x xs] Cons.hyps(2) by auto
    let ?s = "sl_remove S s1 x" and ?ais = "ais[i := (ais ! i)\<lparr>ai_keys := l\<rparr>]" and ?kss = "kss[i := xs]"
    let ?ids = "ids @ included_ids incl [?c]" and ?removed = "removed @ flagged incl [?c]"
    have len: "length ais = length kss" using Cons.prems(1) by (auto simp: lists_ok_def list_all2_conv_all_nth)
    have i: "i < length ?kss" "?kss ! i = xs" "?ais ! i = (ais ! i)\<lparr>ai_keys := l\<rparr>" using Cons.prems(2) len by simp_all
    have keys: "ai_keys (?ais ! i) = l" unfolding i(3) by simp
    have il: "length ?ids \<le> IDS_MAX" using True by (auto split: option.split)
    obtain j l2 s2 where r: "j \<le> length xs" "take_ids S incl l ?s ?ids ?removed =
          Some (l2, s2, ?ids @ included_ids incl (map (node_ckey S ?s) (take j xs)), ?removed @ flagged incl (map (node_ckey S ?s) (take j xs)))"
        "length (?ids @ included_ids incl (map (node_ckey S ?s) (take j xs))) \<le> IDS_MAX"
        "j < length xs \<longrightarrow> length (?ids @ included_ids incl (map (node_ckey S ?s) (take j xs))) = IDS_MAX"
        "lists_ok S s2 (?ais[i := (?ais ! i)\<lparr>ai_keys := l2\<rparr>]) (?kss[i := drop j xs])" "same_values S (dom (sl_get S s2)) ?s s2"
      using Cons.hyps(1) [OF i(2) [symmetric] p(4) i(1) il, of ?removed, unfolded i(2) keys] by blast
    have eq: "concat kss = concat (take i kss) @ (x # xs) @ concat (drop (Suc i) kss)" using concat_update(2) [OF Cons.prems(2)] Cons.hyps(2) by simp
    have d: "distinct (concat kss)" "set (concat kss) = dom (sl_get S s)" using Cons.prems(1) by (simp_all add: lists_ok_def)
    have "set (concat (kss[i := drop j xs])) = dom (sl_get S s2)" using r(5) by (simp add: lists_ok_def)
    then have dom2: "dom (sl_get S s2) \<subseteq> dom (sl_get S s) - {x}"
      using d set_drop_subset [of j xs] unfolding concat_update(1) [OF Cons.prems(2)] d(2) [symmetric] eq by auto
    have "set (take j xs) \<subseteq> dom (sl_get S s) - {x}" using d set_take_subset [of j xs] unfolding d(2) [symmetric] eq by auto
    then have vals: "map (node_ckey S ?s) (take j xs) = map (node_ckey S s) (take j xs)" using p(5) by (auto simp: same_values_def)
    have step: "take_ids S incl (ai_keys (ais ! i)) s ids removed = take_ids S incl l ?s ?ids ?removed"
      using True p by (subst take_ids.simps) (auto simp: slab_index_def slab_take_def Let_def split: option.split)
    have "kss ! i = x # xs" using Cons.hyps(2) by simp
    then show ?thesis
      using step r vals p(5) len Cons.prems(2) same_values_trans [OF p(5) r(6)] dom2
      by (intro exI [of _ "Suc j"] exI [of _ l2] exI [of _ s2]) (simp add: i(3) Int_absorb1)
  qed
qed

end

definition batch_rel :: "'s node_slab \<Rightarrow> 's batch \<Rightarrow> nat list list \<Rightarrow> bool" where
  "batch_rel S b kss \<longleftrightarrow> lists_ok S (ba_nodes b) (ba_addrs b) kss \<and> ba_addr_index b \<le> length (ba_addrs b) \<and> concat (take (ba_addr_index b) kss) = []"

abbreviation batch_entries :: "'s node_slab \<Rightarrow> 's batch \<Rightarrow> nat list list \<Rightarrow> (bytes \<times> bool \<times> nat) list" where
  "batch_entries S b kss \<equiv> entries S (ba_nodes b) (ba_addrs b) kss"

abbreviation ckeys :: "(bytes \<times> bool \<times> nat) list \<Rightarrow> nat list" where
  "ckeys es \<equiv> map (\<lambda>(_, _, c). c) es"

lemma next_addr_spec:
  assumes "list_all2 (\<lambda>ai ks. ll_is_empty (ai_keys ai) \<longleftrightarrow> ks = []) ais kss" and "i \<le> length ais"
  shows "i \<le> next_addr (drop i ais) i \<and> next_addr (drop i ais) i \<le> length ais \<and> concat (take (next_addr (drop i ais) i - i) (drop i kss)) = []
    \<and> (next_addr (drop i ais) i < length ais \<longrightarrow> kss ! next_addr (drop i ais) i \<noteq> [])"
  using assms
proof (induction "length ais - i" arbitrary: i)
  case 0
  then show ?case by simp
next
  case (Suc n)
  then have i: "i < length ais" "i < length kss" by (auto dest: list_all2_lengthD)
  have d: "drop i ais = ais ! i # drop (Suc i) ais" "drop i kss = kss ! i # drop (Suc i) kss" using i by (simp_all add: Cons_nth_drop_Suc)
  have e: "ll_is_empty (ai_keys (ais ! i)) \<longleftrightarrow> kss ! i = []" using Suc.prems(1) i by (simp add: list_all2_conv_all_nth)
  show ?case
  proof (cases "kss ! i = []")
    case False
    then show ?thesis using e i by (simp add: d)
  next
    case True
    have *: "next_addr (drop i ais) i = next_addr (drop (Suc i) ais) (Suc i)" using True e by (simp add: d)
    have IH: "Suc i \<le> next_addr (drop i ais) i" "next_addr (drop i ais) i \<le> length ais" "concat (take (next_addr (drop i ais) i - Suc i) (drop (Suc i) kss)) = []"
        "next_addr (drop i ais) i < length ais \<Longrightarrow> kss ! next_addr (drop i ais) i \<noteq> []"
      using Suc.hyps(1) [of "Suc i"] Suc.hyps(2) Suc.prems(1) i unfolding * by auto
    then have "next_addr (drop i ais) i - i = Suc (next_addr (drop i ais) i - Suc i)" by simp
    then show ?thesis using IH True by (simp add: d(2) del: drop_Suc)
  qed
qed

lemma concat_take_more: "i \<le> j \<Longrightarrow> concat (take i xss) = [] \<Longrightarrow> concat (take (j - i) (drop i xss)) = [] \<Longrightarrow> concat (take j xss) = []"
proof -
  assume "i \<le> j" "concat (take i xss) = []" "concat (take (j - i) (drop i xss)) = []"
  moreover have "take j xss = take i xss @ take (j - i) (drop i xss)" using \<open>i \<le> j\<close> by (metis le_add_diff_inverse take_add)
  ultimately show ?thesis by simp
qed

context batch_nodes
begin

lemma keys_empty: "lists_ok S s ais kss \<Longrightarrow> list_all2 (\<lambda>ai ks. ll_is_empty (ai_keys ai) \<longleftrightarrow> ks = []) ais kss"
  by (auto simp: lists_ok_def list_all2_conv_all_nth nodes.is_empty_ok)

text \<open>Taking \<open>j\<close> connections from the first address that has any takes them from the front of the entries.\<close>

lemma entries_taken:
  assumes ok: "lists_ok S s ais kss" and i: "i < length kss" and pre: "concat (take i kss) = []"
    and ok': "lists_ok S s' (ais[i := (ais ! i)\<lparr>ai_keys := l\<rparr>]) (kss[i := drop j (kss ! i)])" and same: "same_values S (dom (sl_get S s')) s s'" and j: "j \<le> length (kss ! i)"
  shows "take j (entries S s ais kss) = map (\<lambda>k. (ai_addr (ais ! i), ai_use_router (ais ! i), node_ckey S s k)) (take j (kss ! i))
    \<and> entries S s' (ais[i := (ais ! i)\<lparr>ai_keys := l\<rparr>]) (kss[i := drop j (kss ! i)]) = drop j (entries S s ais kss)"
proof -
  let ?f = "\<lambda>k. (ai_addr (ais ! i), ai_use_router (ais ! i), node_ckey S s k)"
  let ?ais = "ais[i := (ais ! i)\<lparr>ai_keys := l\<rparr>]" and ?kss = "kss[i := drop j (kss ! i)]"
  have len: "length ais = length kss" using ok by (auto simp: lists_ok_def list_all2_conv_all_nth)
  have skip: "entries S s (take i ais) (take i kss) = []" by (rule entries_skip) (use len pre in auto)
  have e: "entries S s ais kss = map ?f (kss ! i) @ entries S s (drop (Suc i) ais) (drop (Suc i) kss)"
    using entries_split [OF len i, of S s] skip by simp
  have "entries S s' ?ais ?kss = entries S s ?ais ?kss" using entries_cong [of S ?kss s s'] ok' same by (simp add: lists_ok_def)
  also have "... = entries S s ais ?kss"
    by (rule entries_addrs) (use len i in \<open>auto simp: list_all2_conv_all_nth nth_list_update\<close>)
  also have "... = map ?f (drop j (kss ! i)) @ entries S s (drop (Suc i) ais) (drop (Suc i) kss)"
    using entries_split [of ais ?kss i S s] len i skip by simp
  finally show ?thesis using e j by (simp add: take_map drop_map)
qed

lemma take_loop_ok:
  assumes "batch_rel S b kss"
  shows "\<exists>k b' kss'. take_loop S incl b [] = Some (included_ids incl (ckeys (take k (batch_entries S b kss))), b') \<and> batch_rel S b' kss'
    \<and> ba_removed b' = ba_removed b @ flagged incl (ckeys (take k (batch_entries S b kss))) \<and> batch_entries S b' kss' = drop k (batch_entries S b kss)
    \<and> k \<le> length (batch_entries S b kss) \<and> (batch_entries S b kss \<noteq> [] \<longrightarrow> 0 < k)
    \<and> length (included_ids incl (ckeys (take k (batch_entries S b kss)))) \<le> IDS_MAX
    \<and> (if included_ids incl (ckeys (take k (batch_entries S b kss))) = [] then k = length (batch_entries S b kss)
       else ba_addr_index b' < length (ba_addrs b')
         \<and> (\<forall>(a, r, c) \<in> set (take k (batch_entries S b kss)). incl c \<noteq> None \<longrightarrow>
              a = ai_addr (ba_addrs b' ! ba_addr_index b') \<and> r = ai_use_router (ba_addrs b' ! ba_addr_index b')))
    \<and> ba_addrs_cap b' = ba_addrs_cap b \<and> sl_capacity S (ba_nodes b') = sl_capacity S (ba_nodes b)"
  using assms
proof (induction "length (concat kss)" arbitrary: b kss rule: less_induct)
  case less
  let ?E = "batch_entries S b kss"
  let ?i = "next_addr (drop (ba_addr_index b) (ba_addrs b)) (ba_addr_index b)"
  have ok: "lists_ok S (ba_nodes b) (ba_addrs b) kss" and idx: "ba_addr_index b \<le> length (ba_addrs b)" "concat (take (ba_addr_index b) kss) = []"
    using less.prems by (simp_all add: batch_rel_def)
  have len: "length (ba_addrs b) = length kss" using ok by (auto simp: lists_ok_def list_all2_conv_all_nth)
  note na = next_addr_spec [OF keys_empty [OF ok] idx(1)]
  have pre: "concat (take ?i kss) = []" using concat_take_more idx(2) na by blast
  show ?case
  proof (cases "?i = length (ba_addrs b)")
    case True
    then have none: "concat kss = []" using pre len by simp
    have E: "?E = []" by (rule entries_skip [OF len none])
    have "sl_len S (ba_nodes b) = 0" using ok none len_zero_iff [of "ba_nodes b"] by (auto simp: lists_ok_def)
    then show ?thesis using True less.prems pre idx E len
      by (subst take_loop.simps, intro exI [of _ 0] exI [of _ "b\<lparr>ba_addr_index := ?i\<rparr>"] exI [of _ kss]) (simp add: batch_rel_def)
  next
    case False
    then have i: "?i < length kss" "kss ! ?i \<noteq> []" using na len by auto
    let ?ai = "ba_addrs b ! ?i"
    obtain j l s' where t: "j \<le> length (kss ! ?i)" "0 < j"
        "take_ids S incl (ai_keys ?ai) (ba_nodes b) [] (ba_removed b) =
          Some (l, s', included_ids incl (map (node_ckey S (ba_nodes b)) (take j (kss ! ?i))), ba_removed b @ flagged incl (map (node_ckey S (ba_nodes b)) (take j (kss ! ?i))))"
        "length (included_ids incl (map (node_ckey S (ba_nodes b)) (take j (kss ! ?i)))) \<le> IDS_MAX"
        "j < length (kss ! ?i) \<longrightarrow> length (included_ids incl (map (node_ckey S (ba_nodes b)) (take j (kss ! ?i)))) = IDS_MAX"
        "lists_ok S s' ((ba_addrs b)[?i := ?ai\<lparr>ai_keys := l\<rparr>]) (kss[?i := drop j (kss ! ?i)])" "same_values S (dom (sl_get S s')) (ba_nodes b) s'"
      using take_ids_ok [OF ok i(1), of "[]" incl "ba_removed b"] i(2) by (auto simp: IDS_MAX_def)
    let ?cs = "map (node_ckey S (ba_nodes b)) (take j (kss ! ?i))" and ?kss = "kss[?i := drop j (kss ! ?i)]"
    let ?b = "b\<lparr>ba_addr_index := ?i, ba_nodes := s', ba_addrs := (ba_addrs b)[?i := ?ai\<lparr>ai_keys := l\<rparr>], ba_removed := ba_removed b @ flagged incl ?cs\<rparr>"
    note tk = entries_taken [OF ok i(1) pre t(6,7,1)]
    have cs: "ckeys (take j ?E) = ?cs" using tk by simp
    have E1: "batch_entries S ?b ?kss = drop j ?E" using tk by simp
    have rel: "batch_rel S ?b ?kss" using t(6) na pre len by (simp add: batch_rel_def)
    have jE: "j \<le> length ?E" using arg_cong [OF conjunct1 [OF tk], of length] t(1) by simp
    have cap: "sl_capacity S s' = sl_capacity S (ba_nodes b)" using t(7) by (simp add: same_values_def)
    have unfold: "take_loop S incl b [] = take_loop S incl ?b (included_ids incl ?cs)"
      using False t(3) i(1) len by (subst take_loop.simps) (simp add: index_at_def Let_def)
    show ?thesis
    proof (cases "included_ids incl ?cs = []")
      case False
      have "take_loop S incl ?b (included_ids incl ?cs) = Some (included_ids incl ?cs, ?b)" using False by (subst take_loop.simps) simp
      moreover have "\<forall>(a, r, c) \<in> set (take j ?E). a = ai_addr (ba_addrs ?b ! ba_addr_index ?b) \<and> r = ai_use_router (ba_addrs ?b ! ba_addr_index ?b)"
        using tk i(1) len by auto
      ultimately show ?thesis using unfold cs E1 rel jE cap False t(2,4) i(1) len
        by (intro exI [of _ j] exI [of _ ?b] exI [of _ ?kss]) (auto split: prod.splits)
    next
      case True
      then have all: "j = length (kss ! ?i)" using t(1,5) by (auto simp: IDS_MAX_def)
      have "length (concat ?kss) < length (concat kss)"
        using i all unfolding concat_update(1) [OF i(1)] by (subst concat_update(2) [OF i(1)]) simp
      from less.hyps [OF this rel] obtain k b' kss' where r: "take_loop S incl ?b [] = Some (included_ids incl (ckeys (take k (drop j ?E))), b')" "batch_rel S b' kss'"
          "ba_removed b' = ba_removed ?b @ flagged incl (ckeys (take k (drop j ?E)))" "batch_entries S b' kss' = drop k (drop j ?E)"
          "k \<le> length (drop j ?E)" "length (included_ids incl (ckeys (take k (drop j ?E)))) \<le> IDS_MAX"
          "if included_ids incl (ckeys (take k (drop j ?E))) = [] then k = length (drop j ?E)
           else ba_addr_index b' < length (ba_addrs b') \<and> (\<forall>(a, r, c) \<in> set (take k (drop j ?E)). incl c \<noteq> None \<longrightarrow>
              a = ai_addr (ba_addrs b' ! ba_addr_index b') \<and> r = ai_use_router (ba_addrs b' ! ba_addr_index b'))"
          "ba_addrs_cap b' = ba_addrs_cap ?b" "sl_capacity S (ba_nodes b') = sl_capacity S (ba_nodes ?b)"
        unfolding E1 by blast
      have split: "take (j + k) ?E = take j ?E @ take k (drop j ?E)" by (rule take_add)
      have none: "incl c = None" if "(a, r, c) \<in> set (take j ?E)" for a r c
      proof -
        have "c \<in> set ?cs" using imageI [OF that, of "\<lambda>(_, _, c). c"] unfolding cs [symmetric] by simp
        then show ?thesis using True by (rule included_none)
      qed
      have ids: "included_ids incl (ckeys (take (j + k) ?E)) = included_ids incl (ckeys (take k (drop j ?E)))"
        using True cs unfolding split by simp
      have rem: "ba_removed b' = ba_removed b @ flagged incl (ckeys (take (j + k) ?E))"
        using r(3) cs unfolding split by simp
      have fin: "(if included_ids incl (ckeys (take (j + k) ?E)) = [] then j + k = length ?E
           else ba_addr_index b' < length (ba_addrs b') \<and> (\<forall>(a, r, c) \<in> set (take (j + k) ?E). incl c \<noteq> None \<longrightarrow>
              a = ai_addr (ba_addrs b' ! ba_addr_index b') \<and> r = ai_use_router (ba_addrs b' ! ba_addr_index b')))"
        using r(7) none jE unfolding ids unfolding split by (auto split: if_splits)
      have run: "take_loop S incl b [] = Some (included_ids incl (ckeys (take (j + k) ?E)), b')" using unfold True r(1) ids by simp
      have rest: "batch_entries S b' kss' = drop (j + k) ?E" "j + k \<le> length ?E" "?E \<noteq> [] \<longrightarrow> 0 < j + k" "length (included_ids incl (ckeys (take (j + k) ?E))) \<le> IDS_MAX"
          "ba_addrs_cap b' = ba_addrs_cap b" "sl_capacity S (ba_nodes b') = sl_capacity S (ba_nodes b)"
        using r(4,5,6,8,9) jE t(2) ids cap by (simp_all add: add.commute)
      show ?thesis by (intro exI [of _ "j + k"] exI [of _ b'] exI [of _ kss'] conjI) (fact run r(2) rem rest fin)+
    qed
  qed
qed

lemma take_group_ok:
  assumes "batch_rel S b kss"
  shows "\<exists>k g b' kss'. take_group S incl b = Some (g, b') \<and> batch_rel S b' kss' \<and> batch_entries S b' kss' = drop k (batch_entries S b kss)
    \<and> ba_addrs_cap b' = ba_addrs_cap b \<and> sl_capacity S (ba_nodes b') = sl_capacity S (ba_nodes b)
    \<and> (case g of None \<Rightarrow> batch_entries S b kss = []
       | Some g \<Rightarrow> 0 < k \<and> k \<le> length (batch_entries S b kss) \<and> bg_removed g = flagged incl (ckeys (take k (batch_entries S b kss)))
           \<and> bg_ids g = included_ids incl (ckeys (take k (batch_entries S b kss))) \<and> length (bg_ids g) \<le> IDS_MAX
           \<and> (bg_ids g = [] \<longrightarrow> k = length (batch_entries S b kss))
           \<and> (\<forall>(a, r, c) \<in> set (take k (batch_entries S b kss)). incl c \<noteq> None \<longrightarrow> a = bg_addr g \<and> r = bg_use_router g))"
proof -
  let ?E = "batch_entries S b kss"
  have rel: "batch_rel S (b\<lparr>ba_removed := []\<rparr>) kss" using assms by (simp add: batch_rel_def)
  have q: "ba_nodes (b\<lparr>ba_removed := []\<rparr>) = ba_nodes b" "ba_addrs (b\<lparr>ba_removed := []\<rparr>) = ba_addrs b" "ba_removed (b\<lparr>ba_removed := []\<rparr>) = []"
    "ba_addrs_cap (b\<lparr>ba_removed := []\<rparr>) = ba_addrs_cap b" by simp_all
  obtain k b' kss' where t: "take_loop S incl (b\<lparr>ba_removed := []\<rparr>) [] = Some (included_ids incl (ckeys (take k ?E)), b')" "batch_rel S b' kss'"
      "ba_removed b' = flagged incl (ckeys (take k ?E))" "batch_entries S b' kss' = drop k ?E" "k \<le> length ?E" "?E \<noteq> [] \<longrightarrow> 0 < k"
      "length (included_ids incl (ckeys (take k ?E))) \<le> IDS_MAX"
      "if included_ids incl (ckeys (take k ?E)) = [] then k = length ?E
       else ba_addr_index b' < length (ba_addrs b') \<and> (\<forall>(a, r, c) \<in> set (take k ?E). incl c \<noteq> None \<longrightarrow>
              a = ai_addr (ba_addrs b' ! ba_addr_index b') \<and> r = ai_use_router (ba_addrs b' ! ba_addr_index b'))"
      "ba_addrs_cap b' = ba_addrs_cap b" "sl_capacity S (ba_nodes b') = sl_capacity S (ba_nodes b)"
    using take_loop_ok [OF rel, of incl, unfolded q append_Nil] by blast
  show ?thesis
  proof (cases "?E = []")
    case True
    then show ?thesis using t by (intro exI [of _ 0] exI [of _ None] exI [of _ b'] exI [of _ kss']) (simp add: take_group_def flagged_def)
  next
    case False
    then have ne: "flagged incl (ckeys (take k ?E)) \<noteq> []" using t(6) by (simp add: flagged_def)
    show ?thesis
    proof (cases "included_ids incl (ckeys (take k ?E)) = []")
      case True
      let ?g = "\<lparr>bg_addr = [], bg_use_router = False, bg_removed = ba_removed b', bg_ids = []\<rparr>"
      have "incl c = None" if "(a, r, c) \<in> set (take k ?E)" for a r c
        using included_none [OF _ True] imageI [OF that, of "\<lambda>(_, _, c). c"] by simp
      then have none: "\<forall>(a, r, c) \<in> set (take k ?E). incl c \<noteq> None \<longrightarrow> a = bg_addr ?g \<and> r = bg_use_router ?g" by auto
      have tg: "take_group S incl b = Some (Some ?g, b')" using t(1,3) ne True by (simp add: take_group_def)
      have g: "0 < k" "bg_removed ?g = flagged incl (ckeys (take k ?E))" "bg_ids ?g = included_ids incl (ckeys (take k ?E))" "length (bg_ids ?g) \<le> IDS_MAX"
          "bg_ids ?g = [] \<longrightarrow> k = length ?E"
        using False True t(3,6,7) t(8) [unfolded if_P [OF True]] by simp_all
      show ?thesis
        by (intro exI [of _ k] exI [of _ "Some ?g"] exI [of _ b'] exI [of _ kss'], unfold option.case, intro conjI) (fact tg t(2,4,5,9,10) g none)+
    next
      case ids: False
      let ?ai = "ba_addrs b' ! ba_addr_index b'"
      let ?g = "\<lparr>bg_addr = ai_addr ?ai, bg_use_router = ai_use_router ?ai, bg_removed = ba_removed b', bg_ids = included_ids incl (ckeys (take k ?E))\<rparr>"
      have tg: "take_group S incl b = Some (Some ?g, b')" using t(1,3,8) ne ids by (simp add: take_group_def index_at_def)
      have g: "0 < k" "bg_removed ?g = flagged incl (ckeys (take k ?E))" "bg_ids ?g = included_ids incl (ckeys (take k ?E))" "length (bg_ids ?g) \<le> IDS_MAX"
          "bg_ids ?g = [] \<longrightarrow> k = length ?E" "\<forall>(a, r, c) \<in> set (take k ?E). incl c \<noteq> None \<longrightarrow> a = bg_addr ?g \<and> r = bg_use_router ?g"
        using False ids t(3,6,7) t(8) [unfolded if_not_P [OF ids]] by simp_all
      show ?thesis
        by (intro exI [of _ k] exI [of _ "Some ?g"] exI [of _ b'] exI [of _ kss'], unfold option.case, intro conjI) (fact tg t(2,4,5,9,10) g)+
    qed
  qed
qed

lemma push_ok:
  assumes rel: "batch_rel S b kss" and pos: "pos < length kss" "ba_addr_index b \<le> pos" and room: "sl_len S (ba_nodes b) < sl_capacity S (ba_nodes b)"
  shows "\<exists>key b' kss'. batch_push S b pos ckey = Some (key, b') \<and> batch_rel S b' kss' \<and> bk_addr_index key = pos \<and> pos < length kss' \<and> bk_nkey key \<in> set (kss' ! pos)
    \<and> mset (batch_entries S b' kss') = add_mset (ai_addr (ba_addrs b ! pos), ai_use_router (ba_addrs b ! pos), ckey) (mset (batch_entries S b kss))
    \<and> ba_addrs_cap b' = ba_addrs_cap b \<and> sl_capacity S (ba_nodes b') = sl_capacity S (ba_nodes b)"
proof -
  let ?s = "ba_nodes b" and ?ais = "ba_addrs b"
  have ok: "lists_ok S ?s ?ais kss" using rel by (simp add: batch_rel_def)
  have len: "length ?ais = length kss" using ok by (auto simp: lists_ok_def list_all2_conv_all_nth)
  have d: "distinct (concat kss)" "set (concat kss) = dom (sl_get S ?s)" using ok by (simp_all add: lists_ok_def)
  obtain nkey s1 where ins: "sl_insert S ?s (slab_node_new ckey) = (nkey, s1)" by (cases "sl_insert S ?s (slab_node_new ckey)")
  note new = insert_vacant [OF ins] get_insert [OF ins] capacity_insert [OF ins room]
  have lk: "slab_link S s1 r k = slab_link S ?s r k" if "k \<noteq> nkey" for r k using that new by (simp add: slab_link_def)
  have fresh: "nkey \<notin> set (concat kss)" using d(2) new(1) by auto
  have old: "nkey \<notin> set (kss ! j)" if "j < length kss" for j using fresh that by auto
  have "slab_link S s1 r k = slab_link S ?s r k" if "k \<in> set (kss ! pos)" for r k using lk old [OF pos(1)] that by metis
  from represents_cong [of "kss ! pos" "slab_link S s1" "slab_link S ?s", OF this]
  have rep: "represents (slab_link S s1) (ai_keys (?ais ! pos)) (kss ! pos)"
    using ok pos(1) by (simp add: lists_ok_def list_all2_conv_all_nth)
  have has: "\<forall>k \<in> set (kss ! pos). slab_has S s1 k" "slab_has S s1 nkey" "slab_link S s1 Prev nkey = None"
    using node_present [OF ok pos(1)] new(2) by (auto simp: slab_has_def slab_link_def slab_node_new_def)
  obtain l s2 where p: "ll_push_back (slab_backend S) (ai_keys (?ais ! pos)) s1 nkey = Some (l, s2)" "represents (slab_link S s2) l (kss ! pos @ [nkey])"
      "nodes.frame (insert nkey (set (kss ! pos))) s1 s2"
    using nodes.push_back_ok [OF rep has(1,2) old [OF pos(1)]] has(3) by auto
  let ?kss = "kss[pos := kss ! pos @ [nkey]]" and ?ais2 = "?ais[pos := (?ais ! pos)\<lparr>ai_keys := l\<rparr>]"
  let ?b = "b\<lparr>ba_nodes := s2, ba_addrs := ?ais2\<rparr>"
  note fv = frame_values [OF p(3)]
  have others: "\<forall>k \<in> set (kss ! j). \<forall>r. slab_link S s2 r k = slab_link S ?s r k" if "j < length kss" "j \<noteq> pos" for j
    using p(3) lk old [OF that(1)] disjoint_lists [OF d(1) pos(1) that(1)] that(2) by (fastforce simp: nodes.frame_def)
  have all: "list_all2 (\<lambda>ai ks. represents (slab_link S s2) (ai_keys ai) ks) ?ais2 ?kss"
    by (rule other_lists [OF _ pos(1) others p(2)]) (use ok in \<open>simp_all add: lists_ok_def\<close>)
  have cc: "concat ?kss = concat (take pos kss) @ (kss ! pos @ [nkey]) @ concat (drop (Suc pos) kss)" by (rule concat_update(1) [OF pos(1)])
  have "distinct (concat ?kss)" "set (concat ?kss) = insert nkey (set (concat kss))"
    using d(1) fresh unfolding cc concat_update(2) [OF pos(1)] by auto
  then have ok2: "lists_ok S s2 ?ais2 ?kss" using all fv d(2) new(2) by (auto simp: lists_ok_def)
  have ck: "node_ckey S s2 nkey = ckey" using fv new(2) by (auto simp: same_values_def node_ckey_def slab_node_new_def)
  have same: "same_values S (set (concat kss)) ?s s2" using fv new d(2) by (auto simp: same_values_def node_ckey_def)
  have "entries S s2 ?ais2 ?kss = entries S s2 ?ais ?kss"
    by (rule entries_addrs) (use len pos in \<open>auto simp: list_all2_conv_all_nth nth_list_update\<close>)
  also have "mset ... = add_mset (ai_addr (?ais ! pos), ai_use_router (?ais ! pos), ckey) (mset (entries S s2 ?ais kss))"
    using entries_split [of ?ais ?kss pos S s2] entries_split [of ?ais kss pos S s2] len pos(1) ck by simp
  finally have "mset (entries S s2 ?ais2 ?kss) = add_mset (ai_addr (?ais ! pos), ai_use_router (?ais ! pos), ckey) (mset (entries S ?s ?ais kss))"
    using entries_cong [OF same, of ?ais] by simp
  moreover have "batch_push S b pos ckey = Some (\<lparr>bk_addr_index = pos, bk_nkey = nkey\<rparr>, ?b)"
    using ins p(1) pos(1) len by (simp add: batch_push_def index_at_def)
  moreover have "batch_rel S ?b ?kss" using rel ok2 pos by (simp add: batch_rel_def)
  moreover have "sl_capacity S s2 = sl_capacity S ?s" using fv new(3) by (simp add: same_values_def)
  ultimately show ?thesis using pos(1) by (intro exI [of _ "\<lparr>bk_addr_index = pos, bk_nkey = nkey\<rparr>"] exI [of _ ?b] exI [of _ ?kss]) simp
qed

lemma removed_ok:
  assumes rel: "batch_rel S b kss" and key: "bk_addr_index key < length kss" "bk_nkey key \<in> set (kss ! bk_addr_index key)"
  shows "\<exists>b' kss'. batch_remove S b key = Some b' \<and> batch_rel S b' kss' \<and> mset (batch_entries S b kss) =
      add_mset (ai_addr (ba_addrs b ! bk_addr_index key), ai_use_router (ba_addrs b ! bk_addr_index key), node_ckey S (ba_nodes b) (bk_nkey key)) (mset (batch_entries S b' kss'))
    \<and> ba_addrs_cap b' = ba_addrs_cap b \<and> sl_capacity S (ba_nodes b') = sl_capacity S (ba_nodes b)"
proof -
  let ?s = "ba_nodes b" and ?ais = "ba_addrs b" and ?i = "bk_addr_index key" and ?x = "bk_nkey key"
  have ok: "lists_ok S ?s ?ais kss" using rel by (simp add: batch_rel_def)
  have len: "length ?ais = length kss" using ok by (auto simp: lists_ok_def list_all2_conv_all_nth)
  have d: "distinct (concat kss)" "set (concat kss) = dom (sl_get S ?s)" using ok by (simp_all add: lists_ok_def)
  obtain us vs where uv: "kss ! ?i = us @ ?x # vs" using key(2) by (auto simp: in_set_conv_decomp)
  have "represents (slab_link S ?s) (ai_keys (?ais ! ?i)) (us @ ?x # vs)" using ok key(1) uv by (auto simp: lists_ok_def list_all2_conv_all_nth)
  moreover have "\<forall>k \<in> set (us @ ?x # vs). slab_has S ?s k" using node_present [OF ok key(1)] uv by simp
  ultimately obtain l s1 where r: "ll_remove (slab_backend S) (ai_keys (?ais ! ?i)) ?s ?x = Some (l, s1)" "represents (slab_link S s1) l (us @ vs)"
      "nodes.frame (set (us @ ?x # vs)) ?s s1"
    using nodes.remove_ok by blast
  let ?s2 = "sl_remove S s1 ?x" and ?ais2 = "?ais[?i := (?ais ! ?i)\<lparr>ai_keys := l\<rparr>]" and ?kss = "kss[?i := us @ vs]"
  obtain n where n: "sl_get S s1 ?x = Some n" "lists_ok S ?s2 ?ais2 ?kss" "same_values S (dom (sl_get S ?s) - {?x}) ?s ?s2"
    using detached [OF ok key(1) uv r(3,2)] by blast
  let ?b = "b\<lparr>ba_nodes := ?s2, ba_addrs := ?ais2\<rparr>"
  have sub: "set (concat ?kss) \<subseteq> dom (sl_get S ?s) - {?x}"
    using d unfolding d(2) [symmetric] concat_update(1) [OF key(1)] concat_update(2) [OF key(1)] uv by auto
  have "entries S ?s2 ?ais2 ?kss = entries S ?s ?ais2 ?kss" by (rule entries_cong [OF same_values_sub [OF n(3) sub]])
  also have "... = entries S ?s ?ais ?kss"
    by (rule entries_addrs) (use len key(1) in \<open>auto simp: list_all2_conv_all_nth nth_list_update\<close>)
  finally have "mset (entries S ?s ?ais kss) = add_mset (ai_addr (?ais ! ?i), ai_use_router (?ais ! ?i), node_ckey S ?s ?x) (mset (entries S ?s2 ?ais2 ?kss))"
    using entries_split [of ?ais ?kss ?i S ?s] entries_split [of ?ais kss ?i S ?s] len key(1) uv by simp
  moreover have "batch_remove S b key = Some ?b" using r(1) n(1) key(1) len by (simp add: batch_remove_def index_at_def slab_take_def)
  moreover have "concat (take (ba_addr_index b) ?kss) = []"
  proof (cases "ba_addr_index b \<le> ?i")
    case True
    then show ?thesis using rel by (simp add: batch_rel_def)
  next
    case False
    then have "kss ! ?i \<in> set (take (ba_addr_index b) kss)" using key(1) by (metis in_set_conv_nth length_take min_less_iff_conj not_le nth_take)
    then show ?thesis using rel uv by (auto simp: batch_rel_def)
  qed
  ultimately show ?thesis using rel n(2,3) by (intro exI [of _ ?b] exI [of _ ?kss]) (simp add: batch_rel_def same_values_def)
qed

end

section \<open>Contents\<close>

definition batch_contents :: "'s node_slab \<Rightarrow> 's batch \<Rightarrow> (bytes \<times> bool \<times> nat) list" where
  "batch_contents S b =
     concat (map (\<lambda>ai. case ll_iter (slab_backend S) (ai_keys ai) (ba_nodes b) of
         Some ks \<Rightarrow> map (\<lambda>k. (ai_addr ai, ai_use_router ai, node_ckey S (ba_nodes b) k)) ks | None \<Rightarrow> []) (ba_addrs b))"

definition batch_has :: "'s node_slab \<Rightarrow> 's batch \<Rightarrow> batch_key \<Rightarrow> bool" where
  "batch_has S b key \<longleftrightarrow> bk_addr_index key < length (ba_addrs b)
     \<and> (case ll_iter (slab_backend S) (ai_keys (ba_addrs b ! bk_addr_index key)) (ba_nodes b) of Some ks \<Rightarrow> bk_nkey key \<in> set ks | None \<Rightarrow> False)"

definition key_entry :: "'s node_slab \<Rightarrow> 's batch \<Rightarrow> batch_key \<Rightarrow> bytes \<times> bool \<times> nat" where
  "key_entry S b key = (ai_addr (ba_addrs b ! bk_addr_index key), ai_use_router (ba_addrs b ! bk_addr_index key), node_ckey S (ba_nodes b) (bk_nkey key))"

lemma find_addr_spec:
  "find_addr addr router n ais pos = pos \<or> (\<exists>j < length ais. find_addr addr router n ais pos = n + j \<and> ai_addr (ais ! j) = addr \<and> ai_use_router (ais ! j) = router)"
proof (induction ais arbitrary: n pos)
  case (Cons ai ais)
  let ?pos = "if ai_addr ai = addr \<and> ai_use_router ai = router then n else pos"
  from Cons.IH [of "n + 1" ?pos] show ?case
  proof (elim disjE exE conjE)
    fix j
    assume "j < length ais" "find_addr addr router (n + 1) ais ?pos = n + 1 + j" "ai_addr (ais ! j) = addr" "ai_use_router (ais ! j) = router"
    then show ?thesis by (intro disjI2 exI [of _ "Suc j"]) simp
  qed (auto intro: exI [of _ 0])
qed simp

context batch_nodes
begin

lemma rel_iter:
  assumes "batch_rel S b kss" and "i < length (ba_addrs b)"
  shows "i < length kss \<and> ll_iter (slab_backend S) (ai_keys (ba_addrs b ! i)) (ba_nodes b) = Some (kss ! i)"
proof -
  have ok: "lists_ok S (ba_nodes b) (ba_addrs b) kss" using assms(1) by (simp add: batch_rel_def)
  then have len: "length (ba_addrs b) = length kss" by (auto simp: lists_ok_def list_all2_conv_all_nth)
  then have "represents (slab_link S (ba_nodes b)) (ai_keys (ba_addrs b ! i)) (kss ! i)" using ok assms(2) by (auto simp: lists_ok_def list_all2_conv_all_nth)
  then show ?thesis using nodes.iter_ok node_present [OF ok] assms(2) len by simp
qed

lemma contents_entries:
  assumes "batch_rel S b kss"
  shows "batch_contents S b = batch_entries S b kss"
proof -
  have len: "length (ba_addrs b) = length kss" using assms by (auto simp: batch_rel_def lists_ok_def list_all2_conv_all_nth)
  have gen: "concat (map (\<lambda>ai. case ll_iter (slab_backend S) (ai_keys ai) s of Some ks \<Rightarrow> map (\<lambda>k. (ai_addr ai, ai_use_router ai, node_ckey S s k)) ks | None \<Rightarrow> []) ais)
      = entries S s ais kss" if "length ais = length kss" "\<forall>i < length ais. ll_iter (slab_backend S) (ai_keys (ais ! i)) s = Some (kss ! i)" for ais kss s
    using that by (induction ais kss rule: list_induct2) (auto simp: All_less_Suc2)
  show ?thesis unfolding batch_contents_def by (rule gen [OF len]) (use rel_iter [OF assms] in blast)
qed

lemma has_key: "batch_rel S b kss \<Longrightarrow> batch_has S b key \<longleftrightarrow> bk_addr_index key < length kss \<and> bk_nkey key \<in> set (kss ! bk_addr_index key)"
  using rel_iter [of b kss "bk_addr_index key"] by (auto simp: batch_has_def batch_rel_def lists_ok_def list_all2_conv_all_nth)

lemma entries_length: "length ais = length kss \<Longrightarrow> length (entries S s ais kss) = length (concat kss)"
  by (induction ais kss rule: list_induct2) auto

lemma rel_len: "batch_rel S b kss \<Longrightarrow> sl_len S (ba_nodes b) = length (batch_entries S b kss)"
  using entries_length [of "ba_addrs b" kss "ba_nodes b"] distinct_card [of "concat kss"]
  by (auto simp: batch_rel_def lists_ok_def len_card list_all2_conv_all_nth)

lemma add_ok:
  assumes rel: "batch_rel S b kss" and fit: "length (batch_entries S b kss) \<le> sl_capacity S (ba_nodes b)" and addr: "length to_addr \<le> FROM_MAX"
  shows "\<exists>r b' kss'. batch_add S b to_addr router ckey = Some (r, b') \<and> batch_rel S b' kss'
    \<and> ba_addrs_cap b' = ba_addrs_cap b \<and> sl_capacity S (ba_nodes b') = sl_capacity S (ba_nodes b)
    \<and> (case r of Inl _ \<Rightarrow> batch_entries S b' kss' = batch_entries S b kss
          \<and> (batch_entries S b kss = [] \<longrightarrow> sl_capacity S (ba_nodes b) = 0 \<or> ba_addrs_cap b = 0)
       | Inr key \<Rightarrow> batch_has S b' key \<and> mset (batch_entries S b' kss') = add_mset (to_addr, router, ckey) (mset (batch_entries S b kss))
          \<and> length (batch_entries S b kss) < sl_capacity S (ba_nodes b))"
proof (cases "sl_len S (ba_nodes b) = sl_capacity S (ba_nodes b)")
  case True
  then show ?thesis using rel rel_len [OF rel] by (intro exI [of _ "Inl ()"] exI [of _ b] exI [of _ kss]) (auto simp: batch_add_def)
next
  case False
  then have room: "sl_len S (ba_nodes b) < sl_capacity S (ba_nodes b)" using fit rel_len [OF rel] by simp
  define b0 where "b0 = (if sl_len S (ba_nodes b) = 0 then b\<lparr>ba_addrs := [], ba_addr_index := 0\<rparr> else b)"
  obtain kss0 where rel0: "batch_rel S b0 kss0" "batch_entries S b0 kss0 = batch_entries S b kss" "batch_entries S b kss = [] \<longrightarrow> ba_addrs b0 = []"
  proof (cases "sl_len S (ba_nodes b) = 0")
    case True
    then have "batch_rel S b0 []" using len_zero_iff [of "ba_nodes b"] by (auto simp: b0_def batch_rel_def lists_ok_def)
    then show ?thesis using that [of "[]"] True rel_len [OF rel] by (simp add: b0_def)
  next
    case False
    then show ?thesis using that [of kss] rel rel_len [OF rel] by (auto simp: b0_def)
  qed
  have same: "ba_nodes b0 = ba_nodes b" "ba_addrs_cap b0 = ba_addrs_cap b" by (simp_all add: b0_def)
  have room0: "sl_len S (ba_nodes b0) < sl_capacity S (ba_nodes b0)" using room same by simp
  have len: "length (ba_addrs b0) = length kss0" using rel0(1) by (auto simp: batch_rel_def lists_ok_def list_all2_conv_all_nth)
  let ?pos = "find_addr to_addr router 0 (ba_addrs b0) (length (ba_addrs b0))"
  have pos: "?pos = length (ba_addrs b0) \<or> (?pos < length (ba_addrs b0) \<and> ai_addr (ba_addrs b0 ! ?pos) = to_addr \<and> ai_use_router (ba_addrs b0 ! ?pos) = router)"
    using find_addr_spec [of to_addr router 0 "ba_addrs b0" "length (ba_addrs b0)"] by auto
  have add: "batch_add S b to_addr router ckey =
      (if ?pos = length (ba_addrs b0) then
         if length (ba_addrs b0) = ba_addrs_cap b0 then Some (Inl (), b0)
         else map_option (\<lambda>(key, b). (Inr key, b))
           (batch_push S (b0\<lparr>ba_addrs := ba_addrs b0 @ [\<lparr>ai_addr = to_addr, ai_use_router = router, ai_keys = ll_empty\<rparr>]\<rparr>) ?pos ckey)
       else if ?pos < ba_addr_index b0 then Some (Inl (), b0)
       else map_option (\<lambda>(key, b). (Inr key, b)) (batch_push S b0 ?pos ckey))"
    using False addr by (simp add: batch_add_def b0_def [symmetric] Let_def split: bind_split)
  consider (full) "?pos = length (ba_addrs b0)" "length (ba_addrs b0) = ba_addrs_cap b0" | (new) "?pos = length (ba_addrs b0)" "length (ba_addrs b0) \<noteq> ba_addrs_cap b0"
    | (past) "?pos < length (ba_addrs b0)" "?pos < ba_addr_index b0"
    | (old) "?pos < length (ba_addrs b0)" "ba_addr_index b0 \<le> ?pos" "ai_addr (ba_addrs b0 ! ?pos) = to_addr" "ai_use_router (ba_addrs b0 ! ?pos) = router"
    using pos by fastforce
  then show ?thesis
  proof cases
    case full
    then show ?thesis using add rel0 same by (intro exI [of _ "Inl ()"] exI [of _ b0] exI [of _ kss0]) auto
  next
    case past
    then show ?thesis using add rel0 same by (intro exI [of _ "Inl ()"] exI [of _ b0] exI [of _ kss0]) auto
  next
    case old
    obtain key b' kss' where p: "batch_push S b0 ?pos ckey = Some (key, b')" "batch_rel S b' kss'" "bk_addr_index key = ?pos" "?pos < length kss'" "bk_nkey key \<in> set (kss' ! ?pos)"
        "mset (batch_entries S b' kss') = add_mset (to_addr, router, ckey) (mset (batch_entries S b0 kss0))" "ba_addrs_cap b' = ba_addrs_cap b0" "sl_capacity S (ba_nodes b') = sl_capacity S (ba_nodes b0)"
      using push_ok [OF rel0(1) _ old(2) room0, of ckey] old len by auto
    then show ?thesis using add old same rel0(2) room rel_len [OF rel] has_key [OF p(2)]
      by (intro exI [of _ "Inr key"] exI [of _ b'] exI [of _ kss']) simp
  next
    case new
    let ?b = "b0\<lparr>ba_addrs := ba_addrs b0 @ [\<lparr>ai_addr = to_addr, ai_use_router = router, ai_keys = ll_empty\<rparr>]\<rparr>"
    have relb: "batch_rel S ?b (kss0 @ [[]])" using rel0(1) by (auto simp: batch_rel_def lists_ok_def list_all2_appendI len)
    have e: "batch_entries S ?b (kss0 @ [[]]) = batch_entries S b0 kss0" using entries_append [OF len, of S "ba_nodes b0" "[\<lparr>ai_addr = to_addr, ai_use_router = router, ai_keys = ll_empty\<rparr>]" "[[]]"] by simp
    have "?pos < length (kss0 @ [[]])" "ba_addr_index ?b \<le> ?pos" using new len rel0(1) by (auto simp: batch_rel_def)
    moreover have "sl_len S (ba_nodes ?b) < sl_capacity S (ba_nodes ?b)" using room0 by simp
    ultimately obtain key b' kss' where p: "batch_push S ?b ?pos ckey = Some (key, b')" "batch_rel S b' kss'" "bk_addr_index key = ?pos" "?pos < length kss'" "bk_nkey key \<in> set (kss' ! ?pos)"
        "mset (batch_entries S b' kss') = add_mset (ai_addr (ba_addrs ?b ! ?pos), ai_use_router (ba_addrs ?b ! ?pos), ckey) (mset (batch_entries S ?b (kss0 @ [[]])))"
        "ba_addrs_cap b' = ba_addrs_cap ?b" "sl_capacity S (ba_nodes b') = sl_capacity S (ba_nodes ?b)"
      using push_ok [OF relb, of ?pos ckey] by blast
    then show ?thesis using add new same rel0(2) room rel_len [OF rel] has_key [OF p(2)] e
      by (intro exI [of _ "Inr key"] exI [of _ b'] exI [of _ kss']) simp
  qed
qed

end

interpretation vec_batch: batch_nodes vec_slab_ops
  by (simp add: batch_nodes_def slab_nodesI vec.slab_spec_axioms)

lemma batch_nodesI: "slab_spec S \<Longrightarrow> batch_nodes S"
  by (simp add: batch_nodes_def slab_nodesI)

section \<open>Runs\<close>

text \<open>
  The batches that the calls of a server lead to. A key is for one call of \<open>remove\<close>, while its connection is in the batch;
  the addresses of connections have at most 64 bytes.
\<close>

inductive batch_reach :: "'s node_slab \<Rightarrow> nat \<Rightarrow> 's batch \<Rightarrow> bool" for S capacity where
  new: "batch_reach S capacity (batch_new S capacity)"
| add: "batch_reach S capacity b \<Longrightarrow> length addr \<le> FROM_MAX \<Longrightarrow> batch_add S b addr router ckey = Some (r, b') \<Longrightarrow> batch_reach S capacity b'"
| remove: "batch_reach S capacity b \<Longrightarrow> batch_has S b key \<Longrightarrow> batch_remove S b key = Some b' \<Longrightarrow> batch_reach S capacity b'"
| take: "batch_reach S capacity b \<Longrightarrow> take_group S incl b = Some (g, b') \<Longrightarrow> batch_reach S capacity b'"
| clear: "batch_reach S capacity b \<Longrightarrow> batch_reach S capacity (batch_clear S b)"

lemma mset_entry_length: "mset xs = add_mset x (mset ys) \<Longrightarrow> length xs = Suc (length ys)"
  by (metis size_add_mset size_mset)

context batch_nodes
begin

lemma reach_rel:
  assumes "batch_reach S capacity b"
  shows "(\<exists>kss. batch_rel S b kss \<and> length (batch_entries S b kss) \<le> sl_capacity S (ba_nodes b))
    \<and> sl_capacity S (ba_nodes b) = sl_capacity S (sl_with_capacity S capacity) \<and> ba_addrs_cap b = capacity"
  using assms
proof (induction rule: batch_reach.induct)
  case new
  have "batch_rel S (batch_new S capacity) []" by (auto simp: batch_rel_def lists_ok_def batch_new_def)
  then show ?case by (intro conjI exI [of _ "[]"]) (auto simp: batch_new_def)
next
  case (add b addr router ckey r b')
  then obtain kss where rel: "batch_rel S b kss" "length (batch_entries S b kss) \<le> sl_capacity S (ba_nodes b)" by blast
  obtain kss' where "batch_rel S b' kss'" "ba_addrs_cap b' = ba_addrs_cap b" "sl_capacity S (ba_nodes b') = sl_capacity S (ba_nodes b)"
      "case r of Inl _ \<Rightarrow> batch_entries S b' kss' = batch_entries S b kss | Inr _ \<Rightarrow>
         mset (batch_entries S b' kss') = add_mset (addr, router, ckey) (mset (batch_entries S b kss)) \<and> length (batch_entries S b kss) < sl_capacity S (ba_nodes b)"
    using add_ok [OF rel add.hyps(2), of router ckey] add.hyps(3) by (cases r) auto
  moreover from this(4) have "length (batch_entries S b' kss') \<le> sl_capacity S (ba_nodes b)"
    using rel(2) by (cases r) (simp_all add: mset_entry_length)
  ultimately show ?case using add.IH by auto
next
  case (remove b key b')
  then obtain kss where rel: "batch_rel S b kss" "length (batch_entries S b kss) \<le> sl_capacity S (ba_nodes b)" by blast
  obtain kss' x where r: "batch_rel S b' kss'" "mset (batch_entries S b kss) = add_mset x (mset (batch_entries S b' kss'))"
      "ba_addrs_cap b' = ba_addrs_cap b" "sl_capacity S (ba_nodes b') = sl_capacity S (ba_nodes b)"
    using removed_ok [OF rel(1), of key] iffD1 [OF has_key [OF rel(1), of key] remove.hyps(2)] remove.hyps(3) by auto
  then have "length (batch_entries S b' kss') \<le> sl_capacity S (ba_nodes b)" using rel(2) mset_entry_length [OF r(2)] by simp
  then show ?case using r remove.IH by auto
next
  case (take b incl g b')
  then obtain kss where rel: "batch_rel S b kss" "length (batch_entries S b kss) \<le> sl_capacity S (ba_nodes b)" by blast
  obtain k kss' where "batch_rel S b' kss'" "batch_entries S b' kss' = drop k (batch_entries S b kss)" "ba_addrs_cap b' = ba_addrs_cap b"
      "sl_capacity S (ba_nodes b') = sl_capacity S (ba_nodes b)"
    using take_group_ok [OF rel(1), of incl] take.hyps(2) by auto
  then show ?case using take.IH rel(2) by (intro conjI exI [of _ kss']) auto
next
  case (clear b)
  have "batch_rel S (batch_clear S b) []" by (auto simp: batch_rel_def lists_ok_def batch_clear_def)
  then show ?case using clear.IH by (intro conjI exI [of _ "[]"]) (auto simp: batch_clear_def)
qed

end

section \<open>Properties\<close>

text \<open>
  Property C15. A batch gives every connection back once, to the right peer. In every state that the calls lead to, with any choice by the
  caller of the connections to include: adding puts the connection with its address into the batch, or fails and
  changes nothing, and an empty batch accepts a connection; removing takes out the connection of the key; and
  \<open>take_group\<close> takes a non-empty part from the front of the contents, reports each connection in it with its flag, gives the ids of the
  included ones, at most 128, all of which have the address of the group, and returns nothing only when the batch is
  empty. No call panics.
\<close>

theorem batch_groups_connections:
  fixes S :: "'s node_slab"
  assumes S: "slab_spec S" and run: "batch_reach S capacity b"
  shows "length (batch_contents S b) = batch_len S b
    \<and> (length addr \<le> FROM_MAX \<longrightarrow> (\<exists>r b'. batch_add S b addr router ckey = Some (r, b')
         \<and> (case r of Inl _ \<Rightarrow> batch_contents S b' = batch_contents S b \<and> (0 < capacity \<longrightarrow> batch_contents S b \<noteq> [])
            | Inr key \<Rightarrow> batch_has S b' key \<and> mset (batch_contents S b') = add_mset (addr, router, ckey) (mset (batch_contents S b)))))
    \<and> (batch_has S b key \<longrightarrow> (\<exists>b'. batch_remove S b key = Some b' \<and> mset (batch_contents S b) = add_mset (key_entry S b key) (mset (batch_contents S b'))))
    \<and> (\<exists>g b' k. take_group S incl b = Some (g, b') \<and> batch_contents S b' = drop k (batch_contents S b)
         \<and> (case g of None \<Rightarrow> batch_contents S b = []
            | Some g \<Rightarrow> 0 < k \<and> bg_removed g = flagged incl (ckeys (take k (batch_contents S b)))
                \<and> bg_ids g = included_ids incl (ckeys (take k (batch_contents S b))) \<and> length (bg_ids g) \<le> IDS_MAX
                \<and> (\<forall>(a, r, c) \<in> set (take k (batch_contents S b)). incl c \<noteq> None \<longrightarrow> a = bg_addr g \<and> r = bg_use_router g)))"
proof -
  note B = batch_nodesI [OF S]
  obtain kss where rel: "batch_rel S b kss" "length (batch_entries S b kss) \<le> sl_capacity S (ba_nodes b)"
      "sl_capacity S (ba_nodes b) = sl_capacity S (sl_with_capacity S capacity)" "ba_addrs_cap b = capacity"
    using batch_nodes.reach_rel [OF B run] by blast
  note ce = batch_nodes.contents_entries [OF B]
  have cap: "0 < capacity \<Longrightarrow> 0 < sl_capacity S (ba_nodes b)" using slab_spec.capacity_with_capacity [OF S, of capacity] rel(3) by simp
  have "length (batch_contents S b) = batch_len S b" using ce [OF rel(1)] batch_nodes.rel_len [OF B rel(1)] by (simp add: batch_len_def)
  moreover have "\<exists>r b'. batch_add S b addr router ckey = Some (r, b')
         \<and> (case r of Inl _ \<Rightarrow> batch_contents S b' = batch_contents S b \<and> (0 < capacity \<longrightarrow> batch_contents S b \<noteq> [])
            | Inr key \<Rightarrow> batch_has S b' key \<and> mset (batch_contents S b') = add_mset (addr, router, ckey) (mset (batch_contents S b)))" if a: "length addr \<le> FROM_MAX"
  proof -
    obtain r b' kss' where "batch_add S b addr router ckey = Some (r, b')" "batch_rel S b' kss'"
        "case r of Inl _ \<Rightarrow> batch_entries S b' kss' = batch_entries S b kss \<and> (batch_entries S b kss = [] \<longrightarrow> sl_capacity S (ba_nodes b) = 0 \<or> ba_addrs_cap b = 0)
         | Inr key \<Rightarrow> batch_has S b' key \<and> mset (batch_entries S b' kss') = add_mset (addr, router, ckey) (mset (batch_entries S b kss))
            \<and> length (batch_entries S b kss) < sl_capacity S (ba_nodes b)"
      using batch_nodes.add_ok [OF B rel(1,2) a] by blast
    then show ?thesis using ce [OF rel(1)] ce [of b' kss'] cap rel(4) by (intro exI [of _ r] exI [of _ b']) (auto split: sum.splits)
  qed
  moreover have "\<exists>b'. batch_remove S b key = Some b' \<and> mset (batch_contents S b) = add_mset (key_entry S b key) (mset (batch_contents S b'))" if "batch_has S b key"
    using batch_nodes.removed_ok [OF B rel(1), of key] batch_nodes.has_key [OF B rel(1)] that ce [OF rel(1)] ce by (fastforce simp: key_entry_def)
  moreover have "\<exists>g b' k. take_group S incl b = Some (g, b') \<and> batch_contents S b' = drop k (batch_contents S b)
         \<and> (case g of None \<Rightarrow> batch_contents S b = []
            | Some g \<Rightarrow> 0 < k \<and> bg_removed g = flagged incl (ckeys (take k (batch_contents S b)))
                \<and> bg_ids g = included_ids incl (ckeys (take k (batch_contents S b))) \<and> length (bg_ids g) \<le> IDS_MAX
                \<and> (\<forall>(a, r, c) \<in> set (take k (batch_contents S b)). incl c \<noteq> None \<longrightarrow> a = bg_addr g \<and> r = bg_use_router g))"
  proof -
    obtain k g b' kss' where t: "take_group S incl b = Some (g, b')" "batch_rel S b' kss'" "batch_entries S b' kss' = drop k (batch_entries S b kss)"
      "case g of None \<Rightarrow> batch_entries S b kss = []
       | Some g \<Rightarrow> 0 < k \<and> k \<le> length (batch_entries S b kss) \<and> bg_removed g = flagged incl (ckeys (take k (batch_entries S b kss)))
           \<and> bg_ids g = included_ids incl (ckeys (take k (batch_entries S b kss))) \<and> length (bg_ids g) \<le> IDS_MAX
           \<and> (bg_ids g = [] \<longrightarrow> k = length (batch_entries S b kss))
           \<and> (\<forall>(a, r, c) \<in> set (take k (batch_entries S b kss)). incl c \<noteq> None \<longrightarrow> a = bg_addr g \<and> r = bg_use_router g)"
      using batch_nodes.take_group_ok [OF B rel(1), of incl] by blast
    have "batch_contents S b' = drop k (batch_entries S b kss)" using ce [OF t(2)] t(3) by (rule trans)
    moreover have "case g of None \<Rightarrow> batch_entries S b kss = []
       | Some g \<Rightarrow> 0 < k \<and> bg_removed g = flagged incl (ckeys (take k (batch_entries S b kss)))
           \<and> bg_ids g = included_ids incl (ckeys (take k (batch_entries S b kss))) \<and> length (bg_ids g) \<le> IDS_MAX
           \<and> (\<forall>(a, r, c) \<in> set (take k (batch_entries S b kss)). incl c \<noteq> None \<longrightarrow> a = bg_addr g \<and> r = bg_use_router g)"
    proof (cases g)
      case None
      show ?thesis using t(4) unfolding None option.case .
    next
      case (Some gr)
      show ?thesis using t(4) unfolding Some option.case by (elim conjE) (intro conjI)
    qed
    ultimately show ?thesis unfolding ce [OF rel(1)] using t(1) by blast
  qed
  ultimately show ?thesis by blast
qed

theorem batch_groups_connections_witness:
  "\<exists>key b1. batch_add vec_slab_ops (batch_new vec_slab_ops 2) [97] False 7 = Some (Inr key, b1)
     \<and> batch_contents vec_slab_ops b1 = [([97], False, 7)]
     \<and> (\<exists>b'. batch_remove vec_slab_ops b1 key = Some b' \<and> batch_contents vec_slab_ops b' = [])
     \<and> (\<exists>g b'. take_group vec_slab_ops (\<lambda>c. Some ([98], 5)) b1 = Some (Some g, b')
          \<and> bg_addr g = [97] \<and> bg_removed g = [(7, True)] \<and> bg_ids g = [\<lparr>id_id = [98], id_seq = Some 5\<rparr>] \<and> batch_contents vec_slab_ops b' = [])"
proof -
  let ?S = "vec_slab_ops :: (nat slab_node vec_slab, nat slab_node) slab_ops" and ?incl = "\<lambda>c :: nat. Some ([98 :: u8], 5 :: u32)"
  let ?b = "batch_new ?S 2"
  note ok = batch_groups_connections [OF vec.slab_spec_axioms]
  have new: "batch_reach ?S 2 ?b" by (rule batch_reach.new)
  note n = ok [OF new, where addr = "[97]" and router = False and ckey = 7]
  have empty: "batch_contents ?S ?b = []" by (simp add: batch_contents_def batch_new_def)
  have small: "length [97 :: u8] \<le> FROM_MAX" by (simp add: FROM_MAX_def)
  obtain r b1 where r: "batch_add ?S ?b [97] False 7 = Some (r, b1)"
      "case r of Inl _ \<Rightarrow> batch_contents ?S b1 = [] \<and> (0 < (2 :: nat) \<longrightarrow> [] \<noteq> ([] :: (bytes \<times> bool \<times> nat) list))
       | Inr key \<Rightarrow> batch_has ?S b1 key \<and> mset (batch_contents ?S b1) = add_mset ([97], False, 7) (mset [])"
    using mp [OF conjunct1 [OF conjunct2 [OF n]] small] unfolding empty by blast
  obtain key where key: "r = Inr key" using r(2) by (cases r) auto
  have add: "batch_add ?S ?b [97] False 7 = Some (Inr key, b1)" "batch_has ?S b1 key" "mset (batch_contents ?S b1) = {#([97], False, 7)#}"
    using r unfolding key by simp_all
  have c1: "batch_contents ?S b1 = [([97], False, 7)]" using add(3) by simp
  have "batch_reach ?S 2 b1" using batch_reach.add [OF new small add(1)] .
  note m = ok [OF this, where addr = "[97]" and key = key and incl = ?incl]
  have "\<exists>b'. batch_remove ?S b1 key = Some b' \<and> batch_contents ?S b' = []" using mp [OF conjunct1 [OF conjunct2 [OF conjunct2 [OF m]]] add(2)] c1 by auto
  moreover obtain g b' k where t: "take_group ?S ?incl b1 = Some (g, b')" "batch_contents ?S b' = drop k (batch_contents ?S b1)"
      "case g of None \<Rightarrow> batch_contents ?S b1 = []
       | Some g \<Rightarrow> 0 < k \<and> bg_removed g = flagged ?incl (ckeys (take k (batch_contents ?S b1)))
          \<and> bg_ids g = included_ids ?incl (ckeys (take k (batch_contents ?S b1))) \<and> length (bg_ids g) \<le> IDS_MAX
          \<and> (\<forall>(a, r, c) \<in> set (take k (batch_contents ?S b1)). ?incl c \<noteq> None \<longrightarrow> a = bg_addr g \<and> r = bg_use_router g)"
    using conjunct2 [OF conjunct2 [OF conjunct2 [OF m]]] by blast
  moreover obtain gr where "g = Some gr" "0 < k" using t(3) c1 by (cases g) auto
  ultimately show ?thesis using add(1) c1 by (intro exI [of _ key] exI [of _ b1]) (auto simp: take_Cons' flagged_def)
qed

end
