(* ===== verification/Spec2Isabelle.thy ===== *)
theory Spec2Isabelle
  imports Counter Buffer Vectored BufferBudget LinkedList SlabList LocalChannel TimerBits TimerWheel
    Text Tnetstring TnetWriter TnetSerde WsFrame WsDeflate WsMask WsProtocol HttpText WsHandshake
    Http1Chunk Http1Server Http1Client Http1Body Http1Framing ZhttpPacket ZhttpRoundtrip ZhttpTotal ZhttpSession SessionLink
    Http1Stream ZhttpFlow FlowCredits BodyForward Batch
begin

text \<open>
  Verification of the Rust core of Pushpin (\<open>src/src/\<close>), a proxy that holds open HTTP and WebSocket
  connections on behalf of a backend.

  \<^bold>\<open>The program.\<close> The connection manager (\<open>connmgr\<close>) accepts connections from clients (\<open>server.rs\<close>) and makes
  connections to backends (\<open>client.rs\<close>). Each connection is a task (\<open>connection.rs\<close>) that speaks HTTP/1
  (\<open>core/http1\<close>) or WebSocket (\<open>websocket.rs\<close>) on its socket, and on the other side exchanges zhttp packets
  (\<open>zhttppacket.rs\<close>), encoded as tnetstrings (\<open>core/tnetstring.rs\<close>), with the rest of the system. Bytes in
  transit are in ring buffers whose growth is limited by a shared budget (\<open>core/buffer.rs\<close>,
  \<open>core/counter.rs\<close>). Tasks of one thread are connected by bounded channels (\<open>core/channel.rs\<close>), and their
  timeouts are kept in a timer wheel (\<open>core/timer.rs\<close>); both link their entries through the slab lists of
  \<open>core/list.rs\<close>.

  \<^bold>\<open>The theories.\<close> A source file or a coherent part of one has a theory, in the order in which they build on
  each other.

  \<^item> \<open>Prelude\<close>, \<open>Text\<close>: machine types, results (\<open>None\<close> of \<open>'a run\<close> is a panic, \<open>Inl\<close> an error value), slices,
    decimal numbers and UTF-8 as the standard library defines them.
  \<^item> \<open>Counter\<close> (\<open>core/counter.rs\<close>): the shared counter, with the compare-and-swap loops interleaved over any
    number of threads. Linearizable, and never out of the range of \<open>usize\<close>.
  \<^item> \<open>Buffer\<close>, \<open>Vectored\<close>, \<open>BufferBudget\<close> (\<open>core/buffer.rs\<close>): \<open>RingBuffer\<close>, \<open>ContiguousBuffer\<close>, the helpers for
    lists of slices, and \<open>BufferBudget\<close>. Both buffers satisfy the locale \<open>byte_queue\<close> (what the trait \<open>Buffer\<close>
    promises) and are \<open>byte_sink\<close>s (what \<open>Write\<close> documents); \<open>align\<close> keeps the contents; blocks are conserved.
  \<^item> \<open>LinkedList\<close>, \<open>SlabList\<close> (\<open>core/list.rs\<close>): \<open>List\<close> over an abstract backend, the locale \<open>list_backend\<close>, and its two
    implementations. Any operations act on a plain sequence and leave other lists alone.
  \<^item> \<open>TimerBits\<close>, \<open>TimerWheel\<close> (\<open>core/timer.rs\<close>): the bit arithmetic equals its tick-by-tick definition; the wheel
    refines a clock with a map from keys to times.
  \<^item> \<open>LocalChannel\<close> (\<open>core/channel.rs\<close>, \<open>LocalSender\<close> and \<open>LocalReceiver\<close>): first in, first out; no lost wake-up
    as long as no sender is refused for want of a receiver.
  \<^item> \<open>Tnetstring\<close>, \<open>TnetWriter\<close>, \<open>TnetSerde\<close> (\<open>core/tnetstring.rs\<close>): the parsers and iterators, exactly when they
    panic, the writer that measures before it writes, and the serde serializer, all against \<open>tnet_encode\<close>.
  \<^item> \<open>ZhttpPacket\<close>, \<open>ZhttpRoundtrip\<close>, \<open>ZhttpTotal\<close> (\<open>connmgr/zhttppacket.rs\<close>): every packet type, its serializer
    and parser; serialization and parsing are inverse, the quick scan of the ids agrees with the parser on every message with one id field, and the
    parsers are total on untrusted bytes.
  \<^item> \<open>WsFrame\<close>, \<open>WsDeflate\<close>, \<open>WsMask\<close>, \<open>WsProtocol\<close> (\<open>connmgr/websocket.rs\<close>): frame headers and masking, the
    compression layer with the withheld sync marker, masking in place around the decoder, and the session
    (\<open>Protocol\<close>) with its close handshake and the delivery of its frames.
  \<^item> \<open>HttpText\<close>, \<open>Http1Chunk\<close>, \<open>Http1Server\<close>, \<open>Http1Client\<close>, \<open>Http1Body\<close>, \<open>Http1Framing\<close> (\<open>core/http1/protocol.rs\<close>):
    header text and iterators, chunks, the two sides of the protocol as state machines, the round trip of a
    chunked body between them, and what each concludes from the other's header about the framing of a message.
  \<^item> \<open>WsHandshake\<close> (\<open>connmgr/connection.rs\<close>): the WebSocket upgrade on both sides and its negotiation, with and without
    extension headers of the handler.
  \<^item> \<open>ZhttpSession\<close>, \<open>SessionLink\<close> (\<open>connmgr/connection.rs\<close>): the two halves of a session in both roles, with sequence
    numbers and credits, and the tracker of websocket messages. Sessions are composed with the packets and
    the local channel: whatever the order of the calls, packets arrive in order, none is refused.
  \<^item> \<open>Http1Stream\<close> (\<open>core/http1/server.rs\<close>, \<open>client.rs\<close>): bodies over the buffers of a connection, one poll at a
    time: reading out of the receive buffer, preparing and sending out of the send buffer.
  \<^item> \<open>ZhttpFlow\<close>, \<open>FlowCredits\<close>, \<open>BodyForward\<close> (\<open>connmgr/connection.rs\<close>): the loops that move a body between the socket and
    the handler, as steps over the futures that are under way, with handoffs. What a connection offers in
    credits always fits its send buffer (through the contract \<open>body_sender\<close> of the two send operations), and it
    never sends more than the handler has offered (over any \<open>message_channel\<close>).
  \<^item> \<open>Batch\<close> (\<open>connmgr/batch.rs\<close>): the connections due for a keep-alive, in one slab list per peer address. Over any calls
    every connection comes back once, in a group of at most 128 ids that all have the address of the group.

  \<^bold>\<open>State and operations.\<close> A struct is a record with the fields of the source, an enum a datatype. A method is
  one definition that takes the state and returns the new one; \<open>?\<close>, early returns, asserts, indexing and
  \<open>unwrap\<close> are branches. Lengths of allocations are natural numbers, since Rust bounds an allocation by
  \<open>isize::MAX\<close>; numbers from the outside keep their width, and where the source adds them without a check, the flag
  \<open>oc\<close> says whether overflow panics (the profile \<open>dev\<close>) or wraps (\<open>release\<close>). Logging has no counterpart.

  \<^bold>\<open>Code that is not in the repository\<close> is a parameter, with what the code relies on as a named hypothesis:
  the slab crate (\<open>slab_spec\<close>, satisfied by \<open>vec_slab_ops\<close>), the codecs of \<open>miniz_oxide\<close> (\<open>codec_bounded\<close>), \<open>httparse\<close>
  (\<open>httparse_bounded\<close>, \<open>chunk_parser\<close>), the digest of the handshake (SHA-1 and Base64), the text of floats, and the
  writers of generic code (\<open>byte_sink\<close>, \<open>vectored_sink\<close>).

  \<^bold>\<open>Loops.\<close> Loops over data are structural. \<open>calc_len\<close> of the writer has fuel of twice the operations left, which
  is shown to be enough. Loops with no evident bound are partial functions into \<open>option\<close>, and the theorems say
  that they return: the parsers' \<open>for\<close> loops, the retried writes, the clearing of a channel, the reading of a
  request body. Bounded
  capacities of the source (128 ids, 64 headers, 1000 writer operations, 64 bytes of address) are those of the source.

  \<^bold>\<open>Where the code does not do what it means to\<close>, the theorem states what it does: a size field that overflows
  can make \<open>parse_frame\<close> panic, the smallest integer cannot be written, an array of ids followed by a string id makes
  \<open>parse_ids\<close> panic, a message can end without a final frame, a control frame can stall, a client that does not
  allow compression can refuse the answer to an offer it has forwarded, the end of a wrapped
  compressed message is signalled too early, a refused closing chunk makes the body be sent again, two
  cases of framing leave the peer waiting, and a chunk size line that arrives alone is delivered as data.

  \<^bold>\<open>Not modelled.\<close> The remaining tasks of \<open>connection.rs\<close> and the servers around them (\<open>server.rs\<close>, \<open>client.rs\<close>,
  \<open>zhttpsocket.rs\<close>) are asynchronous code over sockets, whose meaning is that of the reactor, the executor and the
  kernel. The reactor, event loop, sockets, TLS, ZeroMQ, files, configuration and logging (\<open>core/reactor.rs\<close>,
  \<open>core/eventloop.rs\<close>, \<open>core/net.rs\<close>, \<open>core/zmq.rs\<close>, \<open>connmgr/tls.rs\<close> and others) are wrappers around the operating
  system and third-party libraries. The process runner, the publishing API and the command line tools
  (\<open>runner\<close>, \<open>api\<close>, \<open>publish\<close>, \<open>bin\<close>) are glue. The proxy and the handler (\<open>src/src/proxy\<close>, \<open>src/src/handler\<close>) are
  C++ with thin Rust entry points.
\<close>

end
